(* ===== verification/Prelude.thy ===== *)
theory Prelude
  imports Main "HOL-Library.Word" "HOL-Library.List_Lexorder" "HOL-Library.Char_ord" "HOL-Library.AList"
begin

text \<open>
  Shared vocabulary of the development: the machine types of the Rust sources, the error type of
  \<^verbatim>\<open>src/error.rs\<close> and results as sums, the two container models (a \<^verbatim>\<open>BTreeMap\<close> as a strictly
  sorted association list, a \<^verbatim>\<open>HashMap\<close> as an association list without duplicate keys), and the
  generic lemmas on lists, results and worklist loops that the component theories share.
\<close>

section \<open>Collections of facts\<close>

named_theorems bole_wf \<open>well-formedness facts: an operation keeps the invariant of its component\<close>
named_theorems bole_unfold \<open>definitions of thin wrappers that component proofs unfold\<close>

section \<open>Machine types\<close>

type_synonym u8 = "8 word"
type_synonym u32 = "32 word"
type_synonym u64 = "64 word"
type_synonym bytes = "u8 list"

text \<open>
  A Rust \<^verbatim>\<open>String\<close> is a sequence of UTF-8 bytes, ordered bytewise. Isabelle's \<^typ>\<open>string\<close> is a list
  of 8-bit characters ordered lexicographically by their codes, so it is used for \<^verbatim>\<open>String\<close> and
  \<^verbatim>\<open>str\<close> throughout: one \<^typ>\<open>char\<close> is one byte.
\<close>

definition str_bytes :: "string \<Rightarrow> bytes" where
  "str_bytes s = map (\<lambda>c. of_char c) s"

lemma length_str_bytes [simp]: "length (str_bytes s) = length s"
  by (simp add: str_bytes_def)

lemma unat_of_char: "unat (of_char c :: u8) = of_char c"
proof -
  have "(of_char c :: u8) = of_nat (of_char c)" by (simp only: of_nat_of_char)
  moreover have "(of_char c :: nat) < 256" by (metis of_char_mod_256 mod_less_divisor zero_less_numeral)
  ultimately show ?thesis by (simp add: unat_of_nat)
qed

text \<open>Bytes back to characters, as \<^verbatim>\<open>String::from_utf8_lossy\<close> does on text.\<close>

definition bytes_str :: "bytes \<Rightarrow> string" where
  "bytes_str bs = map (\<lambda>b. char_of (unat b)) bs"

lemma bytes_str_str_bytes [simp]: "bytes_str (str_bytes s) = s"
  by (simp add: bytes_str_def str_bytes_def unat_of_char comp_def)

lemma of_char_u8_inj: "(of_char c :: u8) = of_char d \<longleftrightarrow> c = d"
  by (metis unat_of_char of_char_eq_iff)

lemma str_bytes_inj [simp]: "str_bytes s = str_bytes t \<longleftrightarrow> s = t"
  by (auto simp: str_bytes_def inj_map_eq_map inj_on_def of_char_u8_inj)

text \<open>\<^verbatim>\<open>u64::saturating_add\<close>.\<close>

definition saturating_add :: "u64 \<Rightarrow> u64 \<Rightarrow> u64" where
  "saturating_add a b = (if unat a + unat b < 2 ^ 64 then a + b else - 1)"

lemma unat_saturating_add: "unat (saturating_add a b) = min (unat a + unat b) (2 ^ 64 - 1)"
proof (cases "unat a + unat b < 2 ^ 64")
  case True
  then have "unat (a + b) = unat a + unat b" by (simp add: unat_add_lem [THEN iffD1])
  with True show ?thesis by (simp add: saturating_add_def)
next
  case False
  have "unat (- 1 :: u64) = 2 ^ 64 - 1" by (simp add: unsigned_minus_1_eq_mask mask_eq_exp_minus_1)
  with False show ?thesis by (simp add: saturating_add_def)
qed

text \<open>\<^verbatim>\<open>u64::saturating_sub\<close>.\<close>

definition saturating_sub :: "u64 \<Rightarrow> u64 \<Rightarrow> u64" where
  "saturating_sub a b = (if b \<le> a then a - b else 0)"

section \<open>Errors and results\<close>

text \<open>The error enum of \<^verbatim>\<open>src/error.rs\<close>, one constructor per variant.\<close>

datatype error =
    Codec string
  | Storage string
  | Io string
  | InvalidRefName string
  | WrongRefKind string
  | AccessDenied string
  | DecryptionFailed
  | SecretNotUtf8
  | GitProjection string
  | PolicyViolation string
  | ApprovalRequired string u32
  | TransactionConflict string

type_synonym 'a result = "error + 'a"

text \<open>The \<open>?\<close> operator: an error leaves the function, a value goes on.\<close>

definition bind_res :: "'a result \<Rightarrow> ('a \<Rightarrow> 'b result) \<Rightarrow> 'b result" where
  "bind_res r f = (case r of Inl e \<Rightarrow> Inl e | Inr x \<Rightarrow> f x)"

lemma bind_res_simps [simp]:
  "bind_res (Inl e) f = Inl e"
  "bind_res (Inr x) f = f x"
  by (simp_all add: bind_res_def)

lemma bind_res_Inr: "bind_res r f = Inr y \<longleftrightarrow> (\<exists>x. r = Inr x \<and> f x = Inr y)"
  by (cases r) auto

lemma bind_res_Inl: "bind_res r f = Inl e \<longleftrightarrow> r = Inl e \<or> (\<exists>x. r = Inr x \<and> f x = Inl e)"
  by (cases r) auto

lemma bind_res_cong [fundef_cong]:
  "r = r' \<Longrightarrow> (\<And>x. r' = Inr x \<Longrightarrow> f x = f' x) \<Longrightarrow> bind_res r f = bind_res r' f'"
  by (cases r') (auto simp: bind_res_def)

text \<open>A \<^verbatim>\<open>for\<close> loop whose body may fail: the first error ends it.\<close>

fun fold_res :: "('a \<Rightarrow> 's \<Rightarrow> 's result) \<Rightarrow> 'a list \<Rightarrow> 's \<Rightarrow> 's result" where
  "fold_res f [] s = Inr s"
| "fold_res f (x # xs) s = bind_res (f x s) (fold_res f xs)"

fun map_res :: "('a \<Rightarrow> 'b result) \<Rightarrow> 'a list \<Rightarrow> 'b list result" where
  "map_res f [] = Inr []"
| "map_res f (x # xs) = bind_res (f x) (\<lambda>y. bind_res (map_res f xs) (\<lambda>ys. Inr (y # ys)))"

lemma fold_res_append: "fold_res f (xs @ ys) s = bind_res (fold_res f xs s) (fold_res f ys)"
  by (induction xs arbitrary: s) (auto simp: bind_res_def split: sum.splits)

lemma fold_res_cong [fundef_cong]:
  "xs = ys \<Longrightarrow> s = t \<Longrightarrow> (\<And>x u. x \<in> set ys \<Longrightarrow> f x u = g x u) \<Longrightarrow> fold_res f xs s = fold_res g ys t"
  by (induction xs arbitrary: ys s t) (auto simp: bind_res_def split: sum.splits)

lemma fold_res_invariant:
  assumes "fold_res f xs s = Inr t" and "P s"
    and "\<And>x u v. x \<in> set xs \<Longrightarrow> P u \<Longrightarrow> f x u = Inr v \<Longrightarrow> P v"
  shows "P t"
  using assms by (induction xs arbitrary: s) (auto simp: bind_res_Inr)

lemma fold_res_total: "(\<And>x u. f x u = Inr (g x u)) \<Longrightarrow> fold_res f xs s = Inr (fold g xs s)"
  by (induction xs arbitrary: s) auto

lemma map_res_Inr_map: "(\<And>x. x \<in> set xs \<Longrightarrow> f x = Inr (g x)) \<Longrightarrow> map_res f xs = Inr (map g xs)"
  by (induction xs) auto

lemma map_res_Inr_iff:
  "map_res f xs = Inr ys \<longleftrightarrow> list_all2 (\<lambda>x y. f x = Inr y) xs ys"
proof (induction xs arbitrary: ys)
  case Nil
  then show ?case by auto
next
  case (Cons x xs)
  then show ?case by (cases ys) (auto simp: bind_res_Inr)
qed

section \<open>Ordered maps\<close>

text \<open>
  \<^verbatim>\<open>BTreeMap<K, V>\<close>: an association list kept strictly ascending in its keys, so that iteration
  order is key order, as the sources rely on.
\<close>

type_synonym ('k, 'v) btree = "('k \<times> 'v) list"

definition bt_wf :: "('k::linorder, 'v) btree \<Rightarrow> bool" where
  "bt_wf m \<longleftrightarrow> sorted_wrt (<) (map fst m)"

fun bt_insert :: "'k::linorder \<Rightarrow> 'v \<Rightarrow> ('k, 'v) btree \<Rightarrow> ('k, 'v) btree" where
  "bt_insert k v [] = [(k, v)]"
| "bt_insert k v ((a, b) # m) =
     (if k < a then (k, v) # (a, b) # m
      else if k = a then (k, v) # m
      else (a, b) # bt_insert k v m)"

abbreviation bt_get :: "('k, 'v) btree \<Rightarrow> 'k \<Rightarrow> 'v option" where
  "bt_get \<equiv> map_of"

abbreviation bt_keys :: "('k, 'v) btree \<Rightarrow> 'k list" where
  "bt_keys m \<equiv> map fst m"

lemma bt_get_insert [simp]: "bt_get (bt_insert k v m) = (bt_get m)(k \<mapsto> v)"
  by (induction k v m rule: bt_insert.induct) (auto simp: fun_eq_iff)

lemma set_keys_bt_insert [simp]: "fst ` set (bt_insert k v m) = insert k (fst ` set m)"
  by (induction k v m rule: bt_insert.induct) auto

lemma bt_wf_Nil [simp, bole_wf]: "bt_wf []"
  by (simp add: bt_wf_def)

lemma bt_wf_Cons: "bt_wf ((k, v) # m) \<longleftrightarrow> (\<forall>k' \<in> fst ` set m. k < k') \<and> bt_wf m"
  by (auto simp: bt_wf_def)

lemma bt_wf_insert [simp, bole_wf]: "bt_wf m \<Longrightarrow> bt_wf (bt_insert k v m)"
  by (induction k v m rule: bt_insert.induct) (auto simp: bt_wf_Cons)

lemma bt_wf_distinct: "bt_wf m \<Longrightarrow> distinct (map fst m)"
  unfolding bt_wf_def using strict_sorted_iff by blast

lemma bt_wf_filter: "bt_wf m \<Longrightarrow> bt_wf (filter P m)"
  by (induction m) (auto simp: bt_wf_def)

lemma bt_get_eq_wf:
  assumes "bt_wf m" and "bt_wf n" and "bt_get m = bt_get n"
  shows "m = n"
proof -
  have dm: "distinct (map fst m)" and dn: "distinct (map fst n)"
    using assms(1,2) by (auto simp: bt_wf_distinct)
  then have sets: "set m = set n"
    using assms(3) by (simp add: map_of_inject_set)
  then have "set (map fst m) = set (map fst n)" by simp
  then have keys: "map fst m = map fst n"
    using assms(1,2) unfolding bt_wf_def by (metis strict_sorted_equal)
  have "map (\<lambda>k. (k, the (bt_get m k))) (map fst m) = m"
    using dm by (auto intro!: map_idI)
  moreover have "map (\<lambda>k. (k, the (bt_get n k))) (map fst n) = n"
    using dn by (auto intro!: map_idI)
  ultimately show ?thesis using keys assms(3) by metis
qed

lemma bt_get_filter:
  assumes "distinct (map fst m)"
  shows "bt_get (filter (\<lambda>(k, v). P k) m) = (bt_get m) |` {k. P k}"
  using assms by (induction m) (auto simp: fun_eq_iff restrict_map_def dom_map_of_conv_image_fst)

text \<open>\<^verbatim>\<open>BTreeSet\<close> from an iterator: ascending, without duplicates.\<close>

definition btset_of :: "'a::linorder list \<Rightarrow> 'a list" where
  "btset_of xs = sort (remdups xs)"

lemma btset_of_simps [simp]: "set (btset_of xs) = set xs" "distinct (btset_of xs)" "sorted (btset_of xs)"
  by (simp_all add: btset_of_def)

section \<open>Decimal numbers\<close>

function show_nat :: "nat \<Rightarrow> string" where
  "show_nat n = (if n < 10 then [char_of (48 + n)] else show_nat (n div 10) @ [char_of (48 + n mod 10)])"
  by pat_completeness auto
termination by (relation "measure (\<lambda>n. n)") auto

lemmas [simp del] = show_nat.simps

section \<open>Worklists\<close>

text \<open>
  A search keeps a worklist and a set of nodes already seen. A node that was seen and is no longer
  on the worklist has had its successors added. Then a target that a seen node reaches is reached
  from the worklist, so an empty worklist means there is nothing left to find.
\<close>

lemma worklist_escape:
  assumes "(y, a) \<in> E\<^sup>+" and "y \<in> S"
    and "\<And>x z. x \<in> S \<Longrightarrow> x \<notin> W \<Longrightarrow> (x, z) \<in> E \<Longrightarrow> z \<noteq> a \<and> z \<in> S"
  shows "\<exists>x\<in>W. (x, a) \<in> E\<^sup>+"
  using assms(1,2)
proof (induction rule: converse_trancl_induct)
  case (base y)
  then show ?case using assms(3) by (cases "y \<in> W") auto
next
  case (step y z)
  show ?case
  proof (cases "y \<in> W")
    case True
    with step.hyps show ?thesis by (meson trancl_into_trancl2)
  next
    case False
    with step assms(3) show ?thesis by blast
  qed
qed

lemma closed_reach:
  assumes "a \<in> V" and "\<And>x y. x \<in> V \<Longrightarrow> (x, y) \<in> E \<Longrightarrow> y \<in> V"
  shows "(a, b) \<in> E\<^sup>* \<Longrightarrow> b \<in> V"
  by (induction rule: rtrancl_induct) (use assms in auto)

lemma card_Diff_insert_less:
  assumes "finite U" and "x \<in> U" and "x \<notin> S"
  shows "card (U - S) = Suc (card (U - insert x S))"
proof -
  have "U - S = insert x (U - insert x S)" using assms(2,3) by blast
  then show ?thesis using assms(1) by (metis Diff_iff card_insert_disjoint finite_Diff insertI1)
qed

end
