(* ===== verification/Object_Id.thy ===== *)
theory Object_Id
  imports Prelude
begin

text \<open>
  Content addresses, \<^verbatim>\<open>src/object/id.rs\<close>. An \<^verbatim>\<open>ObjectId\<close> wraps a 32-byte array; the model is the
  256-bit word whose big-endian bytes are that array. Equality and the derived (bytewise
  lexicographic) order of the array are equality and order of the word (\<open>as_bytes_inject\<close>,
  \<open>as_bytes_less\<close>). The hash that makes an id from content is not code of the repository: it is a
  parameter of the theories that use it.
\<close>

unbundle bit_operations_syntax

section \<open>Byte order\<close>

fun be_bytes :: "nat \<Rightarrow> nat \<Rightarrow> bytes" where
  "be_bytes 0 n = []"
| "be_bytes (Suc k) n = be_bytes k (n div 256) @ [of_nat (n mod 256)]"

definition from_be :: "bytes \<Rightarrow> nat" where
  "from_be bs = foldl (\<lambda>a b. 256 * a + unat b) 0 bs"

lemma length_be_bytes [simp]: "length (be_bytes k n) = k"
  by (induction k n rule: be_bytes.induct) auto

lemma from_be_Nil [simp]: "from_be [] = 0"
  by (simp add: from_be_def)

lemma from_be_snoc [simp]: "from_be (bs @ [b]) = 256 * from_be bs + unat b"
  by (simp add: from_be_def)

lemma unat_u8_less [simp]: "unat (b :: u8) < 256"
  using unsigned_less [of b, where ?'a = nat] by simp

lemma from_be_less: "from_be bs < 256 ^ length bs"
proof (induction bs rule: rev_induct)
  case Nil
  then show ?case by simp
next
  case (snoc b bs)
  have "unat b < 256" by simp
  with snoc have "256 * from_be bs + unat b < 256 * 256 ^ length bs" by linarith
  then show ?case by simp
qed

lemma from_be_be_bytes: "from_be (be_bytes k n) = n mod 256 ^ k"
proof (induction k n rule: be_bytes.induct)
  case (1 n)
  then show ?case by simp
next
  case (2 k n)
  have "unat (of_nat (n mod 256) :: u8) = n mod 256"
    by (simp add: unat_of_nat)
  then show ?case using 2 by (simp add: mod_mult2_eq)
qed

lemma be_bytes_from_be: "be_bytes (length bs) (from_be bs) = bs"
proof (induction bs rule: rev_induct)
  case Nil
  then show ?case by simp
next
  case (snoc b bs)
  have "(256 * from_be bs + unat b) div 256 = from_be bs"
    using unat_u8_less [of b] by simp
  moreover have "(of_nat ((256 * from_be bs + unat b) mod 256) :: u8) = b"
    using unat_u8_less [of b] by simp
  ultimately show ?case using snoc by simp
qed

lemma from_be_append: "from_be (xs @ ys) = from_be xs * 256 ^ length ys + from_be ys"
  by (induction ys rule: rev_induct) (simp_all add: algebra_simps flip: append_assoc)

lemma from_be_Cons: "from_be (b # bs) = unat b * 256 ^ length bs + from_be bs"
  using from_be_append [of "[b]" bs] by (simp add: from_be_def)

lemma from_be_less_iff:
  "length xs = length ys \<Longrightarrow> from_be xs < from_be ys \<longleftrightarrow> xs < ys"
proof (induction xs ys rule: list_induct2)
  case Nil
  then show ?case by simp
next
  case (Cons x xs y ys)
  have bx: "from_be xs < 256 ^ length ys" and bY: "from_be ys < 256 ^ length ys"
    using from_be_less [of xs] from_be_less [of ys] Cons.hyps by simp_all
  have lt: "u * 256 ^ length ys + a < v * 256 ^ length ys + b"
    if "u < v" and "a < 256 ^ length ys" for u v a b :: nat
  proof -
    have "u * 256 ^ length ys + a < Suc u * 256 ^ length ys" using that(2) by simp
    also have "\<dots> \<le> v * 256 ^ length ys" using that(1) by (intro mult_right_mono) auto
    finally show ?thesis by simp
  qed
  show ?case
  proof (cases x y rule: linorder_cases)
    case less
    then have "unat x < unat y" by (simp add: word_less_nat_alt)
    with lt [OF this bx] less Cons.hyps show ?thesis by (simp add: from_be_Cons)
  next
    case equal
    then show ?thesis using Cons by (simp add: from_be_Cons)
  next
    case greater
    then have "unat y < unat x" by (simp add: word_less_nat_alt)
    with lt [OF this bY, of "from_be xs"] greater Cons.hyps show ?thesis
      by (auto simp: from_be_Cons)
  qed
qed

section \<open>ObjectId\<close>

type_synonym oid = "256 word"

definition oid_new :: "bytes \<Rightarrow> oid" where
  "oid_new bs = of_nat (from_be bs)"

definition as_bytes :: "oid \<Rightarrow> bytes" where
  "as_bytes i = be_bytes 32 (unat i)"

lemma length_as_bytes [simp]: "length (as_bytes i) = 32"
  by (simp add: as_bytes_def)

lemma unat_oid_less: "unat (i :: oid) < 256 ^ 32"
  using unsigned_less [of i, where ?'a = nat] by simp

lemma from_be_as_bytes: "from_be (as_bytes i) = unat i"
  using unat_oid_less [of i] by (simp add: as_bytes_def from_be_be_bytes)

lemma oid_new_as_bytes [simp]: "oid_new (as_bytes i) = i"
  by (simp add: oid_new_def from_be_as_bytes)

lemma as_bytes_oid_new [simp]:
  assumes "length bs = 32"
  shows "as_bytes (oid_new bs) = bs"
proof -
  have "from_be bs < 2 ^ LENGTH(256)"
    using from_be_less [of bs] assms by simp
  then have "unat (oid_new bs) = from_be bs"
    unfolding oid_new_def by (simp add: unat_of_nat)
  then show ?thesis
    using be_bytes_from_be [of bs] assms by (simp add: as_bytes_def)
qed

lemma as_bytes_inject [simp]: "as_bytes a = as_bytes b \<longleftrightarrow> a = b"
  by (metis oid_new_as_bytes)

lemma as_bytes_less: "as_bytes a < as_bytes b \<longleftrightarrow> a < b"
  using from_be_less_iff [of "as_bytes a" "as_bytes b"]
  by (simp add: from_be_as_bytes word_less_nat_alt)

section \<open>Hexadecimal form\<close>

text \<open>\<^verbatim>\<open>hex_nibble\<close> accepts exactly the lowercase digits.\<close>

definition hex_nibble :: "char \<Rightarrow> u8 option" where
  "hex_nibble c =
     (if CHR ''0'' \<le> c \<and> c \<le> CHR ''9'' then Some (of_char c - 48)
      else if CHR ''a'' \<le> c \<and> c \<le> CHR ''f'' then Some (of_char c - 97 + 10)
      else None)"

definition hex_char :: "u8 \<Rightarrow> char" where
  "hex_char n = (if n < 10 then char_of (unat n + 48) else char_of (unat n + 87))"

text \<open>The formatting directive \<^verbatim>\<open>{:02x}\<close> for one byte.\<close>

definition hex_byte :: "u8 \<Rightarrow> string" where
  "hex_byte b = [hex_char (drop_bit 4 b), hex_char (b AND 15)]"

definition oid_display :: "oid \<Rightarrow> string" where
  "oid_display i = concat (map hex_byte (as_bytes i))"

fun hex_pairs :: "string \<Rightarrow> bytes option" where
  "hex_pairs [] = Some []"
| "hex_pairs [_] = None"
| "hex_pairs (h # l # rest) =
     (case hex_nibble h of
        None \<Rightarrow> None
      | Some hi \<Rightarrow>
          (case hex_nibble l of
             None \<Rightarrow> None
           | Some lo \<Rightarrow> map_option ((#) (push_bit 4 hi OR lo)) (hex_pairs rest)))"

text \<open>\<^verbatim>\<open>FromStr for ObjectId\<close>; \<^const>\<open>None\<close> is \<^verbatim>\<open>ParseObjectIdError\<close>.\<close>

definition oid_from_str :: "string \<Rightarrow> oid option" where
  "oid_from_str s = (if length s \<noteq> 64 then None else map_option oid_new (hex_pairs s))"

text \<open>\<^verbatim>\<open>parse_hex_id\<close> of \<^verbatim>\<open>src/store/disk.rs\<close>, a second copy of the parser.\<close>

definition parse_hex_id :: "string \<Rightarrow> oid option" where
  "parse_hex_id hex = (if length hex \<noteq> 64 then None else map_option oid_new (hex_pairs hex))"

text \<open>\<^verbatim>\<open>hex32\<close> of \<^verbatim>\<open>src/store/packed.rs\<close>: the name of a pack from its digest.\<close>

definition hex32 :: "oid \<Rightarrow> string" where
  "hex32 digest = foldl (\<lambda>s b. s @ hex_byte b) [] (as_bytes digest)"

subsection \<open>Nibbles and bytes\<close>

definition nibbles :: "u8 list" where
  "nibbles = [0, 1, 2, 3, 4, 5, 6, 7, 8, 9, 10, 11, 12, 13, 14, 15]"

lemma nibbles_complete:
  assumes "(n :: u8) < 16"
  shows "n \<in> set nibbles"
proof -
  have "unat n < 16" using assms by (simp add: word_less_nat_alt)
  then have "unat n \<in> set [0..<16]" by simp
  then have "n \<in> of_nat ` set [0..<16]"
    by (intro image_eqI [of _ _ "unat n"]) simp_all
  then show ?thesis by (simp add: upt_rec nibbles_def)
qed

lemma hex_char_table: "list_all (\<lambda>n. hex_nibble (hex_char n) = Some n) nibbles"
  by code_simp

lemma hex_nibble_table:
  "list_all (\<lambda>c. case hex_nibble c of None \<Rightarrow> True | Some n \<Rightarrow> n < 16 \<and> hex_char n = c) Enum.enum"
  by code_simp


lemma hex_nibble_hex_char: "n < 16 \<Longrightarrow> hex_nibble (hex_char n) = Some n"
  using hex_char_table nibbles_complete by (auto simp: list_all_iff)

lemma hex_nibble_SomeD: "hex_nibble c = Some n \<Longrightarrow> n < 16 \<and> hex_char n = c"
  using hex_nibble_table by (auto simp: list_all_iff enum_UNIV split: option.splits)

lemma byte_nibbles: "push_bit 4 (drop_bit 4 b) OR (b AND 15) = (b :: u8)"
proof -
  have "b AND 15 = take_bit 4 b"
    by (simp add: take_bit_eq_mask mask_eq_exp_minus_1)
  then show ?thesis
    by (intro bit_word_eqI) (auto simp: bit_simps)
qed

lemma nibbles_byte:
  assumes "hi < 16" and "lo < (16 :: u8)"
  shows "drop_bit 4 (push_bit 4 hi OR lo) = hi" and "(push_bit 4 hi OR lo) AND 15 = lo"
proof -
  have all: "list_all (\<lambda>hi. list_all (\<lambda>lo. drop_bit 4 (push_bit 4 hi OR lo) = hi
    \<and> (push_bit 4 hi OR lo) AND 15 = lo) nibbles) nibbles"
    by code_simp
  with assms show "drop_bit 4 (push_bit 4 hi OR lo) = hi" and "(push_bit 4 hi OR lo) AND 15 = lo"
    by (auto simp: list_all_iff dest!: nibbles_complete)
qed

lemma drop_bit_4_less: "drop_bit 4 (b :: u8) < 16"
proof -
  have "unat (drop_bit 4 b) = unat b div 2 ^ 4"
    by (metis unat_drop_bit_eq drop_bit_eq_div)
  moreover have "unat b div 16 < 16"
    by (rule less_mult_imp_div_less) simp
  ultimately have "unat (drop_bit 4 b) < unat (16 :: u8)"
    by simp
  then show ?thesis by (simp only: word_less_nat_alt)
qed

lemma and_15_less: "(b :: u8) AND 15 < 16"
proof -
  have "b AND 15 \<le> 15" by (rule word_and_le1)
  also have "(15 :: u8) < 16" by simp
  finally show ?thesis .
qed

lemma length_hex_byte [simp]: "length (hex_byte b) = 2"
  by (simp add: hex_byte_def)

lemma length_concat_hex [simp]: "length (concat (map hex_byte bs)) = 2 * length bs"
  by (induction bs) auto

lemma hex_pairs_concat: "hex_pairs (concat (map hex_byte bs)) = Some bs"
  by (induction bs)
    (simp_all add: hex_byte_def hex_nibble_hex_char drop_bit_4_less and_15_less byte_nibbles)

lemma hex_pairs_SomeD: "hex_pairs s = Some bs \<Longrightarrow> s = concat (map hex_byte bs)"
proof (induction s arbitrary: bs rule: hex_pairs.induct)
  case (3 h l rest)
  from "3.prems" obtain hi lo bs' where
      hi: "hex_nibble h = Some hi" and lo: "hex_nibble l = Some lo"
      and rest: "hex_pairs rest = Some bs'" and bs: "bs = (push_bit 4 hi OR lo) # bs'"
    by (auto split: option.splits)
  have "rest = concat (map hex_byte bs')"
    using "3.IH" hi lo rest by blast
  moreover have "hex_byte (push_bit 4 hi OR lo) = [h, l]"
    using hex_nibble_SomeD [OF hi] hex_nibble_SomeD [OF lo]
    by (simp only: hex_byte_def nibbles_byte)
  ultimately show ?case by (simp add: bs)
qed auto

subsection \<open>Parsing inverts printing\<close>

lemma length_oid_display [simp]: "length (oid_display i) = 64"
  by (simp add: oid_display_def)

lemma oid_from_str_iff: "oid_from_str s = Some i \<longleftrightarrow> s = oid_display i"
proof
  assume parsed: "oid_from_str s = Some i"
  then obtain bs where len: "length s = 64" and bs: "hex_pairs s = Some bs" and i: "i = oid_new bs"
    by (auto simp: oid_from_str_def split: if_splits)
  from hex_pairs_SomeD [OF bs] have s: "s = concat (map hex_byte bs)" .
  with len have "length bs = 32" by simp
  with s i show "s = oid_display i" by (simp add: oid_display_def)
next
  assume "s = oid_display i"
  then show "oid_from_str s = Some i"
    by (simp add: oid_from_str_def oid_display_def hex_pairs_concat)
qed

lemma parse_hex_id_eq: "parse_hex_id = oid_from_str"
  by (simp add: fun_eq_iff parse_hex_id_def oid_from_str_def)

lemma oid_from_str_display [simp]: "oid_from_str (oid_display i) = Some i"
  by (simp add: oid_from_str_def oid_display_def hex_pairs_concat)

lemma oid_display_inject [simp]: "oid_display i = oid_display j \<longleftrightarrow> i = j"
  by (metis oid_from_str_display option.inject)

lemma hex32_display: "hex32 d = oid_display d"
proof -
  have "foldl (\<lambda>s b. s @ hex_byte b) acc bs = acc @ concat (map hex_byte bs)" for acc bs
    by (induction bs arbitrary: acc) auto
  then show ?thesis by (simp add: hex32_def oid_display_def)
qed

text \<open>An id parses from its own hexadecimal form and from no other string: \<^verbatim>\<open>FromStr\<close> accepts
  exactly the 64 lowercase hexadecimal digits that \<^verbatim>\<open>Display\<close> prints for that id, and rejects every
  other length, digit or letter case; the parser of the disk backend is the same function and the
  pack naming the same printer.\<close>

lemma oid_from_str_iff_display:
  "(oid_from_str s = Some i \<longleftrightarrow> s = oid_display i) \<and> (parse_hex_id s = Some i \<longleftrightarrow> s = hex32 i)"
  by (simp add: oid_from_str_iff parse_hex_id_eq hex32_display)

end
