(* ===== verification/Glob.thy ===== *)
theory Glob
  imports Prelude
begin

text \<open>
  The memoised glob matcher of \<^verbatim>\<open>src/acl/glob.rs\<close>. The three loops of the inner \<^verbatim>\<open>matches\<close> are
  functions of their own over the suffix \<^verbatim>\<open>&s[i..]\<close> still to be scanned, mutually recursive with it,
  and the memo of failing states is threaded through every call. The specification is the language
  of a pattern, built from its tokens; the matcher decides it on inputs up to the length limit.
\<close>

section \<open>The matcher\<close>

definition MAX_GLOB_LEN :: nat where
  "MAX_GLOB_LEN = 8192"

type_synonym memo = "(nat \<times> nat) set"

abbreviation is_prefix :: "string \<Rightarrow> string \<Rightarrow> bool" where
  "is_prefix pre s \<equiv> take (length pre) s = pre"

function (sequential)
    matches :: "string \<Rightarrow> string \<Rightarrow> memo \<Rightarrow> bool \<times> memo"
and any_segment :: "string \<Rightarrow> string \<Rightarrow> memo \<Rightarrow> bool \<times> memo"
and any_tail :: "string \<Rightarrow> string \<Rightarrow> memo \<Rightarrow> bool \<times> memo"
and within_segment :: "string \<Rightarrow> string \<Rightarrow> memo \<Rightarrow> bool \<times> memo"
where
  "matches pat s memo =
     (if (length pat, length s) \<in> memo then (False, memo)
      else
        let (r, memo') =
          (if pat = [] then (s = [], memo)
           else if is_prefix ''**/'' pat then
             (let (hit, m) = matches (drop 3 pat) s memo in
              if hit then (True, m) else any_segment pat s m)
           else if is_prefix ''**'' pat then
             (let (hit, m) = matches (drop 2 pat) s memo in
              if hit then (True, m) else any_tail (drop 2 pat) s m)
           else if is_prefix ''*'' pat then within_segment (drop 1 pat) s memo
           else if s \<noteq> [] \<and> hd pat = hd s then matches (tl pat) (tl s) memo
           else (False, memo))
        in (r, if r then memo' else insert (length pat, length s) memo'))"
| "any_segment pat s memo =
     (case s of
        [] \<Rightarrow> (False, memo)
      | c # s' \<Rightarrow>
          if c = CHR ''/'' then
            (let (hit, m) = matches pat s' memo in
             if hit then (True, m) else any_segment pat s' m)
          else any_segment pat s' memo)"
| "any_tail rest s memo =
     (case s of
        [] \<Rightarrow> matches rest [] memo
      | c # s' \<Rightarrow>
          if c = CHR ''/'' then
            (let (hit, m) = matches rest s' memo in
             if hit then (True, m) else any_tail rest s' m)
          else any_tail rest s' memo)"
| "within_segment rest s memo =
     (let (hit, m) = matches rest s memo in
      if hit then (True, m)
      else
        (case s of
           [] \<Rightarrow> (False, m)
         | c # s' \<Rightarrow> if c = CHR ''/'' then (False, m) else within_segment rest s' m))"
  by pat_completeness auto
termination
  by (relation "measure (\<lambda>x. case x of
        Inl (Inl (pat, s, _)) \<Rightarrow> 3 * (length pat + length s) + 1
      | Inl (Inr (pat, s, _)) \<Rightarrow> 3 * (length pat + length s)
      | Inr (Inl (pat, s, _)) \<Rightarrow> 3 * (length pat + length s) + 2
      | Inr (Inr (pat, s, _)) \<Rightarrow> 3 * (length pat + length s) + 2)")
    (auto simp: neq_Nil_conv)

definition glob_matches :: "string \<Rightarrow> string \<Rightarrow> bool" where
  "glob_matches pattern path =
     (if length pattern > MAX_GLOB_LEN \<or> length path > MAX_GLOB_LEN then False
      else fst (matches pattern path {}))"

lemmas [simp del] = matches.simps any_segment.simps any_tail.simps within_segment.simps

section \<open>The language of a pattern\<close>

text \<open>
  A pattern is read left to right into tokens. \<open>**/\<close> stands for any number of whole leading segments,
  \<open>*\<close> for any text without a separator, and a \<open>**\<close> that is not followed by a separator for nothing,
  for text that ends in a separator, or for all the rest.
\<close>

datatype gtok = DStarSlash | DStar | Star | Lit char

function glob_tokens :: "string \<Rightarrow> gtok list" where
  "glob_tokens p =
     (if p = [] then []
      else if is_prefix ''**/'' p then DStarSlash # glob_tokens (drop 3 p)
      else if is_prefix ''**'' p then DStar # glob_tokens (drop 2 p)
      else if is_prefix ''*'' p then Star # glob_tokens (drop 1 p)
      else Lit (hd p) # glob_tokens (tl p))"
  by pat_completeness auto
termination by (relation "measure length") auto

lemmas [simp del] = glob_tokens.simps

definition segments :: "string set" where
  "segments = {w. w = [] \<or> last w = CHR ''/''}"

primrec toks_lang :: "gtok list \<Rightarrow> string set" where
  "toks_lang [] = {[]}"
| "toks_lang (t # ts) =
     (case t of
        DStarSlash \<Rightarrow> {u @ w |u w. u \<in> segments \<and> w \<in> toks_lang ts}
      | DStar \<Rightarrow> {u @ w |u w. w \<in> toks_lang ts \<and> (u \<in> segments \<or> w = [])}
      | Star \<Rightarrow> {u @ w |u w. CHR ''/'' \<notin> set u \<and> w \<in> toks_lang ts}
      | Lit c \<Rightarrow> {c # w |w. w \<in> toks_lang ts})"

definition glob_lang :: "string \<Rightarrow> string set" where
  "glob_lang p = toks_lang (glob_tokens p)"

subsection \<open>One step of the language\<close>

lemma glob_lang_Nil: "s \<in> glob_lang [] \<longleftrightarrow> s = []"
  by (simp add: glob_lang_def glob_tokens.simps)

text \<open>What the loop over \<open>**/\<close> looks for: a suffix right after a separator.\<close>

definition after_sep :: "string \<Rightarrow> string \<Rightarrow> bool" where
  "after_sep w s \<longleftrightarrow> (\<exists>u. s = u @ CHR ''/'' # w)"

lemma after_sep_simps:
  "\<not> after_sep w []"
  "after_sep w (c # s) \<longleftrightarrow> (c = CHR ''/'' \<and> w = s) \<or> after_sep w s"
  by (auto simp: after_sep_def Cons_eq_append_conv)

lemma segments_iff: "u \<in> segments \<longleftrightarrow> u = [] \<or> (\<exists>v. u = v @ [CHR ''/''])"
  unfolding segments_def by (cases u rule: rev_cases) auto

lemma segments_append: "(\<exists>u. s = u @ w \<and> u \<in> segments) \<longleftrightarrow> s = w \<or> after_sep w s"
  by (auto simp: segments_iff after_sep_def)

lemma glob_lang_dss:
  assumes "is_prefix ''**/'' p"
  shows "s \<in> glob_lang p \<longleftrightarrow> (\<exists>w. w \<in> glob_lang (drop 3 p) \<and> (s = w \<or> after_sep w s))"
proof -
  from assms have "p \<noteq> []" by auto
  with assms have "glob_tokens p = DStarSlash # glob_tokens (drop 3 p)"
    by (subst glob_tokens.simps) simp
  then show ?thesis
    unfolding glob_lang_def segments_append [symmetric] by auto
qed

lemma after_sep_trans: "after_sep w v \<Longrightarrow> after_sep v s \<Longrightarrow> after_sep w s"
  unfolding after_sep_def by (metis append_Cons append_assoc)

lemma glob_lang_dss_loop:
  assumes "is_prefix ''**/'' p"
  shows "s \<in> glob_lang p \<longleftrightarrow> s \<in> glob_lang (drop 3 p) \<or> (\<exists>v. after_sep v s \<and> v \<in> glob_lang p)"
  unfolding glob_lang_dss [OF assms] using after_sep_trans by blast

lemma glob_lang_ds:
  assumes "\<not> is_prefix ''**/'' p" and "is_prefix ''**'' p"
  shows "s \<in> glob_lang p \<longleftrightarrow> s \<in> glob_lang (drop 2 p) \<or>
    (\<exists>w. after_sep w s \<and> w \<in> glob_lang (drop 2 p)) \<or> [] \<in> glob_lang (drop 2 p)"
proof -
  from assms have "p \<noteq> []" by auto
  with assms have "glob_tokens p = DStar # glob_tokens (drop 2 p)"
    by (subst glob_tokens.simps) simp
  then have "s \<in> glob_lang p \<longleftrightarrow>
      (\<exists>w. w \<in> glob_lang (drop 2 p) \<and> ((\<exists>u. s = u @ w \<and> u \<in> segments) \<or> w = []))"
    unfolding glob_lang_def by auto
  then show ?thesis
    unfolding segments_append by blast
qed

lemma glob_lang_star:
  assumes "\<not> is_prefix ''**'' p" and "is_prefix ''*'' p"
  shows "s \<in> glob_lang p \<longleftrightarrow>
    (\<exists>u w. s = u @ w \<and> CHR ''/'' \<notin> set u \<and> w \<in> glob_lang (drop 1 p))"
proof -
  from assms have "p \<noteq> []" by auto
  moreover from assms have "\<not> is_prefix ''**/'' p"
    by (cases p; cases "tl p"; cases "tl (tl p)") auto
  ultimately have "glob_tokens p = Star # glob_tokens (drop 1 p)"
    using assms by (subst glob_tokens.simps) simp
  then show ?thesis unfolding glob_lang_def by simp
qed

lemma glob_lang_lit:
  assumes "p \<noteq> []" and "\<not> is_prefix ''*'' p"
  shows "s \<in> glob_lang p \<longleftrightarrow> s \<noteq> [] \<and> hd s = hd p \<and> tl s \<in> glob_lang (tl p)"
proof -
  from assms have "\<not> is_prefix ''**/'' p" "\<not> is_prefix ''**'' p"
    by (cases p; cases "tl p"; cases "tl (tl p)"; auto)+
  with assms have "glob_tokens p = Lit (hd p) # glob_tokens (tl p)"
    by (subst glob_tokens.simps) simp
  then show ?thesis unfolding glob_lang_def by (cases s) auto
qed

lemma star_suffix_Cons:
  "(\<exists>u w. c # s = u @ w \<and> CHR ''/'' \<notin> set u \<and> w \<in> L) \<longleftrightarrow>
     c # s \<in> L \<or> c \<noteq> CHR ''/'' \<and> (\<exists>u w. s = u @ w \<and> CHR ''/'' \<notin> set u \<and> w \<in> L)"
  (is "?l \<longleftrightarrow> ?r")
proof
  assume ?l
  then obtain u w where "c # s = u @ w" "CHR ''/'' \<notin> set u" "w \<in> L" by blast
  then show ?r by (cases u) auto
next
  assume ?r
  then consider "c # s \<in> L" | u w where "c \<noteq> CHR ''/''" "s = u @ w" "CHR ''/'' \<notin> set u" "w \<in> L"
    by blast
  then show ?l
  proof cases
    case 1
    then show ?thesis by (intro exI [of _ "[]"] exI [of _ "c # s"]) simp
  next
    case 2
    then show ?thesis by (intro exI [of _ "c # u"] exI [of _ w]) auto
  qed
qed

section \<open>The matcher decides the language\<close>

text \<open>
  The memo holds lengths only. It is sound for a call of \<^verbatim>\<open>glob_matches\<close> on \<open>P\<close> and \<open>S\<close> because every
  recursive call is on suffixes of these two, which their lengths determine.
\<close>

definition suffix_len :: "nat \<Rightarrow> string \<Rightarrow> string" where
  "suffix_len n s = drop (length s - n) s"

definition is_suffix :: "string \<Rightarrow> string \<Rightarrow> bool" where
  "is_suffix x s \<longleftrightarrow> length x \<le> length s \<and> x = suffix_len (length x) s"

definition memo_ok :: "string \<Rightarrow> string \<Rightarrow> memo \<Rightarrow> bool" where
  "memo_ok P S m \<longleftrightarrow>
     (\<forall>pat s. is_suffix pat P \<longrightarrow> is_suffix s S \<longrightarrow> (length pat, length s) \<in> m \<longrightarrow> s \<notin> glob_lang pat)"

lemma is_suffix_iff: "is_suffix x s \<longleftrightarrow> (\<exists>u. s = u @ x)"
proof
  assume "is_suffix x s"
  then show "\<exists>u. s = u @ x"
    unfolding is_suffix_def suffix_len_def by (metis append_take_drop_id)
next
  assume "\<exists>u. s = u @ x"
  then show "is_suffix x s" by (auto simp: is_suffix_def suffix_len_def)
qed

lemma is_suffix_refl [simp]: "is_suffix s s"
  by (auto simp: is_suffix_iff)

lemma is_suffix_drop: "is_suffix p P \<Longrightarrow> is_suffix (drop n p) P"
  unfolding is_suffix_iff by (metis append_assoc append_take_drop_id)

lemma is_suffix_tl: "is_suffix p P \<Longrightarrow> is_suffix (tl p) P"
  using is_suffix_drop [of p P 1] by (simp add: drop_Suc)

lemma is_suffix_Cons: "is_suffix (c # p) P \<Longrightarrow> is_suffix p P"
  using is_suffix_tl by force

lemma is_suffix_Nil [simp]: "is_suffix [] P"
  by (auto simp: is_suffix_iff)

lemma memo_ok_insert:
  assumes "memo_ok P S m" and "is_suffix pat P" and "is_suffix s S" and "s \<notin> glob_lang pat"
  shows "memo_ok P S (insert (length pat, length s) m)"
  using assms unfolding memo_ok_def is_suffix_def by (metis insert_iff old.prod.inject)

definition decides :: "string \<Rightarrow> string \<Rightarrow> bool \<times> memo \<Rightarrow> bool \<Rightarrow> bool" where
  "decides P S res b \<longleftrightarrow> fst res = b \<and> memo_ok P S (snd res)"

lemma decides_if:
  assumes "decides P S r a" and "\<And>m. memo_ok P S m \<Longrightarrow> \<not> a \<Longrightarrow> decides P S (k m) b"
  shows "decides P S (let (hit, m) = r in if hit then (True, m) else k m) (a \<or> b)"
  using assms by (cases r; cases a) (auto simp: decides_def)

text \<open>The body of \<^verbatim>\<open>matches\<close> between the lookup and the update of the memo.\<close>

lemma decides_memo:
  assumes "memo_ok P S memo" and "is_suffix pat P" and "is_suffix s S"
    and "(length pat, length s) \<notin> memo \<Longrightarrow> decides P S body (s \<in> glob_lang pat)"
  shows "decides P S (if (length pat, length s) \<in> memo then (False, memo)
     else let (r, memo') = body in (r, if r then memo' else insert (length pat, length s) memo'))
     (s \<in> glob_lang pat)"
proof (cases "(length pat, length s) \<in> memo")
  case True
  with assms(1-3) have "s \<notin> glob_lang pat" by (auto simp: memo_ok_def)
  with True assms(1) show ?thesis by (simp add: decides_def)
next
  case False
  with assms show ?thesis
    by (cases body) (auto simp: decides_def intro: memo_ok_insert)
qed

definition match_ok :: "string \<Rightarrow> string \<Rightarrow> string \<Rightarrow> string \<Rightarrow> bool" where
  "match_ok P S pat s \<longleftrightarrow> is_suffix pat P \<and> is_suffix s S \<and>
     (\<forall>memo. memo_ok P S memo \<longrightarrow> decides P S (matches pat s memo) (s \<in> glob_lang pat))"

lemma match_okD: "match_ok P S pat s \<Longrightarrow> memo_ok P S m \<Longrightarrow> decides P S (matches pat s m) (s \<in> glob_lang pat)"
  by (simp add: match_ok_def)

text \<open>Each loop is right as soon as the calls of \<^verbatim>\<open>matches\<close> it makes are.\<close>

lemma any_segment_correct:
  assumes "memo_ok P S memo" and "\<And>v. after_sep v s \<Longrightarrow> match_ok P S pat v"
  shows "decides P S (any_segment pat s memo) (\<exists>v. after_sep v s \<and> v \<in> glob_lang pat)"
  using assms
proof (induction s arbitrary: memo)
  case Nil
  then show ?case by (simp add: any_segment.simps after_sep_simps decides_def)
next
  case (Cons c s)
  have loop: "decides P S (any_segment pat s m) (\<exists>v. after_sep v s \<and> v \<in> glob_lang pat)"
    if "memo_ok P S m" for m
    using Cons.IH [OF that] Cons.prems(2) by (simp add: after_sep_simps)
  have this_one: "decides P S (matches pat s memo) (s \<in> glob_lang pat)" if "c = CHR ''/''"
    using Cons.prems that by (auto simp: after_sep_simps intro: match_okD)
  have "(\<exists>v. after_sep v (c # s) \<and> v \<in> glob_lang pat) \<longleftrightarrow>
      (c = CHR ''/'' \<and> s \<in> glob_lang pat) \<or> (\<exists>v. after_sep v s \<and> v \<in> glob_lang pat)"
    by (auto simp: after_sep_simps)
  then show ?case
    using decides_if [OF this_one loop] loop [OF Cons.prems(1)]
    by (subst any_segment.simps) auto
qed

lemma any_tail_correct:
  assumes "memo_ok P S memo" and "\<And>v. after_sep v s \<Longrightarrow> match_ok P S rest v" and "match_ok P S rest []"
  shows "decides P S (any_tail rest s memo)
    ((\<exists>w. after_sep w s \<and> w \<in> glob_lang rest) \<or> [] \<in> glob_lang rest)"
  using assms
proof (induction s arbitrary: memo)
  case Nil
  then show ?case by (subst any_tail.simps) (simp add: after_sep_simps match_okD)
next
  case (Cons c s)
  have loop: "decides P S (any_tail rest s m)
      ((\<exists>w. after_sep w s \<and> w \<in> glob_lang rest) \<or> [] \<in> glob_lang rest)"
    if "memo_ok P S m" for m
    using Cons.IH [OF that] Cons.prems(2,3) by (simp add: after_sep_simps)
  have this_one: "decides P S (matches rest s memo) (s \<in> glob_lang rest)" if "c = CHR ''/''"
    using Cons.prems that by (auto simp: after_sep_simps intro: match_okD)
  have "(\<exists>v. after_sep v (c # s) \<and> v \<in> glob_lang rest) \<longleftrightarrow>
      (c = CHR ''/'' \<and> s \<in> glob_lang rest) \<or> (\<exists>v. after_sep v s \<and> v \<in> glob_lang rest)"
    by (auto simp: after_sep_simps)
  then show ?case
    using decides_if [OF this_one loop] loop [OF Cons.prems(1)]
    by (subst any_tail.simps) auto
qed

lemma within_segment_correct:
  assumes "memo_ok P S memo" and "\<And>u v. s = u @ v \<Longrightarrow> match_ok P S rest v"
  shows "decides P S (within_segment rest s memo)
    (\<exists>u w. s = u @ w \<and> CHR ''/'' \<notin> set u \<and> w \<in> glob_lang rest)"
  using assms
proof (induction s arbitrary: memo)
  case Nil
  then have "decides P S (matches rest [] memo) ([] \<in> glob_lang rest)"
    by (auto intro: match_okD)
  then show ?case
    by (subst within_segment.simps) (auto simp: decides_def split: prod.splits)
next
  case (Cons c s)
  have here: "decides P S (matches rest (c # s) memo) (c # s \<in> glob_lang rest)"
    using Cons.prems(1) Cons.prems(2) [of "[]"] by (auto intro: match_okD)
  have loop: "decides P S (within_segment rest s m)
      (\<exists>u w. s = u @ w \<and> CHR ''/'' \<notin> set u \<and> w \<in> glob_lang rest)" if "memo_ok P S m" for m
    using Cons.IH [OF that] Cons.prems(2) by (metis append_Cons)
  have "decides P S (if c = CHR ''/'' then (False, m) else within_segment rest s m)
      (c \<noteq> CHR ''/'' \<and> (\<exists>u w. s = u @ w \<and> CHR ''/'' \<notin> set u \<and> w \<in> glob_lang rest))"
    if "memo_ok P S m" for m
    using that loop [OF that] by (auto simp: decides_def)
  then show ?case
    unfolding star_suffix_Cons within_segment.simps [of rest "c # s"] list.case
    by (intro decides_if [OF here])
qed

lemma after_sep_length: "after_sep v s \<Longrightarrow> length v < length s"
  by (auto simp: after_sep_def)

lemma after_sep_suffix: "after_sep v s \<Longrightarrow> is_suffix s S \<Longrightarrow> is_suffix v S"
  unfolding after_sep_def is_suffix_iff by (metis append.assoc append_Cons append_Nil)

lemma matches_correct:
  "is_suffix pat P \<Longrightarrow> is_suffix s S \<Longrightarrow> match_ok P S pat s"
proof (induction "length pat + length s" arbitrary: pat s rule: less_induct)
  case less
  have IH: "match_ok P S p t"
    if "length p + length t < length pat + length s" "is_suffix p P" "is_suffix t S" for p t
    using less.hyps that by blast
  note suf = is_suffix_drop [OF less.prems(1)] is_suffix_tl [OF less.prems(1)]
    is_suffix_tl [OF less.prems(2)] less.prems
  have suffixes: "is_suffix v S" if "s = u @ v" for u v
    using that less.prems(2) unfolding is_suffix_iff by auto
  have drops: "match_ok P S (drop (Suc n) pat) v" if "s = u @ v" "pat \<noteq> []" for n u v
    using that suffixes suf by (intro IH) (auto simp: neq_Nil_conv)
  have seps: "match_ok P S pat v" if "after_sep v s" for v
    using that less.prems by (intro IH) (auto dest: after_sep_length after_sep_suffix)
  have "decides P S (matches pat s memo) (s \<in> glob_lang pat)" if m: "memo_ok P S memo" for memo
  proof -
    note here = match_okD [OF drops [of "[]" s] m]
    consider "pat = []" | "pat \<noteq> []" "is_prefix ''**/'' pat"
      | "pat \<noteq> []" "\<not> is_prefix ''**/'' pat" "is_prefix ''**'' pat"
      | "pat \<noteq> []" "\<not> is_prefix ''**/'' pat" "\<not> is_prefix ''**'' pat" "is_prefix ''*'' pat"
      | "pat \<noteq> []" "\<not> is_prefix ''**/'' pat" "\<not> is_prefix ''**'' pat" "\<not> is_prefix ''*'' pat"
      by blast
    then show ?thesis
    proof cases
      case 1
      then show ?thesis
        by (subst matches.simps, intro decides_memo [OF m less.prems])
          (simp add: decides_def glob_lang_Nil m)
    next
      case 2
      have "decides P S (let (hit, m) = matches (drop 3 pat) s memo in
          if hit then (True, m) else any_segment pat s m) (s \<in> glob_lang pat)"
        unfolding glob_lang_dss_loop [OF 2(2), of s]
        using here [of 2] 2(1) seps by (intro decides_if any_segment_correct) (simp_all add: numeral_eq_Suc)
      with 2 show ?thesis
        by (subst matches.simps, intro decides_memo [OF m less.prems]) simp
    next
      case 3
      have "decides P S (let (hit, m) = matches (drop 2 pat) s memo in
          if hit then (True, m) else any_tail (drop 2 pat) s m) (s \<in> glob_lang pat)"
        unfolding glob_lang_ds [OF 3(2,3), of s]
        using here [of 1] 3(1) drops [of _ _ 1]
        by (intro decides_if any_tail_correct) (auto simp: numeral_eq_Suc after_sep_def)
      with 3 show ?thesis
        by (subst matches.simps, intro decides_memo [OF m less.prems]) simp
    next
      case 4
      have "decides P S (within_segment (drop 1 pat) s memo) (s \<in> glob_lang pat)"
        unfolding glob_lang_star [OF 4(3,4), of s]
        using m 4(1) drops [of _ _ 0] by (intro within_segment_correct) auto
      with 4 show ?thesis
        by (subst matches.simps, intro decides_memo [OF m less.prems]) simp
    next
      case 5
      have "decides P S (if s \<noteq> [] \<and> hd pat = hd s then matches (tl pat) (tl s) memo
          else (False, memo)) (s \<in> glob_lang pat)"
        unfolding glob_lang_lit [OF 5(1,4), of s]
        using m 5(1) drops [of "[hd s]" "tl s" 0]
        by (auto simp: decides_def match_ok_def drop_Suc)
      with 5 show ?thesis
        by (subst matches.simps, intro decides_memo [OF m less.prems]) simp
    qed
  qed
  then show ?case using less.prems by (simp add: match_ok_def)
qed

lemma matches_lang: "fst (matches p s {}) \<longleftrightarrow> s \<in> glob_lang p"
proof -
  have "memo_ok p s {}" by (simp add: memo_ok_def)
  with matches_correct [of p p s s] show ?thesis by (simp add: match_ok_def decides_def)
qed

text \<open>C34. The memoised matcher decides exactly the language of the pattern on every pattern and path
  of at most 8192 bytes, and rejects every longer input: the failure memo never changes an answer.\<close>

theorem glob_matches_iff:
  "glob_matches pattern path \<longleftrightarrow>
     length pattern \<le> 8192 \<and> length path \<le> 8192 \<and> path \<in> glob_lang pattern"
  by (auto simp: glob_matches_def MAX_GLOB_LEN_def matches_lang)

end
