(* ===== verification/Lattice.thy ===== *)
theory Lattice
  imports Prelude "HOL-Library.Product_Lexorder"
begin

text \<open>
  Confidentiality labels and their lattice, \<^verbatim>\<open>src/acl/lattice.rs\<close>: the search \<^verbatim>\<open>dominates\<close> with its
  stack and visited set, the bounds computed from it, and \<^verbatim>\<open>validate\<close>. The order of the lattice is
  shown to be reachability over the cover edges, and \<^verbatim>\<open>validate\<close> to accept exactly the finite
  bounded lattices. The locale \<open>dominance\<close> is what the access rules use of an order.
\<close>

section \<open>Labels\<close>

datatype label = Label (label_str: string)

instantiation label :: linorder
begin

definition less_eq_label :: "label \<Rightarrow> label \<Rightarrow> bool" where
  "less_eq_label a b \<longleftrightarrow> label_str a \<le> label_str b"

definition less_label :: "label \<Rightarrow> label \<Rightarrow> bool" where
  "less_label a b \<longleftrightarrow> label_str a < label_str b"

instance
  by standard (auto simp: less_eq_label_def less_label_def label.expand)

end

definition PUBLIC :: string where "PUBLIC = ''public''"
definition PROTECTED :: string where "PROTECTED = ''protected''"

definition label_public :: label where
  "label_public = Label PUBLIC"

definition label_protected :: label where
  "label_protected = Label PROTECTED"

text \<open>The \<^verbatim>\<open>Debug\<close> form of a label in the messages of \<^verbatim>\<open>validate\<close>.\<close>

definition label_debug :: "label \<Rightarrow> string" where
  "label_debug l = ''Label('' @ [CHR 0x22] @ label_str l @ [CHR 0x22] @ '')''"

section \<open>The lattice and its operations\<close>

record lattice =
  labels :: "label list"
  cover :: "(label \<times> label) list"

definition lattice_new :: "label list \<Rightarrow> (label \<times> label) list \<Rightarrow> lattice" where
  "lattice_new ls cs = \<lparr>labels = btset_of ls, cover = btset_of cs\<rparr>"

definition two_point :: lattice where
  "two_point = lattice_new [label_public, label_protected] [(label_public, label_protected)]"

text \<open>
  The inner \<^verbatim>\<open>for\<close> loop of \<^verbatim>\<open>dominates\<close> over the cover edges; \<^const>\<open>None\<close> is its \<^verbatim>\<open>return true\<close>.
\<close>

fun scan_cover ::
  "label \<Rightarrow> label \<Rightarrow> (label \<times> label) list \<Rightarrow> label list \<Rightarrow> label set \<Rightarrow> (label list \<times> label set) option"
where
  "scan_cover a cur [] stack seen = Some (stack, seen)"
| "scan_cover a cur ((lo, hi) # es) stack seen =
     (if lo = cur then
        if hi = a then None
        else if hi \<notin> seen then scan_cover a cur es (hi # stack) (insert hi seen)
        else scan_cover a cur es stack seen
      else scan_cover a cur es stack seen)"

lemma scan_cover_measure:
  assumes "scan_cover a cur es stack seen = Some (stack', seen')"
    and "finite U" and "snd ` set es \<subseteq> U"
  shows "2 * card (U - seen') + length stack' \<le> 2 * card (U - seen) + length stack"
  using assms
proof (induction a cur es stack seen rule: scan_cover.induct)
  case (2 a cur lo hi es stack seen)
  show ?case
  proof (cases "lo = cur \<and> hi \<notin> seen")
    case True
    with 2 have "2 * card (U - seen') + length stack' \<le> 2 * card (U - insert hi seen) + Suc (length stack)"
      by (auto split: if_splits)
    with True 2 card_Diff_insert_less [of U hi seen] show ?thesis by simp
  next
    case False
    with 2 show ?thesis by (auto split: if_splits)
  qed
qed simp

function dominates_loop :: "(label \<times> label) list \<Rightarrow> label \<Rightarrow> label list \<Rightarrow> label set \<Rightarrow> bool" where
  "dominates_loop es a [] seen = False"
| "dominates_loop es a (cur # stack) seen =
     (case scan_cover a cur es stack seen of
        None \<Rightarrow> True
      | Some (stack', seen') \<Rightarrow> dominates_loop es a stack' seen')"
  by pat_completeness auto
termination
proof (relation "measure (\<lambda>(es, a, stack, seen). 2 * card (snd ` set es - seen) + length stack)", goal_cases)
  case (2 es a cur stack seen p stack' seen')
  then show ?case using scan_cover_measure [of a cur es stack seen stack' seen' "snd ` set es"] by auto
qed simp

definition dominates :: "lattice \<Rightarrow> label \<Rightarrow> label \<Rightarrow> bool" where
  "dominates L a b = (if a = b then True else dominates_loop (cover L) a [b] {})"

definition strictly_dominates :: "lattice \<Rightarrow> label \<Rightarrow> label \<Rightarrow> bool" where
  "strictly_dominates L a b \<longleftrightarrow> a \<noteq> b \<and> dominates L a b"

definition lat_bottom :: "lattice \<Rightarrow> label" where
  "lat_bottom L =
     (case find (\<lambda>l. list_all (\<lambda>x. dominates L x l) (labels L)) (labels L) of
        Some l \<Rightarrow> l | None \<Rightarrow> label_public)"

definition lat_top :: "lattice \<Rightarrow> label" where
  "lat_top L =
     (case find (\<lambda>l. list_all (\<lambda>x. dominates L l x) (labels L)) (labels L) of
        Some l \<Rightarrow> l | None \<Rightarrow> label_public)"

definition upper_bounds :: "lattice \<Rightarrow> label \<Rightarrow> label \<Rightarrow> label list" where
  "upper_bounds L a b = filter (\<lambda>l. dominates L l a \<and> dominates L l b) (labels L)"

definition lower_bounds :: "lattice \<Rightarrow> label \<Rightarrow> label \<Rightarrow> label list" where
  "lower_bounds L a b = filter (\<lambda>l. dominates L a l \<and> dominates L b l) (labels L)"

definition lat_join :: "lattice \<Rightarrow> label \<Rightarrow> label \<Rightarrow> label" where
  "lat_join L a b =
     (let ubs = upper_bounds L a b in
      case find (\<lambda>cand. list_all (\<lambda>other. dominates L other cand) ubs) ubs of
        Some l \<Rightarrow> l | None \<Rightarrow> lat_top L)"

definition lat_meet :: "lattice \<Rightarrow> label \<Rightarrow> label \<Rightarrow> label" where
  "lat_meet L a b =
     (let lbs = lower_bounds L a b in
      case find (\<lambda>cand. list_all (\<lambda>other. dominates L cand other) lbs) lbs of
        Some l \<Rightarrow> l | None \<Rightarrow> lat_bottom L)"

text \<open>\<^verbatim>\<open>validate\<close>, loop by loop.\<close>

definition check_cover :: "lattice \<Rightarrow> unit result" where
  "check_cover L =
     fold_res (\<lambda>(lo, hi) _.
       if lo \<notin> set (labels L) \<or> hi \<notin> set (labels L)
       then Inl (Storage ''cover edge references an unknown label'') else Inr ()) (cover L) ()"

definition check_cycles :: "lattice \<Rightarrow> unit result" where
  "check_cycles L =
     fold_res (\<lambda>a _. fold_res (\<lambda>b _.
       if a \<noteq> b \<and> dominates L a b \<and> dominates L b a
       then Inl (Storage (''cycle: '' @ label_debug a @ '' and '' @ label_debug b @ '' mutually dominate''))
       else Inr ()) (labels L) ()) (labels L) ()"

definition check_bounds :: "lattice \<Rightarrow> unit result" where
  "check_bounds L =
     fold_res (\<lambda>a _. fold_res (\<lambda>b _.
       (let ubs = upper_bounds L a b;
            lubs = length (filter (\<lambda>cand. list_all (\<lambda>u. dominates L u cand) ubs) ubs) in
        if lubs \<noteq> 1
        then Inl (Storage (''pair '' @ label_debug a @ '','' @ label_debug b @ '' lacks a unique join''))
        else
          let lbs = lower_bounds L a b;
              glbs = length (filter (\<lambda>cand. list_all (\<lambda>u. dominates L cand u) lbs) lbs) in
          if glbs \<noteq> 1
          then Inl (Storage (''pair '' @ label_debug a @ '','' @ label_debug b @ '' lacks a unique meet''))
          else Inr ())) (labels L) ()) (labels L) ()"

definition validate :: "lattice \<Rightarrow> unit result" where
  "validate L =
     (if labels L = [] then Inl (Storage ''lattice has no labels'')
      else bind_res (check_cover L) (\<lambda>_.
        bind_res (check_cycles L) (\<lambda>_.
          let bottoms = length (filter (\<lambda>l. list_all (\<lambda>x. dominates L x l) (labels L)) (labels L)) in
          if bottoms \<noteq> 1
          then Inl (Storage (''expected exactly one bottom, found '' @ show_nat bottoms))
          else
            let tops = length (filter (\<lambda>l. list_all (\<lambda>x. dominates L l x) (labels L)) (labels L)) in
            if tops \<noteq> 1
            then Inl (Storage (''expected exactly one top, found '' @ show_nat tops))
            else check_bounds L)))"

section \<open>Domination is reachability\<close>

lemma scan_cover_None: "scan_cover a cur es stack seen = None \<longleftrightarrow> (cur, a) \<in> set es"
  by (induction a cur es stack seen rule: scan_cover.induct) auto

lemma scan_cover_Some:
  assumes "scan_cover a cur es stack seen = Some (stack', seen')"
  shows "seen' = seen \<union> {y. (cur, y) \<in> set es}"
    and "set stack' = set stack \<union> {y. (cur, y) \<in> set es \<and> y \<notin> seen}"
  using assms
  by (induction a cur es stack seen rule: scan_cover.induct) (auto split: if_splits)

lemma dominates_loop_iff:
  assumes "\<And>x y. x \<in> seen \<Longrightarrow> x \<notin> set stack \<Longrightarrow> (x, y) \<in> set es \<Longrightarrow> y \<noteq> a \<and> y \<in> seen"
  shows "dominates_loop es a stack seen \<longleftrightarrow> (\<exists>x \<in> set stack. (x, a) \<in> (set es)\<^sup>+)"
  using assms
proof (induction es a stack seen rule: dominates_loop.induct)
  case (2 es a cur stack seen)
  show ?case
  proof (cases "scan_cover a cur es stack seen")
    case None
    then have "(cur, a) \<in> set es" by (simp add: scan_cover_None)
    with None show ?thesis by auto
  next
    case (Some p)
    then obtain stack' seen' where p: "scan_cover a cur es stack seen = Some (stack', seen')"
      by (cases p) auto
    have no: "(cur, a) \<notin> set es" using p scan_cover_None [of a cur es stack seen] by simp
    note sets = scan_cover_Some [OF p]
    have settled: "y \<noteq> a \<and> y \<in> seen'" if "x \<in> seen'" "x \<notin> set stack'" "(x, y) \<in> set es" for x y
      using that no "2.prems" [of x y] unfolding sets by (cases "x = cur") auto
    have "dominates_loop es a (cur # stack) seen \<longleftrightarrow> (\<exists>x \<in> set stack'. (x, a) \<in> (set es)\<^sup>+)"
      using "2.IH" [OF p refl] settled p by simp
    also have "\<dots> \<longleftrightarrow> (\<exists>x \<in> set (cur # stack). (x, a) \<in> (set es)\<^sup>+)"
    proof
      assume "\<exists>x \<in> set stack'. (x, a) \<in> (set es)\<^sup>+"
      then show "\<exists>x \<in> set (cur # stack). (x, a) \<in> (set es)\<^sup>+"
        unfolding sets by (auto intro: trancl_into_trancl2)
    next
      assume "\<exists>x \<in> set (cur # stack). (x, a) \<in> (set es)\<^sup>+"
      then consider "(cur, a) \<in> (set es)\<^sup>+" | x where "x \<in> set stack" "(x, a) \<in> (set es)\<^sup>+" by auto
      then show "\<exists>x \<in> set stack'. (x, a) \<in> (set es)\<^sup>+"
      proof cases
        case 1
        then obtain y where y: "(cur, y) \<in> set es" "(y, a) \<in> (set es)\<^sup>+"
          using no by (metis converse_tranclE)
        then have "y \<in> seen'" unfolding sets by blast
        with worklist_escape [OF y(2)] settled show ?thesis by blast
      next
        case 2
        then show ?thesis unfolding sets by blast
      qed
    qed
    finally show ?thesis .
  qed
qed simp

lemma dominates_rtrancl: "dominates L a b \<longleftrightarrow> (b, a) \<in> (set (cover L))\<^sup>*"
  using dominates_loop_iff [of "{}" "[b]" "cover L" a]
  by (auto simp: dominates_def rtrancl_eq_or_trancl)

text \<open>Label domination is exactly reachability over the cover edges: \<^verbatim>\<open>dominates(a, b)\<close> holds just
  when a chain of zero or more edges leads up from \<open>b\<close> to \<open>a\<close>, and \<^verbatim>\<open>strictly_dominates\<close> when
  moreover the labels differ, for every edge set, cyclic ones included; the search always ends.\<close>

lemma dominates_iff_reachable:
  "(dominates L a b \<longleftrightarrow> (b, a) \<in> (set (cover L))\<^sup>*) \<and>
   (strictly_dominates L a b \<longleftrightarrow> a \<noteq> b \<and> (b, a) \<in> (set (cover L))\<^sup>+)"
  by (auto simp: strictly_dominates_def dominates_rtrancl rtrancl_eq_or_trancl)

section \<open>What the access rules use of an order\<close>

locale dominance =
  fixes ge :: "'l \<Rightarrow> 'l \<Rightarrow> bool"
  assumes ge_refl: "ge a a"
    and ge_trans: "ge a b \<Longrightarrow> ge b c \<Longrightarrow> ge a c"
begin

text \<open>A set of labels dominates a required label when one of its members does.\<close>

definition held :: "'l set \<Rightarrow> 'l \<Rightarrow> bool" where
  "held R l \<longleftrightarrow> (\<exists>r \<in> R. ge r l)"

lemma held_up: "held R l \<Longrightarrow> ge l l' \<Longrightarrow> held R l'"
  unfolding held_def using ge_trans by blast

lemma held_member: "l \<in> R \<Longrightarrow> held R l"
  unfolding held_def using ge_refl by blast

lemma held_mono: "held R l \<Longrightarrow> (\<And>r. r \<in> R \<Longrightarrow> \<exists>r' \<in> R'. ge r' r) \<Longrightarrow> held R' l"
  unfolding held_def using ge_trans by blast

end

interpretation lat: dominance "dominates L" for L
  by unfold_locales (auto simp: dominates_rtrancl)

section \<open>Validation\<close>

text \<open>
  The specification: a finite nonempty set with an antisymmetric order in which every two elements
  have a least upper and a greatest lower bound.
\<close>

definition is_lub :: "'l set \<Rightarrow> ('l \<Rightarrow> 'l \<Rightarrow> bool) \<Rightarrow> 'l \<Rightarrow> 'l \<Rightarrow> 'l \<Rightarrow> bool" where
  "is_lub S ge a b j \<longleftrightarrow> j \<in> S \<and> ge j a \<and> ge j b \<and> (\<forall>u \<in> S. ge u a \<and> ge u b \<longrightarrow> ge u j)"

definition is_glb :: "'l set \<Rightarrow> ('l \<Rightarrow> 'l \<Rightarrow> bool) \<Rightarrow> 'l \<Rightarrow> 'l \<Rightarrow> 'l \<Rightarrow> bool" where
  "is_glb S ge a b m \<longleftrightarrow> m \<in> S \<and> ge a m \<and> ge b m \<and> (\<forall>u \<in> S. ge a u \<and> ge b u \<longrightarrow> ge m u)"

definition bounded_lattice :: "'l set \<Rightarrow> ('l \<Rightarrow> 'l \<Rightarrow> bool) \<Rightarrow> bool" where
  "bounded_lattice S ge \<longleftrightarrow>
     S \<noteq> {} \<and>
     (\<forall>a \<in> S. \<forall>b \<in> S. ge a b \<and> ge b a \<longrightarrow> a = b) \<and>
     (\<exists>z \<in> S. \<forall>x \<in> S. ge x z) \<and> (\<exists>t \<in> S. \<forall>x \<in> S. ge t x) \<and>
     (\<forall>a \<in> S. \<forall>b \<in> S. (\<exists>j. is_lub S ge a b j) \<and> (\<exists>m. is_glb S ge a b m))"

lemma fold_res_guard:
  "fold_res (\<lambda>x _. f x) xs () = Inr () \<longleftrightarrow> (\<forall>x \<in> set xs. f x = Inr ())"
  by (induction xs) (auto simp: bind_res_Inr)

lemma check_cover_iff: "check_cover L = Inr () \<longleftrightarrow> Field (set (cover L)) \<subseteq> set (labels L)"
  unfolding check_cover_def case_prod_unfold fold_res_guard
  by (auto simp: Field_def split: if_splits)

lemma check_cycles_iff:
  "check_cycles L = Inr () \<longleftrightarrow>
     (\<forall>a \<in> set (labels L). \<forall>b \<in> set (labels L). dominates L a b \<and> dominates L b a \<longrightarrow> a = b)"
  unfolding check_cycles_def fold_res_guard by (auto split: if_splits)

lemma length_filter_1:
  assumes "distinct xs" and "\<And>x y. x \<in> set xs \<Longrightarrow> y \<in> set xs \<Longrightarrow> P x \<Longrightarrow> P y \<Longrightarrow> x = y"
  shows "length (filter P xs) = 1 \<longleftrightarrow> (\<exists>x \<in> set xs. P x)"
proof
  assume "length (filter P xs) = 1"
  then have "filter P xs \<noteq> []" by auto
  then show "\<exists>x \<in> set xs. P x" by (metis filter_False)
next
  assume "\<exists>x \<in> set xs. P x"
  then obtain x where x: "x \<in> set xs" "P x" by blast
  then have "set (filter P xs) = {x}" using assms(2) by auto
  moreover have "distinct (filter P xs)" using assms(1) by simp
  ultimately show "length (filter P xs) = 1" by (metis card_1_singleton_iff distinct_card One_nat_def)
qed

lemma check_bounds_iff:
  assumes dist: "distinct (labels L)"
    and anti: "\<And>a b. a \<in> set (labels L) \<Longrightarrow> b \<in> set (labels L) \<Longrightarrow> dominates L a b \<Longrightarrow> dominates L b a \<Longrightarrow> a = b"
  shows "check_bounds L = Inr () \<longleftrightarrow>
    (\<forall>a \<in> set (labels L). \<forall>b \<in> set (labels L).
      (\<exists>j. is_lub (set (labels L)) (dominates L) a b j) \<and> (\<exists>m. is_glb (set (labels L)) (dominates L) a b m))"
proof -
  have lub: "length (filter (\<lambda>c. list_all (\<lambda>u. dominates L u c) (upper_bounds L a b)) (upper_bounds L a b)) = 1
      \<longleftrightarrow> (\<exists>j. is_lub (set (labels L)) (dominates L) a b j)" for a b
    using dist anti
    by (subst length_filter_1) (auto simp: upper_bounds_def is_lub_def [abs_def] list_all_iff)
  have glb: "length (filter (\<lambda>c. list_all (\<lambda>u. dominates L c u) (lower_bounds L a b)) (lower_bounds L a b)) = 1
      \<longleftrightarrow> (\<exists>m. is_glb (set (labels L)) (dominates L) a b m)" for a b
    using dist anti
    by (subst length_filter_1) (auto simp: lower_bounds_def is_glb_def [abs_def] list_all_iff)
  show ?thesis
    unfolding check_bounds_def fold_res_guard Let_def lub [symmetric] glb [symmetric]
    by (auto split: if_splits)
qed

definition lattice_wf :: "lattice \<Rightarrow> bool" where
  "lattice_wf L \<longleftrightarrow> distinct (labels L)"

lemma lattice_wf_new [simp]: "lattice_wf (lattice_new ls cs)"
  by (simp add: lattice_wf_def lattice_new_def)

lemma validate_iff:
  assumes "lattice_wf L"
  shows "validate L = Inr () \<longleftrightarrow>
    Field (set (cover L)) \<subseteq> set (labels L) \<and> bounded_lattice (set (labels L)) (dominates L)"
proof (cases "check_cycles L = Inr ()")
  case True
  then have anti: "a = b" if "a \<in> set (labels L)" "b \<in> set (labels L)" "dominates L a b" "dominates L b a" for a b
    using that by (simp add: check_cycles_iff)
  have dist: "distinct (labels L)" using assms by (simp add: lattice_wf_def)
  have bot: "length (filter (\<lambda>l. list_all (\<lambda>x. dominates L x l) (labels L)) (labels L)) = 1
      \<longleftrightarrow> (\<exists>z \<in> set (labels L). \<forall>x \<in> set (labels L). dominates L x z)"
    using dist anti by (subst length_filter_1) (auto simp: list_all_iff)
  have top: "length (filter (\<lambda>l. list_all (\<lambda>x. dominates L l x) (labels L)) (labels L)) = 1
      \<longleftrightarrow> (\<exists>t \<in> set (labels L). \<forall>x \<in> set (labels L). dominates L t x)"
    using dist anti by (subst length_filter_1) (auto simp: list_all_iff)
  show ?thesis
    using True check_cycles_iff [of L]
    unfolding validate_def Let_def bounded_lattice_def check_cover_iff [symmetric]
      bot [symmetric] top [symmetric]
    by (cases "check_cover L") (simp_all add: bind_res_Inr check_bounds_iff [OF dist anti] del: One_nat_def)
next
  case False
  then show ?thesis
    unfolding validate_def bounded_lattice_def check_cycles_iff [symmetric]
    by (cases "check_cover L") (auto simp: bind_res_Inr)
qed

lemma find_unique:
  assumes "x \<in> set xs" and "P x" and "\<And>y. y \<in> set xs \<Longrightarrow> P y \<Longrightarrow> y = x"
  shows "find P xs = Some x"
proof (cases "find P xs")
  case None
  with assms(1,2) show ?thesis by (auto simp: find_None_iff)
next
  case (Some y)
  then have "y \<in> set xs" "P y" by (auto simp: find_Some_iff)
  then have "y = x" by (rule assms(3))
  with Some show ?thesis by simp
qed

lemma bounded_latticeD:
  assumes "bounded_lattice S ge"
  shows "a \<in> S \<Longrightarrow> b \<in> S \<Longrightarrow> ge a b \<Longrightarrow> ge b a \<Longrightarrow> a = b"
    and "\<exists>z \<in> S. \<forall>x \<in> S. ge x z" and "\<exists>t \<in> S. \<forall>x \<in> S. ge t x"
    and "a \<in> S \<Longrightarrow> b \<in> S \<Longrightarrow> \<exists>j. is_lub S ge a b j" and "a \<in> S \<Longrightarrow> b \<in> S \<Longrightarrow> \<exists>m. is_glb S ge a b m"
  using assms unfolding bounded_lattice_def by auto

lemma lat_join_lub:
  assumes "bounded_lattice (set (labels L)) (dominates L)" and "a \<in> set (labels L)" and "b \<in> set (labels L)"
  shows "is_lub (set (labels L)) (dominates L) a b (lat_join L a b)"
proof -
  obtain j where j: "is_lub (set (labels L)) (dominates L) a b j"
    using bounded_latticeD(4) [OF assms] by blast
  have "find (\<lambda>c. list_all (\<lambda>u. dominates L u c) (upper_bounds L a b)) (upper_bounds L a b) = Some j"
    using j bounded_latticeD(1) [OF assms(1)]
    by (intro find_unique) (auto simp: upper_bounds_def list_all_iff is_lub_def)
  with j show ?thesis by (simp add: lat_join_def)
qed

lemma lat_meet_glb:
  assumes "bounded_lattice (set (labels L)) (dominates L)" and "a \<in> set (labels L)" and "b \<in> set (labels L)"
  shows "is_glb (set (labels L)) (dominates L) a b (lat_meet L a b)"
proof -
  obtain m where m: "is_glb (set (labels L)) (dominates L) a b m"
    using bounded_latticeD(5) [OF assms] by blast
  have "find (\<lambda>c. list_all (\<lambda>u. dominates L c u) (lower_bounds L a b)) (lower_bounds L a b) = Some m"
    using m bounded_latticeD(1) [OF assms(1)]
    by (intro find_unique) (auto simp: lower_bounds_def list_all_iff is_glb_def)
  with m show ?thesis by (simp add: lat_meet_def)
qed

lemma lat_bottom_least:
  assumes "bounded_lattice (set (labels L)) (dominates L)"
  shows "lat_bottom L \<in> set (labels L) \<and> (\<forall>x \<in> set (labels L). dominates L x (lat_bottom L))"
proof -
  obtain z where z: "z \<in> set (labels L)" "\<forall>x \<in> set (labels L). dominates L x z"
    using bounded_latticeD(2) [OF assms] by blast
  then have "find (\<lambda>l. list_all (\<lambda>x. dominates L x l) (labels L)) (labels L) = Some z"
    using bounded_latticeD(1) [OF assms] by (intro find_unique) (auto simp: list_all_iff)
  with z show ?thesis by (simp add: lat_bottom_def)
qed

lemma lat_top_greatest:
  assumes "bounded_lattice (set (labels L)) (dominates L)"
  shows "lat_top L \<in> set (labels L) \<and> (\<forall>x \<in> set (labels L). dominates L (lat_top L) x)"
proof -
  obtain z where z: "z \<in> set (labels L)" "\<forall>x \<in> set (labels L). dominates L z x"
    using bounded_latticeD(3) [OF assms] by blast
  then have "find (\<lambda>l. list_all (\<lambda>x. dominates L l x) (labels L)) (labels L) = Some z"
    using bounded_latticeD(1) [OF assms] by (intro find_unique) (auto simp: list_all_iff)
  with z show ?thesis by (simp add: lat_top_def)
qed

text \<open>\<^verbatim>\<open>validate\<close> accepts a label configuration exactly when its edges join declared labels and the
  order they generate is a bounded lattice, and on an accepted configuration the four operations
  compute what they are named for: \<^verbatim>\<open>join\<close> the least upper bound, \<^verbatim>\<open>meet\<close> the greatest lower bound,
  \<^verbatim>\<open>bottom\<close> and \<^verbatim>\<open>top\<close> the extremes.\<close>

lemma validate_bounded_lattice:
  assumes "lattice_wf L"
  shows "(validate L = Inr () \<longleftrightarrow>
      Field (set (cover L)) \<subseteq> set (labels L) \<and> bounded_lattice (set (labels L)) (dominates L)) \<and>
    (validate L = Inr () \<longrightarrow>
      (\<forall>a \<in> set (labels L). dominates L a (lat_bottom L) \<and> dominates L (lat_top L) a \<and>
        (\<forall>b \<in> set (labels L).
          is_lub (set (labels L)) (dominates L) a b (lat_join L a b) \<and>
          is_glb (set (labels L)) (dominates L) a b (lat_meet L a b))))"
  unfolding validate_iff [OF assms]
  using lat_join_lub lat_meet_glb lat_bottom_least lat_top_greatest by simp

end
