(* ===== verification/Access.thy ===== *)
theory Access
  imports Glob Lattice
begin

text \<open>
  Clearances, label rules and the evaluator \<^verbatim>\<open>Accessor\<close>: \<^verbatim>\<open>src/acl/clearance.rs\<close>,
  \<^verbatim>\<open>src/acl/rules.rs\<close> and the first part of \<^verbatim>\<open>src/acl/mod.rs\<close>. The lemmas say what \<^verbatim>\<open>can_read\<close> and
  \<^verbatim>\<open>can_write\<close> grant, that a label is the join of the rules that match, that the decision trace of
  \<^verbatim>\<open>explain\<close> reports the enforced verdict, and that the role constructors mean what the glob roles
  they replace meant.
\<close>

section \<open>Capabilities and clearances\<close>

text \<open>The \<^verbatim>\<open>bitflags\<close> structure \<^verbatim>\<open>Capability\<close>: a byte, with \<^verbatim>\<open>contains\<close> as set inclusion of bits.\<close>

type_synonym capability = u8

definition READ :: capability where "READ = 1"
definition WRITE :: capability where "WRITE = 2"

definition cap_contains :: "capability \<Rightarrow> capability \<Rightarrow> bool" where
  "cap_contains c other \<longleftrightarrow> and c other = other"

datatype clearance_scope = ScopePath string | ScopeTimeline string | ScopeSecret string

record clearance =
  ceiling :: label
  cap :: capability
  scope :: "clearance_scope option"

record clearance_set =
  clearances :: "clearance list"
  confined :: bool

datatype permission = PermRead | PermWrite

record path_role =
  pr_glob :: string
  pr_permission :: permission

record timeline_role =
  tr_pattern :: string
  tr_permission :: permission

fun capability_from :: "permission \<Rightarrow> capability" where
  "capability_from PermRead = READ"
| "capability_from PermWrite = WRITE"

section \<open>Label rules\<close>

datatype label_rule =
    RulePath string label
  | RuleTimeline string label
  | RuleSecret string label

type_synonym label_rule_set = "label_rule list"

definition label_for_path :: "label_rule_set \<Rightarrow> lattice \<Rightarrow> string \<Rightarrow> label" where
  "label_for_path rules L path =
     foldl (\<lambda>acc rule. case rule of
         RulePath glob label \<Rightarrow> if glob_matches glob path then lat_join L acc label else acc
       | _ \<Rightarrow> acc) (lat_bottom L) rules"

definition label_for_timeline :: "label_rule_set \<Rightarrow> lattice \<Rightarrow> string \<Rightarrow> label" where
  "label_for_timeline rules L name =
     foldl (\<lambda>acc rule. case rule of
         RuleTimeline pattern label \<Rightarrow> if glob_matches pattern name then lat_join L acc label else acc
       | _ \<Rightarrow> acc) (lat_bottom L) rules"

definition label_for_secret :: "label_rule_set \<Rightarrow> lattice \<Rightarrow> string \<Rightarrow> label" where
  "label_for_secret rules L name =
     foldl (\<lambda>acc rule. case rule of
         RuleSecret rname label \<Rightarrow> if glob_matches rname name then lat_join L acc label else acc
       | _ \<Rightarrow> acc) (lat_bottom L) rules"

section \<open>The accessor\<close>

datatype resource_ref = ResPath string | ResTimeline string | ResSecret string

fun scope_applies :: "clearance_scope option \<Rightarrow> resource_ref \<Rightarrow> bool" where
  "scope_applies None r = True"
| "scope_applies (Some (ScopePath g)) (ResPath p) = glob_matches g p"
| "scope_applies (Some (ScopeTimeline g)) (ResTimeline t) = glob_matches g t"
| "scope_applies (Some (ScopeSecret s)) (ResSecret n) = glob_matches s n"
| "scope_applies _ _ = False"

definition render_scope :: "clearance_scope option \<Rightarrow> string option" where
  "render_scope sc = map_option (\<lambda>s. case s of
       ScopePath g \<Rightarrow> ''path:'' @ g
     | ScopeTimeline g \<Rightarrow> ''timeline:'' @ g
     | ScopeSecret g \<Rightarrow> ''secret:'' @ g) sc"

record accessor =
  acc_lattice :: lattice
  acc_rules :: label_rule_set
  acc_clearances :: clearance_set
  acc_actor :: "string option"

definition accessor_new :: accessor where
  "accessor_new = \<lparr>acc_lattice = two_point, acc_rules = [],
     acc_clearances = \<lparr>clearances = [], confined = False\<rparr>, acc_actor = None\<rparr>"

definition from_parts :: "lattice \<Rightarrow> label_rule_set \<Rightarrow> clearance_set \<Rightarrow> accessor" where
  "from_parts L rules cs = \<lparr>acc_lattice = L, acc_rules = rules, acc_clearances = cs, acc_actor = None\<rparr>"

definition with_actor :: "accessor \<Rightarrow> string \<Rightarrow> accessor" where
  "with_actor a actor = a\<lparr>acc_actor := Some actor\<rparr>"

definition with_path_role :: "accessor \<Rightarrow> path_role \<Rightarrow> accessor" where
  "with_path_role a role = a\<lparr>
     acc_rules := acc_rules a @ [RulePath (pr_glob role) label_protected],
     acc_clearances := (acc_clearances a)\<lparr>clearances := clearances (acc_clearances a) @
       [\<lparr>ceiling = label_protected, cap = capability_from (pr_permission role),
         scope = Some (ScopePath (pr_glob role))\<rparr>]\<rparr>\<rparr>"

definition with_timeline_role :: "accessor \<Rightarrow> timeline_role \<Rightarrow> accessor" where
  "with_timeline_role a role = a\<lparr>
     acc_rules := acc_rules a @ [RuleTimeline (tr_pattern role) label_protected],
     acc_clearances := (acc_clearances a)\<lparr>clearances := clearances (acc_clearances a) @
       [\<lparr>ceiling = label_protected, cap = capability_from (tr_permission role),
         scope = Some (ScopeTimeline (tr_pattern role))\<rparr>]\<rparr>\<rparr>"

definition privileged :: accessor where
  "privileged =
     (let lattice = two_point; top = lat_top lattice in
      \<lparr>acc_lattice = lattice, acc_rules = [],
       acc_clearances = \<lparr>clearances = [\<lparr>ceiling = top, cap = READ, scope = None\<rparr>], confined = False\<rparr>,
       acc_actor = None\<rparr>)"

abbreviation held_clearances :: "accessor \<Rightarrow> clearance list" where
  "held_clearances a \<equiv> clearances (acc_clearances a)"

definition has_write_capability :: "accessor \<Rightarrow> bool" where
  "has_write_capability a = list_ex (\<lambda>c. cap_contains (cap c) WRITE) (held_clearances a)"

definition can_read :: "accessor \<Rightarrow> label \<Rightarrow> resource_ref \<Rightarrow> bool" where
  "can_read a label r =
     list_ex (\<lambda>c. cap_contains (cap c) READ \<and> scope_applies (scope c) r
       \<and> dominates (acc_lattice a) (ceiling c) label) (held_clearances a)"

definition can_write :: "accessor \<Rightarrow> label \<Rightarrow> resource_ref \<Rightarrow> bool" where
  "can_write a label r =
     (let dominated = list_ex (\<lambda>c. cap_contains (cap c) WRITE \<and> scope_applies (scope c) r
            \<and> dominates (acc_lattice a) (ceiling c) label) (held_clearances a) in
      if \<not> dominated then False
      else if confined (acc_clearances a) then
        (let at_level = list_ex (\<lambda>c. cap_contains (cap c) WRITE \<and> scope_applies (scope c) r
              \<and> dominates (acc_lattice a) (ceiling c) label
              \<and> \<not> strictly_dominates (acc_lattice a) (ceiling c) label) (held_clearances a) in
         if \<not> at_level then False else True)
      else True)"

definition can_read_path :: "accessor \<Rightarrow> string \<Rightarrow> bool" where
  "can_read_path a path = can_read a (label_for_path (acc_rules a) (acc_lattice a) path) (ResPath path)"

definition can_write_path :: "accessor \<Rightarrow> string \<Rightarrow> bool" where
  "can_write_path a path = can_write a (label_for_path (acc_rules a) (acc_lattice a) path) (ResPath path)"

definition can_read_timeline :: "accessor \<Rightarrow> string \<Rightarrow> bool" where
  "can_read_timeline a name =
     can_read a (label_for_timeline (acc_rules a) (acc_lattice a) name) (ResTimeline name)"

definition can_write_timeline :: "accessor \<Rightarrow> string \<Rightarrow> bool" where
  "can_write_timeline a name =
     can_write a (label_for_timeline (acc_rules a) (acc_lattice a) name) (ResTimeline name)"

definition can_read_secret :: "accessor \<Rightarrow> string \<Rightarrow> bool" where
  "can_read_secret a name =
     can_read a (label_for_secret (acc_rules a) (acc_lattice a) name) (ResSecret name)"

subsection \<open>Decision traces\<close>

record clearance_eval =
  ev_ceiling :: label
  ev_scope :: "string option"
  ev_scope_applies :: bool
  ev_grants_capability :: bool
  ev_dominates :: bool
  ev_strictly_dominates :: bool
  ev_decisive :: bool

record capability_trace =
  allowed :: bool
  confined_write_down_block :: bool
  evals :: "clearance_eval list"

definition eval_clearance :: "accessor \<Rightarrow> label \<Rightarrow> resource_ref \<Rightarrow> capability \<Rightarrow> clearance \<Rightarrow> clearance_eval" where
  "eval_clearance a label r want c =
     \<lparr>ev_ceiling = ceiling c, ev_scope = render_scope (scope c),
      ev_scope_applies = scope_applies (scope c) r,
      ev_grants_capability = cap_contains (cap c) want,
      ev_dominates = dominates (acc_lattice a) (ceiling c) label,
      ev_strictly_dominates = strictly_dominates (acc_lattice a) (ceiling c) label,
      ev_decisive = False\<rparr>"

abbreviation qualifies :: "clearance_eval \<Rightarrow> bool" where
  "qualifies e \<equiv> ev_grants_capability e \<and> ev_scope_applies e \<and> ev_dominates e"

text \<open>\<^verbatim>\<open>iter_mut().find(..)\<close> followed by the assignment: the first match only.\<close>

fun flag_decisive :: "clearance_eval list \<Rightarrow> clearance_eval list" where
  "flag_decisive [] = []"
| "flag_decisive (e # es) = (if qualifies e then e\<lparr>ev_decisive := True\<rparr> # es else e # flag_decisive es)"

definition eval_cap :: "accessor \<Rightarrow> label \<Rightarrow> resource_ref \<Rightarrow> capability \<Rightarrow> capability_trace" where
  "eval_cap a label r want =
     (let es = map (eval_clearance a label r want) (held_clearances a);
          dominated = list_ex qualifies es;
          (ok, blocked) =
            (if \<not> dominated then (False, False)
             else if cap_contains want WRITE \<and> confined (acc_clearances a) then
               (let at_level = list_ex (\<lambda>e. qualifies e \<and> \<not> ev_strictly_dominates e) es in
                if \<not> at_level then (False, True) else (True, False))
             else (True, False))
      in \<lparr>allowed = ok, confined_write_down_block = blocked,
          evals = (if ok then flag_decisive es else es)\<rparr>)"

definition explain :: "accessor \<Rightarrow> label \<Rightarrow> resource_ref \<Rightarrow> capability_trace \<times> capability_trace" where
  "explain a label r = (eval_cap a label r READ, eval_cap a label r WRITE)"

section \<open>What is granted\<close>

lemma can_read_iff:
  "can_read a l r \<longleftrightarrow> lat.held (acc_lattice a)
     (ceiling ` {c \<in> set (held_clearances a). cap_contains (cap c) READ \<and> scope_applies (scope c) r}) l"
  by (auto simp: can_read_def list_ex_iff lat.held_def)

lemma can_write_unconfined:
  "\<not> confined (acc_clearances a) \<Longrightarrow> can_write a l r \<longleftrightarrow> lat.held (acc_lattice a)
     (ceiling ` {c \<in> set (held_clearances a). cap_contains (cap c) WRITE \<and> scope_applies (scope c) r}) l"
  by (auto simp: can_write_def list_ex_iff lat.held_def)

lemma can_write_confined:
  "confined (acc_clearances a) \<Longrightarrow> can_write a l r \<longleftrightarrow>
     (\<exists>c \<in> set (held_clearances a). cap_contains (cap c) WRITE \<and> scope_applies (scope c) r \<and> ceiling c = l)"
  by (auto simp: can_write_def list_ex_iff strictly_dominates_def intro: lat.ge_refl)

text \<open>Read access is downward closed in the label order and so is write access of an unconfined
  actor: an actor allowed a resource at a label is allowed it at every label below.\<close>

lemma access_downward_closed:
  assumes "dominates (acc_lattice a) l l'"
  shows "(can_read a l r \<longrightarrow> can_read a l' r) \<and>
    (\<not> confined (acc_clearances a) \<longrightarrow> can_write a l r \<longrightarrow> can_write a l' r)"
  using lat.held_up [OF _ assms] by (auto simp: can_read_iff can_write_unconfined)

text \<open>A confined actor writes only at its own level: its write to a label is allowed exactly when
  some write clearance in scope has that very label as its ceiling, so no clearance above the label,
  in scope or not, ever authorises a write down, and every other clearance is irrelevant.\<close>

lemma confined_no_write_down:
  assumes "confined (acc_clearances a)"
  shows "can_write a l r \<longleftrightarrow>
    (\<exists>c \<in> set (held_clearances a). cap_contains (cap c) WRITE \<and> scope_applies (scope c) r \<and> ceiling c = l)"
  using assms by (rule can_write_confined)

definition confined_agent :: accessor where
  "confined_agent = from_parts two_point []
     \<lparr>clearances = [\<lparr>ceiling = label_protected, cap = WRITE, scope = None\<rparr>,
        \<lparr>ceiling = label_public, cap = WRITE, scope = Some (ScopePath ''docs/**'')\<rparr>], confined = True\<rparr>"

section \<open>Traces report the enforced verdict\<close>

lemma list_ex_map: "list_ex P (map f xs) = list_ex (\<lambda>x. P (f x)) xs"
  by (simp add: list_ex_iff)

lemma cap_contains_table: "cap_contains WRITE WRITE" "\<not> cap_contains READ WRITE" "cap_contains READ READ"
  by (simp_all add: cap_contains_def READ_def WRITE_def)

lemma eval_clearance_qualifies:
  "qualifies (eval_clearance a l r want c) \<longleftrightarrow>
     cap_contains (cap c) want \<and> scope_applies (scope c) r \<and> dominates (acc_lattice a) (ceiling c) l"
  by (simp add: eval_clearance_def)

lemma eval_cap_allowed:
  "allowed (eval_cap a l r READ) = can_read a l r" "allowed (eval_cap a l r WRITE) = can_write a l r"
  by (simp_all add: eval_cap_def can_read_def can_write_def Let_def list_ex_map eval_clearance_def
      cap_contains_table)

lemma flag_decisive_count:
  assumes "\<forall>e \<in> set es. \<not> ev_decisive e"
  shows "length (filter ev_decisive (flag_decisive es)) = (if list_ex qualifies es then 1 else 0)"
  using assms by (induction es) (auto simp: filter_empty_conv)

lemma eval_cap_blocked:
  "confined_write_down_block (eval_cap a l r want) \<longleftrightarrow>
     cap_contains want WRITE \<and> confined (acc_clearances a) \<and> \<not> allowed (eval_cap a l r want) \<and>
     (\<exists>c \<in> set (held_clearances a). cap_contains (cap c) want \<and> scope_applies (scope c) r \<and>
       dominates (acc_lattice a) (ceiling c) l)"
  by (auto simp: eval_cap_def Let_def list_ex_map list_ex_iff eval_clearance_def)

lemma eval_cap_decisive:
  "length (filter ev_decisive (evals (eval_cap a l r want))) = (if allowed (eval_cap a l r want) then 1 else 0)"
proof -
  let ?es = "map (eval_clearance a l r want) (held_clearances a)"
  have "\<forall>e \<in> set ?es. \<not> ev_decisive e" by (auto simp: eval_clearance_def)
  moreover from this have "filter ev_decisive ?es = []" by (auto simp: filter_empty_conv)
  ultimately show ?thesis
    using flag_decisive_count [of ?es] by (auto simp: eval_cap_def Let_def)
qed

text \<open>The decision traces are the enforced decisions: the read and write verdicts of \<^verbatim>\<open>explain\<close> are
  those of \<^verbatim>\<open>can_read\<close> and \<^verbatim>\<open>can_write\<close>, exactly one clearance is marked decisive in a granted trace and
  none in a refused one, and the write-down flag is set just when a dominating write clearance in
  scope existed and confinement alone refused the write.\<close>

lemma explain_agrees:
  "(case explain a l r of (rd, wr) \<Rightarrow>
     allowed rd = can_read a l r \<and> allowed wr = can_write a l r \<and>
     length (filter ev_decisive (evals rd)) = (if can_read a l r then 1 else 0) \<and>
     length (filter ev_decisive (evals wr)) = (if can_write a l r then 1 else 0) \<and>
     \<not> confined_write_down_block rd \<and>
     (confined_write_down_block wr \<longleftrightarrow> confined (acc_clearances a) \<and> \<not> can_write a l r \<and>
        can_write (a\<lparr>acc_clearances := (acc_clearances a)\<lparr>confined := False\<rparr>\<rparr>) l r))"
  unfolding explain_def prod.case eval_cap_allowed eval_cap_decisive eval_cap_blocked
  by (auto simp: cap_contains_table can_write_def list_ex_iff)

text \<open>
  The clearance marked decisive for a confined write need not be the one that allowed it: the first
  clearance that dominates is marked, also when it lies strictly above the label and the write was
  allowed by another at the label.
\<close>

lemma decisive_above_level:
  "let a = from_parts two_point [] \<lparr>clearances = [\<lparr>ceiling = label_protected, cap = WRITE, scope = None\<rparr>,
         \<lparr>ceiling = label_public, cap = WRITE, scope = None\<rparr>], confined = True\<rparr> in
   map (\<lambda>e. (label_str (ev_ceiling e), ev_decisive e)) (evals (eval_cap a label_public (ResPath ''x'') WRITE)) =
     [(PROTECTED, True), (PUBLIC, False)] \<and>
   \<not> can_write (a\<lparr>acc_clearances := (acc_clearances a)\<lparr>clearances := take 1 (held_clearances a)\<rparr>\<rparr>) label_public (ResPath ''x'')"
  by code_simp

section \<open>Effective labels are joins\<close>

definition path_labels :: "label_rule_set \<Rightarrow> string \<Rightarrow> label list" where
  "path_labels rules p = concat (map (\<lambda>r. case r of
     RulePath g l \<Rightarrow> if glob_matches g p then [l] else [] | _ \<Rightarrow> []) rules)"

definition timeline_labels :: "label_rule_set \<Rightarrow> string \<Rightarrow> label list" where
  "timeline_labels rules n = concat (map (\<lambda>r. case r of
     RuleTimeline g l \<Rightarrow> if glob_matches g n then [l] else [] | _ \<Rightarrow> []) rules)"

definition secret_labels :: "label_rule_set \<Rightarrow> string \<Rightarrow> label list" where
  "secret_labels rules n = concat (map (\<lambda>r. case r of
     RuleSecret g l \<Rightarrow> if glob_matches g n then [l] else [] | _ \<Rightarrow> []) rules)"

lemma foldl_concat_map: "foldl f acc (concat (map g xs)) = foldl (\<lambda>acc x. foldl f acc (g x)) acc xs"
  by (induction xs arbitrary: acc) auto

lemma label_for_fold:
  "label_for_path rules L p = foldl (lat_join L) (lat_bottom L) (path_labels rules p)"
  "label_for_timeline rules L p = foldl (lat_join L) (lat_bottom L) (timeline_labels rules p)"
  "label_for_secret rules L p = foldl (lat_join L) (lat_bottom L) (secret_labels rules p)"
  unfolding label_for_path_def label_for_timeline_def label_for_secret_def
    path_labels_def timeline_labels_def secret_labels_def foldl_concat_map
  by (intro foldl_cong refl; simp split: label_rule.split)+

text \<open>\<open>j\<close> is the least label of the lattice above every label of \<open>ls\<close>.\<close>

definition is_join_of :: "lattice \<Rightarrow> label set \<Rightarrow> label \<Rightarrow> bool" where
  "is_join_of L ls j \<longleftrightarrow> j \<in> set (labels L) \<and> (\<forall>l \<in> ls. dominates L j l) \<and>
     (\<forall>u \<in> set (labels L). (\<forall>l \<in> ls. dominates L u l) \<longrightarrow> dominates L u j)"

lemma foldl_join_least:
  assumes lat: "bounded_lattice (set (labels L)) (dominates L)"
    and "is_join_of L B acc" and "set ls \<subseteq> set (labels L)"
  shows "is_join_of L (B \<union> set ls) (foldl (lat_join L) acc ls)"
  using assms(2,3)
proof (induction ls arbitrary: B acc)
  case (Cons l ls)
  have mem: "acc \<in> set (labels L)" "l \<in> set (labels L)"
    using Cons.prems by (auto simp: is_join_of_def)
  note j = lat_join_lub [OF lat mem]
  have "is_join_of L (insert l B) (lat_join L acc l)"
    using j Cons.prems(1) unfolding is_join_of_def is_lub_def
    by (auto intro: lat.ge_trans)
  from Cons.IH [OF this] Cons.prems(2) show ?case by simp
qed simp

lemma is_join_of_bottom:
  "bounded_lattice (set (labels L)) (dominates L) \<Longrightarrow> is_join_of L {} (lat_bottom L)"
  using lat_bottom_least [of L] by (auto simp: is_join_of_def)

lemma label_for_joins:
  assumes "bounded_lattice (set (labels L)) (dominates L)"
  shows "set (path_labels rules p) \<subseteq> set (labels L) \<Longrightarrow>
      is_join_of L (set (path_labels rules p)) (label_for_path rules L p)"
    and "set (timeline_labels rules p) \<subseteq> set (labels L) \<Longrightarrow>
      is_join_of L (set (timeline_labels rules p)) (label_for_timeline rules L p)"
    and "set (secret_labels rules p) \<subseteq> set (labels L) \<Longrightarrow>
      is_join_of L (set (secret_labels rules p)) (label_for_secret rules L p)"
  unfolding label_for_fold
  using foldl_join_least [OF assms is_join_of_bottom [OF assms]] by auto

fun rule_label :: "label_rule \<Rightarrow> label" where
  "rule_label (RulePath g l) = l"
| "rule_label (RuleTimeline g l) = l"
| "rule_label (RuleSecret g l) = l"

lemma rule_labels_sub:
  assumes "rule_label ` set rules \<subseteq> S"
  shows "set (path_labels rules n) \<subseteq> S" "set (timeline_labels rules n) \<subseteq> S" "set (secret_labels rules n) \<subseteq> S"
  using assms unfolding path_labels_def timeline_labels_def secret_labels_def
  by (force split: label_rule.splits if_splits)+

text \<open>Over a validated lattice the effective label of a path, timeline or secret is the least label
  that dominates the label of every rule of its kind whose pattern matches: no matching rule is ever
  lost, whatever the order of the rules, and nothing else raises the label.\<close>

lemma effective_label_is_join:
  assumes "lattice_wf L" and "validate L = Inr ()" and "rule_label ` set rules \<subseteq> set (labels L)"
  shows "is_join_of L {l. \<exists>g. RulePath g l \<in> set rules \<and> glob_matches g n} (label_for_path rules L n) \<and>
    is_join_of L {l. \<exists>g. RuleTimeline g l \<in> set rules \<and> glob_matches g n} (label_for_timeline rules L n) \<and>
    is_join_of L {l. \<exists>g. RuleSecret g l \<in> set rules \<and> glob_matches g n} (label_for_secret rules L n)"
proof -
  have lat: "bounded_lattice (set (labels L)) (dominates L)"
    using assms(1,2) by (simp add: validate_iff)
  have "set (path_labels rules n) = {l. \<exists>g. RulePath g l \<in> set rules \<and> glob_matches g n}"
    "set (timeline_labels rules n) = {l. \<exists>g. RuleTimeline g l \<in> set rules \<and> glob_matches g n}"
    "set (secret_labels rules n) = {l. \<exists>g. RuleSecret g l \<in> set rules \<and> glob_matches g n}"
    unfolding path_labels_def timeline_labels_def secret_labels_def
    by (force split: label_rule.splits if_splits)+
  then show ?thesis
    using label_for_joins [OF lat] rule_labels_sub [OF assms(3)] by metis
qed

section \<open>Roles over the two-point lattice\<close>

lemma two_point_lattice: "bounded_lattice (set (labels two_point)) (dominates two_point)"
proof -
  have "validate two_point = Inr ()" by code_simp
  moreover have "lattice_wf two_point" by (simp add: two_point_def)
  ultimately show ?thesis by (simp add: validate_iff)
qed

lemma two_point_labels [simp]: "set (labels two_point) = {label_public, label_protected}"
  by (simp add: two_point_def lattice_new_def)

lemma protected_top: "l \<in> set (labels two_point) \<Longrightarrow> dominates two_point label_protected l"
proof -
  assume "l \<in> set (labels two_point)"
  moreover have "dominates two_point label_protected label_public" by code_simp
  ultimately show ?thesis by (auto simp: lat.ge_refl)
qed

definition with_role :: "accessor \<Rightarrow> path_role + timeline_role \<Rightarrow> accessor" where
  "with_role a role = (case role of Inl p \<Rightarrow> with_path_role a p | Inr t \<Rightarrow> with_timeline_role a t)"

definition with_roles :: "(path_role + timeline_role) list \<Rightarrow> accessor" where
  "with_roles roles = foldl with_role accessor_new roles"

fun role_clearance :: "path_role + timeline_role \<Rightarrow> clearance" where
  "role_clearance (Inl p) = \<lparr>ceiling = label_protected, cap = capability_from (pr_permission p),
     scope = Some (ScopePath (pr_glob p))\<rparr>"
| "role_clearance (Inr t) = \<lparr>ceiling = label_protected, cap = capability_from (tr_permission t),
     scope = Some (ScopeTimeline (tr_pattern t))\<rparr>"

lemma with_roles_parts:
  "acc_lattice (with_roles roles) = two_point \<and> confined (acc_clearances (with_roles roles)) = False \<and>
   held_clearances (with_roles roles) = map role_clearance roles \<and>
   rule_label ` set (acc_rules (with_roles roles)) \<subseteq> {label_protected}"
  by (induction roles rule: rev_induct)
    (auto simp: with_roles_def with_role_def accessor_new_def with_path_role_def with_timeline_role_def
      split: sum.splits)

lemma with_roles_dominated:
  "dominates two_point label_protected (label_for_path (acc_rules (with_roles roles)) two_point n)"
  "dominates two_point label_protected (label_for_timeline (acc_rules (with_roles roles)) two_point n)"
proof -
  have "rule_label ` set (acc_rules (with_roles roles)) \<subseteq> set (labels two_point)"
    using with_roles_parts [of roles] by auto
  note sub = rule_labels_sub [OF this]
  show "dominates two_point label_protected (label_for_path (acc_rules (with_roles roles)) two_point n)"
    using label_for_joins(1) [OF two_point_lattice sub(1)] by (intro protected_top) (simp add: is_join_of_def)
  show "dominates two_point label_protected (label_for_timeline (acc_rules (with_roles roles)) two_point n)"
    using label_for_joins(2) [OF two_point_lattice sub(2)] by (intro protected_top) (simp add: is_join_of_def)
qed

lemma capability_from_contains:
  "cap_contains (capability_from p) READ \<longleftrightarrow> p = PermRead"
  "cap_contains (capability_from p) WRITE \<longleftrightarrow> p = PermWrite"
  by (cases p; simp add: cap_contains_def READ_def WRITE_def)+

text \<open>The role constructors keep the meaning of the glob roles they replace: an accessor built from
  any sequence of path and timeline roles may read (write) a path or timeline exactly when one of
  those roles is of that kind, grants that permission and its pattern matches the name.\<close>

lemma roles_mean_globs:
  "(can_read_path (with_roles roles) n \<longleftrightarrow>
     (\<exists>p. Inl p \<in> set roles \<and> pr_permission p = PermRead \<and> glob_matches (pr_glob p) n)) \<and>
   (can_write_path (with_roles roles) n \<longleftrightarrow>
     (\<exists>p. Inl p \<in> set roles \<and> pr_permission p = PermWrite \<and> glob_matches (pr_glob p) n)) \<and>
   (can_read_timeline (with_roles roles) n \<longleftrightarrow>
     (\<exists>t. Inr t \<in> set roles \<and> tr_permission t = PermRead \<and> glob_matches (tr_pattern t) n)) \<and>
   (can_write_timeline (with_roles roles) n \<longleftrightarrow>
     (\<exists>t. Inr t \<in> set roles \<and> tr_permission t = PermWrite \<and> glob_matches (tr_pattern t) n))"
proof -
  have ex: "(\<exists>x \<in> set roles. P x) \<longleftrightarrow> (\<exists>p. Inl p \<in> set roles \<and> P (Inl p)) \<or> (\<exists>t. Inr t \<in> set roles \<and> P (Inr t))"
    for P by (metis sum.exhaust)
  have ceil: "ceiling (role_clearance x) = label_protected" for x by (cases x) auto
  show ?thesis
    using with_roles_parts [of roles] with_roles_dominated [of roles n]
    unfolding can_read_path_def can_write_path_def can_read_timeline_def can_write_timeline_def
    by (auto simp: can_read_def can_write_def list_ex_iff ceil ex capability_from_contains)
qed

end
