(* ===== verification/Acl_Store.thy ===== *)
theory Acl_Store
  imports Access
begin

text \<open>
  Persistent protection rules: the trait \<^verbatim>\<open>AclBackend\<close> (\<^verbatim>\<open>src/acl/backend.rs\<close>), its in-memory and
  on-disk implementations (\<^verbatim>\<open>src/acl/memory.rs\<close>, \<^verbatim>\<open>src/acl/disk.rs\<close>) and \<^verbatim>\<open>AclStore\<close>
  (\<^verbatim>\<open>src/acl/mod.rs\<close>). A backend is a record of operations on its state. One rule table of a backend
  has the contract of the locale \<open>acl_table\<close>; both implementations satisfy it, the disk one for
  the names its directory listing shows. Locks and the failures of the operating system are not
  modelled; the \<^verbatim>\<open>postcard\<close> codec is a parameter.
\<close>

section \<open>Rules and grants\<close>

record path_acl = pa_glob :: string
record timeline_acl = ta_pattern :: string
record secret_acl = sa_name :: string

record clearance_grant =
  gr_actor :: string
  gr_clearances :: clearance_set
  gr_signature :: "bytes option"

section \<open>The backend trait\<close>

record 's acl_backend =
  be_get_path_acl :: "'s \<Rightarrow> string \<Rightarrow> path_acl option result"
  be_set_path_acl :: "'s \<Rightarrow> path_acl \<Rightarrow> 's result"
  be_delete_path_acl :: "'s \<Rightarrow> string \<Rightarrow> 's result"
  be_list_path_acls :: "'s \<Rightarrow> path_acl list result"
  be_get_timeline_acl :: "'s \<Rightarrow> string \<Rightarrow> timeline_acl option result"
  be_set_timeline_acl :: "'s \<Rightarrow> timeline_acl \<Rightarrow> 's result"
  be_delete_timeline_acl :: "'s \<Rightarrow> string \<Rightarrow> 's result"
  be_list_timeline_acls :: "'s \<Rightarrow> timeline_acl list result"
  be_list_secret_acls :: "'s \<Rightarrow> secret_acl list result"
  be_set_secret_acl :: "'s \<Rightarrow> secret_acl \<Rightarrow> 's result"
  be_delete_secret_acl :: "'s \<Rightarrow> string \<Rightarrow> 's result"
  be_get_grant :: "'s \<Rightarrow> string \<Rightarrow> clearance_grant option result"
  be_set_grant :: "'s \<Rightarrow> clearance_grant \<Rightarrow> 's result"

text \<open>The provided methods that no implementation overrides.\<close>

definition get_lattice :: "'s acl_backend \<Rightarrow> 's \<Rightarrow> lattice result" where
  "get_lattice B s = Inr two_point"

definition get_label_ruleset :: "'s acl_backend \<Rightarrow> 's \<Rightarrow> label_rule_set result" where
  "get_label_ruleset B s =
     bind_res (be_list_path_acls B s) (\<lambda>ps.
     bind_res (be_list_timeline_acls B s) (\<lambda>ts.
     bind_res (be_list_secret_acls B s) (\<lambda>ss.
       Inr (map (\<lambda>a. RulePath (pa_glob a) label_protected) ps
          @ map (\<lambda>a. RuleTimeline (ta_pattern a) label_protected) ts
          @ map (\<lambda>a. RuleSecret (sa_name a) label_protected) ss))))"

text \<open>Default bodies of the grant methods.\<close>

definition default_get_grant :: "'s \<Rightarrow> string \<Rightarrow> clearance_grant option result" where
  "default_get_grant s actor = Inr None"

definition default_set_grant :: "'s \<Rightarrow> clearance_grant \<Rightarrow> 's result" where
  "default_set_grant s g = Inr s"

section \<open>\<open>AclStore\<close>\<close>

definition path_is_protected :: "'s acl_backend \<Rightarrow> 's \<Rightarrow> string \<Rightarrow> bool result" where
  "path_is_protected B s path =
     bind_res (be_list_path_acls B s) (\<lambda>acls. Inr (list_ex (\<lambda>a. glob_matches (pa_glob a) path) acls))"

definition timeline_is_protected :: "'s acl_backend \<Rightarrow> 's \<Rightarrow> string \<Rightarrow> bool result" where
  "timeline_is_protected B s name =
     bind_res (be_list_timeline_acls B s) (\<lambda>acls. Inr (list_ex (\<lambda>a. glob_matches (ta_pattern a) name) acls))"

section \<open>The memory backend\<close>

text \<open>A \<^verbatim>\<open>HashMap\<close> keyed by the name of each rule.\<close>

type_synonym 'a table = "(string \<times> 'a) list"

record mem_acl =
  path_acls :: "path_acl table"
  timeline_acls :: "timeline_acl table"
  secret_acls :: "secret_acl table"
  grants :: "clearance_grant table"

definition hm_get :: "'a table \<Rightarrow> string \<Rightarrow> 'a option result" where
  "hm_get m k = Inr (map_of m k)"

definition hm_insert :: "('a \<Rightarrow> string) \<Rightarrow> 'a table \<Rightarrow> 'a \<Rightarrow> 'a table result" where
  "hm_insert key m a = Inr (AList.update (key a) a m)"

definition hm_remove :: "'a table \<Rightarrow> string \<Rightarrow> 'a table result" where
  "hm_remove m k = Inr (AList.delete k m)"

definition hm_values :: "'a table \<Rightarrow> 'a list result" where
  "hm_values m = Inr (map snd m)"

definition mem_acl_new :: mem_acl where
  "mem_acl_new = \<lparr>path_acls = [], timeline_acls = [], secret_acls = [], grants = []\<rparr>"

definition mem_acl_backend :: "mem_acl acl_backend" where
  "mem_acl_backend = \<lparr>
     be_get_path_acl = (\<lambda>s. hm_get (path_acls s)),
     be_set_path_acl = (\<lambda>s a. bind_res (hm_insert pa_glob (path_acls s) a) (\<lambda>m. Inr (s\<lparr>path_acls := m\<rparr>))),
     be_delete_path_acl = (\<lambda>s k. bind_res (hm_remove (path_acls s) k) (\<lambda>m. Inr (s\<lparr>path_acls := m\<rparr>))),
     be_list_path_acls = (\<lambda>s. hm_values (path_acls s)),
     be_get_timeline_acl = (\<lambda>s. hm_get (timeline_acls s)),
     be_set_timeline_acl = (\<lambda>s a. bind_res (hm_insert ta_pattern (timeline_acls s) a) (\<lambda>m. Inr (s\<lparr>timeline_acls := m\<rparr>))),
     be_delete_timeline_acl = (\<lambda>s k. bind_res (hm_remove (timeline_acls s) k) (\<lambda>m. Inr (s\<lparr>timeline_acls := m\<rparr>))),
     be_list_timeline_acls = (\<lambda>s. hm_values (timeline_acls s)),
     be_list_secret_acls = (\<lambda>s. hm_values (secret_acls s)),
     be_set_secret_acl = (\<lambda>s a. bind_res (hm_insert sa_name (secret_acls s) a) (\<lambda>m. Inr (s\<lparr>secret_acls := m\<rparr>))),
     be_delete_secret_acl = (\<lambda>s k. bind_res (hm_remove (secret_acls s) k) (\<lambda>m. Inr (s\<lparr>secret_acls := m\<rparr>))),
     be_get_grant = (\<lambda>s. hm_get (grants s)),
     be_set_grant = (\<lambda>s g. bind_res (hm_insert gr_actor (grants s) g) (\<lambda>m. Inr (s\<lparr>grants := m\<rparr>)))\<rparr>"

section \<open>The disk backend\<close>

text \<open>
  Encoding and decoding of one kind of rule. The codec is code outside the repository.
\<close>

record 'a pcodec =
  pc_enc :: "'a \<Rightarrow> string + bytes"
  pc_dec :: "bytes \<Rightarrow> string + 'a"

definition codec_ok :: "'a pcodec \<Rightarrow> bool" where
  "codec_ok C \<longleftrightarrow> (\<forall>a. \<exists>bs. pc_enc C a = Inr bs \<and> pc_dec C bs = Inr a)"

text \<open>\<^verbatim>\<open>str::replace\<close> of one character.\<close>

definition replace_char :: "char \<Rightarrow> string \<Rightarrow> string \<Rightarrow> string" where
  "replace_char c r s = concat (map (\<lambda>d. if d = c then r else [d]) s)"

definition sanitize :: "string \<Rightarrow> string" where
  "sanitize s = replace_char CHR ''*'' ''%2A'' (replace_char CHR ''/'' ''%2F'' (replace_char CHR ''%'' ''%25'' s))"

type_synonym dir = "(string \<times> bytes) list"

definition map_codec :: "string + 'a \<Rightarrow> 'a result" where
  "map_codec r = (case r of Inl e \<Rightarrow> Inl (Codec e) | Inr x \<Rightarrow> Inr x)"

text \<open>
  Names that are no file of the directory itself. Writing to them fails: the rename onto a directory
  is refused, and \<^verbatim>\<open>file_name().unwrap()\<close> panics on \<^verbatim>\<open>..\<close>.
\<close>

definition no_file :: "string \<Rightarrow> bool" where
  "no_file n \<longleftrightarrow> n \<in> {[], ''.'', ''..''}"

definition acl_atomic_write :: "dir \<Rightarrow> string \<Rightarrow> bytes \<Rightarrow> dir result" where
  "acl_atomic_write d fname data =
     (if no_file fname then Inl (Io ''not a file'')
      else let tmp = ''.'' @ fname @ ''.tmp'' in
        Inr (AList.delete tmp (AList.update fname data (AList.update tmp data d))))"

definition list_dir :: "(bytes \<Rightarrow> 'a result) \<Rightarrow> dir \<Rightarrow> 'a list result" where
  "list_dir decode d = map_res (\<lambda>(name, data). decode data) (filter (\<lambda>(name, data). take 1 name \<noteq> ''.'') d)"

definition disk_get :: "'a pcodec \<Rightarrow> dir \<Rightarrow> string \<Rightarrow> 'a option result" where
  "disk_get C d k =
     (if no_file (sanitize k) then Inl (Io ''is a directory'')
      else case map_of d (sanitize k) of
        Some data \<Rightarrow> bind_res (map_codec (pc_dec C data)) (\<lambda>a. Inr (Some a))
      | None \<Rightarrow> Inr None)"

definition disk_set :: "('a \<Rightarrow> string) \<Rightarrow> 'a pcodec \<Rightarrow> dir \<Rightarrow> 'a \<Rightarrow> dir result" where
  "disk_set key C d a =
     bind_res (map_codec (pc_enc C a)) (\<lambda>data. acl_atomic_write d (sanitize (key a)) data)"

definition disk_delete :: "dir \<Rightarrow> string \<Rightarrow> dir result" where
  "disk_delete d k =
     (if no_file (sanitize k) then Inl (Io ''is a directory'') else Inr (AList.delete (sanitize k) d))"

definition disk_list :: "'a pcodec \<Rightarrow> dir \<Rightarrow> 'a list result" where
  "disk_list C d = list_dir (\<lambda>data. map_codec (pc_dec C data)) d"

record disk_acl =
  dir_paths :: dir
  dir_timelines :: dir
  dir_secrets :: dir

definition disk_acl_backend ::
  "path_acl pcodec \<Rightarrow> timeline_acl pcodec \<Rightarrow> secret_acl pcodec \<Rightarrow> disk_acl acl_backend" where
  "disk_acl_backend CP CT CS = \<lparr>
     be_get_path_acl = (\<lambda>s. disk_get CP (dir_paths s)),
     be_set_path_acl = (\<lambda>s a. bind_res (disk_set pa_glob CP (dir_paths s) a) (\<lambda>d. Inr (s\<lparr>dir_paths := d\<rparr>))),
     be_delete_path_acl = (\<lambda>s k. bind_res (disk_delete (dir_paths s) k) (\<lambda>d. Inr (s\<lparr>dir_paths := d\<rparr>))),
     be_list_path_acls = (\<lambda>s. disk_list CP (dir_paths s)),
     be_get_timeline_acl = (\<lambda>s. disk_get CT (dir_timelines s)),
     be_set_timeline_acl = (\<lambda>s a. bind_res (disk_set ta_pattern CT (dir_timelines s) a) (\<lambda>d. Inr (s\<lparr>dir_timelines := d\<rparr>))),
     be_delete_timeline_acl = (\<lambda>s k. bind_res (disk_delete (dir_timelines s) k) (\<lambda>d. Inr (s\<lparr>dir_timelines := d\<rparr>))),
     be_list_timeline_acls = (\<lambda>s. disk_list CT (dir_timelines s)),
     be_list_secret_acls = (\<lambda>s. disk_list CS (dir_secrets s)),
     be_set_secret_acl = (\<lambda>s a. bind_res (disk_set sa_name CS (dir_secrets s) a) (\<lambda>d. Inr (s\<lparr>dir_secrets := d\<rparr>))),
     be_delete_secret_acl = (\<lambda>s k. bind_res (disk_delete (dir_secrets s) k) (\<lambda>d. Inr (s\<lparr>dir_secrets := d\<rparr>))),
     be_get_grant = default_get_grant,
     be_set_grant = default_set_grant\<rparr>"

section \<open>The contract of a rule table\<close>

locale acl_table =
  fixes inv :: "'s \<Rightarrow> bool"
    and abst :: "'s \<Rightarrow> string \<Rightarrow> 'a option"
    and key :: "'a \<Rightarrow> string"
    and ok :: "string \<Rightarrow> bool"
    and getf :: "'s \<Rightarrow> string \<Rightarrow> 'a option result"
    and setf :: "'s \<Rightarrow> 'a \<Rightarrow> 's result"
    and delf :: "'s \<Rightarrow> string \<Rightarrow> 's result"
    and listf :: "'s \<Rightarrow> 'a list result"
  assumes get_law: "inv s \<Longrightarrow> ok k \<Longrightarrow> getf s k = Inr (abst s k)"
    and set_law: "inv s \<Longrightarrow> ok (key a) \<Longrightarrow> \<exists>s'. setf s a = Inr s' \<and> inv s' \<and> abst s' = (abst s)(key a \<mapsto> a)"
    and del_law: "inv s \<Longrightarrow> ok k \<Longrightarrow> \<exists>s'. delf s k = Inr s' \<and> inv s' \<and> abst s' = (abst s)(k := None)"
    and list_law: "inv s \<Longrightarrow> \<exists>xs. listf s = Inr xs \<and> set xs = ran (abst s)"
    and keyed: "inv s \<Longrightarrow> abst s k = Some a \<Longrightarrow> key a = k"
begin

text \<open>A name is protected when some listed rule matches it.\<close>

definition protected :: "'s \<Rightarrow> string \<Rightarrow> bool result" where
  "protected s n = bind_res (listf s) (\<lambda>xs. Inr (list_ex (\<lambda>a. glob_matches (key a) n) xs))"

lemma protected_iff:
  assumes "inv s"
  shows "protected s n = Inr (\<exists>k \<in> dom (abst s). glob_matches k n)"
proof -
  obtain xs where "listf s = Inr xs" "set xs = ran (abst s)"
    using list_law [OF assms] by blast
  then show ?thesis
    using keyed [OF assms] by (force simp: protected_def list_ex_iff ran_def dom_def)
qed

lemma protected_set:
  assumes "inv s" and "ok (key a)" and "setf s a = Inr s'"
  shows "inv s' \<and> getf s' (key a) = Inr (Some a) \<and>
    (protected s' n = Inr True \<longleftrightarrow> glob_matches (key a) n \<or> protected s n = Inr True)"
  using set_law [OF assms(1,2)] assms get_law protected_iff by auto

lemma protected_del:
  assumes "inv s" and "ok k" and "delf s k = Inr s'"
  shows "inv s' \<and> getf s' k = Inr None \<and>
    (protected s' n = Inr True \<longleftrightarrow> (\<exists>k' \<in> dom (abst s). k' \<noteq> k \<and> glob_matches k' n))"
  using del_law [OF assms(1,2)] assms get_law protected_iff by auto

end

section \<open>The memory tables meet the contract\<close>

definition hm_ok :: "('a \<Rightarrow> string) \<Rightarrow> 'a table \<Rightarrow> bool" where
  "hm_ok key m \<longleftrightarrow> distinct (map fst m) \<and> (\<forall>k a. map_of m k = Some a \<longrightarrow> key a = k)"

interpretation mem: acl_table "hm_ok key" map_of key "\<lambda>_. True" hm_get "hm_insert key" hm_remove hm_values
  for key
proof
  show "\<exists>s'. hm_insert key s a = Inr s' \<and> hm_ok key s' \<and> map_of s' = (map_of s)(key a \<mapsto> a)"
    if "hm_ok key s" for s a
    using that by (auto simp: hm_ok_def hm_insert_def update_conv' distinct_update)
  show "\<exists>s'. hm_remove s k = Inr s' \<and> hm_ok key s' \<and> map_of s' = (map_of s)(k := None)"
    if "hm_ok key s" for s k
    using that by (auto simp: hm_ok_def hm_remove_def delete_conv' distinct_delete split: if_splits)
  show "\<exists>xs. hm_values s = Inr xs \<and> set xs = ran (map_of s)" if "hm_ok key s" for s
    using that by (auto simp: hm_ok_def hm_values_def ran_distinct)
qed (auto simp: hm_get_def hm_ok_def)

section \<open>The disk tables meet it for visible names\<close>

definition san_char :: "char \<Rightarrow> string" where
  "san_char c = (if c = CHR ''%'' then ''%25'' else if c = CHR ''/'' then ''%2F''
     else if c = CHR ''*'' then ''%2A'' else [c])"

lemma sanitize_chars: "sanitize s = concat (map san_char s)"
  by (induction s) (auto simp: sanitize_def replace_char_def san_char_def)

lemma sanitize_inject [simp]: "sanitize s = sanitize t \<longleftrightarrow> s = t"
proof
  show "sanitize s = sanitize t \<Longrightarrow> s = t"
    unfolding sanitize_chars
  proof (induction s arbitrary: t)
    case Nil
    then show ?case by (cases t) (auto simp: san_char_def split: if_splits)
  next
    case (Cons c s)
    then show ?case by (cases t) (auto simp: san_char_def split: if_splits)
  qed
qed simp

definition visible :: "string \<Rightarrow> bool" where
  "visible k \<longleftrightarrow> k \<noteq> [] \<and> hd k \<noteq> CHR ''.''"

lemma take1_sanitize: "take 1 (sanitize k) = ''.'' \<longleftrightarrow> k \<noteq> [] \<and> hd k = CHR ''.''"
  by (cases k) (auto simp: sanitize_chars san_char_def)

lemma no_file_sanitize: "no_file (sanitize k) \<longleftrightarrow> no_file k"
proof -
  have "no_file (sanitize k) \<longleftrightarrow> sanitize k \<in> sanitize ` {[], ''.'', ''..''}"
    by (simp add: no_file_def sanitize_chars san_char_def)
  also have "\<dots> \<longleftrightarrow> no_file k" by (simp add: no_file_def image_iff)
  finally show ?thesis .
qed

lemma visible_file: "visible k \<Longrightarrow> \<not> no_file (sanitize k)"
  unfolding no_file_sanitize by (auto simp: visible_def no_file_def)

definition disk_ok :: "('a \<Rightarrow> string) \<Rightarrow> 'a pcodec \<Rightarrow> dir \<Rightarrow> bool" where
  "disk_ok key C d \<longleftrightarrow> distinct (map fst d) \<and>
     (\<forall>name data. map_of d name = Some data \<longrightarrow> take 1 name \<noteq> ''.'' \<longrightarrow>
        (\<exists>a. pc_dec C data = Inr a \<and> name = sanitize (key a) \<and> visible (key a)))"

definition disk_abst :: "'a pcodec \<Rightarrow> dir \<Rightarrow> string \<Rightarrow> 'a option" where
  "disk_abst C d k =
     (if visible k then
        case map_of d (sanitize k) of
          None \<Rightarrow> None
        | Some data \<Rightarrow> (case pc_dec C data of Inl e \<Rightarrow> None | Inr a \<Rightarrow> Some a)
      else None)"

lemma disk_ok_file:
  assumes "disk_ok key C d" and "visible k" and "map_of d (sanitize k) = Some data"
  shows "\<exists>a. pc_dec C data = Inr a \<and> key a = k"
proof -
  have "take 1 (sanitize k) \<noteq> ''.''" using assms(2) by (simp only: take1_sanitize visible_def) simp
  with assms(1,3) show ?thesis unfolding disk_ok_def by (metis sanitize_inject)
qed

lemma map_of_atomic_write:
  assumes "acl_atomic_write d (sanitize k) data = Inr d'" and "visible k'"
  shows "map_of d' (sanitize k') = (if k' = k then Some data else map_of d (sanitize k'))"
proof -
  have "sanitize k' \<noteq> ''.'' @ sanitize k @ ''.tmp''"
    using take1_sanitize [of k'] assms(2) by (auto simp: visible_def)
  then show ?thesis
    using assms(1) by (auto simp: acl_atomic_write_def Let_def delete_conv' update_conv' split: if_splits)
qed

lemma acl_atomic_write_visible:
  assumes "acl_atomic_write d fname data = Inr d'" and "map_of d' name = Some x" and "take 1 name \<noteq> ''.''"
  shows "name = fname \<and> x = data \<or> name \<noteq> fname \<and> map_of d name = Some x"
  using assms by (auto simp: acl_atomic_write_def Let_def delete_conv' update_conv' split: if_splits)

lemma disk_list_ok:
  assumes "disk_ok key C d"
  shows "\<exists>xs. disk_list C d = Inr xs \<and> set xs = ran (disk_abst C d)"
proof -
  let ?vis = "filter (\<lambda>(name, data). take 1 name \<noteq> ''.'') d"
  define dec where "dec data = (case pc_dec C data of Inr a \<Rightarrow> a)" for data
  have entry: "\<exists>a. pc_dec C data = Inr a \<and> name = sanitize (key a) \<and> visible (key a)"
    if "(name, data) \<in> set ?vis" for name data
    using that assms by (auto simp: disk_ok_def)
  then have "map_res (\<lambda>(name, data). map_codec (pc_dec C data)) ?vis = Inr (map (\<lambda>(name, data). dec data) ?vis)"
    by (intro map_res_Inr_map) (force simp: dec_def map_codec_def)
  moreover have "(\<lambda>(name, data). dec data) ` set ?vis = ran (disk_abst C d)" (is "?l = ?r")
  proof (intro equalityI subsetI)
    fix a assume "a \<in> ?l"
    then obtain name data where nd: "(name, data) \<in> set ?vis" "a = dec data" by auto
    with entry [OF nd(1)] have "pc_dec C data = Inr a" "name = sanitize (key a)" "visible (key a)"
      by (auto simp: dec_def)
    moreover have "map_of d name = Some data" using nd(1) assms by (auto simp: disk_ok_def)
    ultimately have "disk_abst C d (key a) = Some a" by (simp add: disk_abst_def)
    then show "a \<in> ?r" by (auto simp: ran_def)
  next
    fix a assume "a \<in> ?r"
    then obtain k data where k: "visible k" "map_of d (sanitize k) = Some data" "pc_dec C data = Inr a"
      by (auto simp: ran_def disk_abst_def split: if_splits option.splits sum.splits)
    have "take 1 (sanitize k) \<noteq> ''.''" using k(1) by (simp only: take1_sanitize visible_def) simp
    with map_of_SomeD [OF k(2)] k(3) show "a \<in> ?l"
      by (force simp: dec_def)
  qed
  ultimately show ?thesis by (simp add: disk_list_def list_dir_def)
qed

lemma disk_acl_table:
  assumes "codec_ok C"
  shows "acl_table (disk_ok key C) (disk_abst C) key visible (disk_get C) (disk_set key C) disk_delete (disk_list C)"
proof
  show "disk_get C d k = Inr (disk_abst C d k)" if "disk_ok key C d" "visible k" for d k
    using that visible_file [OF that(2)] disk_ok_file [OF that]
    by (cases "map_of d (sanitize k)") (auto simp: disk_get_def disk_abst_def map_codec_def)
  show "\<exists>d'. disk_set key C d a = Inr d' \<and> disk_ok key C d' \<and> disk_abst C d' = (disk_abst C d)(key a \<mapsto> a)"
    if inv: "disk_ok key C d" and vis: "visible (key a)" for d a
  proof -
    obtain bs where bs: "pc_enc C a = Inr bs" "pc_dec C bs = Inr a"
      using assms by (auto simp: codec_ok_def)
    obtain d' where w: "acl_atomic_write d (sanitize (key a)) bs = Inr d'"
      using visible_file [OF vis] by (simp add: acl_atomic_write_def Let_def)
    have "distinct (map fst d')"
      using w inv by (auto simp: acl_atomic_write_def Let_def disk_ok_def distinct_update distinct_delete split: if_splits)
    then have "disk_ok key C d'"
      using acl_atomic_write_visible [OF w] inv bs(2) vis unfolding disk_ok_def by blast
    moreover have "disk_abst C d' = (disk_abst C d)(key a \<mapsto> a)"
      using map_of_atomic_write [OF w] bs(2) vis by (auto simp: disk_abst_def fun_eq_iff)
    ultimately show ?thesis using w bs(1) by (simp add: disk_set_def map_codec_def)
  qed
  show "\<exists>d'. disk_delete d k = Inr d' \<and> disk_ok key C d' \<and> disk_abst C d' = (disk_abst C d)(k := None)"
    if "disk_ok key C d" "visible k" for d k
    using that visible_file [OF that(2)]
    by (auto simp: disk_delete_def disk_ok_def disk_abst_def delete_conv' distinct_delete fun_eq_iff split: if_splits)
  show "\<exists>xs. disk_list C d = Inr xs \<and> set xs = ran (disk_abst C d)" if "disk_ok key C d" for d
    using that by (rule disk_list_ok)
  show "key a = k" if "disk_ok key C d" "disk_abst C d k = Some a" for d k a
    using that disk_ok_file [OF that(1), of k]
    by (auto simp: disk_abst_def split: if_splits option.splits sum.splits)
qed

section \<open>Rules that are set are enforced\<close>

definition acl_inv :: "mem_acl \<Rightarrow> bool" where
  "acl_inv s \<longleftrightarrow> hm_ok pa_glob (path_acls s) \<and> hm_ok ta_pattern (timeline_acls s) \<and>
     hm_ok sa_name (secret_acls s) \<and> hm_ok gr_actor (grants s)"

text \<open>After a path rule is set in the memory backend exactly the paths it matches and those protected
  before are protected, the rule is read back, and the invariant of the tables is kept; after it is
  removed a path stays protected just when another rule matches it.\<close>

lemma mem_path_acl_enforced:
  assumes "acl_inv s"
  shows "(\<exists>s'. be_set_path_acl mem_acl_backend s a = Inr s' \<and> acl_inv s' \<and>
      be_get_path_acl mem_acl_backend s' (pa_glob a) = Inr (Some a) \<and>
      (\<forall>p. path_is_protected mem_acl_backend s' p = Inr True \<longleftrightarrow>
        glob_matches (pa_glob a) p \<or> path_is_protected mem_acl_backend s p = Inr True)) \<and>
    (\<exists>s'. be_delete_path_acl mem_acl_backend s k = Inr s' \<and> acl_inv s' \<and>
      be_get_path_acl mem_acl_backend s' k = Inr None \<and>
      (\<forall>p. path_is_protected mem_acl_backend s' p = Inr True \<longleftrightarrow>
        (\<exists>k' \<in> dom (map_of (path_acls s)). k' \<noteq> k \<and> glob_matches k' p)))"
proof -
  have ok: "hm_ok pa_glob (path_acls s)" using assms by (simp add: acl_inv_def)
  have prot: "path_is_protected mem_acl_backend s' p = mem.protected pa_glob (path_acls s') p" for s' p
    by (simp add: path_is_protected_def mem_acl_backend_def mem.protected_def)
  note s = mem.protected_set [OF ok TrueI, where a = a] and d = mem.protected_del [OF ok TrueI, where k = k]
  show ?thesis
    using s d assms unfolding prot
    by (auto simp: mem_acl_backend_def hm_insert_def hm_remove_def acl_inv_def)
qed

text \<open>On disk a path rule whose name does not start with a dot is enforced as in memory: setting it
  succeeds, it is read back, and exactly the paths it matches become protected in addition, for
  every codec that decodes what it encodes; distinct rule names never share a file.\<close>

lemma disk_path_acl_enforced:
  assumes "codec_ok CP" and "disk_ok pa_glob CP (dir_paths s)" and "visible (pa_glob a)"
  shows "\<exists>s'. be_set_path_acl (disk_acl_backend CP CT CS) s a = Inr s' \<and>
    disk_ok pa_glob CP (dir_paths s') \<and>
    be_get_path_acl (disk_acl_backend CP CT CS) s' (pa_glob a) = Inr (Some a) \<and>
    (\<forall>p. path_is_protected (disk_acl_backend CP CT CS) s' p = Inr True \<longleftrightarrow>
      glob_matches (pa_glob a) p \<or> path_is_protected (disk_acl_backend CP CT CS) s p = Inr True)"
proof -
  note T = disk_acl_table [OF assms(1), where key = pa_glob]
  obtain d' where d': "disk_set pa_glob CP (dir_paths s) a = Inr d'"
    using acl_table.set_law [OF T assms(2,3)] by blast
  have prot: "path_is_protected (disk_acl_backend CP CT CS) s' p =
      acl_table.protected pa_glob (disk_list CP) (dir_paths s') p" for s' p
    by (simp add: path_is_protected_def disk_acl_backend_def acl_table.protected_def [OF T])
  show ?thesis
    using acl_table.protected_set [OF T assms(2,3) d'] d' unfolding prot
    by (auto simp: disk_acl_backend_def)
qed

text \<open>A codec that stores the pattern itself, for the witnesses.\<close>

definition text_codec :: "('a \<Rightarrow> string) \<Rightarrow> (string \<Rightarrow> 'a) \<Rightarrow> 'a pcodec" where
  "text_codec key mk = \<lparr>pc_enc = (\<lambda>a. Inr (str_bytes (key a))), pc_dec = (\<lambda>bs. Inr (mk (bytes_str bs)))\<rparr>"

abbreviation text_path_codec :: "path_acl pcodec" where
  "text_path_codec \<equiv> text_codec pa_glob (\<lambda>s. \<lparr>pa_glob = s\<rparr>)"

abbreviation text_timeline_codec :: "timeline_acl pcodec" where
  "text_timeline_codec \<equiv> text_codec ta_pattern (\<lambda>s. \<lparr>ta_pattern = s\<rparr>)"

abbreviation text_secret_codec :: "secret_acl pcodec" where
  "text_secret_codec \<equiv> text_codec sa_name (\<lambda>s. \<lparr>sa_name = s\<rparr>)"

abbreviation text_backend :: "disk_acl acl_backend" where
  "text_backend \<equiv> disk_acl_backend text_path_codec text_timeline_codec text_secret_codec"

lemma text_codec_ok: "codec_ok text_path_codec"
  by (simp add: codec_ok_def text_codec_def)

text \<open>A path rule whose pattern starts with a dot is stored on disk and read back by name, yet it
  protects nothing: the directory listing that the protection check uses skips dot files, so every
  path is exactly as protected as before the rule was set. The memory backend enforces such rules.\<close>

lemma disk_dot_rule_not_enforced:
  assumes "codec_ok CP" and "hd (pa_glob a) = CHR ''.''" and "\<not> no_file (pa_glob a)"
  shows "\<exists>s'. be_set_path_acl (disk_acl_backend CP CT CS) s a = Inr s' \<and>
    be_get_path_acl (disk_acl_backend CP CT CS) s' (pa_glob a) = Inr (Some a) \<and>
    (\<forall>p. path_is_protected (disk_acl_backend CP CT CS) s' p = path_is_protected (disk_acl_backend CP CT CS) s p)"
proof -
  obtain bs where bs: "pc_enc CP a = Inr bs" "pc_dec CP bs = Inr a"
    using assms(1) by (auto simp: codec_ok_def)
  let ?f = "sanitize (pa_glob a)" and ?tmp = "''.'' @ sanitize (pa_glob a) @ ''.tmp''"
  let ?d = "AList.delete ?tmp (AList.update ?f bs (AList.update ?tmp bs (dir_paths s)))"
  have nf: "\<not> no_file ?f" using assms(3) by (simp add: no_file_sanitize)
  have dot: "take 1 ?f = ''.''"
    using assms(2,3) take1_sanitize [of "pa_glob a"] by (auto simp: no_file_def)
  have upd: "filter (\<lambda>(n, x). P n) (AList.update k v al) = filter (\<lambda>(n, x). P n) al" if "\<not> P k"
    for P and k :: string and v :: bytes and al
    using that by (induction al) auto
  have del: "filter (\<lambda>(n, x). P n) (AList.delete k al) = filter (\<lambda>(n, x). P n) al" if "\<not> P k"
    for P and k :: string and al :: dir
    using that by (induction al) (auto simp: AList.delete_eq)
  have tmp: "take 1 ?tmp = ''.''" by simp
  have "filter (\<lambda>(n, x). take 1 n \<noteq> ''.'') ?d = filter (\<lambda>(n, x). take 1 n \<noteq> ''.'') (dir_paths s)"
    using dot tmp upd [of "\<lambda>n. take 1 n \<noteq> ''.''"] del [of "\<lambda>n. take 1 n \<noteq> ''.''"] by metis
  then have listing: "disk_list CP ?d = disk_list CP (dir_paths s)"
    by (simp add: disk_list_def list_dir_def)
  have "map_of ?d ?f = Some bs" by (simp add: delete_conv' update_conv')
  then show ?thesis
    using nf listing bs
    by (simp add: disk_acl_backend_def disk_set_def disk_get_def map_codec_def acl_atomic_write_def Let_def
        path_is_protected_def)
qed

end
