(* ===== verification/Objects.thy ===== *)
theory Objects
  imports Object_Id Acl_Store
begin

text \<open>
  The object model: \<^verbatim>\<open>src/object/\<close>, the policy objects of \<^verbatim>\<open>src/acl/policy_object.rs\<close> and the signed
  collaboration objects the store also holds. \<^verbatim>\<open>Object\<close> is the union of all of them. The codec of
  \<^verbatim>\<open>src/codec.rs\<close> wraps \<^verbatim>\<open>postcard\<close> and BLAKE3, which are parameters.
\<close>

section \<open>Blobs, trees, snapshots\<close>

record blob = blob_data :: bytes

datatype entry_kind = KBlob | KTree

record tree_entry =
  te_id :: oid
  te_kind :: entry_kind

record tree = entries :: "(string, tree_entry) btree"

record snapshot =
  root :: oid
  parents :: "oid list"
  author :: string
  created_at :: u64
  message :: string

section \<open>Secrets and overlays\<close>

record wrapped_key =
  key_ref :: string
  wk_bytes :: bytes

record secret =
  sec_nonce :: bytes
  sec_ciphertext :: bytes

record secret_aad =
  aad_version :: u8
  aad_label :: "label option"

record secret_v2 =
  v2_wrapped_dk :: wrapped_key
  v2_nonce :: bytes
  v2_ciphertext :: bytes
  v2_aad :: secret_aad

record multi_secret =
  ms_recipients :: "wrapped_key list"
  ms_nonce :: bytes
  ms_ciphertext :: bytes
  ms_aad :: secret_aad

datatype env_value = EnvPlain string | EnvSecret oid

record env_overlay = env_entries :: "(string, env_value) btree"

section \<open>Policy objects\<close>

record hook_spec =
  hs_kind :: string
  hs_pattern :: string
  hs_params :: "(string, u64) btree"

definition POLICY_ROOT_REF :: string where
  "POLICY_ROOT_REF = ''refs/policy/root''"

record policy_root =
  pol_lattice :: oid
  pol_rules :: oid
  pol_parent :: "oid option"
  pol_hooks :: "hook_spec list"

record approver =
  ap_key_id :: string
  ap_public_key :: bytes

record approver_registry = approvers :: "approver list"

record attestation =
  att_target :: string
  att_head :: oid
  att_key_id :: string
  att_sig :: bytes

datatype policy_object =
    PLattice lattice
  | PRuleSet label_rule_set
  | PGrant clearance_grant
  | PRoot policy_root
  | PApprovers approver_registry
  | PAttestation attestation

section \<open>Collaboration objects\<close>

type_synonym key = bytes

record profile =
  pf_key :: key
  pf_display_name :: string
  pf_bio :: string
  pf_endpoints :: "string list"
  pf_dns_aliases :: "string list"
  pf_seq :: u64
  pf_sig :: bytes

datatype trust_kind = Vouch | Follow | Review

record trust_edge =
  ed_from_key :: key
  ed_to_key :: key
  ed_kind :: trust_kind
  ed_petname :: "string option"
  ed_seq :: u64
  ed_sig :: bytes

datatype collab_object = CProfile profile | CTrustEdge trust_edge

record change_proposal =
  cp_author :: key
  cp_source :: string
  cp_target :: string
  cp_title :: string
  cp_created_at :: u64
  cp_sig :: bytes

record review_comment =
  rc_author :: key
  rc_proposal :: oid
  rc_body :: string
  rc_resolves :: bool
  rc_created_at :: u64
  rc_sig :: bytes

record post =
  po_author :: key
  po_board :: string
  po_body :: string
  po_parent :: "oid option"
  po_created_at :: u64
  po_sig :: bytes

record repo_record =
  rr_owner :: key
  rr_name :: string
  rr_description :: string
  rr_seq :: u64
  rr_sig :: bytes

section \<open>Objects\<close>

datatype object =
    OBlob blob
  | OTree tree
  | OSnapshot snapshot
  | OSecret secret
  | OEnvOverlay env_overlay
  | OPolicy policy_object
  | OSecretV2 secret_v2
  | OMultiRecipientSecret multi_secret
  | OCollab collab_object
  | OChangeProposal change_proposal
  | OReviewComment review_comment
  | OPost post
  | ORepoRecord repo_record

section \<open>The codec\<close>

text \<open>\<^verbatim>\<open>postcard\<close> and BLAKE3, as the sources call them; an error of \<^verbatim>\<open>postcard\<close> is its message.\<close>

record ocodec =
  oc_enc :: "object \<Rightarrow> string + bytes"
  oc_dec :: "bytes \<Rightarrow> string + object"
  oc_hash :: "bytes \<Rightarrow> oid"

definition from_content :: "ocodec \<Rightarrow> bytes \<Rightarrow> oid" where
  "from_content C data = oc_hash C data"

definition serialize :: "ocodec \<Rightarrow> object \<Rightarrow> bytes result" where
  "serialize C obj = map_codec (oc_enc C obj)"

definition deserialize :: "ocodec \<Rightarrow> bytes \<Rightarrow> object result" where
  "deserialize C data = map_codec (oc_dec C data)"

definition object_id :: "ocodec \<Rightarrow> bytes \<Rightarrow> oid" where
  "object_id C data = from_content C data"

text \<open>What the store relies on: an encoded object decodes to itself.\<close>

definition ocodec_ok :: "ocodec \<Rightarrow> bool" where
  "ocodec_ok C \<longleftrightarrow> (\<forall>obj bs. oc_enc C obj = Inr bs \<longrightarrow> oc_dec C bs = Inr obj)"

lemma serialize_deserialize: "ocodec_ok C \<Longrightarrow> serialize C obj = Inr bs \<Longrightarrow> deserialize C bs = Inr obj"
  by (auto simp: ocodec_ok_def serialize_def deserialize_def map_codec_def split: sum.splits)

end
