(* ===== verification/Object_Store.thy ===== *)
theory Object_Store
  imports Objects
begin

text \<open>
  The content-addressed store: the trait \<^verbatim>\<open>StorageBackend\<close> (\<^verbatim>\<open>src/store/backend.rs\<close>) as a record of
  operations on a state, the facade \<^verbatim>\<open>ObjectStore\<close> (\<^verbatim>\<open>src/store/mod.rs\<close>) over any such record, and the
  memory backend (\<^verbatim>\<open>src/store/memory.rs\<close>). The locale \<open>storage_backend\<close> is the contract the facade
  needs; everything proved of the facade is proved there once, and holds for each backend that
  meets the contract.
\<close>

section \<open>The backend trait\<close>

record 's backend =
  sb_put :: "'s \<Rightarrow> oid \<Rightarrow> bytes \<Rightarrow> 's result"
  sb_get :: "'s \<Rightarrow> oid \<Rightarrow> bytes option result"
  sb_exists :: "'s \<Rightarrow> oid \<Rightarrow> bool result"
  sb_delete :: "'s \<Rightarrow> oid \<Rightarrow> 's result"
  sb_list :: "'s \<Rightarrow> oid list result"
  sb_count :: "'s \<Rightarrow> u64 result"
  sb_compact :: "'s \<Rightarrow> (u64 \<times> 's) result"
  sb_sweep :: "'s \<Rightarrow> oid set \<Rightarrow> u64 \<Rightarrow> u64 \<Rightarrow> (u64 \<times> 's) result"

text \<open>The provided methods of the trait.\<close>

definition default_count :: "('s \<Rightarrow> oid list result) \<Rightarrow> 's \<Rightarrow> u64 result" where
  "default_count lst s = bind_res (lst s) (\<lambda>ids. Inr (of_nat (length ids)))"

definition default_compact :: "'s \<Rightarrow> (u64 \<times> 's) result" where
  "default_compact s = Inr (0, s)"

definition default_sweep ::
  "('s \<Rightarrow> oid list result) \<Rightarrow> ('s \<Rightarrow> oid \<Rightarrow> 's result) \<Rightarrow> 's \<Rightarrow> oid set \<Rightarrow> u64 \<Rightarrow> u64 \<Rightarrow> (u64 \<times> 's) result" where
  "default_sweep lst del s reachable grace_secs now =
     bind_res (lst s) (\<lambda>ids.
       fold_res (\<lambda>i (removed, s).
         if i \<notin> reachable then bind_res (del s i) (\<lambda>s'. Inr (removed + 1, s'))
         else Inr (removed, s)) ids (0, s))"

section \<open>The object store\<close>

definition ost_put :: "'s backend \<Rightarrow> ocodec \<Rightarrow> 's \<Rightarrow> object \<Rightarrow> (oid \<times> 's) result" where
  "ost_put B C s obj =
     bind_res (serialize C obj) (\<lambda>data.
     let i = object_id C data in
     bind_res (sb_exists B s i) (\<lambda>present.
     if \<not> present then bind_res (sb_put B s i data) (\<lambda>s'. Inr (i, s')) else Inr (i, s)))"

definition ost_get :: "'s backend \<Rightarrow> ocodec \<Rightarrow> 's \<Rightarrow> oid \<Rightarrow> object option result" where
  "ost_get B C s i =
     bind_res (sb_get B s i) (\<lambda>found. case found of
       Some data \<Rightarrow> bind_res (deserialize C data) (\<lambda>obj. Inr (Some obj))
     | None \<Rightarrow> Inr None)"

definition ost_exists :: "'s backend \<Rightarrow> 's \<Rightarrow> oid \<Rightarrow> bool result" where
  "ost_exists B s i = sb_exists B s i"

definition put_blob :: "'s backend \<Rightarrow> ocodec \<Rightarrow> 's \<Rightarrow> bytes \<Rightarrow> (oid \<times> 's) result" where
  "put_blob B C s data = ost_put B C s (OBlob \<lparr>blob_data = data\<rparr>)"

definition put_tree :: "'s backend \<Rightarrow> ocodec \<Rightarrow> 's \<Rightarrow> (string, tree_entry) btree \<Rightarrow> (oid \<times> 's) result" where
  "put_tree B C s es = ost_put B C s (OTree \<lparr>entries = es\<rparr>)"

definition put_snapshot :: "'s backend \<Rightarrow> ocodec \<Rightarrow> 's \<Rightarrow> snapshot \<Rightarrow> (oid \<times> 's) result" where
  "put_snapshot B C s snap = ost_put B C s (OSnapshot snap)"

definition put_overlay :: "'s backend \<Rightarrow> ocodec \<Rightarrow> 's \<Rightarrow> env_overlay \<Rightarrow> (oid \<times> 's) result" where
  "put_overlay B C s overlay = ost_put B C s (OEnvOverlay overlay)"

definition get_overlay :: "'s backend \<Rightarrow> ocodec \<Rightarrow> 's \<Rightarrow> oid \<Rightarrow> env_overlay option result" where
  "get_overlay B C s i =
     bind_res (ost_get B C s i) (\<lambda>found. case found of
       None \<Rightarrow> Inr None
     | Some (OEnvOverlay ov) \<Rightarrow> Inr (Some ov)
     | Some _ \<Rightarrow> Inl (Codec ''not an env overlay''))"

definition get_raw :: "'s backend \<Rightarrow> 's \<Rightarrow> oid \<Rightarrow> bytes option result" where
  "get_raw B s i = sb_get B s i"

definition put_raw :: "'s backend \<Rightarrow> ocodec \<Rightarrow> 's \<Rightarrow> bytes \<Rightarrow> (oid \<times> 's) result" where
  "put_raw B C s canonical =
     (let i = object_id C canonical in
      bind_res (sb_exists B s i) (\<lambda>present.
      if \<not> present then bind_res (sb_put B s i canonical) (\<lambda>s'. Inr (i, s')) else Inr (i, s)))"

section \<open>The memory backend\<close>

type_synonym mem_store = "(oid \<times> bytes) list"

definition mem_put :: "mem_store \<Rightarrow> oid \<Rightarrow> bytes \<Rightarrow> mem_store result" where
  "mem_put s i data = Inr (AList.update i data s)"

definition mem_get :: "mem_store \<Rightarrow> oid \<Rightarrow> bytes option result" where
  "mem_get s i = Inr (map_of s i)"

definition mem_exists :: "mem_store \<Rightarrow> oid \<Rightarrow> bool result" where
  "mem_exists s i = Inr (map_of s i \<noteq> None)"

definition mem_delete :: "mem_store \<Rightarrow> oid \<Rightarrow> mem_store result" where
  "mem_delete s i = Inr (AList.delete i s)"

definition mem_list :: "mem_store \<Rightarrow> oid list result" where
  "mem_list s = Inr (map fst s)"

definition memory_backend :: "mem_store backend" where
  "memory_backend = \<lparr>sb_put = mem_put, sb_get = mem_get, sb_exists = mem_exists, sb_delete = mem_delete,
     sb_list = mem_list, sb_count = default_count mem_list, sb_compact = default_compact,
     sb_sweep = default_sweep mem_list mem_delete\<rparr>"

section \<open>The contract of a backend\<close>

text \<open>
  \<open>abst\<close> is the map from ids to bytes that a state represents, \<open>storable\<close> says which bytes the
  backend can write (a compressor may refuse some). The facade only stores under an id
  that is not there yet, so nothing is asked of a second write.
\<close>

locale storage_backend =
  fixes inv :: "'s \<Rightarrow> bool"
    and abst :: "'s \<Rightarrow> oid \<Rightarrow> bytes option"
    and storable :: "bytes \<Rightarrow> bool"
    and B :: "'s backend"
  assumes get_law: "inv s \<Longrightarrow> sb_get B s i = Inr (abst s i)"
    and exists_law: "inv s \<Longrightarrow> sb_exists B s i = Inr (abst s i \<noteq> None)"
    and put_law: "inv s \<Longrightarrow> storable data \<Longrightarrow> abst s i = None \<Longrightarrow>
      \<exists>s'. sb_put B s i data = Inr s' \<and> inv s' \<and> abst s' = (abst s)(i \<mapsto> data)"
    and list_law: "inv s \<Longrightarrow> \<exists>ids. sb_list B s = Inr ids \<and> distinct ids \<and> set ids = dom (abst s)"
begin

text \<open>Every stored object is stored under the hash of its bytes.\<close>

definition addressed :: "ocodec \<Rightarrow> 's \<Rightarrow> bool" where
  "addressed C s \<longleftrightarrow> (\<forall>i data. abst s i = Some data \<longrightarrow> object_id C data = i)"

text \<open>No stored object has the hash of \<open>data\<close> without being \<open>data\<close>.\<close>

definition no_collision :: "ocodec \<Rightarrow> 's \<Rightarrow> bytes \<Rightarrow> bool" where
  "no_collision C s data \<longleftrightarrow> (\<forall>data'. abst s (object_id C data) = Some data' \<longrightarrow> data' = data)"

lemma put_raw_correct:
  assumes "inv s" and "storable data"
  shows "\<exists>s'. put_raw B C s data = Inr (object_id C data, s') \<and> inv s' \<and>
    abst s' = (if abst s (object_id C data) = None then (abst s)(object_id C data \<mapsto> data) else abst s)"
proof (cases "abst s (object_id C data) = None")
  case True
  then obtain s' where "sb_put B s (object_id C data) data = Inr s'" "inv s'"
    "abst s' = (abst s)(object_id C data \<mapsto> data)"
    using put_law [OF assms] by blast
  with True show ?thesis by (simp add: put_raw_def Let_def exists_law [OF assms(1)])
next
  case False
  with assms show ?thesis by (auto simp: put_raw_def Let_def exists_law [OF assms(1)])
qed

lemma put_raw_result:
  assumes "inv s" and "storable data" and "put_raw B C s data = Inr (i, s')"
  shows "i = object_id C data" and "inv s'"
    and "abst s' = (if abst s i = None then (abst s)(i \<mapsto> data) else abst s)"
  using put_raw_correct [OF assms(1,2), of C] assms(3) by auto

lemma ost_put_raw: "serialize C obj = Inr data \<Longrightarrow> ost_put B C s obj = put_raw B C s data"
  by (simp add: ost_put_def put_raw_def)

lemma put_raw_addressed:
  assumes "inv s" and "storable data" and "addressed C s" and "put_raw B C s data = Inr (i, s')"
  shows "addressed C s'"
  using assms(3) put_raw_result(1,3) [OF assms(1,2,4)] unfolding addressed_def
  by (simp split: if_splits)

lemma put_raw_mono:
  assumes "inv s" and "storable data" and "put_raw B C s data = Inr (i, s')"
  shows "abst s \<subseteq>\<^sub>m abst s'"
  using put_raw_result(3) [OF assms] by (auto simp: map_le_def)

lemma ost_put_get:
  assumes "inv s" and "addressed C s" and "ocodec_ok C" and "serialize C obj = Inr data"
    and "storable data" and "no_collision C s data"
  shows "\<exists>s'. ost_put B C s obj = Inr (object_id C data, s') \<and> inv s' \<and> addressed C s' \<and>
    ost_get B C s' (object_id C data) = Inr (Some obj) \<and> abst s' = (abst s)(object_id C data \<mapsto> data)"
proof -
  let ?i = "object_id C data"
  obtain s' where s': "put_raw B C s data = Inr (?i, s')"
    using put_raw_correct [OF assms(1,5)] by blast
  note res = put_raw_result [OF assms(1,5) s']
  have ab: "abst s' = (abst s)(?i \<mapsto> data)"
    using res(3) assms(6) by (auto simp: no_collision_def fun_upd_idem)
  have "ost_get B C s' ?i = Inr (Some obj)"
    using ab serialize_deserialize [OF assms(3,4)] by (simp add: ost_get_def get_law [OF res(2)])
  then show ?thesis
    using s' res(2) ab put_raw_addressed [OF assms(1,5,2) s'] by (simp add: ost_put_raw [OF assms(4)])
qed

lemma ost_get_stored:
  assumes "inv s" and "ost_get B C s i = Inr (Some obj)"
  shows "\<exists>data. abst s i = Some data \<and> deserialize C data = Inr obj"
  using assms by (auto simp: ost_get_def get_law bind_res_Inr split: option.splits)

lemma ost_get_mono:
  assumes "inv s" and "inv s'" and "abst s \<subseteq>\<^sub>m abst s'" and "ost_get B C s i = Inr (Some obj)"
  shows "ost_get B C s' i = Inr (Some obj)"
proof -
  obtain data where data: "abst s i = Some data" "deserialize C data = Inr obj"
    using ost_get_stored [OF assms(1,4)] by blast
  then have "abst s' i = Some data" using assms(3) by (metis domI map_le_def)
  with data show ?thesis by (simp add: ost_get_def get_law [OF assms(2)])
qed

end

section \<open>The memory backend meets it\<close>

definition mem_inv :: "mem_store \<Rightarrow> bool" where
  "mem_inv s \<longleftrightarrow> distinct (map fst s)"

lemmas mem_ops = mem_put_def mem_get_def mem_exists_def mem_delete_def mem_list_def

interpretation memst: storage_backend mem_inv map_of "\<lambda>_. True" memory_backend
proof
  show "\<exists>s'. sb_put memory_backend s i data = Inr s' \<and> mem_inv s' \<and> map_of s' = (map_of s)(i \<mapsto> data)"
    if "mem_inv s" "map_of s i = None" for s i data
    using that by (simp add: memory_backend_def mem_ops mem_inv_def distinct_update update_conv')
  show "\<exists>ids. sb_list memory_backend s = Inr ids \<and> distinct ids \<and> set ids = dom (map_of s)"
    if "mem_inv s" for s
    using that by (simp add: memory_backend_def mem_ops mem_inv_def dom_map_of_conv_image_fst)
qed (simp_all add: memory_backend_def mem_ops)

text \<open>The default sweep keeps exactly the reachable objects.\<close>

lemma mem_sweep_fold:
  assumes "mem_inv s"
  shows "\<exists>n s'. fold_res (\<lambda>i (removed, s). if i \<notin> R then bind_res (mem_delete s i) (\<lambda>s'. Inr (removed + 1, s'))
      else Inr (removed, s)) ids (k, s) = Inr (n, s') \<and> mem_inv s' \<and>
    map_of s' = map_of s |` (- (set ids - R)) \<and> n = k + of_nat (length (filter (\<lambda>i. i \<notin> R) ids))"
  using assms
proof (induction ids arbitrary: k s)
  case Nil
  then show ?case by (simp add: restrict_map_def)
next
  case (Cons i ids)
  let ?s = "if i \<notin> R then AList.delete i s else s"
  have inv: "mem_inv ?s" using Cons.prems by (auto simp: mem_inv_def distinct_delete)
  have "map_of ?s |` (- (set ids - R)) = map_of s |` (- (set (i # ids) - R))"
    by (auto simp: restrict_map_def delete_conv' fun_eq_iff)
  with Cons.IH [OF inv, of "if i \<notin> R then k + 1 else k"] show ?case
    by (auto simp: mem_delete_def add.assoc)
qed

lemma mem_sweep:
  assumes "mem_inv s"
  shows "\<exists>s'. sb_sweep memory_backend s R grace now =
      Inr (of_nat (card (dom (map_of s) - R)), s') \<and> mem_inv s' \<and> map_of s' = map_of s |` R"
proof -
  have len: "length (filter (\<lambda>i. i \<notin> R) (map fst s)) = card (dom (map_of s) - R)"
  proof -
    have "distinct (filter (\<lambda>i. i \<notin> R) (map fst s))" using assms by (simp add: mem_inv_def)
    moreover have "set (filter (\<lambda>i. i \<notin> R) (map fst s)) = dom (map_of s) - R"
      by (auto simp: dom_map_of_conv_image_fst)
    ultimately show ?thesis by (metis distinct_card)
  qed
  have "map_of s |` (- (set (map fst s) - R)) = map_of s |` R"
    by (auto simp: restrict_map_def fun_eq_iff map_of_eq_None_iff)
  with mem_sweep_fold [OF assms, of R "map fst s" 0] show ?thesis
    unfolding len by (auto simp: memory_backend_def default_sweep_def mem_list_def)
qed

text \<open>Storing an object and reading its id back gives the object: \<^verbatim>\<open>ObjectStore::put\<close> returns the hash of
  the encoded object, keeps every other object, keeps the store content-addressed, stores nothing
  twice, and \<^verbatim>\<open>get\<close> of that id returns the object, for every codec that decodes what it encodes, as
  long as the hash of the new bytes does not collide with different bytes already stored.\<close>

lemma store_put_get:
  assumes "mem_inv s" and "memst.addressed C s" and "ocodec_ok C"
    and "serialize C obj = Inr data" and "memst.no_collision C s data"
  shows "\<exists>s'. ost_put memory_backend C s obj = Inr (object_id C data, s') \<and>
    mem_inv s' \<and> memst.addressed C s' \<and>
    ost_get memory_backend C s' (object_id C data) = Inr (Some obj) \<and>
    (\<forall>i. i \<noteq> object_id C data \<longrightarrow> ost_get memory_backend C s' i = ost_get memory_backend C s i) \<and>
    ost_put memory_backend C s' obj = Inr (object_id C data, s')"
proof -
  from memst.ost_put_get [OF assms(1-4) TrueI assms(5)] obtain s' where
    s': "ost_put memory_backend C s obj = Inr (object_id C data, s')" "mem_inv s'" "memst.addressed C s'"
    "ost_get memory_backend C s' (object_id C data) = Inr (Some obj)"
    "map_of s' = (map_of s)(object_id C data \<mapsto> data)" by blast
  have "ost_get memory_backend C s' i = ost_get memory_backend C s i" if "i \<noteq> object_id C data" for i
    using that by (simp add: ost_get_def memst.get_law [OF s'(2)] memst.get_law [OF assms(1)] s'(5))
  moreover have "ost_put memory_backend C s' obj = Inr (object_id C data, s')"
    by (simp add: ost_put_def assms(4) memst.exists_law [OF s'(2)] s'(5))
  ultimately show ?thesis using s' by blast
qed

subsection \<open>A codec for examples\<close>

text \<open>An object is encoded as its position in a table; the hash of bytes is their big-endian value.\<close>

fun index_of :: "'a \<Rightarrow> 'a list \<Rightarrow> nat option" where
  "index_of x [] = None"
| "index_of x (y # ys) = (if x = y then Some 0 else map_option Suc (index_of x ys))"

lemma index_of_SomeD: "index_of x xs = Some n \<Longrightarrow> n < length xs \<and> xs ! n = x"
  by (induction xs arbitrary: n) (auto split: if_splits)

definition table_codec :: "object list \<Rightarrow> ocodec" where
  "table_codec objs = \<lparr>
     oc_enc = (\<lambda>obj. case index_of obj objs of
         Some n \<Rightarrow> if n < 256 then Inr [of_nat n] else Inl ''table too long''
       | None \<Rightarrow> Inl ''not in table''),
     oc_dec = (\<lambda>bs. case bs of
         [b] \<Rightarrow> if unat b < length objs then Inr (objs ! unat b) else Inl ''no such object''
       | _ \<Rightarrow> Inl ''length''),
     oc_hash = (\<lambda>bs. of_nat (from_be bs))\<rparr>"

lemma table_codec_ok: "ocodec_ok (table_codec objs)"
  unfolding ocodec_ok_def table_codec_def
  by (auto split: option.splits if_splits dest!: index_of_SomeD simp: unat_of_nat)

end
