(* ===== verification/Pack.thy ===== *)
theory Pack
  imports Object_Store
begin

text \<open>
  The pack format, \<^verbatim>\<open>src/store/pack.rs\<close>: LEB128 varints, object frames, the pack writer and the
  verifying reader, and the sorted index with its binary encoding. zstd is a parameter, as is the
  hash (the \<^verbatim>\<open>oc_hash\<close> of the codec). Positions (\<^verbatim>\<open>usize\<close>) are natural numbers.
\<close>

unbundle bit_operations_syntax

section \<open>Constants\<close>

definition PACK_MAGIC :: bytes where "PACK_MAGIC = str_bytes ''BOLEPACK''"
definition END_MAGIC :: bytes where "END_MAGIC = str_bytes ''BOLEPKND''"
definition IDX_MAGIC :: bytes where "IDX_MAGIC = str_bytes ''BOLEIDX'' @ [0]"
definition PACK_VERSION :: nat where "PACK_VERSION = 1"
definition IDX_VERSION :: nat where "IDX_VERSION = 1"
definition RECORD_OBJECT :: u8 where "RECORD_OBJECT = 1"
definition HEADER_LEN :: nat where "HEADER_LEN = 32"
definition TRAILER_LEN :: nat where "TRAILER_LEN = 40"
definition MAX_OBJECT_LEN :: nat where "MAX_OBJECT_LEN = 128 * 1024 * 1024"
definition MAX_PACK_OBJECTS :: nat where "MAX_PACK_OBJECTS = 8000000"
definition MAX_PACK_TOTAL_LEN :: nat where "MAX_PACK_TOTAL_LEN = 1024 * 1024 * 1024"

lemmas pack_consts = PACK_MAGIC_def END_MAGIC_def IDX_MAGIC_def PACK_VERSION_def IDX_VERSION_def
  RECORD_OBJECT_def HEADER_LEN_def TRAILER_LEN_def

text \<open>\<^verbatim>\<open>to_le_bytes\<close> and \<^verbatim>\<open>from_le_bytes\<close>.\<close>

definition le_bytes :: "nat \<Rightarrow> nat \<Rightarrow> bytes" where
  "le_bytes k n = rev (be_bytes k n)"

definition from_le :: "bytes \<Rightarrow> nat" where
  "from_le bs = from_be (rev bs)"

section \<open>zstd\<close>

text \<open>
  \<^verbatim>\<open>encode_all\<close>, \<^verbatim>\<open>decode_all\<close> and the streaming decoder: its construction, its window limit and
  \<^verbatim>\<open>take(n).read_to_end\<close>. Errors are their messages.
\<close>

record zstd =
  z_enc :: "bytes \<Rightarrow> string + bytes"
  z_dec :: "bytes \<Rightarrow> string + bytes"
  z_open :: "bytes \<Rightarrow> string option"
  z_window :: "bytes \<Rightarrow> string option"
  z_read :: "bytes \<Rightarrow> nat \<Rightarrow> string + bytes"

definition zstd_ok :: "zstd \<Rightarrow> bool" where
  "zstd_ok Z \<longleftrightarrow> (\<forall>x z. z_enc Z x = Inr z \<longrightarrow>
     length z < 2 ^ 64 \<and> z_dec Z z = Inr x \<and> z_open Z z = None \<and> z_window Z z = None \<and>
     (\<forall>n. z_read Z z n = Inr (take n x)))"

definition zstd_decode_bounded :: "zstd \<Rightarrow> bytes \<Rightarrow> u64 \<Rightarrow> bytes result" where
  "zstd_decode_bounded Z z max_out =
     (case z_open Z z of
        Some e \<Rightarrow> Inl (Storage (''pack: zstd init: '' @ e))
      | None \<Rightarrow>
          (case z_window Z z of
             Some e \<Rightarrow> Inl (Storage (''pack: zstd window: '' @ e))
           | None \<Rightarrow>
               (case z_read Z z (unat (max_out + 1)) of
                  Inl e \<Rightarrow> Inl (Storage (''pack: zstd decode: '' @ e))
                | Inr canonical \<Rightarrow> Inr canonical)))"

section \<open>Varints\<close>

function write_varint :: "u64 \<Rightarrow> bytes" where
  "write_varint v =
     (let byte = ucast (v AND 0x7f) :: u8; v' = drop_bit 7 v in
      if v' \<noteq> 0 then (byte OR 0x80) # write_varint v' else [byte])"
  by pat_completeness auto
termination
proof (relation "measure unat", goal_cases)
  case (2 v byte v')
  have "unat v' = unat v div 2 ^ 7" using 2 by (metis unat_drop_bit_eq drop_bit_eq_div)
  moreover have "unat v' \<noteq> 0" using 2(3) by (metis unsigned_eq_0_iff)
  ultimately show ?case by simp
qed simp

lemmas [simp del] = write_varint.simps

function read_varint_loop :: "bytes \<Rightarrow> nat \<Rightarrow> u64 \<Rightarrow> nat \<Rightarrow> (u64 \<times> nat) result" where
  "read_varint_loop data pos res shift =
     (if length data \<le> pos then Inl (Storage ''pack: varint truncated'')
      else
        let byte = data ! pos; pos' = pos + 1; res' = res OR push_bit shift (ucast (byte AND 0x7f)) in
        if byte AND 0x80 = 0 then Inr (res', pos')
        else if 64 \<le> shift + 7 then Inl (Storage ''pack: varint overflow'')
        else read_varint_loop data pos' res' (shift + 7))"
  by pat_completeness auto
termination by (relation "measure (\<lambda>(data, pos, res, shift). length data - pos)") auto

lemmas [simp del] = read_varint_loop.simps

definition read_varint :: "bytes \<Rightarrow> nat \<Rightarrow> (u64 \<times> nat) result" where
  "read_varint data pos = read_varint_loop data pos 0 0"

lemma read_varint_loop_pos:
  "read_varint_loop data pos res shift = Inr (v, pos') \<Longrightarrow> pos < pos' \<and> pos' \<le> length data"
proof (induction data pos res shift rule: read_varint_loop.induct)
  case (1 data pos res shift)
  then show ?case
    by (subst (asm) (2) read_varint_loop.simps) (fastforce simp: Let_def split: if_splits)
qed

lemma read_varint_pos: "read_varint data pos = Inr (v, pos') \<Longrightarrow> pos < pos' \<and> pos' \<le> length data"
  by (auto simp: read_varint_def dest: read_varint_loop_pos)

section \<open>Writing a pack\<close>

record pack_entry =
  pe_id :: oid
  pe_offset :: u64
  pe_len :: u64

text \<open>\<^verbatim>\<open>PackBuilder\<close>: the queue of objects; \<^verbatim>\<open>add\<close> appends.\<close>

type_synonym pack_builder = "(oid \<times> bytes) list"

definition builder_add :: "pack_builder \<Rightarrow> oid \<Rightarrow> bytes \<Rightarrow> pack_builder" where
  "builder_add b i canonical = b @ [(i, canonical)]"

definition pack_header :: "nat \<Rightarrow> bytes" where
  "pack_header n = PACK_MAGIC @ le_bytes 4 PACK_VERSION @ le_bytes 4 0 @ le_bytes 8 n @ replicate 8 0"

definition encode_frame :: "zstd \<Rightarrow> oid \<Rightarrow> bytes \<Rightarrow> bytes result" where
  "encode_frame Z i canonical =
     (case z_enc Z canonical of
        Inl e \<Rightarrow> Inl (Storage (''pack: zstd encode: '' @ e))
      | Inr z \<Rightarrow> Inr ([RECORD_OBJECT] @ as_bytes i @ write_varint (of_nat (length canonical))
                   @ write_varint (of_nat (length z)) @ z))"

definition finish_step :: "zstd \<Rightarrow> oid \<times> bytes \<Rightarrow> bytes \<times> pack_entry list \<Rightarrow> (bytes \<times> pack_entry list) result" where
  "finish_step Z ic acc =
     (case (ic, acc) of ((i, canonical), (buf, es)) \<Rightarrow>
      bind_res (encode_frame Z i canonical) (\<lambda>frame.
        Inr (buf @ frame,
          es @ [\<lparr>pe_id = i, pe_offset = of_nat (length buf),
            pe_len = of_nat (length (buf @ frame)) - of_nat (length buf)\<rparr>])))"

definition finish :: "ocodec \<Rightarrow> zstd \<Rightarrow> pack_builder \<Rightarrow> (bytes \<times> pack_entry list \<times> oid) result" where
  "finish C Z objs =
     bind_res (fold_res (finish_step Z) objs (pack_header (length objs), [])) (\<lambda>(buf, es).
       let digest = oc_hash C buf in Inr (buf @ END_MAGIC @ as_bytes digest, es, digest))"

section \<open>Reading a pack\<close>

definition show_hex :: "u8 \<Rightarrow> string" where
  "show_hex b = ''0x'' @ (if b < 16 then [hex_char b] else hex_byte b)"

definition decode_frame :: "ocodec \<Rightarrow> zstd \<Rightarrow> bytes \<Rightarrow> (oid \<times> bytes) result" where
  "decode_frame C Z frame =
     (if frame = [] then Inl (Storage ''pack: empty frame'')
      else if frame ! 0 \<noteq> RECORD_OBJECT then Inl (Storage (''pack: unknown record type '' @ show_hex (frame ! 0)))
      else if length frame < 33 then Inl (Storage ''pack: frame id truncated'')
      else
        let i = oid_new (take 32 (drop 1 frame)) in
        bind_res (read_varint frame 33) (\<lambda>(ulen, pos).
        if unat ulen > MAX_OBJECT_LEN
        then Inl (Storage (''pack: object length '' @ show_nat (unat ulen) @ '' exceeds cap '' @ show_nat MAX_OBJECT_LEN))
        else bind_res (read_varint frame pos) (\<lambda>(slen, pos).
        if length frame < pos + unat slen then Inl (Storage ''pack: frame body truncated'')
        else bind_res (zstd_decode_bounded Z (take (unat slen) (drop pos frame)) ulen) (\<lambda>canonical.
        if (of_nat (length canonical) :: u64) \<noteq> ulen then Inl (Storage ''pack: uncompressed length mismatch'')
        else if from_content C canonical \<noteq> i then Inl (Storage ''pack: frame id does not match content'')
        else Inr (i, canonical)))))"

definition read_frame_at :: "ocodec \<Rightarrow> zstd \<Rightarrow> bytes \<Rightarrow> u64 \<Rightarrow> u64 \<Rightarrow> (oid \<times> bytes) result" where
  "read_frame_at C Z pack offset len =
     (let start = unat offset; stop = start + unat len in
      if length pack < stop then Inl (Storage ''pack: frame range out of bounds'')
      else decode_frame C Z (take (unat len) (drop start pack)))"

text \<open>The length of the frame at \<open>pos\<close>, as the loop of \<^verbatim>\<open>decode_pack\<close> finds it.\<close>

definition frame_bounds :: "bytes \<Rightarrow> nat \<Rightarrow> nat result" where
  "frame_bounds body pos =
     (if body ! pos \<noteq> RECORD_OBJECT then Inl (Storage (''pack: unknown record type '' @ show_hex (body ! pos)))
      else if length body < pos + 33 then Inl (Storage ''pack: frame id truncated'')
      else bind_res (read_varint body (pos + 33)) (\<lambda>(ulen, pos).
        bind_res (read_varint body pos) (\<lambda>(slen, pos).
        if length body < pos + unat slen then Inl (Storage ''pack: frame body truncated'')
        else Inr (pos + unat slen))))"

lemma frame_bounds_pos: "frame_bounds body pos = Inr e \<Longrightarrow> pos < e \<and> e \<le> length body"
  by (auto simp: frame_bounds_def bind_res_Inr split: if_splits dest!: read_varint_pos)

function decode_frames ::
  "ocodec \<Rightarrow> zstd \<Rightarrow> bytes \<Rightarrow> nat \<Rightarrow> u64 \<Rightarrow> (oid \<times> bytes) list \<Rightarrow> (oid \<times> bytes) list result" where
  "decode_frames C Z body pos tot out =
     (if length body \<le> pos then Inr out
      else bind_res (frame_bounds body pos) (\<lambda>frame_end.
        bind_res (decode_frame C Z (take (frame_end - pos) (drop pos body))) (\<lambda>(i, canonical).
        let tot' = saturating_add tot (of_nat (length canonical)) in
        if unat tot' > MAX_PACK_TOTAL_LEN
        then Inl (Storage (''pack: total uncompressed size exceeds cap '' @ show_nat MAX_PACK_TOTAL_LEN))
        else decode_frames C Z body frame_end tot' (out @ [(i, canonical)]))))"
  by pat_completeness auto
termination
  by (relation "measure (\<lambda>(C, Z, body, pos, tot, out). length body - pos)") (auto dest: frame_bounds_pos)

lemmas [simp del] = decode_frames.simps

definition decode_pack :: "ocodec \<Rightarrow> zstd \<Rightarrow> bytes \<Rightarrow> (oid \<times> bytes) list result" where
  "decode_pack C Z pack =
     (if length pack < HEADER_LEN + TRAILER_LEN then Inl (Storage ''pack: shorter than header+trailer'')
      else if take 8 pack \<noteq> PACK_MAGIC then Inl (Storage ''pack: bad magic'')
      else
        let version = from_le (take 4 (drop 8 pack)) in
        if version \<noteq> PACK_VERSION then Inl (Storage (''pack: unsupported version '' @ show_nat version))
        else
          let count = from_le (take 8 (drop 16 pack)) in
          if count > MAX_PACK_OBJECTS
          then Inl (Storage (''pack: object count '' @ show_nat count @ '' exceeds cap '' @ show_nat MAX_PACK_OBJECTS))
          else
            let body_end = length pack - TRAILER_LEN; trailer = drop body_end pack; body = take body_end pack in
            if take 8 trailer \<noteq> END_MAGIC then Inl (Storage ''pack: bad end magic'')
            else if as_bytes (oc_hash C body) \<noteq> take 32 (drop 8 trailer) then Inl (Storage ''pack: digest mismatch'')
            else bind_res (decode_frames C Z body HEADER_LEN 0 []) (\<lambda>out.
              if length out \<noteq> count then Inl (Storage ''pack: object count mismatch'') else Inr out))"

section \<open>The index\<close>

record pack_index =
  ix_entries :: "pack_entry list"
  ix_digest :: oid

definition ix_build :: "pack_entry list \<Rightarrow> oid \<Rightarrow> pack_index" where
  "ix_build es digest = \<lparr>ix_entries = sort_key pe_id es, ix_digest = digest\<rparr>"

definition ix_count :: "pack_index \<Rightarrow> nat" where
  "ix_count ix = length (ix_entries ix)"

definition ix_ids :: "pack_index \<Rightarrow> oid list" where
  "ix_ids ix = map pe_id (ix_entries ix)"

text \<open>\<^verbatim>\<open>partition_point\<close> on entries that are partitioned by their first byte.\<close>

definition fanout_at :: "pack_index \<Rightarrow> u8 \<Rightarrow> nat" where
  "fanout_at ix byte = length (takeWhile (\<lambda>e. as_bytes (pe_id e) ! 0 \<le> byte) (ix_entries ix))"

function binary_search :: "pack_entry list \<Rightarrow> oid \<Rightarrow> nat \<Rightarrow> nat \<Rightarrow> nat option" where
  "binary_search es i lo hi =
     (if hi \<le> lo then None
      else
        let mid = (lo + hi) div 2 in
        if pe_id (es ! mid) = i then Some mid
        else if pe_id (es ! mid) < i then binary_search es i (mid + 1) hi
        else binary_search es i lo mid)"
  by pat_completeness auto
termination by (relation "measure (\<lambda>(es, i, lo, hi). hi - lo)") auto

lemmas [simp del] = binary_search.simps

definition ix_lookup :: "pack_index \<Rightarrow> oid \<Rightarrow> (u64 \<times> u64) option" where
  "ix_lookup ix i =
     (let first = as_bytes i ! 0;
          lo = (if first = 0 then 0 else fanout_at ix (first - 1));
          hi = fanout_at ix first;
          slice = take (hi - lo) (drop lo (ix_entries ix)) in
      map_option (\<lambda>k. (pe_offset (slice ! k), pe_len (slice ! k))) (binary_search slice i 0 (length slice)))"

definition ix_encode_head :: "pack_index \<Rightarrow> bytes" where
  "ix_encode_head ix =
     IDX_MAGIC @ le_bytes 4 IDX_VERSION @ le_bytes 4 (length (ix_entries ix))
     @ concat (map (\<lambda>b. le_bytes 4 (fanout_at ix (of_nat b))) [0..<256])
     @ concat (map (\<lambda>e. as_bytes (pe_id e)) (ix_entries ix))
     @ concat (map (\<lambda>e. le_bytes 8 (unat (pe_offset e))) (ix_entries ix))
     @ concat (map (\<lambda>e. le_bytes 8 (unat (pe_len e))) (ix_entries ix))
     @ as_bytes (ix_digest ix)"

definition ix_encode :: "ocodec \<Rightarrow> pack_index \<Rightarrow> bytes" where
  "ix_encode C ix = ix_encode_head ix @ as_bytes (oc_hash C (ix_encode_head ix))"

abbreviation slice :: "bytes \<Rightarrow> nat \<Rightarrow> nat \<Rightarrow> bytes" where
  "slice data start n \<equiv> take n (drop start data)"

definition ix_parse :: "ocodec \<Rightarrow> bytes \<Rightarrow> pack_index result" where
  "ix_parse C data =
     (if length data < 16 then Inl (Storage ''idx: truncated'')
      else if take 8 data \<noteq> IDX_MAGIC then Inl (Storage ''idx: bad magic'')
      else
        let version = from_le (slice data 8 4) in
        if version \<noteq> IDX_VERSION then Inl (Storage (''idx: unsupported version '' @ show_nat version))
        else
          let n = from_le (slice data 12 4) in
          if length data < 32 then Inl (Storage ''idx: truncated'')
          else
            let head = take (length data - 32) data; idx_digest = drop (length data - 32) data in
            if as_bytes (oc_hash C head) \<noteq> idx_digest then Inl (Storage ''idx: digest mismatch'')
            else
              let pos = 16 + 256 * 4 in
              if length head < pos + (n * 32 + n * 8 + n * 8 + 32) then Inl (Storage ''idx: truncated'')
              else
                let ids_start = pos; offsets_start = ids_start + n * 32; lens_start = offsets_start + n * 8;
                    digest_start = lens_start + n * 8 in
                Inr \<lparr>ix_entries = map (\<lambda>k.
                       \<lparr>pe_id = oid_new (slice head (ids_start + k * 32) 32),
                        pe_offset = of_nat (from_le (slice head (offsets_start + k * 8) 8)),
                        pe_len = of_nat (from_le (slice head (lens_start + k * 8) 8))\<rparr>) [0..<n],
                     ix_digest = oid_new (slice head digest_start 32)\<rparr>)"

section \<open>Varints round trip\<close>

lemma unat_of_nat_u64: "n < 2 ^ 64 \<Longrightarrow> unat (of_nat n :: u64) = n"
  by (simp add: unat_of_nat)

lemma low7_table: "list_all (\<lambda>n. let b = of_nat n :: u8 in
    (b OR 128) AND 127 = b \<and> (b OR 128) AND 128 \<noteq> 0 \<and> b AND 127 = b \<and> b AND 128 = 0) [0..<128]"
  by code_simp

lemma low7:
  assumes "unat (b :: u8) < 128"
  shows "(b OR 128) AND 127 = b" and "(b OR 128) AND 128 \<noteq> 0" and "b AND 127 = b" and "b AND 128 = 0"
proof -
  have "unat b \<in> set [0..<128]" using assms by simp
  then have "let c = of_nat (unat b) :: u8 in
    (c OR 128) AND 127 = c \<and> (c OR 128) AND 128 \<noteq> 0 \<and> c AND 127 = c \<and> c AND 128 = 0"
    using low7_table unfolding list_all_iff by blast
  then show "(b OR 128) AND 127 = b" and "(b OR 128) AND 128 \<noteq> 0" and "b AND 127 = b" and "b AND 128 = 0"
    by (simp_all add: Let_def)
qed

lemma and_127: "(v :: u64) AND 127 = take_bit 7 v"
  by (simp add: take_bit_eq_mask mask_eq_exp_minus_1)

lemma unat_and_127: "unat ((v :: u64) AND 127) < 128"
proof -
  have "unat (v AND 127) = unat v mod 2 ^ 7"
    unfolding and_127 by (metis unsigned_take_bit_eq take_bit_eq_mod)
  then show ?thesis by simp
qed

lemma unat_low_byte: "unat (ucast ((v :: u64) AND 127) :: u8) = unat (v AND 127)"
  using unat_and_127 [of v] by (simp add: unsigned_ucast_eq take_bit_nat_eq_self)

lemma ucast_low_byte: "(ucast (ucast ((v :: u64) AND 127) :: u8) :: u64) = v AND 127"
  unfolding and_127 by (rule bit_word_eqI) (auto simp: bit_simps)

lemma varint_split: "push_bit s (v :: u64) = push_bit s (v AND 127) OR push_bit (s + 7) (drop_bit 7 v)"
proof (rule bit_word_eqI)
  fix n :: nat assume "n < LENGTH(64)"
  show "bit (push_bit s v) n = bit (push_bit s (v AND 127) OR push_bit (s + 7) (drop_bit 7 v)) n"
    unfolding and_127 by (cases "s + 7 \<le> n") (auto simp: bit_simps)
qed

lemma read_write_varint_loop:
  assumes "unat v < 2 ^ (64 - s)" and "s < 64"
  shows "read_varint_loop (pre @ write_varint v @ rest) (length pre) res s =
    Inr (res OR push_bit s v, length pre + length (write_varint v))"
  using assms
proof (induction v arbitrary: pre res s rule: write_varint.induct)
  case (1 v)
  define b where "b = (ucast (v AND 127) :: u8)"
  have b: "unat b < 128" unfolding b_def unat_low_byte by (rule unat_and_127)
  define low where "low = v AND 127"
  have ub: "(ucast b :: u64) = low" unfolding b_def low_def by (rule ucast_low_byte)
  have split: "push_bit s low OR push_bit (s + 7) (drop_bit 7 v) = push_bit s v"
    unfolding low_def by (rule varint_split [symmetric])
  show ?case
  proof (cases "drop_bit 7 v = 0")
    case True
    then have w: "write_varint v = [b]" by (subst write_varint.simps) (simp add: b_def)
    have "push_bit s low = push_bit s v" using split True by simp
    then show ?thesis
      by (subst read_varint_loop.simps) (simp add: w low7 [OF b] ub nth_append)
  next
    case False
    have w: "write_varint v = (b OR 128) # write_varint (drop_bit 7 v)"
      using False by (subst write_varint.simps) (simp add: b_def)
    have dv: "unat (drop_bit 7 v) = unat v div 2 ^ 7" by (metis unat_drop_bit_eq drop_bit_eq_div)
    have big: "2 ^ 7 \<le> unat v" using False dv by (metis div_less not_less unsigned_eq_0_iff)
    have s7: "s + 7 < 64"
    proof (rule ccontr)
      assume "\<not> s + 7 < 64"
      then have "(2 :: nat) ^ (64 - s) \<le> 2 ^ 7" by (intro power_increasing) auto
      with big "1.prems"(1) show False by linarith
    qed
    have "unat (drop_bit 7 v) < 2 ^ (64 - (s + 7))"
    proof -
      have "64 - s = (64 - (s + 7)) + 7" using s7 by simp
      then have "(2 :: nat) ^ (64 - s) = 2 ^ (64 - (s + 7)) * 2 ^ 7" by (metis power_add)
      then show ?thesis unfolding dv using "1.prems"(1) by (intro less_mult_imp_div_less) simp
    qed
    from "1.IH" [OF refl refl False this s7, of "pre @ [b OR 128]" "res OR push_bit s low"]
    show ?thesis
      using s7 by (subst read_varint_loop.simps) (simp add: w low7 [OF b] ub split nth_append or.assoc)
  qed
qed

lemma read_write_varint:
  "read_varint (pre @ write_varint v @ rest) (length pre) = Inr (v, length pre + length (write_varint v))"
  using read_write_varint_loop [of v 0 pre rest 0] unsigned_less [of v, where ?'a = nat]
  by (simp add: read_varint_def)

lemma read_write_varint_at:
  assumes "data = pre @ write_varint v @ rest" and "pos = length pre" and "pos' = pos + length (write_varint v)"
  shows "read_varint data pos = Inr (v, pos')"
  using read_write_varint [of pre v rest] by (simp add: assms)

section \<open>Frames round trip\<close>

definition good_object :: "ocodec \<Rightarrow> oid \<times> bytes \<Rightarrow> bool" where
  "good_object C ic \<longleftrightarrow> from_content C (snd ic) = fst ic \<and> length (snd ic) \<le> MAX_OBJECT_LEN"

definition frames_of :: "zstd \<Rightarrow> (oid \<times> bytes) list \<Rightarrow> bytes list \<Rightarrow> bool" where
  "frames_of Z objs fs \<longleftrightarrow> list_all2 (\<lambda>ic f. encode_frame Z (fst ic) (snd ic) = Inr f) objs fs"

lemma encode_frame_parts:
  assumes "zstd_ok Z" and "encode_frame Z i c = Inr f" and "length c \<le> MAX_OBJECT_LEN"
  obtains z ul sl where
    "f = RECORD_OBJECT # as_bytes i @ write_varint ul @ write_varint sl @ z"
    and "unat ul = length c" and "unat sl = length z"
    and "zstd_decode_bounded Z z ul = Inr c"
proof -
  obtain z where z: "z_enc Z c = Inr z"
    and f: "f = RECORD_OBJECT # as_bytes i @ write_varint (of_nat (length c)) @ write_varint (of_nat (length z)) @ z"
    using assms(2) by (auto simp: encode_frame_def split: sum.splits)
  from assms(1) z have zz: "length z < 2 ^ 64" "z_open Z z = None" "z_window Z z = None"
    "\<And>n. z_read Z z n = Inr (take n c)"
    unfolding zstd_ok_def by blast+
  have c64: "length c < 2 ^ 64" using assms(3) by (simp add: MAX_OBJECT_LEN_def)
  have ul: "unat (of_nat (length c) :: u64) = length c"
    using c64 by (rule unat_of_nat_u64)
  have sl: "unat (of_nat (length z) :: u64) = length z"
    using zz(1) by (rule unat_of_nat_u64)
  have "unat ((of_nat (length c) :: u64) + 1) = Suc (length c)"
  proof -
    have "(of_nat (length c) :: u64) + 1 = of_nat (Suc (length c))" by simp
    moreover have "Suc (length c) < 2 ^ 64" using assms(3) by (simp add: MAX_OBJECT_LEN_def)
    ultimately show ?thesis by (simp only: unat_of_nat_u64)
  qed
  then have "zstd_decode_bounded Z z (of_nat (length c)) = Inr c"
    by (simp add: zstd_decode_bounded_def zz)
  with that [OF f ul sl] show ?thesis .
qed

lemma drop_at: "data = pre @ rest \<Longrightarrow> n = length pre \<Longrightarrow> drop n data = rest"
  by simp

lemma decode_encode_frame:
  assumes "zstd_ok Z" and "encode_frame Z i c = Inr f" and "good_object C (i, c)"
  shows "decode_frame C Z f = Inr (i, c)"
proof -
  have c: "length c \<le> MAX_OBJECT_LEN" "from_content C c = i" using assms(3) by (auto simp: good_object_def)
  from encode_frame_parts [OF assms(1,2) c(1)] obtain z ul sl where
    f: "f = RECORD_OBJECT # as_bytes i @ write_varint ul @ write_varint sl @ z"
    and ul: "unat ul = length c" and sl: "unat sl = length z" and dec: "zstd_decode_bounded Z z ul = Inr c" .
  let ?p1 = "33 + length (write_varint ul)" and ?p2 = "33 + length (write_varint ul) + length (write_varint sl)"
  have r1: "read_varint f 33 = Inr (ul, ?p1)"
    by (rule read_write_varint_at [where pre = "RECORD_OBJECT # as_bytes i"]) (simp_all add: f)
  have r2: "read_varint f ?p1 = Inr (sl, ?p2)"
    by (rule read_write_varint_at [where pre = "RECORD_OBJECT # as_bytes i @ write_varint ul"]) (simp_all add: f)
  have len: "length f = ?p2 + length z" by (simp add: f)
  have dr: "drop ?p2 f = z"
    by (rule drop_at [where pre = "RECORD_OBJECT # as_bytes i @ write_varint ul @ write_varint sl"]) (simp_all add: f)
  have cl: "(of_nat (length c) :: u64) = ul" using ul by (metis of_nat_unat ucast_id)
  have idb: "take 32 (drop 1 f) = as_bytes i" by (simp add: f)
  have hd: "f \<noteq> []" "f ! 0 = RECORD_OBJECT" by (simp_all add: f)
  show ?thesis
    unfolding decode_frame_def Let_def idb
    using c ul sl dec by (simp add: hd r1 r2 len dr cl)
qed

lemma frame_bounds_at:
  assumes "zstd_ok Z" and "encode_frame Z i c = Inr f" and "length c \<le> MAX_OBJECT_LEN"
  shows "frame_bounds (pre @ f @ rest) (length pre) = Inr (length pre + length f)"
proof -
  from encode_frame_parts [OF assms] obtain z ul sl where
    f: "f = RECORD_OBJECT # as_bytes i @ write_varint ul @ write_varint sl @ z"
    and sl: "unat sl = length z" .
  let ?b = "pre @ f @ rest"
  let ?p1 = "length pre + 33 + length (write_varint ul)"
  let ?p2 = "length pre + 33 + length (write_varint ul) + length (write_varint sl)"
  have r1: "read_varint ?b (length pre + 33) = Inr (ul, ?p1)"
    by (rule read_write_varint_at [where pre = "pre @ RECORD_OBJECT # as_bytes i"]) (simp_all add: f)
  have r2: "read_varint ?b ?p1 = Inr (sl, ?p2)"
    by (rule read_write_varint_at [where pre = "pre @ RECORD_OBJECT # as_bytes i @ write_varint ul"])
      (simp_all add: f)
  have hd: "?b ! length pre = RECORD_OBJECT" by (simp add: f nth_append)
  have len: "length f = 33 + length (write_varint ul) + length (write_varint sl) + length z" by (simp add: f)
  show ?thesis
    unfolding frame_bounds_def using r1 r2 hd sl by (simp add: len)
qed

fun total_len :: "(oid \<times> bytes) list \<Rightarrow> nat" where
  "total_len [] = 0"
| "total_len (ic # objs) = length (snd ic) + total_len objs"

lemma decode_frames_objs:
  assumes "zstd_ok Z" and "frames_of Z objs fs" and "list_all (good_object C) objs"
    and "unat tot + total_len objs \<le> MAX_PACK_TOTAL_LEN"
  shows "decode_frames C Z (pre @ concat fs) (length pre) tot out = Inr (out @ objs)"
  using assms(2-4)
proof (induction objs arbitrary: fs pre tot out)
  case Nil
  then show ?case by (subst decode_frames.simps) (simp add: frames_of_def)
next
  case (Cons ic objs)
  obtain i c where ic: "ic = (i, c)" by (cases ic)
  obtain f fs' where fs: "fs = f # fs'" and f: "encode_frame Z i c = Inr f" and fs': "frames_of Z objs fs'"
    using Cons.prems(1) by (auto simp: frames_of_def ic list_all2_Cons1)
  have good: "good_object C (i, c)" and rest: "list_all (good_object C) objs"
    using Cons.prems(2) by (auto simp: ic)
  have lc: "length c \<le> MAX_OBJECT_LEN" using good by (simp add: good_object_def)
  define body where "body = pre @ concat fs"
  have bounds: "frame_bounds body (length pre) = Inr (length pre + length f)"
    using frame_bounds_at [OF assms(1) f lc, of pre "concat fs'"] by (simp add: fs body_def)
  have "f \<noteq> []" using f by (auto simp: encode_frame_def split: sum.splits)
  then have pos: "length pre < length body" by (simp add: fs body_def)
  let ?tot = "saturating_add tot (of_nat (length c))"
  have "length c < 2 ^ 64" using lc by (simp add: MAX_OBJECT_LEN_def)
  then have "unat (of_nat (length c) :: u64) = length c" by (rule unat_of_nat_u64)
  moreover have sum: "unat tot + length c + total_len objs \<le> MAX_PACK_TOTAL_LEN"
    using Cons.prems(3) by (simp add: ic)
  ultimately have tot: "unat ?tot = unat tot + length c"
    unfolding unat_saturating_add by (simp add: MAX_PACK_TOTAL_LEN_def)
  have frame: "take (length f) (drop (length pre) body) = f" by (simp add: fs body_def)
  have "decode_frames C Z body (length pre) tot out =
      decode_frames C Z body (length pre + length f) ?tot (out @ [(i, c)])"
    using pos sum tot
    by (subst decode_frames.simps) (simp add: bounds frame decode_encode_frame [OF assms(1) f good])
  also have "\<dots> = Inr ((out @ [(i, c)]) @ objs)"
    using Cons.IH [OF fs' rest, of ?tot "pre @ f" "out @ [(i, c)]"] sum tot by (simp add: fs body_def)
  finally show ?case by (simp add: ic body_def)
qed

subsection \<open>The writer\<close>

text \<open>The index entries of frames laid out one after another from \<open>off\<close>.\<close>

fun entries_from :: "nat \<Rightarrow> (oid \<times> bytes) list \<Rightarrow> bytes list \<Rightarrow> pack_entry list" where
  "entries_from off ((i, c) # objs) (f # fs) =
     \<lparr>pe_id = i, pe_offset = of_nat off, pe_len = of_nat (length f)\<rparr> # entries_from (off + length f) objs fs"
| "entries_from off _ _ = []"

lemma finish_step_eq:
  "finish_step Z (i, c) (buf, es) = bind_res (encode_frame Z i c) (\<lambda>f. Inr (buf @ f,
     es @ [\<lparr>pe_id = i, pe_offset = of_nat (length buf), pe_len = of_nat (length f)\<rparr>]))"
  by (simp add: finish_step_def)

lemma finish_fold:
  assumes "fold_res (finish_step Z) objs (buf, es) = Inr (buf', es')"
  shows "\<exists>fs. frames_of Z objs fs \<and> buf' = buf @ concat fs \<and> es' = es @ entries_from (length buf) objs fs"
  using assms
proof (induction objs arbitrary: buf es)
  case Nil
  then show ?case by (simp add: frames_of_def)
next
  case (Cons ic objs)
  obtain i c where ic: "ic = (i, c)" by (cases ic)
  from Cons.prems obtain f where f: "encode_frame Z i c = Inr f" and
    rest: "fold_res (finish_step Z) objs (buf @ f,
      es @ [\<lparr>pe_id = i, pe_offset = of_nat (length buf), pe_len = of_nat (length f)\<rparr>]) = Inr (buf', es')"
    by (auto simp: finish_step_eq ic bind_res_Inr)
  from Cons.IH [OF rest] obtain fs where "frames_of Z objs fs" "buf' = buf @ f @ concat fs"
    "es' = es @ \<lparr>pe_id = i, pe_offset = of_nat (length buf), pe_len = of_nat (length f)\<rparr>
       # entries_from (length buf + length f) objs fs" by auto
  with f show ?case by (intro exI [of _ "f # fs"]) (simp add: frames_of_def ic)
qed

lemma from_le_le_bytes: "from_le (le_bytes k n) = n mod 256 ^ k"
  by (simp add: from_le_def le_bytes_def from_be_be_bytes)

lemma length_le_bytes [simp]: "length (le_bytes k n) = k"
  by (simp add: le_bytes_def)

lemma length_magics [simp]: "length PACK_MAGIC = 8" "length END_MAGIC = 8" "length IDX_MAGIC = 8"
  by (simp_all add: pack_consts)

lemma length_pack_header [simp]: "length (pack_header n) = 32"
  by (simp add: pack_header_def)

definition pack_limits :: "ocodec \<Rightarrow> (oid \<times> bytes) list \<Rightarrow> bool" where
  "pack_limits C objs \<longleftrightarrow> list_all (good_object C) objs \<and> length objs \<le> MAX_PACK_OBJECTS \<and>
     total_len objs \<le> MAX_PACK_TOTAL_LEN"

lemma decode_pack_of_frames:
  assumes "zstd_ok Z" and "frames_of Z objs fs" and "pack_limits C objs"
    and "body = pack_header (length objs) @ concat fs"
  shows "decode_pack C Z (body @ END_MAGIC @ as_bytes (oc_hash C body)) = Inr objs"
proof -
  let ?p = "body @ END_MAGIC @ as_bytes (oc_hash C body)"
  have lim: "list_all (good_object C) objs" "length objs \<le> MAX_PACK_OBJECTS"
    "total_len objs \<le> MAX_PACK_TOTAL_LEN"
    using assms(3) by (auto simp: pack_limits_def)
  have n: "length objs < 256 ^ 8" using lim(2) by (simp add: MAX_PACK_OBJECTS_def)
  have h: "take 8 ?p = PACK_MAGIC" "take 4 (drop 8 ?p) = le_bytes 4 PACK_VERSION"
    "take 8 (drop 16 ?p) = le_bytes 8 (length objs)"
    by (simp_all add: assms(4) pack_header_def)
  have len: "length ?p = length body + 40" "32 \<le> length body" by (simp_all add: assms(4))
  have split: "take (length ?p - TRAILER_LEN) ?p = body" "drop (length ?p - TRAILER_LEN) ?p = END_MAGIC @ as_bytes (oc_hash C body)"
    by (simp_all add: TRAILER_LEN_def)
  have frames: "decode_frames C Z body HEADER_LEN 0 [] = Inr objs"
    using decode_frames_objs [OF assms(1,2) lim(1), of 0 "pack_header (length objs)" "[]"] lim(3)
    by (simp add: assms(4) HEADER_LEN_def)
  have v: "from_le (le_bytes 4 PACK_VERSION) = PACK_VERSION" by (simp add: from_le_le_bytes PACK_VERSION_def)
  have cnt: "from_le (le_bytes 8 (length objs)) = length objs" using n by (simp only: from_le_le_bytes mod_less)
  show ?thesis
    unfolding decode_pack_def Let_def h split
    using len lim(2) by (simp add: v cnt frames [unfolded HEADER_LEN_def] HEADER_LEN_def TRAILER_LEN_def)
qed

section \<open>What a verified pack guarantees\<close>

text \<open>\<^verbatim>\<open>Read::take(n)\<close> yields at most \<open>n\<close> bytes.\<close>

definition zstd_take_ok :: "zstd \<Rightarrow> bool" where
  "zstd_take_ok Z \<longleftrightarrow> (\<forall>z n x. z_read Z z n = Inr x \<longrightarrow> length x \<le> n)"

lemma zstd_decode_bounded_length:
  assumes "zstd_take_ok Z" and "zstd_decode_bounded Z z ulen = Inr c" and "unat ulen \<le> MAX_OBJECT_LEN"
  shows "length c \<le> Suc (unat ulen)"
proof -
  have "z_read Z z (unat (ulen + 1)) = Inr c"
    using assms(2) by (auto simp: zstd_decode_bounded_def split: option.splits sum.splits)
  then have "length c \<le> unat (ulen + 1)" using assms(1) by (auto simp: zstd_take_ok_def)
  moreover have "unat ulen + unat (1 :: u64) < 2 ^ LENGTH(64)" using assms(3) by (simp add: MAX_OBJECT_LEN_def)
  then have "unat (ulen + 1) = unat ulen + unat (1 :: u64)" by (rule unat_add_lem [THEN iffD1])
  ultimately show ?thesis by simp
qed

lemma decode_frame_good:
  assumes "zstd_take_ok Z" and "decode_frame C Z f = Inr ic"
  shows "good_object C ic"
proof -
  obtain i c where ic: "ic = (i, c)" by (cases ic)
  from assms(2) obtain ulen :: u64 and z where h: "from_content C c = i" "unat ulen \<le> MAX_OBJECT_LEN"
    "of_nat (length c) = ulen" "zstd_decode_bounded Z z ulen = Inr c"
    unfolding decode_frame_def ic Let_def
    by (auto simp: bind_res_Inr not_less split: if_splits)
  have "length c \<le> Suc MAX_OBJECT_LEN"
    using zstd_decode_bounded_length [OF assms(1) h(4,2)] h(2) by simp
  then have "length c < 2 ^ 64" by (simp add: MAX_OBJECT_LEN_def)
  then have "unat ulen = length c" using h(3) unat_of_nat_u64 by metis
  with h show ?thesis by (simp add: good_object_def ic)
qed

lemma total_len_append [simp]: "total_len (xs @ ys) = total_len xs + total_len ys"
  by (induction xs) auto

lemma decode_frames_good:
  assumes "zstd_take_ok Z" and "decode_frames C Z body pos tot out = Inr res"
    and "list_all (good_object C) out" and "unat tot = total_len out" and "unat tot \<le> MAX_PACK_TOTAL_LEN"
  shows "list_all (good_object C) res \<and> total_len res \<le> MAX_PACK_TOTAL_LEN"
  using assms
proof (induction C Z body pos tot out rule: decode_frames.induct)
  case (1 C Z body pos tot out)
  show ?case
  proof (cases "length body \<le> pos")
    case True
    then have "decode_frames C Z body pos tot out = Inr out" by (subst decode_frames.simps) simp
    with "1.prems" show ?thesis by simp
  next
    case False
    from "1.prems"(2) obtain e i c where e: "frame_bounds body pos = Inr e"
      and f: "decode_frame C Z (take (e - pos) (drop pos body)) = Inr (i, c)"
      and le: "\<not> unat (saturating_add tot (of_nat (length c))) > MAX_PACK_TOTAL_LEN"
      and rest: "decode_frames C Z body e (saturating_add tot (of_nat (length c))) (out @ [(i, c)]) = Inr res"
      by (subst (asm) decode_frames.simps) (auto simp: False bind_res_Inr Let_def split: if_splits)
    have good: "good_object C (i, c)" by (rule decode_frame_good [OF "1.prems"(1) f])
    then have "length c < 2 ^ 64" by (simp add: good_object_def MAX_OBJECT_LEN_def)
    then have "unat (of_nat (length c) :: u64) = length c" by (rule unat_of_nat_u64)
    with le have tot: "unat (saturating_add tot (of_nat (length c))) = unat tot + length c"
      unfolding unat_saturating_add by (auto simp: MAX_PACK_TOTAL_LEN_def)
    show ?thesis
      using "1.IH" [OF False e f refl refl le "1.prems"(1) rest] "1.prems" good tot le by simp
  qed
qed

lemma decode_pack_limits:
  assumes "zstd_take_ok Z" and "decode_pack C Z pack = Inr objs"
  shows "pack_limits C objs"
proof -
  from assms(2) obtain body where "decode_frames C Z body HEADER_LEN 0 [] = Inr objs"
    and "length objs \<le> MAX_PACK_OBJECTS"
    unfolding decode_pack_def Let_def by (auto simp: bind_res_Inr split: if_splits)
  with decode_frames_good [OF assms(1), of C body HEADER_LEN 0 "[]" objs] show ?thesis
    by (simp add: pack_limits_def)
qed

lemma entries_read:
  assumes "zstd_ok Z" and "frames_of Z objs fs" and "list_all (good_object C) objs"
    and "length (pre @ concat fs @ rest) < 2 ^ 64"
  shows "list_all2 (\<lambda>e ic. pe_id e = fst ic \<and>
      read_frame_at C Z (pre @ concat fs @ rest) (pe_offset e) (pe_len e) = Inr ic)
    (entries_from (length pre) objs fs) objs"
  using assms(2-4)
proof (induction objs arbitrary: fs pre)
  case Nil
  then show ?case by simp
next
  case (Cons ic objs)
  obtain i c where ic: "ic = (i, c)" by (cases ic)
  obtain f fs' where fs: "fs = f # fs'" and f: "encode_frame Z i c = Inr f" and fs': "frames_of Z objs fs'"
    using Cons.prems(1) by (auto simp: frames_of_def ic list_all2_Cons1)
  have good: "good_object C (i, c)" using Cons.prems(2) by (simp add: ic)
  have "unat (of_nat (length pre) :: u64) = length pre" "unat (of_nat (length f) :: u64) = length f"
    using Cons.prems(3) by (auto simp: fs intro!: unat_of_nat_u64)
  then have "read_frame_at C Z (pre @ concat fs @ rest) (of_nat (length pre)) (of_nat (length f)) = Inr (i, c)"
    using decode_encode_frame [OF assms(1) f good] by (simp add: read_frame_at_def fs)
  moreover have "list_all2 (\<lambda>e ic. pe_id e = fst ic \<and>
      read_frame_at C Z (pre @ concat fs @ rest) (pe_offset e) (pe_len e) = Inr ic)
    (entries_from (length pre + length f) objs fs') objs"
    using Cons.IH [OF fs', of "pre @ f"] Cons.prems(2,3) by (simp add: fs)
  ultimately show ?case by (simp add: ic fs)
qed

lemma finish_total:
  assumes "\<forall>ic \<in> set objs. \<exists>z. z_enc Z (snd ic) = Inr z"
  shows "\<exists>fs. frames_of Z objs fs \<and>
    fold_res (finish_step Z) objs (buf, es) = Inr (buf @ concat fs, es @ entries_from (length buf) objs fs)"
proof -
  have "\<exists>st. fold_res (finish_step Z) objs (buf, es) = Inr st"
    using assms
  proof (induction objs arbitrary: buf es)
    case (Cons ic objs)
    obtain i c where ic: "ic = (i, c)" by (cases ic)
    obtain f where "encode_frame Z i c = Inr f" using Cons.prems by (auto simp: ic encode_frame_def)
    with Cons show ?case by (simp add: ic finish_step_eq)
  qed simp
  then show ?thesis using finish_fold by (metis prod.exhaust)
qed

text \<open>C32. A pack holds exactly what was put in it: when zstd decompresses what it compresses and the
  objects are stored under the hash of their bytes and within the limits of the reader (128 MiB for an object, 1 GiB and a bounded number of objects for a pack), the writer produces a
  pack that the verifying reader decodes to the same objects in the same order, and, for a pack shorter than 2 to the 64 bytes, every index entry
  it produces gives random access to its object. Beyond these limits the writer succeeds and the reader refuses.\<close>

theorem pack_roundtrip:
  assumes "zstd_ok Z" and "pack_limits C objs" and "\<forall>ic \<in> set objs. \<exists>z. z_enc Z (snd ic) = Inr z"
  shows "\<exists>pack es digest. finish C Z objs = Inr (pack, es, digest) \<and> decode_pack C Z pack = Inr objs \<and>
    (length pack < 2 ^ 64 \<longrightarrow>
      list_all2 (\<lambda>e ic. pe_id e = fst ic \<and> read_frame_at C Z pack (pe_offset e) (pe_len e) = Inr ic) es objs)"
proof -
  from finish_total [OF assms(3), where buf = "pack_header (length objs)" and es = "[]"] obtain fs where
    fs: "frames_of Z objs fs" and fold: "fold_res (finish_step Z) objs (pack_header (length objs), []) =
      Inr (pack_header (length objs) @ concat fs, entries_from 32 objs fs)" by auto
  define body where "body = pack_header (length objs) @ concat fs"
  let ?pack = "body @ END_MAGIC @ as_bytes (oc_hash C body)"
  have fin: "finish C Z objs = Inr (?pack, entries_from 32 objs fs, oc_hash C body)"
    by (simp add: finish_def fold body_def Let_def)
  have good: "list_all (good_object C) objs" using assms(2) by (simp add: pack_limits_def)
  have "decode_pack C Z ?pack = Inr objs"
    using decode_pack_of_frames [OF assms(1) fs assms(2) body_def] .
  moreover have "list_all2 (\<lambda>e ic. pe_id e = fst ic \<and> read_frame_at C Z ?pack (pe_offset e) (pe_len e) = Inr ic)
      (entries_from 32 objs fs) objs" if "length ?pack < 2 ^ 64"
    using entries_read [OF assms(1) fs good, of "pack_header (length objs)" "END_MAGIC @ as_bytes (oc_hash C body)"] that
    by (simp add: body_def)
  ultimately show ?thesis using fin by blast
qed

text \<open>C33. Whatever bytes arrive, a pack that the reader accepts contains only objects stored under the
  hash of their own bytes, none longer than 128 MiB, at most eight million of them and at most 1 GiB
  in all: a damaged, mislabelled or oversized pack, or a decompression bomb, is rejected.\<close>

theorem pack_integrity:
  assumes "zstd_take_ok Z" and "decode_pack C Z pack = Inr objs"
  shows "(\<forall>(i, c) \<in> set objs. from_content C c = i \<and> length c \<le> 128 * 1024 * 1024) \<and>
    length objs \<le> 8000000 \<and> total_len objs \<le> 1024 * 1024 * 1024"
  using decode_pack_limits [OF assms]
  by (auto simp: pack_limits_def list_all_iff good_object_def MAX_OBJECT_LEN_def MAX_PACK_OBJECTS_def
      MAX_PACK_TOTAL_LEN_def)

section \<open>The index finds every object\<close>

lemma first_byte_mono: "a \<le> b \<Longrightarrow> as_bytes a ! 0 \<le> as_bytes b ! 0"
proof -
  assume "a \<le> b"
  then have "as_bytes a \<le> as_bytes b" using as_bytes_less [of a b] by (auto simp: order_le_less)
  moreover obtain x xs where "as_bytes a = x # xs" by (cases "as_bytes a") (use length_as_bytes [of a] in auto)
  moreover obtain y ys where "as_bytes b = y # ys" by (cases "as_bytes b") (use length_as_bytes [of b] in auto)
  ultimately show ?thesis by auto
qed

lemma binary_search_correct:
  assumes "sorted_wrt (<) (map pe_id es)" and "hi \<le> length es"
  shows "case binary_search es i lo hi of
      None \<Rightarrow> \<forall>k. lo \<le> k \<and> k < hi \<longrightarrow> pe_id (es ! k) \<noteq> i
    | Some k \<Rightarrow> lo \<le> k \<and> k < hi \<and> pe_id (es ! k) = i"
  using assms
proof (induction es i lo hi rule: binary_search.induct)
  case (1 es i lo hi)
  let ?m = "(lo + hi) div 2"
  have mono: "pe_id (es ! j) < pe_id (es ! k)" if "j < k" "k < length es" for j k
    using "1.prems"(1) that by (simp add: sorted_wrt_iff_nth_less)
  show ?case
  proof (cases "hi \<le> lo")
    case True
    then show ?thesis by (subst binary_search.simps) auto
  next
    case False
    then have m: "lo \<le> ?m" "?m < hi" by auto
    consider "pe_id (es ! ?m) = i" | "pe_id (es ! ?m) < i" | "i < pe_id (es ! ?m)" by (rule linorder_cases)
    then show ?thesis
    proof cases
      case 1
      then show ?thesis using False m by (subst binary_search.simps) simp
    next
      case 2
      have eq: "binary_search es i lo hi = binary_search es i (?m + 1) hi"
        using False 2 by (subst binary_search.simps) (auto simp: Let_def)
      have low: "pe_id (es ! k) \<noteq> i" if "k \<le> ?m" for k
        using mono [of k ?m] that 2 m "1.prems"(2) by (cases "k = ?m") (auto dest: order_less_trans)
      from "1.IH"(1) [OF False refl _ 2] 2 "1.prems" eq low m show ?thesis
        by (auto split: option.splits) (metis not_less_eq_eq order_less_irrefl)
    next
      case 3
      have eq: "binary_search es i lo hi = binary_search es i lo ?m"
        using False 3 by (subst binary_search.simps) (auto simp: Let_def)
      have high: "pe_id (es ! k) \<noteq> i" if "?m \<le> k" "k < hi" for k
        using mono [of ?m k] that 3 "1.prems"(2) by (cases "k = ?m") (auto dest: order_less_trans)
      have nl: "\<not> pe_id (es ! ?m) < i" using 3 by simp
      have ne: "pe_id (es ! ?m) \<noteq> i" using 3 by simp
      have IH: "case binary_search es i lo ?m of
          None \<Rightarrow> \<forall>k. lo \<le> k \<and> k < ?m \<longrightarrow> pe_id (es ! k) \<noteq> i
        | Some k \<Rightarrow> lo \<le> k \<and> k < ?m \<and> pe_id (es ! k) = i"
        using "1.IH"(2) [OF False refl ne nl "1.prems"(1)] m "1.prems"(2) by simp
      show ?thesis
      proof (cases "binary_search es i lo ?m")
        case None
        with IH have "pe_id (es ! k) \<noteq> i" if "lo \<le> k" "k < hi" for k
          using that high [of k] by (cases "k < ?m") auto
        with None eq show ?thesis by simp
      next
        case (Some k)
        with IH eq m show ?thesis by simp
      qed
    qed
  qed
qed

lemma takeWhile_weaker:
  assumes "\<And>x. P x \<Longrightarrow> Q x"
  shows "takeWhile Q xs = takeWhile P xs @ takeWhile Q (dropWhile P xs)"
  using assms by (induction xs) auto

text \<open>The entries the two fanout bounds cut out are those with the first byte of the id.\<close>

lemma lookup_slice:
  fixes i :: oid and ix :: pack_index
  defines "first \<equiv> as_bytes i ! 0"
  defines "lo \<equiv> (if first = 0 then 0 else fanout_at ix (first - 1))"
  assumes "sorted_wrt (<) (map pe_id (ix_entries ix))"
  shows "\<exists>A M D. ix_entries ix = A @ M @ D \<and> take (fanout_at ix first - lo) (drop lo (ix_entries ix)) = M \<and>
    (\<forall>e \<in> set A \<union> set D. pe_id e \<noteq> i)"
proof -
  let ?es = "ix_entries ix" and ?fb = "\<lambda>e. as_bytes (pe_id e) ! 0"
  define P where "P e \<longleftrightarrow> first \<noteq> 0 \<and> ?fb e \<le> first - 1" for e :: pack_entry
  define Q where "Q e \<longleftrightarrow> ?fb e \<le> first" for e :: pack_entry
  have lt: "?fb e < first" if "?fb e \<le> first - 1" "first \<noteq> 0" for e :: pack_entry
  proof -
    have "first - 1 < first" using that(2) by (simp add: word_less_nat_alt unat_minus_one unat_gt_0)
    with that(1) show ?thesis by (rule order_le_less_trans)
  qed
  have PQ: "P e \<Longrightarrow> Q e" for e using lt [of e] by (auto simp: P_def Q_def)
  let ?A = "takeWhile P ?es" and ?R = "dropWhile P ?es"
  let ?M = "takeWhile Q ?R" and ?D = "dropWhile Q ?R"
  have "takeWhile (\<lambda>e. False) ?es = []" by (cases ?es) auto
  then have lo: "lo = length ?A" by (auto simp: lo_def fanout_at_def P_def [abs_def])
  have hi: "fanout_at ix first = length ?A + length ?M"
    using takeWhile_weaker [of P Q ?es, OF PQ] by (simp add: fanout_at_def Q_def [abs_def, symmetric])
  have A: "pe_id e \<noteq> i" if "e \<in> set ?A" for e
    using set_takeWhileD [OF that] lt [of e] by (auto simp: P_def first_def)
  have D: "pe_id e \<noteq> i" if e: "e \<in> set ?D" for e
  proof -
    obtain d ds where d: "?D = d # ds" using e by (cases ?D) auto
    then have "\<not> Q d" by (metis hd_dropWhile list.distinct(1) list.sel(1))
    have "sorted_wrt (<) (map pe_id ?D)"
      using assms(3) by (metis dropWhile_eq_drop drop_map sorted_wrt_drop)
    then have "pe_id d \<le> pe_id e" using e by (auto simp: d)
    then have "?fb d \<le> ?fb e" by (rule first_byte_mono)
    with \<open>\<not> Q d\<close> show ?thesis by (auto simp: Q_def first_def)
  qed
  have "ix_entries ix = ?A @ ?M @ ?D" by simp
  moreover have "take (fanout_at ix first - lo) (drop lo ?es) = ?M"
    by (simp add: hi lo dropWhile_eq_drop [symmetric] takeWhile_eq_take [symmetric])
  ultimately show ?thesis using A D by blast
qed

definition ix_sorted :: "pack_index \<Rightarrow> bool" where
  "ix_sorted ix \<longleftrightarrow> sorted_wrt (<) (ix_ids ix)"

lemma ix_build_sorted:
  assumes "distinct (map pe_id es)"
  shows "ix_sorted (ix_build es d)"
proof -
  have "sorted (map pe_id (sort_key pe_id es))" by (simp add: sorted_sort_key)
  moreover have "card (set (map pe_id (sort_key pe_id es))) = length (map pe_id (sort_key pe_id es))"
    using distinct_card [OF assms] by simp
  then have "distinct (map pe_id (sort_key pe_id es))" by (rule card_distinct)
  ultimately show ?thesis
    by (simp add: ix_sorted_def ix_ids_def ix_build_def strict_sorted_iff)
qed

lemma ix_lookup_iff:
  assumes "ix_sorted ix"
  shows "ix_lookup ix i = Some (off, len) \<longleftrightarrow>
    \<lparr>pe_id = i, pe_offset = off, pe_len = len\<rparr> \<in> set (ix_entries ix)"
proof -
  have sorted: "sorted_wrt (<) (map pe_id (ix_entries ix))"
    using assms by (simp add: ix_sorted_def ix_ids_def)
  let ?first = "as_bytes i ! 0"
  let ?lo = "if ?first = 0 then 0 else fanout_at ix (?first - 1)"
  from lookup_slice [OF sorted, of i] obtain A M D where
    split: "ix_entries ix = A @ M @ D" and M: "take (fanout_at ix ?first - ?lo) (drop ?lo (ix_entries ix)) = M"
    and out: "\<forall>e \<in> set A \<union> set D. pe_id e \<noteq> i" by blast
  have sM: "sorted_wrt (<) (map pe_id M)" using sorted split by (simp add: sorted_wrt_append)
  have lk: "ix_lookup ix i =
      map_option (\<lambda>k. (pe_offset (M ! k), pe_len (M ! k))) (binary_search M i 0 (length M))"
    unfolding ix_lookup_def Let_def M ..
  note bs = binary_search_correct [OF sM order_refl, where i = i and lo = 0]
  have eq: "(e :: pack_entry) = \<lparr>pe_id = i, pe_offset = pe_offset e, pe_len = pe_len e\<rparr>" if "pe_id e = i" for e
    using that by (cases e) auto
  have mem: "\<lparr>pe_id = i, pe_offset = off, pe_len = len\<rparr> \<in> set (ix_entries ix) \<longleftrightarrow>
      \<lparr>pe_id = i, pe_offset = off, pe_len = len\<rparr> \<in> set M"
    using out split by force
  show ?thesis
  proof (cases "binary_search M i 0 (length M)")
    case None
    with bs have "\<forall>e \<in> set M. pe_id e \<noteq> i" by (auto simp: in_set_conv_nth)
    then show ?thesis using None by (auto simp: lk mem)
  next
    case (Some k)
    with bs have k: "k < length M" "pe_id (M ! k) = i" by auto
    have uniq: "e = M ! k" if "e \<in> set M" "pe_id e = i" for e
      using that k sM by (metis distinct_map inj_on_eq_iff nth_mem strict_sorted_iff)
    show ?thesis
    proof
      assume "ix_lookup ix i = Some (off, len)"
      then have "M ! k = \<lparr>pe_id = i, pe_offset = off, pe_len = len\<rparr>"
        using eq [OF k(2)] Some by (simp add: lk)
      then show "\<lparr>pe_id = i, pe_offset = off, pe_len = len\<rparr> \<in> set (ix_entries ix)"
        using mem nth_mem [OF k(1)] by simp
    next
      assume "\<lparr>pe_id = i, pe_offset = off, pe_len = len\<rparr> \<in> set (ix_entries ix)"
      then have "\<lparr>pe_id = i, pe_offset = off, pe_len = len\<rparr> = M ! k" using mem uniq by simp
      then show "ix_lookup ix i = Some (off, len)" using Some
        by (simp add: lk) (metis pack_entry.select_convs(2,3))
    qed
  qed
qed

section \<open>The index encoding\<close>

lemma slice_concat:
  assumes "\<And>x. length (f x) = n" and "k < length xs"
  shows "take n (drop (k * n) (concat (map f xs) @ rest)) = f (xs ! k)"
  using assms(2)
proof (induction xs arbitrary: k)
  case (Cons x xs)
  then show ?case
    by (cases k) (simp_all add: assms(1))
qed simp

lemma length_concat_map: "(\<And>x. length (f x) = n) \<Longrightarrow> length (concat (map f xs)) = length xs * n"
  by (induction xs) auto

lemma slice_at:
  assumes "data = pre @ concat (map f xs) @ rest" and "\<And>x. length (f x) = n" and "k < length xs"
    and "start = length pre"
  shows "slice data (start + k * n) n = f (xs ! k)"
proof -
  have "drop (start + k * n) data = drop (k * n) (concat (map f xs) @ rest)"
    by (simp add: assms(1,4))
  then show ?thesis using slice_concat [where f = f and n = n and rest = rest] assms(2,3) by metis
qed

lemma ix_parse_encode:
  assumes "length (ix_entries ix) < 2 ^ 32"
  shows "ix_parse C (ix_encode C ix) = Inr ix"
proof -
  let ?n = "length (ix_entries ix)" and ?h = "ix_encode_head ix" and ?d = "ix_encode C ix"
  let ?fan = "concat (map (\<lambda>b. le_bytes 4 (fanout_at ix (of_nat b))) [0..<256])"
  let ?ids = "concat (map (\<lambda>e. as_bytes (pe_id e)) (ix_entries ix))"
  let ?offs = "concat (map (\<lambda>e. le_bytes 8 (unat (pe_offset e))) (ix_entries ix))"
  let ?lens = "concat (map (\<lambda>e. le_bytes 8 (unat (pe_len e))) (ix_entries ix))"
  let ?pre = "IDX_MAGIC @ le_bytes 4 IDX_VERSION @ le_bytes 4 ?n @ ?fan"
  have h: "?h = ?pre @ ?ids @ ?offs @ ?lens @ as_bytes (ix_digest ix)"
    by (simp add: ix_encode_head_def)
  have fan: "length ?fan = 1024" by (simp add: length_concat_map [where n = 4])
  have lens: "length ?ids = ?n * 32" "length ?offs = ?n * 8" "length ?lens = ?n * 8"
    by (simp_all add: length_concat_map)
  have pre: "length ?pre = 1040" using fan by simp
  have lh: "length ?h = 1040 + (?n * 32 + ?n * 8 + ?n * 8 + 32)"
    unfolding h using pre lens by simp
  have d: "?d = ?h @ as_bytes (oc_hash C ?h)" by (simp add: ix_encode_def)
  have ld: "length ?d = length ?h + 32" by (simp add: d)
  have hd: "take (length ?d - 32) ?d = ?h" "drop (length ?d - 32) ?d = as_bytes (oc_hash C ?h)"
    by (simp_all add: d)
  have m: "take 8 ?d = IDX_MAGIC" "slice ?d 8 4 = le_bytes 4 IDX_VERSION" "slice ?d 12 4 = le_bytes 4 ?n"
    by (simp_all add: d h)
  have v: "from_le (le_bytes 4 IDX_VERSION) = IDX_VERSION" by (simp add: from_le_le_bytes IDX_VERSION_def)
  have n: "from_le (le_bytes 4 ?n) = ?n" using assms by (simp add: from_le_le_bytes)
  have w: "of_nat (from_le (le_bytes 8 (unat (x :: u64)))) = x" for x
    using unsigned_less [of x, where ?'a = nat] by (simp add: from_le_le_bytes)
  have s1: "slice ?h (1040 + k * 32) 32 = as_bytes (pe_id (ix_entries ix ! k))" if "k < ?n" for k
    by (rule slice_at [where f = "\<lambda>e. as_bytes (pe_id e)", OF h _ that]) (use pre in simp_all)
  have s2: "slice ?h (1040 + ?n * 32 + k * 8) 8 = le_bytes 8 (unat (pe_offset (ix_entries ix ! k)))" if "k < ?n" for k
    by (rule slice_at [where pre = "?pre @ ?ids" and f = "\<lambda>e. le_bytes 8 (unat (pe_offset e))", OF _ _ that])
      (use h pre lens in simp_all)
  have s3: "slice ?h (1040 + ?n * 32 + ?n * 8 + k * 8) 8 = le_bytes 8 (unat (pe_len (ix_entries ix ! k)))" if "k < ?n" for k
    by (rule slice_at [where pre = "?pre @ ?ids @ ?offs" and f = "\<lambda>e. le_bytes 8 (unat (pe_len e))", OF _ _ that])
      (use h pre lens in simp_all)
  have s4: "slice ?h (1040 + ?n * 32 + ?n * 8 + ?n * 8) 32 = as_bytes (ix_digest ix)"
    unfolding h using pre lens by simp
  have ent: "\<lparr>pe_id = oid_new (slice ?h (1040 + k * 32) 32),
        pe_offset = of_nat (from_le (slice ?h (1040 + ?n * 32 + k * 8) 8)),
        pe_len = of_nat (from_le (slice ?h (1040 + ?n * 32 + ?n * 8 + k * 8) 8))\<rparr> = ix_entries ix ! k"
    if "k < ?n" for k
    unfolding s1 [OF that] s2 [OF that] s3 [OF that] w by simp
  have "map (\<lambda>k. \<lparr>pe_id = oid_new (slice ?h (1040 + k * 32) 32),
        pe_offset = of_nat (from_le (slice ?h (1040 + ?n * 32 + k * 8) 8)),
        pe_len = of_nat (from_le (slice ?h (1040 + ?n * 32 + ?n * 8 + k * 8) 8))\<rparr>) [0..<?n] =
      map (\<lambda>k. ix_entries ix ! k) [0..<?n]"
    by (intro map_cong refl ent) simp
  then have E: "map (\<lambda>k. \<lparr>pe_id = oid_new (slice ?h (1040 + k * 32) 32),
        pe_offset = of_nat (from_le (slice ?h (1040 + ?n * 32 + k * 8) 8)),
        pe_len = of_nat (from_le (slice ?h (1040 + ?n * 32 + ?n * 8 + k * 8) 8))\<rparr>) [0..<?n] = ix_entries ix"
    unfolding map_nth .
  have pos: "(16 + 256 * 4 :: nat) = 1040" by simp
  show ?thesis
    unfolding ix_parse_def Let_def hd m v n pos E s4 using ld lh by simp
qed

text \<open>The pack index is a faithful map: an index built from entries with distinct ids survives its
  binary encoding unchanged, and its fanout-bounded binary search finds an id just when an entry has
  it, with that entry's offset and length.\<close>

lemma index_roundtrip_lookup:
  assumes "distinct (map pe_id es)" and "length es < 2 ^ 32"
  shows "\<exists>ix. ix_parse C (ix_encode C (ix_build es digest)) = Inr ix \<and> ix_digest ix = digest \<and>
    (\<forall>i off len. ix_lookup ix i = Some (off, len) \<longleftrightarrow> \<lparr>pe_id = i, pe_offset = off, pe_len = len\<rparr> \<in> set es)"
proof -
  have "ix_sorted (ix_build es digest)" using assms(1) by (rule ix_build_sorted)
  moreover have "set (ix_entries (ix_build es digest)) = set es" "ix_digest (ix_build es digest) = digest"
    "length (ix_entries (ix_build es digest)) < 2 ^ 32"
    using assms(2) by (simp_all add: ix_build_def)
  ultimately show ?thesis using ix_parse_encode ix_lookup_iff by metis
qed

subsection \<open>Witnesses\<close>

text \<open>A stored-only compressor, for the witnesses: it refuses inputs beyond 2 to the 63 bytes.\<close>

definition stored :: zstd where
  "stored = \<lparr>z_enc = (\<lambda>x. if length x < 2 ^ 63 then Inr x else Inl ''too long''), z_dec = Inr,
     z_open = (\<lambda>z. None), z_window = (\<lambda>z. None), z_read = (\<lambda>z n. Inr (take n z))\<rparr>"

lemma stored_ok: "zstd_ok stored" "zstd_take_ok stored"
  by (auto simp: zstd_ok_def zstd_take_ok_def stored_def split: if_splits)

definition byte_codec :: ocodec where
  "byte_codec = table_codec [OBlob \<lparr>blob_data = [7]\<rparr>]"

lemma byte_codec_hash: "from_content byte_codec bs = of_nat (from_be bs)"
  by (simp add: from_content_def byte_codec_def table_codec_def)

lemma byte_limits: "pack_limits byte_codec [(7, [7]), (9, [9])]"
  by (simp add: pack_limits_def good_object_def byte_codec_hash from_be_def MAX_OBJECT_LEN_def
      MAX_PACK_OBJECTS_def MAX_PACK_TOTAL_LEN_def)

theorem pack_roundtrip_witness:
  "\<exists>pack es digest. finish byte_codec stored [(7, [7]), (9, [9])] = Inr (pack, es, digest) \<and>
     decode_pack byte_codec stored pack = Inr [(7, [7]), (9, [9])]"
proof -
  have "\<forall>ic \<in> set [(7 :: oid, [7 :: u8]), (9, [9])]. \<exists>z. z_enc stored (snd ic) = Inr z"
    by (simp add: stored_def)
  from pack_roundtrip [OF stored_ok(1) byte_limits this] show ?thesis by blast
qed

theorem pack_integrity_witness:
  "\<exists>pack objs. decode_pack byte_codec stored pack = Inr objs \<and> length objs = 2 \<and> total_len objs \<le> 1024 * 1024 * 1024"
proof -
  obtain fs where fs: "frames_of stored [(7, [7]), (9, [9])] fs"
    using finish_total [of "[(7, [7]), (9, [9])]" stored "[]" "[]"] by (auto simp: stored_def)
  let ?body = "pack_header (length [(7 :: oid, [7 :: u8]), (9, [9])]) @ concat fs"
  have d: "decode_pack byte_codec stored (?body @ END_MAGIC @ as_bytes (oc_hash byte_codec ?body)) = Inr [(7, [7]), (9, [9])]"
    by (rule decode_pack_of_frames [OF stored_ok(1) fs byte_limits refl])
  from pack_integrity [OF stored_ok(2) this] d show ?thesis by fastforce
qed

end
