(* ===== verification/Packed_Backend.thy ===== *)
theory Packed_Backend
  imports Pack
begin

text \<open>
  Storage on disk: the loose backend \<^verbatim>\<open>DiskBackend\<close> (\<^verbatim>\<open>src/store/disk.rs\<close>) and \<^verbatim>\<open>PackedDiskBackend\<close>
  (\<^verbatim>\<open>src/store/packed.rs\<close>), which adds immutable packs, repacking and garbage collection. A directory
  is a map from its file names to their contents; a loose file also has its modification time. The
  operating system is assumed not to fail; a clock stamps the files written. The order in which a
  directory is read is the order of the map.
\<close>

section \<open>The loose backend\<close>

text \<open>\<^verbatim>\<open>objects/<prefix>/<name>\<close> to the compressed bytes and the modification time.\<close>

type_synonym objdir = "((string \<times> string) \<times> (bytes \<times> u64)) list"

definition object_path :: "oid \<Rightarrow> string \<times> string" where
  "object_path i = (let hex = oid_display i in (take 2 hex, drop 2 hex))"

definition loose_put :: "zstd \<Rightarrow> u64 \<Rightarrow> objdir \<Rightarrow> oid \<Rightarrow> bytes \<Rightarrow> objdir result" where
  "loose_put Z clock d i data =
     (let path = object_path i in
      if map_of d path \<noteq> None then Inr d
      else case z_enc Z data of
        Inl e \<Rightarrow> Inl (Storage e)
      | Inr compressed \<Rightarrow>
          let tmp = (fst path, snd path @ ''.tmp'') in
          Inr (AList.delete tmp (AList.update path (compressed, clock) (AList.update tmp (compressed, clock) d))))"

definition loose_get :: "zstd \<Rightarrow> objdir \<Rightarrow> oid \<Rightarrow> bytes option result" where
  "loose_get Z d i =
     (case map_of d (object_path i) of
        Some (compressed, mtime) \<Rightarrow>
          (case z_dec Z compressed of Inl e \<Rightarrow> Inl (Storage e) | Inr data \<Rightarrow> Inr (Some data))
      | None \<Rightarrow> Inr None)"

definition loose_exists :: "objdir \<Rightarrow> oid \<Rightarrow> bool" where
  "loose_exists d i \<longleftrightarrow> map_of d (object_path i) \<noteq> None"

definition loose_delete :: "objdir \<Rightarrow> oid \<Rightarrow> objdir" where
  "loose_delete d i = AList.delete (object_path i) d"

definition ends_with :: "string \<Rightarrow> string \<Rightarrow> bool" where
  "ends_with suf s \<longleftrightarrow> length suf \<le> length s \<and> drop (length s - length suf) s = suf"

text \<open>What the two nested directory loops of \<^verbatim>\<open>list\<close> push for one file.\<close>

definition listed :: "(string \<times> string) \<times> (bytes \<times> u64) \<Rightarrow> oid list" where
  "listed e = (case e of ((prefix, name), _) \<Rightarrow>
       if length prefix \<noteq> 2 then []
       else if ends_with ''.tmp'' name then []
       else case parse_hex_id (prefix @ name) of Some i \<Rightarrow> [i] | None \<Rightarrow> [])"

definition loose_list :: "objdir \<Rightarrow> oid list" where
  "loose_list d = concat (map listed d)"

section \<open>Packs on disk\<close>

text \<open>\<^verbatim>\<open>packs/<stem>.<ext>\<close> to the bytes of the file.\<close>

type_synonym packdir = "((string \<times> string) \<times> bytes) list"

record packed =
  pk_objects :: objdir
  pk_clock :: u64
  pk_files :: packdir
  pk_packs :: "(pack_index \<times> string) list"

definition load_packs :: "ocodec \<Rightarrow> packdir \<Rightarrow> (pack_index \<times> string) list result" where
  "load_packs C files =
     (let stems = rev (sort_key (\<lambda>stem. stem @ ''.idx'')
        (map (\<lambda>((stem, ext), _). stem) (filter (\<lambda>((stem, ext), _). ext = ''idx'') files))) in
      bind_res (map_res (\<lambda>stem.
          case map_of files (stem, ''idx'') of
            None \<Rightarrow> Inl (Io ''not found'')
          | Some bytes \<Rightarrow> bind_res (ix_parse C bytes) (\<lambda>ix. Inr (ix, stem))) stems) (\<lambda>loaded.
        Inr (filter (\<lambda>(ix, stem). map_of files (stem, ''pack'') \<noteq> None) loaded)))"

definition write_synced :: "packdir \<Rightarrow> string \<times> string \<Rightarrow> bytes \<Rightarrow> packdir" where
  "write_synced files path data =
     (let tmp = (fst path, ''tmp'') in
      AList.delete tmp (AList.update path data (AList.update tmp data files)))"

definition pack_stem :: "oid \<Rightarrow> string" where
  "pack_stem digest = ''pack-'' @ hex32 digest"

definition write_pack_atomic :: "packdir \<Rightarrow> string \<Rightarrow> bytes \<Rightarrow> bytes \<Rightarrow> packdir" where
  "write_pack_atomic files stem pack idx =
     write_synced (write_synced files (stem, ''pack'') pack) (stem, ''idx'') idx"

definition read_pack_frame :: "ocodec \<Rightarrow> zstd \<Rightarrow> packdir \<Rightarrow> string \<Rightarrow> u64 \<Rightarrow> u64 \<Rightarrow> bytes result" where
  "read_pack_frame C Z files stem offset len =
     (case map_of files (stem, ''pack'') of
        None \<Rightarrow> Inl (Io ''not found'')
      | Some bytes \<Rightarrow>
          if length bytes < unat offset + unat len then Inl (Io ''failed to fill whole buffer'')
          else bind_res (decode_frame C Z (take (unat len) (drop (unat offset) bytes))) (\<lambda>(_, canonical).
            Inr canonical))"

fun in_any_pack :: "(pack_index \<times> string) list \<Rightarrow> oid \<Rightarrow> (string \<times> u64 \<times> u64) option" where
  "in_any_pack [] i = None"
| "in_any_pack ((ix, stem) # packs) i =
     (case ix_lookup ix i of
        Some (off, len) \<Rightarrow> Some (stem, off, len)
      | None \<Rightarrow> in_any_pack packs i)"

definition remove_pack :: "string \<Rightarrow> packdir \<Rightarrow> packdir" where
  "remove_pack stem files = AList.delete (stem, ''idx'') (AList.delete (stem, ''pack'') files)"

definition reload_packs :: "ocodec \<Rightarrow> packed \<Rightarrow> packed result" where
  "reload_packs C s = bind_res (load_packs C (pk_files s)) (\<lambda>packs. Inr (s\<lparr>pk_packs := packs\<rparr>))"

section \<open>The packed backend\<close>

definition packed_put :: "zstd \<Rightarrow> packed \<Rightarrow> oid \<Rightarrow> bytes \<Rightarrow> packed result" where
  "packed_put Z s i data =
     (if in_any_pack (pk_packs s) i \<noteq> None then Inr s
      else bind_res (loose_put Z (pk_clock s) (pk_objects s) i data) (\<lambda>d. Inr (s\<lparr>pk_objects := d\<rparr>)))"

definition packed_get :: "ocodec \<Rightarrow> zstd \<Rightarrow> packed \<Rightarrow> oid \<Rightarrow> bytes option result" where
  "packed_get C Z s i =
     bind_res (loose_get Z (pk_objects s) i) (\<lambda>found.
       case found of
         Some b \<Rightarrow> Inr (Some b)
       | None \<Rightarrow>
           (case in_any_pack (pk_packs s) i of
              Some (stem, off, len) \<Rightarrow>
                bind_res (read_pack_frame C Z (pk_files s) stem off len) (\<lambda>canonical. Inr (Some canonical))
            | None \<Rightarrow> Inr None))"

definition packed_exists :: "packed \<Rightarrow> oid \<Rightarrow> bool result" where
  "packed_exists s i = (if loose_exists (pk_objects s) i then Inr True else Inr (in_any_pack (pk_packs s) i \<noteq> None))"

definition packed_delete :: "packed \<Rightarrow> oid \<Rightarrow> packed result" where
  "packed_delete s i = Inr (s\<lparr>pk_objects := loose_delete (pk_objects s) i\<rparr>)"

definition packed_list :: "packed \<Rightarrow> oid list result" where
  "packed_list s = Inr (btset_of (loose_list (pk_objects s) @ concat (map (\<lambda>(ix, stem). ix_ids ix) (pk_packs s))))"

definition packed_count :: "packed \<Rightarrow> u64 result" where
  "packed_count s =
     (let loose = loose_list (pk_objects s);
          packed = sum_list (map (\<lambda>(ix, stem). of_nat (ix_count ix)) (pk_packs s));
          loose_extra = of_nat (length (filter (\<lambda>i.
            \<not> list_ex (\<lambda>(ix, stem). ix_lookup ix i \<noteq> None) (pk_packs s)) loose))
      in Inr (packed + loose_extra))"

text \<open>
  The gathering loop of \<^verbatim>\<open>repack_keeping\<close>: \<open>keep\<close> filters, ids already seen are skipped, and the
  builder and the list of sources grow together.
\<close>

fun gather :: "ocodec \<Rightarrow> zstd \<Rightarrow> packed \<Rightarrow> oid set option \<Rightarrow> oid list \<Rightarrow> oid set \<Rightarrow>
    pack_builder \<Rightarrow> oid list \<Rightarrow> (pack_builder \<times> oid list) result" where
  "gather C Z s keep [] seen b sources = Inr (b, sources)"
| "gather C Z s keep (i # ids) seen b sources =
     (if i \<in> seen then gather C Z s keep ids seen b sources
      else if (case keep of Some k \<Rightarrow> i \<notin> k | None \<Rightarrow> False) then gather C Z s keep ids (insert i seen) b sources
      else bind_res (packed_get C Z s i) (\<lambda>found. case found of
          Some bytes \<Rightarrow> gather C Z s keep ids (insert i seen) (builder_add b i bytes) (sources @ [i])
        | None \<Rightarrow> gather C Z s keep ids (insert i seen) b sources))"

definition retire_all_packs :: "ocodec \<Rightarrow> packed \<Rightarrow> packed result" where
  "retire_all_packs C s = reload_packs C (s\<lparr>pk_files := fold remove_pack (map snd (pk_packs s)) (pk_files s)\<rparr>)"

definition repack_keeping :: "ocodec \<Rightarrow> zstd \<Rightarrow> packed \<Rightarrow> oid set option \<Rightarrow> (oid option \<times> packed) result" where
  "repack_keeping C Z s keep =
     (let loose_ids = loose_list (pk_objects s);
          packed_ids = concat (map (\<lambda>(ix, stem). ix_ids ix) (pk_packs s)) in
      bind_res (gather C Z s keep (loose_ids @ packed_ids) {} [] []) (\<lambda>(b, sources).
      if b = [] then
        (if keep \<noteq> None then bind_res (retire_all_packs C s) (\<lambda>s'. Inr (None, s')) else Inr (None, s))
      else bind_res (finish C Z b) (\<lambda>(pack_bytes, es, digest).
        let idx_bytes = ix_encode C (ix_build es digest);
            old_packs = map snd (pk_packs s);
            files = write_pack_atomic (pk_files s) (pack_stem digest) pack_bytes idx_bytes;
            files = fold remove_pack old_packs files in
        bind_res (reload_packs C (s\<lparr>pk_files := files\<rparr>)) (\<lambda>s'.
        Inr (Some digest, s'\<lparr>pk_objects := foldl loose_delete (pk_objects s') sources\<rparr>)))))"

definition repack :: "ocodec \<Rightarrow> zstd \<Rightarrow> packed \<Rightarrow> (oid option \<times> packed) result" where
  "repack C Z s = repack_keeping C Z s None"

definition packed_compact :: "ocodec \<Rightarrow> zstd \<Rightarrow> packed \<Rightarrow> (u64 \<times> packed) result" where
  "packed_compact C Z s =
     (let loose_before = of_nat (length (loose_list (pk_objects s))) in
      bind_res (repack C Z s) (\<lambda>(_, s'). Inr (loose_before, s')))"

definition loose_mtime_secs :: "objdir \<Rightarrow> oid \<Rightarrow> u64 option" where
  "loose_mtime_secs d i = map_option snd (map_of d (object_path i))"

definition sweep_loose :: "oid set \<Rightarrow> u64 \<Rightarrow> u64 \<Rightarrow> objdir \<Rightarrow> oid list \<Rightarrow> objdir" where
  "sweep_loose reachable grace_secs now d ids =
     foldl (\<lambda>d i.
       if i \<in> reachable then d
       else case loose_mtime_secs d i of
         Some mtime \<Rightarrow> if now < saturating_add mtime grace_secs then d else loose_delete d i
       | None \<Rightarrow> loose_delete d i) d ids"

definition packed_sweep :: "ocodec \<Rightarrow> zstd \<Rightarrow> packed \<Rightarrow> oid set \<Rightarrow> u64 \<Rightarrow> u64 \<Rightarrow> (u64 \<times> packed) result" where
  "packed_sweep C Z s reachable grace_secs now =
     bind_res (packed_count s) (\<lambda>before.
     bind_res (repack_keeping C Z s (Some reachable)) (\<lambda>(_, s1).
     let s2 = s1\<lparr>pk_objects := sweep_loose reachable grace_secs now (pk_objects s1) (loose_list (pk_objects s1))\<rparr> in
     bind_res (packed_count s2) (\<lambda>after. Inr (saturating_sub before after, s2))))"

definition packed_backend :: "ocodec \<Rightarrow> zstd \<Rightarrow> packed backend" where
  "packed_backend C Z = \<lparr>sb_put = packed_put Z, sb_get = packed_get C Z, sb_exists = packed_exists,
     sb_delete = packed_delete, sb_list = packed_list, sb_count = packed_count,
     sb_compact = packed_compact C Z, sb_sweep = packed_sweep C Z\<rparr>"

definition packed_open :: "ocodec \<Rightarrow> objdir \<Rightarrow> packdir \<Rightarrow> u64 \<Rightarrow> packed result" where
  "packed_open C objs files clock =
     bind_res (load_packs C files) (\<lambda>packs.
       Inr \<lparr>pk_objects = objs, pk_clock = clock, pk_files = files, pk_packs = packs\<rparr>)"

section \<open>Loose files and ids\<close>

lemma object_path_inject [simp]: "object_path i = object_path j \<longleftrightarrow> i = j"
proof
  assume "object_path i = object_path j"
  then have "take 2 (oid_display i) = take 2 (oid_display j)" "drop 2 (oid_display i) = drop 2 (oid_display j)"
    by (simp_all add: object_path_def Let_def)
  then have "oid_display i = oid_display j" by (metis append_take_drop_id)
  then show "i = j" by simp
qed simp

lemma object_path_iff:
  "object_path i = (prefix, name) \<longleftrightarrow> length prefix = 2 \<and> prefix @ name = oid_display i"
  by (auto simp: object_path_def Let_def) (metis append_eq_conv_conj)+

text \<open>No name of an object ends in \<^verbatim>\<open>.tmp\<close>: the names are hexadecimal.\<close>

lemma hex_char_no_dot: "hex_nibble CHR ''.'' = None"
  by code_simp

lemma hex_pairs_no_dot: "hex_pairs s = Some bs \<Longrightarrow> CHR ''.'' \<notin> set s"
  by (induction s arbitrary: bs rule: hex_pairs.induct) (auto simp: hex_char_no_dot split: option.splits)

lemma oid_display_no_dot: "CHR ''.'' \<notin> set (oid_display i)"
  unfolding oid_display_def by (rule hex_pairs_no_dot [OF hex_pairs_concat])

lemma object_name_not_tmp: "object_path i = (prefix, name) \<Longrightarrow> \<not> ends_with ''.tmp'' name"
proof
  assume "object_path i = (prefix, name)" and "ends_with ''.tmp'' name"
  then have "prefix @ name = oid_display i" "CHR ''.'' \<in> set name"
    by (auto simp: object_path_iff ends_with_def) (metis in_set_dropD list.set_intros(1))
  then have "CHR ''.'' \<in> set (oid_display i)" by (metis in_set_conv_decomp append_assoc)
  with oid_display_no_dot show False by blast
qed

lemma tmp_not_object: "(fst (object_path i), snd (object_path i) @ ''.tmp'') \<noteq> object_path j"
proof
  assume "(fst (object_path i), snd (object_path i) @ ''.tmp'') = object_path j"
  then have "\<not> ends_with ''.tmp'' (snd (object_path i) @ ''.tmp'')" by (metis object_name_not_tmp)
  then show False by (simp add: ends_with_def)
qed

lemma listed_iff: "i \<in> set (listed e) \<longleftrightarrow> fst e = object_path i"
proof -
  obtain prefix name v where e: "e = ((prefix, name), v)" by (metis prod.exhaust)
  have iff: "object_path j = (prefix, name) \<longleftrightarrow> length prefix = 2 \<and> parse_hex_id (prefix @ name) = Some j" for j
    unfolding object_path_iff parse_hex_id_eq oid_from_str_iff by auto
  have "i \<in> set (listed e) \<longleftrightarrow> object_path i = (prefix, name)"
  proof (cases "object_path i = (prefix, name)")
    case True
    then show ?thesis
      using iff [of i] object_name_not_tmp [OF True] by (simp add: listed_def e)
  next
    case False
    then show ?thesis
      using iff [of i] by (cases "parse_hex_id (prefix @ name)") (auto simp: listed_def e)
  qed
  then show ?thesis by (auto simp: e)
qed

lemma length_listed: "length (listed e) \<le> 1"
  by (auto simp: listed_def split: prod.splits option.splits)

lemma set_loose_list: "set (loose_list d) = {i. map_of d (object_path i) \<noteq> None}"
proof -
  have "i \<in> set (loose_list d) \<longleftrightarrow> object_path i \<in> fst ` set d" for i
  proof -
    have "i \<in> set (loose_list d) \<longleftrightarrow> (\<exists>e \<in> set d. fst e = object_path i)"
      by (simp add: loose_list_def listed_iff)
    also have "\<dots> \<longleftrightarrow> (\<exists>e \<in> set d. object_path i = fst e)" by (rule bex_cong) auto
    finally show ?thesis unfolding image_iff .
  qed
  then show ?thesis by (auto simp: map_of_eq_None_iff)
qed

lemma distinct_loose_list: "distinct (map fst d) \<Longrightarrow> distinct (loose_list d)"
proof (induction d)
  case (Cons e d)
  have "distinct (listed e)"
    using length_listed [of e] by (cases "listed e"; cases "tl (listed e)") auto
  moreover have "i \<notin> set (loose_list d)" if "i \<in> set (listed e)" for i
  proof -
    have "object_path i \<notin> fst ` set d" using that Cons.prems by (metis distinct.simps(2) list.set_map list.simps(9) listed_iff)
    then show ?thesis by (simp add: set_loose_list map_of_eq_None_iff)
  qed
  ultimately show ?case using Cons by (auto simp: loose_list_def)
qed (simp add: loose_list_def)

section \<open>The packed backend meets the storage contract\<close>

definition loose_abst :: "zstd \<Rightarrow> objdir \<Rightarrow> oid \<Rightarrow> bytes option" where
  "loose_abst Z d i =
     (case map_of d (object_path i) of
        None \<Rightarrow> None
      | Some (compressed, mtime) \<Rightarrow> (case z_dec Z compressed of Inl e \<Rightarrow> None | Inr data \<Rightarrow> Some data))"

definition pack_abst :: "ocodec \<Rightarrow> zstd \<Rightarrow> packed \<Rightarrow> oid \<Rightarrow> bytes option" where
  "pack_abst C Z s i =
     (case in_any_pack (pk_packs s) i of
        None \<Rightarrow> None
      | Some (stem, off, len) \<Rightarrow>
          (case read_pack_frame C Z (pk_files s) stem off len of Inl e \<Rightarrow> None | Inr c \<Rightarrow> Some c))"

definition packed_abst :: "ocodec \<Rightarrow> zstd \<Rightarrow> packed \<Rightarrow> oid \<Rightarrow> bytes option" where
  "packed_abst C Z s i = (case loose_abst Z (pk_objects s) i of Some c \<Rightarrow> Some c | None \<Rightarrow> pack_abst C Z s i)"

definition loose_ok :: "zstd \<Rightarrow> objdir \<Rightarrow> bool" where
  "loose_ok Z d \<longleftrightarrow> distinct (map fst d) \<and>
     (\<forall>i compressed mtime. map_of d (object_path i) = Some (compressed, mtime) \<longrightarrow> (\<exists>data. z_dec Z compressed = Inr data))"

definition pack_ok :: "ocodec \<Rightarrow> zstd \<Rightarrow> packdir \<Rightarrow> pack_index \<times> string \<Rightarrow> bool" where
  "pack_ok C Z files p \<longleftrightarrow> ix_sorted (fst p) \<and>
     (\<forall>i off len. ix_lookup (fst p) i = Some (off, len) \<longrightarrow> (\<exists>c. read_pack_frame C Z files (snd p) off len = Inr c))"

definition packed_inv :: "ocodec \<Rightarrow> zstd \<Rightarrow> packed \<Rightarrow> bool" where
  "packed_inv C Z s \<longleftrightarrow> loose_ok Z (pk_objects s) \<and> (\<forall>p \<in> set (pk_packs s). pack_ok C Z (pk_files s) p)"

lemma in_any_pack_Some:
  assumes "in_any_pack packs i = Some (stem, off, len)"
  shows "\<exists>ix. (ix, stem) \<in> set packs \<and> ix_lookup ix i = Some (off, len)"
  using assms by (induction packs i rule: in_any_pack.induct) (auto split: option.splits)

lemma in_any_pack_None:
  "in_any_pack packs i = None \<longleftrightarrow> (\<forall>p \<in> set packs. ix_lookup (fst p) i = None)"
  by (induction packs i rule: in_any_pack.induct) (auto split: option.splits)

lemma ix_lookup_None_iff:
  assumes "ix_sorted ix"
  shows "ix_lookup ix i = None \<longleftrightarrow> i \<notin> set (ix_ids ix)"
proof -
  have "i \<in> set (ix_ids ix) \<longleftrightarrow> (\<exists>off len. \<lparr>pe_id = i, pe_offset = off, pe_len = len\<rparr> \<in> set (ix_entries ix))"
  proof
    assume "i \<in> set (ix_ids ix)"
    then obtain e where "e \<in> set (ix_entries ix)" "pe_id e = i" by (auto simp: ix_ids_def)
    moreover have "e = \<lparr>pe_id = pe_id e, pe_offset = pe_offset e, pe_len = pe_len e\<rparr>" by simp
    ultimately show "\<exists>off len. \<lparr>pe_id = i, pe_offset = off, pe_len = len\<rparr> \<in> set (ix_entries ix)"
      by metis
  next
    assume "\<exists>off len. \<lparr>pe_id = i, pe_offset = off, pe_len = len\<rparr> \<in> set (ix_entries ix)"
    then show "i \<in> set (ix_ids ix)" by (force simp: ix_ids_def)
  qed
  then show ?thesis using ix_lookup_iff [OF assms, of i] by (metis not_Some_eq surj_pair)
qed

lemma loose_get_abst: "loose_ok Z d \<Longrightarrow> loose_get Z d i = Inr (loose_abst Z d i)"
  by (fastforce simp: loose_get_def loose_abst_def loose_ok_def split: option.splits sum.splits)

lemma loose_exists_abst: "loose_ok Z d \<Longrightarrow> loose_exists d i \<longleftrightarrow> loose_abst Z d i \<noteq> None"
  by (fastforce simp: loose_exists_def loose_abst_def loose_ok_def split: option.splits sum.splits)

lemma read_in_pack:
  assumes "packed_inv C Z s" and "in_any_pack (pk_packs s) i = Some (stem, off, len)"
  shows "\<exists>c. read_pack_frame C Z (pk_files s) stem off len = Inr c"
  using in_any_pack_Some [OF assms(2)] assms(1) by (fastforce simp: packed_inv_def pack_ok_def)

lemma packed_get_abst:
  assumes "packed_inv C Z s"
  shows "packed_get C Z s i = Inr (packed_abst C Z s i)"
proof (cases "loose_abst Z (pk_objects s) i")
  case None
  have "loose_get Z (pk_objects s) i = Inr None"
    using assms None by (simp add: loose_get_abst packed_inv_def)
  then show ?thesis
    using None read_in_pack [OF assms, of i]
    by (auto simp: packed_get_def packed_abst_def pack_abst_def split: option.splits)
next
  case (Some c)
  then show ?thesis using assms by (simp add: packed_get_def loose_get_abst packed_inv_def packed_abst_def)
qed

lemma pack_abst_exists:
  assumes "packed_inv C Z s"
  shows "pack_abst C Z s i \<noteq> None \<longleftrightarrow> in_any_pack (pk_packs s) i \<noteq> None"
  using read_in_pack [OF assms, of i] by (fastforce simp: pack_abst_def split: option.splits sum.splits)

lemma packed_exists_abst:
  assumes "packed_inv C Z s"
  shows "packed_exists s i = Inr (packed_abst C Z s i \<noteq> None)"
proof -
  have "loose_exists (pk_objects s) i \<longleftrightarrow> loose_abst Z (pk_objects s) i \<noteq> None"
    by (rule loose_exists_abst) (use assms in \<open>simp add: packed_inv_def\<close>)
  then show ?thesis
    using pack_abst_exists [OF assms, of i]
    by (auto simp: packed_exists_def packed_abst_def split: option.splits simp del: split_paired_Ex split_paired_All)
qed

lemma in_any_pack_ids:
  assumes "\<forall>p \<in> set packs. ix_sorted (fst p)"
  shows "in_any_pack packs i \<noteq> None \<longleftrightarrow> i \<in> (\<Union>p \<in> set packs. set (ix_ids (fst p)))"
  unfolding in_any_pack_None using assms by (simp add: ix_lookup_None_iff)

lemma packed_dom:
  assumes "packed_inv C Z s"
  shows "dom (packed_abst C Z s) = set (loose_list (pk_objects s)) \<union> (\<Union>p \<in> set (pk_packs s). set (ix_ids (fst p)))"
proof -
  have sorted: "\<forall>p \<in> set (pk_packs s). ix_sorted (fst p)"
    using assms by (auto simp: packed_inv_def pack_ok_def)
  have "packed_abst C Z s i \<noteq> None \<longleftrightarrow>
      map_of (pk_objects s) (object_path i) \<noteq> None \<or> in_any_pack (pk_packs s) i \<noteq> None" for i
  proof -
    have "(if map_of (pk_objects s) (object_path i) \<noteq> None then Inr True
        else Inr (in_any_pack (pk_packs s) i \<noteq> None)) = (Inr (packed_abst C Z s i \<noteq> None) :: bool result)"
      using packed_exists_abst [OF assms, of i] unfolding packed_exists_def loose_exists_def .
    then show ?thesis by (simp split: if_splits del: not_None_eq)
  qed
  then show ?thesis unfolding set_loose_list in_any_pack_ids [OF sorted] dom_def by blast
qed

lemma map_of_loose_put:
  assumes "loose_put Z clock d i data = Inr d'" and "z_enc Z data = Inr z" and "map_of d (object_path i) = None"
  shows "map_of d' (object_path j) = (if j = i then Some (z, clock) else map_of d (object_path j))"
proof -
  have "object_path j \<noteq> (fst (object_path i), snd (object_path i) @ ''.tmp'')" using tmp_not_object by metis
  then show ?thesis
    using assms by (auto simp: loose_put_def Let_def delete_conv' update_conv')
qed

lemma packed_storage:
  assumes "zstd_ok Z"
  shows "storage_backend (packed_inv C Z) (packed_abst C Z) (\<lambda>data. \<exists>z. z_enc Z data = Inr z) (packed_backend C Z)"
proof
  fix s i
  assume inv: "packed_inv C Z s"
  show "sb_get (packed_backend C Z) s i = Inr (packed_abst C Z s i)"
    by (simp add: packed_backend_def packed_get_abst [OF inv])
  show "sb_exists (packed_backend C Z) s i = Inr (packed_abst C Z s i \<noteq> None)"
    by (simp add: packed_backend_def packed_exists_abst [OF inv])
  show "\<exists>ids. sb_list (packed_backend C Z) s = Inr ids \<and> distinct ids \<and> set ids = dom (packed_abst C Z s)"
    using packed_dom [OF inv] by (simp add: packed_backend_def packed_list_def case_prod_unfold)
next
  fix s data i
  assume inv: "packed_inv C Z s" and "\<exists>z. z_enc Z data = Inr z" and none: "packed_abst C Z s i = None"
  then obtain z where z: "z_enc Z data = Inr z" by blast
  have lok: "loose_ok Z (pk_objects s)" using inv by (simp add: packed_inv_def)
  have "loose_abst Z (pk_objects s) i = None" "pack_abst C Z s i = None"
    using none by (auto simp: packed_abst_def split: option.splits)
  then have nl: "map_of (pk_objects s) (object_path i) = None" and np: "in_any_pack (pk_packs s) i = None"
    using loose_exists_abst [OF lok, of i] pack_abst_exists [OF inv, of i] unfolding loose_exists_def by blast+
  obtain d' where d': "loose_put Z (pk_clock s) (pk_objects s) i data = Inr d'"
    using nl z by (simp add: loose_put_def Let_def)
  note upd = map_of_loose_put [OF d' z nl]
  have "distinct (map fst d')"
    using d' nl z lok by (auto simp: loose_put_def Let_def loose_ok_def distinct_update distinct_delete)
  moreover have zd: "z_dec Z z = Inr data" using assms z by (auto simp: zstd_ok_def)
  ultimately have "loose_ok Z d'" using lok by (auto simp: loose_ok_def upd)
  moreover have "loose_abst Z d' = (loose_abst Z (pk_objects s))(i \<mapsto> data)"
    by (auto simp: loose_abst_def upd zd fun_eq_iff)
  ultimately show "\<exists>s'. sb_put (packed_backend C Z) s i data = Inr s' \<and> packed_inv C Z s' \<and>
      packed_abst C Z s' = (packed_abst C Z s)(i \<mapsto> data)"
    using inv np d'
    by (auto simp: packed_backend_def packed_put_def packed_inv_def packed_abst_def pack_abst_def fun_eq_iff
        split: option.splits)
qed

section \<open>Repacking\<close>

definition kept :: "oid set option \<Rightarrow> oid \<Rightarrow> bool" where
  "kept keep i = (case keep of Some k \<Rightarrow> i \<in> k | None \<Rightarrow> True)"

lemma gather_correct:
  assumes "packed_inv C Z s"
  shows "\<exists>L. gather C Z s keep ids seen b sources =
      Inr (b @ map (\<lambda>i. (i, the (packed_abst C Z s i))) L, sources @ L) \<and> distinct L \<and>
    set L = {i \<in> set ids - seen. kept keep i \<and> packed_abst C Z s i \<noteq> None}"
proof (induction ids arbitrary: seen b sources)
  case (Cons i ids)
  have skip: "?case" if "i \<in> seen \<or> \<not> kept keep i \<or> packed_abst C Z s i = None"
  proof -
    let ?seen = "if i \<in> seen then seen else insert i seen"
    have g: "gather C Z s keep (i # ids) seen b sources = gather C Z s keep ids ?seen b sources"
      using that packed_get_abst [OF assms, of i] by (auto simp: kept_def split: option.splits)
    have eq: "{j \<in> set ids - ?seen. kept keep j \<and> packed_abst C Z s j \<noteq> None} =
        {j \<in> set (i # ids) - seen. kept keep j \<and> packed_abst C Z s j \<noteq> None}"
      using that by auto
    show ?thesis unfolding g using Cons.IH [of ?seen b sources] unfolding eq .
  qed
  show ?case
  proof (cases "i \<in> seen \<or> \<not> kept keep i \<or> packed_abst C Z s i = None")
    case True
    then show ?thesis by (rule skip)
  next
    case False
    then obtain c where c: "packed_abst C Z s i = Some c" by auto
    have g: "gather C Z s keep (i # ids) seen b sources =
        gather C Z s keep ids (insert i seen) (b @ [(i, c)]) (sources @ [i])"
      using False packed_get_abst [OF assms, of i] c by (auto simp: kept_def builder_add_def split: option.splits)
    obtain L where L: "gather C Z s keep ids (insert i seen) (b @ [(i, c)]) (sources @ [i]) =
        Inr ((b @ [(i, c)]) @ map (\<lambda>i. (i, the (packed_abst C Z s i))) L, (sources @ [i]) @ L)" "distinct L"
      "set L = {j \<in> set ids - insert i seen. kept keep j \<and> packed_abst C Z s j \<noteq> None}"
      using Cons.IH by blast
    show ?thesis
      using g L c False by (intro exI [of _ "i # L"]) auto
  qed
qed simp

lemma gather_all:
  assumes "packed_inv C Z s" and "distinct ids" and "set ids \<inter> seen = {}"
    and "\<forall>i \<in> set ids. packed_abst C Z s i \<noteq> None"
  shows "gather C Z s None ids seen b sources =
    Inr (b @ map (\<lambda>i. (i, the (packed_abst C Z s i))) ids, sources @ ids)"
  using assms(2-4)
proof (induction ids arbitrary: seen b sources)
  case (Cons i ids)
  then show ?case
    using packed_get_abst [OF assms(1), of i] by (auto simp: builder_add_def)
qed simp

text \<open>The index that goes with a finished pack finds exactly its objects.\<close>

lemma finish_result:
  assumes "finish C Z objs = Inr (pack, es, digest)"
  obtains fs where "frames_of Z objs fs" and "es = entries_from 32 objs fs"
    and "pack = (pack_header (length objs) @ concat fs) @ END_MAGIC @ as_bytes digest"
    and "digest = oc_hash C (pack_header (length objs) @ concat fs)"
proof -
  from assms obtain buf where "fold_res (finish_step Z) objs (pack_header (length objs), []) = Inr (buf, es)"
    and "pack = buf @ END_MAGIC @ as_bytes digest" and "digest = oc_hash C buf"
    by (auto simp: finish_def bind_res_Inr Let_def)
  with finish_fold [OF this(1)] that show ?thesis by auto
qed

lemma finish_index:
  assumes "zstd_ok Z" and "finish C Z objs = Inr (pack, es, digest)" and "list_all (good_object C) objs"
    and "distinct (map fst objs)" and "length pack < 2 ^ 64"
  shows "distinct (map pe_id es)" and "length es = length objs"
    and "map_of objs i = None \<Longrightarrow> ix_lookup (ix_build es digest) i = None"
    and "map_of objs i = Some c \<Longrightarrow>
      \<exists>off len. ix_lookup (ix_build es digest) i = Some (off, len) \<and> read_frame_at C Z pack off len = Inr (i, c)"
proof -
  obtain fs where fs: "frames_of Z objs fs" "es = entries_from 32 objs fs"
    "pack = pack_header (length objs) @ concat fs @ END_MAGIC @ as_bytes digest"
    using finish_result [OF assms(2)] by (metis append_assoc)
  have all: "list_all2 (\<lambda>e ic. pe_id e = fst ic \<and> read_frame_at C Z pack (pe_offset e) (pe_len e) = Inr ic) es objs"
    using entries_read [OF assms(1) fs(1) assms(3), of "pack_header (length objs)" "END_MAGIC @ as_bytes digest"]
      assms(5) by (simp add: fs)
  then show len: "length es = length objs" by (rule list_all2_lengthD)
  have ids: "map pe_id es = map fst objs"
    using all by (auto simp: list_all2_conv_all_nth intro: nth_equalityI)
  then show dist: "distinct (map pe_id es)" using assms(4) by simp
  have sorted: "ix_sorted (ix_build es digest)" using dist by (rule ix_build_sorted)
  have idset: "set (ix_ids (ix_build es digest)) = fst ` set objs"
    using ids by (metis ix_build_def ix_ids_def list.set_map pack_index.select_convs(1) set_sort)
  show "ix_lookup (ix_build es digest) i = None" if "map_of objs i = None"
    using that idset by (simp add: ix_lookup_None_iff [OF sorted] map_of_eq_None_iff)
  show "\<exists>off len. ix_lookup (ix_build es digest) i = Some (off, len) \<and> read_frame_at C Z pack off len = Inr (i, c)"
    if found: "map_of objs i = Some c"
  proof -
    obtain k where k: "k < length objs" "objs ! k = (i, c)"
      using map_of_SomeD [OF found] by (auto simp: in_set_conv_nth)
    let ?e = "es ! k"
    have e: "pe_id ?e = i" "read_frame_at C Z pack (pe_offset ?e) (pe_len ?e) = Inr (i, c)"
      using all k by (auto simp: list_all2_conv_all_nth)
    have "?e \<in> set (ix_entries (ix_build es digest))" using k len by (simp add: ix_build_def)
    moreover have "?e = \<lparr>pe_id = i, pe_offset = pe_offset ?e, pe_len = pe_len ?e\<rparr>" using e(1) by simp
    ultimately have "ix_lookup (ix_build es digest) i = Some (pe_offset ?e, pe_len ?e)"
      unfolding ix_lookup_iff [OF sorted] by metis
    with e(2) show ?thesis by blast
  qed
qed

subsection \<open>The packs directory\<close>

lemma map_of_write_pack:
  "map_of (write_pack_atomic files stem pack idx) k =
     (if k = (stem, ''idx'') then Some idx else if k = (stem, ''pack'') then Some pack
      else if k = (stem, ''tmp'') then None else map_of files k)"
  by (auto simp: write_pack_atomic_def write_synced_def Let_def delete_conv' update_conv')

lemma map_of_remove_packs:
  "map_of (fold remove_pack olds files) k =
     (if fst k \<in> set olds \<and> snd k \<in> {''pack'', ''idx''} then None else map_of files k)"
proof -
  obtain st ext where k: "k = (st, ext)" by (cases k)
  show ?thesis unfolding k
    by (induction olds arbitrary: files) (auto simp: remove_pack_def delete_conv')
qed

lemma distinct_remove_packs: "distinct (map fst files) \<Longrightarrow> distinct (map fst (fold remove_pack olds files))"
  by (induction olds arbitrary: files) (auto simp: remove_pack_def distinct_delete)

lemma distinct_write_pack: "distinct (map fst files) \<Longrightarrow> distinct (map fst (write_pack_atomic files stem pack idx))"
  by (auto simp: write_pack_atomic_def write_synced_def Let_def distinct_delete distinct_update)

definition idx_stems :: "packdir \<Rightarrow> string set" where
  "idx_stems files = {stem. map_of files (stem, ''idx'') \<noteq> None}"

lemma set_idx_list:
  "set (map (\<lambda>((stem, ext), _). stem) (filter (\<lambda>((stem, ext), _). ext = ''idx'') files)) = idx_stems files"
  by (force simp: idx_stems_def map_of_eq_None_iff simp del: not_None_eq)

lemma distinct_idx_list:
  assumes "distinct (map fst files)"
  shows "distinct (map (\<lambda>((stem, ext), _). stem) (filter (\<lambda>((stem, ext), _). ext = ''idx'') files))"
  using assms by (induction files) force+

lemma load_packs_single:
  assumes "distinct (map fst files)" and "idx_stems files = {stem}"
    and "map_of files (stem, ''idx'') = Some (ix_encode C ix)" and "length (ix_entries ix) < 2 ^ 32"
    and "map_of files (stem, ''pack'') \<noteq> None"
  shows "load_packs C files = Inr [(ix, stem)]"
proof -
  let ?l = "map (\<lambda>((stem, ext), _). stem) (filter (\<lambda>((stem, ext), _). ext = ''idx'') files)"
  have "set ?l = {stem}" using set_idx_list assms(2) by metis
  moreover have "distinct ?l" using assms(1) by (rule distinct_idx_list)
  ultimately have "length ?l = 1" by (metis card_1_singleton_iff distinct_card One_nat_def)
  with \<open>set ?l = {stem}\<close> have l: "?l = [stem]" by (cases ?l) auto
  show ?thesis
    unfolding load_packs_def l using assms(3,5) ix_parse_encode [OF assms(4), of C] by (simp add: Let_def)
qed

lemma load_packs_empty:
  assumes "idx_stems files = {}"
  shows "load_packs C files = Inr []"
proof -
  have "map (\<lambda>((stem, ext), _). stem) (filter (\<lambda>((stem, ext), _). ext = ''idx'') files) = []"
    using set_idx_list [of files] assms by (metis set_empty)
  then show ?thesis unfolding load_packs_def by simp
qed

subsection \<open>What a repack does\<close>

lemma map_of_loose_deletes:
  "map_of (foldl loose_delete d L) (object_path i) = (if i \<in> set L then None else map_of d (object_path i))"
  by (induction L arbitrary: d) (auto simp: loose_delete_def delete_conv')

lemma loose_ok_deletes: "loose_ok Z d \<Longrightarrow> loose_ok Z (foldl loose_delete d L)"
proof -
  assume ok: "loose_ok Z d"
  have "distinct (map fst (foldl loose_delete d L))" if "distinct (map fst d)" for d
    using that by (induction L arbitrary: d) (auto simp: loose_delete_def distinct_delete)
  then show ?thesis using ok by (auto simp: loose_ok_def map_of_loose_deletes split: if_splits)
qed

lemma loose_abst_deletes: "loose_abst Z (foldl loose_delete d L) i = (if i \<in> set L then None else loose_abst Z d i)"
  by (simp add: loose_abst_def map_of_loose_deletes)

definition dir_ok :: "packed \<Rightarrow> bool" where
  "dir_ok s \<longleftrightarrow> distinct (map fst (pk_files s)) \<and> idx_stems (pk_files s) = snd ` set (pk_packs s)"

text \<open>Every object can be packed: it is stored under its hash, is not too long, and compresses.\<close>

definition packable :: "ocodec \<Rightarrow> zstd \<Rightarrow> packed \<Rightarrow> bool" where
  "packable C Z s \<longleftrightarrow> (\<forall>i c. packed_abst C Z s i = Some c \<longrightarrow> good_object C (i, c) \<and> (\<exists>z. z_enc Z c = Inr z))"

text \<open>The bounds of the file formats: file sizes fit in 64 bits and pack counts in 32.\<close>

definition small_packs :: "packed \<Rightarrow> bool" where
  "small_packs s \<longleftrightarrow> (\<forall>stem pack. map_of (pk_files s) (stem, ''pack'') = Some pack \<longrightarrow> length pack < 2 ^ 64)"

text \<open>The state after a repack that wrote \<open>objs\<close>: one pack, or none if its name was that of an old pack.\<close>

lemma new_pack_state:
  assumes "zstd_ok Z" and "packed_inv C Z s" and "dir_ok s" and "list_all (good_object C) objs"
    and "distinct (map fst objs)" and "length objs < 2 ^ 32" and fin: "finish C Z objs = Inr (pack, es, digest)"
    and files: "files = fold remove_pack (map snd (pk_packs s))
      (write_pack_atomic (pk_files s) (pack_stem digest) pack (ix_encode C (ix_build es digest)))"
    and rl: "reload_packs C (s\<lparr>pk_files := files\<rparr>) = Inr s1"
    and s': "s' = s1\<lparr>pk_objects := foldl loose_delete (pk_objects s1) (map fst objs)\<rparr>" and "small_packs s'"
  shows "packed_inv C Z s' \<and> dir_ok s' \<and> pk_objects s' = foldl loose_delete (pk_objects s) (map fst objs) \<and>
    pack_abst C Z s' = (if pack_stem digest \<in> snd ` set (pk_packs s) then (\<lambda>i. None) else map_of objs)"
proof -
  let ?stem = "pack_stem digest" and ?olds = "snd ` set (pk_packs s)" and ?ix = "ix_build es digest"
  have dist: "distinct (map fst files)"
    using assms(3) by (simp add: files dir_ok_def distinct_remove_packs distinct_write_pack)
  have stems: "idx_stems files = (if ?stem \<in> ?olds then {} else {?stem})"
    using assms(3) unfolding idx_stems_def files map_of_remove_packs map_of_write_pack dir_ok_def by auto
  have s1: "pk_files s1 = files" "pk_objects s1 = pk_objects s" "load_packs C files = Inr (pk_packs s1)"
    using rl by (auto simp: reload_packs_def bind_res_Inr)
  have lok: "loose_ok Z (foldl loose_delete (pk_objects s) (map fst objs))"
    using assms(2) by (simp add: packed_inv_def loose_ok_deletes)
  show ?thesis
  proof (cases "?stem \<in> ?olds")
    case True
    then have "pk_packs s1 = []" using load_packs_empty [of files C] stems s1(3) by simp
    then show ?thesis
      using lok True s1 stems dist by (simp add: s' packed_inv_def dir_ok_def pack_abst_def fun_eq_iff)
  next
    case False
    have pk: "map_of files (?stem, ''pack'') = Some pack" "map_of files (?stem, ''idx'') = Some (ix_encode C ?ix)"
      using False by (simp_all add: files map_of_remove_packs map_of_write_pack)
    have len: "length pack < 2 ^ 64" using assms(11) pk(1) by (auto simp: small_packs_def s' s1)
    note fi = finish_index [OF assms(1) fin assms(4,5) len]
    have "load_packs C files = Inr [(?ix, ?stem)]"
      using load_packs_single [OF dist, of ?stem C ?ix] stems False pk fi(2) assms(6) by (simp add: ix_build_def)
    then have packs: "pk_packs s1 = [(?ix, ?stem)]" using s1(3) by simp
    have rd: "read_pack_frame C Z files ?stem off len = Inr c" if "read_frame_at C Z pack off len = Inr (i, c)" for off len i c
      using that pk(1) by (auto simp: read_pack_frame_def read_frame_at_def Let_def split: if_splits)
    have "\<exists>c. read_pack_frame C Z files ?stem off len = Inr c" if "ix_lookup ?ix i = Some (off, len)" for i off len
      using that fi(3) [of i] fi(4) [of i] rd by (cases "map_of objs i") force+
    then have "packed_inv C Z s'"
      using lok s1 ix_build_sorted [OF fi(1)] by (simp add: s' packed_inv_def pack_ok_def packs)
    moreover have "pack_abst C Z s' i = map_of objs i" for i
      using fi(3) [of i] fi(4) [of i] rd s1
      by (cases "map_of objs i") (force simp: s' pack_abst_def packs)+
    ultimately show ?thesis
      using False s1 stems dist by (simp add: s' dir_ok_def packs fun_eq_iff)
  qed
qed

lemma length_entries_from: "frames_of Z objs fs \<Longrightarrow> length (entries_from off objs fs) = length objs"
  unfolding frames_of_def by (induction off objs fs rule: entries_from.induct) auto

definition overwritten :: "oid option \<Rightarrow> packed \<Rightarrow> bool" where
  "overwritten r s \<longleftrightarrow> (\<exists>d. r = Some d \<and> pack_stem d \<in> snd ` set (pk_packs s))"

lemma repack_keeping_outcome:
  assumes "zstd_ok Z" and inv: "packed_inv C Z s" and dir: "dir_ok s" and "packable C Z s"
    and small: "card (dom (packed_abst C Z s)) < 2 ^ 32"
    and res: "repack_keeping C Z s keep = Inr (r, s')" and "small_packs s'"
  shows "packed_inv C Z s' \<and> dir_ok s' \<and>
    packed_abst C Z s' = (\<lambda>i. if kept keep i then (if overwritten r s then None else packed_abst C Z s i)
      else loose_abst Z (pk_objects s) i) \<and>
    (\<forall>i. \<not> kept keep i \<longrightarrow> pack_abst C Z s' i = None)"
proof -
  let ?ids = "loose_list (pk_objects s) @ concat (map (\<lambda>(ix, stem). ix_ids ix) (pk_packs s))"
  obtain L where L: "gather C Z s keep ?ids {} [] [] = Inr (map (\<lambda>i. (i, the (packed_abst C Z s i))) L, L)"
    "distinct L" "set L = {i \<in> set ?ids. kept keep i \<and> packed_abst C Z s i \<noteq> None}"
    using gather_correct [OF inv, of keep ?ids "{}" "[]" "[]"] by auto
  have "dom (packed_abst C Z s) = set ?ids" using packed_dom [OF inv] by (simp add: case_prod_unfold)
  then have setL: "set L = {i. kept keep i \<and> packed_abst C Z s i \<noteq> None}" using L(3) by blast
  have loose_none: "loose_abst Z (pk_objects s) i = None" if "packed_abst C Z s i = None" for i
    using that by (auto simp: packed_abst_def split: option.splits)
  let ?objs = "map (\<lambda>i. (i, the (packed_abst C Z s i))) L"
  have fst: "map fst ?objs = L" by (simp add: comp_def)
  show ?thesis
  proof (cases "L = []")
    case True
    then have none: "packed_abst C Z s i = None" if "kept keep i" for i using that setL by auto
    show ?thesis
    proof (cases keep)
      case None
      then have "r = None" "s' = s" using res L(1) True by (auto simp: repack_keeping_def Let_def)
      then show ?thesis using inv dir None by (auto simp: overwritten_def kept_def)
    next
      case (Some k)
      let ?files = "fold remove_pack (map snd (pk_packs s)) (pk_files s)"
      have r: "r = None" and ret: "retire_all_packs C s = Inr s'"
        using res L(1) True Some by (auto simp: repack_keeping_def Let_def bind_res_Inr)
      have stems: "idx_stems ?files = {}"
        using dir unfolding idx_stems_def map_of_remove_packs dir_ok_def by auto
      have s': "s' = s\<lparr>pk_files := ?files, pk_packs := []\<rparr>"
        using ret load_packs_empty [OF stems, of C] by (auto simp: retire_all_packs_def reload_packs_def)
      have "packed_abst C Z s' i = loose_abst Z (pk_objects s) i" "pack_abst C Z s' i = None" for i
        by (simp_all add: packed_abst_def pack_abst_def s' split: option.splits)
      moreover have "packed_inv C Z s'" "dir_ok s'"
        using inv dir stems by (auto simp: s' packed_inv_def dir_ok_def distinct_remove_packs)
      ultimately show ?thesis
        using none loose_none by (auto simp: r overwritten_def Some fun_eq_iff)
    qed
  next
    case False
    from res L(1) False obtain pack es digest s1 where
      fin: "finish C Z ?objs = Inr (pack, es, digest)" and r: "r = Some digest"
      and rl: "reload_packs C (s\<lparr>pk_files := fold remove_pack (map snd (pk_packs s))
        (write_pack_atomic (pk_files s) (pack_stem digest) pack (ix_encode C (ix_build es digest)))\<rparr>) = Inr s1"
      and s': "s' = s1\<lparr>pk_objects := foldl loose_delete (pk_objects s1) L\<rparr>"
      by (auto simp: repack_keeping_def Let_def bind_res_Inr)
    have good: "list_all (good_object C) ?objs"
      using assms(4) setL by (fastforce simp: list_all_iff packable_def)
    have "length L = card (set L)" using L(2) by (simp add: distinct_card)
    also have "\<dots> \<le> card (dom (packed_abst C Z s))"
    proof (rule card_mono)
      show "finite (dom (packed_abst C Z s))" unfolding \<open>dom (packed_abst C Z s) = set ?ids\<close> by simp
      show "set L \<subseteq> dom (packed_abst C Z s)" using setL by blast
    qed
    finally have len: "length ?objs < 2 ^ 32" using small by simp
    have objs: "map_of ?objs = (\<lambda>i. if i \<in> set L then packed_abst C Z s i else None)"
      using setL by (auto simp: map_of_map_restrict restrict_map_def fun_eq_iff)
    have st: "packed_inv C Z s' \<and> dir_ok s' \<and> pk_objects s' = foldl loose_delete (pk_objects s) L \<and>
        pack_abst C Z s' = (if pack_stem digest \<in> snd ` set (pk_packs s) then (\<lambda>i. None) else map_of ?objs)"
      using new_pack_state [OF assms(1) inv dir good _ len fin refl rl, where s' = s', unfolded fst, OF L(2) s' assms(7)] .
    moreover have "\<forall>i. \<not> kept keep i \<longrightarrow> pack_abst C Z s' i = None" using st objs setL by auto
    moreover have "packed_abst C Z s' = (\<lambda>i. if kept keep i then (if overwritten r s then None else packed_abst C Z s i)
        else loose_abst Z (pk_objects s) i)"
    proof
      fix i
      have "packed_abst C Z s' i = (if i \<in> set L then pack_abst C Z s' i else
          case loose_abst Z (pk_objects s) i of Some c \<Rightarrow> Some c | None \<Rightarrow> pack_abst C Z s' i)"
        using st by (simp add: packed_abst_def loose_abst_deletes)
      then show "packed_abst C Z s' i = (if kept keep i then (if overwritten r s then None else packed_abst C Z s i)
        else loose_abst Z (pk_objects s) i)"
        using st objs setL loose_none [of i] r by (auto simp: overwritten_def split: option.splits)
    qed
    ultimately show ?thesis by blast
  qed
qed

lemma repack_keeping_total:
  assumes "zstd_ok Z" and inv: "packed_inv C Z s" and dir: "dir_ok s" and pk: "packable C Z s"
    and small: "card (dom (packed_abst C Z s)) < 2 ^ 32"
  shows "\<exists>r s'. repack_keeping C Z s keep = Inr (r, s')"
proof -
  let ?ids = "loose_list (pk_objects s) @ concat (map (\<lambda>(ix, stem). ix_ids ix) (pk_packs s))"
  obtain L where L: "gather C Z s keep ?ids {} [] [] = Inr (map (\<lambda>i. (i, the (packed_abst C Z s i))) L, L)"
    "distinct L" "set L = {i \<in> set ?ids. kept keep i \<and> packed_abst C Z s i \<noteq> None}"
    using gather_correct [OF inv, of keep ?ids "{}" "[]" "[]"] by auto
  have stems: "idx_stems (fold remove_pack (map snd (pk_packs s)) files) = idx_stems files - snd ` set (pk_packs s)" for files
    unfolding idx_stems_def map_of_remove_packs by auto
  let ?objs = "map (\<lambda>i. (i, the (packed_abst C Z s i))) L"
  have "\<forall>ic \<in> set ?objs. \<exists>z. z_enc Z (snd ic) = Inr z"
    using L(3) pk by (fastforce simp: packable_def)
  then obtain fs pack es digest where fin: "finish C Z ?objs = Inr (pack, es, digest)"
    and fs: "frames_of Z ?objs fs" "es = entries_from 32 ?objs fs"
    using finish_total [of ?objs Z "pack_header (length ?objs)" "[]"] by (fastforce simp: finish_def Let_def)
  let ?files = "fold remove_pack (map snd (pk_packs s))
    (write_pack_atomic (pk_files s) (pack_stem digest) pack (ix_encode C (ix_build es digest)))"
  have "length L = card (set L)" using L(2) by (simp add: distinct_card)
  also have "\<dots> \<le> card (dom (packed_abst C Z s))"
    using L(3) packed_dom [OF inv] by (intro card_mono) auto
  finally have len: "length (ix_entries (ix_build es digest)) < 2 ^ 32"
    using small fs by (simp add: ix_build_def length_entries_from)
  have "\<exists>packs. load_packs C ?files = Inr packs"
  proof (cases "pack_stem digest \<in> snd ` set (pk_packs s)")
    case True
    then have "idx_stems ?files = {}"
      using dir unfolding stems by (auto simp: idx_stems_def map_of_write_pack dir_ok_def)
    then show ?thesis using load_packs_empty by blast
  next
    case False
    then have "idx_stems ?files = {pack_stem digest}"
      using dir unfolding stems by (auto simp: idx_stems_def map_of_write_pack dir_ok_def)
    moreover have "distinct (map fst ?files)"
      using dir by (simp add: dir_ok_def distinct_remove_packs distinct_write_pack)
    ultimately show ?thesis
      using load_packs_single [of ?files "pack_stem digest" C "ix_build es digest"] False len
      by (auto simp: map_of_remove_packs map_of_write_pack)
  qed
  moreover have "\<exists>packs. load_packs C (fold remove_pack (map snd (pk_packs s)) (pk_files s)) = Inr packs"
    using dir by (simp add: load_packs_empty stems dir_ok_def)
  ultimately show ?thesis
    using L(1) fin
    by (auto simp: repack_keeping_def Let_def retire_all_packs_def reload_packs_def)
qed

text \<open>Compacting a packed repository succeeds and keeps every object readable with the bytes it had,
  provided the new pack does not get the name of a pack that was already there: all objects then live
  in the new pack, and the invariants of the directory hold again. When the new pack does get the name
  of an old one, the cleanup of superseded packs removes it again and no object is left.\<close>

lemma repack_outcome:
  assumes "zstd_ok Z" and "packed_inv C Z s" and "dir_ok s" and "packable C Z s"
    and "card (dom (packed_abst C Z s)) < 2 ^ 32"
  shows "\<exists>r s'. repack C Z s = Inr (r, s') \<and> (small_packs s' \<longrightarrow> packed_inv C Z s' \<and> dir_ok s' \<and>
    (\<forall>i. packed_get C Z s' i = (if overwritten r s then Inr None else packed_get C Z s i)))"
proof -
  obtain r s' where rep: "repack_keeping C Z s None = Inr (r, s')"
    using repack_keeping_total [OF assms] by blast
  have "packed_inv C Z s' \<and> dir_ok s' \<and>
      packed_abst C Z s' = (\<lambda>i. if overwritten r s then None else packed_abst C Z s i)" if "small_packs s'"
    using repack_keeping_outcome [OF assms rep that] by (simp add: kept_def)
  then show ?thesis using rep assms(2) by (auto simp: repack_def packed_get_abst)
qed

section \<open>Garbage collection\<close>

definition in_grace :: "u64 \<Rightarrow> u64 \<Rightarrow> objdir \<Rightarrow> oid \<Rightarrow> bool" where
  "in_grace grace_secs now d i = (case loose_mtime_secs d i of Some m \<Rightarrow> now < saturating_add m grace_secs | None \<Rightarrow> False)"

lemma map_of_sweep_loose:
  "map_of (sweep_loose R grace now d ids) (object_path i) =
     (if i \<in> set ids \<and> i \<notin> R \<and> \<not> in_grace grace now d i then None else map_of d (object_path i))"
proof (induction ids arbitrary: d)
  case (Cons j ids)
  let ?d = "if j \<in> R \<or> in_grace grace now d j then d else loose_delete d j"
  have step: "sweep_loose R grace now d (j # ids) = sweep_loose R grace now ?d ids"
    by (auto simp: sweep_loose_def in_grace_def split: option.splits)
  have "map_of ?d (object_path i) = (if i = j \<and> j \<notin> R \<and> \<not> in_grace grace now d j then None else map_of d (object_path i))"
    by (auto simp: loose_delete_def delete_conv')
  then show ?case
    unfolding step Cons.IH by (auto simp: in_grace_def loose_mtime_secs_def)
qed (simp add: sweep_loose_def)

lemma loose_ok_sweep: "loose_ok Z d \<Longrightarrow> loose_ok Z (sweep_loose R grace now d ids)"
proof -
  assume ok: "loose_ok Z d"
  have "distinct (map fst (sweep_loose R grace now d ids))" if "distinct (map fst d)" for d
    using that unfolding sweep_loose_def
    by (induction ids arbitrary: d) (auto simp: loose_delete_def distinct_delete split: option.splits)
  then show ?thesis using ok by (auto simp: loose_ok_def map_of_sweep_loose split: if_splits)
qed

text \<open>C35. A sweep of a packed repository in order succeeds and keeps every reachable object with the bytes it had and, of the
  unreachable ones, keeps just the loose files still inside the grace window. The objects fit in a pack and number
  less than 2 to the 32, and two conditions are on the pack that the sweep writes: it is shorter than 2 to the 64 bytes, and it does not get the name of
  a pack that is already there. The second one can fail, and then objects are lost: a pack is named after its
  content, and the name of a pack that is written again is among those that are removed.\<close>

theorem sweep_keeps_reachable:
  assumes "zstd_ok Z" and "packed_inv C Z s" and "dir_ok s" and "packable C Z s"
    and "card (dom (packed_abst C Z s)) < 2 ^ 32"
    and "\<And>r s1. repack_keeping C Z s (Some R) = Inr (r, s1) \<Longrightarrow> small_packs s1 \<and> \<not> overwritten r s"
  shows "\<exists>r s1 n s2. repack_keeping C Z s (Some R) = Inr (r, s1) \<and> packed_sweep C Z s R grace now = Inr (n, s2) \<and> packed_inv C Z s2 \<and>
    (\<forall>i \<in> R. packed_get C Z s2 i = packed_get C Z s i) \<and>
    (\<forall>i. i \<notin> R \<longrightarrow> packed_get C Z s2 i =
      Inr (if in_grace grace now (pk_objects s1) i then loose_abst Z (pk_objects s) i else None))"
proof -
  obtain r s1 where rep: "repack_keeping C Z s (Some R) = Inr (r, s1)"
    using repack_keeping_total [OF assms(1-5)] by blast
  then have small: "small_packs s1" and fresh: "\<not> overwritten r s" using assms(6) by blast+
  have out: "packed_inv C Z s1" "packed_abst C Z s1 =
      (\<lambda>i. if i \<in> R then packed_abst C Z s i else loose_abst Z (pk_objects s) i)"
    "\<And>i. i \<notin> R \<Longrightarrow> pack_abst C Z s1 i = None"
    using repack_keeping_outcome [OF assms(1-5) rep small] fresh by (auto simp: kept_def)
  let ?d = "sweep_loose R grace now (pk_objects s1) (loose_list (pk_objects s1))"
  let ?s2 = "s1\<lparr>pk_objects := ?d\<rparr>"
  have inv2: "packed_inv C Z ?s2" using out(1) by (simp add: packed_inv_def loose_ok_sweep)
  have ld: "loose_abst Z ?d i = (if i \<notin> R \<and> \<not> in_grace grace now (pk_objects s1) i then None
      else loose_abst Z (pk_objects s1) i)" for i
    by (auto simp: loose_abst_def map_of_sweep_loose set_loose_list split: option.splits)
  have pa: "pack_abst C Z ?s2 i = pack_abst C Z s1 i" for i
    by (auto simp: pack_abst_def split: option.split)
  have "packed_abst C Z ?s2 i = packed_abst C Z s1 i" if "i \<in> R" for i
    using that by (simp add: packed_abst_def ld pa split: option.split)
  moreover have "packed_abst C Z ?s2 i =
      (if in_grace grace now (pk_objects s1) i then loose_abst Z (pk_objects s) i else None)" if "i \<notin> R" for i
  proof -
    have "loose_abst Z (pk_objects s1) i = loose_abst Z (pk_objects s) i"
      using fun_cong [OF out(2), of i] out(3) [OF that] that by (simp add: packed_abst_def split: option.splits)
    then show ?thesis using out(3) [OF that] that by (simp add: packed_abst_def ld pa split: option.splits)
  qed
  moreover have "\<exists>n. packed_sweep C Z s R grace now = Inr (n, ?s2)"
    by (simp add: packed_sweep_def packed_count_def rep Let_def)
  ultimately show ?thesis using rep inv2 out(2) assms(2) by (auto simp: packed_get_abst)
qed

section \<open>Packs that are written twice\<close>

text \<open>The repository right after a repack that wrote \<open>objs\<close> and left nothing loose.\<close>

definition fully_packed :: "ocodec \<Rightarrow> bytes \<Rightarrow> pack_entry list \<Rightarrow> oid \<Rightarrow> packed" where
  "fully_packed C pack es digest = \<lparr>pk_objects = [], pk_clock = 0,
     pk_files = [((pack_stem digest, ''pack''), pack), ((pack_stem digest, ''idx''), ix_encode C (ix_build es digest))],
     pk_packs = [(ix_build es digest, pack_stem digest)]\<rparr>"

lemma fully_packed_state:
  assumes "zstd_ok Z" and fin: "finish C Z objs = Inr (pack, es, digest)" and good: "list_all (good_object C) objs"
    and "distinct (map fst objs)" and "length pack < 2 ^ 64"
  shows "packed_inv C Z (fully_packed C pack es digest)" and "dir_ok (fully_packed C pack es digest)"
    and "packed_abst C Z (fully_packed C pack es digest) = map_of objs"
    and "packable C Z (fully_packed C pack es digest)"
proof -
  let ?s = "fully_packed C pack es digest" and ?ix = "ix_build es digest" and ?stem = "pack_stem digest"
  note fi = finish_index [OF assms(1) fin good assms(4,5)]
  have rd: "read_pack_frame C Z (pk_files ?s) ?stem off len = Inr c"
    if "read_frame_at C Z pack off len = Inr (i, c)" for off len i c
    using that by (auto simp: fully_packed_def read_pack_frame_def read_frame_at_def Let_def split: if_splits)
  have "\<exists>c. read_pack_frame C Z (pk_files ?s) ?stem off len = Inr c" if "ix_lookup ?ix i = Some (off, len)" for i off len
    using that fi(3) [of i] fi(4) [of i] rd by (cases "map_of objs i") force+
  then show "packed_inv C Z ?s"
    using ix_build_sorted [OF fi(1)] by (simp add: packed_inv_def pack_ok_def loose_ok_def fully_packed_def)
  show "dir_ok ?s" by (auto simp: dir_ok_def fully_packed_def idx_stems_def)
  have packs: "pk_packs ?s = [(?ix, ?stem)]" "pk_objects ?s = []" by (simp_all add: fully_packed_def)
  show ab: "packed_abst C Z ?s = map_of objs"
  proof
    fix i
    show "packed_abst C Z ?s i = map_of objs i"
      using fi(3) [of i] fi(4) [of i] rd
      by (cases "map_of objs i") (force simp: packed_abst_def pack_abst_def loose_abst_def packs)+
  qed
  obtain fs where "frames_of Z objs fs" using finish_result [OF fin] by blast
  then have enc: "\<exists>z. z_enc Z c = Inr z" if "(i, c) \<in> set objs" for i c
    using that unfolding frames_of_def list_all2_conv_all_nth in_set_conv_nth encode_frame_def
    by (auto split: sum.splits) (metis old.sum.exhaust snd_conv)
  show "packable C Z ?s"
    using good enc unfolding packable_def ab by (auto simp: list_all_iff dest!: map_of_SomeD)
qed

lemma map_of_self: "distinct (map fst objs) \<Longrightarrow> map (\<lambda>i. (i, the (map_of objs i))) (map fst objs) = objs"
  unfolding map_map by (rule map_idI) (auto simp: comp_def)

lemma ids_entries_from: "frames_of Z objs fs \<Longrightarrow> map pe_id (entries_from off objs fs) = map fst objs"
  unfolding frames_of_def by (induction off objs fs rule: entries_from.induct) auto

text \<open>C39. Compacting a repository that is already one pack in id order, with nothing loose, destroys it:
  the rebuilt pack is the same bytes under the same name, so removing the superseded pack removes it,
  and afterwards no object can be read, though every one could be read before.\<close>

theorem repack_again_loses_all:
  assumes "zstd_ok Z" and fin: "finish C Z objs = Inr (pack, es, digest)" and "objs \<noteq> []"
    and good: "list_all (good_object C) objs" and sorted: "sorted_wrt (<) (map fst objs)"
    and "length objs < 2 ^ 32" and "length pack < 2 ^ 64"
  shows "(\<forall>i. packed_get C Z (fully_packed C pack es digest) i = Inr (map_of objs i)) \<and>
    (\<exists>s'. repack C Z (fully_packed C pack es digest) = Inr (Some digest, s') \<and>
      (\<forall>i. packed_get C Z s' i = Inr None))"
proof -
  let ?s = "fully_packed C pack es digest"
  have dist: "distinct (map fst objs)" using sorted strict_sorted_iff by blast
  note st = fully_packed_state [OF assms(1) fin good dist assms(7)]
  note fi = finish_index [OF assms(1) fin good dist assms(7)]
  obtain fs where fs: "frames_of Z objs fs" "es = entries_from 32 objs fs" using finish_result [OF fin] by blast
  have "map pe_id es = map fst objs"
    using fs ids_entries_from by simp
  then have ids: "ix_ids (ix_build es digest) = map fst objs"
    using sorted sort_key_id_if_sorted [of pe_id es] by (simp add: ix_ids_def ix_build_def strict_sorted_iff)
  have "\<forall>i \<in> set (map fst objs). packed_abst C Z ?s i \<noteq> None"
    unfolding st(3) by (simp only: map_of_eq_None_iff list.set_map) blast
  from gather_all [OF st(1) dist _ this, of "{}" "[]" "[]"]
  have "gather C Z ?s None (map fst objs) {} [] [] = Inr (objs, map fst objs)"
    unfolding st(3) map_of_self [OF dist] by simp
  then have g: "gather C Z ?s None (loose_list (pk_objects ?s) @
      concat (map (\<lambda>(ix, stem). ix_ids ix) (pk_packs ?s))) {} [] [] = Inr (objs, map fst objs)"
    using ids by (simp add: fully_packed_def loose_list_def)
  have card: "card (dom (packed_abst C Z ?s)) < 2 ^ 32"
    using assms(6) card_image_le [of "set objs" fst] card_length [of objs]
    unfolding st(3) dom_map_of_conv_image_fst by (meson List.finite_set le_less_trans)
  obtain r s' where rep: "repack_keeping C Z ?s None = Inr (r, s')"
    using repack_keeping_total [OF assms(1) st(1,2,4) card] by blast
  have r: "r = Some digest" using rep g fin assms(3) by (auto simp: repack_keeping_def Let_def bind_res_Inr)
  have ov: "overwritten r ?s" by (simp add: overwritten_def r fully_packed_def)
  have stems: "map_of (pk_files s') (st, ''pack'') = None" for st
    using rep g fin assms(3)
    by (auto simp: repack_keeping_def Let_def bind_res_Inr reload_packs_def fully_packed_def map_of_write_pack
        remove_pack_def delete_conv')
  then have "small_packs s'" by (simp add: small_packs_def)
  from repack_keeping_outcome [OF assms(1) st(1,2,4) card rep this] ov
  have "packed_inv C Z s'" "packed_abst C Z s' = (\<lambda>i. None)" by (auto simp: kept_def)
  then show ?thesis using rep r st(1,3) by (auto simp: repack_def packed_get_abst)
qed

text \<open>An object longer than the 128 MiB cap can be written into a pack but never read back from it:
  the writer has no cap, and the reader refuses the frame. Repacking such an object makes it
  unreadable.\<close>

lemma oversized_object_unreadable:
  assumes "MAX_OBJECT_LEN < length c" and "length c < 2 ^ 64" and "z_enc Z c = Inr z"
  shows "\<exists>f msg. encode_frame Z i c = Inr f \<and> decode_frame C Z f = Inl (Storage msg)"
proof -
  let ?ul = "of_nat (length c) :: u64"
  let ?f = "[RECORD_OBJECT] @ as_bytes i @ write_varint ?ul @ write_varint (of_nat (length z)) @ z"
  have "encode_frame Z i c = Inr ?f" by (simp add: encode_frame_def assms(3))
  moreover have "read_varint ?f 33 = Inr (?ul, 33 + length (write_varint ?ul))"
    by (rule read_write_varint_at [where pre = "RECORD_OBJECT # as_bytes i"]) simp_all
  then have "\<exists>msg. decode_frame C Z ?f = Inl (Storage msg)"
    using assms(1) unat_of_nat_u64 [OF assms(2)] by (simp add: decode_frame_def Let_def)
  ultimately show ?thesis by blast
qed

subsection \<open>Witnesses\<close>

lemma write_varint_1: "write_varint 1 = [1]"
  by (subst write_varint.simps) simp

lemma seven_packed:
  "\<exists>pack es digest. finish byte_codec stored [(7, [7])] = Inr (pack, es, digest) \<and> length pack < 2 ^ 64"
  by (simp add: finish_def finish_step_eq encode_frame_def stored_def write_varint_1 Let_def)

lemma seven_good: "list_all (good_object byte_codec) [(7, [7])]"
  by (simp add: good_object_def byte_codec_hash from_be_def MAX_OBJECT_LEN_def)

text \<open>A repository with the one object 7, loose.\<close>

definition seven_loose :: packed where
  "seven_loose = \<lparr>pk_objects = [(object_path 7, [7], 100)], pk_clock = 0, pk_files = [], pk_packs = []\<rparr>"

lemma seven_abst: "packed_abst byte_codec stored seven_loose = [7 \<mapsto> [7]]"
  by (auto simp: seven_loose_def packed_abst_def loose_abst_def pack_abst_def stored_def fun_eq_iff)

lemma seven_state:
  "packed_inv byte_codec stored seven_loose" "dir_ok seven_loose" "packable byte_codec stored seven_loose"
  "card (dom (packed_abst byte_codec stored seven_loose)) < 2 ^ 32"
  using seven_good unfolding packable_def seven_abst
  by (auto simp: seven_loose_def packed_inv_def loose_ok_def dir_ok_def idx_stems_def stored_def split: if_splits)

lemma seven_repack:
  assumes "repack_keeping byte_codec stored seven_loose (Some {7}) = Inr (r, s1)"
  shows "small_packs s1 \<and> \<not> overwritten r seven_loose"
proof -
  obtain pack es digest where fin: "finish byte_codec stored [(7, [7])] = Inr (pack, es, digest)" "length pack < 2 ^ 64"
    using seven_packed by blast
  have "packed_get byte_codec stored seven_loose 7 = Inr (Some [7])"
    using packed_get_abst [OF seven_state(1)] by (simp add: seven_abst)
  moreover have "loose_list (pk_objects seven_loose) = [7]" "pk_packs seven_loose = []" by code_simp+
  ultimately have "pk_files s1 = write_pack_atomic (pk_files seven_loose) (pack_stem digest) pack (ix_encode byte_codec (ix_build es digest))"
    using assms fin(1) by (auto simp: repack_keeping_def builder_add_def reload_packs_def Let_def bind_res_Inr)
  then have "small_packs s1" using fin(2) by (auto simp: small_packs_def map_of_write_pack seven_loose_def split: if_splits)
  then show ?thesis by (simp add: overwritten_def seven_loose_def)
qed

theorem sweep_keeps_reachable_witness:
  "\<exists>n s2. packed_sweep byte_codec stored seven_loose {7} 60 1000 = Inr (n, s2) \<and>
     packed_get byte_codec stored s2 7 = packed_get byte_codec stored seven_loose 7"
  using sweep_keeps_reachable [OF stored_ok(1) seven_state seven_repack, of "{7}" 60 1000] by fastforce

theorem repack_again_loses_all_witness:
  "\<exists>s s'. packed_get byte_codec stored s 7 = Inr (Some [7]) \<and>
     (\<exists>r. repack byte_codec stored s = Inr (r, s')) \<and> packed_get byte_codec stored s' 7 = Inr None"
proof -
  obtain pack es digest where fin: "finish byte_codec stored [(7, [7])] = Inr (pack, es, digest)"
    and len: "length pack < 2 ^ 64" using seven_packed by blast
  let ?s = "fully_packed byte_codec pack es digest"
  from repack_again_loses_all [OF stored_ok(1) fin _ seven_good _ _ len]
  have "packed_get byte_codec stored ?s 7 = Inr (Some [7])"
    "\<exists>s'. repack byte_codec stored ?s = Inr (Some digest, s') \<and> packed_get byte_codec stored s' 7 = Inr None"
    by (simp, fastforce)
  then show ?thesis by blast
qed

end
