(* ===== verification/Refs.thy ===== *)
theory Refs
  imports Objects
begin

text \<open>
  Named references: \<^verbatim>\<open>src/refs/name.rs\<close>, \<^verbatim>\<open>tag.rs\<close>, \<^verbatim>\<open>timeline.rs\<close>, \<^verbatim>\<open>ref_type.rs\<close>, the backend
  interface of \<^verbatim>\<open>backend.rs\<close>, the memory backend of \<^verbatim>\<open>memory.rs\<close>, the store of \<^verbatim>\<open>mod.rs\<close> and the
  transactions of \<^verbatim>\<open>transaction.rs\<close>. The contract of a backend is the locale \<open>ref_table\<close>; in it the
  store is proved to run a transaction as if its operations ran one after the other on a map, or to
  change nothing. The memory backend is interpreted here, the disk backend in the theory on disk refs.
\<close>

section \<open>Names\<close>

definition quoted :: "string \<Rightarrow> string" where
  "quoted s = CHR 0x27 # s @ [CHR 0x27]"

text \<open>\<^verbatim>\<open>str::split\<close> at one character.\<close>

fun split_at :: "char \<Rightarrow> string \<Rightarrow> string list" where
  "split_at c [] = [[]]"
| "split_at c (x # s) =
     (if x = c then [] # split_at c s
      else case split_at c s of [] \<Rightarrow> [[x]] | seg # segs \<Rightarrow> (x # seg) # segs)"

fun check_segments :: "string list \<Rightarrow> unit result" where
  "check_segments [] = Inr ()"
| "check_segments (seg # segs) =
     (if seg = [] then Inl (InvalidRefName ''consecutive slashes produce empty segment'')
      else if hd seg = CHR ''.'' then Inl (InvalidRefName (''segment must not start with '' @ quoted ''.''))
      else if CHR 0x00 \<in> set seg then Inl (InvalidRefName ''null byte in segment'')
      else check_segments segs)"

text \<open>A \<^verbatim>\<open>RefName\<close> is the string it wraps.\<close>

type_synonym ref_name = string

definition ref_name_new :: "string \<Rightarrow> ref_name result" where
  "ref_name_new s =
     (if s = [] then Inl (InvalidRefName ''name must not be empty'')
      else if hd s = CHR ''/'' then Inl (InvalidRefName (''name must not start with '' @ quoted ''/''))
      else if last s = CHR ''/'' then Inl (InvalidRefName (''name must not end with '' @ quoted ''/''))
      else bind_res (check_segments (split_at CHR ''/'' s)) (\<lambda>_. Inr s))"

definition ref_prefix :: "ref_name \<Rightarrow> string" where
  "ref_prefix n = (if CHR ''/'' \<in> set n then rev (tl (dropWhile (\<lambda>c. c \<noteq> CHR ''/'') (rev n))) else [])"

section \<open>Refs\<close>

record tag =
  tag_target :: oid
  tag_created_at :: u64
  tag_message :: "string option"

datatype timeline_policy = FastForwardOnly | Append | Unrestricted

record timeline =
  tl_head :: oid
  tl_policy :: timeline_policy
  tl_created_at :: u64
  tl_kind :: string
  tl_expires_at :: "u64 option"

datatype ref = RTag tag | RTimeline timeline

section \<open>The backend interface\<close>

type_synonym plan = "(ref_name \<times> ref option) list"

record 's ref_backend =
  rb_get :: "'s \<Rightarrow> ref_name \<Rightarrow> ref option result"
  rb_set :: "'s \<Rightarrow> ref_name \<Rightarrow> ref \<Rightarrow> 's result"
  rb_delete :: "'s \<Rightarrow> ref_name \<Rightarrow> 's result"
  rb_list :: "'s \<Rightarrow> string \<Rightarrow> ref_name list result"
  rb_apply_atomic :: "'s \<Rightarrow> plan \<Rightarrow> 's result"
  rb_recover :: "'s \<Rightarrow> 's result"

definition plan_step ::
  "('s \<Rightarrow> ref_name \<Rightarrow> ref \<Rightarrow> 's result) \<Rightarrow> ('s \<Rightarrow> ref_name \<Rightarrow> 's result) \<Rightarrow> ref_name \<times> ref option \<Rightarrow> 's \<Rightarrow> 's result" where
  "plan_step setf delf nv s = (case nv of (n, Some r) \<Rightarrow> setf s n r | (n, None) \<Rightarrow> delf s n)"

definition default_apply_atomic ::
  "('s \<Rightarrow> ref_name \<Rightarrow> ref \<Rightarrow> 's result) \<Rightarrow> ('s \<Rightarrow> ref_name \<Rightarrow> 's result) \<Rightarrow> 's \<Rightarrow> plan \<Rightarrow> 's result" where
  "default_apply_atomic setf delf s plan = fold_res (plan_step setf delf) plan s"

definition default_recover :: "'s \<Rightarrow> 's result" where
  "default_recover s = Inr s"

section \<open>The memory backend\<close>

type_synonym mem_refs = "(ref_name \<times> ref) list"

definition mr_get :: "mem_refs \<Rightarrow> ref_name \<Rightarrow> ref option result" where
  "mr_get s n = Inr (map_of s n)"

definition mr_set :: "mem_refs \<Rightarrow> ref_name \<Rightarrow> ref \<Rightarrow> mem_refs result" where
  "mr_set s n r = Inr (AList.update n r s)"

definition mr_delete :: "mem_refs \<Rightarrow> ref_name \<Rightarrow> mem_refs result" where
  "mr_delete s n = Inr (AList.delete n s)"

definition starts_with :: "string \<Rightarrow> string \<Rightarrow> bool" where
  "starts_with p s \<longleftrightarrow> take (length p) s = p"

definition mr_list :: "mem_refs \<Rightarrow> string \<Rightarrow> ref_name list result" where
  "mr_list s prefix = Inr (sort (filter (starts_with prefix) (map fst s)))"

definition memory_refs :: "mem_refs ref_backend" where
  "memory_refs = \<lparr>rb_get = mr_get, rb_set = mr_set, rb_delete = mr_delete, rb_list = mr_list,
     rb_apply_atomic = default_apply_atomic mr_set mr_delete, rb_recover = default_recover\<rparr>"

section \<open>The store\<close>

definition err_exists :: "ref_name \<Rightarrow> error" where
  "err_exists n = Storage (''ref already exists: '' @ n)"

definition err_missing :: "ref_name \<Rightarrow> error" where
  "err_missing n = Storage (''ref not found: '' @ n)"

definition err_is_timeline :: "ref_name \<Rightarrow> error" where
  "err_is_timeline n = WrongRefKind (quoted n @ '' is a timeline, not a tag'')"

definition err_is_tag :: "ref_name \<Rightarrow> error" where
  "err_is_tag n = WrongRefKind (quoted n @ '' is a tag, not a timeline'')"

definition err_precondition :: "ref_name \<Rightarrow> error" where
  "err_precondition n = TransactionConflict (''precondition failed for '' @ quoted n)"

definition err_head :: "ref_name \<Rightarrow> error" where
  "err_head n = TransactionConflict (''head of '' @ quoted n @ '' is not the expected value'')"

definition create_tag :: "'s ref_backend \<Rightarrow> 's \<Rightarrow> ref_name \<Rightarrow> oid \<Rightarrow> string option \<Rightarrow> u64 \<Rightarrow> 's result" where
  "create_tag B s n target msg now =
     bind_res (rb_get B s n) (\<lambda>cur.
       if cur \<noteq> None then Inl (err_exists n)
       else rb_set B s n (RTag \<lparr>tag_target = target, tag_created_at = now, tag_message = msg\<rparr>))"

definition move_tag :: "'s ref_backend \<Rightarrow> 's \<Rightarrow> ref_name \<Rightarrow> oid \<Rightarrow> 's result" where
  "move_tag B s n target =
     bind_res (rb_get B s n) (\<lambda>cur. case cur of
         Some (RTag t) \<Rightarrow> rb_set B s n (RTag (t\<lparr>tag_target := target\<rparr>))
       | Some (RTimeline _) \<Rightarrow> Inl (err_is_timeline n)
       | None \<Rightarrow> Inl (err_missing n))"

definition get_tag :: "'s ref_backend \<Rightarrow> 's \<Rightarrow> ref_name \<Rightarrow> tag option result" where
  "get_tag B s n =
     bind_res (rb_get B s n) (\<lambda>cur. case cur of
         Some (RTag t) \<Rightarrow> Inr (Some t)
       | Some (RTimeline _) \<Rightarrow> Inl (err_is_timeline n)
       | None \<Rightarrow> Inr None)"

definition create_timeline ::
  "'s ref_backend \<Rightarrow> 's \<Rightarrow> ref_name \<Rightarrow> oid \<Rightarrow> timeline_policy \<Rightarrow> u64 \<Rightarrow> string \<Rightarrow> u64 option \<Rightarrow> 's result" where
  "create_timeline B s n head policy now kind expires =
     bind_res (rb_get B s n) (\<lambda>cur.
       if cur \<noteq> None then Inl (err_exists n)
       else rb_set B s n (RTimeline \<lparr>tl_head = head, tl_policy = policy, tl_created_at = now,
         tl_kind = kind, tl_expires_at = expires\<rparr>))"

definition advance_head :: "'s ref_backend \<Rightarrow> 's \<Rightarrow> ref_name \<Rightarrow> oid \<Rightarrow> 's result" where
  "advance_head B s n new_head =
     bind_res (rb_get B s n) (\<lambda>cur. case cur of
         Some (RTimeline t) \<Rightarrow> rb_set B s n (RTimeline (t\<lparr>tl_head := new_head\<rparr>))
       | Some (RTag _) \<Rightarrow> Inl (err_is_tag n)
       | None \<Rightarrow> Inl (err_missing n))"

definition get_timeline :: "'s ref_backend \<Rightarrow> 's \<Rightarrow> ref_name \<Rightarrow> timeline option result" where
  "get_timeline B s n =
     bind_res (rb_get B s n) (\<lambda>cur. case cur of
         Some (RTimeline t) \<Rightarrow> Inr (Some t)
       | Some (RTag _) \<Rightarrow> Inl (err_is_tag n)
       | None \<Rightarrow> Inr None)"

section \<open>Transactions\<close>

datatype ref_op =
    CreateTag ref_name oid "string option" u64
  | MoveTag ref_name oid
  | CreateTimeline ref_name oid timeline_policy u64 string "u64 option"
  | AdvanceHead ref_name oid
  | SetRef ref_name ref
  | DeleteRef ref_name
  | Expect ref_name "ref option"
  | AdvanceHeadIf ref_name oid oid

type_synonym overlay = "(ref_name, ref option) btree"

definition current :: "'s ref_backend \<Rightarrow> 's \<Rightarrow> overlay \<Rightarrow> ref_name \<Rightarrow> ref option result" where
  "current B s ov n = (case bt_get ov n of Some v \<Rightarrow> Inr v | None \<Rightarrow> rb_get B s n)"

fun resolve_op :: "'s ref_backend \<Rightarrow> 's \<Rightarrow> ref_op \<Rightarrow> overlay \<Rightarrow> overlay result" where
  "resolve_op B s (CreateTag n target msg now) ov =
     bind_res (current B s ov n) (\<lambda>cur.
       if cur \<noteq> None then Inl (err_exists n)
       else Inr (bt_insert n (Some (RTag \<lparr>tag_target = target, tag_created_at = now, tag_message = msg\<rparr>)) ov))"
| "resolve_op B s (MoveTag n target) ov =
     bind_res (current B s ov n) (\<lambda>cur. case cur of
         Some (RTag t) \<Rightarrow> Inr (bt_insert n (Some (RTag (t\<lparr>tag_target := target\<rparr>))) ov)
       | Some (RTimeline _) \<Rightarrow> Inl (err_is_timeline n)
       | None \<Rightarrow> Inl (err_missing n))"
| "resolve_op B s (CreateTimeline n head policy now kind expires) ov =
     bind_res (current B s ov n) (\<lambda>cur.
       if cur \<noteq> None then Inl (err_exists n)
       else Inr (bt_insert n (Some (RTimeline \<lparr>tl_head = head, tl_policy = policy, tl_created_at = now,
         tl_kind = kind, tl_expires_at = expires\<rparr>)) ov))"
| "resolve_op B s (AdvanceHead n new_head) ov =
     bind_res (current B s ov n) (\<lambda>cur. case cur of
         Some (RTimeline t) \<Rightarrow> Inr (bt_insert n (Some (RTimeline (t\<lparr>tl_head := new_head\<rparr>))) ov)
       | Some (RTag _) \<Rightarrow> Inl (err_is_tag n)
       | None \<Rightarrow> Inl (err_missing n))"
| "resolve_op B s (SetRef n v) ov = Inr (bt_insert n (Some v) ov)"
| "resolve_op B s (DeleteRef n) ov = Inr (bt_insert n None ov)"
| "resolve_op B s (Expect n expected) ov =
     bind_res (current B s ov n) (\<lambda>cur. if cur \<noteq> expected then Inl (err_precondition n) else Inr ov)"
| "resolve_op B s (AdvanceHeadIf n expected_old new_head) ov =
     bind_res (current B s ov n) (\<lambda>cur. case cur of
         Some (RTimeline t) \<Rightarrow>
           if tl_head t = expected_old then Inr (bt_insert n (Some (RTimeline (t\<lparr>tl_head := new_head\<rparr>))) ov)
           else Inl (err_head n)
       | Some (RTag _) \<Rightarrow> Inl (err_is_tag n)
       | None \<Rightarrow> Inl (err_missing n))"

definition resolve :: "'s ref_backend \<Rightarrow> 's \<Rightarrow> ref_op list \<Rightarrow> plan result" where
  "resolve B s ops = fold_res (resolve_op B s) ops []"

definition commit_transaction :: "'s ref_backend \<Rightarrow> 's \<Rightarrow> ref_op list \<Rightarrow> 's result" where
  "commit_transaction B s ops = bind_res (resolve B s ops) (rb_apply_atomic B s)"

section \<open>What a valid name is\<close>

fun join_with :: "char \<Rightarrow> string list \<Rightarrow> string" where
  "join_with c [] = []"
| "join_with c [seg] = seg"
| "join_with c (seg # segs) = seg @ c # join_with c segs"

definition segs :: "ref_name \<Rightarrow> string list" where
  "segs n = split_at CHR ''/'' n"

definition good_segment :: "string \<Rightarrow> bool" where
  "good_segment seg \<longleftrightarrow> seg \<noteq> [] \<and> hd seg \<noteq> CHR ''.'' \<and> CHR 0x00 \<notin> set seg \<and> CHR ''/'' \<notin> set seg"

definition valid_name :: "ref_name \<Rightarrow> bool" where
  "valid_name n \<longleftrightarrow> list_all good_segment (segs n)"

lemma split_at_neq [simp]: "split_at c s \<noteq> []"
  by (cases s) (auto split: list.splits)

lemma split_at_no_sep: "seg \<in> set (split_at c s) \<Longrightarrow> c \<notin> set seg"
  by (induction c s arbitrary: seg rule: split_at.induct) (auto split: if_splits list.splits)

lemma join_split [simp]: "join_with c (split_at c s) = s"
proof (induction c s rule: split_at.induct)
  case (2 c x s)
  then show ?case
    by (cases "split_at c s"; cases "tl (split_at c s)") (auto split: list.splits)
qed simp

lemma split_at_plain: "c \<notin> set seg \<Longrightarrow> split_at c seg = [seg]"
  by (induction seg) auto

lemma split_at_append: "c \<notin> set seg \<Longrightarrow> split_at c (seg @ c # s) = seg # split_at c s"
  by (induction seg) auto

lemma split_join:
  assumes "ss \<noteq> []" and "\<forall>seg \<in> set ss. c \<notin> set seg"
  shows "split_at c (join_with c ss) = ss"
  using assms by (induction c ss rule: join_with.induct) (auto simp: split_at_plain split_at_append)

lemma segs_inject [simp]: "segs m = segs n \<longleftrightarrow> m = n"
  unfolding segs_def by (metis join_split)

lemma check_segments_iff:
  "check_segments ss = Inr () \<longleftrightarrow> (\<forall>seg \<in> set ss. seg \<noteq> [] \<and> hd seg \<noteq> CHR ''.'' \<and> CHR 0x00 \<notin> set seg)"
  by (induction ss) auto

lemma hd_split_at: "s = [] \<or> hd s = c \<longleftrightarrow> hd (split_at c s) = []"
  by (cases s) (auto split: list.splits)

lemma last_split_at: "last (split_at c (s @ [c])) = []"
proof (induction s)
  case (Cons x s)
  obtain seg ss where eq: "split_at c (s @ [c]) = seg # ss" by (cases "split_at c (s @ [c])") auto
  have "ss \<noteq> []"
  proof
    assume "ss = []"
    with Cons eq have "split_at c (s @ [c]) = [[]]" by simp
    then have "s @ [c] = []" by (metis join_split join_with.simps(2))
    then show False by simp
  qed
  with Cons eq show ?case by simp
qed simp

lemma valid_name_iff: "ref_name_new s = Inr n \<longleftrightarrow> n = s \<and> valid_name s"
proof -
  have seg: "valid_name s \<longleftrightarrow> check_segments (segs s) = Inr ()"
    unfolding valid_name_def check_segments_iff list_all_iff good_segment_def
    using split_at_no_sep [where c = "CHR ''/''" and s = s] unfolding segs_def [symmetric] by blast
  have hd: "s \<noteq> [] \<and> hd s \<noteq> CHR ''/''" and lst: "last s \<noteq> CHR ''/''" if "valid_name s"
  proof -
    have ne: "\<forall>seg \<in> set (segs s). seg \<noteq> []" using that by (auto simp: valid_name_def list_all_iff good_segment_def)
    then have "hd (segs s) \<noteq> []" "last (segs s) \<noteq> []" by (simp_all add: segs_def)
    then show "s \<noteq> [] \<and> hd s \<noteq> CHR ''/''" "last s \<noteq> CHR ''/''"
      using hd_split_at [of s "CHR ''/''"] last_split_at [of "CHR ''/''" "butlast s"]
      by (auto simp: segs_def) (metis append_butlast_last_id)
  qed
  show ?thesis
    using hd lst unfolding ref_name_new_def segs_def [symmetric]
    by (auto simp: seg bind_res_Inr)
qed

text \<open>A reference name is accepted exactly when it is one or more segments joined by slashes, each
  non-empty, not starting with a dot and free of slashes and null bytes; the accepted name is the
  string itself.\<close>

lemma ref_name_grammar:
  "(\<exists>n. ref_name_new s = Inr n) \<longleftrightarrow> (\<exists>ss. ss \<noteq> [] \<and> list_all good_segment ss \<and> s = join_with CHR ''/'' ss)"
proof
  assume "\<exists>n. ref_name_new s = Inr n"
  then have "valid_name s" by (auto simp: valid_name_iff)
  then show "\<exists>ss. ss \<noteq> [] \<and> list_all good_segment ss \<and> s = join_with CHR ''/'' ss"
    by (intro exI [of _ "segs s"]) (simp add: valid_name_def segs_def)
next
  assume "\<exists>ss. ss \<noteq> [] \<and> list_all good_segment ss \<and> s = join_with CHR ''/'' ss"
  then obtain ss where ss: "ss \<noteq> []" "list_all good_segment ss" "s = join_with CHR ''/'' ss" by blast
  then have "segs s = ss" unfolding segs_def by (auto simp: good_segment_def list_all_iff intro: split_join)
  then show "\<exists>n. ref_name_new s = Inr n" using ss(2) by (simp add: valid_name_iff valid_name_def)
qed

section \<open>The contract of a backend\<close>

text \<open>What a plan does to a map of refs.\<close>

definition plan_effect :: "plan \<Rightarrow> (ref_name \<rightharpoonup> ref) \<Rightarrow> (ref_name \<rightharpoonup> ref)" where
  "plan_effect plan m = fold (\<lambda>(n, v) m. m(n := v)) plan m"

definition overlaid :: "overlay \<Rightarrow> (ref_name \<rightharpoonup> ref) \<Rightarrow> (ref_name \<rightharpoonup> ref)" where
  "overlaid ov m n = (case bt_get ov n of Some v \<Rightarrow> v | None \<Rightarrow> m n)"

lemma plan_effect_Nil [simp]: "plan_effect [] m = m"
  by (simp add: plan_effect_def)

lemma plan_effect_Cons: "plan_effect ((n, v) # plan) m = plan_effect plan (m(n := v))"
  by (simp add: plan_effect_def)

lemma plan_effect_overlaid: "distinct (map fst plan) \<Longrightarrow> plan_effect plan m = overlaid plan m"
  by (induction plan arbitrary: m)
    (auto simp: plan_effect_Cons overlaid_def fun_eq_iff split: option.splits dest!: map_of_SomeD, force)

lemma overlaid_Nil [simp]: "overlaid [] m = m"
  by (simp add: overlaid_def fun_eq_iff)

lemma overlaid_insert [simp]: "overlaid (bt_insert n v ov) m = (overlaid ov m)(n := v)"
  by (auto simp: overlaid_def fun_eq_iff)

text \<open>
  The operations of a transaction on a map, one at a time: what \<^verbatim>\<open>commit\<close> promises, without overlay
  or plan.
\<close>

fun op_name :: "ref_op \<Rightarrow> ref_name" where
  "op_name (CreateTag n _ _ _) = n"
| "op_name (MoveTag n _) = n"
| "op_name (CreateTimeline n _ _ _ _ _) = n"
| "op_name (AdvanceHead n _) = n"
| "op_name (SetRef n _) = n"
| "op_name (DeleteRef n) = n"
| "op_name (Expect n _) = n"
| "op_name (AdvanceHeadIf n _ _) = n"

fun new_value :: "ref_op \<Rightarrow> ref option \<Rightarrow> ref option result" where
  "new_value (CreateTag n target msg now) cur =
     (if cur \<noteq> None then Inl (err_exists n)
      else Inr (Some (RTag \<lparr>tag_target = target, tag_created_at = now, tag_message = msg\<rparr>)))"
| "new_value (MoveTag n target) cur = (case cur of
       Some (RTag t) \<Rightarrow> Inr (Some (RTag (t\<lparr>tag_target := target\<rparr>)))
     | Some (RTimeline _) \<Rightarrow> Inl (err_is_timeline n)
     | None \<Rightarrow> Inl (err_missing n))"
| "new_value (CreateTimeline n head policy now kind expires) cur =
     (if cur \<noteq> None then Inl (err_exists n)
      else Inr (Some (RTimeline \<lparr>tl_head = head, tl_policy = policy, tl_created_at = now,
        tl_kind = kind, tl_expires_at = expires\<rparr>)))"
| "new_value (AdvanceHead n new_head) cur = (case cur of
       Some (RTimeline t) \<Rightarrow> Inr (Some (RTimeline (t\<lparr>tl_head := new_head\<rparr>)))
     | Some (RTag _) \<Rightarrow> Inl (err_is_tag n)
     | None \<Rightarrow> Inl (err_missing n))"
| "new_value (SetRef n v) cur = Inr (Some v)"
| "new_value (DeleteRef n) cur = Inr None"
| "new_value (Expect n expected) cur = (if cur \<noteq> expected then Inl (err_precondition n) else Inr cur)"
| "new_value (AdvanceHeadIf n old new_head) cur = (case cur of
       Some (RTimeline t) \<Rightarrow>
         if tl_head t = old then Inr (Some (RTimeline (t\<lparr>tl_head := new_head\<rparr>))) else Inl (err_head n)
     | Some (RTag _) \<Rightarrow> Inl (err_is_tag n)
     | None \<Rightarrow> Inl (err_missing n))"

definition op_effect :: "ref_op \<Rightarrow> (ref_name \<rightharpoonup> ref) \<Rightarrow> (ref_name \<rightharpoonup> ref) result" where
  "op_effect op m = bind_res (new_value op (m (op_name op))) (\<lambda>v. Inr (m(op_name op := v)))"

locale ref_table =
  fixes inv :: "'s \<Rightarrow> bool"
    and fits :: "'s \<Rightarrow> ref_name set \<Rightarrow> bool"
    and abst :: "'s \<Rightarrow> ref_name \<rightharpoonup> ref"
    and B :: "'s ref_backend"
  assumes get_law: "inv s \<Longrightarrow> fits s N \<Longrightarrow> n \<in> N \<Longrightarrow> rb_get B s n = Inr (abst s n)"
    and set_law: "inv s \<Longrightarrow> fits s N \<Longrightarrow> n \<in> N \<Longrightarrow>
      \<exists>s'. rb_set B s n r = Inr s' \<and> inv s' \<and> fits s' N \<and> abst s' = (abst s)(n \<mapsto> r)"
    and delete_law: "inv s \<Longrightarrow> fits s N \<Longrightarrow> n \<in> N \<Longrightarrow>
      \<exists>s'. rb_delete B s n = Inr s' \<and> inv s' \<and> fits s' N \<and> abst s' = (abst s)(n := None)"
    and apply_law: "inv s \<Longrightarrow> fits s N \<Longrightarrow> fst ` set plan \<subseteq> N \<Longrightarrow>
      \<exists>s'. rb_apply_atomic B s plan = Inr s' \<and> inv s' \<and> fits s' N \<and> abst s' = plan_effect plan (abst s)"
    and list_law: "inv s \<Longrightarrow> \<exists>ns. rb_list B s prefix = Inr ns \<and> sorted ns \<and> distinct ns \<and>
      set ns = {n \<in> dom (abst s). starts_with prefix n}"
begin

lemma current_overlaid:
  assumes "inv s" and "fits s N" and "n \<in> N"
  shows "current B s ov n = Inr (overlaid ov (abst s) n)"
  using get_law [OF assms] by (simp add: current_def overlaid_def split: option.split)

text \<open>One operation on the overlay is that operation on the overlaid map.\<close>

lemma resolve_op_effect:
  assumes "inv s" and "fits s N" and "op_name op \<in> N"
  shows "case resolve_op B s op ov of
      Inl e \<Rightarrow> op_effect op (overlaid ov (abst s)) = Inl e
    | Inr ov' \<Rightarrow> op_effect op (overlaid ov (abst s)) = Inr (overlaid ov' (abst s)) \<and>
        set (bt_keys ov') \<subseteq> insert (op_name op) (set (bt_keys ov)) \<and> (bt_wf ov \<longrightarrow> bt_wf ov')"
  using current_overlaid [OF assms]
  by (cases op) (auto simp: op_effect_def split: option.splits ref.splits sum.splits if_splits)

lemma resolve_effect:
  assumes "inv s" and "fits s N" and "op_name ` set ops \<subseteq> N" and "bt_wf ov" and "set (bt_keys ov) \<subseteq> N"
  shows "case fold_res (resolve_op B s) ops ov of
      Inl e \<Rightarrow> fold_res op_effect ops (overlaid ov (abst s)) = Inl e
    | Inr ov' \<Rightarrow> fold_res op_effect ops (overlaid ov (abst s)) = Inr (overlaid ov' (abst s)) \<and>
        bt_wf ov' \<and> set (bt_keys ov') \<subseteq> N"
  using assms(3-5)
proof (induction ops arbitrary: ov)
  case (Cons op ops)
  have op: "op_name op \<in> N" using Cons.prems(1) by simp
  note step = resolve_op_effect [OF assms(1,2) op, of ov]
  show ?case
  proof (cases "resolve_op B s op ov")
    case (Inl e)
    with step show ?thesis by simp
  next
    case (Inr ov')
    with step have "bt_wf ov \<longrightarrow> bt_wf ov'" "set (bt_keys ov') \<subseteq> insert (op_name op) (set (bt_keys ov))" by auto
    with op Cons.prems(2,3) have "bt_wf ov'" "set (bt_keys ov') \<subseteq> N" by blast+
    then show ?thesis using Cons.IH [of ov'] Cons.prems(1) Inr step by (auto split: sum.splits)
  qed
qed simp

lemma commit_refines:
  assumes "inv s" and "fits s N" and "op_name ` set ops \<subseteq> N"
  shows "case fold_res op_effect ops (abst s) of
      Inl e \<Rightarrow> commit_transaction B s ops = Inl e
    | Inr m \<Rightarrow> \<exists>s'. commit_transaction B s ops = Inr s' \<and> inv s' \<and> fits s' N \<and> abst s' = m"
proof -
  note res = resolve_effect [OF assms bt_wf_Nil, simplified]
  show ?thesis
  proof (cases "fold_res (resolve_op B s) ops []")
    case (Inl e)
    with res show ?thesis by (simp add: commit_transaction_def resolve_def)
  next
    case (Inr plan)
    with res have p: "fold_res op_effect ops (abst s) = Inr (overlaid plan (abst s))" "bt_wf plan"
      "fst ` set plan \<subseteq> N" by auto
    from apply_law [OF assms(1,2) p(3)] show ?thesis
      using Inr p plan_effect_overlaid [OF bt_wf_distinct [OF p(2)]]
      by (auto simp: commit_transaction_def resolve_def)
  qed
qed

lemma commit_resolved:
  assumes "inv s" and "fits s N" and "op_name ` set ops \<subseteq> N" and "resolve B s ops = Inr plan"
  shows "\<exists>s'. commit_transaction B s ops = Inr s'"
proof -
  have "fst ` set plan \<subseteq> N"
    using resolve_effect [OF assms(1-3) bt_wf_Nil] assms(4) by (simp add: resolve_def split: sum.splits)
  from apply_law [OF assms(1,2) this] assms(4) show ?thesis by (auto simp: commit_transaction_def)
qed

text \<open>The methods of the store that take one step are transactions of one operation.\<close>

lemma single_op:
  assumes "inv s" and "fits s N" and "n \<in> N"
  shows "case new_value op (abst s n) of
      Inl e \<Rightarrow> True
    | Inr v \<Rightarrow> \<exists>s'. (case v of Some r \<Rightarrow> rb_set B s n r | None \<Rightarrow> rb_delete B s n) = Inr s' \<and>
        inv s' \<and> fits s' N \<and> abst s' = (abst s)(n := v)"
  using set_law [OF assms] delete_law [OF assms] by (auto split: sum.splits option.splits)

definition agrees :: "'s result \<Rightarrow> 's result \<Rightarrow> bool" where
  "agrees r r' \<longleftrightarrow> (case r of Inl e \<Rightarrow> r' = Inl e | Inr s \<Rightarrow> \<exists>s'. r' = Inr s' \<and> inv s \<and> inv s' \<and> abst s = abst s')"

lemma agreesI:
  assumes "inv s" and "fits s N" and "op_name op \<in> N"
    and "r = (case new_value op (abst s (op_name op)) of Inl e \<Rightarrow> Inl e
      | Inr v \<Rightarrow> (case v of Some x \<Rightarrow> rb_set B s (op_name op) x | None \<Rightarrow> rb_delete B s (op_name op)))"
  shows "agrees r (commit_transaction B s [op])"
  using commit_refines [OF assms(1,2), of "[op]"] single_op [OF assms(1-3), of op] assms(3,4)
  by (cases "new_value op (abst s (op_name op))") (auto simp: agrees_def op_effect_def)

lemma store_ops_agree:
  assumes "inv s" and "fits s N" and "n \<in> N"
  shows "agrees (create_tag B s n target msg now) (commit_transaction B s [CreateTag n target msg now])"
    and "agrees (move_tag B s n target) (commit_transaction B s [MoveTag n target])"
    and "agrees (create_timeline B s n head policy now kind expires)
      (commit_transaction B s [CreateTimeline n head policy now kind expires])"
    and "agrees (advance_head B s n head) (commit_transaction B s [AdvanceHead n head])"
    and "agrees (rb_delete B s n) (commit_transaction B s [DeleteRef n])"
    and "agrees (rb_set B s n r) (commit_transaction B s [SetRef n r])"
proof -
  note g = get_law [OF assms] and I = agreesI [OF assms(1,2)]
  show "agrees (create_tag B s n target msg now) (commit_transaction B s [CreateTag n target msg now])"
    by (rule I) (use assms(3) g in \<open>auto simp: create_tag_def\<close>)
  show "agrees (move_tag B s n target) (commit_transaction B s [MoveTag n target])"
    by (rule I) (use assms(3) g in \<open>auto simp: move_tag_def split: option.splits ref.splits\<close>)
  show "agrees (create_timeline B s n head policy now kind expires)
      (commit_transaction B s [CreateTimeline n head policy now kind expires])"
    by (rule I) (use assms(3) g in \<open>auto simp: create_timeline_def\<close>)
  show "agrees (advance_head B s n head) (commit_transaction B s [AdvanceHead n head])"
    by (rule I) (use assms(3) g in \<open>auto simp: advance_head_def split: option.splits ref.splits\<close>)
  show "agrees (rb_delete B s n) (commit_transaction B s [DeleteRef n])"
    by (rule I) (use assms(3) in auto)
  show "agrees (rb_set B s n r) (commit_transaction B s [SetRef n r])"
    by (rule I) (use assms(3) in auto)
qed

text \<open>A lost race: once the head has moved, a transaction that expected the old head fails.\<close>

lemma fold_op_effect_other:
  assumes "fold_res op_effect ops m = Inr m'" and "n \<notin> op_name ` set ops"
  shows "m' n = m n"
  using assms by (induction ops arbitrary: m) (auto simp: op_effect_def bind_res_Inr)

lemma stale_head_fails:
  assumes "inv s" and "fits s N" and "op_name ` set (pre @ AdvanceHeadIf n old x # post) \<subseteq> N"
    and "\<And>t. abst s n = Some (RTimeline t) \<Longrightarrow> tl_head t \<noteq> old" and "n \<notin> op_name ` set pre"
  shows "\<exists>e. commit_transaction B s (pre @ AdvanceHeadIf n old x # post) = Inl e"
proof -
  have "\<exists>e. fold_res op_effect (pre @ AdvanceHeadIf n old x # post) (abst s) = Inl e"
  proof (cases "fold_res op_effect pre (abst s)")
    case (Inr m)
    from fold_op_effect_other [OF Inr assms(5)] assms(4) show ?thesis
      by (auto simp: fold_res_append Inr op_effect_def split: option.splits ref.splits)
  qed (simp add: fold_res_append)
  with commit_refines [OF assms(1-3)] show ?thesis by auto
qed

end

section \<open>The memory backend keeps the contract\<close>

definition mr_inv :: "mem_refs \<Rightarrow> bool" where
  "mr_inv s \<longleftrightarrow> distinct (map fst s)"

lemma mr_plan:
  assumes "mr_inv s"
  shows "\<exists>s'. default_apply_atomic mr_set mr_delete s plan = Inr s' \<and> mr_inv s' \<and> map_of s' = plan_effect plan (map_of s)"
  using assms
proof (induction plan arbitrary: s)
  case (Cons nv plan)
  obtain n v where nv: "nv = (n, v)" by (cases nv)
  let ?s = "case v of Some r \<Rightarrow> AList.update n r s | None \<Rightarrow> AList.delete n s"
  have step: "plan_step mr_set mr_delete nv s = Inr ?s"
    by (cases v) (simp_all add: plan_step_def nv mr_set_def mr_delete_def)
  have inv: "mr_inv ?s" "map_of ?s = (map_of s)(n := v)"
    using Cons.prems by (auto simp: mr_inv_def distinct_update distinct_delete update_conv' delete_conv' split: option.split)
  from Cons.IH [OF inv(1)] show ?case
    unfolding inv(2) default_apply_atomic_def fold_res.simps step bind_res_simps unfolding nv plan_effect_Cons .
qed (simp add: default_apply_atomic_def)

interpretation memrefs: ref_table mr_inv "\<lambda>s N. True" map_of memory_refs
proof
  show "\<exists>ns. rb_list memory_refs s prefix = Inr ns \<and> sorted ns \<and> distinct ns \<and>
      set ns = {n \<in> dom (map_of s). starts_with prefix n}" if "mr_inv s" for s prefix
    using that by (auto simp: memory_refs_def mr_list_def mr_inv_def dom_map_of_conv_image_fst)
  show "\<exists>s'. rb_apply_atomic memory_refs s plan = Inr s' \<and> mr_inv s' \<and> True \<and> map_of s' = plan_effect plan (map_of s)"
    if "mr_inv s" for s plan
    using mr_plan [OF that] by (simp add: memory_refs_def)
qed (auto simp: memory_refs_def mr_get_def mr_set_def mr_delete_def mr_inv_def distinct_update distinct_delete
    update_conv' delete_conv')

text \<open>Resolving a transaction only reads the backend.\<close>

lemma resolve_reads:
  assumes "rb_get B' = rb_get B"
  shows "resolve B' s ops = resolve B s ops"
proof -
  have "current B' = current B" by (simp add: current_def assms fun_eq_iff cong: option.case_cong)
  then have "resolve_op B' s op ov = resolve_op B s op ov" for op ov by (cases op) simp_all
  then have "resolve_op B' s = resolve_op B s" by (simp add: fun_eq_iff)
  then show ?thesis by (simp add: resolve_def)
qed

text \<open>C23. A transaction runs its operations in order on the map of refs, each seeing the effect of those
  before it, on every backend that meets the contract \<open>ref_table\<close> and can hold the names of the operations. If one of
  them fails, the commit fails with that error and has called no method of the backend that writes: the
  answer is the same whatever those methods do. Otherwise the commit is one call of \<open>apply_atomic\<close>, and
  the store it returns holds exactly the resulting map.\<close>

theorem transaction_refines:
  assumes "ref_table rinv fits abst B" and "rinv s" and "fits s (op_name ` set ops)"
  shows "case fold_res op_effect ops (abst s) of
      Inl e \<Rightarrow> \<forall>B'. rb_get B' = rb_get B \<longrightarrow> commit_transaction B' s ops = Inl e
    | Inr m \<Rightarrow> \<exists>plan s'. (\<forall>B'. rb_get B' = rb_get B \<longrightarrow> commit_transaction B' s ops = rb_apply_atomic B' s plan) \<and>
        commit_transaction B s ops = Inr s' \<and> rinv s' \<and> abst s' = m"
proof (cases "resolve B s ops")
  case (Inl e)
  then have com: "commit_transaction B' s ops = Inl e" if "rb_get B' = rb_get B" for B'
    using resolve_reads [OF that, of s ops] by (simp add: commit_transaction_def)
  from ref_table.commit_refines [OF assms(1-3) subset_refl] com [OF refl] show ?thesis
    using com by (auto split: sum.splits)
next
  case (Inr plan)
  then have com: "commit_transaction B' s ops = rb_apply_atomic B' s plan" if "rb_get B' = rb_get B" for B'
    using resolve_reads [OF that, of s ops] by (simp add: commit_transaction_def)
  have ok: "fold_res op_effect ops (abst s) = Inr m" if "commit_transaction B s ops = Inr s'" "abst s' = m" for s' m
    using ref_table.commit_refines [OF assms(1-3) subset_refl] that by (auto split: sum.splits)
  obtain s' where "commit_transaction B s ops = Inr s'"
    using ref_table.commit_resolved [OF assms(1-3) subset_refl Inr] by blast
  with ref_table.commit_refines [OF assms(1-3) subset_refl] ok show ?thesis
    using com by (auto split: sum.splits)
qed

text \<open>Compare-and-swap of a timeline head has one winner: of two transactions that both expect the
  same old head, whichever commits first moves the head, and the other then fails, whatever else it
  contains.\<close>

lemma cas_single_winner:
  assumes "mr_inv s" and "commit_transaction memory_refs s [AdvanceHeadIf n old x] = Inr s'" and "x \<noteq> old"
    and "n \<notin> op_name ` set pre"
  shows "\<exists>e. commit_transaction memory_refs s' (pre @ AdvanceHeadIf n old y # post) = Inl e"
proof -
  from memrefs.commit_refines [OF assms(1) TrueI subset_UNIV, of "[AdvanceHeadIf n old x]"] assms(2)
  have inv: "mr_inv s'" and eff: "op_effect (AdvanceHeadIf n old x) (map_of s) = Inr (map_of s')"
    by (auto simp: op_effect_def bind_res_Inr split: sum.splits)
  then have "tl_head t = x" if "map_of s' n = Some (RTimeline t)" for t
    using that by (auto simp: op_effect_def bind_res_Inr fun_upd_def split: option.splits ref.splits if_splits dest!: fun_cong [where x = n])
  with assms(3) show ?thesis
    by (intro memrefs.stale_head_fails [OF inv TrueI subset_UNIV _ assms(4)]) auto
qed

text \<open>Each mutating method of the store does exactly what a transaction with its one operation does:
  the same error, or a store with the same refs.\<close>

lemma store_methods_are_transactions:
  assumes "mr_inv s"
  shows "memrefs.agrees (create_tag memory_refs s n target msg now) (commit_transaction memory_refs s [CreateTag n target msg now]) \<and>
    memrefs.agrees (move_tag memory_refs s n target) (commit_transaction memory_refs s [MoveTag n target]) \<and>
    memrefs.agrees (create_timeline memory_refs s n head policy now kind expires)
      (commit_transaction memory_refs s [CreateTimeline n head policy now kind expires]) \<and>
    memrefs.agrees (advance_head memory_refs s n head) (commit_transaction memory_refs s [AdvanceHead n head]) \<and>
    memrefs.agrees (rb_delete memory_refs s n) (commit_transaction memory_refs s [DeleteRef n])"
  using memrefs.store_ops_agree [OF assms TrueI UNIV_I] by blast

subsection \<open>Witnesses\<close>

definition main_refs :: mem_refs where
  "main_refs = [(''main'', RTimeline \<lparr>tl_head = 1, tl_policy = FastForwardOnly, tl_created_at = 5,
     tl_kind = ''persistent'', tl_expires_at = None\<rparr>)]"

lemma main_refs_inv: "mr_inv main_refs"
  by (simp add: main_refs_def mr_inv_def)

theorem transaction_refines_witness:
  "(\<exists>s'. commit_transaction memory_refs main_refs [AdvanceHeadIf ''main'' 1 2, CreateTag ''v1'' 2 None 7] = Inr s' \<and>
     map_of s' ''v1'' = Some (RTag \<lparr>tag_target = 2, tag_created_at = 7, tag_message = None\<rparr>)) \<and>
   (\<exists>e. commit_transaction (memory_refs\<lparr>rb_apply_atomic := \<lambda>s plan. Inr []\<rparr>) main_refs [CreateTag ''v1'' 2 None 7, AdvanceHeadIf ''main'' 5 2] = Inl e)"
proof -
  note run = transaction_refines [OF memrefs.ref_table_axioms main_refs_inv TrueI]
  obtain m where m: "fold_res op_effect [AdvanceHeadIf ''main'' 1 2, CreateTag ''v1'' 2 None 7] (map_of main_refs) = Inr m"
    "m ''v1'' = Some (RTag \<lparr>tag_target = 2, tag_created_at = 7, tag_message = None\<rparr>)"
    by (simp add: main_refs_def op_effect_def)
  obtain e where e: "fold_res op_effect [CreateTag ''v1'' 2 None 7, AdvanceHeadIf ''main'' 5 2] (map_of main_refs) = Inl e"
    by (simp add: main_refs_def op_effect_def)
  have "\<exists>s'. commit_transaction memory_refs main_refs [AdvanceHeadIf ''main'' 1 2, CreateTag ''v1'' 2 None 7] = Inr s' \<and> map_of s' = m"
    using run [of "[AdvanceHeadIf ''main'' 1 2, CreateTag ''v1'' 2 None 7]"] unfolding m(1) sum.case by blast
  moreover have "commit_transaction (memory_refs\<lparr>rb_apply_atomic := \<lambda>s plan. Inr []\<rparr>) main_refs
      [CreateTag ''v1'' 2 None 7, AdvanceHeadIf ''main'' 5 2] = Inl e"
    using run [of "[CreateTag ''v1'' 2 None 7, AdvanceHeadIf ''main'' 5 2]"] unfolding e sum.case by simp
  ultimately show ?thesis using m(2) by blast
qed

end
