(* ===== verification/Ref_Disk.thy ===== *)
theory Ref_Disk
  imports Refs
begin

text \<open>
  Refs on disk: \<^verbatim>\<open>src/refs/disk.rs\<close>. The directory \<^verbatim>\<open>refs/\<close> is a map from paths, as lists of
  components, to file contents, with the set of its directories; the write-ahead journals live in
  \<^verbatim>\<open>refs/.txn/\<close>. Each call into the file system is one \<open>fs_op\<close>, so that a crash is a prefix of the
  calls a commit makes. Apart from the conflicts between files and directories the file system is
  assumed not to fail.
\<close>

section \<open>The file system\<close>

type_synonym path = "string list"

record disk_refs =
  fs_files :: "(path \<times> bytes) list"
  fs_dirs :: "path set"
  dr_pid :: u32
  dr_seq :: u64

datatype io_error = NotFound | OtherIo string

definition file_on_way :: "disk_refs \<Rightarrow> path \<Rightarrow> nat \<Rightarrow> bool" where
  "file_on_way s p n = list_ex (\<lambda>k. map_of (fs_files s) (take k p) \<noteq> None) [1..<n]"

definition fs_read :: "disk_refs \<Rightarrow> path \<Rightarrow> io_error + bytes" where
  "fs_read s p =
     (if p \<in> fs_dirs s then Inl (OtherIo ''Is a directory'')
      else if file_on_way s p (length p) then Inl (OtherIo ''Not a directory'')
      else case map_of (fs_files s) p of Some data \<Rightarrow> Inr data | None \<Rightarrow> Inl NotFound)"

datatype fs_op =
    MkDirs path
  | WriteFile path bytes
  | Rename path path
  | RemoveFile path
  | RemoveIfThere path

definition path_prefixes :: "path \<Rightarrow> path set" where
  "path_prefixes p = (\<lambda>k. take k p) ` {0..length p}"

fun run_op :: "fs_op \<Rightarrow> disk_refs \<Rightarrow> disk_refs result" where
  "run_op (MkDirs p) s =
     (if file_on_way s p (Suc (length p)) then Inl (Io ''Not a directory'')
      else Inr (s\<lparr>fs_dirs := fs_dirs s \<union> path_prefixes p\<rparr>))"
| "run_op (WriteFile p data) s =
     (if p \<in> fs_dirs s then Inl (Io ''Is a directory'')
      else if butlast p \<notin> fs_dirs s then Inl (Io ''No such file or directory'')
      else Inr (s\<lparr>fs_files := AList.update p data (fs_files s)\<rparr>))"
| "run_op (Rename p q) s =
     (case map_of (fs_files s) p of
        None \<Rightarrow> Inl (Io ''No such file or directory'')
      | Some data \<Rightarrow>
          if q \<in> fs_dirs s then Inl (Io ''Is a directory'')
          else if butlast q \<notin> fs_dirs s then Inl (Io ''No such file or directory'')
          else Inr (s\<lparr>fs_files := AList.update q data (AList.delete p (fs_files s))\<rparr>))"
| "run_op (RemoveFile p) s =
     (case fs_read s p of
        Inr _ \<Rightarrow> Inr (s\<lparr>fs_files := AList.delete p (fs_files s)\<rparr>)
      | Inl NotFound \<Rightarrow> Inl (Io ''No such file or directory'')
      | Inl (OtherIo e) \<Rightarrow> Inl (Io e))"
| "run_op (RemoveIfThere p) s =
     (case fs_read s p of
        Inr _ \<Rightarrow> Inr (s\<lparr>fs_files := AList.delete p (fs_files s)\<rparr>)
      | Inl NotFound \<Rightarrow> Inr s
      | Inl (OtherIo e) \<Rightarrow> Inl (Io e))"

section \<open>The disk backend\<close>

text \<open>\<^verbatim>\<open>postcard\<close> on refs and on plans, and BLAKE3 for the names of journals.\<close>

record rcodec =
  rc_enc :: "ref \<Rightarrow> string + bytes"
  rc_dec :: "bytes \<Rightarrow> string + ref"
  pl_enc :: "plan \<Rightarrow> string + bytes"
  pl_dec :: "bytes \<Rightarrow> string + plan"
  rc_hash :: "bytes \<Rightarrow> oid"

definition ref_path :: "ref_name \<Rightarrow> path" where
  "ref_path n = split_at CHR ''/'' n"

definition tmp_path :: "path \<Rightarrow> path" where
  "tmp_path p = butlast p @ [''.'' @ last p @ ''.tmp'']"

definition dr_get :: "rcodec \<Rightarrow> disk_refs \<Rightarrow> ref_name \<Rightarrow> ref option result" where
  "dr_get RC s n =
     (case fs_read s (ref_path n) of
        Inr data \<Rightarrow> bind_res (map_codec (rc_dec RC data)) (\<lambda>r. Inr (Some r))
      | Inl NotFound \<Rightarrow> Inr None
      | Inl (OtherIo e) \<Rightarrow> Inl (Io e))"

definition dr_set :: "rcodec \<Rightarrow> disk_refs \<Rightarrow> ref_name \<Rightarrow> ref \<Rightarrow> disk_refs result" where
  "dr_set RC s n r =
     (let p = ref_path n in
      bind_res (run_op (MkDirs (butlast p)) s) (\<lambda>s.
      bind_res (map_codec (rc_enc RC r)) (\<lambda>data.
      bind_res (run_op (WriteFile (tmp_path p) data) s) (\<lambda>s.
      run_op (Rename (tmp_path p) p) s))))"

definition dr_delete :: "disk_refs \<Rightarrow> ref_name \<Rightarrow> disk_refs result" where
  "dr_delete s n = run_op (RemoveIfThere (ref_path n)) s"

definition is_hidden :: "string \<Rightarrow> bool" where
  "is_hidden x \<longleftrightarrow> take 1 x = ''.''"

text \<open>The walk visits the files none of whose path components is hidden.\<close>

definition walk_refs :: "disk_refs \<Rightarrow> string \<Rightarrow> ref_name list" where
  "walk_refs s prefix =
     concat (map (\<lambda>(p, _).
       if list_ex is_hidden p then []
       else let name = join_with CHR ''/'' p in
         if starts_with prefix name then (case ref_name_new name of Inr n \<Rightarrow> [n] | Inl _ \<Rightarrow> []) else [])
       (fs_files s))"

definition dr_list :: "disk_refs \<Rightarrow> string \<Rightarrow> ref_name list result" where
  "dr_list s prefix = Inr (sort (walk_refs s prefix))"

definition apply_plan :: "rcodec \<Rightarrow> disk_refs \<Rightarrow> plan \<Rightarrow> disk_refs result" where
  "apply_plan RC s plan = fold_res (plan_step (dr_set RC) dr_delete) plan s"

definition txn_name :: "rcodec \<Rightarrow> disk_refs \<Rightarrow> bytes \<Rightarrow> string" where
  "txn_name RC s bytes =
     oid_display (rc_hash RC bytes) @ ''-'' @ (show_nat (unat (dr_pid s)) @ ''-'' @ show_nat (unat (dr_seq s)))"

definition journal_path :: "rcodec \<Rightarrow> disk_refs \<Rightarrow> bytes \<Rightarrow> path" where
  "journal_path RC s bytes = [''.txn'', txn_name RC s bytes @ ''.journal'']"

definition journal_tmp :: "rcodec \<Rightarrow> disk_refs \<Rightarrow> bytes \<Rightarrow> path" where
  "journal_tmp RC s bytes = [''.txn'', ''.'' @ txn_name RC s bytes @ ''.journal.tmp'']"

definition dr_apply_atomic :: "rcodec \<Rightarrow> disk_refs \<Rightarrow> plan \<Rightarrow> disk_refs result" where
  "dr_apply_atomic RC s plan =
     (if plan = [] then Inr s
      else
        bind_res (run_op (MkDirs [''.txn'']) s) (\<lambda>s.
        bind_res (map_codec (pl_enc RC plan)) (\<lambda>bytes.
        let journal = journal_path RC s bytes; tmp = journal_tmp RC s bytes;
            s = s\<lparr>dr_seq := dr_seq s + 1\<rparr> in
        bind_res (run_op (WriteFile tmp bytes) s) (\<lambda>s.
        bind_res (run_op (Rename tmp journal) s) (\<lambda>s.
        bind_res (apply_plan RC s plan) (\<lambda>s.
        run_op (RemoveFile journal) s))))))"

text \<open>\<^verbatim>\<open>Path::extension\<close>: what follows the last dot, unless the name starts with it.\<close>

definition extension :: "string \<Rightarrow> string option" where
  "extension x =
     (if CHR ''.'' \<in> set (tl x) then Some (rev (takeWhile (\<lambda>c. c \<noteq> CHR ''.'') (rev x))) else None)"

definition is_journal :: "path \<Rightarrow> bool" where
  "is_journal p \<longleftrightarrow> length p = 2 \<and> hd p = ''.txn'' \<and> extension (last p) = Some ''journal''"

definition replay :: "rcodec \<Rightarrow> path \<Rightarrow> disk_refs \<Rightarrow> disk_refs result" where
  "replay RC p s =
     (case fs_read s p of
        Inl NotFound \<Rightarrow> Inl (Io ''No such file or directory'')
      | Inl (OtherIo e) \<Rightarrow> Inl (Io e)
      | Inr bytes \<Rightarrow>
          bind_res (map_codec (pl_dec RC bytes)) (\<lambda>plan.
          bind_res (apply_plan RC s plan) (\<lambda>s.
          run_op (RemoveFile p) s)))"

definition dr_recover :: "rcodec \<Rightarrow> disk_refs \<Rightarrow> disk_refs result" where
  "dr_recover RC s = fold_res (replay RC) (filter is_journal (map fst (fs_files s))) s"

definition disk_ref_backend :: "rcodec \<Rightarrow> disk_refs ref_backend" where
  "disk_ref_backend RC = \<lparr>rb_get = dr_get RC, rb_set = dr_set RC, rb_delete = dr_delete, rb_list = dr_list,
     rb_apply_atomic = dr_apply_atomic RC, rb_recover = dr_recover RC\<rparr>"

definition dr_open :: "rcodec \<Rightarrow> disk_refs \<Rightarrow> disk_refs result" where
  "dr_open RC s = dr_recover RC s"

section \<open>The calls of a commit\<close>

text \<open>The file system calls that setting and deleting a ref and committing a plan make, in order.\<close>

fun value_ops :: "rcodec \<Rightarrow> ref_name \<times> ref option \<Rightarrow> fs_op list" where
  "value_ops RC (n, None) = [RemoveIfThere (ref_path n)]"
| "value_ops RC (n, Some r) =
     MkDirs (butlast (ref_path n)) #
     (case rc_enc RC r of
        Inl _ \<Rightarrow> []
      | Inr data \<Rightarrow> [WriteFile (tmp_path (ref_path n)) data, Rename (tmp_path (ref_path n)) (ref_path n)])"

definition plan_ops :: "rcodec \<Rightarrow> plan \<Rightarrow> fs_op list" where
  "plan_ops RC plan = concat (map (value_ops RC) plan)"

definition commit_ops :: "rcodec \<Rightarrow> disk_refs \<Rightarrow> plan \<Rightarrow> fs_op list" where
  "commit_ops RC s plan =
     MkDirs [''.txn''] #
     (case pl_enc RC plan of
        Inl _ \<Rightarrow> []
      | Inr bytes \<Rightarrow>
          [WriteFile (journal_tmp RC s bytes) bytes, Rename (journal_tmp RC s bytes) (journal_path RC s bytes)]
          @ plan_ops RC plan @ [RemoveFile (journal_path RC s bytes)])"

text \<open>Running calls up to the first that fails, with the state it leaves on disk.\<close>

fun run_ops :: "fs_op list \<Rightarrow> disk_refs \<Rightarrow> disk_refs \<times> error option" where
  "run_ops [] s = (s, None)"
| "run_ops (op # ops) s = (case run_op op s of Inl e \<Rightarrow> (s, Some e) | Inr s' \<Rightarrow> run_ops ops s')"

section \<open>Invariants\<close>

definition rcodec_ok :: "rcodec \<Rightarrow> bool" where
  "rcodec_ok RC \<longleftrightarrow> (\<forall>r. \<exists>bs. rc_enc RC r = Inr bs \<and> rc_dec RC bs = Inr r) \<and>
     (\<forall>plan. (\<forall>(n, v) \<in> set plan. valid_name n) \<longrightarrow> (\<exists>bs. pl_enc RC plan = Inr bs \<and> pl_dec RC bs = Inr plan))"

definition visible_path :: "path \<Rightarrow> bool" where
  "visible_path p \<longleftrightarrow> p \<noteq> [] \<and> list_all good_segment p"

text \<open>File names are not empty and contain no slash.\<close>

definition path_ok :: "path \<Rightarrow> bool" where
  "path_ok p \<longleftrightarrow> p \<noteq> [] \<and> (\<forall>x \<in> set p. x \<noteq> [] \<and> CHR ''/'' \<notin> set x)"

definition fs_ok :: "disk_refs \<Rightarrow> bool" where
  "fs_ok s \<longleftrightarrow> distinct (map fst (fs_files s)) \<and> [] \<in> fs_dirs s \<and>
     (\<forall>p \<in> fs_dirs s. \<forall>k. take k p \<in> fs_dirs s) \<and>
     (\<forall>p data. map_of (fs_files s) p = Some data \<longrightarrow> path_ok p \<and> p \<notin> fs_dirs s \<and> butlast p \<in> fs_dirs s) \<and>
     (\<forall>p \<in> fs_dirs s. p = [] \<or> p = [''.txn''] \<or> visible_path p) \<and>
     map_of (fs_files s) [''.txn''] = None"

definition refs_decode :: "rcodec \<Rightarrow> disk_refs \<Rightarrow> bool" where
  "refs_decode RC s \<longleftrightarrow> (\<forall>p data. visible_path p \<longrightarrow> map_of (fs_files s) p = Some data \<longrightarrow> (\<exists>r. rc_dec RC data = Inr r))"

definition disk_inv :: "rcodec \<Rightarrow> disk_refs \<Rightarrow> bool" where
  "disk_inv RC s \<longleftrightarrow> fs_ok s \<and> refs_decode RC s \<and> (\<forall>p. is_journal p \<longrightarrow> map_of (fs_files s) p = None)"

definition disk_refs_abst :: "rcodec \<Rightarrow> disk_refs \<Rightarrow> ref_name \<rightharpoonup> ref" where
  "disk_refs_abst RC s n =
     (if valid_name n then
        (case map_of (fs_files s) (ref_path n) of
           Some data \<Rightarrow> (case rc_dec RC data of Inr r \<Rightarrow> Some r | Inl _ \<Rightarrow> None)
         | None \<Rightarrow> None)
      else None)"

text \<open>The names can all be files at once: none is a directory, or lies below a file or below another.\<close>

definition disk_fits :: "disk_refs \<Rightarrow> ref_name set \<Rightarrow> bool" where
  "disk_fits s N \<longleftrightarrow> (\<forall>n \<in> N. valid_name n \<and> ref_path n \<notin> fs_dirs s \<and>
     (\<forall>k < length (ref_path n). map_of (fs_files s) (take k (ref_path n)) = None \<and>
       take k (ref_path n) \<notin> ref_path ` N))"

lemma ref_path_segs: "ref_path n = segs n"
  by (simp add: ref_path_def segs_def)

lemma ref_path_inject [simp]: "ref_path m = ref_path n \<longleftrightarrow> m = n"
  by (simp add: ref_path_segs)

lemma ref_path_visible: "valid_name n \<Longrightarrow> visible_path (ref_path n)"
  by (simp add: visible_path_def valid_name_def ref_path_segs) (simp add: segs_def)

lemma visible_ref_path: "visible_path p \<Longrightarrow> ref_path (join_with CHR ''/'' p) = p \<and> valid_name (join_with CHR ''/'' p)"
  unfolding visible_path_def valid_name_def ref_path_segs segs_def
  by (auto simp: good_segment_def list_all_iff split_join)

lemma visible_not_txn [simp]: "visible_path p \<Longrightarrow> take (Suc k) p \<noteq> [''.txn'']" "visible_path p \<Longrightarrow> p \<noteq> [''.txn'']"
  "visible_path p \<Longrightarrow> \<not> is_journal p"
  by (cases p; auto simp: visible_path_def good_segment_def is_journal_def)+

lemma visible_butlast: "visible_path p \<Longrightarrow> butlast p = [] \<or> visible_path (butlast p)"
  by (auto simp: visible_path_def list_all_iff dest: in_set_butlastD)

lemma visible_take: "visible_path p \<Longrightarrow> take k p = [] \<or> visible_path (take k p)"
  by (auto simp: visible_path_def list_all_iff dest: in_set_takeD)

lemma tmp_not_visible [simp]: "\<not> visible_path (tmp_path p)"
  by (simp add: tmp_path_def visible_path_def good_segment_def)

lemma tmp_not_txn: "visible_path p \<Longrightarrow> tmp_path p \<noteq> [''.txn''] \<and> \<not> is_journal (tmp_path p) \<and> tmp_path p \<noteq> []"
  by (cases p; cases "tl p") (auto simp: tmp_path_def is_journal_def visible_path_def good_segment_def dest: arg_cong [where f = length])

lemma visible_path_ok: "visible_path p \<Longrightarrow> path_ok p" "visible_path p \<Longrightarrow> path_ok (tmp_path p)"
  by (auto simp: visible_path_def path_ok_def tmp_path_def list_all_iff good_segment_def dest: in_set_butlastD)

lemma butlast_tmp [simp]: "butlast (tmp_path p) = butlast p"
  by (simp add: tmp_path_def)

section \<open>One call at a time\<close>

text \<open>What every call of a commit keeps.\<close>

definition keeps :: "rcodec \<Rightarrow> ref_name set \<Rightarrow> disk_refs \<Rightarrow> disk_refs \<Rightarrow> bool" where
  "keeps RC N s s' \<longleftrightarrow> fs_ok s' \<and> refs_decode RC s' \<and> disk_fits s' N \<and>
     (\<forall>q. is_journal q \<longrightarrow> map_of (fs_files s') q = map_of (fs_files s) q)"

lemma keeps_trans: "keeps RC N s s' \<Longrightarrow> keeps RC N s' s'' \<Longrightarrow> keeps RC N s s''"
  by (simp add: keeps_def)

lemma keeps_refl: "fs_ok s \<Longrightarrow> refs_decode RC s \<Longrightarrow> disk_fits s N \<Longrightarrow> keeps RC N s s"
  by (simp add: keeps_def)

lemma take_butlast_less:
  assumes "p \<noteq> []" and "k \<le> length (butlast p)"
  shows "take k (butlast p) = take k p \<and> k < length p"
  using assms by (cases p rule: rev_cases) auto

lemma ref_path_neq [simp]: "ref_path n \<noteq> []"
  by (simp add: ref_path_def)

lemma no_file_on_way:
  assumes "disk_fits s N" and "n \<in> N"
  shows "\<not> file_on_way s (ref_path n) (length (ref_path n))"
    and "\<not> file_on_way s (butlast (ref_path n)) (Suc (length (butlast (ref_path n))))"
proof -
  have free: "k < length (ref_path n) \<Longrightarrow> map_of (fs_files s) (take k (ref_path n)) = None" for k
    using assms by (simp add: disk_fits_def)
  then show "\<not> file_on_way s (ref_path n) (length (ref_path n))"
    by (auto simp: file_on_way_def list_ex_iff)
  show "\<not> file_on_way s (butlast (ref_path n)) (Suc (length (butlast (ref_path n))))"
    using free take_butlast_less [OF ref_path_neq [of n]] by (force simp: file_on_way_def list_ex_iff)
qed

lemma dir_prefixes: "p = [] \<or> visible_path p \<Longrightarrow> q \<in> path_prefixes p \<Longrightarrow> q = [] \<or> visible_path q"
  using visible_take [of p] unfolding path_prefixes_def by fastforce

lemma path_prefixes_take: "q \<in> path_prefixes p \<Longrightarrow> take k q \<in> path_prefixes p"
  by (auto simp: path_prefixes_def min_def)

lemma path_prefixes_self [simp]: "[] \<in> path_prefixes p" "p \<in> path_prefixes p"
  by (force simp: path_prefixes_def)+

lemma abst_cong:
  assumes "\<And>q. visible_path q \<Longrightarrow> map_of (fs_files s') q = map_of (fs_files s) q"
  shows "disk_refs_abst RC s' = disk_refs_abst RC s"
  using assms [OF ref_path_visible] by (auto simp: disk_refs_abst_def fun_eq_iff)

lemma mkdirs_step:
  assumes "fs_ok s" and "refs_decode RC s" and "disk_fits s N" and "n \<in> N"
  shows "\<exists>s'. run_op (MkDirs (butlast (ref_path n))) s = Inr s' \<and> keeps RC N s s' \<and>
    disk_refs_abst RC s' = disk_refs_abst RC s \<and> butlast (ref_path n) \<in> fs_dirs s'"
proof -
  let ?p = "butlast (ref_path n)"
  let ?s = "s\<lparr>fs_dirs := fs_dirs s \<union> path_prefixes ?p\<rparr>"
  have v: "valid_name n" using assms(3,4) by (simp add: disk_fits_def)
  then have p: "?p = [] \<or> visible_path ?p" by (intro visible_butlast ref_path_visible)
  have pre: "q \<in> path_prefixes ?p \<Longrightarrow> \<exists>k < length (ref_path n). q = take k (ref_path n)" for q
    using take_butlast_less [OF ref_path_neq [of n]] unfolding path_prefixes_def by fastforce
  have run: "run_op (MkDirs ?p) s = Inr ?s" using no_file_on_way(2) [OF assms(3,4)] by simp
  have nofile: "map_of (fs_files s) q = None" if "q \<in> path_prefixes ?p" for q
    using pre [OF that] assms(3,4) unfolding disk_fits_def by auto
  have "fs_ok ?s"
    using assms(1) nofile dir_prefixes [OF p] path_prefixes_take [of _ ?p]
    unfolding fs_ok_def by (auto simp del: map_of_eq_Some_iff)
  moreover have "ref_path m \<notin> path_prefixes ?p" if "m \<in> N" for m
    using pre [of "ref_path m"] assms(3,4) that unfolding disk_fits_def by (metis image_eqI)
  then have "disk_fits ?s N" using assms(3) unfolding disk_fits_def by auto
  ultimately show ?thesis using run assms(2) by (auto simp: keeps_def refs_decode_def disk_refs_abst_def)
qed

lemma file_update:
  assumes "fs_ok s" and "p \<notin> fs_dirs s" and "butlast p \<in> fs_dirs s" and "path_ok p" and "p \<noteq> [''.txn'']"
    and "\<not> is_journal p" and "disk_fits s N" and "\<forall>n \<in> N. \<forall>k < length (ref_path n). take k (ref_path n) \<noteq> p"
  shows "fs_ok (s\<lparr>fs_files := AList.update p data (fs_files s)\<rparr>)"
    and "disk_fits (s\<lparr>fs_files := AList.update p data (fs_files s)\<rparr>) N"
  using assms
  by (auto simp: fs_ok_def disk_fits_def distinct_update update_conv')

lemma file_delete:
  assumes "fs_ok s" and "disk_fits s N"
  shows "fs_ok (s\<lparr>fs_files := AList.delete p (fs_files s)\<rparr>)"
    and "disk_fits (s\<lparr>fs_files := AList.delete p (fs_files s)\<rparr>) N"
  using assms
  by (auto simp: fs_ok_def disk_fits_def distinct_delete delete_conv' split: if_splits)

lemma write_step:
  assumes "fs_ok s" and "refs_decode RC s" and "disk_fits s N" and "n \<in> N" and "butlast (ref_path n) \<in> fs_dirs s"
  shows "\<exists>s'. run_op (WriteFile (tmp_path (ref_path n)) data) s = Inr s' \<and> keeps RC N s s' \<and>
    disk_refs_abst RC s' = disk_refs_abst RC s \<and> butlast (ref_path n) \<in> fs_dirs s' \<and>
    map_of (fs_files s') (tmp_path (ref_path n)) = Some data"
proof -
  let ?t = "tmp_path (ref_path n)"
  let ?s = "s\<lparr>fs_files := AList.update ?t data (fs_files s)\<rparr>"
  have v: "visible_path (ref_path m)" if "m \<in> N" for m
    using that assms(3) by (simp add: disk_fits_def ref_path_visible)
  note t = tmp_not_txn [OF v [OF assms(4)]]
  have nd: "?t \<notin> fs_dirs s" using assms(1) t tmp_not_visible by (auto simp: fs_ok_def)
  have "take k (ref_path m) \<noteq> ?t" if "m \<in> N" for m k
    using visible_take [OF v [OF that], of k] t tmp_not_visible by auto
  then have ok: "fs_ok ?s" "disk_fits ?s N"
    using file_update [OF assms(1) nd, where N = N and data = data] assms(3,5) t visible_path_ok(2) [OF v [OF assms(4)]] by auto
  have vis: "visible_path q \<Longrightarrow> map_of (fs_files ?s) q = map_of (fs_files s) q" for q
    using tmp_not_visible by (auto simp: update_conv')
  then have "disk_refs_abst RC ?s = disk_refs_abst RC s" by (rule abst_cong)
  then show ?thesis
    using nd assms(2,5) ok vis t by (auto simp: keeps_def refs_decode_def update_conv')
qed

lemma rename_step:
  assumes "fs_ok s" and "refs_decode RC s" and "disk_fits s N" and "n \<in> N" and "butlast (ref_path n) \<in> fs_dirs s"
    and "map_of (fs_files s) (tmp_path (ref_path n)) = Some data" and "rc_dec RC data = Inr r"
  shows "\<exists>s'. run_op (Rename (tmp_path (ref_path n)) (ref_path n)) s = Inr s' \<and> keeps RC N s s' \<and>
    disk_refs_abst RC s' = (disk_refs_abst RC s)(n \<mapsto> r)"
proof -
  let ?p = "ref_path n" and ?t = "tmp_path (ref_path n)"
  let ?s1 = "s\<lparr>fs_files := AList.delete ?t (fs_files s)\<rparr>"
  let ?s = "?s1\<lparr>fs_files := AList.update ?p data (fs_files ?s1)\<rparr>"
  have v: "visible_path ?p" "valid_name n" using assms(3,4) by (simp_all add: disk_fits_def ref_path_visible)
  note t = tmp_not_txn [OF v(1)]
  have nd: "?p \<notin> fs_dirs s" using assms(3,4) by (simp add: disk_fits_def)
  note d = file_delete [OF assms(1,3), where p = ?t]
  have "take k (ref_path m) \<noteq> ?p" if "m \<in> N" "k < length (ref_path m)" for m k
    using assms(3,4) that by (auto simp: disk_fits_def)
  then have ok: "fs_ok ?s" "disk_fits ?s N"
    using file_update [OF d(1), where N = N and data = data and p = ?p] d(2) nd assms(5) v(1) visible_path_ok(1) by auto
  have vis: "map_of (fs_files ?s) q = (if q = ?p then Some data else map_of (fs_files s) q)" if "visible_path q" for q
    using that tmp_not_visible by (auto simp: update_conv' delete_conv')
  then have "disk_refs_abst RC ?s = (disk_refs_abst RC s)(n \<mapsto> r)"
    using v assms(7) by (auto simp: disk_refs_abst_def ref_path_visible fun_eq_iff)
  moreover have "refs_decode RC ?s"
    using assms(2,7) unfolding refs_decode_def by (auto simp only: vis split: if_splits)
  moreover have "run_op (Rename ?t ?p) s = Inr ?s" using assms(5,6) nd by simp
  ultimately show ?thesis
    using ok v(1) t by (auto simp: keeps_def update_conv' delete_conv')
qed

lemma remove_step:
  assumes "fs_ok s" and "refs_decode RC s" and "disk_fits s N" and "n \<in> N"
  shows "\<exists>s'. run_op (RemoveIfThere (ref_path n)) s = Inr s' \<and> keeps RC N s s' \<and>
    disk_refs_abst RC s' = (disk_refs_abst RC s)(n := None)"
proof -
  let ?p = "ref_path n"
  let ?s = "s\<lparr>fs_files := AList.delete ?p (fs_files s)\<rparr>"
  have v: "visible_path ?p" "valid_name n" using assms(3,4) by (simp_all add: disk_fits_def ref_path_visible)
  have nd: "?p \<notin> fs_dirs s" using assms(3,4) by (simp add: disk_fits_def)
  have ab: "disk_refs_abst RC ?s = (disk_refs_abst RC s)(n := None)"
    using v by (auto simp: disk_refs_abst_def fun_eq_iff delete_conv')
  show ?thesis
  proof (cases "map_of (fs_files s) ?p")
    case None
    then have "disk_refs_abst RC s = (disk_refs_abst RC s)(n := None)"
      by (auto simp: disk_refs_abst_def fun_eq_iff)
    moreover have "run_op (RemoveIfThere ?p) s = Inr s"
      using None nd no_file_on_way(1) [OF assms(3,4)] by (simp add: fs_read_def)
    ultimately show ?thesis using keeps_refl [OF assms(1-3)] by auto
  next
    case (Some data)
    then have "run_op (RemoveIfThere ?p) s = Inr ?s"
      using nd no_file_on_way(1) [OF assms(3,4)] by (simp add: fs_read_def)
    moreover have "keeps RC N s ?s"
      using file_delete [OF assms(1,3), where p = ?p] assms(2) v(1)
      by (auto simp: keeps_def refs_decode_def delete_conv')
    ultimately show ?thesis using ab by blast
  qed
qed

section \<open>Plans\<close>

lemma enc_dec: "rcodec_ok RC \<Longrightarrow> \<exists>data. rc_enc RC r = Inr data \<and> rc_dec RC data = Inr r"
  by (simp add: rcodec_ok_def)

text \<open>The calls for one entry of a plan, stopped anywhere, keep the store; run to the end they set the entry.\<close>

lemma value_ops_prefix:
  assumes "rcodec_ok RC" and "fs_ok s" and "refs_decode RC s" and "disk_fits s N" and "n \<in> N"
  shows "\<exists>s'. fold_res run_op (take k (value_ops RC (n, v))) s = Inr s' \<and> keeps RC N s s' \<and>
    (\<forall>m. m \<noteq> n \<longrightarrow> disk_refs_abst RC s' m = disk_refs_abst RC s m) \<and>
    (length (value_ops RC (n, v)) \<le> k \<longrightarrow> disk_refs_abst RC s' = (disk_refs_abst RC s)(n := v))"
proof (cases v)
  case None
  show ?thesis
  proof (cases k)
    case 0
    then show ?thesis using keeps_refl [OF assms(2-4)] None by simp
  next
    case (Suc j)
    then show ?thesis using remove_step [OF assms(2-5)] None by auto
  qed
next
  case (Some r)
  obtain data where data: "rc_enc RC r = Inr data" "rc_dec RC data = Inr r" using enc_dec [OF assms(1)] by blast
  obtain s1 where s1: "run_op (MkDirs (butlast (ref_path n))) s = Inr s1" "keeps RC N s s1"
    "disk_refs_abst RC s1 = disk_refs_abst RC s" "butlast (ref_path n) \<in> fs_dirs s1"
    using mkdirs_step [OF assms(2-5)] by blast
  obtain s2 where s2: "run_op (WriteFile (tmp_path (ref_path n)) data) s1 = Inr s2" "keeps RC N s1 s2"
    "disk_refs_abst RC s2 = disk_refs_abst RC s1" "butlast (ref_path n) \<in> fs_dirs s2"
    "map_of (fs_files s2) (tmp_path (ref_path n)) = Some data"
    using write_step [OF _ _ _ assms(5) s1(4)] s1(2) unfolding keeps_def by blast
  obtain s3 where s3: "run_op (Rename (tmp_path (ref_path n)) (ref_path n)) s2 = Inr s3" "keeps RC N s2 s3"
    "disk_refs_abst RC s3 = (disk_refs_abst RC s2)(n \<mapsto> r)"
    using rename_step [OF _ _ _ assms(5) s2(4,5) data(2)] s2(2) unfolding keeps_def by blast
  let ?A = "MkDirs (butlast (ref_path n))" and ?B = "WriteFile (tmp_path (ref_path n)) data"
    and ?C = "Rename (tmp_path (ref_path n)) (ref_path n)"
  have ops: "value_ops RC (n, v) = [?A, ?B, ?C]" using Some data(1) by simp
  note k2 = keeps_trans [OF s1(2) s2(2)] and k3 = keeps_trans [OF keeps_trans [OF s1(2) s2(2)] s3(2)]
  have "k = 0 \<or> k = 1 \<or> k = 2 \<or> 3 \<le> k" by arith
  moreover have ?thesis if "k = 0"
    using keeps_refl [OF assms(2-4)] by (simp add: that ops)
  moreover have ?thesis if "k = 1" using s1 by (simp add: that ops)
  moreover have "fold_res run_op (take 2 (value_ops RC (n, v))) s = Inr s2"
    using s1(1) s2(1) by (simp add: ops)
  then have ?thesis if "k = 2" using s1(3) s2(3) k2 that by (simp add: ops)
  moreover have "fold_res run_op (value_ops RC (n, v)) s = Inr s3"
    using s1(1) s2(1) s3(1) by (simp add: ops)
  then have "fold_res run_op (take k (value_ops RC (n, v))) s = Inr s3" if "3 \<le> k"
    using that unfolding ops by simp
  then have ?thesis if "3 \<le> k" using s1(3) s2(3) s3(3) k3 that Some by auto
  ultimately show ?thesis by blast
qed

lemma value_ops_neq: "value_ops RC nv \<noteq> []"
  by (cases "(RC, nv)" rule: value_ops.cases) auto

lemma plan_ops_prefix:
  assumes "rcodec_ok RC" and "fs_ok s" and "refs_decode RC s" and "disk_fits s N" and "fst ` set plan \<subseteq> N"
  shows "\<exists>s'. fold_res run_op (take k (plan_ops RC plan)) s = Inr s' \<and> keeps RC N s s' \<and>
    (\<forall>m. m \<notin> fst ` set plan \<longrightarrow> disk_refs_abst RC s' m = disk_refs_abst RC s m) \<and>
    (length (plan_ops RC plan) \<le> k \<longrightarrow> disk_refs_abst RC s' = plan_effect plan (disk_refs_abst RC s))"
  using assms(2-5)
proof (induction plan arbitrary: s k)
  case Nil
  then show ?case using keeps_refl [of s RC N] by (simp add: plan_ops_def)
next
  case (Cons nv plan)
  obtain n v where nv: "nv = (n, v)" by (cases nv)
  let ?b = "value_ops RC (n, v)"
  have n: "n \<in> N" "fst ` set plan \<subseteq> N" using Cons.prems(4) by (auto simp: nv)
  note block = value_ops_prefix [OF assms(1) Cons.prems(1-3) n(1), where v = v]
  have ops: "plan_ops RC ((n, v) # plan) = ?b @ plan_ops RC plan" by (simp add: plan_ops_def)
  show ?case
  proof (cases "k \<le> length ?b")
    case True
    from block [of k] obtain s' where s': "fold_res run_op (take k ?b) s = Inr s'" "keeps RC N s s'"
      "\<forall>m. m \<noteq> n \<longrightarrow> disk_refs_abst RC s' m = disk_refs_abst RC s m"
      "length ?b \<le> k \<longrightarrow> disk_refs_abst RC s' = (disk_refs_abst RC s)(n := v)" by blast
    have "plan = [] \<or> 0 < length (plan_ops RC plan)"
      by (cases plan) (auto simp: plan_ops_def value_ops_neq)
    then have fin: "disk_refs_abst RC s' = plan_effect (nv # plan) (disk_refs_abst RC s)"
      if "length (plan_ops RC ((n, v) # plan)) \<le> k"
    proof -
      from that True have "length (plan_ops RC plan) = 0" "length ?b \<le> k" unfolding ops length_append by linarith+
      with \<open>plan = [] \<or> _\<close> s'(4) show ?thesis by (auto simp: nv plan_effect_Cons)
    qed
    have "take k (plan_ops RC ((n, v) # plan)) = take k ?b" using True by (simp add: ops)
    then show ?thesis using s'(1-3) fin by (intro exI [of _ s']) (simp add: nv)
  next
    case False
    from block [of "length ?b"] obtain s1 where s1: "fold_res run_op ?b s = Inr s1" "keeps RC N s s1"
      "disk_refs_abst RC s1 = (disk_refs_abst RC s)(n := v)" by auto
    from Cons.IH [OF _ _ _ n(2), of s1 "k - length ?b"] s1(2) obtain s' where
      s': "fold_res run_op (take (k - length ?b) (plan_ops RC plan)) s1 = Inr s'" "keeps RC N s1 s'"
      "\<forall>m. m \<notin> fst ` set plan \<longrightarrow> disk_refs_abst RC s' m = disk_refs_abst RC s1 m"
      "length (plan_ops RC plan) \<le> k - length ?b \<longrightarrow> disk_refs_abst RC s' = plan_effect plan (disk_refs_abst RC s1)"
      unfolding keeps_def by blast
    show ?thesis
      using s' s1 False keeps_trans [OF s1(2) s'(2)]
      by (intro exI [of _ s']) (auto simp: ops nv fold_res_append plan_effect_Cons)
  qed
qed

text \<open>The code runs exactly these calls.\<close>

lemma plan_step_ops:
  assumes "rcodec_ok RC"
  shows "plan_step (dr_set RC) dr_delete nv s = fold_res run_op (value_ops RC nv) s"
proof -
  obtain n v where nv: "nv = (n, v)" by (cases nv)
  show ?thesis
  proof (cases v)
    case None
    show ?thesis unfolding nv None
      by (simp add: plan_step_def dr_delete_def bind_res_def del: run_op.simps split: sum.split)
  next
    case (Some r)
    obtain data where "rc_enc RC r = Inr data" using enc_dec [OF assms] by blast
    then show ?thesis unfolding nv Some
      by (simp add: plan_step_def dr_set_def Let_def map_codec_def bind_res_def del: run_op.simps split: sum.split)
  qed
qed

lemma apply_plan_ops: "rcodec_ok RC \<Longrightarrow> apply_plan RC s plan = fold_res run_op (plan_ops RC plan) s"
  unfolding apply_plan_def plan_ops_def
  by (induction plan arbitrary: s) (auto simp: plan_step_ops fold_res_append bind_res_def simp del: run_op.simps split: sum.split)

lemma apply_plan_effect:
  assumes "rcodec_ok RC" and "fs_ok s" and "refs_decode RC s" and "disk_fits s N" and "fst ` set plan \<subseteq> N"
  shows "\<exists>s'. apply_plan RC s plan = Inr s' \<and> keeps RC N s s' \<and>
    disk_refs_abst RC s' = plan_effect plan (disk_refs_abst RC s)"
  using plan_ops_prefix [OF assms, of "length (plan_ops RC plan)"] by (auto simp: apply_plan_ops [OF assms(1)])

lemma plan_effect_agree:
  "(\<And>n. n \<notin> fst ` set plan \<Longrightarrow> m n = m' n) \<Longrightarrow> plan_effect plan m = plan_effect plan m'"
proof (induction plan arbitrary: m m')
  case (Cons nv plan)
  obtain n v where nv: "nv = (n, v)" by (cases nv)
  show ?case unfolding nv plan_effect_Cons using Cons.prems by (intro Cons.IH) (auto simp: nv)
qed (simp add: fun_eq_iff)

section \<open>Journals\<close>

lemma extension_journal: "extension (''.'' @ x @ ''.journal.tmp'') = Some ''tmp''" "x \<noteq> [] \<Longrightarrow> extension (x @ ''.journal'') = Some ''journal''"
  by (auto simp: extension_def)

lemma txn_name_neq [simp]: "txn_name RC s bytes \<noteq> []"
  by (simp add: txn_name_def)

lemma journal_paths:
  "is_journal (journal_path RC s bytes)" "\<not> is_journal (journal_tmp RC s bytes)"
  "\<not> visible_path (journal_path RC s bytes)" "\<not> visible_path (journal_tmp RC s bytes)"
  by (simp_all add: is_journal_def journal_path_def journal_tmp_def extension_journal visible_path_def good_segment_def)
    (simp add: extension_def)

lemma show_nat_no_slash: "CHR ''/'' \<notin> set (show_nat n)"
proof (induction n rule: show_nat.induct)
  case (1 n)
  have digit: "char_of (48 + d) \<noteq> CHR ''/''" if "d < 10" for d :: nat
  proof
    assume "char_of (48 + d) = CHR ''/''"
    then have "(of_char (char_of (48 + d)) :: nat) = of_char CHR ''/''" by simp
    then show False using that by simp
  qed
  show ?case
    using 1 digit [of n] digit [of "n mod 10"] by (subst show_nat.simps) auto
qed

lemma hex_slash: "hex_nibble CHR ''/'' = None"
  by code_simp

lemma hex_pairs_no_slash: "hex_pairs x = Some bs \<Longrightarrow> CHR ''/'' \<notin> set x"
  by (induction x arbitrary: bs rule: hex_pairs.induct) (auto simp: hex_slash split: option.splits)

lemma journal_path_ok: "path_ok (journal_path RC s bytes)" "path_ok (journal_tmp RC s bytes)"
proof -
  have "CHR ''/'' \<notin> set (oid_display i)" for i
    unfolding oid_display_def by (rule hex_pairs_no_slash [OF hex_pairs_concat])
  then show "path_ok (journal_path RC s bytes)" "path_ok (journal_tmp RC s bytes)"
    using show_nat_no_slash by (auto simp: path_ok_def journal_path_def journal_tmp_def txn_name_def)
qed

lemma only_journal:
  assumes "distinct (map fst files)" and "\<And>q. is_journal q \<Longrightarrow> map_of files q = (if q = j then Some bytes else None)"
    and "is_journal j"
  shows "filter is_journal (map fst files) = [j]"
proof -
  have "set (filter is_journal (map fst files)) = {j}"
  proof (intro set_eqI iffI)
    fix q assume "q \<in> set (filter is_journal (map fst files))"
    then have q: "is_journal q" "map_of files q \<noteq> None" by (auto simp only: set_filter mem_Collect_eq list.set_map map_of_eq_None_iff)
    from assms(2) [OF q(1)] q(2) show "q \<in> {j}" by (cases "q = j") auto
  next
    fix q assume "q \<in> {j}"
    moreover have "j \<in> fst ` set files" using assms(2) [OF assms(3)] by (force dest: map_of_SomeD)
    ultimately show "q \<in> set (filter is_journal (map fst files))" using assms(3) by simp
  qed
  moreover have "distinct (filter is_journal (map fst files))" using assms(1) by simp
  ultimately show ?thesis
    by (metis distinct_card distinct.simps(2) card_1_singleton_iff length_Suc_conv length_0_conv list.set(1,2) One_nat_def singleton_insert_inj_eq)
qed

lemma no_journals:
  assumes "\<And>q. is_journal q \<Longrightarrow> map_of files q = None"
  shows "filter is_journal (map fst files) = []"
  using assms by (auto simp: filter_empty_conv map_of_eq_None_iff)

text \<open>A store whose invariant holds but for one pending journal.\<close>

definition pending :: "rcodec \<Rightarrow> path \<Rightarrow> bytes \<Rightarrow> disk_refs \<Rightarrow> bool" where
  "pending RC j bytes s \<longleftrightarrow> fs_ok s \<and> refs_decode RC s \<and>
     (\<forall>q. is_journal q \<longrightarrow> map_of (fs_files s) q = (if q = j then Some bytes else None))"

lemma remove_journal:
  assumes "pending RC j bytes s" and "is_journal j" and "disk_fits s N"
  shows "\<exists>s'. run_op (RemoveFile j) s = Inr s' \<and> disk_inv RC s' \<and> disk_fits s' N \<and>
    disk_refs_abst RC s' = disk_refs_abst RC s"
proof -
  let ?s = "s\<lparr>fs_files := AList.delete j (fs_files s)\<rparr>"
  obtain x where j: "j = [''.txn'', x]"
    using assms(2) by (auto simp: is_journal_def numeral_2_eq_2 length_Suc_conv)
  have rd: "fs_read s j = Inr bytes"
    using assms(1,2) by (auto simp: pending_def fs_read_def file_on_way_def fs_ok_def j)
  have nv: "\<not> visible_path j" using assms(2) visible_not_txn(3) by blast
  then have vis: "visible_path q \<Longrightarrow> map_of (fs_files ?s) q = map_of (fs_files s) q" for q
    by (auto simp: delete_conv')
  have "disk_refs_abst RC ?s = disk_refs_abst RC s" using vis by (rule abst_cong)
  moreover have "disk_inv RC ?s"
    using file_delete(1) [of s "{}" j] assms(1) vis
    by (auto simp: disk_inv_def pending_def refs_decode_def delete_conv' disk_fits_def)
  moreover have "disk_fits ?s N" using file_delete(2) [of s N j] assms(1,3) by (simp add: pending_def)
  ultimately show ?thesis using rd by simp
qed

lemma pending_keeps: "pending RC j bytes s \<Longrightarrow> keeps RC N s s' \<Longrightarrow> pending RC j bytes s'"
  by (simp add: pending_def keeps_def)

text \<open>Replaying the journal of a half-applied plan completes it.\<close>

lemma replay_pending:
  assumes "rcodec_ok RC" and "pending RC j bytes s" and "is_journal j" and "pl_dec RC bytes = Inr plan"
    and "disk_fits s N" and "fst ` set plan \<subseteq> N"
  shows "\<exists>s'. dr_recover RC s = Inr s' \<and> disk_inv RC s' \<and> disk_fits s' N \<and>
    disk_refs_abst RC s' = plan_effect plan (disk_refs_abst RC s)"
proof -
  have ok: "fs_ok s" "refs_decode RC s" using assms(2) by (simp_all add: pending_def)
  obtain s1 where s1: "apply_plan RC s plan = Inr s1" "keeps RC N s s1"
    "disk_refs_abst RC s1 = plan_effect plan (disk_refs_abst RC s)"
    using apply_plan_effect [OF assms(1) ok assms(5,6)] by blast
  have "disk_fits s1 N" using s1(2) by (simp add: keeps_def)
  from remove_journal [OF pending_keeps [OF assms(2) s1(2)] assms(3) this] obtain s' where
    s': "run_op (RemoveFile j) s1 = Inr s'" "disk_inv RC s'" "disk_fits s' N"
    "disk_refs_abst RC s' = disk_refs_abst RC s1" by blast
  obtain x where j: "j = [''.txn'', x]"
    using assms(3) by (auto simp: is_journal_def numeral_2_eq_2 length_Suc_conv)
  have rd: "fs_read s j = Inr bytes"
    using assms(2,3) by (auto simp: pending_def fs_read_def file_on_way_def fs_ok_def j)
  have "filter is_journal (map fst (fs_files s)) = [j]"
    using only_journal [OF _ _ assms(3), of "fs_files s" bytes] assms(2) by (simp add: pending_def fs_ok_def)
  moreover have "replay RC j s = Inr s'"
    using s' s1(1) assms(4) rd by (simp add: replay_def map_codec_def del: run_op.simps)
  ultimately show ?thesis using s' s1(3) by (auto simp: dr_recover_def)
qed

lemma recover_clean: "disk_inv RC s \<Longrightarrow> dr_recover RC s = Inr s"
  using no_journals [of "fs_files s"] by (simp add: disk_inv_def dr_recover_def)

text \<open>The three calls that write the journal.\<close>

lemma journal_ops_prefix:
  fixes bytes :: bytes and t :: disk_refs and RC :: rcodec
  assumes "disk_inv RC s" and "disk_fits s N"
  defines "ops \<equiv> [MkDirs [''.txn''], WriteFile (journal_tmp RC t bytes) bytes,
    Rename (journal_tmp RC t bytes) (journal_path RC t bytes)]"
  shows "\<exists>s'. fold_res run_op (take k ops) s = Inr s' \<and> disk_fits s' N \<and>
    disk_refs_abst RC s' = disk_refs_abst RC s \<and>
    (if k < 3 then disk_inv RC s' else pending RC (journal_path RC t bytes) bytes s')"
proof -
  let ?t = "journal_tmp RC t bytes" and ?j = "journal_path RC t bytes"
  let ?s1 = "s\<lparr>fs_dirs := insert [] (insert [''.txn''] (fs_dirs s))\<rparr>"
  let ?s2 = "?s1\<lparr>fs_files := AList.update ?t bytes (fs_files ?s1)\<rparr>"
  let ?s3 = "?s2\<lparr>fs_files := AList.update ?j bytes (AList.delete ?t (fs_files ?s2))\<rparr>"
  note jp = journal_paths [of RC t bytes]
  have tj: "butlast ?t = [''.txn'']" "butlast ?j = [''.txn'']" "?t \<noteq> [''.txn'']" "?j \<noteq> [''.txn'']"
    by (simp_all add: journal_tmp_def journal_path_def)
  have ok: "fs_ok s" "refs_decode RC s" "\<And>q. is_journal q \<Longrightarrow> map_of (fs_files s) q = None"
    using assms(1) by (auto simp: disk_inv_def)
  have pp: "path_prefixes [''.txn''] = {[], [''.txn'']}"
    by (auto simp: path_prefixes_def atLeast0_atMost_Suc)
  have r1: "run_op (MkDirs [''.txn'']) s = Inr ?s1"
    using ok(1) by (simp add: fs_ok_def file_on_way_def pp insert_commute del: map_of_eq_Some_iff)
  have "take k [''.txn''] \<in> {[], [''.txn'']}" for k by (cases k) auto
  then have ok1: "fs_ok ?s1"
    using ok(1) by (auto simp: fs_ok_def simp del: map_of_eq_Some_iff)
  have fit1: "disk_fits ?s1 N"
    using assms(2) ref_path_visible by (auto simp: disk_fits_def)
  have nd: "?t \<notin> fs_dirs ?s1" "?j \<notin> fs_dirs ?s1"
    using ok1 jp tj unfolding fs_ok_def by (auto simp: journal_tmp_def journal_path_def)
  have np: "take k (ref_path n) \<noteq> ?t" "take k (ref_path n) \<noteq> ?j" if "n \<in> N" for n k
    using visible_take [OF ref_path_visible, of n k] assms(2) that jp(3,4)
    by (auto simp: disk_fits_def journal_tmp_def journal_path_def)
  have r2: "run_op (WriteFile ?t bytes) ?s1 = Inr ?s2" using nd(1) by (simp add: tj)
  have ok2: "fs_ok ?s2" "disk_fits ?s2 N"
    using file_update [OF ok1 nd(1), where N = N and data = bytes] fit1 np(1) jp tj journal_path_ok by auto
  have r3: "run_op (Rename ?t ?j) ?s2 = Inr ?s3"
    using nd(2) by (simp add: tj update_conv')
  have m3: "map_of (fs_files ?s3) q = (if q = ?j then Some bytes else if q = ?t then None else map_of (fs_files s) q)" for q
    by (simp add: update_conv' delete_conv')
  have m2: "map_of (fs_files ?s2) q = (if q = ?t then Some bytes else map_of (fs_files s) q)" for q
    by (simp add: update_conv')
  have d3: "distinct (map fst (fs_files ?s3))"
    using ok2(1) by (simp add: fs_ok_def distinct_update distinct_delete)
  have "fs_ok ?s3"
    using ok2(1) nd(2) tj d3 journal_path_ok(1) unfolding fs_ok_def m3 m2 by (auto split: if_splits simp del: map_of_eq_Some_iff)
  moreover have "disk_fits ?s3 N"
    using fit1 np(2) unfolding disk_fits_def m3 by auto
  moreover have ab2: "disk_refs_abst RC ?s2 = disk_refs_abst RC s"
    by (rule abst_cong) (use jp(4) in \<open>auto simp only: m2 split: if_splits\<close>)
  moreover have "disk_refs_abst RC ?s3 = disk_refs_abst RC s"
    by (rule abst_cong) (use jp(3,4) in \<open>auto simp only: m3 split: if_splits\<close>)
  moreover have dec: "refs_decode RC ?s3" "refs_decode RC ?s2"
    using ok(2) jp(3,4) unfolding refs_decode_def m3 m2 by auto
  moreover have "\<forall>q. is_journal q \<longrightarrow> map_of (fs_files ?s3) q = (if q = ?j then Some bytes else None)"
    using ok(3) jp(2) unfolding m3 by auto
  ultimately have e3: "disk_fits ?s3 N" "disk_refs_abst RC ?s3 = disk_refs_abst RC s" "pending RC ?j bytes ?s3"
    unfolding pending_def by blast+
  have e2: "disk_fits ?s2 N" "disk_refs_abst RC ?s2 = disk_refs_abst RC s" "disk_inv RC ?s2"
    using ok2 dec(2) ok(3) jp(2) ab2 unfolding disk_inv_def m2 by auto
  have e1: "disk_refs_abst RC ?s1 = disk_refs_abst RC s" "disk_inv RC ?s1"
    using ok1 ok(2,3) by (auto simp: disk_refs_abst_def fun_eq_iff disk_inv_def refs_decode_def)
  have f: "fold_res run_op (take 1 ops) s = Inr ?s1" "fold_res run_op (take 2 ops) s = Inr ?s2"
      "fold_res run_op ops s = Inr ?s3"
    unfolding ops_def using r1 r2 r3 by (simp_all del: run_op.simps add: numeral_2_eq_2)
  have "k = 0 \<or> k = 1 \<or> k = 2 \<or> 3 \<le> k" by arith
  moreover have ?thesis if "k = 0" using that assms(1,2) by simp
  moreover have ?thesis if "k = 1" using that f(1) fit1 e1 by auto
  moreover have ?thesis if "k = 2" using that f(2) e2 by auto
  moreover have "take k ops = ops" if "3 \<le> k" using that by (simp add: ops_def)
  then have ?thesis if "3 \<le> k" using that f(3) e3 by auto
  ultimately show ?thesis by blast
qed

section \<open>Commits survive crashes\<close>

lemma fs_read_seq [simp]: "fs_read (s\<lparr>dr_seq := x\<rparr>) p = fs_read s p"
  by (simp add: fs_read_def file_on_way_def)

lemma run_op_seq: "run_op op (s\<lparr>dr_seq := x\<rparr>) = bind_res (run_op op s) (\<lambda>t. Inr (t\<lparr>dr_seq := x\<rparr>))"
  by (cases op) (auto simp: file_on_way_def bind_res_def split: option.splits sum.splits io_error.splits)

lemma run_ops_seq: "fold_res run_op ops (s\<lparr>dr_seq := x\<rparr>) = bind_res (fold_res run_op ops s) (\<lambda>t. Inr (t\<lparr>dr_seq := x\<rparr>))"
proof (induction ops arbitrary: s)
  case (Cons op ops)
  show ?case
    by (cases "run_op op s") (simp_all add: run_op_seq Cons.IH del: run_op.simps)
qed simp

lemma run_op_keeps_seq: "run_op op s = Inr s' \<Longrightarrow> dr_seq s' = dr_seq s \<and> dr_pid s' = dr_pid s"
  by (cases op) (auto split: option.splits sum.splits io_error.splits if_splits)

lemma apply_atomic_ops:
  assumes "rcodec_ok RC" and "plan \<noteq> []" and "pl_enc RC plan = Inr bytes"
  shows "dr_apply_atomic RC s plan =
    bind_res (fold_res run_op (commit_ops RC s plan) s) (\<lambda>t. Inr (t\<lparr>dr_seq := dr_seq s + 1\<rparr>))"
proof (cases "run_op (MkDirs [''.txn'']) s")
  case (Inl e)
  then show ?thesis by (simp add: dr_apply_atomic_def assms(2) commit_ops_def del: run_op.simps)
next
  case (Inr s1)
  have tn: "txn_name RC s1 bytes = txn_name RC s bytes" "dr_seq s1 = dr_seq s"
    using run_op_keeps_seq [OF Inr] by (simp_all add: txn_name_def)
  have ops: "commit_ops RC s plan = MkDirs [''.txn''] # ([WriteFile (journal_tmp RC s bytes) bytes,
      Rename (journal_tmp RC s bytes) (journal_path RC s bytes)] @ plan_ops RC plan @ [RemoveFile (journal_path RC s bytes)])"
    by (simp add: commit_ops_def assms(3))
  have "dr_apply_atomic RC s plan = fold_res run_op ([WriteFile (journal_tmp RC s bytes) bytes,
      Rename (journal_tmp RC s bytes) (journal_path RC s bytes)] @ plan_ops RC plan @ [RemoveFile (journal_path RC s bytes)])
      (s1\<lparr>dr_seq := dr_seq s + 1\<rparr>)"
    using assms(2,3) Inr tn
    by (simp add: dr_apply_atomic_def map_codec_def journal_tmp_def journal_path_def Let_def apply_plan_ops [OF assms(1)]
        fold_res_append bind_res_def del: run_op.simps split: sum.split)
  then show ?thesis unfolding run_ops_seq ops fold_res.simps Inr by simp
qed

lemma disk_seq [simp]:
  "disk_inv RC (s\<lparr>dr_seq := x\<rparr>) = disk_inv RC s" "disk_fits (s\<lparr>dr_seq := x\<rparr>) N = disk_fits s N"
  "disk_refs_abst RC (s\<lparr>dr_seq := x\<rparr>) = disk_refs_abst RC s"
  by (auto simp: disk_inv_def fs_ok_def refs_decode_def disk_fits_def disk_refs_abst_def fun_eq_iff)

text \<open>The state after any number of the calls of a commit, and what recovery makes of it.\<close>

lemma commit_prefix_recovers:
  assumes "rcodec_ok RC" and "disk_inv RC s" and "disk_fits s N" and "fst ` set plan \<subseteq> N"
  shows "\<exists>c s'. fold_res run_op (take k (commit_ops RC s plan)) s = Inr c \<and> dr_recover RC c = Inr s' \<and>
    disk_inv RC s' \<and> disk_fits s' N \<and>
    disk_refs_abst RC s' = (if k < 3 then disk_refs_abst RC s else plan_effect plan (disk_refs_abst RC s)) \<and>
    (length (commit_ops RC s plan) \<le> k \<longrightarrow> c = s')"
proof -
  have "valid_name n" if "(n, v) \<in> set plan" for n v
    using that assms(3,4) unfolding disk_fits_def by force
  then obtain bytes where bytes: "pl_enc RC plan = Inr bytes" "pl_dec RC bytes = Inr plan"
    using assms(1) unfolding rcodec_ok_def by blast
  let ?j = "journal_path RC s bytes"
  let ?h = "[MkDirs [''.txn''], WriteFile (journal_tmp RC s bytes) bytes, Rename (journal_tmp RC s bytes) ?j]"
  let ?b = "plan_ops RC plan"
  have ops: "commit_ops RC s plan = ?h @ ?b @ [RemoveFile ?j]" by (simp add: commit_ops_def bytes(1))
  note head = journal_ops_prefix [OF assms(2,3), of k s bytes]
  show ?thesis
  proof (cases "k < 3")
    case True
    then have tk: "take k (commit_ops RC s plan) = take k ?h" "\<not> length (commit_ops RC s plan) \<le> k"
      unfolding ops take_append by simp_all
    with head True show ?thesis using recover_clean by (auto simp del: run_op.simps)
  next
    case False
    from journal_ops_prefix [OF assms(2,3), of 3 s bytes] obtain s1 where
      s1: "fold_res run_op ?h s = Inr s1" "disk_fits s1 N" "disk_refs_abst RC s1 = disk_refs_abst RC s"
      "pending RC ?j bytes s1" by auto
    have ok1: "fs_ok s1" "refs_decode RC s1" using s1(4) by (simp_all add: pending_def)
    note body = plan_ops_prefix [OF assms(1) ok1 s1(2) assms(4)]
    show ?thesis
    proof (cases "k \<le> 3 + length ?b")
      case True
      obtain c where c: "fold_res run_op (take (k - 3) ?b) s1 = Inr c" "keeps RC N s1 c"
        "\<forall>m. m \<notin> fst ` set plan \<longrightarrow> disk_refs_abst RC c m = disk_refs_abst RC s1 m"
        using body [of "k - 3"] by blast
      have fitc: "disk_fits c N" using c(2) by (simp add: keeps_def)
      have "take k (commit_ops RC s plan) = ?h @ take (k - 3) ?b" using False True unfolding ops take_append by (simp add: numeral_3_eq_3)
      then have run: "fold_res run_op (take k (commit_ops RC s plan)) s = Inr c"
        by (simp only: fold_res_append s1(1) bind_res_simps c(1))
      have "plan_effect plan (disk_refs_abst RC c) = plan_effect plan (disk_refs_abst RC s)"
        using c(3) s1(3) by (intro plan_effect_agree) simp
      with replay_pending [OF assms(1) pending_keeps [OF s1(4) c(2)] journal_paths(1) bytes(2) fitc assms(4)]
      show ?thesis using run False True by (auto simp: ops simp del: run_op.simps)
    next
      case False
      obtain c where c: "fold_res run_op ?b s1 = Inr c" "keeps RC N s1 c"
        "disk_refs_abst RC c = plan_effect plan (disk_refs_abst RC s1)"
        using body [of "length ?b"] by auto
      have "disk_fits c N" using c(2) by (simp add: keeps_def)
      from remove_journal [OF pending_keeps [OF s1(4) c(2)] journal_paths(1) this] obtain s' where
        s': "run_op (RemoveFile ?j) c = Inr s'" "disk_inv RC s'" "disk_fits s' N"
        "disk_refs_abst RC s' = disk_refs_abst RC c" by blast
      have "take k (commit_ops RC s plan) = ?h @ ?b @ [RemoveFile ?j]" using False by (simp add: ops)
      then have run: "fold_res run_op (take k (commit_ops RC s plan)) s = Inr s'"
        by (simp only: fold_res_append s1(1) bind_res_simps c(1)) (simp only: fold_res.simps s'(1) bind_res_simps)
      then show ?thesis using s' c(3) s1(3) recover_clean [OF s'(2)] False by auto
    qed
  qed
qed

text \<open>C24. Committing a plan of ref updates on disk is atomic across crashes. However many of the commit's
  file system calls were completed before the crash, reopening the store succeeds and finds either
  the refs as they were before (when the journal had not been renamed into place) or the refs with
  the whole plan applied (from then on), never a mixture. The store is in order and can hold the names of the plan: no name of the plan is a
  directory on disk or of another name of the plan, and none lies below a stored ref.\<close>

theorem commit_crash_atomic:
  assumes "rcodec_ok RC" and "disk_inv RC s" and "disk_fits s (fst ` set plan)"
  shows "\<exists>c s'. fold_res run_op (take k (commit_ops RC s plan)) s = Inr c \<and> dr_open RC c = Inr s' \<and>
    disk_inv RC s' \<and>
    (\<forall>n. disk_refs_abst RC s' n = (if k < 3 then disk_refs_abst RC s n else plan_effect plan (disk_refs_abst RC s) n))"
  using commit_prefix_recovers [OF assms order_refl, of k] unfolding dr_open_def by (auto simp del: run_op.simps)

section \<open>The disk backend keeps the contract\<close>

lemma concat_map_if: "concat (map (\<lambda>x. if P x then [f x] else []) xs) = map f (filter P xs)"
  by (induction xs) auto

lemma hidden_hd: "is_hidden x \<Longrightarrow> hd x = CHR ''.''"
  by (cases x) (auto simp: is_hidden_def)

lemma walk_refs_names:
  assumes "disk_inv RC s"
  shows "distinct (walk_refs s prefix)" and "set (walk_refs s prefix) = {n \<in> dom (disk_refs_abst RC s). starts_with prefix n}"
proof -
  let ?j = "join_with CHR ''/''"
  have ok: "fs_ok s" "refs_decode RC s" using assms by (simp_all add: disk_inv_def)
  have step: "(if list_ex is_hidden p then [] else let name = ?j p in
      if starts_with prefix name then (case ref_name_new name of Inr n \<Rightarrow> [n] | Inl _ \<Rightarrow> []) else []) =
    (if visible_path p \<and> starts_with prefix (?j p) then [?j p] else [])" if "path_ok p" for p
  proof -
    have split: "segs (?j p) = p" using that unfolding path_ok_def segs_def by (intro split_join) auto
    then have vis: "valid_name (?j p) \<longleftrightarrow> visible_path p"
      using that by (simp add: valid_name_def visible_path_def path_ok_def)
    have hid: "list_ex is_hidden p \<Longrightarrow> \<not> visible_path p"
      unfolding list_ex_iff visible_path_def list_all_iff good_segment_def by (blast dest: hidden_hd)
    show ?thesis
    proof (cases "visible_path p")
      case True
      then have "ref_name_new (?j p) = Inr (?j p)" using vis by (simp add: valid_name_iff)
      with True hid show ?thesis by (auto simp: Let_def)
    next
      case False
      then obtain e where "ref_name_new (?j p) = Inl e" using vis valid_name_iff [of "?j p"] by (cases "ref_name_new (?j p)") auto
      with False show ?thesis by (simp add: Let_def)
    qed
  qed
  let ?g = "\<lambda>p. if visible_path p \<and> starts_with prefix (?j p) then [?j p] else []"
  have "path_ok (fst e)" if "e \<in> set (fs_files s)" for e
  proof -
    have "map_of (fs_files s) (fst e) = Some (snd e)" using that ok(1) by (auto simp: fs_ok_def)
    then show ?thesis using ok(1) unfolding fs_ok_def by blast
  qed
  then have walk: "walk_refs s prefix = concat (map ?g (map fst (fs_files s)))"
    unfolding walk_refs_def map_map by (intro arg_cong [where f = concat] map_cong refl) (auto simp: step)
  also have "\<dots> = map ?j (filter (\<lambda>p. visible_path p \<and> starts_with prefix (?j p)) (map fst (fs_files s)))"
    by (rule concat_map_if)
  finally have eq: "walk_refs s prefix =
      map ?j (filter (\<lambda>p. visible_path p \<and> starts_with prefix (?j p)) (map fst (fs_files s)))" .
  have "inj_on ?j {p. visible_path p}" by (rule inj_onI) (metis mem_Collect_eq visible_ref_path)
  then show "distinct (walk_refs s prefix)"
    using ok(1) unfolding eq distinct_map by (auto simp: fs_ok_def inj_on_def)
  show "set (walk_refs s prefix) = {n \<in> dom (disk_refs_abst RC s). starts_with prefix n}"
  proof (intro set_eqI iffI)
    fix n assume "n \<in> set (walk_refs s prefix)"
    then obtain p where p: "n = ?j p" "visible_path p" "starts_with prefix n" "p \<in> fst ` set (fs_files s)"
      unfolding eq by auto
    then obtain data where "map_of (fs_files s) p = Some data" by (metis map_of_eq_None_iff option.exhaust)
    with p ok(2) visible_ref_path [OF p(2)] show "n \<in> {n \<in> dom (disk_refs_abst RC s). starts_with prefix n}"
      by (auto simp: disk_refs_abst_def refs_decode_def simp del: map_of_eq_Some_iff split: sum.splits) (metis Inl_Inr_False)
  next
    fix n assume "n \<in> {n \<in> dom (disk_refs_abst RC s). starts_with prefix n}"
    then have n: "valid_name n" "starts_with prefix n" "ref_path n \<in> fst ` set (fs_files s)"
      by (auto simp: disk_refs_abst_def split: if_splits option.splits dest!: map_of_SomeD) force
    have "?j (ref_path n) = n" by (simp add: ref_path_def)
    then show "n \<in> set (walk_refs s prefix)" unfolding eq using n ref_path_visible by force
  qed
qed

lemma disk_ref_table:
  assumes "rcodec_ok RC"
  shows "ref_table (disk_inv RC) disk_fits (disk_refs_abst RC) (disk_ref_backend RC)"
proof
  fix s N n r plan prefix
  assume inv: "disk_inv RC s"
  then have ok: "fs_ok s" "refs_decode RC s" by (simp_all add: disk_inv_def)
  show "\<exists>ns. rb_list (disk_ref_backend RC) s prefix = Inr ns \<and> sorted ns \<and> distinct ns \<and>
      set ns = {n \<in> dom (disk_refs_abst RC s). starts_with prefix n}"
    using walk_refs_names [OF inv, of prefix] by (simp add: disk_ref_backend_def dr_list_def)
  assume fits: "disk_fits s N"
  have inv': "disk_inv RC s'" if "keeps RC N s s'" for s'
    using that inv by (simp add: keeps_def disk_inv_def)
  show "\<exists>s'. rb_apply_atomic (disk_ref_backend RC) s plan = Inr s' \<and> disk_inv RC s' \<and> disk_fits s' N \<and>
      disk_refs_abst RC s' = plan_effect plan (disk_refs_abst RC s)" if sub: "fst ` set plan \<subseteq> N"
  proof (cases "plan = []")
    case True
    then show ?thesis using inv fits by (simp add: disk_ref_backend_def dr_apply_atomic_def)
  next
    case False
    have "valid_name m" if "(m, v) \<in> set plan" for m v
      using that fits sub unfolding disk_fits_def by force
    then obtain bytes where bytes: "pl_enc RC plan = Inr bytes"
      using assms unfolding rcodec_ok_def by blast
    from commit_prefix_recovers [OF assms inv fits sub, of "length (commit_ops RC s plan) + 3"] obtain s' where
      "fold_res run_op (commit_ops RC s plan) s = Inr s'" "disk_inv RC s'" "disk_fits s' N"
      "disk_refs_abst RC s' = plan_effect plan (disk_refs_abst RC s)" by auto
    then show ?thesis
      using apply_atomic_ops [OF assms False bytes, of s] by (simp add: disk_ref_backend_def)
  qed
  assume n: "n \<in> N"
  show "rb_get (disk_ref_backend RC) s n = Inr (disk_refs_abst RC s n)"
  proof -
    have v: "valid_name n" "ref_path n \<notin> fs_dirs s" using fits n by (simp_all add: disk_fits_def)
    note w = no_file_on_way(1) [OF fits n]
    show ?thesis
    proof (cases "map_of (fs_files s) (ref_path n)")
      case None
      then show ?thesis using v w by (simp add: disk_ref_backend_def dr_get_def fs_read_def disk_refs_abst_def)
    next
      case (Some data)
      then obtain r where "rc_dec RC data = Inr r"
        using ok(2) ref_path_visible [OF v(1)] unfolding refs_decode_def by blast
      then show ?thesis using Some v w
        by (simp add: disk_ref_backend_def dr_get_def fs_read_def disk_refs_abst_def map_codec_def)
    qed
  qed
  have entry: "\<exists>s'. plan_step (dr_set RC) dr_delete (n, v) s = Inr s' \<and> disk_inv RC s' \<and> disk_fits s' N \<and>
      disk_refs_abst RC s' = (disk_refs_abst RC s)(n := v)" for v
    using value_ops_prefix [OF assms ok fits n, of "length (value_ops RC (n, v))" v] inv'
    unfolding plan_step_ops [OF assms] keeps_def by (auto simp del: run_op.simps value_ops.simps)
  from entry [of "Some r"] show "\<exists>s'. rb_set (disk_ref_backend RC) s n r = Inr s' \<and> disk_inv RC s' \<and> disk_fits s' N \<and>
      disk_refs_abst RC s' = (disk_refs_abst RC s)(n \<mapsto> r)"
    by (simp add: plan_step_def disk_ref_backend_def)
  from entry [of None] show "\<exists>s'. rb_delete (disk_ref_backend RC) s n = Inr s' \<and> disk_inv RC s' \<and> disk_fits s' N \<and>
      disk_refs_abst RC s' = (disk_refs_abst RC s)(n := None)"
    by (simp add: plan_step_def disk_ref_backend_def)
qed

text \<open>On disk too a transaction runs its operations in order on the map of refs, all or nothing, as
  long as no name involved is a directory of the refs tree or lies below another ref.\<close>

lemma disk_transaction_atomic:
  assumes "rcodec_ok RC" and "disk_inv RC s" and "disk_fits s (op_name ` set ops)"
  shows "case fold_res op_effect ops (disk_refs_abst RC s) of
      Inl e \<Rightarrow> commit_transaction (disk_ref_backend RC) s ops = Inl e
    | Inr m \<Rightarrow> \<exists>s'. commit_transaction (disk_ref_backend RC) s ops = Inr s' \<and> disk_inv RC s' \<and>
        disk_refs_abst RC s' = m"
  using ref_table.commit_refines [OF disk_ref_table [OF assms(1)] assms(2,3) order_refl]
  by (auto split: sum.splits)

section \<open>A journal that cannot be replayed\<close>

definition empty_refs :: disk_refs where
  "empty_refs = \<lparr>fs_files = [], fs_dirs = {[]}, dr_pid = 1, dr_seq = 0\<rparr>"

lemma empty_refs_inv: "disk_inv RC empty_refs"
  by (simp add: disk_inv_def fs_ok_def refs_decode_def empty_refs_def)

lemma segs_append_gen: "split_at c (n @ c # m) = split_at c n @ split_at c m"
  by (induction n) (auto split: list.splits)

lemma run_ops_append:
  "fold_res run_op xs s = Inr s' \<Longrightarrow> run_ops (xs @ ys) s = run_ops ys s'"
  by (induction xs arbitrary: s) (auto simp: bind_res_Inr simp del: run_op.simps)

text \<open>A transaction that sets a ref and another ref below it, such as \<^verbatim>\<open>a\<close> and \<^verbatim>\<open>a/b\<close>, resolves
  without error, writes its journal, and then fails half way, since \<^verbatim>\<open>a\<close> cannot be both a file and a
  directory. The journal stays behind, and from then on the store cannot be opened: every replay of
  the journal fails the same way.\<close>

lemma conflict_blocks_open:
  assumes "rcodec_ok RC" and "valid_name n" and "valid_name m"
  shows "\<exists>c e. run_ops (commit_ops RC empty_refs [(n, Some r), (n @ ''/'' @ m, Some q)]) empty_refs = (c, Some e) \<and>
    (\<exists>e'. dr_open RC c = Inl e')"
proof -
  define nm where nm: "nm = n @ ''/'' @ m"
  let ?plan = "[(n, Some r), (nm, Some q)]"
  have path: "ref_path nm = ref_path n @ ref_path m"
    using segs_append_gen [of "CHR ''/''" n m] by (simp add: ref_path_def nm)
  have vnm: "valid_name nm"
    using assms(2,3) segs_append_gen [of "CHR ''/''" n m] by (simp add: valid_name_def segs_def nm)
  then have "\<forall>(a, v) \<in> set ?plan. valid_name a" using assms(2) by simp
  then obtain bytes where bytes: "pl_enc RC ?plan = Inr bytes" "pl_dec RC bytes = Inr ?plan"
    using assms(1) unfolding rcodec_ok_def by blast
  let ?j = "journal_path RC empty_refs bytes" and ?t = "journal_tmp RC empty_refs bytes"
  let ?h = "[MkDirs [''.txn''], WriteFile ?t bytes, Rename ?t ?j]"
  have fits: "disk_fits empty_refs {n}"
    using assms(2) by (auto simp: disk_fits_def empty_refs_def dest: arg_cong [where f = length])
  from journal_ops_prefix [OF empty_refs_inv fits, of 3 RC empty_refs bytes] obtain s1 where
    s1: "fold_res run_op ?h empty_refs = Inr s1" "disk_fits s1 {n}" "pending RC ?j bytes s1" by auto
  have ok1: "fs_ok s1" "refs_decode RC s1" using s1(3) by (simp_all add: pending_def)
  have setn: "\<exists>c. fold_res run_op (value_ops RC (n, Some r)) s = Inr c \<and> keeps RC {n} s c \<and>
      disk_refs_abst RC c n = Some r" if "fs_ok s" "refs_decode RC s" "disk_fits s {n}" for s
    using value_ops_prefix [OF assms(1) that, of n "length (value_ops RC (n, Some r))" "Some r"]
    by (auto simp del: run_op.simps value_ops.simps)
  have blocked: "\<exists>e. run_op (MkDirs (butlast (ref_path nm))) c = Inl e" if "disk_refs_abst RC c n = Some r" for c
  proof -
    have "map_of (fs_files c) (ref_path n) \<noteq> None"
      using that by (auto simp: disk_refs_abst_def split: if_splits option.splits)
    moreover have "butlast (ref_path nm) = ref_path n @ butlast (ref_path m)"
      unfolding path by (simp add: butlast_append)
    then have "take (length (ref_path n)) (butlast (ref_path nm)) = ref_path n" by simp
    moreover have "length (ref_path n) \<in> set [1..<Suc (length (butlast (ref_path nm)))]"
      using path by (simp add: Suc_le_eq)
    ultimately have "file_on_way c (butlast (ref_path nm)) (Suc (length (butlast (ref_path nm))))"
      unfolding file_on_way_def list_ex_iff by metis
    then show ?thesis by simp
  qed
  obtain c where c: "fold_res run_op (value_ops RC (n, Some r)) s1 = Inr c" "keeps RC {n} s1 c"
    "disk_refs_abst RC c n = Some r" using setn [OF ok1 s1(2)] by blast
  obtain e where e: "run_op (MkDirs (butlast (ref_path nm))) c = Inl e" using blocked [OF c(3)] by blast
  have "commit_ops RC empty_refs ?plan = ?h @ value_ops RC (n, Some r) @
      (value_ops RC (nm, Some q) @ [RemoveFile ?j])"
    by (simp add: commit_ops_def bytes(1) plan_ops_def del: value_ops.simps)
  then have run: "run_ops (commit_ops RC empty_refs ?plan) empty_refs = (c, Some e)"
    using e by (simp only: run_ops_append [OF s1(1)] run_ops_append [OF c(1)]) simp
  have pend: "pending RC ?j bytes c" by (rule pending_keeps [OF s1(3) c(2)])
  have okc: "fs_ok c" "refs_decode RC c" "disk_fits c {n}" using c(2) by (simp_all add: keeps_def)
  obtain c' where c': "fold_res run_op (value_ops RC (n, Some r)) c = Inr c'" "disk_refs_abst RC c' n = Some r"
    using setn [OF okc] by blast
  obtain e' where "run_op (MkDirs (butlast (ref_path nm))) c' = Inl e'" using blocked [OF c'(2)] by blast
  then have ap: "apply_plan RC c ?plan = Inl e'"
    unfolding apply_plan_ops [OF assms(1)] plan_ops_def
    by (simp only: list.map concat.simps fold_res_append c'(1) bind_res_simps) simp
  have j: "filter is_journal (map fst (fs_files c)) = [?j]"
    using only_journal [OF _ _ journal_paths(1), of "fs_files c" RC empty_refs bytes bytes] pend by (simp add: pending_def fs_ok_def)
  have rd: "fs_read c ?j = Inr bytes"
    using pend journal_paths(1) by (auto simp: pending_def fs_read_def file_on_way_def fs_ok_def journal_path_def)
  have "dr_open RC c = Inl e'"
    using rd bytes(2) ap by (simp add: dr_open_def dr_recover_def j replay_def map_codec_def)
  with run show ?thesis unfolding nm by blast
qed

subsection \<open>Witnesses\<close>

text \<open>A codec that satisfies the hypotheses: numbers in unary, strings with their length.\<close>

definition put_nat :: "nat \<Rightarrow> bytes" where
  "put_nat n = replicate n 1 @ [0]"

definition take_nat :: "bytes \<Rightarrow> nat \<times> bytes" where
  "take_nat bs = (length (takeWhile ((=) 1) bs), tl (dropWhile ((=) 1) bs))"

definition put_str :: "string \<Rightarrow> bytes" where
  "put_str s = put_nat (length s) @ str_bytes s"

definition take_str :: "bytes \<Rightarrow> string \<times> bytes" where
  "take_str bs = (let (n, bs) = take_nat bs in (bytes_str (take n bs), drop n bs))"

definition put_opt :: "('a \<Rightarrow> bytes) \<Rightarrow> 'a option \<Rightarrow> bytes" where
  "put_opt f v = (case v of None \<Rightarrow> [0] | Some x \<Rightarrow> 1 # f x)"

definition take_opt :: "(bytes \<Rightarrow> 'a \<times> bytes) \<Rightarrow> bytes \<Rightarrow> 'a option \<times> bytes" where
  "take_opt f bs = (if take 1 bs = [1] then (let (x, bs) = f (tl bs) in (Some x, bs)) else (None, tl bs))"

definition put_word :: "'a::len word \<Rightarrow> bytes" where
  "put_word w = put_nat (unat w)"

definition take_word :: "bytes \<Rightarrow> 'a::len word \<times> bytes" where
  "take_word bs = (let (n, bs) = take_nat bs in (of_nat n, bs))"

definition put_policy :: "timeline_policy \<Rightarrow> bytes" where
  "put_policy p = (case p of FastForwardOnly \<Rightarrow> [0] | Append \<Rightarrow> [1] | Unrestricted \<Rightarrow> [2])"

definition take_policy :: "bytes \<Rightarrow> timeline_policy \<times> bytes" where
  "take_policy bs =
     (if take 1 bs = [0] then FastForwardOnly else if take 1 bs = [1] then Append else Unrestricted, tl bs)"

fun put_ref :: "ref \<Rightarrow> bytes" where
  "put_ref (RTag t) = 0 # put_word (tag_target t) @ put_word (tag_created_at t) @ put_opt put_str (tag_message t)"
| "put_ref (RTimeline t) = 1 # put_word (tl_head t) @ put_policy (tl_policy t) @ put_word (tl_created_at t) @
     put_str (tl_kind t) @ put_opt put_word (tl_expires_at t)"

definition take_ref :: "bytes \<Rightarrow> ref \<times> bytes" where
  "take_ref bs =
     (if take 1 bs = [0] then
        (let (target, bs) = take_word (tl bs); (created, bs) = take_word bs; (msg, bs) = take_opt take_str bs in
         (RTag \<lparr>tag_target = target, tag_created_at = created, tag_message = msg\<rparr>, bs))
      else
        (let (head, bs) = take_word (tl bs); (policy, bs) = take_policy bs; (created, bs) = take_word bs;
             (kind, bs) = take_str bs; (expires, bs) = take_opt take_word bs in
         (RTimeline \<lparr>tl_head = head, tl_policy = policy, tl_created_at = created, tl_kind = kind,
            tl_expires_at = expires\<rparr>, bs)))"

definition put_plan :: "plan \<Rightarrow> bytes" where
  "put_plan plan = put_nat (length plan) @ concat (map (\<lambda>(n, v). put_str n @ put_opt put_ref v) plan)"

fun take_many :: "nat \<Rightarrow> bytes \<Rightarrow> plan" where
  "take_many 0 bs = []"
| "take_many (Suc k) bs =
     (let (n, bs) = take_str bs; (v, bs) = take_opt take_ref bs in (n, v) # take_many k bs)"

definition unary_codec :: rcodec where
  "unary_codec = \<lparr>rc_enc = (\<lambda>r. Inr (put_ref r)), rc_dec = (\<lambda>bs. Inr (fst (take_ref bs))),
     pl_enc = (\<lambda>p. Inr (put_plan p)), pl_dec = (\<lambda>bs. Inr (let (n, bs) = take_nat bs in take_many n bs)),
     rc_hash = (\<lambda>bs. of_nat (length bs))\<rparr>"

lemma take_put_nat [simp]: "take_nat (put_nat n @ rest) = (n, rest)"
  by (simp add: take_nat_def put_nat_def takeWhile_append dropWhile_append)

lemma take_put_str [simp]: "take_str (put_str s @ rest) = (s, rest)"
  by (simp add: take_str_def put_str_def)

lemma take_put_word [simp]: "take_word (put_word w @ rest) = (w, rest)"
  by (simp add: take_word_def put_word_def)

lemma take_put_opt: "(\<And>x rest. g (f x @ rest) = (x, rest)) \<Longrightarrow> take_opt g (put_opt f v @ rest) = (v, rest)"
  by (cases v) (simp_all add: take_opt_def put_opt_def)

lemma take_put_policy [simp]: "take_policy (put_policy p @ rest) = (p, rest)"
  by (cases p) (simp_all add: take_policy_def put_policy_def)

lemma take_put_ref [simp]: "take_ref (put_ref r @ rest) = (r, rest)"
  by (cases r) (simp_all add: take_ref_def take_put_opt)

lemma take_put_plan: "take_many (length plan) (concat (map (\<lambda>(n, v). put_str n @ put_opt put_ref v) plan) @ rest) = plan"
  by (induction plan) (auto simp: take_put_opt)

lemma unary_codec_ok: "rcodec_ok unary_codec"
proof -
  have "take_ref (put_ref r) = (r, [])" for r using take_put_ref [of r "[]"] by simp
  moreover have "take_many (length plan) (concat (map (\<lambda>(n, v). put_str n @ put_opt put_ref v) plan)) = plan" for plan
    using take_put_plan [of plan "[]"] by simp
  ultimately show ?thesis by (simp add: rcodec_ok_def unary_codec_def put_plan_def)
qed

abbreviation v1_tag :: ref where
  "v1_tag \<equiv> RTag \<lparr>tag_target = 2, tag_created_at = 7, tag_message = None\<rparr>"

lemma empty_fits: "disk_fits empty_refs {''v1''}"
  by (auto simp: disk_fits_def empty_refs_def valid_name_def segs_def good_segment_def ref_path_def)

theorem commit_crash_atomic_witness:
  "\<exists>c s'. fold_res run_op (take 4 (commit_ops unary_codec empty_refs [(''v1'', Some v1_tag)])) empty_refs = Inr c \<and>
     dr_open unary_codec c = Inr s' \<and> disk_refs_abst unary_codec s' ''v1'' = Some v1_tag"
proof -
  have "disk_fits empty_refs (fst ` set [(''v1'', Some v1_tag)])" using empty_fits by simp
  from commit_crash_atomic [OF unary_codec_ok empty_refs_inv this, of 4]
  show ?thesis unfolding plan_effect_Cons plan_effect_Nil by (auto simp del: run_op.simps)
qed

end
