(* ===== verification/Object_Graph.thy ===== *)
theory Object_Graph
  imports Object_Store
begin

text \<open>
  Walks of the object graph: ancestry of snapshots (\<^verbatim>\<open>is_ancestor\<close> of \<^verbatim>\<open>src/acl/hook.rs\<close>), common
  ancestors (\<^verbatim>\<open>src/repo/merge.rs\<close>), the closures of \<^verbatim>\<open>src/sync/negotiate.rs\<close>, \<^verbatim>\<open>closure_present\<close> of
  \<^verbatim>\<open>src/sync/session.rs\<close> and the marking of garbage collection (\<^verbatim>\<open>src/repo/mod.rs\<close>). Each walk reads
  objects through a function \<open>get\<close>, which callers instantiate with \<^const>\<open>ost_get\<close> on their store. A
  stack is a list with its top first, so extending it by a list puts the last element on top. Ids are
  256-bit words, of which there are finitely many: every walk ends, whatever the store holds.
\<close>

type_synonym getter = "oid \<Rightarrow> object option result"

section \<open>Edges\<close>

definition child_edges :: "object \<Rightarrow> oid list" where
  "child_edges obj = (case obj of
       OSnapshot s \<Rightarrow> root s # parents s
     | OTree t \<Rightarrow> map (\<lambda>(name, e). te_id e) (entries t)
     | OEnvOverlay ov \<Rightarrow> List.map_filter (\<lambda>(k, v). case v of EnvSecret i \<Rightarrow> Some i | EnvPlain _ \<Rightarrow> None) (env_entries ov)
     | OPolicy (PRoot r) \<Rightarrow> [pol_lattice r, pol_rules r] @ (case pol_parent r of Some p \<Rightarrow> [p] | None \<Rightarrow> [])
     | _ \<Rightarrow> [])"

definition mark_edges :: "object option \<Rightarrow> oid list" where
  "mark_edges found = (case found of
       Some (OSnapshot s) \<Rightarrow> root s # parents s
     | Some (OTree t) \<Rightarrow> map (\<lambda>(name, e). te_id e) (entries t)
     | Some (OEnvOverlay ov) \<Rightarrow> List.map_filter (\<lambda>(k, v). case v of EnvSecret i \<Rightarrow> Some i | EnvPlain _ \<Rightarrow> None) (env_entries ov)
     | _ \<Rightarrow> [])"

definition snapshot_parents :: "object option \<Rightarrow> oid list" where
  "snapshot_parents found = (case found of Some (OSnapshot s) \<Rightarrow> parents s | _ \<Rightarrow> [])"

section \<open>Ancestry\<close>

text \<open>The inner loop of \<^verbatim>\<open>is_ancestor\<close>: \<open>None\<close> when the ancestor is found.\<close>

fun scan_parents :: "oid \<Rightarrow> oid list \<Rightarrow> oid list \<Rightarrow> oid set \<Rightarrow> (oid list \<times> oid set) option" where
  "scan_parents anc [] stack seen = Some (stack, seen)"
| "scan_parents anc (p # ps) stack seen =
     (if p = anc then None
      else if p \<notin> seen then scan_parents anc ps (p # stack) (insert p seen)
      else scan_parents anc ps stack seen)"

lemma finite_oids [simp]: "finite (S :: oid set)"
  by (rule finite_subset [OF subset_UNIV]) simp

abbreviation unseen :: "oid set \<Rightarrow> nat" where
  "unseen seen \<equiv> card (- seen)"

lemma unseen_insert: "x \<notin> seen \<Longrightarrow> unseen seen = Suc (unseen (insert x seen))"
  using card_Diff_insert_less [of UNIV x seen] by (simp add: Compl_eq_Diff_UNIV)

lemma scan_parents_measure:
  "scan_parents anc ps stack seen = Some (stack', seen') \<Longrightarrow>
   2 * unseen seen' + length stack' \<le> 2 * unseen seen + length stack"
proof (induction ps arbitrary: stack seen)
  case (Cons p ps)
  then show ?case using unseen_insert [of p seen] by (fastforce split: if_splits)
qed simp

function ancestor_loop :: "getter \<Rightarrow> oid \<Rightarrow> oid list \<Rightarrow> oid set \<Rightarrow> bool result" where
  "ancestor_loop get anc [] seen = Inr False"
| "ancestor_loop get anc (cur # stack) seen =
     bind_res (get cur) (\<lambda>found.
       case scan_parents anc (snapshot_parents found) stack seen of
         None \<Rightarrow> Inr True
       | Some (stack', seen') \<Rightarrow> ancestor_loop get anc stack' seen')"
  by pat_completeness auto
termination
  by (relation "measure (\<lambda>(get, anc, stack, seen). 2 * unseen seen + length stack)")
    (use scan_parents_measure in fastforce)+

definition is_ancestor :: "getter \<Rightarrow> oid \<Rightarrow> oid \<Rightarrow> bool result" where
  "is_ancestor get ancestor descendant =
     (if ancestor = descendant then Inr True else ancestor_loop get ancestor [descendant] {})"

section \<open>Common ancestors\<close>

text \<open>The inner loop of \<^verbatim>\<open>expand_frontier\<close>; the new frontier grows at its end.\<close>

fun visit_parents :: "oid list \<Rightarrow> oid list \<Rightarrow> oid set \<Rightarrow> bool \<Rightarrow> oid list \<times> oid set \<times> bool" where
  "visit_parents [] frontier visited found_new = (frontier, visited, found_new)"
| "visit_parents (p # ps) frontier visited found_new =
     (if p \<notin> visited then visit_parents ps (frontier @ [p]) (insert p visited) True
      else visit_parents ps frontier visited found_new)"

fun expand_current :: "getter \<Rightarrow> oid list \<Rightarrow> oid list \<Rightarrow> oid set \<Rightarrow> bool \<Rightarrow> (oid list \<times> oid set \<times> bool) result" where
  "expand_current get [] frontier visited found_new = Inr (frontier, visited, found_new)"
| "expand_current get (i # current) frontier visited found_new =
     bind_res (get i) (\<lambda>found.
       let (frontier', visited', found_new') = visit_parents (snapshot_parents found) frontier visited found_new in
       expand_current get current frontier' visited' found_new')"

definition expand_frontier :: "getter \<Rightarrow> oid list \<Rightarrow> oid set \<Rightarrow> (oid list \<times> oid set \<times> bool) result" where
  "expand_frontier get frontier visited = expand_current get frontier [] visited False"

text \<open>\<^verbatim>\<open>iter().find\<close> on a \<^verbatim>\<open>BTreeSet\<close>: the smallest element with the property.\<close>

definition find_in :: "oid set \<Rightarrow> oid set \<Rightarrow> oid option" where
  "find_in A B = (if A \<inter> B = {} then None else Some (Min (A \<inter> B)))"

lemma visit_parents_grows:
  "visit_parents ps fr V f = (fr', V', f') \<Longrightarrow> V \<subseteq> V' \<and> (f' \<longrightarrow> f \<or> V \<noteq> V')"
proof (induction ps arbitrary: fr V f)
  case (Cons p ps)
  then show ?case by (cases "p \<in> V") fastforce+
qed simp

lemma expand_current_grows:
  "expand_current get cur fr V f = Inr (fr', V', f') \<Longrightarrow> V \<subseteq> V' \<and> (f' \<longrightarrow> f \<or> V \<noteq> V')"
proof (induction cur arbitrary: fr V f)
  case (Cons i cur)
  then obtain found where "get i = Inr found" by (auto simp: bind_res_Inr)
  moreover obtain fr1 V1 f1 where vis: "visit_parents (snapshot_parents found) fr V f = (fr1, V1, f1)"
    by (metis prod_cases3)
  ultimately have "expand_current get cur fr1 V1 f1 = Inr (fr', V', f')" using Cons.prems by simp
  from Cons.IH [OF this] visit_parents_grows [OF vis] show ?case by blast
qed auto

lemma expand_frontier_grows:
  assumes "expand_frontier get fr V = Inr (fr', V', grew)"
  shows "V \<subseteq> V'" and "grew \<Longrightarrow> unseen V' < unseen V"
proof -
  have g: "V \<subseteq> V' \<and> (grew \<longrightarrow> V \<noteq> V')"
    using expand_current_grows [OF assms [unfolded expand_frontier_def]] by simp
  then show "V \<subseteq> V'" by simp
  assume grew
  with g have "- V' \<subset> - V" by blast
  then show "unseen V' < unseen V" by (rule psubset_card_mono [rotated]) simp
qed

lemma unseen_mono: "V \<subseteq> V' \<Longrightarrow> unseen V' \<le> unseen V"
  by (rule card_mono) auto

function common_loop :: "getter \<Rightarrow> oid list \<Rightarrow> oid set \<Rightarrow> oid list \<Rightarrow> oid set \<Rightarrow> oid option result" where
  "common_loop get fa va fb vb =
     bind_res (expand_frontier get fa va) (\<lambda>(fa', va', grew_a).
     case find_in va' vb of
       Some common \<Rightarrow> Inr (Some common)
     | None \<Rightarrow>
         bind_res (expand_frontier get fb vb) (\<lambda>(fb', vb', grew_b).
         case find_in vb' va' of
           Some common \<Rightarrow> Inr (Some common)
         | None \<Rightarrow>
             if \<not> grew_a \<and> \<not> grew_b then Inr None
             else common_loop get fa' va' fb' vb'))"
  by pat_completeness auto
termination
proof (relation "measure (\<lambda>(get, fa, va, fb, vb). unseen va + unseen vb)", goal_cases)
  case (2 get fa va fb vb x fa' y va' grew_a z fb' w vb' grew_b)
  then have "expand_frontier get fa va = Inr (fa', va', grew_a)" "expand_frontier get fb vb = Inr (fb', vb', grew_b)"
    by auto
  note ga = expand_frontier_grows [OF this(1)] and gb = expand_frontier_grows [OF this(2)]
  have "unseen va' + unseen vb' < unseen va + unseen vb"
    using 2 ga gb unseen_mono [OF ga(1)] unseen_mono [OF gb(1)] by (cases grew_a; cases grew_b) auto
  then show ?case by simp
qed simp

definition find_common_ancestor :: "getter \<Rightarrow> oid \<Rightarrow> oid \<Rightarrow> oid option result" where
  "find_common_ancestor get a b =
     (if a = b then Inr (Some a) else common_loop get [a] {a} [b] {b})"

section \<open>Closures\<close>

function mark_loop :: "getter \<Rightarrow> oid list \<Rightarrow> oid set \<Rightarrow> oid set result" where
  "mark_loop get [] reachable = Inr reachable"
| "mark_loop get (i # stack) reachable =
     (if i \<in> reachable then mark_loop get stack reachable
      else bind_res (get i) (\<lambda>found. mark_loop get (rev (mark_edges found) @ stack) (insert i reachable)))"
  by pat_completeness auto
termination
  by (relation "measures [\<lambda>(get, stack, reachable). unseen reachable, \<lambda>(get, stack, reachable). length stack]")
    (auto simp: unseen_insert)

definition mark_reachable :: "getter \<Rightarrow> oid list \<Rightarrow> oid set result" where
  "mark_reachable get roots = mark_loop get (rev roots) {}"

function missing_loop :: "getter \<Rightarrow> oid set \<Rightarrow> oid list \<Rightarrow> oid set \<Rightarrow> oid list \<Rightarrow> oid list result" where
  "missing_loop get have [] seen out = Inr out"
| "missing_loop get have (i # stack) seen out =
     (if i \<in> have \<or> i \<in> seen then missing_loop get have stack seen out
      else bind_res (get i) (\<lambda>found. case found of
          Some obj \<Rightarrow> missing_loop get have (rev (child_edges obj) @ stack) (insert i seen) (out @ [i])
        | None \<Rightarrow> missing_loop get have stack (insert i seen) out))"
  by pat_completeness auto
termination
  by (relation "measures [\<lambda>(get, have, stack, seen, out). unseen seen, \<lambda>(get, have, stack, seen, out). length stack]")
    (auto simp: unseen_insert)

definition missing_closure :: "getter \<Rightarrow> oid list \<Rightarrow> oid set \<Rightarrow> oid list result" where
  "missing_closure get wants have = missing_loop get have (rev wants) {} []"

function present_loop :: "getter \<Rightarrow> oid list \<Rightarrow> oid set \<Rightarrow> bool result" where
  "present_loop get [] seen = Inr True"
| "present_loop get (i # stack) seen =
     (if i \<in> seen then present_loop get stack seen
      else bind_res (get i) (\<lambda>found. case found of
          Some obj \<Rightarrow> present_loop get (rev (child_edges obj) @ stack) (insert i seen)
        | None \<Rightarrow> Inr False))"
  by pat_completeness auto
termination
  by (relation "measures [\<lambda>(get, stack, seen). unseen seen, \<lambda>(get, stack, seen). length stack]")
    (auto simp: unseen_insert)

definition closure_present :: "getter \<Rightarrow> oid \<Rightarrow> bool result" where
  "closure_present get r = present_loop get [r] {}"

section \<open>What the walks compute\<close>

definition readable :: "getter \<Rightarrow> bool" where
  "readable get \<longleftrightarrow> (\<forall>i. \<exists>found. get i = Inr found)"

definition parent_rel :: "getter \<Rightarrow> (oid \<times> oid) set" where
  "parent_rel get = {(x, p). \<exists>found. get x = Inr found \<and> p \<in> set (snapshot_parents found)}"

definition child_rel :: "getter \<Rightarrow> (oid \<times> oid) set" where
  "child_rel get = {(x, y). \<exists>obj. get x = Inr (Some obj) \<and> y \<in> set (child_edges obj)}"

definition mark_rel :: "getter \<Rightarrow> (oid \<times> oid) set" where
  "mark_rel get = {(x, y). \<exists>found. get x = Inr found \<and> y \<in> set (mark_edges found)}"

subsection \<open>Ancestry\<close>

lemma scan_parents_None: "scan_parents anc ps stack seen = None \<longleftrightarrow> anc \<in> set ps"
  by (induction ps arbitrary: stack seen) auto

lemma scan_parents_Some:
  "scan_parents anc ps stack seen = Some (stack', seen') \<Longrightarrow>
   anc \<notin> set ps \<and> seen' = seen \<union> set ps \<and> set stack' = set stack \<union> (set ps - seen)"
  by (induction ps arbitrary: stack seen) (auto split: if_splits)

lemma ancestor_loop_correct:
  assumes "readable get"
    and "\<forall>x \<in> seen - set stack. \<forall>z. (x, z) \<in> parent_rel get \<longrightarrow> z \<noteq> anc \<and> z \<in> seen"
  shows "ancestor_loop get anc stack seen = Inr (\<exists>x \<in> set stack. (x, anc) \<in> (parent_rel get)\<^sup>+)"
  using assms
proof (induction get anc stack seen rule: ancestor_loop.induct)
  case (2 get anc cur stack seen)
  let ?E = "parent_rel get"
  obtain found where found: "get cur = Inr found" using "2.prems"(1) by (auto simp: readable_def)
  have cur: "(cur, z) \<in> ?E \<longleftrightarrow> z \<in> set (snapshot_parents found)" for z
    using found by (auto simp: parent_rel_def)
  show ?case
  proof (cases "scan_parents anc (snapshot_parents found) stack seen")
    case None
    then have "(cur, anc) \<in> ?E\<^sup>+" using cur scan_parents_None by blast
    with None found show ?thesis by auto
  next
    case (Some st)
    obtain stack' seen' where st: "st = (stack', seen')" by (cases st)
    with Some have scan: "anc \<notin> set (snapshot_parents found)" "seen' = seen \<union> set (snapshot_parents found)"
      "set stack' = set stack \<union> (set (snapshot_parents found) - seen)"
      using scan_parents_Some by blast+
    have inv: "z \<noteq> anc \<and> z \<in> seen'" if "x \<in> seen' - set stack'" "(x, z) \<in> ?E" for x z
    proof (cases "x = cur")
      case True
      then show ?thesis using that(2) cur scan(1,2) by blast
    next
      case False
      then have "x \<in> seen - set (cur # stack)" using that(1) scan(2,3) by auto
      then show ?thesis using "2.prems"(2) that(2) scan(2) by blast
    qed
    have IH: "ancestor_loop get anc stack' seen' = Inr (\<exists>x \<in> set stack'. (x, anc) \<in> ?E\<^sup>+)"
      using "2.IH" [OF found Some st [symmetric] "2.prems"(1)] inv by blast
    have "(\<exists>x \<in> set (cur # stack). (x, anc) \<in> ?E\<^sup>+) \<longleftrightarrow> (\<exists>x \<in> set stack'. (x, anc) \<in> ?E\<^sup>+)"
    proof
      assume "\<exists>x \<in> set (cur # stack). (x, anc) \<in> ?E\<^sup>+"
      then consider "(cur, anc) \<in> ?E\<^sup>+" | x where "x \<in> set stack" "(x, anc) \<in> ?E\<^sup>+" by auto
      then show "\<exists>x \<in> set stack'. (x, anc) \<in> ?E\<^sup>+"
      proof cases
        case 1
        then obtain z where z: "(cur, z) \<in> ?E" "z = anc \<or> (z, anc) \<in> ?E\<^sup>+"
          by (rule converse_tranclE) auto
        then have "z \<noteq> anc" "z \<in> seen'" using cur scan(1,2) by auto
        with z(2) worklist_escape [of z anc ?E seen' "set stack'"] inv show ?thesis by blast
      qed (use scan(3) in blast)
    next
      assume "\<exists>x \<in> set stack'. (x, anc) \<in> ?E\<^sup>+"
      then show "\<exists>x \<in> set (cur # stack). (x, anc) \<in> ?E\<^sup>+"
        using scan(3) cur trancl_into_trancl2 [of cur _ ?E anc] by fastforce
    qed
    then show ?thesis using IH found Some st by simp
  qed
qed simp

lemma is_ancestor_correct:
  assumes "readable get"
  shows "is_ancestor get anc d = Inr ((d, anc) \<in> (parent_rel get)\<^sup>*)"
  using ancestor_loop_correct [OF assms, of "{}" "[d]" anc]
  by (auto simp: is_ancestor_def rtrancl_eq_or_trancl)

subsection \<open>Common ancestors\<close>

lemma visit_parents_result:
  "visit_parents ps fr V f = (fr', V', f') \<Longrightarrow>
   V' = V \<union> set ps \<and> set fr' = set fr \<union> (set ps - V) \<and> (f' \<longleftrightarrow> f \<or> set ps - V \<noteq> {})"
  by (induction ps arbitrary: fr V f) (auto split: if_splits)

lemma expand_current_result:
  assumes "readable get"
  shows "\<exists>fr' f'. expand_current get cur fr V f = Inr (fr', V \<union> parent_rel get `` set cur, f') \<and>
    set fr' = set fr \<union> (parent_rel get `` set cur - V) \<and> (f' \<longleftrightarrow> f \<or> parent_rel get `` set cur - V \<noteq> {})"
proof (induction cur arbitrary: fr V f)
  case (Cons i cur)
  obtain found where found: "get i = Inr found" using assms by (auto simp: readable_def)
  have i: "parent_rel get `` {i} = set (snapshot_parents found)" using found by (auto simp: parent_rel_def)
  obtain fr1 V1 f1 where vis: "visit_parents (snapshot_parents found) fr V f = (fr1, V1, f1)" by (metis prod_cases3)
  note v = visit_parents_result [OF vis, folded i]
  have split: "parent_rel get `` set (i # cur) = parent_rel get `` {i} \<union> parent_rel get `` set cur" by auto
  from Cons.IH [of fr1 V1 f1] v show ?case
    unfolding split by (auto simp: found vis Un_assoc) blast+
qed auto

lemma expand_frontier_result:
  assumes "readable get"
  shows "\<exists>fr' grew. expand_frontier get fr V = Inr (fr', V \<union> parent_rel get `` set fr, grew) \<and>
    set fr' = parent_rel get `` set fr - V \<and> (grew \<longleftrightarrow> parent_rel get `` set fr - V \<noteq> {})"
  using expand_current_result [OF assms, of fr "[]" V False] by (simp add: expand_frontier_def)

text \<open>A visited set that contains its start, only ancestors of it, and all parents but the frontier's.\<close>

definition partial_ancestry :: "getter \<Rightarrow> oid \<Rightarrow> oid list \<Rightarrow> oid set \<Rightarrow> bool" where
  "partial_ancestry get a fr V \<longleftrightarrow> a \<in> V \<and> set fr \<subseteq> V \<and> V \<subseteq> (parent_rel get)\<^sup>* `` {a} \<and>
     parent_rel get `` (V - set fr) \<subseteq> V"

lemma partial_ancestry_expand:
  assumes "partial_ancestry get a fr V" and "set fr' = parent_rel get `` set fr - V"
  shows "partial_ancestry get a fr' (V \<union> parent_rel get `` set fr)"
proof -
  let ?E = "parent_rel get"
  have V: "a \<in> V" "set fr \<subseteq> V" "V \<subseteq> ?E\<^sup>* `` {a}" "?E `` (V - set fr) \<subseteq> V"
    using assms(1) by (simp_all add: partial_ancestry_def)
  have "?E `` set fr \<subseteq> ?E\<^sup>* `` {a}"
    using V(2,3) by (meson Image_singleton_iff ImageE rtrancl.rtrancl_into_rtrancl subsetD subsetI)
  moreover have "?E `` (V \<union> ?E `` set fr - set fr') \<subseteq> V \<union> ?E `` set fr"
    unfolding assms(2) using V(4) by (simp add: Image_def) blast
  ultimately show ?thesis using V(1-3) assms(2) unfolding partial_ancestry_def by (simp, blast)
qed

lemma partial_ancestry_all:
  assumes "partial_ancestry get a [] V"
  shows "V = (parent_rel get)\<^sup>* `` {a}"
proof
  show "V \<subseteq> (parent_rel get)\<^sup>* `` {a}" using assms by (simp add: partial_ancestry_def)
  have "y \<in> V" if "x \<in> V" "(x, y) \<in> parent_rel get" for x y
    using assms that by (simp add: partial_ancestry_def) (meson ImageI subsetD)
  moreover have "a \<in> V" using assms by (simp add: partial_ancestry_def)
  ultimately show "(parent_rel get)\<^sup>* `` {a} \<subseteq> V" by (blast intro: closed_reach)
qed

lemma find_in_Some: "find_in A B = Some c \<Longrightarrow> c \<in> A \<inter> B"
  using Min_in [of "A \<inter> B"] unfolding find_in_def by (metis finite_oids option.distinct(1) option.inject)

lemma find_in_None: "find_in A B = None \<longleftrightarrow> A \<inter> B = {}"
  by (simp add: find_in_def)

lemma common_loop_correct:
  assumes "readable get" and "partial_ancestry get a fa va" and "partial_ancestry get b fb vb"
  shows "\<exists>r. common_loop get fa va fb vb = Inr r \<and>
    (case r of Some c \<Rightarrow> (a, c) \<in> (parent_rel get)\<^sup>* \<and> (b, c) \<in> (parent_rel get)\<^sup>*
     | None \<Rightarrow> \<forall>c. \<not> ((a, c) \<in> (parent_rel get)\<^sup>* \<and> (b, c) \<in> (parent_rel get)\<^sup>*))"
  using assms
proof (induction get fa va fb vb rule: common_loop.induct)
  case (1 get fa va fb vb)
  let ?E = "parent_rel get"
  obtain fa' ga where A: "expand_frontier get fa va = Inr (fa', va \<union> ?E `` set fa, ga)"
    "set fa' = ?E `` set fa - va" "ga \<longleftrightarrow> ?E `` set fa - va \<noteq> {}"
    using expand_frontier_result [OF "1.prems"(1), of fa va] by (elim exE conjE)
  obtain fb' gb where B: "expand_frontier get fb vb = Inr (fb', vb \<union> ?E `` set fb, gb)"
    "set fb' = ?E `` set fb - vb" "gb \<longleftrightarrow> ?E `` set fb - vb \<noteq> {}"
    using expand_frontier_result [OF "1.prems"(1), of fb vb] by (elim exE conjE)
  let ?va = "va \<union> ?E `` set fa" and ?vb = "vb \<union> ?E `` set fb"
  note pa = partial_ancestry_expand [OF "1.prems"(2) A(2)]
  note pb = partial_ancestry_expand [OF "1.prems"(3) B(2)]
  have anc: "?va \<subseteq> ?E\<^sup>* `` {a}" "?vb \<subseteq> ?E\<^sup>* `` {b}" "vb \<subseteq> ?E\<^sup>* `` {b}"
    using pa pb "1.prems"(3) unfolding partial_ancestry_def by (simp_all only: simp_thms)
  show ?case
  proof (cases "find_in ?va vb")
    case (Some c)
    then have "(a, c) \<in> ?E\<^sup>* \<and> (b, c) \<in> ?E\<^sup>*" using find_in_Some anc by (meson IntD1 IntD2 Image_singleton_iff subsetD)
    then show ?thesis using A(1) Some by simp
  next
    case None
    show ?thesis
    proof (cases "find_in ?vb ?va")
      case (Some c)
      then have "(a, c) \<in> ?E\<^sup>* \<and> (b, c) \<in> ?E\<^sup>*" using find_in_Some anc by (meson IntD1 IntD2 Image_singleton_iff subsetD)
      then show ?thesis using A(1) B(1) None Some by simp
    next
      case None2: None
      show ?thesis
      proof (cases "\<not> ga \<and> \<not> gb")
        case True
        then have "set fa' = {}" "set fb' = {}" using A(2,3) B(2,3) by simp_all
        then have "fa' = []" "fb' = []" by simp_all
        then have "?va = ?E\<^sup>* `` {a}" "?vb = ?E\<^sup>* `` {b}" using pa pb partial_ancestry_all by metis+
        moreover have "?vb \<inter> ?va = {}" using None2 unfolding find_in_None .
        ultimately have "?E\<^sup>* `` {b} \<inter> ?E\<^sup>* `` {a} = {}" by (simp only:)
        then have "\<not> ((a, c) \<in> ?E\<^sup>* \<and> (b, c) \<in> ?E\<^sup>*)" for c by blast
        then show ?thesis using A(1) B(1) None None2 True by simp
      next
        case False
        have "common_loop get fa va fb vb = common_loop get fa' ?va fb' ?vb"
          by (subst common_loop.simps) (use A(1) B(1) None None2 False in \<open>auto simp del: common_loop.simps\<close>)
        with "1.IH" [OF A(1) refl refl None B(1) refl refl None2 False "1.prems"(1) pa pb] show ?thesis by (simp only:)
      qed
    qed
  qed
qed

lemma find_common_ancestor_correct:
  assumes "readable get"
  shows "\<exists>r. find_common_ancestor get a b = Inr r \<and>
    (case r of Some c \<Rightarrow> (a, c) \<in> (parent_rel get)\<^sup>* \<and> (b, c) \<in> (parent_rel get)\<^sup>*
     | None \<Rightarrow> \<forall>c. \<not> ((a, c) \<in> (parent_rel get)\<^sup>* \<and> (b, c) \<in> (parent_rel get)\<^sup>*))"
proof (cases "a = b")
  case False
  have "partial_ancestry get x [x] {x}" for x by (auto simp: partial_ancestry_def)
  from common_loop_correct [OF assms this this] False show ?thesis by (simp add: find_common_ancestor_def)
qed (simp add: find_common_ancestor_def)

text \<open>The search for a common ancestor always answers; an id it returns is an ancestor of both
  snapshots, and it returns none only when the two histories share no snapshot.\<close>

lemma common_ancestor_sound_complete:
  assumes "readable get"
  shows "(\<exists>r. find_common_ancestor get a b = Inr r) \<and>
    (\<forall>c. find_common_ancestor get a b = Inr (Some c) \<longrightarrow>
      (a, c) \<in> (parent_rel get)\<^sup>* \<and> (b, c) \<in> (parent_rel get)\<^sup>*) \<and>
    (find_common_ancestor get a b = Inr None \<longleftrightarrow>
      (parent_rel get)\<^sup>* `` {a} \<inter> (parent_rel get)\<^sup>* `` {b} = {})"
proof -
  obtain r where r: "find_common_ancestor get a b = Inr r"
    "case r of Some c \<Rightarrow> (a, c) \<in> (parent_rel get)\<^sup>* \<and> (b, c) \<in> (parent_rel get)\<^sup>*
     | None \<Rightarrow> \<forall>c. \<not> ((a, c) \<in> (parent_rel get)\<^sup>* \<and> (b, c) \<in> (parent_rel get)\<^sup>*)"
    using find_common_ancestor_correct [OF assms] by blast
  show ?thesis
  proof (cases r)
    case None
    then show ?thesis using r by (simp add: disjoint_iff)
  next
    case (Some c)
    then show ?thesis using r by (simp add: disjoint_iff) blast
  qed
qed

text \<open>A tip that the store does not hold has no ancestors there, so it shares none but itself.\<close>

lemma common_ancestor_unknown:
  assumes "readable get" and "get b = Inr None" and "a \<noteq> b" and "(a, b) \<notin> (parent_rel get)\<^sup>*"
  shows "find_common_ancestor get a b = Inr None"
proof -
  have "(b, c) \<in> (parent_rel get)\<^sup>* \<Longrightarrow> c = b" for c
    by (erule converse_rtranclE) (use assms(2) in \<open>auto simp: parent_rel_def snapshot_parents_def\<close>)
  then have "\<not> ((a, c) \<in> (parent_rel get)\<^sup>* \<and> (b, c) \<in> (parent_rel get)\<^sup>*)" for c using assms(4) by blast
  with find_common_ancestor_correct [OF assms(1), of a b] show ?thesis by (auto split: option.splits)
qed

subsection \<open>Closures\<close>

lemma reach_unfold: "R\<^sup>* `` (insert i W) = insert i (R\<^sup>* `` (R `` {i} \<union> W))"
proof -
  have "R\<^sup>* `` {i} = insert i (R\<^sup>* `` (R `` {i}))"
    by (auto intro: converse_rtrancl_into_rtrancl) (metis Image_singleton_iff ImageI converse_rtranclE)
  moreover have "R\<^sup>* `` insert i W = R\<^sup>* `` {i} \<union> R\<^sup>* `` W" by blast
  ultimately show ?thesis by (simp add: Image_Un)
qed

lemma reach_closed:
  assumes "\<forall>x \<in> S. R `` {x} \<subseteq> S \<union> W"
  shows "S \<union> R\<^sup>* `` (S \<union> W) = S \<union> R\<^sup>* `` W"
proof -
  have "y \<in> S \<union> R\<^sup>* `` W" if "(x, y) \<in> R\<^sup>*" "x \<in> S" for x y
    using that
  proof (induction rule: rtrancl_induct)
    case (step y z)
    then consider "y \<in> S" | w where "w \<in> W" "(w, y) \<in> R\<^sup>*" by auto
    then show ?case
    proof cases
      case 1
      then have "z \<in> S \<union> W" using assms step.hyps(2) by blast
      then show ?thesis by blast
    next
      case (2 w)
      then have "(w, z) \<in> R\<^sup>*" using step.hyps(2) by (simp add: rtrancl_into_rtrancl)
      with 2(1) show ?thesis by blast
    qed
  qed simp
  then show ?thesis by blast
qed

lemma mark_loop_correct:
  assumes "readable get" and "\<forall>x \<in> S. mark_rel get `` {x} \<subseteq> S \<union> set stack"
  shows "mark_loop get stack S = Inr (S \<union> (mark_rel get)\<^sup>* `` set stack)"
  using assms
proof (induction get stack S rule: mark_loop.induct)
  case (2 get i stack S)
  let ?E = "mark_rel get"
  show ?case
  proof (cases "i \<in> S")
    case True
    then have inv: "\<forall>x \<in> S. ?E `` {x} \<subseteq> S \<union> set stack" using "2.prems"(2) by auto
    have eq: "S \<union> set (i # stack) = S \<union> set stack" using True by auto
    have "S \<union> ?E\<^sup>* `` set (i # stack) = S \<union> ?E\<^sup>* `` set stack"
      using reach_closed [OF "2.prems"(2)] reach_closed [OF inv] unfolding eq by simp
    then show ?thesis using "2.IH"(1) [OF True "2.prems"(1) inv] True by simp
  next
    case False
    obtain found where found: "get i = Inr found" using "2.prems"(1) by (auto simp: readable_def)
    then have e: "?E `` {i} = set (mark_edges found)" by (auto simp: mark_rel_def)
    let ?stack = "rev (mark_edges found) @ stack"
    have inv: "\<forall>x \<in> insert i S. ?E `` {x} \<subseteq> insert i S \<union> set ?stack"
      using "2.prems"(2) e by auto
    have "mark_loop get ?stack (insert i S) = Inr (insert i S \<union> ?E\<^sup>* `` set ?stack)"
      using "2.IH"(2) [OF False found "2.prems"(1) inv] .
    moreover have "set ?stack = ?E `` {i} \<union> set stack" by (simp add: e)
    then have "S \<union> ?E\<^sup>* `` set (i # stack) = insert i S \<union> ?E\<^sup>* `` set ?stack"
      using reach_unfold [of ?E i "set stack"] by simp
    ultimately show ?thesis using False found by simp
  qed
qed simp

lemma mark_reachable_correct:
  assumes "readable get"
  shows "mark_reachable get roots = Inr ((mark_rel get)\<^sup>* `` set roots)"
  using mark_loop_correct [OF assms, of "{}"] by (simp add: mark_reachable_def)

lemma present_loop_correct:
  assumes "readable get" and "\<forall>x \<in> S. child_rel get `` {x} \<subseteq> S \<union> set stack" and "\<forall>x \<in> S. get x \<noteq> Inr None"
  shows "present_loop get stack S = Inr (\<forall>x \<in> (child_rel get)\<^sup>* `` set stack. get x \<noteq> Inr None)"
  using assms
proof (induction get stack S rule: present_loop.induct)
  case (2 get i stack S)
  let ?E = "child_rel get"
  show ?case
  proof (cases "i \<in> S")
    case True
    then have inv: "\<forall>x \<in> S. ?E `` {x} \<subseteq> S \<union> set stack" using "2.prems"(2) by auto
    have eq: "S \<union> set (i # stack) = S \<union> set stack" using True by auto
    have "S \<union> ?E\<^sup>* `` set (i # stack) = S \<union> ?E\<^sup>* `` set stack"
      using reach_closed [OF "2.prems"(2)] reach_closed [OF inv] unfolding eq by simp
    then have "(\<forall>x \<in> ?E\<^sup>* `` set (i # stack). get x \<noteq> Inr None) \<longleftrightarrow> (\<forall>x \<in> ?E\<^sup>* `` set stack. get x \<noteq> Inr None)"
      using "2.prems"(3) by (metis Un_iff)
    then show ?thesis using "2.IH"(1) [OF True "2.prems"(1) inv "2.prems"(3)] True by simp
  next
    case False
    obtain found where found: "get i = Inr found" using "2.prems"(1) by (auto simp: readable_def)
    show ?thesis
    proof (cases found)
      case None
      then have "i \<in> ?E\<^sup>* `` set (i # stack)" "get i = Inr None" using found by auto
      then have "\<not> (\<forall>x \<in> ?E\<^sup>* `` set (i # stack). get x \<noteq> Inr None)" by blast
      with None False found show ?thesis by simp
    next
      case (Some obj)
      then have e: "?E `` {i} = set (child_edges obj)" using found by (auto simp: child_rel_def)
      let ?stack = "rev (child_edges obj) @ stack"
      have inv: "\<forall>x \<in> insert i S. ?E `` {x} \<subseteq> insert i S \<union> set ?stack" using "2.prems"(2) e by auto
      have pres: "\<forall>x \<in> insert i S. get x \<noteq> Inr None" using "2.prems"(3) found Some by simp
      have "present_loop get ?stack (insert i S) = Inr (\<forall>x \<in> ?E\<^sup>* `` set ?stack. get x \<noteq> Inr None)"
        using "2.IH"(2) [OF False found Some "2.prems"(1) inv pres] .
      moreover have "set ?stack = ?E `` {i} \<union> set stack" by (simp add: e)
      then have "(\<forall>x \<in> ?E\<^sup>* `` set (i # stack). get x \<noteq> Inr None) \<longleftrightarrow> (\<forall>x \<in> ?E\<^sup>* `` set ?stack. get x \<noteq> Inr None)"
        using reach_unfold [of ?E i "set stack"] found Some by simp
      ultimately show ?thesis using False found Some by simp
    qed
  qed
qed simp

lemma closure_present_correct:
  assumes "readable get"
  shows "closure_present get r = Inr (\<forall>x. (r, x) \<in> (child_rel get)\<^sup>* \<longrightarrow> get x \<noteq> Inr None)"
  using present_loop_correct [OF assms, of "{}" "[r]"] unfolding closure_present_def by (simp del: present_loop.simps) blast

text \<open>The edges that the negotiation follows: those of objects the receiver lacks.\<close>

definition sent_rel :: "getter \<Rightarrow> oid set \<Rightarrow> (oid \<times> oid) set" where
  "sent_rel get have = {(x, y) \<in> child_rel get. x \<notin> have}"

lemma missing_loop_correct:
  assumes "readable get" and "\<forall>x \<in> S \<union> have. sent_rel get have `` {x} \<subseteq> S \<union> have \<union> set stack"
    and "S \<inter> have = {}" and "distinct out" and "set out = {x \<in> S. get x \<noteq> Inr None}"
  shows "\<exists>out'. missing_loop get have stack S out = Inr out' \<and> distinct out' \<and>
    set out' = {x \<in> S \<union> have \<union> (sent_rel get have)\<^sup>* `` set stack. x \<notin> have \<and> get x \<noteq> Inr None}"
  using assms
proof (induction get "have" stack S out rule: missing_loop.induct)
  case (1 get "have" S out)
  then show ?case by auto
next
  case (2 get "have" i stack S out)
  let ?E = "sent_rel get have" and ?H = "S \<union> have"
  show ?case
  proof (cases "i \<in> have \<or> i \<in> S")
    case True
    then have inv: "\<forall>x \<in> ?H. ?E `` {x} \<subseteq> ?H \<union> set stack" using "2.prems"(2) by auto
    have eq: "?H \<union> set (i # stack) = ?H \<union> set stack" using True by auto
    have "?H \<union> ?E\<^sup>* `` set (i # stack) = ?H \<union> ?E\<^sup>* `` set stack"
      using reach_closed [OF "2.prems"(2)] reach_closed [OF inv] unfolding eq by simp
    then show ?thesis using "2.IH"(1) [OF True "2.prems"(1) inv "2.prems"(3-5)] True by simp
  next
    case False
    obtain found where found: "get i = Inr found" using "2.prems"(1) by (auto simp: readable_def)
    let ?step = "case found of Some obj \<Rightarrow> child_edges obj | None \<Rightarrow> []"
    have e: "?E `` {i} = set ?step"
      using found False by (auto simp: sent_rel_def child_rel_def split: option.split)
    have inv: "\<forall>x \<in> insert i S \<union> have. ?E `` {x} \<subseteq> insert i S \<union> have \<union> set (rev ?step @ stack)"
      using "2.prems"(2) e by auto
    have disj: "insert i S \<inter> have = {}" using "2.prems"(3) False by simp
    have goal: "?H \<union> ?E\<^sup>* `` set (i # stack) = insert i S \<union> have \<union> ?E\<^sup>* `` set (rev ?step @ stack)"
      using reach_unfold [of ?E i "set stack"] e by auto
    show ?thesis
    proof (cases found)
      case None
      have out: "set out = {x \<in> insert i S. get x \<noteq> Inr None}" using "2.prems"(5) None found by auto
      have "\<exists>out'. missing_loop get have stack (insert i S) out = Inr out' \<and> distinct out' \<and>
          set out' = {x \<in> insert i S \<union> have \<union> ?E\<^sup>* `` set stack. x \<notin> have \<and> get x \<noteq> Inr None}"
        by (rule "2.IH"(2) [OF False found None "2.prems"(1) _ disj "2.prems"(4) out]) (use inv None in simp)
      then show ?thesis unfolding goal using False found None by simp
    next
      case (Some obj)
      have "i \<notin> set out" using False unfolding "2.prems"(5) by blast
      then have out1: "distinct (out @ [i])" using "2.prems"(4) by simp
      have "get i \<noteq> Inr None" using found Some by simp
      then have out: "set (out @ [i]) = {x \<in> insert i S. get x \<noteq> Inr None}"
        unfolding set_append "2.prems"(5) by auto
      have "\<exists>out'. missing_loop get have (rev (child_edges obj) @ stack) (insert i S) (out @ [i]) = Inr out' \<and>
          distinct out' \<and> set out' = {x \<in> insert i S \<union> have \<union> ?E\<^sup>* `` set (rev (child_edges obj) @ stack).
            x \<notin> have \<and> get x \<noteq> Inr None}"
        by (rule "2.IH"(3) [OF False found Some "2.prems"(1) _ disj out1 out]) (use inv Some in simp)
      then show ?thesis unfolding goal using False found Some by simp
    qed
  qed
qed

lemma missing_closure_correct:
  assumes "readable get"
  shows "\<exists>out. missing_closure get wants have = Inr out \<and> distinct out \<and>
    set out = {x \<in> (sent_rel get have)\<^sup>* `` set wants. x \<notin> have \<and> get x \<noteq> Inr None}"
proof -
  have "\<forall>x \<in> {} \<union> have. sent_rel get have `` {x} \<subseteq> {} \<union> have \<union> set (rev wants)"
    by (auto simp: sent_rel_def)
  from missing_loop_correct [OF assms this, of "[]"] show ?thesis
    by (simp add: missing_closure_def) (metis (mono_tags, lifting) Collect_cong Un_iff)
qed

text \<open>Pruning loses nothing when the receiver's objects are closed under references.\<close>

lemma sent_reach:
  assumes "child_rel get `` have \<subseteq> have" and "(w, x) \<in> (child_rel get)\<^sup>*" and "x \<notin> have"
  shows "(w, x) \<in> (sent_rel get have)\<^sup>*"
  using assms(2,3)
proof (induction rule: rtrancl_induct)
  case (step y z)
  then have "y \<notin> have" using assms(1) by blast
  with step show ?case by (auto simp: sent_rel_def intro: rtrancl_into_rtrancl)
qed simp

text \<open>The negotiation sends exactly what is missing: provided the receiver holds everything its own
  objects refer to, the objects sent are, each once, those of the sender reachable from the wanted
  ids that the receiver lacks; so afterwards the receiver holds the whole closure.\<close>

lemma missing_closure_exact:
  assumes "readable get" and "child_rel get `` have \<subseteq> have"
  shows "\<exists>out. missing_closure get wants have = Inr out \<and> distinct out \<and>
    set out = {x \<in> (child_rel get)\<^sup>* `` set wants. get x \<noteq> Inr None} - have"
proof -
  have "sent_rel get have \<subseteq> child_rel get" by (auto simp: sent_rel_def)
  then have "(sent_rel get have)\<^sup>* \<subseteq> (child_rel get)\<^sup>*" by (rule rtrancl_mono)
  then have "x \<in> (sent_rel get have)\<^sup>* `` set wants \<longleftrightarrow> x \<in> (child_rel get)\<^sup>* `` set wants" if "x \<notin> have" for x
    using sent_reach [OF assms(2) _ that] by (meson ImageE ImageI subsetD)
  then have "{x \<in> (sent_rel get have)\<^sup>* `` set wants. x \<notin> have \<and> get x \<noteq> Inr None} =
      {x \<in> (child_rel get)\<^sup>* `` set wants. get x \<noteq> Inr None} - have" by blast
  with missing_closure_correct [OF assms(1), of wants "have"] show ?thesis by simp
qed

text \<open>Marking for garbage collection computes the set of ids reachable from the roots through the
  edges it follows, and these are all references of snapshots, trees and overlays but none of a
  policy root: the lattice, the rules and the parent of a policy root are not marked through it.\<close>

lemma mark_reachable_iff:
  assumes "readable get"
  shows "mark_reachable get roots = Inr ((mark_rel get)\<^sup>* `` set roots) \<and>
    (\<forall>x obj. get x = Inr (Some obj) \<longrightarrow>
      mark_rel get `` {x} = (case obj of OPolicy (PRoot _) \<Rightarrow> {} | _ \<Rightarrow> child_rel get `` {x}))"
proof -
  have "mark_rel get `` {x} = set (mark_edges (Some obj))" "child_rel get `` {x} = set (child_edges obj)"
    if "get x = Inr (Some obj)" for x obj
    using that by (auto simp: mark_rel_def child_rel_def)
  then have "mark_rel get `` {x} = (case obj of OPolicy (PRoot _) \<Rightarrow> {} | _ \<Rightarrow> child_rel get `` {x})"
    if "get x = Inr (Some obj)" for x obj
    using that by (auto simp: mark_edges_def child_edges_def split: object.splits policy_object.splits)
  then show ?thesis using mark_reachable_correct [OF assms] by blast
qed

subsection \<open>Witnesses\<close>

text \<open>Snapshots 1 to 4: 3 and 4 both have the parents 2 and 1, and 2 has the parent 1.\<close>

definition snap :: "oid list \<Rightarrow> object" where
  "snap ps = OSnapshot \<lparr>root = 0, parents = ps, author = [], created_at = 0, message = []\<rparr>"

definition criss_cross :: getter where
  "criss_cross i = Inr (map_of [(1, snap []), (2, snap [1]), (3, snap [2, 1]), (4, snap [2, 1])] i)"

lemma criss_cross_readable: "readable criss_cross"
  by (simp add: readable_def criss_cross_def)

text \<open>The common ancestor that is found need not be a nearest one: among the common ancestors seen in
  a round the one with the smallest id is returned, here a snapshot that is itself a proper ancestor
  of another common ancestor.\<close>

lemma common_ancestor_not_nearest:
  "find_common_ancestor criss_cross 3 4 = Inr (Some 1) \<and> is_ancestor criss_cross 2 3 = Inr True \<and>
   is_ancestor criss_cross 2 4 = Inr True \<and> is_ancestor criss_cross 1 2 = Inr True"
proof -
  have "expand_frontier criss_cross [3] {3} = Inr ([2, 1], {3, 2, 1}, True)"
    "expand_frontier criss_cross [4] {4} = Inr ([2, 1], {4, 2, 1}, True)"
    by (simp_all add: expand_frontier_def criss_cross_def snapshot_parents_def snap_def insert_commute)
  moreover have "find_in {3, 2, 1} {4} = None" by (simp add: find_in_def)
  moreover have "{4, 2, 1 :: oid} \<inter> {3, 2, 1} = {1, 2}" by auto
  then have "find_in {4, 2, 1} {3, 2, 1} = Some 1" by (simp add: find_in_def)
  ultimately have "find_common_ancestor criss_cross 3 4 = Inr (Some 1)"
    by (simp add: find_common_ancestor_def)
  then show ?thesis
    by (simp add: is_ancestor_def criss_cross_def snapshot_parents_def snap_def)
qed

end
