(* ===== verification/Merge.thy ===== *)
theory Merge
  imports Object_Graph
begin

text \<open>
  The three-way merge of \<^verbatim>\<open>src/repo/merge.rs\<close> over flat maps from paths to blob ids. The loop of
  \<^verbatim>\<open>three_way_diff\<close> is translated with its case analysis; it is then shown to implement the
  path-by-path rule \<open>diff3\<close>, which says what a three-way merge means without any of that analysis.
\<close>

section \<open>The code\<close>

record merge_conflict =
  mc_path :: string
  mc_ours :: "oid option"
  mc_theirs :: "oid option"

record merge_result =
  merged :: "(string, oid) btree"
  conflicts :: "merge_conflict list"

definition is_clean :: "merge_result \<Rightarrow> bool" where
  "is_clean r \<longleftrightarrow> conflicts r = []"

abbreviation add_merged :: "string \<Rightarrow> oid \<Rightarrow> merge_result \<Rightarrow> merge_result" where
  "add_merged key i r \<equiv> r\<lparr>merged := bt_insert key i (merged r)\<rparr>"

abbreviation add_conflict :: "string \<Rightarrow> oid option \<Rightarrow> oid option \<Rightarrow> merge_result \<Rightarrow> merge_result" where
  "add_conflict key our thr r \<equiv>
     r\<lparr>conflicts := conflicts r @ [\<lparr>mc_path = key, mc_ours = our, mc_theirs = thr\<rparr>]\<rparr>"

text \<open>
  The body of the loop. The last match of the source is \<^verbatim>\<open>unreachable!\<close>: when both sides are absent
  they are equal, and the first test has taken the key.
\<close>

definition merge_key ::
  "(string, oid) btree \<Rightarrow> (string, oid) btree \<Rightarrow> (string, oid) btree \<Rightarrow> string \<Rightarrow> merge_result \<Rightarrow> merge_result" where
  "merge_key ancestor ours theirs key r =
     (let anc = bt_get ancestor key; our = bt_get ours key; thr = bt_get theirs key in
      if our = thr then (case our of Some i \<Rightarrow> add_merged key i r | None \<Rightarrow> r)
      else case (anc, our, thr) of
        (_, Some o', Some t) \<Rightarrow>
          if anc = Some o' then add_merged key t r
          else if anc = Some t then add_merged key o' r
          else add_conflict key (Some o') (Some t) r
      | (Some a_id, Some o', None) \<Rightarrow> if o' = a_id then r else add_conflict key (Some o') None r
      | (None, Some o', None) \<Rightarrow> add_merged key o' r
      | (Some a_id, None, Some t) \<Rightarrow> if t = a_id then r else add_conflict key None (Some t) r
      | (None, None, Some t) \<Rightarrow> add_merged key t r
      | (_, None, None) \<Rightarrow> r)"

definition three_way_diff ::
  "(string, oid) btree \<Rightarrow> (string, oid) btree \<Rightarrow> (string, oid) btree \<Rightarrow> merge_result" where
  "three_way_diff ancestor ours theirs =
     (let all_keys = btset_of (bt_keys ancestor @ bt_keys ours @ bt_keys theirs) in
      fold (merge_key ancestor ours theirs) all_keys \<lparr>merged = [], conflicts = []\<rparr>)"

section \<open>What a three-way merge means\<close>

text \<open>
  At one path, a side that did not change the ancestor's value yields to the other; when both
  changed it, and differently, the path is a conflict. A value is \<open>None\<close> where the path is absent.
\<close>

datatype 'v verdict = Take "'v option" | Clash

definition diff3 :: "'v option \<Rightarrow> 'v option \<Rightarrow> 'v option \<Rightarrow> 'v verdict" where
  "diff3 anc our thr =
     (if our = thr \<or> anc = our then Take thr else if anc = thr then Take our else Clash)"

lemma diff3_swap: "diff3 anc our thr = diff3 anc thr our"
  by (auto simp: diff3_def)

lemma merge_key_diff3:
  "merge_key ancestor ours theirs key r =
     (case diff3 (bt_get ancestor key) (bt_get ours key) (bt_get theirs key) of
        Take (Some i) \<Rightarrow> add_merged key i r
      | Take None \<Rightarrow> r
      | Clash \<Rightarrow> add_conflict key (bt_get ours key) (bt_get theirs key) r)"
  by (cases "bt_get ancestor key"; cases "bt_get ours key"; cases "bt_get theirs key")
    (auto simp: merge_key_def diff3_def Let_def)

abbreviation verdict_at :: "(string, oid) btree \<Rightarrow> (string, oid) btree \<Rightarrow> (string, oid) btree \<Rightarrow> string \<Rightarrow> oid verdict" where
  "verdict_at a b c p \<equiv> diff3 (bt_get a p) (bt_get b p) (bt_get c p)"

lemma fold_merge_key:
  assumes "distinct ks"
  shows "bt_wf (merged r) \<Longrightarrow> bt_wf (merged (fold (merge_key a b c) ks r))"
    and "bt_get (merged (fold (merge_key a b c) ks r)) p =
      (if p \<in> set ks then (case verdict_at a b c p of Take (Some i) \<Rightarrow> Some i | _ \<Rightarrow> bt_get (merged r) p)
       else bt_get (merged r) p)"
    and "conflicts (fold (merge_key a b c) ks r) = conflicts r @
      map (\<lambda>k. \<lparr>mc_path = k, mc_ours = bt_get b k, mc_theirs = bt_get c k\<rparr>)
        (filter (\<lambda>k. verdict_at a b c k = Clash) ks)"
  using assms
  by (induction ks arbitrary: r) (auto simp: merge_key_diff3 split: verdict.splits option.splits)

lemma verdict_unknown_key:
  "p \<notin> set (bt_keys a @ bt_keys b @ bt_keys c) \<Longrightarrow> verdict_at a b c p = Take None"
  using map_of_eq_None_iff [of a p] map_of_eq_None_iff [of b p] map_of_eq_None_iff [of c p]
  by (simp add: diff3_def)

abbreviation conflict_keys :: "(string, oid) btree \<Rightarrow> (string, oid) btree \<Rightarrow> (string, oid) btree \<Rightarrow> string list" where
  "conflict_keys a b c \<equiv>
     filter (\<lambda>p. verdict_at a b c p = Clash) (btset_of (bt_keys a @ bt_keys b @ bt_keys c))"

text \<open>
  C22. \<^verbatim>\<open>three_way_diff\<close> implements the three-way rule path by path. The merged map is a proper
  ordered map that holds, at each path, the value the rule takes, and nothing at a path that
  conflicts; the conflicts are exactly the paths where both sides changed the ancestor differently,
  in path order, each reported once with the two values.
\<close>

theorem three_way_diff_refines:
  "bt_wf (merged (three_way_diff a b c)) \<and>
   (\<forall>p. bt_get (merged (three_way_diff a b c)) p =
      (case diff3 (bt_get a p) (bt_get b p) (bt_get c p) of Take v \<Rightarrow> v | Clash \<Rightarrow> None)) \<and>
   (\<exists>ps. sorted ps \<and> distinct ps \<and>
      set ps = {p. diff3 (bt_get a p) (bt_get b p) (bt_get c p) = Clash} \<and>
      conflicts (three_way_diff a b c) =
        map (\<lambda>p. \<lparr>mc_path = p, mc_ours = bt_get b p, mc_theirs = bt_get c p\<rparr>) ps)"
  (is "?wf \<and> ?map \<and> ?conf")
proof (intro conjI)
  note F = fold_merge_key [OF btset_of_simps(2)]
  show ?wf unfolding three_way_diff_def Let_def by (rule F(1)) simp
  show ?map
    by (simp add: three_way_diff_def F(2) verdict_unknown_key split: verdict.splits option.splits)
  have "set (conflict_keys a b c) = {p. verdict_at a b c p = Clash}"
    using verdict_unknown_key [of _ a b c] by fastforce
  moreover have "conflicts (three_way_diff a b c) =
    map (\<lambda>p. \<lparr>mc_path = p, mc_ours = bt_get b p, mc_theirs = bt_get c p\<rparr>) (conflict_keys a b c)"
    by (simp add: three_way_diff_def F(3))
  ultimately show ?conf
    by (intro exI [of _ "conflict_keys a b c"]) (simp add: sorted_wrt_filter)
qed

text \<open>
  Swapping the two sides of a merge swaps the values in its conflicts and changes nothing else:
  the result does not depend on which timeline is called ours.
\<close>

lemma three_way_diff_symmetric:
  "three_way_diff a c b =
     \<lparr>merged = merged (three_way_diff a b c),
      conflicts = map (\<lambda>m. m\<lparr>mc_ours := mc_theirs m, mc_theirs := mc_ours m\<rparr>) (conflicts (three_way_diff a b c))\<rparr>"
proof (rule merge_result.equality)
  note F = fold_merge_key [OF btset_of_simps(2)]
  have keys: "btset_of (bt_keys a @ bt_keys c @ bt_keys b) = btset_of (bt_keys a @ bt_keys b @ bt_keys c)"
    unfolding btset_of_def by (rule sorted_distinct_set_unique) auto
  show "conflicts (three_way_diff a c b) = conflicts \<lparr>merged = merged (three_way_diff a b c),
      conflicts = map (\<lambda>m. m\<lparr>mc_ours := mc_theirs m, mc_theirs := mc_ours m\<rparr>) (conflicts (three_way_diff a b c))\<rparr>"
    by (simp add: three_way_diff_def F(3) keys diff3_swap [of _ "bt_get c _"])
  have "merged (three_way_diff a c b) = merged (three_way_diff a b c)"
    unfolding three_way_diff_def Let_def
    by (rule bt_get_eq_wf) (simp_all add: F(1,2) keys diff3_swap [of _ "bt_get c _"] fun_eq_iff)
  then show "merged (three_way_diff a c b) = merged \<lparr>merged = merged (three_way_diff a b c),
      conflicts = map (\<lambda>m. m\<lparr>mc_ours := mc_theirs m, mc_theirs := mc_ours m\<rparr>) (conflicts (three_way_diff a b c))\<rparr>"
    by simp
qed simp

text \<open>A side that changed nothing yields everything: the merge of a fast-forward is the other side.\<close>

lemma three_way_diff_unchanged:
  assumes "bt_wf c"
  shows "three_way_diff a a c = \<lparr>merged = c, conflicts = []\<rparr>"
proof (rule merge_result.equality)
  note F = fold_merge_key [OF btset_of_simps(2)]
  have "merged (three_way_diff a a c) = c"
    unfolding three_way_diff_def Let_def
  proof (rule bt_get_eq_wf [OF F(1) assms])
    let ?ks = "btset_of (bt_keys a @ bt_keys a @ bt_keys c)"
    have "bt_get c p = None" if "p \<notin> set ?ks" for p using that by (force simp: map_of_eq_None_iff)
    then show "bt_get (merged (fold (merge_key a a c) ?ks \<lparr>merged = [], conflicts = []\<rparr>)) = bt_get c"
      by (intro ext) (auto simp: F(2) diff3_def split: option.splits)
  qed simp
  then show "merged (three_way_diff a a c) = merged \<lparr>merged = c, conflicts = []\<rparr>" by simp
  show "conflicts (three_way_diff a a c) = conflicts \<lparr>merged = c, conflicts = []\<rparr>"
    by (simp add: three_way_diff_def F(3) diff3_def)
qed simp

end
