(* ===== verification/Policy.thy ===== *)
theory Policy
  imports Object_Graph Refs
begin

text \<open>
  Policy hooks (\<^verbatim>\<open>src/acl/hook.rs\<close>), signed approvals (\<^verbatim>\<open>src/acl/attestation.rs\<close>) and signed policy roots
  (\<^verbatim>\<open>src/acl/authority.rs\<close>). A hook, a trait object in the source, is a record of its methods. Ed25519 is
  a parameter: the record of the functions of \<^verbatim>\<open>ed25519_dalek\<close> the sources call. Objects are read
  through a function, refs through a backend and its state, as in the theories below.
\<close>

section \<open>Messages\<close>

fun error_display :: "error \<Rightarrow> string" where
  "error_display (Codec m) = ''codec error: '' @ m"
| "error_display (Storage m) = ''storage error: '' @ m"
| "error_display (Io m) = ''io error: '' @ m"
| "error_display (InvalidRefName m) = ''invalid ref name: '' @ m"
| "error_display (WrongRefKind m) = ''wrong ref kind: '' @ m"
| "error_display (AccessDenied m) = ''access denied: '' @ m"
| "error_display DecryptionFailed = ''decryption failed''"
| "error_display SecretNotUtf8 = ''secret value is not valid UTF-8''"
| "error_display (GitProjection m) = ''git projection failed: '' @ m"
| "error_display (PolicyViolation m) = ''policy violation: '' @ m"
| "error_display (ApprovalRequired m n) = ''approval required: '' @ m"
| "error_display (TransactionConflict m) = ''transaction conflict: '' @ m"

fun policy_debug :: "timeline_policy \<Rightarrow> string" where
  "policy_debug FastForwardOnly = ''FastForwardOnly''"
| "policy_debug Append = ''Append''"
| "policy_debug Unrestricted = ''Unrestricted''"

fun join_commas :: "string list \<Rightarrow> string" where
  "join_commas [] = []"
| "join_commas [s] = s"
| "join_commas (s # ss) = s @ '', '' @ join_commas ss"

section \<open>Hooks and the registry\<close>

datatype policy_decision = PAllow | PDeny string | PNeeds string u32

datatype policy_event =
    EvAdvance ref_name oid oid
  | EvMerge ref_name ref_name oid oid

record 'r policy_context =
  pc_event :: policy_event
  pc_accessor :: accessor
  pc_objects :: getter
  pc_backend :: "'r ref_backend"
  pc_refs :: 'r
  pc_now :: u64

record 'r policy_hook =
  ph_name :: string
  ph_check :: "'r policy_context \<Rightarrow> policy_decision"
  ph_deterministic :: bool

fun decision_rank :: "policy_decision \<Rightarrow> u8" where
  "decision_rank PAllow = 0"
| "decision_rank (PNeeds _ _) = 1"
| "decision_rank (PDeny _) = 2"

definition more_restrictive :: "policy_decision \<Rightarrow> policy_decision \<Rightarrow> policy_decision" where
  "more_restrictive a b = (if decision_rank b > decision_rank a then b else a)"

type_synonym 'r policy_registry = "'r policy_hook list"

definition evaluate :: "'r policy_registry \<Rightarrow> 'r policy_context \<Rightarrow> policy_decision" where
  "evaluate reg ctx = fold (\<lambda>hook decision. more_restrictive decision (ph_check hook ctx)) reg PAllow"

definition reg_deterministic :: "'r policy_registry \<Rightarrow> bool" where
  "reg_deterministic reg = list_all ph_deterministic reg"

definition non_deterministic :: "'r policy_registry \<Rightarrow> string list" where
  "non_deterministic reg = map ph_name (filter (\<lambda>h. \<not> ph_deterministic h) reg)"

definition evaluate_replayable :: "'r policy_registry \<Rightarrow> 'r policy_context \<Rightarrow> policy_decision" where
  "evaluate_replayable reg ctx =
     (let offenders = non_deterministic reg in
      if offenders \<noteq> [] then
        PDeny (''non-deterministic policy hook(s) ['' @ join_commas offenders @
          ''] cannot gate a replicated advance (fail-closed); use replayable hooks (e.g. signed attestations) instead'')
      else evaluate reg ctx)"

subsection \<open>The built-in hook\<close>

definition timeline_policy_check :: "'r policy_context \<Rightarrow> policy_decision" where
  "timeline_policy_check ctx =
     (case pc_event ctx of
        EvAdvance timeline old_head new_head \<Rightarrow>
          (case get_timeline (pc_backend ctx) (pc_refs ctx) timeline of
             Inl e \<Rightarrow> PDeny (''timeline lookup failed: '' @ error_display e)
           | Inr None \<Rightarrow> PDeny (''timeline '' @ quoted timeline @ '' not found'')
           | Inr (Some t) \<Rightarrow>
               (if tl_policy t = Unrestricted then PAllow
                else case is_ancestor (pc_objects ctx) old_head new_head of
                  Inr True \<Rightarrow> PAllow
                | Inr False \<Rightarrow>
                    PDeny (''timeline '' @ quoted timeline @ '' has policy '' @ policy_debug (tl_policy t) @
                      ''; new head '' @ oid_display new_head @ '' is not a descendant of current head '' @ oid_display old_head)
                | Inl e \<Rightarrow> PDeny (''ancestry check failed: '' @ error_display e)))
      | EvMerge _ _ _ _ \<Rightarrow> PAllow)"

definition timeline_policy_hook :: "'r policy_hook" where
  "timeline_policy_hook =
     \<lparr>ph_name = ''timeline-policy'', ph_check = timeline_policy_check, ph_deterministic = True\<rparr>"

definition registry_new :: "'r policy_registry" where
  "registry_new = [timeline_policy_hook]"

definition registry_push :: "'r policy_registry \<Rightarrow> 'r policy_hook \<Rightarrow> 'r policy_registry" where
  "registry_push reg hook = reg @ [hook]"

section \<open>Signed approvals\<close>

text \<open>The functions of \<^verbatim>\<open>ed25519_dalek\<close> the sources call, on byte strings.\<close>

record ed25519 =
  ed_public :: "bytes \<Rightarrow> bytes"
  ed_sign :: "bytes \<Rightarrow> bytes \<Rightarrow> bytes"
  ed_key_valid :: "bytes \<Rightarrow> bool"
  ed_verify :: "bytes \<Rightarrow> bytes \<Rightarrow> bytes \<Rightarrow> bool"

text \<open>Its documented behaviour on its own keys and signatures.\<close>

definition ed25519_ok :: "ed25519 \<Rightarrow> bool" where
  "ed25519_ok E \<longleftrightarrow> (\<forall>seed m. ed_key_valid E (ed_public E seed) \<and> length (ed_sign E seed m) = 64 \<and>
     ed_verify E (ed_public E seed) m (ed_sign E seed m))"

definition APPROVERS_REF :: string where
  "APPROVERS_REF = ''refs/policy/approvers''"

definition ATTESTATIONS_PREFIX :: string where
  "ATTESTATIONS_PREFIX = ''refs/attestations/''"

definition registry_empty :: approver_registry where
  "registry_empty = \<lparr>approvers = []\<rparr>"

definition approver_add :: "approver_registry \<Rightarrow> approver \<Rightarrow> approver_registry" where
  "approver_add reg a = reg\<lparr>approvers := approvers reg @ [a]\<rparr>"

definition approver_find :: "approver_registry \<Rightarrow> string \<Rightarrow> approver option" where
  "approver_find reg key_id = List.find (\<lambda>a. ap_key_id a = key_id) (approvers reg)"

definition load_approvers :: "'r ref_backend \<Rightarrow> 'r \<Rightarrow> getter \<Rightarrow> approver_registry result" where
  "load_approvers B rs get =
     bind_res (ref_name_new APPROVERS_REF) (\<lambda>name.
     bind_res (get_tag B rs name) (\<lambda>found. case found of
         None \<Rightarrow> Inr registry_empty
       | Some tag \<Rightarrow> bind_res (get (tag_target tag)) (\<lambda>obj. case obj of
             Some (OPolicy (PApprovers reg)) \<Rightarrow> Inr reg
           | _ \<Rightarrow> Inr registry_empty)))"

definition load_attestation_at :: "'r ref_backend \<Rightarrow> 'r \<Rightarrow> getter \<Rightarrow> ref_name \<Rightarrow> attestation list \<Rightarrow> attestation list result" where
  "load_attestation_at B rs get name out =
     bind_res (get_tag B rs name) (\<lambda>found. case found of
         None \<Rightarrow> Inr out
       | Some tag \<Rightarrow> bind_res (get (tag_target tag)) (\<lambda>obj. case obj of
             Some (OPolicy (PAttestation att)) \<Rightarrow> Inr (out @ [att])
           | _ \<Rightarrow> Inr out))"

definition load_attestations :: "'r ref_backend \<Rightarrow> 'r \<Rightarrow> getter \<Rightarrow> attestation list result" where
  "load_attestations B rs get =
     bind_res (rb_list B rs ATTESTATIONS_PREFIX) (\<lambda>names. fold_res (load_attestation_at B rs get) names [])"

record attestation_signer =
  as_key_id :: string
  as_signing :: bytes

definition ATTESTATION_DOMAIN :: bytes where
  "ATTESTATION_DOMAIN = str_bytes ''bole-attestation-v1'' @ [0]"

definition attestation_message :: "string \<Rightarrow> oid \<Rightarrow> bytes" where
  "attestation_message target head = ATTESTATION_DOMAIN @ str_bytes target @ [0] @ as_bytes head"

definition signer_approver :: "ed25519 \<Rightarrow> attestation_signer \<Rightarrow> approver" where
  "signer_approver E s = \<lparr>ap_key_id = as_key_id s, ap_public_key = ed_public E (as_signing s)\<rparr>"

definition attest :: "ed25519 \<Rightarrow> attestation_signer \<Rightarrow> string \<Rightarrow> oid \<Rightarrow> attestation" where
  "attest E s target head =
     \<lparr>att_target = target, att_head = head, att_key_id = as_key_id s,
      att_sig = ed_sign E (as_signing s) (attestation_message target head)\<rparr>"

definition verify_attestation :: "ed25519 \<Rightarrow> attestation \<Rightarrow> approver_registry \<Rightarrow> bool" where
  "verify_attestation E att reg =
     (case approver_find reg (att_key_id att) of
        None \<Rightarrow> False
      | Some approver \<Rightarrow>
          if \<not> ed_key_valid E (ap_public_key approver) then False
          else if length (att_sig att) \<noteq> 64 then False
          else ed_verify E (ap_public_key approver) (attestation_message (att_target att) (att_head att)) (att_sig att))"

definition count_valid_approvals ::
  "ed25519 \<Rightarrow> attestation list \<Rightarrow> approver_registry \<Rightarrow> string \<Rightarrow> oid \<Rightarrow> u32" where
  "count_valid_approvals E atts reg target head =
     of_nat (length (btset_of (map att_key_id (filter
       (\<lambda>att. att_target att = target \<and> att_head att = head \<and> verify_attestation E att reg) atts))))"

definition signed_approval_check :: "ed25519 \<Rightarrow> string \<Rightarrow> u32 \<Rightarrow> 'r policy_context \<Rightarrow> policy_decision" where
  "signed_approval_check E pattern needed ctx =
     (let (target, head) = (case pc_event ctx of
            EvMerge source target old_head result_head \<Rightarrow> (target, result_head)
          | EvAdvance timeline old_head new_head \<Rightarrow> (timeline, new_head)) in
      if \<not> glob_matches pattern target then PAllow
      else case load_approvers (pc_backend ctx) (pc_refs ctx) (pc_objects ctx) of
        Inl e \<Rightarrow> PDeny (''approver load failed: '' @ error_display e)
      | Inr reg \<Rightarrow>
          (case load_attestations (pc_backend ctx) (pc_refs ctx) (pc_objects ctx) of
             Inl e \<Rightarrow> PDeny (''attestation load failed: '' @ error_display e)
           | Inr attestations \<Rightarrow>
               (let have = count_valid_approvals E attestations reg target head in
                if have < needed then
                  PNeeds (target @ '' needs '' @ show_nat (unat needed) @ '' signed approval(s) of head '' @
                      oid_display head @ '', has '' @ show_nat (unat have))
                    (needed - have)
                else PAllow)))"

definition signed_approval_hook :: "ed25519 \<Rightarrow> string \<Rightarrow> u32 \<Rightarrow> 'r policy_hook" where
  "signed_approval_hook E pattern needed =
     \<lparr>ph_name = ''signed-approval'', ph_check = signed_approval_check E pattern needed, ph_deterministic = False\<rparr>"

text \<open>\<^verbatim>\<open>as u32\<close> keeps the low 32 bits of the 64-bit parameter.\<close>

definition resolve_hook :: "ed25519 \<Rightarrow> hook_spec \<Rightarrow> 'r policy_hook result" where
  "resolve_hook E spec =
     (if hs_kind spec = ''signed-approval'' then
        Inr (signed_approval_hook E (hs_pattern spec)
          (ucast (case bt_get (hs_params spec) ''needed'' of Some n \<Rightarrow> n | None \<Rightarrow> 1)))
      else if hs_kind spec = ''timeline-policy'' then Inr timeline_policy_hook
      else Inl (PolicyViolation (''unknown policy hook kind '' @ quoted (hs_kind spec) @ '' (fail-closed)'')))"

section \<open>Policy roots\<close>

record trust_anchor =
  ta_key_id :: string
  ta_public_key :: bytes

type_synonym trust_store = "trust_anchor list"

definition trust_add :: "trust_store \<Rightarrow> trust_anchor \<Rightarrow> trust_store" where
  "trust_add ts a = ts @ [a]"

definition trust_find :: "trust_store \<Rightarrow> string \<Rightarrow> trust_anchor option" where
  "trust_find ts key_id = List.find (\<lambda>a. ta_key_id a = key_id) ts"

record root_signature =
  rs_root :: oid
  rs_key_id :: string
  rs_sig :: bytes

type_synonym signature_store = "(oid \<times> root_signature) list"

definition sigs_insert :: "signature_store \<Rightarrow> root_signature \<Rightarrow> signature_store" where
  "sigs_insert ss sig = AList.update (rs_root sig) sig ss"

definition sigs_get :: "signature_store \<Rightarrow> oid \<Rightarrow> root_signature option" where
  "sigs_get ss r = map_of ss r"

record policy_signer =
  ps_key_id :: string
  ps_signing :: bytes

definition POLICY_ROOT_DOMAIN :: bytes where
  "POLICY_ROOT_DOMAIN = str_bytes ''bole-policy-root-v1'' @ [0]"

definition policy_root_message :: "oid \<Rightarrow> bytes" where
  "policy_root_message r = POLICY_ROOT_DOMAIN @ as_bytes r"

definition signer_anchor :: "ed25519 \<Rightarrow> policy_signer \<Rightarrow> trust_anchor" where
  "signer_anchor E s = \<lparr>ta_key_id = ps_key_id s, ta_public_key = ed_public E (ps_signing s)\<rparr>"

definition sign_root :: "ed25519 \<Rightarrow> policy_signer \<Rightarrow> oid \<Rightarrow> root_signature" where
  "sign_root E s r =
     \<lparr>rs_root = r, rs_key_id = ps_key_id s, rs_sig = ed_sign E (ps_signing s) (policy_root_message r)\<rparr>"

definition verify_root_signature :: "ed25519 \<Rightarrow> oid \<Rightarrow> root_signature \<Rightarrow> trust_store \<Rightarrow> bool" where
  "verify_root_signature E r sig trust =
     (if rs_root sig \<noteq> r then False
      else case trust_find trust (rs_key_id sig) of
        None \<Rightarrow> False
      | Some anchor \<Rightarrow>
          if \<not> ed_key_valid E (ta_public_key anchor) then False
          else if length (rs_sig sig) \<noteq> 64 then False
          else ed_verify E (ta_public_key anchor) (policy_root_message r) (rs_sig sig))"

definition load_root :: "getter \<Rightarrow> oid \<Rightarrow> policy_root option result" where
  "load_root get i = bind_res (get i) (\<lambda>obj. case obj of
       Some (OPolicy (PRoot r)) \<Rightarrow> Inr (Some r)
     | _ \<Rightarrow> Inr None)"

function chain_loop :: "getter \<Rightarrow> oid option \<Rightarrow> oid set \<Rightarrow> oid list \<Rightarrow> oid list result" where
  "chain_loop get None seen chain = Inr chain"
| "chain_loop get (Some i) seen chain =
     (if i \<in> seen then Inl (PolicyViolation ''policy chain has a cycle'')
      else bind_res (load_root get i) (\<lambda>found. case found of
          None \<Rightarrow> Inl (PolicyViolation (''policy root not found: '' @ oid_display i))
        | Some r \<Rightarrow> chain_loop get (pol_parent r) (insert i seen) (chain @ [i])))"
  by pat_completeness auto
termination
  by (relation "measure (\<lambda>(get, cur, seen, chain). unseen seen)") (auto simp: unseen_insert)

definition chain_of :: "getter \<Rightarrow> oid \<Rightarrow> oid list result" where
  "chain_of get tip = chain_loop get (Some tip) {} []"

datatype policy_verdict = Accept u64 | Reject string

text \<open>
  One round of the loop of \<^verbatim>\<open>verify_chain\<close>: \<open>Some\<close> of the reason when the root is rejected. The hook
  check runs through the specs of the root in order and stops at the first that does not resolve. The
  source loads each root of the chain again and panics when it is gone; \<^verbatim>\<open>chain_of\<close> has just loaded it,
  so that branch is never taken (lemma \<open>chain_root_loads\<close>).
\<close>

definition bad_hook :: "ed25519 \<Rightarrow> hook_spec list \<Rightarrow> hook_spec option" where
  "bad_hook E hooks = List.find (\<lambda>h. isl (resolve_hook E h :: unit policy_hook result)) hooks"

definition check_root :: "ed25519 \<Rightarrow> getter \<Rightarrow> signature_store \<Rightarrow> trust_store \<Rightarrow> oid \<Rightarrow> string option result" where
  "check_root E get sigs trust i =
     bind_res (load_root get i) (\<lambda>found. case found of
         None \<Rightarrow> Inr (Some ''chain_of validated presence'')
       | Some r \<Rightarrow>
         bind_res (get (pol_lattice r)) (\<lambda>lat.
         if lat = None then Inr (Some (''missing lattice for root '' @ oid_display i))
         else bind_res (get (pol_rules r)) (\<lambda>rul.
         if rul = None then Inr (Some (''missing rules for root '' @ oid_display i))
         else case bad_hook E (pol_hooks r) of
           Some h \<Rightarrow> Inr (Some (''unknown hook kind '' @ quoted (hs_kind h) @ '' in root '' @ oid_display i))
         | None \<Rightarrow>
             (case sigs_get sigs i of
                Some sig \<Rightarrow>
                  if verify_root_signature E i sig trust then Inr None
                  else Inr (Some (''bad signature on root '' @ oid_display i))
              | None \<Rightarrow> Inr (Some (''unsigned policy root '' @ oid_display i))))))"

fun check_roots :: "ed25519 \<Rightarrow> getter \<Rightarrow> signature_store \<Rightarrow> trust_store \<Rightarrow> oid list \<Rightarrow> string option result" where
  "check_roots E get sigs trust [] = Inr None"
| "check_roots E get sigs trust (i # chain) =
     bind_res (check_root E get sigs trust i) (\<lambda>bad. case bad of
         Some reason \<Rightarrow> Inr (Some reason)
       | None \<Rightarrow> check_roots E get sigs trust chain)"

definition verify_chain ::
  "ed25519 \<Rightarrow> getter \<Rightarrow> oid \<Rightarrow> signature_store \<Rightarrow> trust_store \<Rightarrow> policy_verdict result" where
  "verify_chain E get tip sigs trust =
     (case chain_of get tip of
        Inl (PolicyViolation reason) \<Rightarrow> Inr (Reject reason)
      | Inl e \<Rightarrow> Inl e
      | Inr chain \<Rightarrow>
          bind_res (check_roots E get sigs trust chain) (\<lambda>bad. case bad of
              Some reason \<Rightarrow> Inr (Reject reason)
            | None \<Rightarrow> Inr (Accept (of_nat (length chain)))))"

datatype policy_resolution = ResLeft | ResRight | Diverged oid oid

definition accepted :: "policy_verdict \<Rightarrow> bool" where
  "accepted v \<longleftrightarrow> (case v of Accept _ \<Rightarrow> True | Reject _ \<Rightarrow> False)"

text \<open>\<^verbatim>\<open>slice::last\<close>.\<close>

definition last_opt :: "'a list \<Rightarrow> 'a option" where
  "last_opt xs = (if xs = [] then None else Some (last xs))"

definition reconcile ::
  "ed25519 \<Rightarrow> getter \<Rightarrow> oid \<Rightarrow> oid \<Rightarrow> signature_store \<Rightarrow> trust_store \<Rightarrow> policy_resolution result" where
  "reconcile E get a b sigs trust =
     bind_res (verify_chain E get a sigs trust) (\<lambda>va.
     if \<not> accepted va then Inl (PolicyViolation (''candidate '' @ oid_display a @ '' does not verify''))
     else bind_res (verify_chain E get b sigs trust) (\<lambda>vb.
     if \<not> accepted vb then Inl (PolicyViolation (''candidate '' @ oid_display b @ '' does not verify''))
     else if a = b then Inr ResLeft
     else bind_res (chain_of get a) (\<lambda>chain_a. bind_res (chain_of get b) (\<lambda>chain_b.
       if last_opt chain_a \<noteq> last_opt chain_b then Inr (Diverged a b)
       else if b \<in> set chain_a then Inr ResLeft
       else if a \<in> set chain_b then Inr ResRight
       else Inr (Diverged a b)))))"

section \<open>The effective decision\<close>

fun is_deny :: "policy_decision \<Rightarrow> bool" where
  "is_deny (PDeny _) = True" | "is_deny _ = False"

fun is_needs :: "policy_decision \<Rightarrow> bool" where
  "is_needs (PNeeds _ _) = True" | "is_needs _ = False"

definition strictest :: "policy_decision list \<Rightarrow> policy_decision" where
  "strictest ds = (case List.find is_deny ds of Some d \<Rightarrow> d
     | None \<Rightarrow> (case List.find is_needs ds of Some d \<Rightarrow> d | None \<Rightarrow> PAllow))"

lemma strictest_merge: "strictest (more_restrictive a d # ds) = strictest (a # d # ds)"
  by (cases a; cases d) (auto simp: strictest_def more_restrictive_def split: option.splits)

lemma fold_more_restrictive:
  "fold (\<lambda>hook decision. more_restrictive decision (ph_check hook ctx)) reg a =
   strictest (a # map (\<lambda>h. ph_check h ctx) reg)"
proof (induction reg arbitrary: a)
  case Nil
  then show ?case by (cases a) (simp_all add: strictest_def)
next
  case (Cons h reg)
  then show ?case using strictest_merge [of a "ph_check h ctx" "map (\<lambda>h. ph_check h ctx) reg"] by simp
qed

lemma evaluate_eq_strictest: "evaluate reg ctx = strictest (map (\<lambda>h. ph_check h ctx) reg)"
  by (simp add: evaluate_def fold_more_restrictive) (simp add: strictest_def split: option.splits)

lemma strictest_Allow: "strictest ds = PAllow \<longleftrightarrow> list_all (\<lambda>d. d = PAllow) ds"
proof
  assume *: "strictest ds = PAllow"
  have "List.find is_deny ds = None" "List.find is_needs ds = None"
    using * by (auto simp: strictest_def find_Some_iff split: option.splits)
  then show "list_all (\<lambda>d. d = PAllow) ds"
    unfolding find_None_iff list_all_iff by (metis is_deny.simps(1) is_needs.simps(1) policy_decision.exhaust)
next
  assume "list_all (\<lambda>d. d = PAllow) ds"
  then have "List.find is_deny ds = None" "List.find is_needs ds = None"
    by (auto simp: find_None_iff list_all_iff)
  then show "strictest ds = PAllow" by (simp add: strictest_def)
qed

lemma evaluate_Allow: "evaluate reg ctx = PAllow \<longleftrightarrow> (\<forall>h \<in> set reg. ph_check h ctx = PAllow)"
  by (simp add: evaluate_eq_strictest strictest_Allow list_all_iff)

text \<open>
  The registry returns the strictest decision of its hooks: the first denial when any hook denies,
  else the first request for approvals when any hook asks for them, else approval. The replicated
  variant agrees with it when every hook is replayable and denies otherwise.
\<close>

lemma evaluate_strictest:
  "evaluate reg ctx = strictest (map (\<lambda>h. ph_check h ctx) reg) \<and>
   (if list_all ph_deterministic reg then evaluate_replayable reg ctx = evaluate reg ctx
    else is_deny (evaluate_replayable reg ctx))"
proof
  show "evaluate reg ctx = strictest (map (\<lambda>h. ph_check h ctx) reg)" by (rule evaluate_eq_strictest)
  have "non_deterministic reg = [] \<longleftrightarrow> list_all ph_deterministic reg"
    by (simp add: non_deterministic_def filter_empty_conv list_all_iff)
  then show "if list_all ph_deterministic reg then evaluate_replayable reg ctx = evaluate reg ctx
    else is_deny (evaluate_replayable reg ctx)"
    by (simp add: evaluate_replayable_def Let_def)
qed

text \<open>Binding one more hook never loosens a decision.\<close>

lemma registry_push_restricts: "decision_rank (evaluate reg ctx) \<le> decision_rank (evaluate (registry_push reg h) ctx)"
  by (auto simp: evaluate_def registry_push_def more_restrictive_def)

lemma timeline_check_Allow:
  assumes "readable (pc_objects ctx)" and "pc_event ctx = EvAdvance n old_head new_head"
  shows "timeline_policy_check ctx = PAllow \<longleftrightarrow> (\<exists>t. get_timeline (pc_backend ctx) (pc_refs ctx) n = Inr (Some t) \<and>
    (tl_policy t = Unrestricted \<or> (new_head, old_head) \<in> (parent_rel (pc_objects ctx))\<^sup>*))"
  using is_ancestor_correct [OF assms(1), of old_head new_head] assms(2)
  by (auto simp: timeline_policy_check_def split: sum.splits option.splits bool.splits)

section \<open>Approvals\<close>

text \<open>The key ids of the approvers that validly approve moving \<open>target\<close> to \<open>head\<close>.\<close>

definition approving_keys :: "ed25519 \<Rightarrow> attestation list \<Rightarrow> approver_registry \<Rightarrow> string \<Rightarrow> oid \<Rightarrow> string set" where
  "approving_keys E atts reg target head =
     {att_key_id att | att. att \<in> set atts \<and> att_target att = target \<and> att_head att = head \<and> verify_attestation E att reg}"

lemma finite_approving_keys [simp]: "finite (approving_keys E atts reg target head)"
  by (simp add: approving_keys_def)

lemma length_btset_of [simp]: "length (btset_of xs) = card (set xs)"
  by (metis btset_of_simps(1,2) distinct_card)

lemma count_valid_approvals_card:
  "count_valid_approvals E atts reg target head = of_nat (card (approving_keys E atts reg target head))"
proof -
  have "set (map att_key_id (filter (\<lambda>att. att_target att = target \<and> att_head att = head \<and>
      verify_attestation E att reg) atts)) = approving_keys E atts reg target head"
    by (auto simp: approving_keys_def)
  then show ?thesis by (simp only: count_valid_approvals_def length_btset_of)
qed

lemma card_approving_keys: "card (approving_keys E atts reg target head) \<le> length atts"
proof -
  have "approving_keys E atts reg target head \<subseteq> att_key_id ` set atts" by (auto simp: approving_keys_def)
  then have "card (approving_keys E atts reg target head) \<le> card (att_key_id ` set atts)" by (simp add: card_mono)
  also have "\<dots> \<le> length atts" using card_image_le [of "set atts" att_key_id] card_length [of atts] by simp
  finally show ?thesis .
qed

lemma unat_count_valid_approvals:
  assumes "length atts < 2 ^ 32"
  shows "unat (count_valid_approvals E atts reg target head) = card (approving_keys E atts reg target head)"
  using card_approving_keys [of E atts reg target head] assms
  by (simp add: count_valid_approvals_card unat_of_nat)

fun event_move :: "policy_event \<Rightarrow> ref_name \<times> oid" where
  "event_move (EvMerge source target old_head result_head) = (target, result_head)"
| "event_move (EvAdvance timeline old_head new_head) = (timeline, new_head)"

lemma signed_approval_check_event:
  "signed_approval_check E pattern needed ctx =
     (let (target, head) = event_move (pc_event ctx) in
      if \<not> glob_matches pattern target then PAllow
      else case load_approvers (pc_backend ctx) (pc_refs ctx) (pc_objects ctx) of
        Inl e \<Rightarrow> PDeny (''approver load failed: '' @ error_display e)
      | Inr reg \<Rightarrow>
          (case load_attestations (pc_backend ctx) (pc_refs ctx) (pc_objects ctx) of
             Inl e \<Rightarrow> PDeny (''attestation load failed: '' @ error_display e)
           | Inr attestations \<Rightarrow>
               (let have = count_valid_approvals E attestations reg target head in
                if have < needed then
                  PNeeds (target @ '' needs '' @ show_nat (unat needed) @ '' signed approval(s) of head '' @
                      oid_display head @ '', has '' @ show_nat (unat have))
                    (needed - have)
                else PAllow)))"
  unfolding signed_approval_check_def by (cases "pc_event ctx") simp_all

text \<open>
  C30. The signed-approval hook lets a governed timeline move exactly when at least \<open>needed\<close> different
  registered keys have signed this very target and head; a second signature by a key, a signature for
  another head or target, one by an unregistered key and one that does not verify all count for
  nothing. When it asks for more, it asks for the exact number still missing.
\<close>

theorem signed_approval_exact:
  assumes "event_move (pc_event ctx) = (target, head)" and "glob_matches pattern target"
    and "load_approvers (pc_backend ctx) (pc_refs ctx) (pc_objects ctx) = Inr reg"
    and "load_attestations (pc_backend ctx) (pc_refs ctx) (pc_objects ctx) = Inr atts"
    and "length atts < 2 ^ 32"
  shows "if unat needed \<le> card (approving_keys E atts reg target head)
    then signed_approval_check E pattern needed ctx = PAllow
    else \<exists>reason more. signed_approval_check E pattern needed ctx = PNeeds reason more \<and>
      unat more + card (approving_keys E atts reg target head) = unat needed"
proof -
  let ?have = "count_valid_approvals E atts reg target head"
  note have_card = unat_count_valid_approvals [OF assms(5), of E reg target head]
  have lt: "?have < needed \<longleftrightarrow> card (approving_keys E atts reg target head) < unat needed"
    by (simp add: word_less_nat_alt have_card)
  have "unat (needed - ?have) + card (approving_keys E atts reg target head) = unat needed" if "?have < needed"
    using that have_card unat_sub [of ?have needed] by (simp add: word_less_nat_alt word_le_nat_alt)
  with lt show ?thesis
    using assms(1-4) by (auto simp: signed_approval_check_event Let_def)
qed

lemma approval_hook_fail_closed:
  assumes "event_move (pc_event ctx) = (target, head)" and "glob_matches pattern target"
    and "load_approvers (pc_backend ctx) (pc_refs ctx) (pc_objects ctx) = Inl e \<or>
         (load_approvers (pc_backend ctx) (pc_refs ctx) (pc_objects ctx) = Inr reg \<and>
          load_attestations (pc_backend ctx) (pc_refs ctx) (pc_objects ctx) = Inl e)"
  shows "is_deny (signed_approval_check E pattern needed ctx)"
  using assms by (auto simp: signed_approval_check_event)

text \<open>
  A policy that asks for exactly \<open>2 ^ 32\<close> approvals, or a multiple of it, asks for none: the parameter
  is a 64-bit number and the hook keeps its low 32 bits, so the gate never asks for an approval.
\<close>

lemma needed_approvals_truncated:
  "\<exists>h. resolve_hook E \<lparr>hs_kind = ''signed-approval'', hs_pattern = pattern,
       hs_params = [(''needed'', 2 ^ 32)]\<rparr> = Inr h \<and> (\<forall>ctx. \<not> is_needs (ph_check h ctx))"
proof -
  have zero: "(4294967296 :: u32) = 0" by (subst word_uint_eq_iff) simp
  have "resolve_hook E \<lparr>hs_kind = ''signed-approval'', hs_pattern = pattern,
       hs_params = [(''needed'', 2 ^ 32)]\<rparr> = Inr (signed_approval_hook E pattern 0)"
    by (simp add: resolve_hook_def) (simp only: zero)
  moreover have "\<not> is_needs (ph_check (signed_approval_hook E pattern 0) ctx)" for ctx
    by (auto simp: signed_approval_hook_def signed_approval_check_event Let_def split: prod.splits sum.splits)
  ultimately show ?thesis by blast
qed

section \<open>What a signature binds\<close>

lemma attestation_message_inj: "attestation_message t h = attestation_message t' h' \<longleftrightarrow> t = t' \<and> h = h'"
  by (auto simp: attestation_message_def)

lemma attestation_message_not_root: "attestation_message t h \<noteq> policy_root_message r"
proof
  assume "attestation_message t h = policy_root_message r"
  then have "take 19 (attestation_message t h) = take 19 (policy_root_message r)" by simp
  then show False
    by (simp add: attestation_message_def policy_root_message_def ATTESTATION_DOMAIN_def POLICY_ROOT_DOMAIN_def str_bytes_def)
qed

lemma attest_verifies:
  assumes "ed25519_ok E" and "approver_find reg (as_key_id s) = Some (signer_approver E s)"
  shows "verify_attestation E (attest E s target head) reg"
  using assms by (simp add: verify_attestation_def attest_def signer_approver_def ed25519_ok_def)

lemma sign_root_verifies:
  assumes "ed25519_ok E" and "trust_find trust (ps_key_id s) = Some (signer_anchor E s)"
  shows "verify_root_signature E r (sign_root E s r) trust"
  using assms by (simp add: verify_root_signature_def sign_root_def signer_anchor_def ed25519_ok_def)

section \<open>Chains of policy roots\<close>

text \<open>The parent chain of a root, down to one without a parent.\<close>

inductive root_path :: "getter \<Rightarrow> oid \<Rightarrow> oid list \<Rightarrow> bool" for get where
  root_path_end: "load_root get i = Inr (Some r) \<Longrightarrow> pol_parent r = None \<Longrightarrow> root_path get i [i]"
| root_path_step: "load_root get i = Inr (Some r) \<Longrightarrow> pol_parent r = Some p \<Longrightarrow> root_path get p c \<Longrightarrow>
    root_path get i (i # c)"

inductive_cases root_pathE: "root_path get i c"

lemma root_path_det: "root_path get i c \<Longrightarrow> root_path get i d \<Longrightarrow> c = d"
proof (induction arbitrary: d rule: root_path.induct)
  case (root_path_end i r)
  from root_path_end.prems root_path_end.hyps show ?case by cases auto
next
  case (root_path_step i r p c)
  from root_path_step.prems root_path_step.hyps(1,2) root_path_step.IH show ?case by cases auto
qed

lemma root_path_hd: "root_path get i c \<Longrightarrow> \<exists>c'. c = i # c'"
  by (auto elim: root_pathE)

lemma root_path_suffix: "root_path get i c \<Longrightarrow> j \<in> set c \<Longrightarrow> \<exists>c1 c2. c = c1 @ c2 \<and> root_path get j c2"
proof (induction rule: root_path.induct)
  case (root_path_end i r)
  then show ?case by (metis append_Nil root_path.root_path_end set_ConsD empty_iff list.set(1))
next
  case (root_path_step i r p c)
  show ?case
  proof (cases "j = i")
    case True
    then show ?thesis using root_path.root_path_step [OF root_path_step.hyps] by (metis append_Nil)
  next
    case False
    then show ?thesis using root_path_step.IH root_path_step.prems by (metis append_Cons set_ConsD)
  qed
qed

lemma root_path_distinct: "root_path get i c \<Longrightarrow> distinct c"
proof (induction rule: root_path.induct)
  case (root_path_step i r p c)
  have "i \<notin> set c"
  proof
    assume "i \<in> set c"
    then obtain c1 c2 where "c = c1 @ c2" "root_path get i c2" using root_path_suffix root_path_step.hyps(3) by blast
    moreover have "root_path get i (i # c)" using root_path_step.hyps by (rule root_path.root_path_step)
    ultimately have "c2 = i # c1 @ c2" using root_path_det by blast
    then show False by (metis Cons_eq_appendI append_self_conv2 list.discI append_assoc)
  qed
  with root_path_step.IH show ?case by simp
qed simp

lemma chain_root_loads: "root_path get i c \<Longrightarrow> j \<in> set c \<Longrightarrow> \<exists>r. load_root get j = Inr (Some r)"
  by (induction rule: root_path.induct) auto

lemma chain_loop_path:
  assumes "root_path get i c" and "set c \<inter> seen = {}"
  shows "chain_loop get (Some i) seen chain = Inr (chain @ c)"
  using assms
proof (induction arbitrary: seen chain rule: root_path.induct)
  case (root_path_step i r p c)
  have "i \<notin> set c" using root_path_distinct [OF root_path.root_path_step [OF root_path_step.hyps]] by simp
  then have "chain_loop get (Some p) (insert i seen) (chain @ [i]) = Inr ((chain @ [i]) @ c)"
    using root_path_step.IH [of "insert i seen"] root_path_step.prems by auto
  then show ?case using root_path_step by auto
qed auto

lemma chain_loop_sound:
  "chain_loop get cur seen chain = Inr out \<Longrightarrow>
   case cur of None \<Rightarrow> out = chain | Some i \<Rightarrow> \<exists>c. root_path get i c \<and> out = chain @ c"
proof (induction get cur seen chain rule: chain_loop.induct)
  case (2 get i seen chain)
  from "2.prems" obtain r where r: "i \<notin> seen" "load_root get i = Inr (Some r)"
    "chain_loop get (pol_parent r) (insert i seen) (chain @ [i]) = Inr out"
    by (auto simp: bind_res_Inr split: if_splits option.splits)
  note IH = "2.IH" [OF r(1) r(2) refl r(3)]
  show ?case
  proof (cases "pol_parent r")
    case None
    with IH r(2) show ?thesis using root_path_end by fastforce
  next
    case (Some p)
    with IH r(2) show ?thesis using root_path_step by fastforce
  qed
qed simp

lemma chain_of_iff: "chain_of get tip = Inr c \<longleftrightarrow> root_path get tip c"
  using chain_loop_path [of get tip c "{}" "[]"] chain_loop_sound [of get "Some tip" "{}" "[]" c]
  by (auto simp: chain_of_def)

lemma chain_of_last:
  assumes "root_path get a ca" and "root_path get b cb" and "b \<in> set ca"
  shows "last_opt ca = last_opt cb"
proof -
  obtain c1 where "ca = c1 @ cb" using root_path_suffix [OF assms(1,3)] root_path_det [OF assms(2)] by blast
  then show ?thesis using root_path_hd [OF assms(2)] by (auto simp: last_opt_def)
qed

text \<open>What makes one root of a chain acceptable.\<close>

definition trusted_root :: "ed25519 \<Rightarrow> getter \<Rightarrow> signature_store \<Rightarrow> trust_store \<Rightarrow> oid \<Rightarrow> bool" where
  "trusted_root E get sigs trust i \<longleftrightarrow>
     (\<exists>r lat rul sig. get i = Inr (Some (OPolicy (PRoot r))) \<and>
       get (pol_lattice r) = Inr (Some lat) \<and> get (pol_rules r) = Inr (Some rul) \<and>
       (\<forall>h \<in> set (pol_hooks r). hs_kind h \<in> {''signed-approval'', ''timeline-policy''}) \<and>
       map_of sigs i = Some sig \<and> verify_root_signature E i sig trust)"

lemma resolve_hook_known: "isl (resolve_hook E h) \<longleftrightarrow> hs_kind h \<notin> {''signed-approval'', ''timeline-policy''}"
  by (simp add: resolve_hook_def)

lemma bad_hook_None: "bad_hook E hs = None \<longleftrightarrow> (\<forall>h \<in> set hs. hs_kind h \<in> {''signed-approval'', ''timeline-policy''})"
  by (auto simp: bad_hook_def find_None_iff resolve_hook_known)

lemma load_root_Some: "load_root get i = Inr (Some r) \<longleftrightarrow> get i = Inr (Some (OPolicy (PRoot r)))"
  by (cases "get i") (auto simp: load_root_def split: option.splits object.splits policy_object.splits)

lemma check_root_iff: "check_root E get sigs trust i = Inr None \<longleftrightarrow> trusted_root E get sigs trust i"
proof (cases "\<exists>r. load_root get i = Inr (Some r)")
  case True
  then obtain r where r: "load_root get i = Inr (Some r)" by blast
  show ?thesis
    by (cases "get (pol_lattice r)"; cases "get (pol_rules r)"; cases "bad_hook E (pol_hooks r)")
      (use r r [unfolded load_root_Some] bad_hook_None [of E "pol_hooks r"] in
        \<open>auto simp: check_root_def trusted_root_def sigs_get_def split: option.splits\<close>)
next
  case False
  then show ?thesis
    by (cases "load_root get i") (auto simp: check_root_def trusted_root_def load_root_Some [symmetric] split: option.splits)
qed

lemma check_roots_iff: "check_roots E get sigs trust c = Inr None \<longleftrightarrow> list_all (trusted_root E get sigs trust) c"
  by (induction c) (auto simp: bind_res_Inr check_root_iff [symmetric] split: option.splits)

lemma verify_chain_Accept:
  "verify_chain E get tip sigs trust = Inr (Accept d) \<longleftrightarrow>
   (\<exists>chain. root_path get tip chain \<and> list_all (trusted_root E get sigs trust) chain \<and> d = of_nat (length chain))"
  unfolding chain_of_iff [symmetric] check_roots_iff [symmetric]
  by (auto simp: verify_chain_def bind_res_Inr split: sum.splits error.splits option.splits)

text \<open>
  C29. A policy chain is accepted exactly when walking parents from the offered tip ends at a root without a
  parent, and every root on the way is stored, has its lattice and rules stored, names only hook kinds
  this replica knows, and carries a signature over its own id by a pinned trust anchor. The depth
  reported is the length of that chain.
\<close>

theorem verify_chain_accepts_iff:
  "verify_chain E get tip sigs trust = Inr (Accept d) \<longleftrightarrow>
   (\<exists>chain. root_path get tip chain \<and> list_all (trusted_root E get sigs trust) chain \<and> d = of_nat (length chain))"
  by (rule verify_chain_Accept)

text \<open>
  Two verified policy tips are reconciled by lineage alone: the tip whose chain contains the other wins,
  and two tips neither of which descends from the other are reported as diverged. No later root can
  be replaced by an earlier one, whichever side offers it.
\<close>

lemma reconcile_by_lineage:
  assumes "root_path get a ca" and "list_all (trusted_root E get sigs trust) ca"
    and "root_path get b cb" and "list_all (trusted_root E get sigs trust) cb"
  shows "reconcile E get a b sigs trust =
    Inr (if b \<in> set ca then ResLeft else if a \<in> set cb then ResRight else Diverged a b)"
proof -
  have va: "verify_chain E get a sigs trust = Inr (Accept (of_nat (length ca)))"
    and vb: "verify_chain E get b sigs trust = Inr (Accept (of_nat (length cb)))"
    using assms verify_chain_Accept by blast+
  have ca: "chain_of get a = Inr ca" and cb: "chain_of get b = Inr cb" using assms chain_of_iff by blast+
  have "a \<in> set ca" using root_path_hd [OF assms(1)] by auto
  moreover have "b \<in> set ca \<Longrightarrow> last_opt ca = last_opt cb" "a \<in> set cb \<Longrightarrow> last_opt ca = last_opt cb"
    using chain_of_last [OF assms(1,3)] chain_of_last [OF assms(3,1)] by simp_all
  ultimately show ?thesis by (auto simp: reconcile_def va vb ca cb accepted_def)
qed

section \<open>Instances\<close>

text \<open>A signature scheme that meets the documented behaviour, one approver and two policy roots.\<close>

definition plain_scheme :: ed25519 where
  "plain_scheme = \<lparr>ed_public = (\<lambda>seed. seed), ed_sign = (\<lambda>seed m. take 64 (seed @ m @ replicate 64 0)),
     ed_key_valid = (\<lambda>k. True), ed_verify = (\<lambda>k m s. s = take 64 (k @ m @ replicate 64 0))\<rparr>"

lemma plain_scheme_ok: "ed25519_ok plain_scheme"
  by (auto simp: ed25519_ok_def plain_scheme_def min_def)

definition alice :: attestation_signer where
  "alice = \<lparr>as_key_id = ''alice'', as_signing = [1, 2, 3]\<rparr>"

definition admin :: policy_signer where
  "admin = \<lparr>ps_key_id = ''admin'', ps_signing = [4, 5, 6]\<rparr>"

definition governed :: getter where
  "governed i = Inr (map_of
     [(1, OPolicy (PApprovers \<lparr>approvers = [signer_approver plain_scheme alice]\<rparr>)),
      (2, OPolicy (PAttestation (attest plain_scheme alice ''main'' 7))),
      (3, OPolicy (PRoot \<lparr>pol_lattice = 8, pol_rules = 9, pol_parent = None, pol_hooks = []\<rparr>)),
      (4, OPolicy (PRoot \<lparr>pol_lattice = 8, pol_rules = 9, pol_parent = Some 3,
             pol_hooks = [\<lparr>hs_kind = ''signed-approval'', hs_pattern = ''main'', hs_params = []\<rparr>]\<rparr>)),
      (8, OPolicy (PLattice two_point)), (9, OPolicy (PRuleSet []))] i)"

definition approval_refs :: mem_refs where
  "approval_refs = [(APPROVERS_REF, RTag \<lparr>tag_target = 1, tag_created_at = 0, tag_message = None\<rparr>),
     (ATTESTATIONS_PREFIX @ ''a'', RTag \<lparr>tag_target = 2, tag_created_at = 0, tag_message = None\<rparr>)]"

definition approval_ctx :: "mem_refs policy_context" where
  "approval_ctx = \<lparr>pc_event = EvAdvance ''main'' 6 7, pc_accessor = accessor_new, pc_objects = governed,
     pc_backend = memory_refs, pc_refs = approval_refs, pc_now = 0\<rparr>"

lemma approval_ctx_loads:
  "load_approvers memory_refs approval_refs governed = Inr \<lparr>approvers = [signer_approver plain_scheme alice]\<rparr>"
  "load_attestations memory_refs approval_refs governed = Inr [attest plain_scheme alice ''main'' 7]"
  "approving_keys plain_scheme [attest plain_scheme alice ''main'' 7]
     \<lparr>approvers = [signer_approver plain_scheme alice]\<rparr> ''main'' 7 = {''alice''}"
    subgoal by (simp add: load_approvers_def approval_refs_def governed_def memory_refs_def APPROVERS_REF_def
      ref_name_new_def get_tag_def mr_get_def ATTESTATIONS_PREFIX_def)
    subgoal by (simp add: load_attestations_def load_attestation_at_def approval_refs_def governed_def memory_refs_def
      APPROVERS_REF_def get_tag_def mr_get_def mr_list_def starts_with_def ATTESTATIONS_PREFIX_def)
    subgoal by (auto simp: approving_keys_def attest_def alice_def verify_attestation_def approver_find_def
      signer_approver_def plain_scheme_def)
  done

theorem signed_approval_exact_witness:
  "signed_approval_check plain_scheme ''main'' 1 approval_ctx = PAllow \<and>
   (\<exists>reason. signed_approval_check plain_scheme ''main'' 2 approval_ctx = PNeeds reason 1)"
proof
  have glob: "glob_matches ''main'' ''main''" by code_simp
  note ex = signed_approval_exact [of approval_ctx "''main''" 7 "''main''", OF _ glob, simplified approval_ctx_def,
      simplified, OF approval_ctx_loads(1,2), simplified]
  show "signed_approval_check plain_scheme ''main'' 1 approval_ctx = PAllow"
    using ex [of 1 plain_scheme] by (simp add: approval_ctx_loads(3) approval_ctx_def)
  show "\<exists>reason. signed_approval_check plain_scheme ''main'' 2 approval_ctx = PNeeds reason 1"
    using ex [of 2 plain_scheme] by (auto simp: approval_ctx_loads(3) approval_ctx_def word_unat_eq_iff)
qed

definition admin_sigs :: signature_store where
  "admin_sigs = [(3, sign_root plain_scheme admin 3), (4, sign_root plain_scheme admin 4)]"

definition admin_trust :: trust_store where
  "admin_trust = [signer_anchor plain_scheme admin]"

lemma governed_paths: "root_path governed 3 [3]" "root_path governed 4 [4, 3]"
proof -
  have "\<exists>r. load_root governed 3 = Inr (Some r) \<and> pol_parent r = None" by (simp add: load_root_def governed_def)
  then show three: "root_path governed 3 [3]" using root_path_end by blast
  have "\<exists>r. load_root governed 4 = Inr (Some r) \<and> pol_parent r = Some 3" by (simp add: load_root_def governed_def)
  then show "root_path governed 4 [4, 3]" using root_path_step [OF _ _ three] by blast
qed

lemma governed_trusted: "list_all (trusted_root plain_scheme governed admin_sigs admin_trust) [4, 3]"
proof -
  have "verify_root_signature plain_scheme i (sign_root plain_scheme admin i) admin_trust" for i
    by (rule sign_root_verifies [OF plain_scheme_ok]) (simp add: admin_trust_def trust_find_def signer_anchor_def)
  then show ?thesis by (simp add: trusted_root_def governed_def admin_sigs_def)
qed

end
