(* ===== verification/Tree_Walk.thy ===== *)
theory Tree_Walk
  imports Object_Graph Access "HOL-Library.Multiset"
begin

text \<open>
  The walk over nested trees of \<^verbatim>\<open>src/repo/mod.rs\<close> that every path-level check of a repository uses. The
  walk keeps an explicit stack and refuses trees nested deeper than a bound. It is total for every
  object graph, since each step replaces a stack item by finitely many items one level deeper. It is
  shown to list exactly the files of the nested trees, and its filtered form to be the unfiltered
  listing restricted to the readable paths.
\<close>

section \<open>The code\<close>

definition MAX_TREE_DEPTH :: nat where
  "MAX_TREE_DEPTH = 256"

definition err_depth :: error where
  "err_depth = Storage (''tree nesting exceeds maximum depth '' @ show_nat MAX_TREE_DEPTH)"

type_synonym walk_item = "oid \<times> string \<times> nat"
type_synonym file_map = "(string, oid) btree"

definition full_path :: "string \<Rightarrow> string \<Rightarrow> string" where
  "full_path pfx name = (if pfx = [] then name else pfx @ ''/'' @ name)"

definition path_visible :: "lattice \<Rightarrow> label_rule_set \<Rightarrow> accessor \<Rightarrow> string \<Rightarrow> bool" where
  "path_visible L rules acc path =
     (let label = label_for_path rules L path in label = lat_bottom L \<or> can_read acc label (ResPath path))"

text \<open>The pattern \<^verbatim>\<open>Some(Object::Tree(t))\<close>.\<close>

definition as_tree :: "object option \<Rightarrow> tree option" where
  "as_tree obj = (case obj of Some (OTree t) \<Rightarrow> Some t | _ \<Rightarrow> None)"

lemma as_tree_simps [simp]: "as_tree (Some (OTree t)) = Some t" "as_tree None = None"
  by (simp_all add: as_tree_def)

text \<open>The body of the inner loop, over one entry of a tree; the stack has its top first.\<close>

definition walk_entry ::
  "(string \<Rightarrow> bool) \<Rightarrow> string \<Rightarrow> nat \<Rightarrow> string \<times> tree_entry \<Rightarrow> walk_item list \<times> file_map \<Rightarrow> walk_item list \<times> file_map" where
  "walk_entry vis pfx depth = (\<lambda>(name, entry) (stack, out).
     let path = full_path pfx name in
     case te_kind entry of
       KBlob \<Rightarrow> (stack, if vis path then bt_insert path (te_id entry) out else out)
     | KTree \<Rightarrow> ((te_id entry, path, depth + 1) # stack, out))"

text \<open>What one tree adds to the stack and to the listing.\<close>

definition subtrees :: "string \<Rightarrow> nat \<Rightarrow> (string \<times> tree_entry) list \<Rightarrow> walk_item list" where
  "subtrees pfx depth es =
     map (\<lambda>(name, e). (te_id e, full_path pfx name, depth + 1)) (filter (\<lambda>(name, e). te_kind e = KTree) es)"

definition blobs :: "string \<Rightarrow> (string \<times> tree_entry) list \<Rightarrow> (string \<times> oid) list" where
  "blobs pfx es = map (\<lambda>(name, e). (full_path pfx name, te_id e)) (filter (\<lambda>(name, e). te_kind e = KBlob) es)"

definition insert_visible :: "(string \<Rightarrow> bool) \<Rightarrow> (string \<times> oid) list \<Rightarrow> file_map \<Rightarrow> file_map" where
  "insert_visible vis fs out = fold (\<lambda>(p, i) out. if vis p then bt_insert p i out else out) fs out"

lemma walk_entries:
  "fold (walk_entry vis pfx depth) es (stack, out) =
   (rev (subtrees pfx depth es) @ stack, insert_visible vis (blobs pfx es) out)"
  by (induction es arbitrary: stack out)
    (auto simp: walk_entry_def subtrees_def blobs_def insert_visible_def Let_def split: entry_kind.splits)

text \<open>Each step replaces an item by items one level deeper, below the bound.\<close>

abbreviation level_mset :: "walk_item list \<Rightarrow> nat multiset" where
  "level_mset stack \<equiv> mset (map (\<lambda>(t, p, d). MAX_TREE_DEPTH - d) stack)"

lemma level_mset_pop: "(level_mset stack, level_mset (item # stack)) \<in> mult less_than"
  using one_step_implies_mult [of "{#_#}" "{#}" less_than "level_mset stack"] by simp

lemma level_mset_push:
  assumes "d < MAX_TREE_DEPTH"
  shows "(level_mset (rev (subtrees pfx d es) @ stack), level_mset ((t, p, d) # stack)) \<in> mult less_than"
proof -
  have "\<forall>k \<in> set_mset (level_mset (rev (subtrees pfx d es))).
      \<exists>j \<in> set_mset {#MAX_TREE_DEPTH - d#}. (k, j) \<in> less_than"
    using assms by (auto simp: subtrees_def)
  from one_step_implies_mult [OF _ this, of "level_mset stack"] show ?thesis
    by (simp add: add.commute)
qed

function walk_loop :: "getter \<Rightarrow> (string \<Rightarrow> bool) \<Rightarrow> walk_item list \<Rightarrow> file_map \<Rightarrow> file_map result" where
  "walk_loop get vis [] out = Inr out"
| "walk_loop get vis ((tid, pfx, depth) # stack) out =
     (if depth \<ge> MAX_TREE_DEPTH then Inl err_depth
      else bind_res (get tid) (\<lambda>obj. case as_tree obj of
          Some t \<Rightarrow>
            (case fold (walk_entry vis pfx depth) (entries t) (stack, out) of
               (stack', out') \<Rightarrow> walk_loop get vis stack' out')
        | None \<Rightarrow> walk_loop get vis stack out))"
  by pat_completeness auto
termination
proof (relation "inv_image (mult less_than) (\<lambda>(get, vis, stack, out). level_mset stack)", goal_cases)
  case 1
  show ?case by (intro wf_inv_image wf_mult wf_less_than)
qed (use level_mset_pop level_mset_push in \<open>auto simp: walk_entries simp del: list.map mset.simps\<close>)

definition walk_tree_filtered ::
  "getter \<Rightarrow> lattice \<Rightarrow> label_rule_set \<Rightarrow> oid \<Rightarrow> string \<Rightarrow> accessor \<Rightarrow> file_map \<Rightarrow> file_map result" where
  "walk_tree_filtered get L rules tree_id prefix acc out =
     walk_loop get (path_visible L rules acc) [(tree_id, prefix, 0)] out"

section \<open>Filtering\<close>

abbreviation only :: "(string \<Rightarrow> bool) \<Rightarrow> file_map \<Rightarrow> file_map" where
  "only vis m \<equiv> filter (\<lambda>(p, i). vis p) m"

lemma bt_insert_least: "\<forall>a \<in> fst ` set m. k < a \<Longrightarrow> bt_insert k v m = (k, v) # m"
  by (cases m) auto

lemma only_insert:
  assumes "bt_wf out"
  shows "only vis (bt_insert p i out) = (if vis p then bt_insert p i (only vis out) else only vis out)"
  using assms
proof (induction p i out rule: bt_insert.induct)
  case (2 k v a b m)
  have least: "bt_insert k v (only vis m) = (k, v) # only vis m" if "k \<le> a"
    using that 2(2) by (intro bt_insert_least) (force simp: bt_wf_Cons)
  from 2 show ?case by (auto simp: bt_wf_Cons least)
qed auto

lemma insert_visible_wf: "bt_wf out \<Longrightarrow> bt_wf (insert_visible vis fs out)"
  by (induction fs arbitrary: out) (auto simp: insert_visible_def)

lemma insert_visible_only:
  "bt_wf out \<Longrightarrow> insert_visible vis fs (only vis out) = only vis (insert_visible (\<lambda>_. True) fs out)"
proof (induction fs arbitrary: out)
  case (Cons pi fs)
  obtain p i where "pi = (p, i)" by (cases pi)
  then show ?case using Cons.IH [of "bt_insert p i out"] Cons.prems
    by (simp add: insert_visible_def only_insert)
qed (simp add: insert_visible_def)

lemma walk_loop_only:
  "bt_wf out \<Longrightarrow> walk_loop get vis stack (only vis out) =
     bind_res (walk_loop get (\<lambda>_. True) stack out) (\<lambda>m. Inr (only vis m))"
proof (induction get "\<lambda>_ :: string. True" stack out rule: walk_loop.induct)
  case (2 get tid pfx depth stack out)
  show ?case
  proof (cases "depth \<ge> MAX_TREE_DEPTH \<or> isl (get tid)")
    case True
    then show ?thesis by (cases "get tid") auto
  next
    case False
    then obtain obj where obj: "get tid = Inr obj" by (cases "get tid") auto
    show ?thesis
    proof (cases "as_tree obj")
      case (Some t)
      note t = this
      let ?stack = "rev (subtrees pfx depth (entries t)) @ stack"
      let ?out = "insert_visible (\<lambda>_. True) (blobs pfx (entries t)) out"
      have "walk_loop get vis ?stack (only vis ?out) = bind_res (walk_loop get (\<lambda>_. True) ?stack ?out) (\<lambda>m. Inr (only vis m))"
        using "2.hyps"(2) [of obj t] False obj t "2.prems" by (simp add: walk_entries insert_visible_wf)
      with False obj t "2.prems" show ?thesis by (simp add: walk_entries insert_visible_only)
    next
      case None
      then show ?thesis using "2.hyps"(1) [of obj] False obj "2.prems" by simp
    qed
  qed
qed simp

lemma walk_tree_filtered_only:
  "walk_tree_filtered get L rules tree_id prefix acc [] =
     bind_res (walk_loop get (\<lambda>_. True) [(tree_id, prefix, 0)] []) (\<lambda>m. Inr (only (path_visible L rules acc) m))"
  using walk_loop_only [of "[]" get "path_visible L rules acc" "[(tree_id, prefix, 0)]"]
  by (simp add: walk_tree_filtered_def del: walk_loop.simps)

section \<open>What the walk lists\<close>

text \<open>The files of a tree and of the trees below it, at most \<open>n\<close> levels of trees, as path and blob id.\<close>

fun nested_files :: "getter \<Rightarrow> nat \<Rightarrow> oid \<Rightarrow> string \<Rightarrow> (string \<times> oid) set" where
  "nested_files get 0 tid pfx = {}"
| "nested_files get (Suc n) tid pfx = (case bind_res (get tid) (\<lambda>obj. Inr (as_tree obj)) of
       Inr (Some t) \<Rightarrow> set (blobs pfx (entries t)) \<union>
         (\<Union>(sid, spfx, d) \<in> set (subtrees pfx 0 (entries t)). nested_files get n sid spfx)
     | _ \<Rightarrow> {})"

fun too_deep :: "getter \<Rightarrow> nat \<Rightarrow> oid \<Rightarrow> bool" where
  "too_deep get 0 tid = True"
| "too_deep get (Suc n) tid = (case bind_res (get tid) (\<lambda>obj. Inr (as_tree obj)) of
       Inr (Some t) \<Rightarrow> list_ex (\<lambda>(name, e). te_kind e = KTree \<and> too_deep get n (te_id e)) (entries t)
     | _ \<Rightarrow> False)"

definition stack_files :: "getter \<Rightarrow> walk_item list \<Rightarrow> (string \<times> oid) set" where
  "stack_files get stack = (\<Union>(t, p, d) \<in> set stack. nested_files get (MAX_TREE_DEPTH - d) t p)"

definition stack_deep :: "getter \<Rightarrow> walk_item list \<Rightarrow> bool" where
  "stack_deep get stack \<longleftrightarrow> list_ex (\<lambda>(t, p, d). too_deep get (MAX_TREE_DEPTH - d) t) stack"

text \<open>The listing of a set of files: a value for each listed path, and the old value elsewhere.\<close>

definition files_listed :: "(string \<Rightarrow> bool) \<Rightarrow> (string \<times> oid) set \<Rightarrow> file_map \<Rightarrow> file_map \<Rightarrow> bool" where
  "files_listed vis F out out' \<longleftrightarrow> (\<forall>p. if vis p \<and> p \<in> fst ` F
     then \<exists>i. bt_get out' p = Some i \<and> (p, i) \<in> F else bt_get out' p = bt_get out p)"

lemma files_listed_trans: "files_listed vis F out mid \<Longrightarrow> files_listed vis G mid out' \<Longrightarrow> files_listed vis (F \<union> G) out out'"
  unfolding files_listed_def image_Un Un_iff by metis

lemma files_listed_insert: "files_listed vis (set fs) out (insert_visible vis fs out)"
proof (induction fs arbitrary: out)
  case (Cons pi fs)
  obtain p i where pi: "pi = (p, i)" by (cases pi)
  let ?mid = "if vis p then bt_insert p i out else out"
  have "files_listed vis {pi} out ?mid" by (auto simp: files_listed_def pi)
  from files_listed_trans [OF this Cons.IH [of ?mid]] show ?case by (simp add: insert_visible_def pi)
qed (simp add: files_listed_def insert_visible_def)

lemma stack_Cons:
  "stack_files get ((t, p, d) # stack) = nested_files get (MAX_TREE_DEPTH - d) t p \<union> stack_files get stack"
  "stack_deep get ((t, p, d) # stack) \<longleftrightarrow> too_deep get (MAX_TREE_DEPTH - d) t \<or> stack_deep get stack"
  by (auto simp: stack_files_def stack_deep_def)

lemma stack_subtrees:
  assumes "d < MAX_TREE_DEPTH" and "get tid = Inr obj" and "as_tree obj = Some t"
  shows "stack_files get (rev (subtrees pfx d (entries t)) @ stack) \<union> set (blobs pfx (entries t)) =
      stack_files get ((tid, pfx, d) # stack)"
    and "stack_deep get (rev (subtrees pfx d (entries t)) @ stack) \<longleftrightarrow> stack_deep get ((tid, pfx, d) # stack)"
proof -
  have n: "MAX_TREE_DEPTH - d = Suc (MAX_TREE_DEPTH - Suc d)" using assms(1) by simp
  show "stack_files get (rev (subtrees pfx d (entries t)) @ stack) \<union> set (blobs pfx (entries t)) =
      stack_files get ((tid, pfx, d) # stack)"
    unfolding stack_Cons n by (auto simp: assms(2,3) stack_files_def subtrees_def)
  show "stack_deep get (rev (subtrees pfx d (entries t)) @ stack) \<longleftrightarrow> stack_deep get ((tid, pfx, d) # stack)"
    unfolding stack_Cons n by (auto simp: assms(2,3) stack_deep_def subtrees_def list_ex_iff) fastforce+
qed

lemma walk_loop_correct:
  assumes "readable get"
  shows "if stack_deep get stack then walk_loop get vis stack out = Inl err_depth
    else \<exists>out'. walk_loop get vis stack out = Inr out' \<and> files_listed vis (stack_files get stack) out out'"
  using assms
proof (induction get vis stack out rule: walk_loop.induct)
  case (1 get vis out)
  then show ?case by (simp add: stack_deep_def stack_files_def files_listed_def)
next
  case (2 get vis tid pfx depth stack out)
  obtain obj where obj: "get tid = Inr obj" using "2.prems" by (auto simp: readable_def)
  consider "depth \<ge> MAX_TREE_DEPTH" | t where "depth < MAX_TREE_DEPTH" "as_tree obj = Some t"
    | "depth < MAX_TREE_DEPTH" "as_tree obj = None" by (cases "as_tree obj") fastforce+
  then show ?case
  proof cases
    case 1
    then show ?thesis by (simp add: stack_Cons)
  next
    case (2 t)
    let ?stack = "rev (subtrees pfx depth (entries t)) @ stack"
    let ?out = "insert_visible vis (blobs pfx (entries t)) out"
    have step: "walk_loop get vis ((tid, pfx, depth) # stack) out = walk_loop get vis ?stack ?out"
      using 2 obj by (simp add: walk_entries)
    have IH: "if stack_deep get ?stack then walk_loop get vis ?stack ?out = Inl err_depth
      else \<exists>out'. walk_loop get vis ?stack ?out = Inr out' \<and> files_listed vis (stack_files get ?stack) ?out out'"
      using "2.IH"(2) [of obj t] 2 obj "2.prems" by (simp add: walk_entries)
    note S = stack_subtrees [where get = get and tid = tid and t = t and d = depth and pfx = pfx and stack = stack, OF 2(1) obj 2(2)]
    have "files_listed vis (stack_files get ((tid, pfx, depth) # stack)) out out'"
      if "files_listed vis (stack_files get ?stack) ?out out'" for out'
      using files_listed_trans [OF files_listed_insert that] S(1) by (metis Un_commute)
    with IH show ?thesis unfolding step S(2) [symmetric] by metis
  next
    case 3
    have n: "MAX_TREE_DEPTH - depth = Suc (MAX_TREE_DEPTH - Suc depth)" using 3(1) by simp
    have none: "nested_files get (MAX_TREE_DEPTH - depth) tid pfx = {}" "\<not> too_deep get (MAX_TREE_DEPTH - depth) tid"
      unfolding n using obj 3(2) by simp_all
    have step: "walk_loop get vis ((tid, pfx, depth) # stack) out = walk_loop get vis stack out"
      using 3 obj by simp
    show ?thesis unfolding step stack_Cons using "2.IH"(1) [of obj] obj 3 "2.prems" none by simp
  qed
qed

text \<open>
  C25. The walk over nested trees returns for every object graph whose objects can be read. When trees nest 256 levels or more it
  reports that, whatever is visible; otherwise it lists, for the readable paths, exactly the files of
  the trees: every such path is listed with the id of a file at that path, and nothing else is.
\<close>

theorem tree_listing_exact:
  assumes "readable get"
  shows "if too_deep get 256 tree_id then walk_tree_filtered get L rules tree_id [] acc [] = Inl err_depth
    else \<exists>out. walk_tree_filtered get L rules tree_id [] acc [] = Inr out \<and>
      (\<forall>p. if path_visible L rules acc p \<and> p \<in> fst ` nested_files get 256 tree_id []
        then \<exists>i. bt_get out p = Some i \<and> (p, i) \<in> nested_files get 256 tree_id []
        else bt_get out p = None)"
proof -
  let ?walk = "walk_loop get (path_visible L rules acc) [(tree_id, [], 0)] []"
  have files: "stack_files get [(tree_id, [], 0)] = nested_files get 256 tree_id []"
    and deep: "stack_deep get [(tree_id, [], 0)] = too_deep get 256 tree_id"
    by (simp_all add: stack_files_def stack_deep_def MAX_TREE_DEPTH_def)
  have "if too_deep get 256 tree_id then ?walk = Inl err_depth
    else \<exists>out. ?walk = Inr out \<and> files_listed (path_visible L rules acc) (nested_files get 256 tree_id []) [] out"
    using walk_loop_correct [OF assms, of "[(tree_id, [], 0)]" "path_visible L rules acc" "[]"] unfolding files deep .
  then show ?thesis unfolding walk_tree_filtered_def files_listed_def by (simp only: map_of.simps)
qed

definition small_tree :: getter where
  "small_tree i = Inr (map_of
     [(1, OTree \<lparr>entries = [(''a'', \<lparr>te_id = 5, te_kind = KBlob\<rparr>), (''d'', \<lparr>te_id = 2, te_kind = KTree\<rparr>)]\<rparr>),
      (2, OTree \<lparr>entries = [(''b'', \<lparr>te_id = 6, te_kind = KBlob\<rparr>)]\<rparr>)] i)"

theorem tree_listing_exact_witness:
  "\<exists>out. walk_tree_filtered small_tree two_point [] 1 [] accessor_new [] = Inr out \<and> bt_get out ''d/b'' = Some 6"
proof -
  have "\<not> too_deep small_tree (Suc (Suc n)) 1" for n by (simp add: small_tree_def)
  from this [of 254] have deep: "\<not> too_deep small_tree 256 1" by (simp del: too_deep.simps)
  have "nested_files small_tree (Suc (Suc n)) 1 [] = {(''d/b'', 6), (''a'', 5)}" for n
    by (simp add: small_tree_def blobs_def subtrees_def full_path_def)
  from this [of 254] have files: "nested_files small_tree 256 1 [] = {(''d/b'', 6), (''a'', 5)}"
    by (simp del: nested_files.simps)
  have vis: "path_visible two_point [] accessor_new ''d/b''" by (simp add: path_visible_def label_for_path_def)
  have "readable small_tree" by (simp add: readable_def small_tree_def)
  from tree_listing_exact [OF this, of 1 two_point "[]" accessor_new] deep obtain out where
    out: "walk_tree_filtered small_tree two_point [] 1 [] accessor_new [] = Inr out"
    "\<And>p. if path_visible two_point [] accessor_new p \<and> p \<in> fst ` nested_files small_tree 256 1 []
        then \<exists>i. bt_get out p = Some i \<and> (p, i) \<in> nested_files small_tree 256 1 [] else bt_get out p = None"
    by (auto simp del: too_deep.simps nested_files.simps)
  from out(2) [of "''d/b''"] vis have "bt_get out ''d/b'' = Some 6" unfolding files by simp
  with out(1) show ?thesis by blast
qed

end
