(* ===== verification/Repository.thy ===== *)
theory Repository
  imports Merge Policy Tree_Walk Acl_Store
begin

text \<open>
  The repository of \<^verbatim>\<open>src/repo/mod.rs\<close>: object store, ref store, ACL store, policy hooks and audit trail
  behind one interface. The backends, the codec and Ed25519 are the environment of the operations, the
  state is a record. An operation that changes the repository returns the new record, also where it
  fails after having written to the audit trail.
\<close>

section \<open>State\<close>

datatype audit_decision = AuditAllowed | AuditDenied string | AuditNeeds u32 string

datatype audit_event = TimelineAdvance string "string option" oid oid audit_decision

record ('o, 'r, 'a) repo_env =
  env_objects :: "'o backend"
  env_codec :: ocodec
  env_refs :: "'r ref_backend"
  env_acls :: "'a acl_backend"
  env_ed :: ed25519

record ('o, 'r, 'a) repository =
  r_objects :: 'o
  r_refs :: 'r
  r_acls :: 'a
  r_hooks :: "hook_spec list"
  r_audit :: "audit_event list option"

abbreviation repo_get :: "('o, 'r, 'a) repo_env \<Rightarrow> ('o, 'r, 'a) repository \<Rightarrow> getter" where
  "repo_get E R \<equiv> ost_get (env_objects E) (env_codec E) (r_objects R)"

definition repo_put :: "('o, 'r, 'a) repo_env \<Rightarrow> ('o, 'r, 'a) repository \<Rightarrow> object \<Rightarrow> (oid \<times> ('o, 'r, 'a) repository) result" where
  "repo_put E R obj =
     bind_res (ost_put (env_objects E) (env_codec E) (r_objects R) obj) (\<lambda>(i, s). Inr (i, R\<lparr>r_objects := s\<rparr>))"

definition repo_commit :: "('o, 'r, 'a) repo_env \<Rightarrow> ('o, 'r, 'a) repository \<Rightarrow> ref_op list \<Rightarrow> ('o, 'r, 'a) repository result" where
  "repo_commit E R ops =
     bind_res (commit_transaction (env_refs E) (r_refs R) ops) (\<lambda>rs. Inr (R\<lparr>r_refs := rs\<rparr>))"

definition memory_repo :: "(mem_store, mem_refs, mem_acl) repository" where
  "memory_repo = \<lparr>r_objects = [], r_refs = [], r_acls = mem_acl_new, r_hooks = [], r_audit = None\<rparr>"

definition register_hook :: "('o, 'r, 'a) repository \<Rightarrow> hook_spec \<Rightarrow> ('o, 'r, 'a) repository" where
  "register_hook R spec = R\<lparr>r_hooks := r_hooks R @ [spec]\<rparr>"

definition with_audit_sink :: "('o, 'r, 'a) repository \<Rightarrow> ('o, 'r, 'a) repository" where
  "with_audit_sink R = R\<lparr>r_audit := Some []\<rparr>"

definition audit_advance ::
  "('o, 'r, 'a) repository \<Rightarrow> ref_name \<Rightarrow> accessor \<Rightarrow> oid option \<Rightarrow> oid \<Rightarrow> audit_decision \<Rightarrow> ('o, 'r, 'a) repository" where
  "audit_advance R name acc old_head new_head decision =
     (case r_audit R of
        None \<Rightarrow> R
      | Some log \<Rightarrow> (case old_head of
            Some h \<Rightarrow> R\<lparr>r_audit := Some (log @ [TimelineAdvance name (acc_actor acc) h new_head decision])\<rparr>
          | None \<Rightarrow> R))"

section \<open>Policy roots and approvals\<close>

abbreviation policy_tag :: "oid \<Rightarrow> ref" where
  "policy_tag i \<equiv> RTag \<lparr>tag_target = i, tag_created_at = 0, tag_message = None\<rparr>"

definition policy_root_of :: "('o, 'r, 'a) repo_env \<Rightarrow> ('o, 'r, 'a) repository \<Rightarrow> (oid \<times> policy_root) option result" where
  "policy_root_of E R =
     bind_res (ref_name_new POLICY_ROOT_REF) (\<lambda>name.
     bind_res (rb_get (env_refs E) (r_refs R) name) (\<lambda>cur. case cur of
         Some (RTag t) \<Rightarrow>
           bind_res (load_root (repo_get E R) (tag_target t)) (\<lambda>found. case found of
               Some r \<Rightarrow> Inr (Some (tag_target t, r))
             | None \<Rightarrow> Inl (PolicyViolation ''refs/policy/root does not point at a stored policy root (fail-closed)''))
       | Some (RTimeline _) \<Rightarrow>
           Inl (PolicyViolation ''refs/policy/root is a timeline, not a policy-root tag (fail-closed)'')
       | None \<Rightarrow> Inr None))"

definition push_specs :: "ed25519 \<Rightarrow> hook_spec list \<Rightarrow> 'r policy_registry \<Rightarrow> 'r policy_registry result" where
  "push_specs ed specs reg =
     fold_res (\<lambda>spec reg. bind_res (resolve_hook ed spec) (\<lambda>hook. Inr (registry_push reg hook))) specs reg"

definition policy_registry :: "('o, 'r, 'a) repo_env \<Rightarrow> ('o, 'r, 'a) repository \<Rightarrow> 'r policy_registry result" where
  "policy_registry E R =
     bind_res (push_specs (env_ed E) (r_hooks R) registry_new) (\<lambda>reg.
     bind_res (policy_root_of E R) (\<lambda>found. case found of
         Some (_, pr) \<Rightarrow> push_specs (env_ed E) (pol_hooks pr) reg
       | None \<Rightarrow> Inr reg))"

definition set_policy_root ::
  "('o, 'r, 'a) repo_env \<Rightarrow> ('o, 'r, 'a) repository \<Rightarrow> policy_root \<Rightarrow> (oid \<times> ('o, 'r, 'a) repository) result" where
  "set_policy_root E R pr =
     bind_res (repo_put E R (OPolicy (PRoot pr))) (\<lambda>(i, R1).
     bind_res (ref_name_new POLICY_ROOT_REF) (\<lambda>name.
     bind_res (repo_commit E R1 [SetRef name (policy_tag i)]) (\<lambda>R2. Inr (i, R2))))"

definition adopt_policy_root ::
  "('o, 'r, 'a) repo_env \<Rightarrow> ('o, 'r, 'a) repository \<Rightarrow> oid \<Rightarrow> signature_store \<Rightarrow> trust_store \<Rightarrow> ('o, 'r, 'a) repository result" where
  "adopt_policy_root E R tip sigs trust =
     bind_res (verify_chain (env_ed E) (repo_get E R) tip sigs trust) (\<lambda>verdict. case verdict of
         Reject reason \<Rightarrow> Inl (PolicyViolation (''policy adoption rejected: '' @ reason))
       | Accept _ \<Rightarrow>
           bind_res (ref_name_new POLICY_ROOT_REF) (\<lambda>name.
           bind_res (rb_get (env_refs E) (r_refs R) name) (\<lambda>current.
           bind_res (case current of
               Some (RTag cur) \<Rightarrow>
                 bind_res (chain_of (repo_get E R) tip) (\<lambda>offered.
                   if tag_target cur \<notin> set offered
                   then Inl (PolicyViolation ''policy adoption is not a fast-forward of the pinned root (refusing rollback/divergence)'')
                   else Inr ())
             | Some (RTimeline _) \<Rightarrow>
                 Inl (PolicyViolation ''refs/policy/root is not a policy-root tag; refuse to adopt over a malformed pin'')
             | None \<Rightarrow> Inr ()) (\<lambda>_.
           repo_commit E R [Expect name current, SetRef name (policy_tag tip)]))))"

definition set_approvers ::
  "('o, 'r, 'a) repo_env \<Rightarrow> ('o, 'r, 'a) repository \<Rightarrow> approver_registry \<Rightarrow> ('o, 'r, 'a) repository result" where
  "set_approvers E R registry =
     bind_res (repo_put E R (OPolicy (PApprovers registry))) (\<lambda>(i, R1).
     bind_res (ref_name_new APPROVERS_REF) (\<lambda>name. repo_commit E R1 [SetRef name (policy_tag i)]))"

definition repo_approvers :: "('o, 'r, 'a) repo_env \<Rightarrow> ('o, 'r, 'a) repository \<Rightarrow> approver_registry result" where
  "repo_approvers E R = load_approvers (env_refs E) (r_refs R) (repo_get E R)"

definition add_attestation ::
  "('o, 'r, 'a) repo_env \<Rightarrow> ('o, 'r, 'a) repository \<Rightarrow> attestation \<Rightarrow> (oid \<times> ('o, 'r, 'a) repository) result" where
  "add_attestation E R att =
     bind_res (repo_put E R (OPolicy (PAttestation att))) (\<lambda>(i, R1).
     bind_res (ref_name_new (ATTESTATIONS_PREFIX @ oid_display i)) (\<lambda>name.
     bind_res (repo_commit E R1 [SetRef name (policy_tag i)]) (\<lambda>R2. Inr (i, R2))))"

definition repo_attestations :: "('o, 'r, 'a) repo_env \<Rightarrow> ('o, 'r, 'a) repository \<Rightarrow> attestation list result" where
  "repo_attestations E R = load_attestations (env_refs E) (r_refs R) (repo_get E R)"

section \<open>Copies\<close>

definition copy_objects ::
  "'o backend \<Rightarrow> ocodec \<Rightarrow> 'o \<Rightarrow> 'p backend \<Rightarrow> ocodec \<Rightarrow> 'p \<Rightarrow> 'p result" where
  "copy_objects B C from B' C' to =
     bind_res (sb_list B from) (\<lambda>ids.
       fold_res (\<lambda>i to. bind_res (ost_get B C from i) (\<lambda>found. case found of
           Some obj \<Rightarrow> bind_res (ost_put B' C' to obj) (\<lambda>(_, to'). Inr to')
         | None \<Rightarrow> Inr to)) ids to)"

definition copy_refs :: "'r ref_backend \<Rightarrow> 'r \<Rightarrow> 'q ref_backend \<Rightarrow> 'q \<Rightarrow> 'q result" where
  "copy_refs B from B' to =
     bind_res (rb_list B from []) (\<lambda>names.
       fold_res (\<lambda>name to. bind_res (rb_get B from name) (\<lambda>found. case found of
           Some r \<Rightarrow> rb_set B' to name r
         | None \<Rightarrow> Inr to)) names to)"

definition copy_to ::
  "('o, 'r, 'a) repo_env \<Rightarrow> ('o, 'r, 'a) repository \<Rightarrow> ('p, 'q, 'b) repo_env \<Rightarrow> ('p, 'q, 'b) repository \<Rightarrow>
   ('p, 'q, 'b) repository result" where
  "copy_to E R E' dest =
     bind_res (copy_objects (env_objects E) (env_codec E) (r_objects R) (env_objects E') (env_codec E') (r_objects dest)) (\<lambda>os.
     bind_res (copy_refs (env_refs E) (r_refs R) (env_refs E') (r_refs dest)) (\<lambda>rs.
       Inr (dest\<lparr>r_objects := os, r_refs := rs\<rparr>)))"

section \<open>Filtered views\<close>

record filtered_snapshot =
  fs_id :: oid
  fs_author :: string
  fs_created_at :: u64
  fs_message :: string
  fs_parents :: "oid list"
  visible_paths :: file_map

definition as_snapshot :: "object option \<Rightarrow> snapshot option" where
  "as_snapshot obj = (case obj of Some (OSnapshot s) \<Rightarrow> Some s | _ \<Rightarrow> None)"

lemma as_snapshot_simps [simp]: "as_snapshot (Some (OSnapshot s)) = Some s" "as_snapshot None = None"
  by (simp_all add: as_snapshot_def)

lemma as_snapshot_Some [simp]: "as_snapshot obj = Some s \<longleftrightarrow> obj = Some (OSnapshot s)"
  by (auto simp: as_snapshot_def split: option.splits object.splits)

abbreviation repo_lattice :: "('o, 'r, 'a) repo_env \<Rightarrow> ('o, 'r, 'a) repository \<Rightarrow> lattice result" where
  "repo_lattice E R \<equiv> get_lattice (env_acls E) (r_acls R)"

abbreviation repo_rules :: "('o, 'r, 'a) repo_env \<Rightarrow> ('o, 'r, 'a) repository \<Rightarrow> label_rule_set result" where
  "repo_rules E R \<equiv> get_label_ruleset (env_acls E) (r_acls R)"

definition get_snapshot_filtered ::
  "('o, 'r, 'a) repo_env \<Rightarrow> ('o, 'r, 'a) repository \<Rightarrow> oid \<Rightarrow> accessor \<Rightarrow> filtered_snapshot option result" where
  "get_snapshot_filtered E R i acc =
     bind_res (repo_get E R i) (\<lambda>obj. case as_snapshot obj of
         None \<Rightarrow> Inr None
       | Some sn \<Rightarrow>
           bind_res (repo_lattice E R) (\<lambda>L. bind_res (repo_rules E R) (\<lambda>rules.
           bind_res (walk_tree_filtered (repo_get E R) L rules (root sn) [] acc []) (\<lambda>paths.
             Inr (Some \<lparr>fs_id = i, fs_author = author sn, fs_created_at = created_at sn,
               fs_message = message sn, fs_parents = parents sn, visible_paths = paths\<rparr>)))))"

definition timeline_readable_with :: "lattice \<Rightarrow> label_rule_set \<Rightarrow> ref_name \<Rightarrow> accessor \<Rightarrow> bool" where
  "timeline_readable_with L rules name acc =
     (let label = label_for_timeline rules L name in
      label = lat_bottom L \<or> can_read acc label (ResTimeline name))"

definition list_refs_filtered ::
  "('o, 'r, 'a) repo_env \<Rightarrow> ('o, 'r, 'a) repository \<Rightarrow> string \<Rightarrow> accessor \<Rightarrow> ref_name list result" where
  "list_refs_filtered E R prefix acc =
     bind_res (repo_lattice E R) (\<lambda>L. bind_res (repo_rules E R) (\<lambda>rules.
     bind_res (rb_list (env_refs E) (r_refs R) prefix) (\<lambda>all.
       Inr (filter (\<lambda>name. timeline_readable_with L rules name acc) all))))"

definition COLLAB_SCOPED_PREFIX :: string where
  "COLLAB_SCOPED_PREFIX = ''refs/collab/scoped/''"

definition list_refs_served ::
  "('o, 'r, 'a) repo_env \<Rightarrow> ('o, 'r, 'a) repository \<Rightarrow> string \<Rightarrow> accessor \<Rightarrow> ref_name list result" where
  "list_refs_served E R prefix acc =
     bind_res (list_refs_filtered E R prefix acc) (\<lambda>names.
       Inr (filter (\<lambda>n. \<not> starts_with COLLAB_SCOPED_PREFIX n) names))"

definition ref_served ::
  "('o, 'r, 'a) repo_env \<Rightarrow> ('o, 'r, 'a) repository \<Rightarrow> ref_name \<Rightarrow> accessor \<Rightarrow> bool result" where
  "ref_served E R name acc =
     (if starts_with COLLAB_SCOPED_PREFIX name then Inr False
      else
        bind_res (repo_lattice E R) (\<lambda>L. bind_res (repo_rules E R) (\<lambda>rules.
        let readable = timeline_readable_with L rules name acc in
        bind_res (rb_get (env_refs E) (r_refs R) name) (\<lambda>cur. Inr (readable \<and> cur \<noteq> None)))))"

definition tree_as_map :: "('o, 'r, 'a) repo_env \<Rightarrow> ('o, 'r, 'a) repository \<Rightarrow> oid \<Rightarrow> file_map result" where
  "tree_as_map E R tree_id =
     bind_res (repo_lattice E R) (\<lambda>L. bind_res (repo_rules E R) (\<lambda>rules.
       walk_tree_filtered (repo_get E R) L rules tree_id [] privileged []))"

section \<open>Merges\<close>

datatype merge_check = McAllowed | McRequiresApproval "path_acl list" | McRejected "path_acl list"

definition leaks :: "lattice \<Rightarrow> label_rule_set \<Rightarrow> label \<Rightarrow> file_map \<Rightarrow> path_acl \<Rightarrow> bool" where
  "leaks L rules dest_label paths acl =
     list_ex (\<lambda>p. glob_matches (pa_glob acl) p \<and> \<not> dominates L dest_label (label_for_path rules L p)) (bt_keys paths)"

definition leaking_acls :: "lattice \<Rightarrow> label_rule_set \<Rightarrow> label \<Rightarrow> file_map \<Rightarrow> path_acl list \<Rightarrow> path_acl list" where
  "leaking_acls L rules dest_label paths acls =
     fold (\<lambda>acl leaking.
       if leaks L rules dest_label paths acl \<and> \<not> list_ex (\<lambda>l. pa_glob l = pa_glob acl) leaking
       then leaking @ [acl] else leaking) acls []"

abbreviation repo_context ::
  "('o, 'r, 'a) repo_env \<Rightarrow> ('o, 'r, 'a) repository \<Rightarrow> policy_event \<Rightarrow> accessor \<Rightarrow> 'r policy_context" where
  "repo_context E R event acc \<equiv>
     \<lparr>pc_event = event, pc_accessor = acc, pc_objects = repo_get E R, pc_backend = env_refs E, pc_refs = r_refs R, pc_now = 0\<rparr>"

definition check_merge ::
  "('o, 'r, 'a) repo_env \<Rightarrow> ('o, 'r, 'a) repository \<Rightarrow> ref_name \<Rightarrow> ref_name \<Rightarrow> accessor \<Rightarrow> merge_check result" where
  "check_merge E R source dest acc =
     bind_res (get_timeline (env_refs E) (r_refs R) source) (\<lambda>found. case found of
         None \<Rightarrow> Inl (Storage (''source ref '' @ quoted source @ '' not found''))
       | Some source_tl \<Rightarrow>
     bind_res (repo_get E R (tl_head source_tl)) (\<lambda>obj. case as_snapshot obj of
         None \<Rightarrow> Inl (WrongRefKind (''source ref '' @ quoted source @ '' head is not a snapshot''))
       | Some sn \<Rightarrow>
     bind_res (repo_lattice E R) (\<lambda>L. bind_res (repo_rules E R) (\<lambda>rules.
     bind_res (walk_tree_filtered (repo_get E R) L rules (root sn) [] privileged []) (\<lambda>paths.
     let dest_label = label_for_timeline rules L dest in
     bind_res (be_list_path_acls (env_acls E) (r_acls R)) (\<lambda>path_acls.
     let leaking = leaking_acls L rules dest_label paths path_acls in
     bind_res (policy_registry E R) (\<lambda>registry.
     let decision = evaluate registry (repo_context E R (EvMerge source dest (tl_head source_tl) (tl_head source_tl)) acc) in
     case decision of
       PDeny _ \<Rightarrow> Inr (McRejected leaking)
     | _ \<Rightarrow>
         (if leaking = [] then
            (case decision of PNeeds _ _ \<Rightarrow> Inr (McRequiresApproval leaking) | _ \<Rightarrow> Inr McAllowed)
          else if can_write_timeline acc dest then Inr (McRequiresApproval leaking)
          else Inr (McRejected leaking)))))))))"

definition merge_timelines ::
  "('o, 'r, 'a) repo_env \<Rightarrow> ('o, 'r, 'a) repository \<Rightarrow> ref_name \<Rightarrow> ref_name \<Rightarrow> accessor \<Rightarrow> merge_result result" where
  "merge_timelines E R source target acc =
     (if \<not> can_write_timeline acc target then Inl (AccessDenied (''write denied on timeline: '' @ target))
      else
     bind_res (get_timeline (env_refs E) (r_refs R) source) (\<lambda>found_s. case found_s of
         None \<Rightarrow> Inl (Storage (''timeline not found: '' @ source))
       | Some source_tl \<Rightarrow>
     bind_res (get_timeline (env_refs E) (r_refs R) target) (\<lambda>found_t. case found_t of
         None \<Rightarrow> Inl (Storage (''timeline not found: '' @ target))
       | Some target_tl \<Rightarrow>
     bind_res (find_common_ancestor (repo_get E R) (tl_head source_tl) (tl_head target_tl)) (\<lambda>ancestor_id.
     bind_res (repo_get E R (tl_head source_tl)) (\<lambda>sobj. case as_snapshot sobj of
         None \<Rightarrow> Inl (Storage (''snapshot not found: '' @ oid_display (tl_head source_tl)))
       | Some ssnap \<Rightarrow>
     bind_res (repo_get E R (tl_head target_tl)) (\<lambda>tobj. case as_snapshot tobj of
         None \<Rightarrow> Inl (Storage (''snapshot not found: '' @ oid_display (tl_head target_tl)))
       | Some tsnap \<Rightarrow>
     bind_res (case ancestor_id of
         Some i \<Rightarrow> bind_res (repo_get E R i) (\<lambda>aobj. case as_snapshot aobj of
             Some asnap \<Rightarrow> tree_as_map E R (root asnap)
           | None \<Rightarrow> Inr [])
       | None \<Rightarrow> Inr []) (\<lambda>ancestor_tree.
     bind_res (tree_as_map E R (root ssnap)) (\<lambda>source_tree.
     bind_res (tree_as_map E R (root tsnap)) (\<lambda>target_tree.
       Inr (three_way_diff ancestor_tree target_tree source_tree))))))))))"

section \<open>Explanations\<close>

record decision =
  d_allowed :: bool
  d_reason :: string
  d_write_down_block :: bool
  d_clearances :: "clearance_eval list"

record access_explanation =
  ax_path :: string
  ax_present :: bool
  ax_label :: label
  ax_matched_rules :: "string list"
  ax_read :: decision
  ax_write :: decision

definition backquoted :: "string \<Rightarrow> string" where
  "backquoted s = CHR 0x60 # s @ [CHR 0x60]"

definition read_decision :: "lattice \<Rightarrow> label \<Rightarrow> capability_trace \<Rightarrow> decision" where
  "read_decision L label trace =
     (if label = lat_bottom L then
        \<lparr>d_allowed = True, d_reason = ''path label is public (lattice bottom); readable by all actors'',
         d_write_down_block = False, d_clearances = evals trace\<rparr>
      else if allowed trace then
        \<lparr>d_allowed = True, d_reason = ''granted: a read clearance dominates label '' @ backquoted (label_str label),
         d_write_down_block = False, d_clearances = evals trace\<rparr>
      else
        \<lparr>d_allowed = False, d_reason = ''denied: no in-scope read clearance dominates label '' @ backquoted (label_str label),
         d_write_down_block = False, d_clearances = evals trace\<rparr>)"

definition write_decision :: "label \<Rightarrow> capability_trace \<Rightarrow> decision" where
  "write_decision label trace =
     (if allowed trace then
        \<lparr>d_allowed = True, d_reason = ''granted: a write clearance dominates label '' @ backquoted (label_str label),
         d_write_down_block = False, d_clearances = evals trace\<rparr>
      else if confined_write_down_block trace then
        \<lparr>d_allowed = False, d_reason = ''denied: confined actor may not write down to label '' @ backquoted (label_str label),
         d_write_down_block = True, d_clearances = evals trace\<rparr>
      else
        \<lparr>d_allowed = False, d_reason = ''denied: no in-scope write clearance dominates label '' @ backquoted (label_str label),
         d_write_down_block = False, d_clearances = evals trace\<rparr>)"

definition matched_path_rules :: "label_rule_set \<Rightarrow> string \<Rightarrow> string list" where
  "matched_path_rules rules path =
     List.map_filter (\<lambda>r. case r of RulePath g _ \<Rightarrow> if glob_matches g path then Some g else None | _ \<Rightarrow> None) rules"

definition explain_path ::
  "('o, 'r, 'a) repo_env \<Rightarrow> ('o, 'r, 'a) repository \<Rightarrow> accessor \<Rightarrow> oid \<Rightarrow> string \<Rightarrow> access_explanation result" where
  "explain_path E R acc snapshot_id path =
     bind_res (repo_lattice E R) (\<lambda>L. bind_res (repo_rules E R) (\<lambda>rules.
     let label = label_for_path rules L path in
     bind_res (repo_get E R snapshot_id) (\<lambda>obj. case as_snapshot obj of
         None \<Rightarrow> Inl (Storage (''snapshot not found: '' @ oid_display snapshot_id))
       | Some sn \<Rightarrow>
     bind_res (tree_as_map E R (root sn)) (\<lambda>m.
     let (read_trace, write_trace) = explain acc label (ResPath path) in
       Inr \<lparr>ax_path = path, ax_present = (bt_get m path \<noteq> None), ax_label = label,
         ax_matched_rules = matched_path_rules rules path,
         ax_read = read_decision L label read_trace, ax_write = write_decision label write_trace\<rparr>))))"

section \<open>Moving a timeline\<close>

text \<open>
  \<^verbatim>\<open>advance_timeline_expecting\<close> in two phases: the decision, which only reads, and the commit. A
  decision ends with the timeline that was read, or with an error and the audit record that goes with
  it, if any.
\<close>

type_synonym advance_failure = "error \<times> (oid option \<times> audit_decision) option"

definition try_read :: "'a result \<Rightarrow> ('a \<Rightarrow> advance_failure + 'b) \<Rightarrow> advance_failure + 'b" where
  "try_read r f = (case r of Inl e \<Rightarrow> Inl (e, None) | Inr x \<Rightarrow> f x)"

definition denied :: "oid option \<Rightarrow> string \<Rightarrow> advance_failure + 'b" where
  "denied old reason = Inl (AccessDenied reason, Some (old, AuditDenied reason))"

definition may_write_path :: "accessor \<Rightarrow> lattice \<Rightarrow> label_rule_set \<Rightarrow> string \<Rightarrow> bool" where
  "may_write_path acc L rules path = can_write acc (label_for_path rules L path) (ResPath path)"

definition policy_gate ::
  "('o, 'r, 'a) repo_env \<Rightarrow> ('o, 'r, 'a) repository \<Rightarrow> ref_name \<Rightarrow> oid \<Rightarrow> accessor \<Rightarrow> timeline \<Rightarrow> advance_failure + timeline" where
  "policy_gate E R name snapshot_id acc tl' =
     try_read (policy_registry E R) (\<lambda>registry.
       case evaluate registry (repo_context E R (EvAdvance name (tl_head tl') snapshot_id) acc) of
         PAllow \<Rightarrow> Inr tl'
       | PDeny reason \<Rightarrow> Inl (PolicyViolation reason, Some (Some (tl_head tl'), AuditDenied reason))
       | PNeeds reason needed \<Rightarrow> Inl (ApprovalRequired reason needed, Some (Some (tl_head tl'), AuditNeeds needed reason)))"

definition removed_gate ::
  "('o, 'r, 'a) repo_env \<Rightarrow> ('o, 'r, 'a) repository \<Rightarrow> ref_name \<Rightarrow> oid \<Rightarrow> accessor \<Rightarrow> lattice \<Rightarrow> label_rule_set \<Rightarrow>
   oid option \<Rightarrow> file_map \<Rightarrow> timeline \<Rightarrow> advance_failure + timeline" where
  "removed_gate E R name snapshot_id acc L rules audit_old paths tl' =
     try_read (repo_get E R (tl_head tl')) (\<lambda>old_obj.
     try_read (case as_snapshot old_obj of Some s \<Rightarrow> tree_as_map E R (root s) | None \<Rightarrow> Inr []) (\<lambda>old_paths.
     case List.find (\<lambda>path. bt_get paths path = None \<and> \<not> may_write_path acc L rules path) (bt_keys old_paths) of
       Some path \<Rightarrow> denied audit_old (''write denied on removed path: '' @ path)
     | None \<Rightarrow> policy_gate E R name snapshot_id acc tl'))"

definition advance_decide ::
  "('o, 'r, 'a) repo_env \<Rightarrow> ('o, 'r, 'a) repository \<Rightarrow> ref_name \<Rightarrow> oid \<Rightarrow> oid option \<Rightarrow> accessor \<Rightarrow> advance_failure + timeline" where
  "advance_decide E R name snapshot_id expected_old acc =
     try_read (repo_lattice E R) (\<lambda>L. try_read (repo_rules E R) (\<lambda>rules.
     try_read (get_timeline (env_refs E) (r_refs R) name) (\<lambda>found0.
     let audit_old = map_option tl_head found0 in
     if \<not> can_write acc (label_for_timeline rules L name) (ResTimeline name)
     then denied audit_old (''write denied on timeline: '' @ name)
     else
     try_read (repo_get E R snapshot_id) (\<lambda>obj. case as_snapshot obj of
         None \<Rightarrow> Inl (Storage (''snapshot not found: '' @ oid_display snapshot_id), None)
       | Some sn \<Rightarrow>
     try_read (walk_tree_filtered (repo_get E R) L rules (root sn) [] privileged []) (\<lambda>paths.
     case List.find (\<lambda>path. \<not> may_write_path acc L rules path) (bt_keys paths) of
       Some path \<Rightarrow> denied audit_old (''write denied on path: '' @ path)
     | None \<Rightarrow>
     try_read (get_timeline (env_refs E) (r_refs R) name) (\<lambda>found. case found of
         None \<Rightarrow> Inl (Storage (''timeline not found: '' @ name), None)
       | Some tl' \<Rightarrow>
           (if expected_old \<noteq> None \<and> expected_old \<noteq> Some (tl_head tl') then
              Inl (TransactionConflict (''timeline '' @ quoted name @
                '' moved from the expected head (merge is stale); retry''), None)
            else removed_gate E R name snapshot_id acc L rules audit_old paths tl')))))))"

definition advance_timeline_expecting ::
  "('o, 'r, 'a) repo_env \<Rightarrow> ('o, 'r, 'a) repository \<Rightarrow> ref_name \<Rightarrow> oid \<Rightarrow> oid option \<Rightarrow> accessor \<Rightarrow>
   unit result \<times> ('o, 'r, 'a) repository" where
  "advance_timeline_expecting E R name snapshot_id expected_old acc =
     (case advance_decide E R name snapshot_id expected_old acc of
        Inl (e, None) \<Rightarrow> (Inl e, R)
      | Inl (e, Some (old, d)) \<Rightarrow> (Inl e, audit_advance R name acc old snapshot_id d)
      | Inr tl' \<Rightarrow>
          (case repo_commit E R [AdvanceHeadIf name (tl_head tl') snapshot_id] of
             Inl e \<Rightarrow> (Inl e, R)
           | Inr R' \<Rightarrow> (Inr (), audit_advance R' name acc (Some (tl_head tl')) snapshot_id AuditAllowed)))"

definition advance_timeline ::
  "('o, 'r, 'a) repo_env \<Rightarrow> ('o, 'r, 'a) repository \<Rightarrow> ref_name \<Rightarrow> oid \<Rightarrow> accessor \<Rightarrow> unit result \<times> ('o, 'r, 'a) repository" where
  "advance_timeline E R name snapshot_id acc = advance_timeline_expecting E R name snapshot_id None acc"

section \<open>Pruning, collection and health\<close>

fun tagged_at :: "'r ref_backend \<Rightarrow> 'r \<Rightarrow> oid \<Rightarrow> ref_name list \<Rightarrow> bool result" where
  "tagged_at B rs head [] = Inr False"
| "tagged_at B rs head (n # ns) =
     bind_res (rb_get B rs n) (\<lambda>cur. case cur of
         Some (RTag t) \<Rightarrow> if tag_target t = head then Inr True else tagged_at B rs head ns
       | _ \<Rightarrow> tagged_at B rs head ns)"

definition prune_timeline ::
  "('o, 'r, 'a) repo_env \<Rightarrow> ('o, 'r, 'a) repository \<Rightarrow> ref_name \<Rightarrow> u64 \<Rightarrow> (bool \<times> ('o, 'r, 'a) repository) result" where
  "prune_timeline E R name now =
     bind_res (get_timeline (env_refs E) (r_refs R) name) (\<lambda>found. case found of
         None \<Rightarrow> Inr (False, R)
       | Some tl' \<Rightarrow>
           (case tl_expires_at tl' of
              Some exp \<Rightarrow>
                (if exp \<le> now then
                   bind_res (rb_list (env_refs E) (r_refs R) []) (\<lambda>names.
                   bind_res (tagged_at (env_refs E) (r_refs R) (tl_head tl') names) (\<lambda>tagged.
                   if tagged then Inr (False, R)
                   else bind_res (rb_delete (env_refs E) (r_refs R) name) (\<lambda>rs. Inr (True, R\<lparr>r_refs := rs\<rparr>))))
                 else Inr (False, R))
            | None \<Rightarrow> Inr (False, R)))"

definition ref_target :: "ref \<Rightarrow> oid" where
  "ref_target r = (case r of RTimeline t \<Rightarrow> tl_head t | RTag t \<Rightarrow> tag_target t)"

definition gc_roots :: "('o, 'r, 'a) repo_env \<Rightarrow> ('o, 'r, 'a) repository \<Rightarrow> oid list \<Rightarrow> oid list result" where
  "gc_roots E R extra_roots =
     bind_res (rb_list (env_refs E) (r_refs R) []) (\<lambda>names.
       fold_res (\<lambda>name roots. bind_res (rb_get (env_refs E) (r_refs R) name) (\<lambda>cur. case cur of
           Some r \<Rightarrow> Inr (roots @ [ref_target r])
         | None \<Rightarrow> Inr roots)) names extra_roots)"

definition gc ::
  "('o, 'r, 'a) repo_env \<Rightarrow> ('o, 'r, 'a) repository \<Rightarrow> oid list \<Rightarrow> u64 \<Rightarrow> u64 \<Rightarrow> (u64 \<times> ('o, 'r, 'a) repository) result" where
  "gc E R extra_roots grace_secs now =
     bind_res (gc_roots E R extra_roots) (\<lambda>roots.
     bind_res (mark_reachable (repo_get E R) roots) (\<lambda>reachable.
     bind_res (sb_sweep (env_objects E) (r_objects R) reachable grace_secs now) (\<lambda>(removed, s).
       Inr (removed, R\<lparr>r_objects := s\<rparr>))))"

definition unreachable_object_count ::
  "('o, 'r, 'a) repo_env \<Rightarrow> ('o, 'r, 'a) repository \<Rightarrow> oid list \<Rightarrow> nat result" where
  "unreachable_object_count E R extra_roots =
     bind_res (gc_roots E R extra_roots) (\<lambda>roots.
     bind_res (mark_reachable (repo_get E R) roots) (\<lambda>reachable.
     bind_res (sb_list (env_objects E) (r_objects R)) (\<lambda>all.
       Inr (length (filter (\<lambda>i. i \<notin> reachable) all)))))"

text \<open>The walk of \<^verbatim>\<open>scan_object_health\<close> over the closure of one ref: the first absent object, if any.\<close>

function health_loop :: "getter \<Rightarrow> oid list \<Rightarrow> oid set \<Rightarrow> oid option result" where
  "health_loop get [] seen = Inr None"
| "health_loop get (i # stack) seen =
     (if i \<in> seen then health_loop get stack seen
      else bind_res (get i) (\<lambda>found. case found of
          Some obj \<Rightarrow> health_loop get (rev (child_edges obj) @ stack) (insert i seen)
        | None \<Rightarrow> Inr (Some i)))"
  by pat_completeness auto
termination
  by (relation "measures [\<lambda>(get, stack, seen). unseen seen, \<lambda>(get, stack, seen). length stack]")
    (auto simp: unseen_insert)

definition scan_object_health ::
  "('o, 'r, 'a) repo_env \<Rightarrow> ('o, 'r, 'a) repository \<Rightarrow> (ref_name list \<times> (ref_name \<times> oid) list) result" where
  "scan_object_health E R =
     bind_res (rb_list (env_refs E) (r_refs R) []) (\<lambda>names.
       fold_res (\<lambda>name (dangling, broken). bind_res (rb_get (env_refs E) (r_refs R) name) (\<lambda>cur. case cur of
           None \<Rightarrow> Inr (dangling, broken)
         | Some r \<Rightarrow> bind_res (health_loop (repo_get E R) [ref_target r] {}) (\<lambda>missing. case missing of
               None \<Rightarrow> Inr (dangling, broken)
             | Some m \<Rightarrow> if m = ref_target r then Inr (dangling @ [name], broken) else Inr (dangling, broken @ [(name, m)]))))
         names ([], []))"

end
