(* ===== verification/Repository_Laws.thy ===== *)
theory Repository_Laws
  imports Repository
begin

text \<open>
  What the repository guarantees: who can move a timeline and what a move changes, which policy root can be adopted, and that
  the operations on objects, timelines, policy and hooks keep what is stored and move protected timelines
  forward. The laws of the stores come from the locales of the object store and of the
  ref store, combined here in one locale; the in-memory repository is interpreted at the end.
\<close>

lemmas [simp del] = walk_loop.simps nested_files.simps too_deep.simps

section \<open>Labels\<close>

text \<open>The rules of an ACL store carry one label, so the effective label says whether a rule matches.\<close>

lemma two_point_facts:
  "lat_bottom two_point = label_public"
  "lat_join two_point label_public label_protected = label_protected"
  "lat_join two_point label_protected label_protected = label_protected"
  "dominates two_point label_protected label_protected"
  "dominates two_point label_protected label_public"
  "dominates two_point label_public label_public"
  "\<not> dominates two_point label_public label_protected"
  "label_public \<noteq> label_protected"
  "lat_top two_point = label_protected"
  by code_simp+

definition acl_rules :: "label_rule_set \<Rightarrow> bool" where
  "acl_rules rules \<longleftrightarrow> rule_label ` set rules \<subseteq> {label_protected}"

lemma repo_rules_acl: "get_label_ruleset B s = Inr rules \<Longrightarrow> acl_rules rules"
  by (auto simp: get_label_ruleset_def bind_res_Inr acl_rules_def)

definition path_matched :: "label_rule_set \<Rightarrow> string \<Rightarrow> bool" where
  "path_matched rules p \<longleftrightarrow> (\<exists>g l. RulePath g l \<in> set rules \<and> glob_matches g p)"

lemma foldl_path_label:
  assumes "acl_rules rules" and "l \<in> {label_public, label_protected}"
  shows "foldl (\<lambda>acc rule. case rule of
         RulePath glob label \<Rightarrow> if glob_matches glob p then lat_join two_point acc label else acc
       | _ \<Rightarrow> acc) l rules = (if path_matched rules p then label_protected else l)"
  using assms
proof (induction rules arbitrary: l)
  case (Cons r rules)
  have "acl_rules rules" using Cons.prems(1) by (simp add: acl_rules_def)
  note IH = Cons.IH [OF this]
  show ?case
  proof (cases r)
    case (RulePath g m)
    then have "m = label_protected" using Cons.prems(1) by (simp add: acl_rules_def)
    moreover have "lat_join two_point l label_protected = label_protected"
      using Cons.prems(2) by (auto simp: two_point_facts)
    ultimately show ?thesis using RulePath IH [of l] IH [of label_protected] Cons.prems(2)
      by (auto simp: path_matched_def)
  qed (use IH [of l] Cons.prems(2) in \<open>auto simp: path_matched_def\<close>)
qed (simp add: path_matched_def)

lemma label_for_path_two_point:
  "acl_rules rules \<Longrightarrow> label_for_path rules two_point p = (if path_matched rules p then label_protected else label_public)"
  using foldl_path_label [of rules label_public p] by (simp add: label_for_path_def two_point_facts(1))

lemma privileged_reads: "can_read privileged label_protected r"
  by (simp add: can_read_def privileged_def two_point_facts Let_def cap_contains_def READ_def)

lemma privileged_sees_all: "acl_rules rules \<Longrightarrow> path_visible two_point rules privileged p"
  by (simp add: path_visible_def label_for_path_two_point two_point_facts privileged_reads)

text \<open>The privileged listing of a tree is the whole tree.\<close>

lemma walk_privileged:
  assumes "acl_rules rules"
  shows "walk_tree_filtered get two_point rules t [] privileged [] = walk_loop get (\<lambda>_. True) [(t, [], 0)] []"
proof -
  have "path_visible two_point rules privileged = (\<lambda>_. True)"
    using privileged_sees_all [OF assms] by (simp add: fun_eq_iff)
  then show ?thesis by (simp add: walk_tree_filtered_def)
qed

lemma walk_all_files:
  assumes "readable get"
  shows "if too_deep get 256 t then walk_loop get (\<lambda>_. True) [(t, [], 0)] [] = Inl err_depth
    else \<exists>m. walk_loop get (\<lambda>_. True) [(t, [], 0)] [] = Inr m \<and> set (bt_keys m) = fst ` nested_files get 256 t []"
proof -
  let ?walk = "walk_loop get (\<lambda>_. True) [(t, [], 0)] []" and ?F = "nested_files get 256 t []"
  have files: "stack_files get [(t, [], 0)] = ?F" and deep: "stack_deep get [(t, [], 0)] = too_deep get 256 t"
    by (simp_all add: stack_files_def stack_deep_def MAX_TREE_DEPTH_def)
  have walk: "if too_deep get 256 t then ?walk = Inl err_depth
    else \<exists>m. ?walk = Inr m \<and> files_listed (\<lambda>_. True) ?F [] m"
    using walk_loop_correct [OF assms, of "[(t, [], 0)]" "\<lambda>_. True" "[]"] unfolding files deep .
  have "set (bt_keys m) = fst ` ?F" if "files_listed (\<lambda>_. True) ?F [] m" for m
  proof -
    have "p \<in> fst ` ?F \<longleftrightarrow> bt_get m p \<noteq> None" for p
      using that unfolding files_listed_def by (metis map_of.simps(1) option.discI)
    then show ?thesis by (auto simp: map_of_eq_None_iff)
  qed
  with walk show ?thesis by metis
qed

lemma tree_as_map_files:
  assumes "readable (repo_get E R)" and "repo_rules E R = Inr rules"
  shows "if too_deep (repo_get E R) 256 t then tree_as_map E R t = Inl err_depth
    else \<exists>m. tree_as_map E R t = Inr m \<and> set (bt_keys m) = fst ` nested_files (repo_get E R) 256 t []"
  using walk_all_files [OF assms(1), of t] walk_privileged [OF repo_rules_acl [OF assms(2)], of "repo_get E R" t]
  by (simp only: tree_as_map_def get_lattice_def assms(2) bind_res_simps)

section \<open>Who may move a timeline\<close>

abbreviation files_of :: "('o, 'r, 'a) repo_env \<Rightarrow> ('o, 'r, 'a) repository \<Rightarrow> oid \<Rightarrow> string set" where
  "files_of E R t \<equiv> fst ` nested_files (repo_get E R) 256 t []"

text \<open>
  The condition under which \<open>acc\<close> may move the timeline \<open>t\<close> named \<open>name\<close> to the snapshot \<open>sid\<close>: it may write
  the timeline, every path of the new tree, and every path of the old tree that the new one drops;
  and every hook bound to the repository agrees.
\<close>

definition advance_allowed ::
  "('o, 'r, 'a) repo_env \<Rightarrow> ('o, 'r, 'a) repository \<Rightarrow> ref_name \<Rightarrow> oid \<Rightarrow> accessor \<Rightarrow> timeline \<Rightarrow> bool" where
  "advance_allowed E R name sid acc t \<longleftrightarrow>
     (\<exists>rules sn reg. repo_rules E R = Inr rules \<and>
       can_write acc (label_for_timeline rules two_point name) (ResTimeline name) \<and>
       repo_get E R sid = Inr (Some (OSnapshot sn)) \<and> \<not> too_deep (repo_get E R) 256 (root sn) \<and>
       (\<forall>p \<in> files_of E R (root sn). may_write_path acc two_point rules p) \<and>
       (\<forall>sn0. repo_get E R (tl_head t) = Inr (Some (OSnapshot sn0)) \<longrightarrow> \<not> too_deep (repo_get E R) 256 (root sn0) \<and>
         (\<forall>p \<in> files_of E R (root sn0) - files_of E R (root sn). may_write_path acc two_point rules p)) \<and>
       policy_registry E R = Inr reg \<and>
       (\<forall>h \<in> set reg. ph_check h (repo_context E R (EvAdvance name (tl_head t) sid) acc) = PAllow))"

lemma try_read_Inr: "try_read r f = Inr y \<longleftrightarrow> (\<exists>x. r = Inr x \<and> f x = Inr y)"
  by (cases r) (auto simp: try_read_def)

lemma denied_Inr [simp]: "denied old reason \<noteq> Inr y"
  by (simp add: denied_def)

lemma policy_gate_Inr:
  "policy_gate E R name sid acc t = Inr t' \<longleftrightarrow> t' = t \<and> (\<exists>reg. policy_registry E R = Inr reg \<and>
     (\<forall>h \<in> set reg. ph_check h (repo_context E R (EvAdvance name (tl_head t) sid) acc) = PAllow))"
proof (cases "policy_registry E R")
  case (Inr reg)
  let ?ctx = "repo_context E R (EvAdvance name (tl_head t) sid) acc"
  show ?thesis unfolding policy_gate_def Inr try_read_def
    by (cases "evaluate reg ?ctx") (auto simp: evaluate_Allow [of reg ?ctx, symmetric])
qed (simp add: policy_gate_def try_read_def)

lemma find_None_all: "List.find P xs = None \<longleftrightarrow> (\<forall>x \<in> set xs. \<not> P x)"
  by (auto simp: find_None_iff)

lemma option_case_Inr:
  assumes "\<And>x. f x \<noteq> Inr y"
  shows "(case v of Some x \<Rightarrow> f x | None \<Rightarrow> g) = Inr y \<longleftrightarrow> v = None \<and> g = Inr y"
  using assms by (cases v) auto

lemma option_case_Inl: "(case v of None \<Rightarrow> Inl e | Some x \<Rightarrow> f x) = Inr y \<longleftrightarrow> (\<exists>x. v = Some x \<and> f x = Inr y)"
  by (cases v) auto

lemma removed_gate_timeline: "removed_gate E R name sid acc L rules old paths t = Inr t' \<Longrightarrow> t' = t"
  by (auto simp: removed_gate_def try_read_Inr option_case_Inr policy_gate_Inr)

lemma removed_gate_Inr:
  assumes "readable (repo_get E R)" and "repo_rules E R = Inr rules" and "set (bt_keys paths) = P"
  shows "removed_gate E R name sid acc two_point rules old paths t = Inr t' \<longleftrightarrow>
    (\<forall>sn0. repo_get E R (tl_head t) = Inr (Some (OSnapshot sn0)) \<longrightarrow> \<not> too_deep (repo_get E R) 256 (root sn0) \<and>
       (\<forall>p \<in> files_of E R (root sn0) - P. may_write_path acc two_point rules p)) \<and>
    policy_gate E R name sid acc t = Inr t'"
proof -
  obtain obj where obj: "repo_get E R (tl_head t) = Inr obj" using assms(1) by (auto simp: readable_def)
  have paths: "bt_get paths p = None \<longleftrightarrow> p \<notin> P" for p using assms(3) by (auto simp: map_of_eq_None_iff)
  show ?thesis
  proof (cases "as_snapshot obj")
    case None
    then have "obj \<noteq> Some (OSnapshot sn0)" for sn0 by auto
    with None show ?thesis by (simp add: removed_gate_def obj try_read_def)
  next
    case (Some sn0)
    show ?thesis
    proof (cases "too_deep (repo_get E R) 256 (root sn0)")
      case True
      then show ?thesis using tree_as_map_files [OF assms(1,2), of "root sn0"] Some
        by (simp add: removed_gate_def obj try_read_def)
    next
      case False
      then obtain m where m: "tree_as_map E R (root sn0) = Inr m" "set (bt_keys m) = files_of E R (root sn0)"
        using tree_as_map_files [OF assms(1,2), of "root sn0"] by auto
      have "List.find (\<lambda>p. bt_get paths p = None \<and> \<not> may_write_path acc two_point rules p) (bt_keys m) = None \<longleftrightarrow>
        (\<forall>p \<in> files_of E R (root sn0) - P. may_write_path acc two_point rules p)"
        unfolding find_None_all m(2) paths by blast
      then show ?thesis using False m(1) Some
        by (simp add: removed_gate_def obj try_read_def option_case_Inr)
    qed
  qed
qed

lemma advance_decide_Inr:
  assumes "readable (repo_get E R)" and "get_timeline (env_refs E) (r_refs R) name = Inr (Some t)"
  shows "advance_decide E R name sid expected acc = Inr t' \<longleftrightarrow>
    t' = t \<and> expected \<in> {None, Some (tl_head t)} \<and> advance_allowed E R name sid acc t"
proof (cases "repo_rules E R")
  case (Inl e)
  then show ?thesis by (simp add: advance_decide_def try_read_def get_lattice_def advance_allowed_def)
next
  case (Inr rules)
  note rules = this
  obtain obj where obj: "repo_get E R sid = Inr obj" using assms(1) by (auto simp: readable_def)
  show ?thesis
  proof (cases "as_snapshot obj")
    case None
    then have "obj \<noteq> Some (OSnapshot sn)" for sn by auto
    then have "\<not> advance_allowed E R name sid acc t" by (auto simp: advance_allowed_def obj)
    with None show ?thesis by (auto simp: advance_decide_def try_read_def get_lattice_def rules assms(2) obj denied_def Let_def)
  next
    case (Some sn)
    note walk = walk_all_files [OF assms(1), of "root sn"] walk_privileged [OF repo_rules_acl [OF rules], of "repo_get E R" "root sn"]
    show ?thesis
    proof (cases "too_deep (repo_get E R) 256 (root sn)")
      case True
      with walk have "walk_tree_filtered (repo_get E R) two_point rules (root sn) [] privileged [] = Inl err_depth" by simp
      moreover have "\<not> advance_allowed E R name sid acc t" using True Some obj by (auto simp: advance_allowed_def)
      ultimately show ?thesis using Some
        by (auto simp: advance_decide_def try_read_def get_lattice_def rules assms(2) obj denied_def Let_def)
    next
      case False
      then obtain m where m: "walk_tree_filtered (repo_get E R) two_point rules (root sn) [] privileged [] = Inr m"
        "set (bt_keys m) = files_of E R (root sn)"
        using walk by auto
      have find: "List.find (\<lambda>p. \<not> may_write_path acc two_point rules p) (bt_keys m) = None \<longleftrightarrow>
        (\<forall>p \<in> files_of E R (root sn). may_write_path acc two_point rules p)"
        unfolding find_None_all m(2) by simp
      note gate = removed_gate_Inr [OF assms(1) rules m(2), of name sid acc _ t t']
      have obj_sn: "obj = Some (OSnapshot sn)" using Some by simp
      have allowed: "advance_allowed E R name sid acc t \<longleftrightarrow>
        can_write acc (label_for_timeline rules two_point name) (ResTimeline name) \<and>
        (\<forall>p \<in> files_of E R (root sn). may_write_path acc two_point rules p) \<and>
        (\<forall>sn0. repo_get E R (tl_head t) = Inr (Some (OSnapshot sn0)) \<longrightarrow> \<not> too_deep (repo_get E R) 256 (root sn0) \<and>
           (\<forall>p \<in> files_of E R (root sn0) - files_of E R (root sn). may_write_path acc two_point rules p)) \<and>
        policy_gate E R name sid acc t = Inr t"
        using rules obj obj_sn False unfolding advance_allowed_def policy_gate_Inr by auto
      have gate_t: "policy_gate E R name sid acc t = Inr t' \<longleftrightarrow> t' = t \<and> policy_gate E R name sid acc t = Inr t"
        by (auto simp: policy_gate_Inr)
      show ?thesis unfolding allowed
        by (simp add: advance_decide_def try_read_def get_lattice_def rules assms(2) obj Some m(1) option_case_Inr find gate
            Let_def) (use gate_t in blast)
    qed
  qed
qed

lemma audit_advance_Some:
  "audit_advance R n acc (Some h) sid d =
   R\<lparr>r_audit := map_option (\<lambda>log. log @ [TimelineAdvance n (acc_actor acc) h sid d]) (r_audit R)\<rparr>"
  by (cases R; cases "r_audit R") (auto simp: audit_advance_def)

section \<open>Adopting a policy root\<close>

lemma adopt_Inr:
  assumes "adopt_policy_root E R tip sigs trust = Inr R'"
  shows "\<exists>d current. verify_chain (env_ed E) (repo_get E R) tip sigs trust = Inr (Accept d) \<and>
    rb_get (env_refs E) (r_refs R) POLICY_ROOT_REF = Inr current \<and>
    (current = None \<or> (\<exists>cur offered. current = Some (RTag cur) \<and> chain_of (repo_get E R) tip = Inr offered \<and>
      tag_target cur \<in> set offered)) \<and>
    repo_commit E R [Expect POLICY_ROOT_REF current, SetRef POLICY_ROOT_REF (policy_tag tip)] = Inr R'"
proof -
  obtain v where v: "verify_chain (env_ed E) (repo_get E R) tip sigs trust = Inr v"
    using assms by (auto simp: adopt_policy_root_def bind_res_Inr)
  obtain d where d: "v = Accept d" using assms v by (cases v) (auto simp: adopt_policy_root_def)
  obtain current where cur: "rb_get (env_refs E) (r_refs R) POLICY_ROOT_REF = Inr current"
    using assms v d by (auto simp: adopt_policy_root_def bind_res_Inr valid_name_iff)
  have name: "ref_name_new POLICY_ROOT_REF = Inr POLICY_ROOT_REF"
    using assms v d by (auto simp: adopt_policy_root_def bind_res_Inr valid_name_iff)
  show ?thesis
  proof (cases current)
    case None
    then show ?thesis using assms v d cur name by (simp add: adopt_policy_root_def)
  next
    case (Some r)
    then show ?thesis using assms v d cur name
      by (cases r) (auto simp: adopt_policy_root_def bind_res_Inr split: if_splits)
  qed
qed

section \<open>The stores together\<close>

locale repo_stores =
  st: storage_backend oinv oabst storable "env_objects E" +
  rt: ref_table rinv fits rabst "env_refs E"
  for oinv :: "'o \<Rightarrow> bool" and oabst :: "'o \<Rightarrow> oid \<Rightarrow> bytes option" and storable :: "bytes \<Rightarrow> bool"
    and rinv :: "'r \<Rightarrow> bool" and fits :: "'r \<Rightarrow> ref_name set \<Rightarrow> bool" and rabst :: "'r \<Rightarrow> ref_name \<rightharpoonup> ref"
    and E :: "('o, 'r, 'a) repo_env"
begin

lemma get_timeline_abst:
  assumes "rinv rs" and "fits rs N" and "n \<in> N"
  shows "get_timeline (env_refs E) rs n = (case rabst rs n of
      Some (RTimeline t) \<Rightarrow> Inr (Some t) | Some (RTag _) \<Rightarrow> Inl (err_is_tag n) | None \<Rightarrow> Inr None)"
  using rt.get_law [OF assms] by (simp add: get_timeline_def split: option.split ref.split)

lemma get_timeline_Some:
  assumes "rinv rs" and "fits rs N" and "n \<in> N"
  shows "get_timeline (env_refs E) rs n = Inr (Some t) \<longleftrightarrow> rabst rs n = Some (RTimeline t)"
  by (auto simp: get_timeline_abst [OF assms] split: option.split ref.split)

lemma commit_head:
  assumes "rinv rs" and "fits rs N" and "n \<in> N" and "rabst rs n = Some (RTimeline t)"
  shows "\<exists>rs'. commit_transaction (env_refs E) rs [AdvanceHeadIf n (tl_head t) x] = Inr rs' \<and> rinv rs' \<and> fits rs' N \<and>
    rabst rs' = (rabst rs)(n \<mapsto> RTimeline (t\<lparr>tl_head := x\<rparr>))"
  using rt.commit_refines [OF assms(1,2), of "[AdvanceHeadIf n (tl_head t) x]"] assms(3,4)
  by (simp add: op_effect_def)

lemma commit_set:
  assumes "rinv rs" and "fits rs N" and "n \<in> N" and "commit_transaction (env_refs E) rs [SetRef n r] = Inr rs'"
  shows "rinv rs' \<and> fits rs' N \<and> rabst rs' = (rabst rs)(n \<mapsto> r)"
  using rt.commit_refines [OF assms(1,2), of "[SetRef n r]"] assms(3,4) by (simp add: op_effect_def)

lemma advance_decide_timeline:
  "advance_decide E R name sid expected acc = Inr t \<Longrightarrow> get_timeline (env_refs E) (r_refs R) name = Inr (Some t)"
  unfolding advance_decide_def Let_def
  by (auto simp: try_read_Inr option_case_Inr option_case_Inl dest: removed_gate_timeline split: if_splits)

lemma advance_Inr:
  assumes "rinv (r_refs R)" and "fits (r_refs R) N" and "name \<in> N"
    and "advance_timeline_expecting E R name sid expected acc = (Inr (), R')"
  shows "\<exists>t rs. rabst (r_refs R) name = Some (RTimeline t) \<and> advance_decide E R name sid expected acc = Inr t \<and>
    rinv rs \<and> fits rs N \<and> rabst rs = (rabst (r_refs R))(name \<mapsto> RTimeline (t\<lparr>tl_head := sid\<rparr>)) \<and>
    R' = R\<lparr>r_refs := rs, r_audit := map_option (\<lambda>log. log @
      [TimelineAdvance name (acc_actor acc) (tl_head t) sid AuditAllowed]) (r_audit R)\<rparr>"
proof -
  from assms(4) obtain t R1 where t: "advance_decide E R name sid expected acc = Inr t"
    and R1: "repo_commit E R [AdvanceHeadIf name (tl_head t) sid] = Inr R1"
    and R': "R' = audit_advance R1 name acc (Some (tl_head t)) sid AuditAllowed"
    by (auto simp: advance_timeline_expecting_def split: sum.splits prod.splits option.splits)
  have ab: "rabst (r_refs R) name = Some (RTimeline t)"
    using advance_decide_timeline [OF t] get_timeline_Some [OF assms(1-3)] by blast
  from R1 obtain rs where rs: "commit_transaction (env_refs E) (r_refs R) [AdvanceHeadIf name (tl_head t) sid] = Inr rs"
    and "R1 = R\<lparr>r_refs := rs\<rparr>" by (auto simp: repo_commit_def bind_res_Inr)
  moreover have "rinv rs \<and> fits rs N \<and> rabst rs = (rabst (r_refs R))(name \<mapsto> RTimeline (t\<lparr>tl_head := sid\<rparr>))"
    using commit_head [OF assms(1-3) ab, of sid] rs by auto
  ultimately show ?thesis using t ab R' by (intro exI [of _ t] exI [of _ rs]) (simp add: audit_advance_Some)
qed

lemma advance_iff:
  assumes "rinv (r_refs R)" and "fits (r_refs R) N" and "name \<in> N" and "readable (repo_get E R)"
  shows "(\<exists>R'. advance_timeline_expecting E R name sid expected acc = (Inr (), R')) \<longleftrightarrow>
    (\<exists>t. rabst (r_refs R) name = Some (RTimeline t) \<and> expected \<in> {None, Some (tl_head t)} \<and>
      advance_allowed E R name sid acc t)"
    (is "?L \<longleftrightarrow> ?R")
proof
  assume ?L
  then obtain R' t where t: "rabst (r_refs R) name = Some (RTimeline t)" "advance_decide E R name sid expected acc = Inr t"
    using advance_Inr [OF assms(1-3)] by blast
  then show ?R using advance_decide_Inr [OF assms(4)] get_timeline_Some [OF assms(1-3)] by blast
next
  assume ?R
  then obtain t where t: "rabst (r_refs R) name = Some (RTimeline t)" "expected \<in> {None, Some (tl_head t)}"
    "advance_allowed E R name sid acc t" by blast
  then have dec: "advance_decide E R name sid expected acc = Inr t"
    using advance_decide_Inr [OF assms(4)] get_timeline_Some [OF assms(1-3)] by blast
  obtain rs where "commit_transaction (env_refs E) (r_refs R) [AdvanceHeadIf name (tl_head t) sid] = Inr rs"
    using commit_head [OF assms(1-3) t(1)] by blast
  then show ?L by (simp add: advance_timeline_expecting_def dec repo_commit_def)
qed

end

lemma advance_failure_changes_audit_only:
  assumes "advance_timeline_expecting E R name sid expected acc = (Inl e, R')"
  shows "R' = R\<lparr>r_audit := r_audit R'\<rparr>"
proof (cases "advance_decide E R name sid expected acc")
  case (Inl f)
  then show ?thesis using assms
    by (cases f) (auto simp: advance_timeline_expecting_def audit_advance_def split: option.splits)
next
  case (Inr t)
  then show ?thesis using assms
    by (auto simp: advance_timeline_expecting_def split: sum.splits)
qed

text \<open>
  C1. In a readable repository whose backend can hold the name, a timeline moves exactly when it may: the timeline exists, it is still where the
  caller expects it, the accessor may write the timeline, each path of the new tree and each path the new tree drops, the
  new snapshot is stored, neither its tree nor that of the old head, if this is a stored snapshot, nests 256 deep or more, and every
  policy hook of the repository, among them the built-in one, agrees. There is no other way to succeed, and no other way to be refused.
\<close>

theorem advance_exactly_when_allowed:
  assumes "repo_stores oinv oabst storable rinv fits rabst E"
    and "rinv (r_refs R)" and "fits (r_refs R) {name}" and "readable (repo_get E R)"
  shows "(\<exists>R'. advance_timeline_expecting E R name sid expected acc = (Inr (), R')) \<longleftrightarrow>
    (\<exists>t. rabst (r_refs R) name = Some (RTimeline t) \<and> expected \<in> {None, Some (tl_head t)} \<and>
      advance_allowed E R name sid acc t)"
  using repo_stores.advance_iff [OF assms(1-3) _ assms(4)] by blast

text \<open>
  What a move changes: a successful one sets the head of that timeline and nothing else of any ref,
  object, rule or hook, and appends one record to the audit trail if there is one; a refused one
  changes nothing at all but, possibly, the audit trail.
\<close>

lemma advance_changes:
  assumes "repo_stores oinv oabst storable rinv fits rabst E"
    and "rinv (r_refs R)" and "fits (r_refs R) {name}"
  shows "case advance_timeline_expecting E R name sid expected acc of
      (Inl e, R') \<Rightarrow> R' = R\<lparr>r_audit := r_audit R'\<rparr>
    | (Inr _, R') \<Rightarrow> \<exists>t. rabst (r_refs R) name = Some (RTimeline t) \<and>
        rabst (r_refs R') = (rabst (r_refs R))(name \<mapsto> RTimeline (t\<lparr>tl_head := sid\<rparr>)) \<and>
        R' = R\<lparr>r_refs := r_refs R', r_audit := map_option (\<lambda>log. log @
          [TimelineAdvance name (acc_actor acc) (tl_head t) sid AuditAllowed]) (r_audit R)\<rparr>"
proof -
  obtain r R' where run: "advance_timeline_expecting E R name sid expected acc = (r, R')" by fastforce
  show ?thesis
  proof (cases r)
    case (Inl e)
    with run have "R' = R\<lparr>r_audit := r_audit R'\<rparr>" by (intro advance_failure_changes_audit_only) simp
    then show ?thesis by (simp add: run Inl)
  next
    case (Inr u)
    with run have "advance_timeline_expecting E R name sid expected acc = (Inr (), R')" by simp
    from repo_stores.advance_Inr [OF assms(1-3) singletonI this] show ?thesis
      unfolding run Inr by (elim exE conjE) simp
  qed
qed

section \<open>Steps that keep history\<close>

text \<open>The operations of \<^verbatim>\<open>src/repo/mod.rs\<close> on objects, timelines, policy and hooks.\<close>

inductive repo_step :: "('o, 'r, 'a) repo_env \<Rightarrow> ('o, 'r, 'a) repository \<Rightarrow> ('o, 'r, 'a) repository \<Rightarrow> bool" for E where
  step_put: "repo_put E R obj = Inr (i, R') \<Longrightarrow> repo_step E R R'"
| step_advance: "advance_timeline_expecting E R name sid expected acc = (r, R') \<Longrightarrow> repo_step E R R'"
| step_set_root: "set_policy_root E R pr = Inr (i, R') \<Longrightarrow> repo_step E R R'"
| step_adopt: "adopt_policy_root E R tip sigs trust = Inr R' \<Longrightarrow> repo_step E R R'"
| step_approvers: "set_approvers E R reg = Inr R' \<Longrightarrow> repo_step E R R'"
| step_attest: "add_attestation E R att = Inr (i, R') \<Longrightarrow> repo_step E R R'"
| step_hook: "repo_step E R (register_hook R spec)"

text \<open>The names under which the program keeps its own tags: policy, approvals, signed records and tracked remotes.\<close>

definition reserved :: "ref_name \<Rightarrow> bool" where
  "reserved n \<longleftrightarrow> list_ex (\<lambda>p. starts_with p n)
     [''refs/policy/'', ''refs/attestations/'', ''refs/collab/'', ''refs/proposals/'', ''refs/board/'', ''refs/remotes/'']"

lemma reserved_names: "reserved POLICY_ROOT_REF" "reserved APPROVERS_REF" "reserved (ATTESTATIONS_PREFIX @ x)"
  by (simp_all add: reserved_def starts_with_def POLICY_ROOT_REF_def APPROVERS_REF_def ATTESTATIONS_PREFIX_def)

lemma push_specs_keeps:
  assumes "push_specs ed specs a = Inr b" and "h \<in> set a"
  shows "h \<in> set b"
  by (rule fold_res_invariant [OF assms(1) [unfolded push_specs_def]])
    (use assms(2) in \<open>auto simp: bind_res_Inr registry_push_def\<close>)

lemma policy_registry_builtin:
  assumes "policy_registry E R = Inr reg"
  shows "timeline_policy_hook \<in> set reg"
proof -
  obtain reg0 found where reg0: "push_specs (env_ed E) (r_hooks R) registry_new = Inr reg0"
    "policy_root_of E R = Inr found"
    and reg: "(case found of Some (_, pr) \<Rightarrow> push_specs (env_ed E) (pol_hooks pr) reg0 | None \<Rightarrow> Inr reg0) = Inr reg"
    using assms by (auto simp: policy_registry_def bind_res_Inr)
  have "timeline_policy_hook \<in> set reg0" by (rule push_specs_keeps [OF reg0(1)]) (simp add: registry_new_def)
  then show ?thesis using reg push_specs_keeps by (cases found) auto
qed

lemma advance_allowed_fast_forward:
  assumes "readable (repo_get E R)" and "get_timeline (env_refs E) (r_refs R) name = Inr (Some t)"
    and "advance_allowed E R name sid acc t" and "tl_policy t \<noteq> Unrestricted"
  shows "(sid, tl_head t) \<in> (parent_rel (repo_get E R))\<^sup>*"
proof -
  let ?ctx = "repo_context E R (EvAdvance name (tl_head t) sid) acc"
  obtain reg where "policy_registry E R = Inr reg" "\<forall>h \<in> set reg. ph_check h ?ctx = PAllow"
    using assms(3) unfolding advance_allowed_def by blast
  then have "timeline_policy_check ?ctx = PAllow"
    using policy_registry_builtin [of E R reg] by (auto simp: timeline_policy_hook_def)
  then show ?thesis
    using timeline_check_Allow [of ?ctx name "tl_head t" sid] assms by auto
qed

lemma parent_rel_grows:
  assumes "\<And>j obj. get j = Inr (Some obj) \<Longrightarrow> get' j = Inr (Some obj)"
  shows "parent_rel get \<subseteq> parent_rel get'"
proof
  fix e
  assume "e \<in> parent_rel get"
  then obtain x p found where e: "e = (x, p)" "get x = Inr found" "p \<in> set (snapshot_parents found)"
    by (auto simp: parent_rel_def)
  then obtain obj where "found = Some obj" by (cases found) (auto simp: snapshot_parents_def)
  with e assms show "e \<in> parent_rel get'" by (auto simp: parent_rel_def)
qed

context repo_stores
begin

definition sound :: "('o, 'r, 'a) repository \<Rightarrow> bool" where
  "sound R \<longleftrightarrow> oinv (r_objects R) \<and> rinv (r_refs R) \<and> readable (repo_get E R)"

text \<open>Objects stay, and a timeline that must move forward has moved forward.\<close>

definition evolves :: "('o, 'r, 'a) repository \<Rightarrow> ('o, 'r, 'a) repository \<Rightarrow> bool" where
  "evolves R R' \<longleftrightarrow> sound R' \<and>
     (\<forall>j obj. repo_get E R j = Inr (Some obj) \<longrightarrow> repo_get E R' j = Inr (Some obj)) \<and>
     (\<forall>n t. \<not> reserved n \<longrightarrow> rabst (r_refs R) n = Some (RTimeline t) \<longrightarrow> tl_policy t \<noteq> Unrestricted \<longrightarrow>
        (\<exists>t'. rabst (r_refs R') n = Some (RTimeline t') \<and> tl_policy t' = tl_policy t \<and>
          (tl_head t', tl_head t) \<in> (parent_rel (repo_get E R'))\<^sup>*))"

lemma evolves_trans:
  assumes "evolves R S" and "evolves S T"
  shows "evolves R T"
proof -
  have grow: "parent_rel (repo_get E S) \<subseteq> parent_rel (repo_get E T)"
    using assms(2) by (intro parent_rel_grows) (auto simp: evolves_def)
  have "\<exists>u. rabst (r_refs T) n = Some (RTimeline u) \<and> tl_policy u = tl_policy t \<and>
      (tl_head u, tl_head t) \<in> (parent_rel (repo_get E T))\<^sup>*"
    if n: "\<not> reserved n" "rabst (r_refs R) n = Some (RTimeline t)" "tl_policy t \<noteq> Unrestricted" for n t
  proof -
    obtain s where s: "rabst (r_refs S) n = Some (RTimeline s)" "tl_policy s = tl_policy t"
      "(tl_head s, tl_head t) \<in> (parent_rel (repo_get E S))\<^sup>*"
      using assms(1) n unfolding evolves_def by blast
    obtain u where "rabst (r_refs T) n = Some (RTimeline u)" "tl_policy u = tl_policy s"
      "(tl_head u, tl_head s) \<in> (parent_rel (repo_get E T))\<^sup>*"
      using assms(2) [unfolded evolves_def] n(1,3) s(1,2) by fastforce
    moreover have "(tl_head s, tl_head t) \<in> (parent_rel (repo_get E T))\<^sup>*"
      by (rule subsetD [OF rtrancl_mono [OF grow] s(3)])
    ultimately show ?thesis using s(2) by (intro exI [of _ u] conjI) (simp_all add: rtrancl_trans)
  qed
  moreover have "sound T" "\<forall>j obj. repo_get E R j = Inr (Some obj) \<longrightarrow> repo_get E T j = Inr (Some obj)"
    using assms unfolding evolves_def by simp_all
  ultimately show ?thesis unfolding evolves_def by blast
qed

lemma evolves_same_refs:
  assumes "sound R'" and "rabst (r_refs R') = rabst (r_refs R)"
    and "\<And>j obj. repo_get E R j = Inr (Some obj) \<Longrightarrow> repo_get E R' j = Inr (Some obj)"
  shows "evolves R R'"
  using assms unfolding evolves_def by auto

lemma evolves_reserved:
  assumes "sound R" and "r_objects R' = r_objects R" and "rinv (r_refs R')"
    and "rabst (r_refs R') = (rabst (r_refs R))(m \<mapsto> v)" and "reserved m"
  shows "evolves R R'"
proof -
  have "n \<noteq> m" if "\<not> reserved n" for n using that assms(5) by blast
  with assms show ?thesis unfolding evolves_def sound_def by auto
qed

lemma put_evolves:
  assumes "sound R" and "\<And>data. storable data" and "ocodec_ok (env_codec E)" and "repo_put E R obj = Inr (i, R')"
  shows "evolves R R'"
proof -
  let ?C = "env_codec E"
  from assms(4) obtain s' where put: "ost_put (env_objects E) ?C (r_objects R) obj = Inr (i, s')" and R': "R' = R\<lparr>r_objects := s'\<rparr>"
    by (auto simp: repo_put_def bind_res_Inr)
  from put obtain data where data: "serialize ?C obj = Inr data" by (auto simp: ost_put_def bind_res_Inr)
  note res = st.put_raw_result [OF _ assms(2) put [unfolded st.ost_put_raw [OF data]]]
  have inv: "oinv (r_objects R)" using assms(1) by (simp add: sound_def)
  have le: "oabst (r_objects R) \<subseteq>\<^sub>m oabst s'" using res(3) [OF inv] by (auto simp: map_le_def)
  have keep: "repo_get E R' j = Inr (Some ob)" if "repo_get E R j = Inr (Some ob)" for j ob
    using st.ost_get_mono [OF inv res(2) [OF inv] le that] R' by simp
  have "\<exists>found. repo_get E R' j = Inr found" for j
  proof (cases "oabst (r_objects R) j = oabst s' j")
    case True
    then have "repo_get E R' j = repo_get E R j"
      using st.get_law [OF inv] st.get_law [OF res(2) [OF inv]] R' by (simp add: ost_get_def)
    then show ?thesis using assms(1) by (simp add: sound_def readable_def)
  next
    case False
    then have "oabst s' j = Some data" using res(3) [OF inv] by (auto split: if_splits)
    then show ?thesis using serialize_deserialize [OF assms(3) data] st.get_law [OF res(2) [OF inv]] R'
      by (simp add: ost_get_def)
  qed
  then have "readable (repo_get E R')" by (simp add: readable_def)
  then show ?thesis using keep res(2) [OF inv] assms(1) R' by (intro evolves_same_refs) (auto simp: sound_def)
qed

lemma commit_expect_set:
  assumes "rinv rs" and "fits rs {n}" and "commit_transaction (env_refs E) rs [Expect n c, SetRef n r] = Inr rs'"
  shows "rabst rs n = c \<and> rinv rs' \<and> fits rs' {n} \<and> rabst rs' = (rabst rs)(n \<mapsto> r)"
  using rt.commit_refines [OF assms(1,2), of "[Expect n c, SetRef n r]"] assms(3)
  by (simp add: op_effect_def split: if_splits)

lemma set_evolves:
  assumes "sound R" and "fits (r_refs R) {m}" and "repo_commit E R [SetRef m v] = Inr R'" and "reserved m"
  shows "evolves R R'"
proof -
  obtain rs where rs: "commit_transaction (env_refs E) (r_refs R) [SetRef m v] = Inr rs" "R' = R\<lparr>r_refs := rs\<rparr>"
    using assms(3) by (auto simp: repo_commit_def bind_res_Inr)
  then have "rinv rs \<and> rabst rs = (rabst (r_refs R))(m \<mapsto> v)"
    using commit_set [OF _ assms(2) _ rs(1)] assms(1) by (simp add: sound_def)
  with rs(2) show ?thesis by (intro evolves_reserved [OF assms(1) _ _ _ assms(4)]) auto
qed

lemma advance_evolves:
  assumes "sound R" and "fits (r_refs R) {name}" and "advance_timeline_expecting E R name sid expected acc = (r, R')"
  shows "evolves R R'"
proof (cases r)
  case (Inl e)
  then obtain log where "R' = R\<lparr>r_audit := log\<rparr>" using assms(3) advance_failure_changes_audit_only by blast
  with assms(1) show ?thesis by (intro evolves_same_refs) (simp_all add: sound_def)
next
  case (Inr u)
  have inv: "rinv (r_refs R)" "readable (repo_get E R)" "oinv (r_objects R)" using assms(1) by (simp_all add: sound_def)
  have run: "advance_timeline_expecting E R name sid expected acc = (Inr (), R')" using assms(3) Inr by simp
  obtain t rs log where t: "rabst (r_refs R) name = Some (RTimeline t)"
    "rinv rs" "rabst rs = (rabst (r_refs R))(name \<mapsto> RTimeline (t\<lparr>tl_head := sid\<rparr>))"
    "R' = R\<lparr>r_refs := rs, r_audit := log\<rparr>"
    using advance_Inr [OF inv(1) assms(2) singletonI run] by blast
  have "\<exists>t. rabst (r_refs R) name = Some (RTimeline t) \<and> expected \<in> {None, Some (tl_head t)} \<and> advance_allowed E R name sid acc t"
    by (rule advance_iff [OF inv(1) assms(2) singletonI inv(2), THEN iffD1]) (rule exI, rule run)
  then have "advance_allowed E R name sid acc t" using t(1) by (elim exE conjE) simp
  then have "(sid, tl_head t) \<in> (parent_rel (repo_get E R))\<^sup>*" if "tl_policy t \<noteq> Unrestricted"
    using advance_allowed_fast_forward [OF inv(2) _ _ that] get_timeline_Some [OF inv(1) assms(2)] t(1) by blast
  then show ?thesis using inv t unfolding evolves_def sound_def by auto
qed

lemma step_evolves:
  assumes "sound R" and "\<And>data. storable data" and "\<And>rs N. fits rs N" and "ocodec_ok (env_codec E)"
    and "repo_step E R R'"
  shows "evolves R R'"
  using assms(5)
proof cases
  case (step_put obj i)
  then show ?thesis using put_evolves [OF assms(1,2,4)] by blast
next
  case (step_advance name sid expected acc r)
  then show ?thesis using advance_evolves [OF assms(1,3)] by blast
next
  case (step_set_root pr i)
  then obtain R1 where R1: "repo_put E R (OPolicy (PRoot pr)) = Inr (i, R1)"
    "repo_commit E R1 [SetRef POLICY_ROOT_REF (policy_tag i)] = Inr R'"
    by (auto simp: set_policy_root_def bind_res_Inr valid_name_iff)
  have "evolves R R1" using put_evolves [OF assms(1,2,4) R1(1)] .
  moreover from this have "evolves R1 R'"
    using set_evolves [OF _ assms(3) R1(2)] by (auto simp: evolves_def reserved_names)
  ultimately show ?thesis by (rule evolves_trans)
next
  case (step_adopt tip sigs trust)
  then obtain current where "repo_commit E R [Expect POLICY_ROOT_REF current, SetRef POLICY_ROOT_REF (policy_tag tip)] = Inr R'"
    using adopt_Inr by blast
  then obtain rs where "commit_transaction (env_refs E) (r_refs R)
      [Expect POLICY_ROOT_REF current, SetRef POLICY_ROOT_REF (policy_tag tip)] = Inr rs" "R' = R\<lparr>r_refs := rs\<rparr>"
    by (auto simp: repo_commit_def bind_res_Inr)
  with commit_expect_set [OF _ assms(3)] assms(1) show ?thesis
    by (intro evolves_reserved [where m = POLICY_ROOT_REF]) (auto simp: sound_def reserved_names)
next
  case (step_approvers reg)
  then obtain i R1 where R1: "repo_put E R (OPolicy (PApprovers reg)) = Inr (i, R1)"
    "repo_commit E R1 [SetRef APPROVERS_REF (policy_tag i)] = Inr R'"
    by (auto simp: set_approvers_def bind_res_Inr valid_name_iff)
  have "evolves R R1" using put_evolves [OF assms(1,2,4) R1(1)] .
  moreover from this have "evolves R1 R'"
    using set_evolves [OF _ assms(3) R1(2)] by (auto simp: evolves_def reserved_names)
  ultimately show ?thesis by (rule evolves_trans)
next
  case (step_attest att i)
  then obtain R1 where R1: "repo_put E R (OPolicy (PAttestation att)) = Inr (i, R1)"
    "repo_commit E R1 [SetRef (ATTESTATIONS_PREFIX @ oid_display i) (policy_tag i)] = Inr R'"
    by (auto simp: add_attestation_def bind_res_Inr valid_name_iff)
  have "evolves R R1" using put_evolves [OF assms(1,2,4) R1(1)] .
  moreover from this have "evolves R1 R'"
    using set_evolves [OF _ assms(3) R1(2)] by (auto simp: evolves_def reserved_names)
  ultimately show ?thesis by (rule evolves_trans)
next
  case (step_hook spec)
  then show ?thesis using assms(1) by (intro evolves_same_refs) (auto simp: sound_def register_hook_def)
qed

lemma steps_evolve:
  assumes "sound R" and "\<And>data. storable data" and "\<And>rs N. fits rs N" and "ocodec_ok (env_codec E)"
    and "(repo_step E)\<^sup>*\<^sup>* R R'"
  shows "evolves R R'"
  using assms(5)
proof (induction rule: rtranclp_induct)
  case base
  then show ?case using assms(1) by (intro evolves_same_refs) auto
next
  case (step S T)
  then have "sound S" by (simp add: evolves_def)
  from step_evolves [OF this assms(2-4) step.hyps(2)] step.IH show ?case by (blast intro: evolves_trans)
qed

end

section \<open>The in-memory repository\<close>

definition memory_env :: "ocodec \<Rightarrow> ed25519 \<Rightarrow> (mem_store, mem_refs, mem_acl) repo_env" where
  "memory_env C ed = \<lparr>env_objects = memory_backend, env_codec = C, env_refs = memory_refs,
     env_acls = mem_acl_backend, env_ed = ed\<rparr>"

lemma memory_env_simps [simp]:
  "env_objects (memory_env C ed) = memory_backend" "env_codec (memory_env C ed) = C"
  "env_refs (memory_env C ed) = memory_refs" "env_acls (memory_env C ed) = mem_acl_backend" "env_ed (memory_env C ed) = ed"
  by (simp_all add: memory_env_def)

interpretation memrepo: repo_stores mem_inv map_of "\<lambda>_. True" mr_inv "\<lambda>_ _. True" map_of "memory_env C ed" for C ed
  unfolding repo_stores_def memory_env_simps using memst.storage_backend_axioms memrefs.ref_table_axioms by simp

section \<open>An instance\<close>

text \<open>Two snapshots of an empty tree, and a fast-forward timeline at the first.\<close>

definition demo_objects :: "object list" where
  "demo_objects = [OTree \<lparr>entries = []\<rparr>,
     OSnapshot \<lparr>root = 0, parents = [], author = ''a'', created_at = 0, message = ''one''\<rparr>,
     OSnapshot \<lparr>root = 0, parents = [1], author = ''a'', created_at = 1, message = ''two''\<rparr>]"

definition demo_repo :: "(mem_store, mem_refs, mem_acl) repository" where
  "demo_repo = memory_repo\<lparr>r_objects := [(0, [0]), (1, [1]), (2, [2])],
     r_refs := [(''main'', RTimeline \<lparr>tl_head = 1, tl_policy = FastForwardOnly, tl_created_at = 0,
       tl_kind = ''persistent'', tl_expires_at = None\<rparr>)], r_audit := Some []\<rparr>"

definition writer :: accessor where
  "writer = with_timeline_role accessor_new \<lparr>tr_pattern = ''main'', tr_permission = PermWrite\<rparr>"

abbreviation demo_env :: "(mem_store, mem_refs, mem_acl) repo_env" where
  "demo_env \<equiv> memory_env (table_codec demo_objects) plain_scheme"

lemma readable_memory:
  assumes "list_all (\<lambda>(i, d). \<not> isl (deserialize C d)) s"
  shows "readable (ost_get memory_backend C s)"
proof -
  have "\<exists>found. ost_get memory_backend C s i = Inr found" for i
  proof (cases "map_of s i")
    case (Some d)
    with assms have "\<not> isl (deserialize C d)" by (auto simp: list_all_iff dest!: map_of_SomeD)
    with Some show ?thesis
      by (cases "deserialize C d") (auto simp: ost_get_def memory_backend_def mem_get_def)
  qed (simp add: ost_get_def memory_backend_def mem_get_def)
  then show ?thesis by (simp add: readable_def)
qed

lemma demo_good:
  "mem_inv (r_objects demo_repo)" "mr_inv (r_refs demo_repo)" "readable (repo_get demo_env demo_repo)"
  subgoal by (simp add: mem_inv_def demo_repo_def)
  subgoal by (simp add: mr_inv_def demo_repo_def)
  subgoal unfolding memory_env_simps by (rule readable_memory) code_simp
  done

lemma demo_runs: "fst (advance_timeline_expecting demo_env demo_repo ''main'' 2 None writer) = Inr ()"
  by code_simp

lemma demo_stores: "repo_stores mem_inv map_of (\<lambda>_. True) mr_inv (\<lambda>_ _. True) map_of demo_env"
  by (rule memrepo.repo_stores_axioms)

theorem advance_exactly_when_allowed_witness:
  "\<exists>t. map_of (r_refs demo_repo) ''main'' = Some (RTimeline t) \<and> advance_allowed demo_env demo_repo ''main'' 2 writer t"
proof -
  have "\<exists>R'. advance_timeline_expecting demo_env demo_repo ''main'' 2 None writer = (Inr (), R')"
    using demo_runs by (metis prod.collapse)
  then show ?thesis
    using advance_exactly_when_allowed [OF demo_stores demo_good(2) TrueI demo_good(3), where sid = 2 and expected = None and acc = writer] by blast
qed

end
