(* ===== verification/Repository_Views.thy ===== *)
theory Repository_Views
  imports Repository_Laws
begin

text \<open>
  What a repository shows and keeps: the refs it serves, the paths an accessor sees and the explanations
  it gets, the merges it lets through, the policy root it adopts, and what its collector removes.
\<close>

section \<open>Served refs\<close>

context repo_stores
begin

lemma served_lookup:
  assumes "rinv (r_refs R)" and "fits (r_refs R) N" and "name \<in> N" and "list_refs_served E R [] acc = Inr names"
  shows "ref_served E R name acc = Inr (name \<in> set names)"
proof -
  obtain ns where ns: "rb_list (env_refs E) (r_refs R) [] = Inr ns" "set ns = dom (rabst (r_refs R))"
    using rt.list_law [OF assms(1), of "[]"] by (auto simp: starts_with_def)
  obtain rules where rules: "repo_rules E R = Inr rules"
    using assms(4) by (auto simp: list_refs_served_def list_refs_filtered_def bind_res_Inr)
  have names: "set names = {n \<in> dom (rabst (r_refs R)). timeline_readable_with two_point rules n acc \<and>
      \<not> starts_with COLLAB_SCOPED_PREFIX n}"
    using assms(4) ns rules by (auto simp: list_refs_served_def list_refs_filtered_def get_lattice_def)
  show ?thesis
    using rt.get_law [OF assms(1-3)] by (auto simp: ref_served_def rules get_lattice_def Let_def names)
qed

lemma adopt_effect:
  assumes "rinv (r_refs R)" and "fits (r_refs R) {POLICY_ROOT_REF}" and "adopt_policy_root E R tip sigs trust = Inr R'"
  shows "\<exists>chain rs. root_path (repo_get E R) tip chain \<and>
    list_all (trusted_root (env_ed E) (repo_get E R) sigs trust) chain \<and> R' = R\<lparr>r_refs := rs\<rparr> \<and>
    rabst rs = (rabst (r_refs R))(POLICY_ROOT_REF \<mapsto> policy_tag tip) \<and>
    (case rabst (r_refs R) POLICY_ROOT_REF of
       None \<Rightarrow> True | Some (RTag cur) \<Rightarrow> tag_target cur \<in> set chain | Some (RTimeline _) \<Rightarrow> False)"
proof -
  obtain d current where v: "verify_chain (env_ed E) (repo_get E R) tip sigs trust = Inr (Accept d)"
    and cur: "rb_get (env_refs E) (r_refs R) POLICY_ROOT_REF = Inr current"
    and ff: "current = None \<or> (\<exists>cur offered. current = Some (RTag cur) \<and> chain_of (repo_get E R) tip = Inr offered \<and>
      tag_target cur \<in> set offered)"
    and com: "repo_commit E R [Expect POLICY_ROOT_REF current, SetRef POLICY_ROOT_REF (policy_tag tip)] = Inr R'"
    using adopt_Inr [OF assms(3)] by blast
  obtain chain where chain: "root_path (repo_get E R) tip chain"
    "list_all (trusted_root (env_ed E) (repo_get E R) sigs trust) chain"
    using v unfolding verify_chain_Accept by blast
  obtain rs where rs: "commit_transaction (env_refs E) (r_refs R)
      [Expect POLICY_ROOT_REF current, SetRef POLICY_ROOT_REF (policy_tag tip)] = Inr rs" "R' = R\<lparr>r_refs := rs\<rparr>"
    using com by (auto simp: repo_commit_def bind_res_Inr)
  note eff = commit_expect_set [OF assms(1,2) rs(1)]
  have "case current of None \<Rightarrow> True | Some (RTag cur) \<Rightarrow> tag_target cur \<in> set chain | Some (RTimeline _) \<Rightarrow> False"
    using ff root_path_det [OF chain(1)] by (auto simp: chain_of_iff)
  then show ?thesis using chain rs(2) eff by (intro exI [of _ chain] exI [of _ rs]) auto
qed

end

text \<open>
  The point lookup of a served ref and the listing of served refs agree for every name and accessor:
  a name is listed exactly when the lookup says it is served, so nothing hidden from the listing can be
  had by asking for it.
\<close>

lemma served_lookup_agrees:
  assumes "repo_stores oinv oabst storable rinv fits rabst E"
    and "rinv (r_refs R)" and "fits (r_refs R) {name}" and "list_refs_served E R [] acc = Inr names"
  shows "ref_served E R name acc = Inr (name \<in> set names)"
  by (rule repo_stores.served_lookup [OF assms(1-3) singletonI assms(4)])

section \<open>Views and explanations\<close>

lemma tree_as_map_walk:
  assumes "repo_rules E R = Inr rules"
  shows "tree_as_map E R t = walk_loop (repo_get E R) (\<lambda>_. True) [(t, [], 0)] []"
  using walk_privileged [OF repo_rules_acl [OF assms]] by (simp add: tree_as_map_def get_lattice_def assms)

lemma filtered_view:
  assumes "get_snapshot_filtered E R i acc = Inr (Some f)"
  shows "\<exists>sn rules m. repo_get E R i = Inr (Some (OSnapshot sn)) \<and> repo_rules E R = Inr rules \<and>
    tree_as_map E R (root sn) = Inr m \<and> visible_paths f = only (path_visible two_point rules acc) m"
proof -
  obtain obj where obj: "repo_get E R i = Inr obj" using assms by (auto simp: get_snapshot_filtered_def bind_res_Inr)
  obtain sn where sn: "as_snapshot obj = Some sn" using assms obj
    by (cases "as_snapshot obj") (auto simp: get_snapshot_filtered_def)
  obtain rules paths where r: "repo_rules E R = Inr rules"
    "walk_tree_filtered (repo_get E R) two_point rules (root sn) [] acc [] = Inr paths" "visible_paths f = paths"
    using assms obj sn by (auto simp: get_snapshot_filtered_def get_lattice_def bind_res_Inr)
  then obtain m where "walk_loop (repo_get E R) (\<lambda>_. True) [(root sn, [], 0)] [] = Inr m"
    "paths = only (path_visible two_point rules acc) m"
    unfolding walk_tree_filtered_only by (auto simp: bind_res_Inr)
  then show ?thesis using obj sn r(1,3) tree_as_map_walk [OF r(1)] by auto
qed

lemma only_get: "bt_get (only vis m) p = (if vis p then bt_get m p else None)"
  by (induction m) auto

text \<open>
  Explanations tell the truth: a path is in the filtered view of a snapshot exactly when its explanation
  says that the path is present and readable, and the explained write verdict is the check that moving a
  timeline makes on that path.
\<close>

lemma explanation_matches_view:
  assumes "get_snapshot_filtered E R i acc = Inr (Some f)" and "explain_path E R acc i p = Inr x"
  shows "(bt_get (visible_paths f) p \<noteq> None \<longleftrightarrow> ax_present x \<and> d_allowed (ax_read x)) \<and>
    (\<exists>rules. repo_rules E R = Inr rules \<and> (d_allowed (ax_write x) \<longleftrightarrow> may_write_path acc two_point rules p))"
proof -
  obtain sn rules m where f: "repo_get E R i = Inr (Some (OSnapshot sn))" "repo_rules E R = Inr rules"
    "tree_as_map E R (root sn) = Inr m" "visible_paths f = only (path_visible two_point rules acc) m"
    using filtered_view [OF assms(1)] by blast
  let ?l = "label_for_path rules two_point p"
  have x: "ax_present x \<longleftrightarrow> bt_get m p \<noteq> None"
    "ax_read x = read_decision two_point ?l (eval_cap acc ?l (ResPath p) READ)"
    "ax_write x = write_decision ?l (eval_cap acc ?l (ResPath p) WRITE)"
    using assms(2) f by (auto simp: explain_path_def get_lattice_def Let_def explain_def)
  have "d_allowed (ax_read x) \<longleftrightarrow> path_visible two_point rules acc p"
    by (simp add: x(2) read_decision_def path_visible_def Let_def eval_cap_allowed)
  moreover have "d_allowed (ax_write x) \<longleftrightarrow> may_write_path acc two_point rules p"
    by (simp add: x(3) write_decision_def may_write_path_def eval_cap_allowed)
  ultimately show ?thesis using f(2,4) x(1) by (simp add: only_get)
qed

section \<open>Merges\<close>

lemma set_leaking:
  "set (leaking_acls L rules dest paths acls) = {} \<longleftrightarrow> (\<forall>acl \<in> set acls. \<not> leaks L rules dest paths acl)"
proof -
  let ?step = "\<lambda>acl leaking. if leaks L rules dest paths acl \<and> \<not> list_ex (\<lambda>l. pa_glob l = pa_glob acl) leaking
       then leaking @ [acl] else leaking"
  have "fold ?step acls out = [] \<longleftrightarrow> out = [] \<and> (\<forall>acl \<in> set acls. \<not> leaks L rules dest paths acl)" for out
    by (induction acls arbitrary: out) auto
  then show ?thesis by (simp add: leaking_acls_def)
qed

text \<open>Every path rule of a repository comes from a path ACL.\<close>

lemma path_rule_acl:
  assumes "get_label_ruleset B s = Inr rules" and "be_list_path_acls B s = Inr acls" and "path_matched rules p"
  shows "\<exists>acl \<in> set acls. glob_matches (pa_glob acl) p"
  using assms by (auto simp: get_label_ruleset_def bind_res_Inr path_matched_def)

lemma foldl_invariant: "P a \<Longrightarrow> (\<And>x b. x \<in> set xs \<Longrightarrow> P b \<Longrightarrow> P (f b x)) \<Longrightarrow> P (foldl f a xs)"
  by (induction xs arbitrary: a) auto

lemma timeline_label_two_point:
  assumes "acl_rules rules"
  shows "label_for_timeline rules two_point n \<in> {label_public, label_protected}"
  unfolding label_for_timeline_def
  by (rule foldl_invariant) (use assms in \<open>auto simp: acl_rules_def two_point_facts split: label_rule.splits\<close>)

lemma public_least: "acl_rules rules \<Longrightarrow> dominates two_point (label_for_timeline rules two_point n) label_public"
  using timeline_label_two_point [of rules n] by (auto simp: two_point_facts)

lemma check_merge_Allowed:
  assumes "check_merge E R source dest acc = Inr McAllowed"
  shows "\<exists>t sn rules paths acls reg. get_timeline (env_refs E) (r_refs R) source = Inr (Some t) \<and>
    repo_get E R (tl_head t) = Inr (Some (OSnapshot sn)) \<and> repo_rules E R = Inr rules \<and>
    walk_tree_filtered (repo_get E R) two_point rules (root sn) [] privileged [] = Inr paths \<and>
    be_list_path_acls (env_acls E) (r_acls R) = Inr acls \<and>
    leaking_acls two_point rules (label_for_timeline rules two_point dest) paths acls = [] \<and>
    policy_registry E R = Inr reg \<and>
    evaluate reg (repo_context E R (EvMerge source dest (tl_head t) (tl_head t)) acc) = PAllow"
proof -
  obtain found where found: "get_timeline (env_refs E) (r_refs R) source = Inr found"
    using assms by (auto simp: check_merge_def bind_res_Inr)
  obtain t where t: "found = Some t" using assms found by (cases found) (auto simp: check_merge_def)
  obtain obj where obj: "repo_get E R (tl_head t) = Inr obj"
    using assms found t by (auto simp: check_merge_def bind_res_Inr)
  obtain sn where sn: "as_snapshot obj = Some sn"
    using assms found t obj by (cases "as_snapshot obj") (auto simp: check_merge_def)
  obtain rules paths acls reg where r: "repo_rules E R = Inr rules"
    "walk_tree_filtered (repo_get E R) two_point rules (root sn) [] privileged [] = Inr paths"
    "be_list_path_acls (env_acls E) (r_acls R) = Inr acls" "policy_registry E R = Inr reg"
    using assms found t obj sn by (auto simp: check_merge_def get_lattice_def Let_def bind_res_Inr)
  let ?leaking = "leaking_acls two_point rules (label_for_timeline rules two_point dest) paths acls"
  let ?d = "evaluate reg (repo_context E R (EvMerge source dest (tl_head t) (tl_head t)) acc)"
  have "?leaking = [] \<and> ?d = PAllow"
    using assms found t obj sn r
    by (cases ?d) (auto simp: check_merge_def get_lattice_def Let_def split: if_splits)
  then show ?thesis using found t obj sn r by auto
qed

text \<open>
  C6. A merge that is let through leaks nothing: every file of the source head carries a label that the
  label of the destination timeline dominates, so no protected content flows to an unprotected
  timeline, and every policy hook has agreed to the merge.
\<close>

theorem allowed_merge_leaks_nothing:
  assumes "readable (repo_get E R)" and "check_merge E R source dest acc = Inr McAllowed"
  shows "\<exists>t sn rules reg. get_timeline (env_refs E) (r_refs R) source = Inr (Some t) \<and>
    repo_get E R (tl_head t) = Inr (Some (OSnapshot sn)) \<and> repo_rules E R = Inr rules \<and>
    (\<forall>p \<in> files_of E R (root sn). dominates two_point (label_for_timeline rules two_point dest) (label_for_path rules two_point p)) \<and>
    policy_registry E R = Inr reg \<and>
    (\<forall>h \<in> set reg. ph_check h (repo_context E R (EvMerge source dest (tl_head t) (tl_head t)) acc) = PAllow)"
proof -
  from check_merge_Allowed [OF assms(2)] obtain t sn rules paths acls reg where
    c: "get_timeline (env_refs E) (r_refs R) source = Inr (Some t)" "repo_get E R (tl_head t) = Inr (Some (OSnapshot sn))"
    "repo_rules E R = Inr rules" "walk_tree_filtered (repo_get E R) two_point rules (root sn) [] privileged [] = Inr paths"
    "be_list_path_acls (env_acls E) (r_acls R) = Inr acls"
    "leaking_acls two_point rules (label_for_timeline rules two_point dest) paths acls = []"
    "policy_registry E R = Inr reg" "evaluate reg (repo_context E R (EvMerge source dest (tl_head t) (tl_head t)) acc) = PAllow"
    by blast
  note acl = repo_rules_acl [OF c(3)]
  have keys: "set (bt_keys paths) = files_of E R (root sn)"
    using walk_all_files [OF assms(1), of "root sn"] c(4) walk_privileged [OF acl] by (auto split: if_splits)
  have "dominates two_point (label_for_timeline rules two_point dest) (label_for_path rules two_point p)"
    if p: "p \<in> files_of E R (root sn)" for p
  proof (cases "path_matched rules p")
    case True
    then obtain a where "a \<in> set acls" "glob_matches (pa_glob a) p" using path_rule_acl [OF c(3,5)] by blast
    moreover have "\<not> leaks two_point rules (label_for_timeline rules two_point dest) paths a"
      using c(6) set_leaking calculation(1) by (metis set_empty)
    moreover have "p \<in> set (bt_keys paths)" using p keys by simp
    ultimately show ?thesis by (auto simp: leaks_def list_ex_iff)
  next
    case False
    then show ?thesis using acl by (simp add: label_for_path_two_point public_least)
  qed
  then show ?thesis using c(1-3,7,8) by (auto simp: evaluate_Allow)
qed

section \<open>The pinned policy\<close>

text \<open>
  Adopting a policy root never rolls governance back: an adoption that succeeds pins a tip whose whole
  parent chain is stored, known and signed by trust anchors, the root pinned before lies on that chain,
  and no other ref, object or rule changes.
\<close>

lemma adoption_moves_forward:
  assumes "repo_stores oinv oabst storable rinv fits rabst E"
    and "rinv (r_refs R)" and "fits (r_refs R) {POLICY_ROOT_REF}" and "adopt_policy_root E R tip sigs trust = Inr R'"
  shows "\<exists>chain rs. root_path (repo_get E R) tip chain \<and>
    list_all (trusted_root (env_ed E) (repo_get E R) sigs trust) chain \<and> R' = R\<lparr>r_refs := rs\<rparr> \<and>
    rabst rs = (rabst (r_refs R))(POLICY_ROOT_REF \<mapsto> policy_tag tip) \<and>
    (case rabst (r_refs R) POLICY_ROOT_REF of
       None \<Rightarrow> True | Some (RTag cur) \<Rightarrow> tag_target cur \<in> set chain | Some (RTimeline _) \<Rightarrow> False)"
  by (rule repo_stores.adopt_effect [OF assms])

section \<open>Collection\<close>

lemma gc_roots_memory:
  assumes "mr_inv (r_refs R)"
  shows "\<exists>roots. gc_roots (memory_env C ed) R extra = Inr roots \<and>
    set roots = set extra \<union> ref_target ` ran (map_of (r_refs R))"
proof -
  let ?f = "\<lambda>name roots. bind_res (rb_get memory_refs (r_refs R) name) (\<lambda>cur. case cur of
      Some r \<Rightarrow> Inr (roots @ [ref_target r]) | None \<Rightarrow> Inr roots)"
  have step: "?f n roots = Inr (roots @ (case map_of (r_refs R) n of Some r \<Rightarrow> [ref_target r] | None \<Rightarrow> []))" for n roots
    by (simp add: memory_refs_def mr_get_def split: option.split)
  have "fold_res ?f ns roots = Inr (roots @ concat (map (\<lambda>n. case map_of (r_refs R) n of Some r \<Rightarrow> [ref_target r] | None \<Rightarrow> []) ns))" for ns roots
    by (induction ns arbitrary: roots) (simp_all add: step)
  moreover obtain ns where ns: "rb_list memory_refs (r_refs R) [] = Inr ns" "set ns = dom (map_of (r_refs R))"
    using memrefs.list_law [OF assms, of "[]"] by (auto simp: starts_with_def)
  moreover have "set (concat (map (\<lambda>n. case map_of (r_refs R) n of Some r \<Rightarrow> [ref_target r] | None \<Rightarrow> []) ns)) =
      ref_target ` ran (map_of (r_refs R))"
    unfolding set_concat set_map ns(2) by (force simp: ran_def split: option.splits)
  ultimately show ?thesis by (simp add: gc_roots_def)
qed

abbreviation live :: "ocodec \<Rightarrow> ed25519 \<Rightarrow> (mem_store, mem_refs, mem_acl) repository \<Rightarrow> oid list \<Rightarrow> oid set" where
  "live C ed R extra \<equiv> (mark_rel (repo_get (memory_env C ed) R))\<^sup>* `` (set extra \<union> ref_target ` ran (map_of (r_refs R)))"

text \<open>
  C31. Collection of a readable repository in memory removes exactly the garbage: it always succeeds, an object that snapshot, tree and overlay
  edges reach from a ref or an extra root reads as before, every other object is gone, no ref changes,
  and the count returned is the one the dry run had announced.
\<close>

theorem gc_exact:
  assumes "mem_inv (r_objects R)" and "mr_inv (r_refs R)" and "readable (repo_get (memory_env C ed) R)"
  shows "\<exists>n R'. gc (memory_env C ed) R extra grace now = Inr (of_nat n, R') \<and>
    unreachable_object_count (memory_env C ed) R extra = Inr n \<and> r_refs R' = r_refs R \<and>
    (\<forall>i. repo_get (memory_env C ed) R' i = (if i \<in> live C ed R extra then repo_get (memory_env C ed) R i else Inr None))"
proof -
  let ?E = "memory_env C ed" and ?K = "live C ed R extra" and ?s = "r_objects R"
  obtain roots where roots: "gc_roots ?E R extra = Inr roots" "set roots = set extra \<union> ref_target ` ran (map_of (r_refs R))"
    using gc_roots_memory [OF assms(2)] by blast
  have mark: "mark_reachable (repo_get ?E R) roots = Inr ?K"
    using mark_reachable_correct [OF assms(3), of roots] unfolding roots(2) .
  obtain s' where s': "sb_sweep memory_backend ?s ?K grace now = Inr (of_nat (card (dom (map_of ?s) - ?K)), s')"
    "mem_inv s'" "map_of s' = map_of ?s |` ?K"
    using mem_sweep [OF assms(1)] by blast
  have gc: "gc ?E R extra grace now = Inr (of_nat (card (dom (map_of ?s) - ?K)), R\<lparr>r_objects := s'\<rparr>)"
    using roots(1) mark s'(1) by (simp add: gc_def)
  obtain ids where ids: "sb_list memory_backend ?s = Inr ids" "distinct ids" "set ids = dom (map_of ?s)"
    using memst.list_law [OF assms(1)] by blast
  have "length (filter (\<lambda>i. i \<notin> ?K) ids) = card (set (filter (\<lambda>i. i \<notin> ?K) ids))"
    by (rule distinct_card [symmetric]) (simp add: ids(2))
  moreover have "set (filter (\<lambda>i. i \<notin> ?K) ids) = dom (map_of ?s) - ?K" using ids(3) by auto
  ultimately have count: "unreachable_object_count ?E R extra = Inr (card (dom (map_of ?s) - ?K))"
    using roots(1) mark ids(1) by (simp add: unreachable_object_count_def)
  have "repo_get ?E (R\<lparr>r_objects := s'\<rparr>) i = (if i \<in> ?K then repo_get ?E R i else Inr None)" for i
    by (simp add: ost_get_def memst.get_law [OF s'(2)] memst.get_law [OF assms(1)] s'(3) restrict_map_def)
  then show ?thesis using gc count by auto
qed

theorem gc_exact_witness:
  "\<exists>n R'. gc demo_env demo_repo [] 0 0 = Inr (of_nat n, R') \<and> r_refs R' = r_refs demo_repo"
  using gc_exact [OF demo_good, of "[]" 0 0] by blast

section \<open>Instances\<close>

theorem allowed_merge_leaks_nothing_witness:
  "\<exists>t sn. get_timeline (env_refs demo_env) (r_refs demo_repo) ''main'' = Inr (Some t) \<and>
     repo_get demo_env demo_repo (tl_head t) = Inr (Some (OSnapshot sn))"
proof -
  have "check_merge demo_env demo_repo ''main'' ''other'' accessor_new = Inr McAllowed" by code_simp
  from allowed_merge_leaks_nothing [OF demo_good(3) this] show ?thesis by blast
qed

text \<open>A repository with a signed policy root, its lattice and its rules.\<close>

definition policy_objects :: "object list" where
  "policy_objects = [OPolicy (PLattice two_point), OPolicy (PRuleSet []),
     OPolicy (PRoot \<lparr>pol_lattice = 0, pol_rules = 1, pol_parent = None, pol_hooks = []\<rparr>)]"

abbreviation policy_env :: "(mem_store, mem_refs, mem_acl) repo_env" where
  "policy_env \<equiv> memory_env (table_codec policy_objects) plain_scheme"

definition policy_repo :: "(mem_store, mem_refs, mem_acl) repository" where
  "policy_repo = memory_repo\<lparr>r_objects := [(0, [0]), (1, [1]), (2, [2])], r_refs := [(POLICY_ROOT_REF, policy_tag 2)]\<rparr>"

definition root_sigs :: signature_store where
  "root_sigs = [(2, sign_root plain_scheme admin 2)]"

text \<open>
  Collection breaks a pinned policy: it treats a policy root as a leaf, so the lattice and the rules that
  the root refers to are removed as garbage although the root is pinned by a ref, and a chain that
  verified before the collection is rejected after it.
\<close>

lemma gc_breaks_pinned_policy:
  "verify_chain plain_scheme (repo_get policy_env policy_repo) 2 root_sigs admin_trust = Inr (Accept 1) \<and>
   (\<exists>n R' reason. gc policy_env policy_repo [] 0 0 = Inr (n, R') \<and> rb_get memory_refs (r_refs R') POLICY_ROOT_REF = Inr (Some (policy_tag 2)) \<and>
     repo_get policy_env R' 0 = Inr None \<and>
     verify_chain plain_scheme (repo_get policy_env R') 2 root_sigs admin_trust = Inr (Reject reason))"
proof
  show "verify_chain plain_scheme (repo_get policy_env policy_repo) 2 root_sigs admin_trust = Inr (Accept 1)" by code_simp
  have run: "case gc policy_env policy_repo [] 0 0 of
      Inl _ \<Rightarrow> False
    | Inr (n, R') \<Rightarrow> rb_get memory_refs (r_refs R') POLICY_ROOT_REF = Inr (Some (policy_tag 2)) \<and>
        repo_get policy_env R' 0 = Inr None \<and>
        (case verify_chain plain_scheme (repo_get policy_env R') 2 root_sigs admin_trust of Inr (Reject _) \<Rightarrow> True | _ \<Rightarrow> False)"
    by code_simp
  then obtain n R' where gc: "gc policy_env policy_repo [] 0 0 = Inr (n, R')" by (auto split: sum.splits)
  with run obtain reason where "verify_chain plain_scheme (repo_get policy_env R') 2 root_sigs admin_trust = Inr (Reject reason)"
    by (auto split: sum.splits policy_verdict.splits)
  with run gc show "\<exists>n R' reason. gc policy_env policy_repo [] 0 0 = Inr (n, R') \<and> rb_get memory_refs (r_refs R') POLICY_ROOT_REF = Inr (Some (policy_tag 2)) \<and>
     repo_get policy_env R' 0 = Inr None \<and>
     verify_chain plain_scheme (repo_get policy_env R') 2 root_sigs admin_trust = Inr (Reject reason)"
    by auto
qed

end
