(* ===== verification/Sync.thy ===== *)
theory Sync
  imports Repository_Laws Pack
begin

text \<open>
  Synchronisation between repositories: message framing (\<^verbatim>\<open>src/sync/wire.rs\<close>), the in-process engine
  (\<^verbatim>\<open>src/sync/mod.rs\<close>) and the sessions of the wire protocol (\<^verbatim>\<open>src/sync/session.rs\<close>). A connection is
  reliable and ordered, so a session is a function from the messages the peer sends to the messages
  sent back, the result and the repository afterwards; receiving on an exhausted connection is the
  error of a closed connection. A session that fails keeps what it had stored by then. An in-process
  operation that fails returns its error alone: what it had stored by then is not tracked.
\<close>

section \<open>Wire messages\<close>

type_synonym u16 = "16 word"

definition PROTO_VERSION :: u16 where
  "PROTO_VERSION = 1"

type_synonym cap_set = u32

definition cap_intersect :: "cap_set \<Rightarrow> cap_set \<Rightarrow> cap_set" where
  "cap_intersect a b = and a b"

definition cap_has :: "cap_set \<Rightarrow> cap_set \<Rightarrow> bool" where
  "cap_has a other \<longleftrightarrow> other \<noteq> 0 \<and> and a other = other"

definition CAP_SEARCH :: cap_set where
  "CAP_SEARCH = push_bit 0 1"

datatype intent = IFetch | IPush | IClone

record ref_advert =
  ra_name :: ref_name
  ra_target :: oid
  ra_is_timeline :: bool

record ref_update_op =
  ru_name :: ref_name
  ru_expected_old :: "oid option"
  ru_new_head :: oid

datatype ref_apply_status = ApplyOk | ApplyNonFastForward oid | ApplyDenied string

record ref_status_entry =
  rse_name :: ref_name
  rse_status :: ref_apply_status

datatype message =
    MHello u16 u16 cap_set intent "bytes option"
  | MWelcome u16 cap_set "ref_advert list" "bytes option"
  | MHaveWant "oid list" "oid list"
  | MPack bytes
  | MRefUpdate "ref_update_op list"
  | MRefStatus "ref_status_entry list"
  | MSearch string u8
  | MHubHello key
  | MHubChallenge bytes
  | MHubProof bytes
  | MHubIdentity "profile option" "repo_record list"
  | MDone
  | MError string

text \<open>Frames of a byte stream: a 32-bit little-endian length, which wraps for a longer body, then the body.\<close>

definition frame :: "bytes \<Rightarrow> bytes" where
  "frame body = le_bytes 4 (length body mod 2 ^ 32) @ body"

definition MAX_FRAME_LEN :: nat where
  "MAX_FRAME_LEN = 256 * 1024 * 1024"

definition deframe :: "bytes \<Rightarrow> nat \<Rightarrow> (bytes option \<times> nat) result" where
  "deframe buf pos =
     (if length buf < pos + 4 then Inr (None, pos)
      else let len = from_le (take 4 (drop pos buf)) in
        if len > MAX_FRAME_LEN then
          Inl (Storage (''frame length '' @ show_nat len @ '' exceeds cap '' @ show_nat MAX_FRAME_LEN))
        else if length buf < pos + 4 + len then Inr (None, pos)
        else Inr (Some (take len (drop (pos + 4) buf)), pos + 4 + len))"

section \<open>Transfer\<close>

definition have_set :: "('o, 'r, 'a) repo_env \<Rightarrow> ('o, 'r, 'a) repository \<Rightarrow> oid set result" where
  "have_set E R = bind_res (sb_list (env_objects E) (r_objects R)) (\<lambda>ids. Inr (set ids))"

definition gather_raw :: "('o, 'r, 'a) repo_env \<Rightarrow> ('o, 'r, 'a) repository \<Rightarrow> oid list \<Rightarrow> pack_builder result" where
  "gather_raw E R ids =
     fold_res (\<lambda>i b. bind_res (get_raw (env_objects E) (r_objects R) i) (\<lambda>found. case found of
         Some data \<Rightarrow> Inr (builder_add b i data)
       | None \<Rightarrow> Inr b)) ids []"

definition build_pack :: "('o, 'r, 'a) repo_env \<Rightarrow> zstd \<Rightarrow> ('o, 'r, 'a) repository \<Rightarrow> oid list \<Rightarrow> bytes result" where
  "build_pack E Z R ids =
     bind_res (gather_raw E R ids) (\<lambda>b. bind_res (finish (env_codec E) Z b) (\<lambda>(pack, es, digest). Inr pack))"

text \<open>Storing the objects of a verified pack.\<close>

fun land :: "('o, 'r, 'a) repo_env \<Rightarrow> (oid \<times> bytes) list \<Rightarrow> ('o, 'r, 'a) repository \<Rightarrow>
   unit result \<times> ('o, 'r, 'a) repository" where
  "land E [] R = (Inr (), R)"
| "land E ((i, canonical) # decoded) R =
     (case put_raw (env_objects E) (env_codec E) (r_objects R) canonical of
        Inl e \<Rightarrow> (Inl e, R)
      | Inr (_, s) \<Rightarrow> land E decoded (R\<lparr>r_objects := s\<rparr>))"

definition land_pack :: "('o, 'r, 'a) repo_env \<Rightarrow> zstd \<Rightarrow> bytes \<Rightarrow> ('o, 'r, 'a) repository \<Rightarrow>
   unit result \<times> ('o, 'r, 'a) repository" where
  "land_pack E Z pack R = (case decode_pack (env_codec E) Z pack of Inl e \<Rightarrow> (Inl e, R) | Inr decoded \<Rightarrow> land E decoded R)"

definition sync_transfer ::
  "('o, 'r, 'a) repo_env \<Rightarrow> zstd \<Rightarrow> ('o, 'r, 'a) repository \<Rightarrow> ('p, 'q, 'b) repo_env \<Rightarrow> ('p, 'q, 'b) repository \<Rightarrow>
   oid list \<Rightarrow> (nat \<times> ('o, 'r, 'a) repository) result" where
  "sync_transfer E Z R F src wants =
     bind_res (have_set E R) (\<lambda>have.
     bind_res (missing_closure (repo_get F src) wants have) (\<lambda>missing.
     if missing = [] then Inr (0, R)
     else bind_res (build_pack F Z src missing) (\<lambda>pack.
     bind_res (decode_pack (env_codec E) Z pack) (\<lambda>decoded.
     case land E decoded R of (Inl e, _) \<Rightarrow> Inl e | (Inr _, R') \<Rightarrow> Inr (length decoded, R')))))"

definition tracking_ref :: "string \<Rightarrow> ref_name \<Rightarrow> ref_name result" where
  "tracking_ref remote name =
     (case ref_name_new (''refs/remotes/'' @ remote @ ''/'' @ name) of
        Inl e \<Rightarrow> Inl (Storage (''bad tracking ref name: '' @ error_display e))
      | Inr n \<Rightarrow> Inr n)"

definition advertise ::
  "('o, 'r, 'a) repo_env \<Rightarrow> ('o, 'r, 'a) repository \<Rightarrow> accessor \<Rightarrow> (ref_name \<times> oid) list result" where
  "advertise E R acc =
     bind_res (list_refs_served E R [] acc) (\<lambda>names.
       fold_res (\<lambda>name out. bind_res (rb_get (env_refs E) (r_refs R) name) (\<lambda>cur. case cur of
           Some r \<Rightarrow> Inr (out @ [(name, ref_target r)])
         | None \<Rightarrow> Inr out)) names [])"

definition fetch ::
  "('o, 'r, 'a) repo_env \<Rightarrow> zstd \<Rightarrow> ('o, 'r, 'a) repository \<Rightarrow> string \<Rightarrow> ('p, 'q, 'b) repo_env \<Rightarrow> ('p, 'q, 'b) repository \<Rightarrow>
   accessor \<Rightarrow> ((ref_name \<times> oid) list \<times> ('o, 'r, 'a) repository) result" where
  "fetch E Z R remote F src acc =
     bind_res (advertise F src acc) (\<lambda>adverts.
     bind_res (sync_transfer E Z R F src (map snd adverts)) (\<lambda>(n, R1).
     bind_res (map_res (\<lambda>(name, target). bind_res (tracking_ref remote name) (\<lambda>tracking. Inr (tracking, target))) adverts) (\<lambda>tracked.
     bind_res (repo_commit E R1 (map (\<lambda>(tracking, target). SetRef tracking (policy_tag target)) tracked)) (\<lambda>R2.
       Inr (tracked, R2)))))"

definition clone_from ::
  "(mem_store, mem_refs, mem_acl) repo_env \<Rightarrow> zstd \<Rightarrow> ('p, 'q, 'b) repo_env \<Rightarrow> ('p, 'q, 'b) repository \<Rightarrow> accessor \<Rightarrow>
   (mem_store, mem_refs, mem_acl) repository result" where
  "clone_from E Z F src acc =
     bind_res (fetch E Z memory_repo ''origin'' F src acc) (\<lambda>(tracked, R1).
     bind_res (list_refs_filtered F src [] acc) (\<lambda>names.
     bind_res (fold_res (\<lambda>name ops. bind_res (rb_get (env_refs F) (r_refs src) name) (\<lambda>cur. case cur of
         Some (RTimeline t) \<Rightarrow>
           Inr (ops @ [CreateTimeline name (tl_head t) (tl_policy t) (tl_created_at t) (tl_kind t) (tl_expires_at t)])
       | _ \<Rightarrow> Inr ops)) names []) (\<lambda>ops.
       repo_commit E R1 ops)))"

section \<open>Push\<close>

datatype push_status = PushOk | PushNonFastForward oid | PushDenied string

record push_entry =
  pu_name :: ref_name
  pu_local_head :: oid
  pu_expected_old :: "oid option"
  pu_tracking :: ref_name
  pu_timeline :: timeline

type_synonym push_results = "(ref_name \<times> push_status) list"

definition reserved_namespace :: "ref_name \<Rightarrow> bool" where
  "reserved_namespace n \<longleftrightarrow> starts_with ''refs/policy/'' n \<or> starts_with ''refs/collab/'' n"

definition nondet_reason :: "string \<Rightarrow> 'r policy_registry \<Rightarrow> string" where
  "nondet_reason who reg = who @ '' binds non-deterministic policy hook(s) ['' @ join_commas (non_deterministic reg) @
     '']; refusing replicated push (fail-closed)''"

text \<open>The first loop of \<^verbatim>\<open>push\<close>, for one timeline: a refusal, or the entry planned for it.\<close>

definition push_plan_one ::
  "('o, 'r, 'a) repo_env \<Rightarrow> ('o, 'r, 'a) repository \<Rightarrow> string \<Rightarrow> ('p, 'q, 'b) repo_env \<Rightarrow> ('p, 'q, 'b) repository \<Rightarrow>
   lattice \<Rightarrow> label_rule_set \<Rightarrow> 'q policy_registry \<Rightarrow> accessor \<Rightarrow> ref_name \<Rightarrow> (push_status + push_entry) result" where
  "push_plan_one E R remote F to L rules reg acc name =
     (if reserved_namespace name then Inr (Inl (PushDenied ''reserved ref namespace''))
      else bind_res (get_timeline (env_refs E) (r_refs R) name) (\<lambda>found. case found of
          None \<Rightarrow> Inr (Inl (PushDenied ''no such local timeline''))
        | Some local \<Rightarrow>
            (if \<not> can_write acc (label_for_timeline rules L name) (ResTimeline name)
             then Inr (Inl (PushDenied ''write denied on timeline''))
             else if \<not> reg_deterministic reg then Inr (Inl (PushDenied (nondet_reason ''peer'' reg)))
             else
               bind_res (tracking_ref remote name) (\<lambda>tracking.
               bind_res (get_tag (env_refs E) (r_refs R) tracking) (\<lambda>seen.
               let expected_old = map_option tag_target seen;
                   entry = \<lparr>pu_name = name, pu_local_head = tl_head local, pu_expected_old = expected_old,
                     pu_tracking = tracking, pu_timeline = local\<rparr> in
               bind_res (get_timeline (env_refs F) (r_refs to) name) (\<lambda>remote_tl.
               case (expected_old, remote_tl) of
                 (Some old, Some rtl) \<Rightarrow>
                   bind_res (find_common_ancestor (repo_get F to) old (tl_head local)) (\<lambda>anc.
                     if tl_policy rtl \<noteq> Unrestricted \<and> anc \<noteq> Some old
                     then Inr (Inl (PushNonFastForward (tl_head rtl)))
                     else Inr (Inr entry))
               | _ \<Rightarrow> Inr (Inr entry)))))))"

fun push_plan ::
  "(ref_name \<Rightarrow> (push_status + push_entry) result) \<Rightarrow> ref_name list \<Rightarrow> (push_results \<times> push_entry list) result" where
  "push_plan one [] = Inr ([], [])"
| "push_plan one (name # names) =
     bind_res (one name) (\<lambda>d. bind_res (push_plan one names) (\<lambda>(results, plan).
       case d of Inl status \<Rightarrow> Inr ((name, status) # results, plan) | Inr entry \<Rightarrow> Inr (results, entry # plan)))"

text \<open>The second loop: the hooks of the peer on each advance of an existing timeline.\<close>

definition push_gate_one ::
  "('p, 'q, 'b) repo_env \<Rightarrow> ('p, 'q, 'b) repository \<Rightarrow> 'q policy_registry \<Rightarrow> accessor \<Rightarrow> push_entry \<Rightarrow>
   (push_status + push_entry) result" where
  "push_gate_one F to reg acc entry =
     bind_res (get_timeline (env_refs F) (r_refs to) (pu_name entry)) (\<lambda>remote. case remote of
         None \<Rightarrow> Inr (Inr entry)
       | Some rtl \<Rightarrow>
           (case evaluate_replayable reg (repo_context F to (EvAdvance (pu_name entry) (tl_head rtl) (pu_local_head entry)) acc) of
              PAllow \<Rightarrow> Inr (Inr entry)
            | PDeny reason \<Rightarrow> Inr (Inl (PushDenied reason))
            | PNeeds reason _ \<Rightarrow> Inr (Inl (PushDenied reason))))"

fun push_gate ::
  "(push_entry \<Rightarrow> (push_status + push_entry) result) \<Rightarrow> push_entry list \<Rightarrow> (push_results \<times> push_entry list) result" where
  "push_gate one [] = Inr ([], [])"
| "push_gate one (e # es) =
     bind_res (one e) (\<lambda>d. bind_res (push_gate one es) (\<lambda>(results, plan).
       case d of Inl status \<Rightarrow> Inr ((pu_name e, status) # results, plan) | Inr entry \<Rightarrow> Inr (results, entry # plan)))"

definition push_op :: "push_entry \<Rightarrow> ref_op" where
  "push_op e = (case pu_expected_old e of
       Some old \<Rightarrow> AdvanceHeadIf (pu_name e) old (pu_local_head e)
     | None \<Rightarrow> CreateTimeline (pu_name e) (pu_local_head e) (tl_policy (pu_timeline e)) (tl_created_at (pu_timeline e))
         (tl_kind (pu_timeline e)) (tl_expires_at (pu_timeline e)))"

definition server_head :: "'r ref_backend \<Rightarrow> 'r \<Rightarrow> ref_name \<Rightarrow> oid result" where
  "server_head B rs name = bind_res (get_timeline B rs name) (\<lambda>found. Inr (case found of Some t \<Rightarrow> tl_head t | None \<Rightarrow> 0))"

definition push_commit ::
  "('o, 'r, 'a) repo_env \<Rightarrow> ('o, 'r, 'a) repository \<Rightarrow> ('p, 'q, 'b) repo_env \<Rightarrow> ('p, 'q, 'b) repository \<Rightarrow> push_entry list \<Rightarrow>
   push_results \<Rightarrow> (push_results \<times> ('o, 'r, 'a) repository \<times> ('p, 'q, 'b) repository) result" where
  "push_commit E R F to plan results =
     (case repo_commit F to (map push_op plan) of
        Inr to' \<Rightarrow>
          bind_res (repo_commit E R (map (\<lambda>e. SetRef (pu_tracking e) (policy_tag (pu_local_head e))) plan)) (\<lambda>R'.
            Inr (results @ map (\<lambda>e. (pu_name e, PushOk)) plan, R', to'))
      | Inl (TransactionConflict m) \<Rightarrow>
          bind_res (map_res (\<lambda>e. bind_res (server_head (env_refs F) (r_refs to) (pu_name e)) (\<lambda>h.
              Inr (pu_name e, PushNonFastForward h))) plan) (\<lambda>lost. Inr (results @ lost, R, to))
      | Inl e \<Rightarrow> Inl e)"

definition push ::
  "('o, 'r, 'a) repo_env \<Rightarrow> zstd \<Rightarrow> ('o, 'r, 'a) repository \<Rightarrow> string \<Rightarrow> ('p, 'q, 'b) repo_env \<Rightarrow> ('p, 'q, 'b) repository \<Rightarrow>
   ref_name list \<Rightarrow> accessor \<Rightarrow> (push_results \<times> ('o, 'r, 'a) repository \<times> ('p, 'q, 'b) repository) result" where
  "push E Z R remote F to timelines acc =
     bind_res (repo_lattice F to) (\<lambda>L. bind_res (repo_rules F to) (\<lambda>rules.
     bind_res (policy_registry F to) (\<lambda>reg.
     bind_res (push_plan (push_plan_one E R remote F to L rules reg acc) timelines) (\<lambda>(results, plan).
     if plan = [] then Inr (results, R, to)
     else bind_res (sync_transfer F Z to E R (map pu_local_head plan)) (\<lambda>(n, to1).
     bind_res (push_gate (push_gate_one F to1 reg acc) plan) (\<lambda>(denied, gated).
     if gated = [] then Inr (results @ denied, R, to1)
     else push_commit E R F to1 gated (results @ denied)))))))"

section \<open>Sessions: the server\<close>

definition session_advertise ::
  "('o, 'r, 'a) repo_env \<Rightarrow> ('o, 'r, 'a) repository \<Rightarrow> accessor \<Rightarrow> ref_advert list result" where
  "session_advertise E R acc =
     bind_res (list_refs_served E R [] acc) (\<lambda>names.
       fold_res (\<lambda>name out. bind_res (rb_get (env_refs E) (r_refs R) name) (\<lambda>cur. case cur of
           Some (RTimeline t) \<Rightarrow> Inr (out @ [\<lparr>ra_name = name, ra_target = tl_head t, ra_is_timeline = True\<rparr>])
         | Some (RTag t) \<Rightarrow> Inr (out @ [\<lparr>ra_name = name, ra_target = tag_target t, ra_is_timeline = False\<rparr>])
         | None \<Rightarrow> Inr out)) names [])"

abbreviation conn_closed :: "'a result" where
  "conn_closed \<equiv> Inl (Storage ''connection closed'')"

abbreviation welcome_msg :: "ref_advert list \<Rightarrow> message" where
  "welcome_msg refs \<equiv> MWelcome PROTO_VERSION 0 refs None"

abbreviation hello_msg :: "intent \<Rightarrow> message" where
  "hello_msg i \<equiv> MHello PROTO_VERSION PROTO_VERSION 0 i None"

type_synonym ('o, 'r, 'a, 'v) session_result = "message list \<times> 'v result \<times> ('o, 'r, 'a) repository"

definition serve_fetch ::
  "('o, 'r, 'a) repo_env \<Rightarrow> zstd \<Rightarrow> ('o, 'r, 'a) repository \<Rightarrow> accessor \<Rightarrow> message list \<Rightarrow> ('o, 'r, 'a, unit) session_result" where
  "serve_fetch E Z R acc inbox =
     (case session_advertise E R acc of
        Inl e \<Rightarrow> ([], Inl e, R)
      | Inr refs \<Rightarrow>
          (case inbox of
             [] \<Rightarrow> ([welcome_msg refs], conn_closed, R)
           | MHaveWant want have # _ \<Rightarrow>
               (let authorized = set (map ra_target refs);
                    want' = filter (\<lambda>w. w \<in> authorized) want in
                case bind_res (missing_closure (repo_get E R) want' (set have)) (build_pack E Z R) of
                  Inl e \<Rightarrow> ([welcome_msg refs], Inl e, R)
                | Inr pack \<Rightarrow> ([welcome_msg refs, MPack pack, MDone], Inr (), R))
           | _ # _ \<Rightarrow> ([welcome_msg refs], Inl (Storage ''protocol: expected HaveWant''), R)))"

text \<open>
  The first loop of \<^verbatim>\<open>apply_push_ops\<close>, for one operation: \<open>None\<close> when it is accepted, the refusal otherwise.
\<close>

definition push_verdict ::
  "('o, 'r, 'a) repo_env \<Rightarrow> ('o, 'r, 'a) repository \<Rightarrow> lattice \<Rightarrow> label_rule_set \<Rightarrow> 'r policy_registry \<Rightarrow> accessor \<Rightarrow>
   ref_update_op \<Rightarrow> ref_apply_status option result" where
  "push_verdict E R L rules reg acc op =
     (if reserved_namespace (ru_name op) then Inr (Some (ApplyDenied ''reserved ref namespace''))
      else if \<not> can_write acc (label_for_timeline rules L (ru_name op)) (ResTimeline (ru_name op))
      then Inr (Some (ApplyDenied ''write denied on timeline''))
      else
        bind_res (repo_get E R (ru_new_head op)) (\<lambda>obj.
        if as_snapshot obj = None then Inr (Some (ApplyDenied ''new head is not a snapshot''))
        else bind_res (closure_present (repo_get E R) (ru_new_head op)) (\<lambda>complete.
        if \<not> complete then Inr (Some (ApplyDenied ''incomplete object closure''))
        else bind_res (get_timeline (env_refs E) (r_refs R) (ru_name op)) (\<lambda>current.
        bind_res (case (ru_expected_old op, current) of
            (Some old, Some rtl) \<Rightarrow>
              bind_res (find_common_ancestor (repo_get E R) old (ru_new_head op)) (\<lambda>anc.
                Inr (if tl_policy rtl \<noteq> Unrestricted \<and> anc \<noteq> Some old then Some (ApplyNonFastForward (tl_head rtl)) else None))
          | _ \<Rightarrow> Inr None) (\<lambda>stale. case stale of
            Some status \<Rightarrow> Inr (Some status)
          | None \<Rightarrow>
              (case current of
                 None \<Rightarrow> Inr None
               | Some rtl \<Rightarrow>
                   (case evaluate_replayable reg (repo_context E R (EvAdvance (ru_name op) (tl_head rtl) (ru_new_head op)) acc) of
                      PAllow \<Rightarrow> Inr None
                    | PDeny reason \<Rightarrow> Inr (Some (ApplyDenied reason))
                    | PNeeds reason _ \<Rightarrow> Inr (Some (ApplyDenied reason)))))))))"

abbreviation status_entry :: "ref_update_op \<Rightarrow> ref_apply_status \<Rightarrow> ref_status_entry" where
  "status_entry op status \<equiv> \<lparr>rse_name = ru_name op, rse_status = status\<rparr>"

definition push_filter ::
  "('o, 'r, 'a) repo_env \<Rightarrow> ('o, 'r, 'a) repository \<Rightarrow> lattice \<Rightarrow> label_rule_set \<Rightarrow> 'r policy_registry \<Rightarrow> accessor \<Rightarrow>
   ref_update_op list \<Rightarrow> (ref_status_entry list \<times> ref_update_op list) result" where
  "push_filter E R L rules reg acc ops =
     fold_res (\<lambda>op (results, accepted). bind_res (push_verdict E R L rules reg acc op) (\<lambda>v. case v of
         Some status \<Rightarrow> Inr (results @ [status_entry op status], accepted)
       | None \<Rightarrow> Inr (results, accepted @ [op]))) ops ([], [])"

definition update_op :: "ref_update_op \<Rightarrow> ref_op" where
  "update_op op = (case ru_expected_old op of
       Some old \<Rightarrow> AdvanceHeadIf (ru_name op) old (ru_new_head op)
     | None \<Rightarrow> CreateTimeline (ru_name op) (ru_new_head op) FastForwardOnly 0 ''persistent'' None)"

definition apply_push_ops ::
  "('o, 'r, 'a) repo_env \<Rightarrow> ('o, 'r, 'a) repository \<Rightarrow> accessor \<Rightarrow> ref_update_op list \<Rightarrow>
   (ref_status_entry list \<times> ('o, 'r, 'a) repository) result" where
  "apply_push_ops E R acc ops =
     bind_res (repo_lattice E R) (\<lambda>L. bind_res (repo_rules E R) (\<lambda>rules.
     bind_res (policy_registry E R) (\<lambda>reg.
     if \<not> reg_deterministic reg then
       Inr (map (\<lambda>op. status_entry op (ApplyDenied (nondet_reason ''repository'' reg))) ops, R)
     else bind_res (push_filter E R L rules reg acc ops) (\<lambda>(results, accepted).
     if accepted = [] then Inr (results, R)
     else case repo_commit E R (map update_op accepted) of
       Inr R' \<Rightarrow> Inr (results @ map (\<lambda>op. status_entry op ApplyOk) accepted, R')
     | Inl (TransactionConflict m) \<Rightarrow>
         bind_res (map_res (\<lambda>op. bind_res (server_head (env_refs E) (r_refs R) (ru_name op)) (\<lambda>h.
             Inr (status_entry op (ApplyNonFastForward h)))) accepted) (\<lambda>lost. Inr (results @ lost, R))
     | Inl e \<Rightarrow> Inl e))))"

definition serve_push ::
  "('o, 'r, 'a) repo_env \<Rightarrow> zstd \<Rightarrow> ('o, 'r, 'a) repository \<Rightarrow> accessor \<Rightarrow> message list \<Rightarrow> ('o, 'r, 'a, unit) session_result" where
  "serve_push E Z R acc inbox =
     (case session_advertise E R acc of
        Inl e \<Rightarrow> ([], Inl e, R)
      | Inr refs \<Rightarrow>
          (case inbox of
             [] \<Rightarrow> ([welcome_msg refs], conn_closed, R)
           | MPack pack # rest \<Rightarrow>
               (case decode_pack (env_codec E) Z pack of
                  Inl e \<Rightarrow> ([welcome_msg refs], Inl e, R)
                | Inr decoded \<Rightarrow>
                    (case rest of
                       [] \<Rightarrow> ([welcome_msg refs], conn_closed, R)
                     | MRefUpdate ops # _ \<Rightarrow>
                         (if \<not> has_write_capability acc then
                            ([welcome_msg refs, MRefStatus (map (\<lambda>op. status_entry op (ApplyDenied ''no write capability'')) ops)], Inr (), R)
                          else case land E decoded R of
                            (Inl e, R1) \<Rightarrow> ([welcome_msg refs], Inl e, R1)
                          | (Inr _, R1) \<Rightarrow>
                              (case apply_push_ops E R1 acc ops of
                                 Inl e \<Rightarrow> ([welcome_msg refs], Inl e, R1)
                               | Inr (results, R2) \<Rightarrow> ([welcome_msg refs, MRefStatus results], Inr (), R2)))
                     | _ # _ \<Rightarrow> ([welcome_msg refs], Inl (Storage ''protocol: expected RefUpdate''), R)))
           | _ # _ \<Rightarrow> ([welcome_msg refs], Inl (Storage ''protocol: expected Pack''), R)))"

definition serve ::
  "('o, 'r, 'a) repo_env \<Rightarrow> zstd \<Rightarrow> ('o, 'r, 'a) repository \<Rightarrow> accessor \<Rightarrow> message list \<Rightarrow> ('o, 'r, 'a, unit) session_result" where
  "serve E Z R acc inbox =
     (case inbox of
        [] \<Rightarrow> ([], conn_closed, R)
      | MHello _ _ _ i _ # rest \<Rightarrow>
          (case i of
             IPush \<Rightarrow> serve_push E Z R acc rest
           | _ \<Rightarrow> serve_fetch E Z R acc rest)
      | _ # _ \<Rightarrow> ([MError ''expected Hello''], Inl (Storage ''protocol: expected Hello''), R))"

section \<open>Sessions: the client\<close>

definition track_all ::
  "('o, 'r, 'a) repo_env \<Rightarrow> ('o, 'r, 'a) repository \<Rightarrow> string \<Rightarrow> ref_advert list \<Rightarrow>
   ((ref_name \<times> oid) list \<times> ('o, 'r, 'a) repository) result" where
  "track_all E R remote refs =
     bind_res (map_res (\<lambda>r. bind_res (tracking_ref remote (ra_name r)) (\<lambda>t. Inr (t, ra_target r))) refs) (\<lambda>tracked.
     bind_res (repo_commit E R (map (\<lambda>(t, target). SetRef t (policy_tag target)) tracked)) (\<lambda>R'. Inr (tracked, R')))"

definition client_fetch ::
  "('o, 'r, 'a) repo_env \<Rightarrow> zstd \<Rightarrow> ('o, 'r, 'a) repository \<Rightarrow> string \<Rightarrow> message list \<Rightarrow>
   ('o, 'r, 'a, (ref_name \<times> oid) list) session_result" where
  "client_fetch E Z R remote inbox =
     (case inbox of
        [] \<Rightarrow> ([hello_msg IFetch], conn_closed, R)
      | MWelcome _ _ refs _ # rest \<Rightarrow>
          (case sb_list (env_objects E) (r_objects R) of
             Inl e \<Rightarrow> ([hello_msg IFetch], Inl e, R)
           | Inr have \<Rightarrow>
               (let out = [hello_msg IFetch, MHaveWant (map ra_target refs) have] in
                case rest of
                  [] \<Rightarrow> (out, conn_closed, R)
                | MPack pack # rest' \<Rightarrow>
                    (case rest' of
                       [] \<Rightarrow> (out, conn_closed, R)
                     | _ # _ \<Rightarrow>
                         (case land_pack E Z pack R of
                            (Inl e, R1) \<Rightarrow> (out, Inl e, R1)
                          | (Inr _, R1) \<Rightarrow>
                              (case track_all E R1 remote refs of
                                 Inl e \<Rightarrow> (out, Inl e, R1)
                               | Inr (tracked, R2) \<Rightarrow> (out, Inr tracked, R2))))
                | _ # _ \<Rightarrow> (out, Inl (Storage ''protocol: expected Pack''), R)))
      | MError e # _ \<Rightarrow> ([hello_msg IFetch], Inl (Storage e), R)
      | _ # _ \<Rightarrow> ([hello_msg IFetch], Inl (Storage ''protocol: expected Welcome''), R))"

definition client_ops ::
  "('o, 'r, 'a) repo_env \<Rightarrow> ('o, 'r, 'a) repository \<Rightarrow> string \<Rightarrow> ref_name list \<Rightarrow> ref_update_op list result" where
  "client_ops E R remote timelines =
     fold_res (\<lambda>name ops. bind_res (get_timeline (env_refs E) (r_refs R) name) (\<lambda>found. case found of
         None \<Rightarrow> Inr ops
       | Some t \<Rightarrow>
           bind_res (tracking_ref remote name) (\<lambda>tracking.
           bind_res (get_tag (env_refs E) (r_refs R) tracking) (\<lambda>seen.
             Inr (ops @ [\<lparr>ru_name = name, ru_expected_old = map_option tag_target seen, ru_new_head = tl_head t\<rparr>])))))
       timelines []"

definition track_accepted ::
  "string \<Rightarrow> ref_update_op list \<Rightarrow> ref_status_entry list \<Rightarrow> ref_op list result" where
  "track_accepted remote ops results =
     fold_res (\<lambda>entry tx.
       if rse_status entry = ApplyOk then
         (case List.find (\<lambda>op. ru_name op = rse_name entry) ops of
            None \<Rightarrow> Inr tx
          | Some op \<Rightarrow> bind_res (tracking_ref remote (rse_name entry)) (\<lambda>t. Inr (tx @ [SetRef t (policy_tag (ru_new_head op))])))
       else Inr tx) results []"

definition client_push ::
  "('o, 'r, 'a) repo_env \<Rightarrow> zstd \<Rightarrow> ('o, 'r, 'a) repository \<Rightarrow> string \<Rightarrow> ref_name list \<Rightarrow> message list \<Rightarrow>
   ('o, 'r, 'a, ref_status_entry list) session_result" where
  "client_push E Z R remote timelines inbox =
     (case inbox of
        [] \<Rightarrow> ([hello_msg IPush], conn_closed, R)
      | MWelcome _ _ refs _ # rest \<Rightarrow>
          (case bind_res (client_ops E R remote timelines) (\<lambda>ops.
             bind_res (missing_closure (repo_get E R) (map ru_new_head ops) (set (map ra_target refs))) (\<lambda>missing.
             bind_res (build_pack E Z R missing) (\<lambda>pack. Inr (ops, pack)))) of
             Inl e \<Rightarrow> ([hello_msg IPush], Inl e, R)
           | Inr (ops, pack) \<Rightarrow>
               (let out = [hello_msg IPush, MPack pack, MRefUpdate ops] in
                case rest of
                  [] \<Rightarrow> (out, conn_closed, R)
                | MRefStatus results # _ \<Rightarrow>
                    (case bind_res (track_accepted remote ops results) (repo_commit E R) of
                       Inl e \<Rightarrow> (out, Inl e, R)
                     | Inr R' \<Rightarrow> (out, Inr results, R'))
                | MError e # _ \<Rightarrow> (out, Inl (Storage e), R)
                | _ # _ \<Rightarrow> (out, Inl (Storage ''protocol: expected RefStatus''), R)))
      | MError e # _ \<Rightarrow> ([hello_msg IPush], Inl (Storage e), R)
      | _ # _ \<Rightarrow> ([hello_msg IPush], Inl (Storage ''protocol: expected Welcome''), R))"

end
