(* ===== verification/Sync_Laws.thy ===== *)
theory Sync_Laws
  imports Sync Repository_Views
begin

text \<open>
  What synchronisation guarantees: what a push can do to the refs of the receiver, what a fetch session
  can hand out, that a fetch leaves the whole history it tracks in the local store, and that frames
  survive the byte stream. Two theorems state where the push gate departs from the local rules.
\<close>

section \<open>What a push can change\<close>

abbreviation complete_closure :: "getter \<Rightarrow> oid \<Rightarrow> bool" where
  "complete_closure get i \<equiv> \<forall>x. (i, x) \<in> (child_rel get)\<^sup>* \<longrightarrow> get x \<noteq> Inr None"

text \<open>A head that a push may install under a name.\<close>

definition pushable :: "('o, 'r, 'a) repo_env \<Rightarrow> ('o, 'r, 'a) repository \<Rightarrow> accessor \<Rightarrow> ref_name \<Rightarrow> oid \<Rightarrow> bool" where
  "pushable E R acc n h \<longleftrightarrow> \<not> reserved_namespace n \<and>
     (\<exists>rules. repo_rules E R = Inr rules \<and> can_write acc (label_for_timeline rules two_point n) (ResTimeline n)) \<and>
     (\<exists>sn. repo_get E R h = Inr (Some (OSnapshot sn))) \<and> complete_closure (repo_get E R) h"

text \<open>How a pushed name relates to what was there.\<close>

definition pushed_over :: "getter \<Rightarrow> ref option \<Rightarrow> timeline \<Rightarrow> bool" where
  "pushed_over get before t' \<longleftrightarrow> (case before of
       None \<Rightarrow> tl_policy t' = FastForwardOnly
     | Some (RTag _) \<Rightarrow> False
     | Some (RTimeline t) \<Rightarrow> tl_policy t' = tl_policy t \<and>
         (tl_policy t \<noteq> Unrestricted \<longrightarrow> (tl_head t', tl_head t) \<in> (parent_rel get)\<^sup>*))"

lemma push_verdict_None:
  assumes "readable (repo_get E R)" and "repo_rules E R = Inr rules"
    and "push_verdict E R two_point rules reg acc op = Inr None"
  shows "pushable E R acc (ru_name op) (ru_new_head op) \<and>
    (\<exists>cur. get_timeline (env_refs E) (r_refs R) (ru_name op) = Inr cur \<and>
      (\<forall>t old. cur = Some t \<longrightarrow> tl_policy t \<noteq> Unrestricted \<longrightarrow> ru_expected_old op = Some old \<longrightarrow>
        (ru_new_head op, old) \<in> (parent_rel (repo_get E R))\<^sup>*))"
proof -
  have guards: "\<not> reserved_namespace (ru_name op)"
    "can_write acc (label_for_timeline rules two_point (ru_name op)) (ResTimeline (ru_name op))"
    using assms(3) by (auto simp: push_verdict_def split: if_splits)
  obtain obj where obj: "repo_get E R (ru_new_head op) = Inr obj" using assms(1) by (auto simp: readable_def)
  have snap: "as_snapshot obj \<noteq> None"
    using assms(3) guards by (auto simp: push_verdict_def obj split: if_splits)
  obtain present where present: "closure_present (repo_get E R) (ru_new_head op) = Inr present"
    using closure_present_correct [OF assms(1)] by blast
  have verdict: "present \<and> bind_res (get_timeline (env_refs E) (r_refs R) (ru_name op)) (\<lambda>current.
      bind_res (case (ru_expected_old op, current) of
          (Some old, Some rtl) \<Rightarrow>
            bind_res (find_common_ancestor (repo_get E R) old (ru_new_head op)) (\<lambda>anc.
              Inr (if tl_policy rtl \<noteq> Unrestricted \<and> anc \<noteq> Some old then Some (ApplyNonFastForward (tl_head rtl)) else None))
        | _ \<Rightarrow> Inr None) (\<lambda>stale. if stale = None then Inr () else Inl (Storage []))) = Inr ()"
    using assms(3) guards snap
    by (auto simp: push_verdict_def obj present bind_res_Inr split: if_splits option.splits)
  then obtain cur where cur: "get_timeline (env_refs E) (r_refs R) (ru_name op) = Inr cur"
    by (auto simp: bind_res_Inr)
  have ff: "(ru_new_head op, old) \<in> (parent_rel (repo_get E R))\<^sup>*"
    if t: "cur = Some t" "tl_policy t \<noteq> Unrestricted" "ru_expected_old op = Some old" for t old
  proof -
    obtain r where r: "find_common_ancestor (repo_get E R) old (ru_new_head op) = Inr r"
      and c: "case r of Some c \<Rightarrow> (old, c) \<in> (parent_rel (repo_get E R))\<^sup>* \<and> (ru_new_head op, c) \<in> (parent_rel (repo_get E R))\<^sup>*
        | None \<Rightarrow> \<forall>c. \<not> ((old, c) \<in> (parent_rel (repo_get E R))\<^sup>* \<and> (ru_new_head op, c) \<in> (parent_rel (repo_get E R))\<^sup>*)"
      using find_common_ancestor_correct [OF assms(1), of old "ru_new_head op"] by blast
    have "r = Some old"
      using verdict by (simp add: cur t r split: if_splits)
    with c show ?thesis by simp
  qed
  have "complete_closure (repo_get E R) (ru_new_head op)"
    using present verdict closure_present_correct [OF assms(1), of "ru_new_head op"] by simp
  then show ?thesis unfolding pushable_def using guards assms(2) obj snap cur ff by auto
qed

lemma push_filter_accepted:
  assumes "push_filter E R L rules reg acc ops = Inr (results, kept)" and "op \<in> set kept"
  shows "op \<in> set ops \<and> push_verdict E R L rules reg acc op = Inr None"
proof -
  have "\<forall>op \<in> set (snd (results, kept)). op \<in> set ops \<and> push_verdict E R L rules reg acc op = Inr None"
    by (rule fold_res_invariant [OF assms(1) [unfolded push_filter_def]])
      (auto simp: bind_res_Inr split: option.splits)
  with assms(2) show ?thesis by simp
qed

text \<open>The operations of one push, on the map of refs.\<close>

lemma push_ops_effect:
  assumes "fold_res op_effect (map update_op ops) m = Inr m'"
    and "\<And>op. op \<in> set ops \<Longrightarrow> V (ru_name op) (ru_new_head op)"
    and "\<And>op t old. op \<in> set ops \<Longrightarrow> m0 (ru_name op) = Some (RTimeline t) \<Longrightarrow> tl_policy t \<noteq> Unrestricted \<Longrightarrow>
      ru_expected_old op = Some old \<Longrightarrow> (ru_new_head op, old) \<in> (parent_rel get)\<^sup>*"
    and "\<And>n. m n = m0 n \<or> (\<exists>t'. m n = Some (RTimeline t') \<and> V n (tl_head t') \<and> pushed_over get (m0 n) t')"
  shows "m' n = m0 n \<or> (\<exists>t'. m' n = Some (RTimeline t') \<and> V n (tl_head t') \<and> pushed_over get (m0 n) t')"
  using assms
proof (induction ops arbitrary: m)
  case Nil
  then show ?case by simp
next
  case (Cons op ops)
  let ?n = "ru_name op" and ?h = "ru_new_head op"
  let ?good = "\<lambda>m n. m n = m0 n \<or> (\<exists>t'. m n = Some (RTimeline t') \<and> V n (tl_head t') \<and> pushed_over get (m0 n) t')"
  obtain m1 where m1: "op_effect (update_op op) m = Inr m1" and rest: "fold_res op_effect (map update_op ops) m1 = Inr m'"
    using Cons.prems(1) by (auto simp: bind_res_Inr)
  have V: "V ?n ?h" using Cons.prems(2) by simp
  have now: "?good m ?n" by (rule Cons.prems(4))
  have "\<exists>t'. m1 = m(?n \<mapsto> RTimeline t') \<and> tl_head t' = ?h \<and> pushed_over get (m0 ?n) t'"
  proof (cases "ru_expected_old op")
    case None
    with m1 have free: "m ?n = None"
      and m1': "m1 = m(?n \<mapsto> RTimeline \<lparr>tl_head = ?h, tl_policy = FastForwardOnly, tl_created_at = 0,
        tl_kind = ''persistent'', tl_expires_at = None\<rparr>)"
      by (auto simp: update_op_def op_effect_def bind_res_Inr split: if_splits)
    from free now have "m0 ?n = None" by auto
    with m1' show ?thesis by (auto simp: pushed_over_def)
  next
    case (Some old)
    with m1 obtain t where t: "m ?n = Some (RTimeline t)" "tl_head t = old" "m1 = m(?n \<mapsto> RTimeline (t\<lparr>tl_head := ?h\<rparr>))"
      by (auto simp: update_op_def op_effect_def bind_res_Inr split: option.splits ref.splits if_splits)
    have ff: "(?h, tl_head t) \<in> (parent_rel get)\<^sup>*" if "m0 ?n = Some (RTimeline t0)" "tl_policy t0 \<noteq> Unrestricted" for t0
      using Cons.prems(3) [of op t0 old] that Some t(2) by simp
    have "pushed_over get (m0 ?n) (t\<lparr>tl_head := ?h\<rparr>)"
    proof (cases "m ?n = m0 ?n")
      case True
      with t ff show ?thesis by (auto simp: pushed_over_def)
    next
      case False
      with now t have "pushed_over get (m0 ?n) t" by auto
      with ff show ?thesis
        by (auto simp: pushed_over_def intro: rtrancl_trans split: option.splits ref.splits)
    qed
    with t show ?thesis by auto
  qed
  then obtain t' where t': "m1 = m(?n \<mapsto> RTimeline t')" "tl_head t' = ?h" "pushed_over get (m0 ?n) t'" by blast
  have good: "?good m1 k" for k using t' V Cons.prems(4) [of k] by (cases "k = ?n") auto
  show ?case
    by (rule Cons.IH [OF rest _ _ good]) (use Cons.prems(2,3) in auto)
qed

text \<open>A push changes nothing, or commits the operations it kept.\<close>

lemma apply_push_cases:
  assumes "apply_push_ops E R acc ops = Inr (results, R')"
  shows "R' = R \<or> (\<exists>rules reg res kept. repo_rules E R = Inr rules \<and>
    push_filter E R two_point rules reg acc ops = Inr (res, kept) \<and> repo_commit E R (map update_op kept) = Inr R')"
proof -
  obtain rules reg where rules: "repo_rules E R = Inr rules" and reg: "policy_registry E R = Inr reg"
    using assms by (auto simp: apply_push_ops_def get_lattice_def bind_res_Inr)
  note run = assms [unfolded apply_push_ops_def get_lattice_def rules reg bind_res_simps]
  show ?thesis
  proof (cases "reg_deterministic reg")
    case True
    then obtain res kept where filt: "push_filter E R two_point rules reg acc ops = Inr (res, kept)"
      using run by (auto simp: bind_res_Inr)
    show ?thesis
    proof (cases "repo_commit E R (map update_op kept)")
      case (Inl e)
      then show ?thesis using run True filt by (cases e) (auto simp: bind_res_Inr split: if_splits)
    next
      case (Inr R1)
      then show ?thesis using run True filt rules by (auto split: if_splits)
    qed
  qed (use run in simp)
qed

context repo_stores
begin

lemma push_effect:
  assumes "rinv (r_refs R)" and "fits (r_refs R) N" and "ru_name ` set ops \<subseteq> N" and "readable (repo_get E R)"
    and "apply_push_ops E R acc ops = Inr (results, R')"
  shows "R' = R\<lparr>r_refs := r_refs R'\<rparr> \<and> (rabst (r_refs R') n = rabst (r_refs R) n \<or>
    (\<exists>t'. rabst (r_refs R') n = Some (RTimeline t') \<and> pushable E R acc n (tl_head t') \<and>
      pushed_over (repo_get E R) (rabst (r_refs R) n) t'))"
proof (cases "R' = R")
  case False
  then obtain rules reg res kept where rules: "repo_rules E R = Inr rules"
    and filt: "push_filter E R two_point rules reg acc ops = Inr (res, kept)"
    and com: "repo_commit E R (map update_op kept) = Inr R'"
    using apply_push_cases [OF assms(5)] by blast
  then obtain rs where rs: "commit_transaction (env_refs E) (r_refs R) (map update_op kept) = Inr rs" "R' = R\<lparr>r_refs := rs\<rparr>"
    by (auto simp: repo_commit_def bind_res_Inr)
  have acc: "op \<in> set ops" "push_verdict E R two_point rules reg acc op = Inr None" if "op \<in> set kept" for op
    using push_filter_accepted [OF filt that] by simp_all
  have name: "op_name (update_op op) = ru_name op" for op by (simp add: update_op_def split: option.split)
  have "op_name ` set (map update_op kept) \<subseteq> N" using acc(1) assms(3) by (auto simp: name)
  from rt.commit_refines [OF assms(1,2) this] rs(1)
  have fold: "fold_res op_effect (map update_op kept) (rabst (r_refs R)) = Inr (rabst rs)"
    by (auto split: sum.splits)
  have ok: "pushable E R acc (ru_name op) (ru_new_head op)" if "op \<in> set kept" for op
    using push_verdict_None [OF assms(4) rules acc(2) [OF that]] by simp
  have ff: "(ru_new_head op, old) \<in> (parent_rel (repo_get E R))\<^sup>*"
    if "op \<in> set kept" "rabst (r_refs R) (ru_name op) = Some (RTimeline t)" "tl_policy t \<noteq> Unrestricted"
      "ru_expected_old op = Some old" for op t old
  proof -
    have "get_timeline (env_refs E) (r_refs R) (ru_name op) = Inr (Some t)"
      using get_timeline_Some [OF assms(1,2)] that(2) acc(1) [OF that(1)] assms(3) by blast
    with push_verdict_None [OF assms(4) rules acc(2) [OF that(1)]] that(3,4) show ?thesis by auto
  qed
  have "rabst rs n = rabst (r_refs R) n \<or> (\<exists>t'. rabst rs n = Some (RTimeline t') \<and> pushable E R acc n (tl_head t') \<and>
      pushed_over (repo_get E R) (rabst (r_refs R) n) t')"
    by (rule push_ops_effect [where V = "pushable E R acc", OF fold]) (use ok ff in auto)
  with rs(2) show ?thesis by simp
qed simp

end

text \<open>
  C2. Whatever operations a peer pushes, only the refs change, and a ref that changes is a timeline
  outside the policy and collaboration namespaces that the accessor may write; its new head is a stored
  snapshot whose whole closure is stored; if the timeline existed it keeps its policy and, unless
  rewriting is allowed, the new head descends from the old one; if it did not exist it is
  fast-forward-only; and a tag is never replaced.
\<close>

theorem push_accepts_only_valid:
  assumes "repo_stores oinv oabst storable rinv fits rabst E"
    and "rinv (r_refs R)" and "fits (r_refs R) (ru_name ` set ops)" and "readable (repo_get E R)"
    and "apply_push_ops E R acc ops = Inr (results, R')"
  shows "R' = R\<lparr>r_refs := r_refs R'\<rparr> \<and>
    (\<forall>n. rabst (r_refs R') n \<noteq> rabst (r_refs R) n \<longrightarrow>
      (\<exists>t'. rabst (r_refs R') n = Some (RTimeline t') \<and> pushable E R acc n (tl_head t') \<and>
        pushed_over (repo_get E R) (rabst (r_refs R) n) t'))"
  using repo_stores.push_effect [OF assms(1-3) subset_refl assms(4,5)] by blast

section \<open>What a fetch session hands out\<close>

lemma session_advertise_Inr:
  assumes "session_advertise E R acc = Inr refs"
  shows "\<exists>names. list_refs_served E R [] acc = Inr names \<and> (\<forall>r \<in> set refs. \<exists>n \<in> set names. \<exists>v.
    rb_get (env_refs E) (r_refs R) n = Inr (Some v) \<and> ra_target r = ref_target v)"
proof -
  obtain names where names: "list_refs_served E R [] acc = Inr names"
    using assms by (auto simp: session_advertise_def bind_res_Inr)
  note fold = assms [unfolded session_advertise_def names bind_res_simps]
  have "\<forall>r \<in> set refs. \<exists>n \<in> set names. \<exists>v. rb_get (env_refs E) (r_refs R) n = Inr (Some v) \<and> ra_target r = ref_target v"
  proof (rule fold_res_invariant [OF fold], goal_cases)
    case (2 n u v)
    from 2(3) obtain cur where cur: "rb_get (env_refs E) (r_refs R) n = Inr cur" by (auto simp: bind_res_Inr)
    have "v = u \<or> (\<exists>x. cur = Some x \<and> (\<forall>r \<in> set v. r \<in> set u \<or> ra_target r = ref_target x))"
      using 2(3) cur by (cases cur; cases "the cur") (auto simp: ref_target_def)
    with 2(1,2) cur show ?case by blast
  qed simp
  with names show ?thesis by blast
qed

lemma sent_rel_sub: "(w, x) \<in> (sent_rel get have)\<^sup>* \<Longrightarrow> (w, x) \<in> (child_rel get)\<^sup>*"
  by (rule subsetD [OF rtrancl_mono]) (auto simp: sent_rel_def)

text \<open>
  C4. A fetch session changes nothing and hands out nothing beyond what the accessor may fetch: whatever
  ids the client asks for, each object of the pack it is sent is one the client says it lacks, and
  belongs to the closure of the target of a ref that is served to this accessor and asked for.
\<close>

theorem serve_fetch_confined:
  assumes "readable (repo_get E R)"
    and "serve_fetch E Z R acc (MHaveWant want have # rest) = (out, r, R')"
  shows "R' = R \<and> (\<forall>pack. MPack pack \<in> set out \<longrightarrow>
    (\<exists>names ids. list_refs_served E R [] acc = Inr names \<and> build_pack E Z R ids = Inr pack \<and>
      (\<forall>i \<in> set ids. i \<notin> set have \<and> (\<exists>n \<in> set names. \<exists>v. rb_get (env_refs E) (r_refs R) n = Inr (Some v) \<and>
        ref_target v \<in> set want \<and> (ref_target v, i) \<in> (child_rel (repo_get E R))\<^sup>*))))"
proof (cases "session_advertise E R acc")
  case (Inl e)
  then show ?thesis using assms(2) by (auto simp: serve_fetch_def)
next
  case (Inr refs)
  let ?want = "filter (\<lambda>w. w \<in> set (map ra_target refs)) want"
  obtain names where names: "list_refs_served E R [] acc = Inr names"
    and refs: "\<And>r. r \<in> set refs \<Longrightarrow> \<exists>n \<in> set names. \<exists>v. rb_get (env_refs E) (r_refs R) n = Inr (Some v) \<and> ra_target r = ref_target v"
    using session_advertise_Inr [OF Inr] by blast
  obtain ids where ids: "missing_closure (repo_get E R) ?want (set have) = Inr ids"
    "set ids = {x \<in> (sent_rel (repo_get E R) (set have))\<^sup>* `` set ?want. x \<notin> set have \<and> repo_get E R x \<noteq> Inr None}"
    using missing_closure_correct [OF assms(1)] by blast
  have out: "R' = R \<and> (\<forall>pack. MPack pack \<in> set out \<longrightarrow> build_pack E Z R ids = Inr pack)"
    using assms(2) Inr ids(1) by (auto simp: serve_fetch_def Let_def split: sum.splits)
  have "i \<notin> set have \<and> (\<exists>n \<in> set names. \<exists>v. rb_get (env_refs E) (r_refs R) n = Inr (Some v) \<and>
      ref_target v \<in> set want \<and> (ref_target v, i) \<in> (child_rel (repo_get E R))\<^sup>*)" if "i \<in> set ids" for i
  proof -
    from that ids(2) obtain w where w: "w \<in> set ?want" "(w, i) \<in> (sent_rel (repo_get E R) (set have))\<^sup>*" "i \<notin> set have" by auto
    from w(1) obtain r where "r \<in> set refs" "w = ra_target r" "w \<in> set want" by auto
    moreover from refs [OF this(1)] obtain n v where "n \<in> set names" "rb_get (env_refs E) (r_refs R) n = Inr (Some v)"
      "ra_target r = ref_target v" by blast
    ultimately show ?thesis using sent_rel_sub [OF w(2)] w(3)
      by (intro conjI bexI [of _ n] exI [of _ v]) simp_all
  qed
  with out names show ?thesis by blast
qed

section \<open>A transfer completes the history\<close>

lemma finish_decode:
  assumes "zstd_ok Z" and "pack_limits C objs" and "\<And>c. length c \<le> MAX_OBJECT_LEN \<Longrightarrow> \<exists>z. z_enc Z c = Inr z"
  shows "\<exists>pack es digest. finish C Z objs = Inr (pack, es, digest) \<and> decode_pack C Z pack = Inr objs"
proof -
  have "\<forall>ic \<in> set objs. \<exists>z. z_enc Z (snd ic) = Inr z"
    using assms(2,3) by (auto simp: pack_limits_def list_all_iff good_object_def)
  from finish_total [OF this, where buf = "pack_header (length objs)" and es = "[]"] obtain fs where
    fs: "frames_of Z objs fs" and fold: "fold_res (finish_step Z) objs (pack_header (length objs), []) =
      Inr (pack_header (length objs) @ concat fs, entries_from (length (pack_header (length objs))) objs fs)" by auto
  show ?thesis
    using decode_pack_of_frames [OF assms(1) fs assms(2) refl] by (simp add: finish_def fold Let_def)
qed

context repo_stores
begin

lemma have_set_dom: "oinv (r_objects R) \<Longrightarrow> have_set E R = Inr (dom (oabst (r_objects R)))"
  using st.list_law by (fastforce simp: have_set_def)

lemma gather_raw_all:
  assumes "oinv (r_objects R)" and "set ids \<subseteq> dom (oabst (r_objects R))"
  shows "gather_raw E R ids = Inr (map (\<lambda>i. (i, the (oabst (r_objects R) i))) ids)"
proof -
  let ?f = "\<lambda>i b. bind_res (get_raw (env_objects E) (r_objects R) i) (\<lambda>found. case found of
         Some data \<Rightarrow> Inr (builder_add b i data)
       | None \<Rightarrow> Inr b)"
  have "fold_res ?f ids b = Inr (b @ map (\<lambda>i. (i, the (oabst (r_objects R) i))) ids)" for b
    using assms(2) by (induction ids arbitrary: b) (auto simp: get_raw_def st.get_law [OF assms(1)] builder_add_def)
  then show ?thesis by (simp add: gather_raw_def)
qed

lemma land_all:
  assumes "oinv (r_objects R)" and "\<And>data. storable data" and "\<forall>(i, c) \<in> set ds. object_id (env_codec E) c = i"
  shows "\<exists>s. land E ds R = (Inr (), R\<lparr>r_objects := s\<rparr>) \<and> oinv s \<and>
    oabst s = (\<lambda>i. case oabst (r_objects R) i of Some d \<Rightarrow> Some d | None \<Rightarrow> map_of ds i)"
  using assms(1,3)
proof (induction ds arbitrary: R)
  case Nil
  then show ?case by (intro exI [of _ "r_objects R"]) (auto simp: fun_eq_iff split: option.split)
next
  case (Cons ic ds)
  obtain i c where ic: "ic = (i, c)" "object_id (env_codec E) c = i" using Cons.prems(2) by auto
  obtain s where s: "put_raw (env_objects E) (env_codec E) (r_objects R) c = Inr (i, s)" "oinv s"
    "oabst s = (if oabst (r_objects R) i = None then (oabst (r_objects R))(i \<mapsto> c) else oabst (r_objects R))"
    using st.put_raw_correct [OF Cons.prems(1) assms(2), of "env_codec E" c] ic(2) by auto
  have "oinv (r_objects (R\<lparr>r_objects := s\<rparr>))" "\<forall>(i, c) \<in> set ds. object_id (env_codec E) c = i"
    using s(2) Cons.prems(2) by auto
  from Cons.IH [OF this] obtain s' where s': "land E ds (R\<lparr>r_objects := s\<rparr>) = (Inr (), R\<lparr>r_objects := s'\<rparr>)" "oinv s'"
    "oabst s' = (\<lambda>i. case oabst s i of Some d \<Rightarrow> Some d | None \<Rightarrow> map_of ds i)" by auto
  have "oabst s' = (\<lambda>i. case oabst (r_objects R) i of Some d \<Rightarrow> Some d | None \<Rightarrow> map_of (ic # ds) i)"
    unfolding s'(3) s(3) ic(1) by (auto split: option.split)
  with s(1) s'(1,2) ic(1) show ?case by auto
qed

end

text \<open>
  When a transfer from \<open>S\<close> to \<open>R\<close> can work: zstd compresses every object, both stores
  are in order, ids mean the same bytes on both sides, the local
  store is closed under child edges, and any objects of the source fit in a pack.
\<close>

definition transferable ::
  "('o \<Rightarrow> bool) \<Rightarrow> ('o \<Rightarrow> oid \<Rightarrow> bytes option) \<Rightarrow> ('r \<Rightarrow> bool) \<Rightarrow> ('o, 'r, 'a) repo_env \<Rightarrow>
   ('p \<Rightarrow> bool) \<Rightarrow> ('p \<Rightarrow> oid \<Rightarrow> bytes option) \<Rightarrow> ('q \<Rightarrow> bool) \<Rightarrow> ('p, 'q, 'b) repo_env \<Rightarrow>
   zstd \<Rightarrow> ('o, 'r, 'a) repository \<Rightarrow> ('p, 'q, 'b) repository \<Rightarrow> bool" where
  "transferable oinv oabst rinv E oinv' oabst' rinv' F Z R S \<longleftrightarrow> zstd_ok Z \<and>
     (\<forall>c. length c \<le> MAX_OBJECT_LEN \<longrightarrow> (\<exists>z. z_enc Z c = Inr z)) \<and>
     oinv (r_objects R) \<and> rinv (r_refs R) \<and> oinv' (r_objects S) \<and> rinv' (r_refs S) \<and> readable (repo_get F S) \<and>
     (\<forall>i c d. oabst (r_objects R) i = Some c \<longrightarrow> oabst' (r_objects S) i = Some d \<longrightarrow> c = d) \<and>
     child_rel (repo_get E R) `` dom (oabst (r_objects R)) \<subseteq> dom (oabst (r_objects R)) \<and>
     (\<forall>ids. distinct ids \<longrightarrow> set ids \<subseteq> dom (oabst' (r_objects S)) \<longrightarrow>
       pack_limits (env_codec F) (map (\<lambda>i. (i, the (oabst' (r_objects S) i))) ids))"

locale sync_pair =
  dst: repo_stores oinv oabst storable rinv fits rabst E +
  src: repo_stores oinv' oabst' storable' rinv' fits' rabst' F
  for oinv :: "'o \<Rightarrow> bool" and oabst :: "'o \<Rightarrow> oid \<Rightarrow> bytes option" and storable :: "bytes \<Rightarrow> bool"
    and rinv :: "'r \<Rightarrow> bool" and fits :: "'r \<Rightarrow> ref_name set \<Rightarrow> bool" and rabst :: "'r \<Rightarrow> ref_name \<rightharpoonup> ref"
    and E :: "('o, 'r, 'a) repo_env"
    and oinv' :: "'p \<Rightarrow> bool" and oabst' :: "'p \<Rightarrow> oid \<Rightarrow> bytes option" and storable' :: "bytes \<Rightarrow> bool"
    and rinv' :: "'q \<Rightarrow> bool" and fits' :: "'q \<Rightarrow> ref_name set \<Rightarrow> bool" and rabst' :: "'q \<Rightarrow> ref_name \<rightharpoonup> ref"
    and F :: "('p, 'q, 'b) repo_env" +
  assumes same_codec: "env_codec F = env_codec E"
    and all_storable: "\<And>data. storable data"
    and all_fits: "\<And>rs N. fits rs N" "\<And>rs N. fits' rs N"
begin

lemma src_get: "oinv' (r_objects S) \<Longrightarrow> repo_get F S i = Inr None \<longleftrightarrow> oabst' (r_objects S) i = None"
  using src.st.get_law [of "r_objects S" i] by (auto simp: ost_get_def bind_res_Inr split: option.splits)

lemma same_object:
  assumes "oinv (r_objects R)" and "oinv' (r_objects S)" and "oabst (r_objects R) i = oabst' (r_objects S) i"
  shows "repo_get E R i = repo_get F S i"
  using dst.st.get_law [OF assms(1), of i] src.st.get_law [OF assms(2), of i] assms(3) by (simp add: ost_get_def same_codec)

lemma transfer_complete:
  assumes "transferable oinv oabst rinv E oinv' oabst' rinv' F Z R S"
  shows "\<exists>n s. sync_transfer E Z R F S wants = Inr (n, R\<lparr>r_objects := s\<rparr>) \<and> oinv s \<and>
    oabst s = (\<lambda>i. case oabst (r_objects R) i of Some d \<Rightarrow> Some d
      | None \<Rightarrow> if i \<in> (child_rel (repo_get F S))\<^sup>* `` set wants then oabst' (r_objects S) i else None)"
proof -
  let ?get = "repo_get F S" and ?R = "oabst (r_objects R)" and ?S = "oabst' (r_objects S)"
  have inv: "oinv (r_objects R)" "oinv' (r_objects S)" "readable ?get" and z: "zstd_ok Z" "\<And>c. length c \<le> MAX_OBJECT_LEN \<Longrightarrow> \<exists>z. z_enc Z c = Inr z"
    and agree: "\<And>i c d. ?R i = Some c \<Longrightarrow> ?S i = Some d \<Longrightarrow> c = d"
    and closed: "child_rel (repo_get E R) `` dom ?R \<subseteq> dom ?R"
    and limits: "\<And>ids. distinct ids \<Longrightarrow> set ids \<subseteq> dom ?S \<Longrightarrow> pack_limits (env_codec F) (map (\<lambda>i. (i, the (?S i))) ids)"
    using assms unfolding transferable_def by auto
  have "child_rel ?get `` dom ?R \<subseteq> dom ?R"
  proof
    fix y
    assume "y \<in> child_rel ?get `` dom ?R"
    then obtain x obj where x: "x \<in> dom ?R" "?get x = Inr (Some obj)" "y \<in> set (child_edges obj)" by (auto simp: child_rel_def)
    from x(2) have "?S x \<noteq> None" using src_get [OF inv(2), of x] by auto
    with x(1) agree have "?R x = ?S x" by (metis domD not_Some_eq)
    then have "repo_get E R x = ?get x" by (rule same_object [OF inv(1,2)])
    with x have "(x, y) \<in> child_rel (repo_get E R)" by (auto simp: child_rel_def)
    with closed x(1) show "y \<in> dom ?R" by blast
  qed
  note sent = sent_reach [OF this]
  obtain ids where ids: "missing_closure ?get wants (dom ?R) = Inr ids" "distinct ids"
    "set ids = {x \<in> (sent_rel ?get (dom ?R))\<^sup>* `` set wants. x \<notin> dom ?R \<and> ?get x \<noteq> Inr None}"
    using missing_closure_correct [OF inv(3)] by blast
  have set: "set ids = {x \<in> (child_rel ?get)\<^sup>* `` set wants. ?R x = None \<and> ?S x \<noteq> None}"
  proof -
    have "(\<exists>w \<in> set wants. (w, x) \<in> (sent_rel ?get (dom ?R))\<^sup>*) \<longleftrightarrow> (\<exists>w \<in> set wants. (w, x) \<in> (child_rel ?get)\<^sup>*)"
      if "?R x = None" for x
      using sent [of _ x] sent_rel_sub [of _ x ?get "dom ?R"] that by (meson domIff)
    then show ?thesis unfolding ids(3) src_get [OF inv(2)] by (auto simp: Image_iff)
  qed
  define objs where "objs = map (\<lambda>i. (i, the (?S i))) ids"
  have "set ids \<subseteq> dom ?S" unfolding set by auto
  then have gather: "gather_raw F S ids = Inr objs" and lim: "pack_limits (env_codec F) objs"
    using src.gather_raw_all [OF inv(2)] limits [OF ids(2)] by (simp_all add: objs_def)
  obtain pack es digest where pack: "finish (env_codec F) Z objs = Inr (pack, es, digest)" "decode_pack (env_codec F) Z pack = Inr objs"
    using finish_decode [OF z(1) lim z(2)] by blast
  have "\<forall>(i, c) \<in> set objs. object_id (env_codec E) c = i"
    using lim by (auto simp: pack_limits_def list_all_iff good_object_def object_id_def same_codec)
  from dst.land_all [OF inv(1) all_storable this] obtain s where s: "land E objs R = (Inr (), R\<lparr>r_objects := s\<rparr>)" "oinv s"
    "oabst s = (\<lambda>i. case ?R i of Some d \<Rightarrow> Some d | None \<Rightarrow> map_of objs i)" by blast
  have objs: "map_of objs i = (if i \<in> set ids then ?S i else None)" for i
    using \<open>set ids \<subseteq> dom ?S\<close> by (auto simp: objs_def map_of_map_restrict restrict_map_def)
  have "oabst s = (\<lambda>i. case ?R i of Some d \<Rightarrow> Some d
      | None \<Rightarrow> if i \<in> (child_rel ?get)\<^sup>* `` set wants then ?S i else None)"
    unfolding s(3) objs set by (auto simp: fun_eq_iff split: option.split)
  moreover have "\<exists>n. sync_transfer E Z R F S wants = Inr (n, R\<lparr>r_objects := s\<rparr>)"
  proof (cases "ids = []")
    case True
    then have "R\<lparr>r_objects := s\<rparr> = R" using s(1) by (simp add: objs_def)
    with True show ?thesis by (simp add: sync_transfer_def dst.have_set_dom [OF inv(1)] ids(1))
  next
    case False
    then show ?thesis
      by (simp add: sync_transfer_def dst.have_set_dom [OF inv(1)] ids(1) build_pack_def gather pack same_codec [symmetric] s(1))
  qed
  ultimately show ?thesis using s(2) by blast
qed

text \<open>Setting refs one after the other, in one transaction.\<close>

lemma fold_set_refs:
  "fold_res op_effect (map (\<lambda>(k, v). SetRef k v) kvs) m = Inr (m ++ map_of (rev kvs))"
  by (induction kvs arbitrary: m) (auto simp: op_effect_def map_add_def fun_eq_iff split: option.split)

lemma served_names:
  assumes "rinv' (r_refs S)" and "list_refs_served F S [] acc = Inr names"
  shows "distinct names \<and> set names \<subseteq> dom (rabst' (r_refs S))"
proof -
  obtain ns where ns: "rb_list (env_refs F) (r_refs S) [] = Inr ns" "distinct ns" "set ns \<subseteq> dom (rabst' (r_refs S))"
    using src.rt.list_law [OF assms(1), of "[]"] by auto
  with assms(2) show ?thesis by (auto simp: list_refs_served_def list_refs_filtered_def bind_res_Inr)
qed

lemma advertise_names:
  assumes "rinv' (r_refs S)" and "list_refs_served F S [] acc = Inr names"
  shows "advertise F S acc = Inr (map (\<lambda>n. (n, ref_target (the (rabst' (r_refs S) n)))) names)"
proof -
  let ?f = "\<lambda>name out. bind_res (rb_get (env_refs F) (r_refs S) name) (\<lambda>cur. case cur of
           Some r \<Rightarrow> Inr (out @ [(name, ref_target r)])
         | None \<Rightarrow> Inr out)"
  have "set ns \<subseteq> dom (rabst' (r_refs S)) \<Longrightarrow>
      fold_res ?f ns out = Inr (out @ map (\<lambda>n. (n, ref_target (the (rabst' (r_refs S) n)))) ns)" for ns out
    by (induction ns arbitrary: out) (auto simp: src.rt.get_law [OF assms(1) all_fits(2) UNIV_I])
  with served_names [OF assms] assms(2) show ?thesis by (simp add: advertise_def)
qed

lemma fetch_result:
  assumes "transferable oinv oabst rinv E oinv' oabst' rinv' F Z R S" and "list_refs_served F S [] acc = Inr names"
    and "\<And>n. n \<in> set names \<Longrightarrow> valid_name (''refs/remotes/'' @ remote @ ''/'' @ n)"
  shows "\<exists>tracked R'. fetch E Z R remote F S acc = Inr (tracked, R') \<and>
    (\<forall>n \<in> set names. \<exists>v. rabst' (r_refs S) n = Some v \<and>
      rabst (r_refs R') (''refs/remotes/'' @ remote @ ''/'' @ n) = Some (policy_tag (ref_target v)) \<and>
      (\<forall>i obj. (ref_target v, i) \<in> (child_rel (repo_get F S))\<^sup>* \<longrightarrow> repo_get F S i = Inr (Some obj) \<longrightarrow>
        repo_get E R' i = Inr (Some obj))) \<and>
    (\<forall>m. (\<forall>n \<in> set names. m \<noteq> ''refs/remotes/'' @ remote @ ''/'' @ n) \<longrightarrow> rabst (r_refs R') m = rabst (r_refs R) m)"
proof -
  let ?track = "\<lambda>n. ''refs/remotes/'' @ remote @ ''/'' @ n" and ?target = "\<lambda>n. ref_target (the (rabst' (r_refs S) n))"
  have inv: "rinv (r_refs R)" "rinv' (r_refs S)" "oinv' (r_objects S)" "oinv (r_objects R)"
    and agree: "\<And>i c d. oabst (r_objects R) i = Some c \<Longrightarrow> oabst' (r_objects S) i = Some d \<Longrightarrow> c = d"
    using assms(1) unfolding transferable_def by auto
  have names: "distinct names" "set names \<subseteq> dom (rabst' (r_refs S))" using served_names [OF inv(2) assms(2)] by auto
  define kvs where "kvs = map (\<lambda>n. (?track n, policy_tag (?target n))) names"
  obtain k s where s: "sync_transfer E Z R F S (map ?target names) = Inr (k, R\<lparr>r_objects := s\<rparr>)" "oinv s"
    "oabst s = (\<lambda>i. case oabst (r_objects R) i of Some d \<Rightarrow> Some d
      | None \<Rightarrow> if i \<in> (child_rel (repo_get F S))\<^sup>* `` set (map ?target names) then oabst' (r_objects S) i else None)"
    using transfer_complete [OF assms(1)] by blast
  have tracked: "map_res (\<lambda>(name, target). bind_res (tracking_ref remote name) (\<lambda>tracking. Inr (tracking, target)))
      (map (\<lambda>n. (n, ?target n)) names) = Inr (map (\<lambda>n. (?track n, ?target n)) names)"
    by (subst map_res_Inr_map [where g = "\<lambda>(n, x). (?track n, x)"])
      (use assms(3) in \<open>auto simp: tracking_ref_def valid_name_iff [THEN iffD2]\<close>)
  have ops: "map (\<lambda>(tracking, target). SetRef tracking (policy_tag target)) (map (\<lambda>n. (?track n, ?target n)) names) =
      map (\<lambda>(k, v). SetRef k v) kvs" by (simp add: kvs_def)
  obtain rs where rs: "commit_transaction (env_refs E) (r_refs R) (map (\<lambda>(k, v). SetRef k v) kvs) = Inr rs"
    "rabst rs = rabst (r_refs R) ++ map_of (rev kvs)"
    using dst.rt.commit_refines [OF inv(1) all_fits(1) subset_UNIV, of "map (\<lambda>(k, v). SetRef k v) kvs"]
    by (auto simp: fold_set_refs)
  have run: "fetch E Z R remote F S acc = Inr (map (\<lambda>n. (?track n, ?target n)) names, R\<lparr>r_objects := s, r_refs := rs\<rparr>)"
  proof -
    have wants: "map snd (map (\<lambda>n. (n, ?target n)) names) = map ?target names" by simp
    have com: "repo_commit E (R\<lparr>r_objects := s\<rparr>) (map (\<lambda>(k, v). SetRef k v) kvs) = Inr (R\<lparr>r_objects := s, r_refs := rs\<rparr>)"
      by (simp add: repo_commit_def rs(1))
    show ?thesis
      by (simp only: fetch_def advertise_names [OF inv(2) assms(2)] bind_res_simps wants s(1) prod.case tracked ops com)
  qed
  have map: "map_of (rev kvs) = map_of kvs"
    by (rule map_of_inject_set [THEN iffD2]) (use names(1) in \<open>auto simp: kvs_def distinct_map inj_on_def rev_map\<close>)
  have hit: "map_of kvs (?track n) = Some (policy_tag (?target n))" if "n \<in> set names" for n
    by (rule map_of_is_SomeI) (use names(1) that in \<open>auto simp: kvs_def distinct_map inj_on_def\<close>)
  have miss: "map_of kvs m = None" if "\<forall>n \<in> set names. m \<noteq> ?track n" for m
    using that by (auto simp: map_of_eq_None_iff kvs_def)
  have got: "repo_get E (R\<lparr>r_objects := s, r_refs := rs\<rparr>) i = Inr (Some obj)"
    if i: "n \<in> set names" "(?target n, i) \<in> (child_rel (repo_get F S))\<^sup>*" "repo_get F S i = Inr (Some obj)" for n i obj
  proof -
    obtain d where "oabst' (r_objects S) i = Some d" using src_get [OF inv(3), of i] i(3) by auto
    moreover have "i \<in> (child_rel (repo_get F S))\<^sup>* `` set (map ?target names)" using i(1,2) by auto
    ultimately have "oabst s i = oabst' (r_objects S) i" unfolding s(3) using agree [of i] by (auto split: option.split)
    then show ?thesis using same_object [of "R\<lparr>r_objects := s, r_refs := rs\<rparr>" S i] s(2) inv(3) i(3) by simp
  qed
  show ?thesis
  proof (intro exI conjI, rule run, intro ballI)
    fix n
    assume n: "n \<in> set names"
    then obtain v where "rabst' (r_refs S) n = Some v" using names(2) by auto
    with hit [OF n] got [OF n] show "\<exists>v. rabst' (r_refs S) n = Some v \<and>
      rabst (r_refs (R\<lparr>r_objects := s, r_refs := rs\<rparr>)) (?track n) = Some (policy_tag (ref_target v)) \<and>
      (\<forall>i obj. (ref_target v, i) \<in> (child_rel (repo_get F S))\<^sup>* \<longrightarrow> repo_get F S i = Inr (Some obj) \<longrightarrow>
        repo_get E (R\<lparr>r_objects := s, r_refs := rs\<rparr>) i = Inr (Some obj))"
      by (intro exI [of _ v]) (auto simp: rs(2) map)
  qed (use miss in \<open>auto simp: rs(2) map map_add_def\<close>)
qed

end

interpretation mempair: sync_pair mem_inv map_of "\<lambda>_. True" mr_inv "\<lambda>_ _. True" map_of "memory_env C ed"
    mem_inv map_of "\<lambda>_. True" mr_inv "\<lambda>_ _. True" map_of "memory_env C ed'" for C ed ed'
  by (intro sync_pair.intro sync_pair_axioms.intro memrepo.repo_stores_axioms) simp_all

text \<open>
  C5. A fetch succeeds and leaves a usable history. Let the source be readable, the local store closed
  (the children of a stored object are stored), ids mean the same bytes on both sides, zstd compress every object, any objects of the source together stay
  within the limits of a pack, the names of the tracking refs be valid, and the backends store every object and hold
  every set of ref names, as those in memory do. Then each ref that the source serves to the accessor is tracked at its target, every
  object of the source reachable from that target is stored locally with the same content, and no
  other local ref has changed.
\<close>

theorem fetch_complete:
  assumes "sync_pair oinv oabst storable rinv fits rabst E oinv' oabst' storable' rinv' fits' rabst' F"
    and "transferable oinv oabst rinv E oinv' oabst' rinv' F Z R S"
    and "list_refs_served F S [] acc = Inr names"
    and "\<forall>n \<in> set names. valid_name (''refs/remotes/'' @ remote @ ''/'' @ n)"
  shows "\<exists>tracked R'. fetch E Z R remote F S acc = Inr (tracked, R') \<and>
    (\<forall>n \<in> set names. \<exists>v. rabst' (r_refs S) n = Some v \<and>
      rabst (r_refs R') (''refs/remotes/'' @ remote @ ''/'' @ n) = Some (policy_tag (ref_target v)) \<and>
      (\<forall>i obj. (ref_target v, i) \<in> (child_rel (repo_get F S))\<^sup>* \<longrightarrow> repo_get F S i = Inr (Some obj) \<longrightarrow>
        repo_get E R' i = Inr (Some obj))) \<and>
    (\<forall>m. (\<forall>n \<in> set names. m \<noteq> ''refs/remotes/'' @ remote @ ''/'' @ n) \<longrightarrow> rabst (r_refs R') m = rabst (r_refs R) m)"
  using sync_pair.fetch_result [OF assms(1-3)] assms(4) by blast

section \<open>Frames\<close>

text \<open>
  Messages survive a byte stream however it is chopped: of a stream in which a frame starts, with any
  number of its bytes received so far, the reader asks for more until the whole frame is there and then
  returns exactly the body and the position after it; a body over the cap is an error as soon as its
  header has arrived, before anything is buffered for it.
\<close>

lemma frame_incremental:
  assumes "length body < 2 ^ 32"
  shows "deframe (take k (pre @ frame body @ rest)) (length pre) =
    (if k < length pre + 4 then Inr (None, length pre)
     else if length body > MAX_FRAME_LEN then
       Inl (Storage (''frame length '' @ show_nat (length body) @ '' exceeds cap '' @ show_nat MAX_FRAME_LEN))
     else if k < length pre + 4 + length body then Inr (None, length pre)
     else Inr (Some body, length pre + 4 + length body))"
proof (cases "k < length pre + 4")
  case True
  then show ?thesis by (simp add: deframe_def min_less_iff_disj del: take_append)
next
  case False
  define B where "B = take k (pre @ frame body @ rest)"
  obtain m where k: "k = length pre + (4 + m)" using False by (metis add.assoc le_Suc_ex not_less)
  have buf: "B = pre @ le_bytes 4 (length body) @ take m (body @ rest)"
    using assms by (simp add: B_def frame_def k take_add)
  have len: "from_le (take 4 (drop (length pre) B)) = length body"
    unfolding buf using assms by (simp add: from_le_le_bytes)
  have "length pre + 4 \<le> length B" unfolding buf by simp
  moreover have "length B < length pre + 4 + length body \<longleftrightarrow> m < length body" unfolding buf by auto
  moreover have "take (length body) (drop (length pre + 4) B) = body" if "\<not> m < length body"
    unfolding buf using that by simp
  moreover have "k < length pre + 4 + length body \<longleftrightarrow> m < length body" using k by simp
  ultimately show ?thesis using False
    unfolding B_def [symmetric] by (simp add: deframe_def len Let_def)
qed

section \<open>Refusals and acceptances that disagree with the local rules\<close>

text \<open>The snapshots within a number of parent steps of a snapshot.\<close>

definition within :: "getter \<Rightarrow> nat \<Rightarrow> oid \<Rightarrow> oid set" where
  "within get k a = {x. \<exists>j \<le> k. (a, x) \<in> parent_rel get ^^ j}"

lemma within_0 [simp]: "within get 0 a = {a}"
  by (auto simp: within_def)

lemma within_Suc: "within get (Suc k) a = within get k a \<union> parent_rel get `` within get k a"
proof
  show "within get (Suc k) a \<subseteq> within get k a \<union> parent_rel get `` within get k a"
  proof
    fix x
    assume "x \<in> within get (Suc k) a"
    then obtain j where j: "j \<le> Suc k" "(a, x) \<in> parent_rel get ^^ j" by (auto simp: within_def)
    show "x \<in> within get k a \<union> parent_rel get `` within get k a"
    proof (cases "j = Suc k")
      case True
      with j(2) obtain y where "(a, y) \<in> parent_rel get ^^ k" "(y, x) \<in> parent_rel get" by auto
      then show ?thesis by (intro UnI2 ImageI) (auto simp: within_def)
    qed (use j in \<open>auto simp: within_def le_Suc_eq\<close>)
  qed
  have "y \<in> within get (Suc k) a" if "x \<in> within get k a" "(x, y) \<in> parent_rel get" for x y
  proof -
    from that(1) obtain j where "j \<le> k" "(a, x) \<in> parent_rel get ^^ j" by (auto simp: within_def)
    with that(2) show ?thesis unfolding within_def by (intro CollectI exI [of _ "Suc j"]) auto
  qed
  then show "within get k a \<union> parent_rel get `` within get k a \<subseteq> within get (Suc k) a"
    by (auto simp: within_def intro: le_SucI)
qed

lemma within_mono: "k \<le> m \<Longrightarrow> within get k a \<subseteq> within get m a"
  by (auto simp: within_def intro: le_trans)

lemma within_stable: "within get (Suc k) a = within get k a \<Longrightarrow> k \<le> m \<Longrightarrow> within get m a = within get k a"
  by (rule dec_induct) (auto simp: within_Suc)

text \<open>What one side of the search has visited after a number of rounds, and the frontier it goes on from.\<close>

definition layered :: "getter \<Rightarrow> nat \<Rightarrow> oid \<Rightarrow> oid list \<Rightarrow> oid set \<Rightarrow> bool" where
  "layered get k a fr V \<longleftrightarrow> V = within get k a \<and> set fr \<subseteq> V \<and> parent_rel get `` (V - set fr) \<subseteq> V"

lemma layered_expand:
  assumes "layered get k a fr V" and "set fr' = parent_rel get `` set fr - V"
  shows "V \<union> parent_rel get `` set fr = within get (Suc k) a" and "layered get (Suc k) a fr' (V \<union> parent_rel get `` set fr)"
proof -
  have V: "V = within get k a" "set fr \<subseteq> V" "parent_rel get `` (V - set fr) \<subseteq> V" using assms(1) unfolding layered_def by blast+
  have up: "parent_rel get `` V \<subseteq> V \<union> parent_rel get `` set fr" using V(2,3) by (auto simp: Image_iff)
  with V(2) show step: "V \<union> parent_rel get `` set fr = within get (Suc k) a" unfolding within_Suc V(1) [symmetric] by blast
  have "V \<union> parent_rel get `` set fr - set fr' \<subseteq> V" using assms(2) by blast
  then have "parent_rel get `` (V \<union> parent_rel get `` set fr - set fr') \<subseteq> V \<union> parent_rel get `` set fr"
    using up by (meson Image_mono order_refl order_trans)
  then show "layered get (Suc k) a fr' (V \<union> parent_rel get `` set fr)" using step assms(2) by (auto simp: layered_def)
qed

text \<open>The search stops within \<open>m\<close> rounds when the two histories meet within \<open>m\<close> steps, at a snapshot that close to the second.\<close>

lemma common_loop_bound:
  assumes "readable get" and "layered get k a fa va" and "layered get k b fb vb" and "va \<inter> vb = {}"
    and "k \<le> m" and "within get m a \<inter> within get m b \<noteq> {}"
  shows "\<exists>c \<in> within get m b. common_loop get fa va fb vb = Inr (Some c)"
  using assms(2-5)
proof (induction "m - k" arbitrary: k fa va fb vb)
  case 0
  then show ?case using assms(6) by (auto simp: layered_def)
next
  case (Suc d)
  let ?E = "parent_rel get"
  have k: "Suc k \<le> m" "d = m - Suc k" using Suc.hyps(2) by simp_all
  obtain fa' ga where A: "expand_frontier get fa va = Inr (fa', va \<union> ?E `` set fa, ga)"
    "set fa' = ?E `` set fa - va" "ga \<longleftrightarrow> ?E `` set fa - va \<noteq> {}"
    using expand_frontier_result [OF assms(1), of fa va] by (elim exE conjE)
  obtain fb' gb where B: "expand_frontier get fb vb = Inr (fb', vb \<union> ?E `` set fb, gb)"
    "set fb' = ?E `` set fb - vb" "gb \<longleftrightarrow> ?E `` set fb - vb \<noteq> {}"
    using expand_frontier_result [OF assms(1), of fb vb] by (elim exE conjE)
  let ?va = "va \<union> ?E `` set fa" and ?vb = "vb \<union> ?E `` set fb"
  note la = layered_expand [OF Suc.prems(1) A(2)] and lb = layered_expand [OF Suc.prems(2) B(2)]
  have near: "vb \<subseteq> within get m b" "?vb \<subseteq> within get m b"
    using Suc.prems(2,4) k(1) lb(1) within_mono [of k m] within_mono [of "Suc k" m] by (auto simp: layered_def)
  show ?case
  proof (cases "find_in ?va vb")
    case (Some c)
    then show ?thesis using A(1) find_in_Some [OF Some] near(1) by (intro bexI [of _ c]) auto
  next
    case None
    show ?thesis
    proof (cases "find_in ?vb ?va")
      case (Some c)
      then show ?thesis using A(1) B(1) None find_in_Some [OF Some] near(2) by (intro bexI [of _ c]) auto
    next
      case None2: None
      then have apart: "?va \<inter> ?vb = {}" unfolding find_in_None by blast
      have grew: "\<not> (\<not> ga \<and> \<not> gb)"
      proof
        assume "\<not> ga \<and> \<not> gb"
        then have "?va = va" "?vb = vb" using A(3) B(3) by blast+
        then have "within get (Suc k) a = within get k a" "within get (Suc k) b = within get k b"
          using la(1) lb(1) Suc.prems(1,2) by (simp_all add: layered_def)
        then have "within get m a = within get k a" "within get m b = within get k b"
          using within_stable Suc.prems(4) by blast+
        then show False using assms(6) Suc.prems(1-3) by (simp add: layered_def)
      qed
      have "common_loop get fa va fb vb = common_loop get fa' ?va fb' ?vb"
        by (subst common_loop.simps) (use A(1) B(1) None None2 grew in \<open>auto simp del: common_loop.simps\<close>)
      with Suc.hyps(1) [OF k(2) la(2) lb(2) apart k(1)] show ?thesis by (simp only:)
    qed
  qed
qed

lemma search_misses_old:
  assumes "readable get" and "within get m old \<inter> within get m new \<noteq> {}" and "old \<notin> within get m new"
  shows "\<exists>c. find_common_ancestor get old new = Inr (Some c) \<and> c \<noteq> old"
proof -
  have "new \<in> within get m new" using within_mono [of 0 m get new] by simp
  with assms(3) have "old \<noteq> new" by blast
  moreover have "layered get 0 x [x] {x}" for x by (simp add: layered_def)
  ultimately show ?thesis
    using common_loop_bound [OF assms(1), of 0 old "[old]" "{old}" new "[new]" "{new}" m] assms(2,3)
    by (auto simp: find_common_ancestor_def simp del: common_loop.simps)
qed

lemma one_push:
  assumes "repo_rules E R = Inr rules" and "policy_registry E R = Inr reg" and "reg_deterministic reg"
    and "push_verdict E R two_point rules reg acc op = Inr v"
  shows "apply_push_ops E R acc [op] = (case v of
      Some status \<Rightarrow> Inr ([status_entry op status], R)
    | None \<Rightarrow> (case repo_commit E R [update_op op] of
        Inr R' \<Rightarrow> Inr ([status_entry op ApplyOk], R')
      | Inl (TransactionConflict m) \<Rightarrow> bind_res (server_head (env_refs E) (r_refs R) (ru_name op)) (\<lambda>h. Inr ([status_entry op (ApplyNonFastForward h)], R))
      | Inl e \<Rightarrow> Inl e))"
  using assms by (cases v; cases "server_head (env_refs E) (r_refs R) (ru_name op)")
    (auto simp: apply_push_ops_def get_lattice_def push_filter_def split: sum.split error.split)

text \<open>A push of one timeline that passes every check before the one on descent.\<close>

definition admitted :: "('o, 'r, 'a) repo_env \<Rightarrow> ('o, 'r, 'a) repository \<Rightarrow> accessor \<Rightarrow> ref_name \<Rightarrow> timeline \<Rightarrow> oid \<Rightarrow> bool" where
  "admitted E R acc n t new \<longleftrightarrow> pushable E R acc n new \<and> get_timeline (env_refs E) (r_refs R) n = Inr (Some t) \<and>
     (\<exists>reg. policy_registry E R = Inr reg \<and> reg_deterministic reg)"

lemma admitted_verdict:
  assumes "readable (repo_get E R)" and "admitted E R acc n t new" and "repo_rules E R = Inr rules"
    and "find_common_ancestor (repo_get E R) (tl_head t) new = Inr anc"
  shows "push_verdict E R two_point rules reg acc \<lparr>ru_name = n, ru_expected_old = Some (tl_head t), ru_new_head = new\<rparr> =
    (if tl_policy t \<noteq> Unrestricted \<and> anc \<noteq> Some (tl_head t) then Inr (Some (ApplyNonFastForward (tl_head t)))
     else case evaluate_replayable reg (repo_context E R (EvAdvance n (tl_head t) new) acc) of
         PAllow \<Rightarrow> Inr None | PDeny reason \<Rightarrow> Inr (Some (ApplyDenied reason)) | PNeeds reason _ \<Rightarrow> Inr (Some (ApplyDenied reason)))"
proof -
  obtain sn where ok: "\<not> reserved_namespace n" "can_write acc (label_for_timeline rules two_point n) (ResTimeline n)"
    "repo_get E R new = Inr (Some (OSnapshot sn))" "complete_closure (repo_get E R) new"
    "get_timeline (env_refs E) (r_refs R) n = Inr (Some t)"
    using assms(2,3) by (auto simp: admitted_def pushable_def)
  have "closure_present (repo_get E R) new = Inr True" using closure_present_correct [OF assms(1), of new] ok(4) by simp
  with ok assms(4) show ?thesis by (simp add: push_verdict_def as_snapshot_def)
qed

text \<open>
  C36. The push gate refuses fast-forwards. Let a push move a timeline that must not be rewritten from its head to a descendant, and let it pass
  every check before the one on descent. If the histories of the old and the new head meet within \<open>m\<close> parent steps of each,
  at an older snapshot, while the old head itself is more than \<open>m\<close> steps from the new one, then the gate, which asks whether the
  common ancestor it finds first is the old head, answers with a non-fast-forward and changes nothing; the
  check that the local advance makes, whether the old head is an ancestor of the new one, says that it is.
\<close>

theorem fast_forward_push_refused:
  assumes "readable (repo_get E R)" and "admitted E R acc n t new" and "tl_policy t \<noteq> Unrestricted"
    and "(new, tl_head t) \<in> (parent_rel (repo_get E R))\<^sup>*"
    and "within (repo_get E R) m (tl_head t) \<inter> within (repo_get E R) m new \<noteq> {}" and "tl_head t \<notin> within (repo_get E R) m new"
  shows "is_ancestor (repo_get E R) (tl_head t) new = Inr True \<and>
    apply_push_ops E R acc [\<lparr>ru_name = n, ru_expected_old = Some (tl_head t), ru_new_head = new\<rparr>] =
      Inr ([\<lparr>rse_name = n, rse_status = ApplyNonFastForward (tl_head t)\<rparr>], R)"
proof -
  obtain c where c: "find_common_ancestor (repo_get E R) (tl_head t) new = Inr (Some c)" "c \<noteq> tl_head t"
    using search_misses_old [OF assms(1,5,6)] by blast
  obtain rules reg where rules: "repo_rules E R = Inr rules" and reg: "policy_registry E R = Inr reg" "reg_deterministic reg"
    using assms(2) by (auto simp: admitted_def pushable_def)
  from admitted_verdict [OF assms(1,2) rules c(1), of reg] c(2) assms(3)
  show ?thesis using one_push [OF rules reg] is_ancestor_correct [OF assms(1)] assms(4) by simp
qed

text \<open>
  C37. The push gate does not ask about paths. Let a push of a timeline pass the checks on the name, the write right on the timeline, the
  closure, descent and the replayable hooks, and let the new tree hold a file that the accessor may not write. The push is
  accepted and moves the head, although no local advance of the same accessor to the same snapshot succeeds. The backend must be able to hold the name.
\<close>

theorem push_bypasses_path_rules:
  assumes "repo_stores oinv oabst storable rinv fits rabst E" and "rinv (r_refs R)" and "fits (r_refs R) {n}" and "readable (repo_get E R)"
    and "admitted E R acc n t new" and "find_common_ancestor (repo_get E R) (tl_head t) new = Inr (Some (tl_head t))"
    and "policy_registry E R = Inr reg" and "evaluate_replayable reg (repo_context E R (EvAdvance n (tl_head t) new) acc) = PAllow"
    and "repo_rules E R = Inr rules" and "repo_get E R new = Inr (Some (OSnapshot sn))"
    and "p \<in> files_of E R (root sn)" and "\<not> may_write_path acc two_point rules p"
  shows "(\<exists>R'. apply_push_ops E R acc [\<lparr>ru_name = n, ru_expected_old = Some (tl_head t), ru_new_head = new\<rparr>] =
        Inr ([\<lparr>rse_name = n, rse_status = ApplyOk\<rparr>], R') \<and> rabst (r_refs R') = (rabst (r_refs R))(n \<mapsto> RTimeline (t\<lparr>tl_head := new\<rparr>))) \<and>
    (\<nexists>R'. advance_timeline_expecting E R n new expected acc = (Inr (), R'))"
proof
  have det: "reg_deterministic reg" and tl: "get_timeline (env_refs E) (r_refs R) n = Inr (Some t)"
    using assms(5,7) by (auto simp: admitted_def)
  have t: "rabst (r_refs R) n = Some (RTimeline t)"
    using repo_stores.get_timeline_Some [OF assms(1-3)] tl by blast
  let ?op = "\<lparr>ru_name = n, ru_expected_old = Some (tl_head t), ru_new_head = new\<rparr>"
  have "fold_res op_effect [AdvanceHeadIf n (tl_head t) new] (rabst (r_refs R)) = Inr ((rabst (r_refs R))(n \<mapsto> RTimeline (t\<lparr>tl_head := new\<rparr>)))"
    using t by (simp add: op_effect_def)
  moreover have rt: "ref_table rinv fits rabst (env_refs E)" using assms(1) by (simp add: repo_stores_def)
  ultimately obtain rs where rs: "commit_transaction (env_refs E) (r_refs R) [AdvanceHeadIf n (tl_head t) new] = Inr rs"
    "rabst rs = (rabst (r_refs R))(n \<mapsto> RTimeline (t\<lparr>tl_head := new\<rparr>))"
    using ref_table.commit_refines [OF rt assms(2,3), of "[AdvanceHeadIf n (tl_head t) new]"] by auto
  have "push_verdict E R two_point rules reg acc ?op = Inr None"
    using admitted_verdict [OF assms(4,5,9,6)] assms(8) by simp
  from one_push [OF assms(9,7) det this] rs
  show "\<exists>R'. apply_push_ops E R acc [?op] = Inr ([\<lparr>rse_name = n, rse_status = ApplyOk\<rparr>], R') \<and>
      rabst (r_refs R') = (rabst (r_refs R))(n \<mapsto> RTimeline (t\<lparr>tl_head := new\<rparr>))"
    by (simp add: repo_commit_def update_op_def)
  have "\<not> advance_allowed E R n new acc t'" for t'
    using assms(9-12) unfolding advance_allowed_def by auto
  then show "\<nexists>R'. advance_timeline_expecting E R n new expected acc = (Inr (), R')"
    using repo_stores.advance_iff [OF assms(1-3) singletonI assms(4)] by blast
qed

text \<open>
  The in-process push refuses every new head. Before it transfers any object it looks for the common
  ancestor in the store of the peer; a head that the peer does not have yet has no known parents
  there, so a push to an existing timeline whose policy forbids rewriting is answered with a
  non-fast-forward, whether or not it is one, and nothing is transferred.
\<close>

lemma new_head_push_refused:
  assumes "readable (repo_get F to)" and "repo_get F to (tl_head local) = Inr None"
    and "get_timeline (env_refs E) (r_refs R) name = Inr (Some local)" and "tracking_ref remote name = Inr tracking"
    and "get_tag (env_refs E) (r_refs R) tracking = Inr (Some seen)" and "tag_target seen \<noteq> tl_head local"
    and "(tag_target seen, tl_head local) \<notin> (parent_rel (repo_get F to))\<^sup>*"
    and "get_timeline (env_refs F) (r_refs to) name = Inr (Some rtl)" and "tl_policy rtl \<noteq> Unrestricted"
    and "\<not> reserved_namespace name" and "repo_rules F to = Inr rules"
    and "can_write acc (label_for_timeline rules two_point name) (ResTimeline name)"
    and "policy_registry F to = Inr reg" and "reg_deterministic reg"
  shows "push E Z R remote F to [name] acc = Inr ([(name, PushNonFastForward (tl_head rtl))], R, to)"
proof -
  have "find_common_ancestor (repo_get F to) (tag_target seen) (tl_head local) = Inr None"
    by (rule common_ancestor_unknown [OF assms(1,2,6,7)])
  then have "push_plan_one E R remote F to two_point rules reg acc name = Inr (Inl (PushNonFastForward (tl_head rtl)))"
    using assms by (simp add: push_plan_one_def Let_def)
  then show ?thesis using assms by (simp add: push_def get_lattice_def)
qed

section \<open>Instances\<close>

text \<open>
  A history in which a side branch of the first snapshot (4) is merged (6) two snapshots after the head
  of the timeline (2); each snapshot has the same tree of one file.
\<close>

definition merged_objects :: "object list" where
  "merged_objects = [OTree \<lparr>entries = [(''f'', \<lparr>te_id = 7, te_kind = KBlob\<rparr>)]\<rparr>, snap [], snap [1], snap [2], snap [1], snap [3],
     snap [5, 4], OBlob \<lparr>blob_data = []\<rparr>]"

definition merged_repo :: "(mem_store, mem_refs, mem_acl) repository" where
  "merged_repo = memory_repo\<lparr>r_objects := map (\<lambda>i. (of_nat i, [of_nat i])) [0..<8],
     r_refs := [(''main'', RTimeline \<lparr>tl_head = 2, tl_policy = FastForwardOnly, tl_created_at = 0,
       tl_kind = ''persistent'', tl_expires_at = None\<rparr>)]\<rparr>"

abbreviation merged_env :: "(mem_store, mem_refs, mem_acl) repo_env" where
  "merged_env \<equiv> memory_env (table_codec merged_objects) plain_scheme"

text \<open>An accessor that may also write the file.\<close>

definition editor :: accessor where
  "editor = with_path_role writer \<lparr>pr_glob = ''f'', pr_permission = PermWrite\<rparr>"

definition main_at_2 :: timeline where
  "main_at_2 = \<lparr>tl_head = 2, tl_policy = FastForwardOnly, tl_created_at = 0, tl_kind = ''persistent'', tl_expires_at = None\<rparr>"

lemma merged_get:
  "repo_get merged_env merged_repo 1 = Inr (Some (snap []))" "repo_get merged_env merged_repo 2 = Inr (Some (snap [1]))"
  "repo_get merged_env merged_repo 3 = Inr (Some (snap [2]))" "repo_get merged_env merged_repo 4 = Inr (Some (snap [1]))"
  "repo_get merged_env merged_repo 5 = Inr (Some (snap [3]))" "repo_get merged_env merged_repo 6 = Inr (Some (snap [5, 4]))"
  by code_simp+

lemma snap_parents [simp]: "snapshot_parents (Some (snap ps)) = ps"
  by (simp add: snapshot_parents_def snap_def)

lemma merged_search: "find_common_ancestor (repo_get merged_env merged_repo) 2 3 = Inr (Some 2)"
proof -
  let ?g = "repo_get merged_env merged_repo"
  have "expand_frontier ?g [2] {2} = Inr ([1], {2, 1}, True)" "expand_frontier ?g [3] {3} = Inr ([2], {3, 2}, True)"
    by (simp_all add: expand_frontier_def merged_get insert_commute del: memory_env_simps)
  moreover have "find_in {2, 1} {3} = None" "find_in {3, 2} {2, 1} = Some 2" by (simp_all add: find_in_def)
  ultimately show ?thesis by (simp add: find_common_ancestor_def del: memory_env_simps)
qed

lemma merged_facts:
  "repo_rules merged_env merged_repo = Inr []" "\<not> reserved_namespace ''main''"
  "can_write writer (label_for_timeline [] two_point ''main'') (ResTimeline ''main'')"
  "can_write editor (label_for_timeline [] two_point ''main'') (ResTimeline ''main'')"
  "closure_present (repo_get merged_env merged_repo) 6 = Inr True"
  "closure_present (repo_get merged_env merged_repo) 3 = Inr True"
  "get_timeline (env_refs merged_env) (r_refs merged_repo) ''main'' = Inr (Some \<lparr>tl_head = 2, tl_policy = FastForwardOnly, tl_created_at = 0,
       tl_kind = ''persistent'', tl_expires_at = None\<rparr>)"
  "is_ancestor (repo_get merged_env merged_repo) 2 6 = Inr True"
  "is_ancestor (repo_get merged_env merged_repo) 2 3 = Inr True"
  "as_snapshot (Some (snap ps)) \<noteq> None"
  by code_simp+

lemma merged_registry: "policy_registry merged_env merged_repo = Inr registry_new"
proof -
  have "policy_root_of merged_env merged_repo = Inr None" "r_hooks merged_repo = []" by code_simp+
  then show ?thesis by (simp add: policy_registry_def push_specs_def)
qed

lemma merged_verdict:
  "push_verdict merged_env merged_repo two_point [] registry_new writer \<lparr>ru_name = ''main'', ru_expected_old = Some 2, ru_new_head = 3\<rparr> = Inr None"
proof -
  have "evaluate_replayable registry_new (repo_context merged_env merged_repo (EvAdvance ''main'' 2 3) writer) = PAllow"
    by code_simp
  then show ?thesis by (simp add: push_verdict_def merged_facts merged_get merged_search del: memory_env_simps)
qed

lemma merged_push_applied:
  "\<exists>R' t. apply_push_ops merged_env merged_repo writer [\<lparr>ru_name = ''main'', ru_expected_old = Some 2, ru_new_head = 3\<rparr>] =
       Inr ([\<lparr>rse_name = ''main'', rse_status = ApplyOk\<rparr>], R') \<and>
     map_of (r_refs R') ''main'' = Some (RTimeline t) \<and> tl_head t = 3"
proof -
  have "case repo_commit merged_env merged_repo [AdvanceHeadIf ''main'' 2 3] of Inl _ \<Rightarrow> False
    | Inr R' \<Rightarrow> (case map_of (r_refs R') ''main'' of Some (RTimeline t) \<Rightarrow> tl_head t = 3 | _ \<Rightarrow> False)" by code_simp
  then obtain R' t where R': "repo_commit merged_env merged_repo [AdvanceHeadIf ''main'' 2 3] = Inr R'"
    "map_of (r_refs R') ''main'' = Some (RTimeline t)" "tl_head t = 3"
    by (auto split: sum.splits option.splits ref.splits)
  have "reg_deterministic registry_new" by code_simp
  then have "apply_push_ops merged_env merged_repo writer [\<lparr>ru_name = ''main'', ru_expected_old = Some 2, ru_new_head = 3\<rparr>] =
      Inr ([\<lparr>rse_name = ''main'', rse_status = ApplyOk\<rparr>], R')"
    by (simp add: apply_push_ops_def get_lattice_def merged_facts merged_registry push_filter_def merged_verdict update_op_def R'(1)
        del: memory_env_simps)
  with R' show ?thesis by blast
qed

lemma merged_good:
  "mem_inv (r_objects merged_repo)" "mr_inv (r_refs merged_repo)" "readable (repo_get merged_env merged_repo)"
  subgoal unfolding mem_inv_def by code_simp
  subgoal by (simp add: mr_inv_def merged_repo_def)
  subgoal unfolding memory_env_simps by (rule readable_memory) code_simp
  done

lemma merged_admits:
  "admitted merged_env merged_repo editor ''main'' main_at_2 6" "admitted merged_env merged_repo writer ''main'' main_at_2 3"
proof -
  have "reg_deterministic registry_new" by code_simp
  moreover have "complete_closure (repo_get merged_env merged_repo) 6" "complete_closure (repo_get merged_env merged_repo) 3"
    using closure_present_correct [OF merged_good(3)] merged_facts(5,6) by simp_all
  ultimately show "admitted merged_env merged_repo editor ''main'' main_at_2 6" "admitted merged_env merged_repo writer ''main'' main_at_2 3"
    unfolding admitted_def pushable_def
    using merged_facts(1-4,7) merged_get(3,6) merged_registry by (simp_all add: snap_def main_at_2_def del: memory_env_simps)
qed

lemma merged_parents: "parent_rel (repo_get merged_env merged_repo) `` {6} = {5, 4}" "parent_rel (repo_get merged_env merged_repo) `` {5} = {3}"
  "parent_rel (repo_get merged_env merged_repo) `` {4} = {1}" "parent_rel (repo_get merged_env merged_repo) `` {2} = {1}"
  "parent_rel (repo_get merged_env merged_repo) `` {3} = {2}"
  using merged_get by (auto simp: parent_rel_def simp del: memory_env_simps)

lemma image_three: "r `` {x, y, z} = r `` {x} \<union> r `` {y} \<union> r `` {z}"
  by auto

theorem fast_forward_push_refused_witness:
  "apply_push_ops merged_env merged_repo editor [\<lparr>ru_name = ''main'', ru_expected_old = Some 2, ru_new_head = 6\<rparr>] =
     Inr ([\<lparr>rse_name = ''main'', rse_status = ApplyNonFastForward 2\<rparr>], merged_repo) \<and>
   fst (advance_timeline merged_env merged_repo ''main'' 6 editor) = Inr ()"
proof -
  let ?g = "repo_get merged_env merged_repo"
  have six: "within ?g 2 6 = {6, 5, 4, 3, 1}"
  proof -
    have union: "{6} \<union> {5, 4} = {6 :: oid, 5, 4}" by auto
    have "within ?g 2 6 = {6, 5, 4} \<union> parent_rel ?g `` {6, 5, 4}"
      unfolding numeral_2_eq_2 within_Suc within_0 merged_parents union ..
    also have "parent_rel ?g `` {6, 5, 4} = parent_rel ?g `` {6} \<union> parent_rel ?g `` {5} \<union> parent_rel ?g `` {4}"
      by (rule image_three)
    finally show ?thesis unfolding merged_parents by auto
  qed
  have two: "1 \<in> within ?g 2 2" unfolding numeral_2_eq_2 within_Suc within_0 merged_parents by simp
  have "(6, 2) \<in> (parent_rel ?g)\<^sup>*"
  proof -
    have "(6, 5) \<in> parent_rel ?g" "(5, 3) \<in> parent_rel ?g" "(3, 2) \<in> parent_rel ?g" using merged_parents by blast+
    then show ?thesis by (meson converse_rtrancl_into_rtrancl r_into_rtrancl)
  qed
  moreover have "within ?g 2 2 \<inter> within ?g 2 6 \<noteq> {}" "2 \<notin> within ?g 2 6" using six two by auto
  moreover have "fst (advance_timeline merged_env merged_repo ''main'' 6 editor) = Inr ()" by code_simp
  ultimately show ?thesis
    using fast_forward_push_refused [OF merged_good(3) merged_admits(1), of 2] by (simp add: main_at_2_def del: memory_env_simps)
qed

theorem push_bypasses_path_rules_witness:
  "(\<exists>R' t. apply_push_ops merged_env merged_repo writer [\<lparr>ru_name = ''main'', ru_expected_old = Some 2, ru_new_head = 3\<rparr>] =
       Inr ([\<lparr>rse_name = ''main'', rse_status = ApplyOk\<rparr>], R') \<and> map_of (r_refs R') ''main'' = Some (RTimeline t) \<and> tl_head t = 3) \<and>
   (\<nexists>R'. advance_timeline_expecting merged_env merged_repo ''main'' 3 None writer = (Inr (), R'))"
proof -
  have head: "tl_head main_at_2 = 2" by (simp add: main_at_2_def)
  have tree: "repo_get merged_env merged_repo 0 = Inr (Some (OTree \<lparr>entries = [(''f'', \<lparr>te_id = 7, te_kind = KBlob\<rparr>)]\<rparr>))" by code_simp
  have has: "''f'' \<in> files_of merged_env merged_repo 0"
  proof -
    have "set (blobs [] [(''f'', \<lparr>te_id = 7, te_kind = KBlob\<rparr>)]) = {(''f'', 7)}" by code_simp
    then show ?thesis using nested_files.simps(2) [of "repo_get merged_env merged_repo" 255 0 "[]"] tree
      by (simp add: as_tree_def del: memory_env_simps)
  qed
  have no: "\<not> may_write_path writer two_point [] ''f''" by code_simp
  have hooks: "evaluate_replayable registry_new (repo_context merged_env merged_repo (EvAdvance ''main'' (tl_head main_at_2) 3) writer) = PAllow"
    unfolding head by code_simp
  have snap3: "repo_get merged_env merged_repo 3 = Inr (Some (OSnapshot \<lparr>root = 0, parents = [2], author = [], created_at = 0, message = []\<rparr>))"
    using merged_get(3) by (simp add: snap_def)
  have anc: "find_common_ancestor (repo_get merged_env merged_repo) (tl_head main_at_2) 3 = Inr (Some (tl_head main_at_2))"
    unfolding head by (rule merged_search)
  from push_bypasses_path_rules [OF memrepo.repo_stores_axioms merged_good(2) TrueI merged_good(3) merged_admits(2) anc merged_registry hooks
      merged_facts(1) snap3 _ no, of None] has
  show ?thesis unfolding head by (auto simp del: memory_env_simps)
qed

theorem push_accepts_only_valid_witness: "pushable merged_env merged_repo writer ''main'' 3"
proof -
  obtain R' t where R': "apply_push_ops merged_env merged_repo writer [\<lparr>ru_name = ''main'', ru_expected_old = Some 2, ru_new_head = 3\<rparr>] =
      Inr ([\<lparr>rse_name = ''main'', rse_status = ApplyOk\<rparr>], R')" "map_of (r_refs R') ''main'' = Some (RTimeline t)" "tl_head t = 3"
    using merged_push_applied by blast
  have "map_of (r_refs R') ''main'' \<noteq> map_of (r_refs merged_repo) ''main''"
    using R'(2,3) by (auto simp: merged_repo_def)
  with push_accepts_only_valid [OF memrepo.repo_stores_axioms merged_good(2) TrueI merged_good(3) R'(1)] R'(2,3) show ?thesis
    by (metis option.inject ref.inject(2))
qed

theorem serve_fetch_confined_witness:
  "\<exists>out r. serve_fetch merged_env stored merged_repo editor [MHaveWant [3, 4] [1]] = (out, r, merged_repo)"
proof -
  obtain out r R' where run: "serve_fetch merged_env stored merged_repo editor [MHaveWant [3, 4] [1]] = (out, r, R')"
    using prod_cases3 by blast
  from serve_fetch_confined [OF merged_good(3) run] run show ?thesis by auto
qed

text \<open>A local repository one snapshot ahead of its peer.\<close>

definition ahead_repo :: "(mem_store, mem_refs, mem_acl) repository" where
  "ahead_repo = merged_repo\<lparr>r_refs := [(''main'', RTimeline \<lparr>tl_head = 3, tl_policy = FastForwardOnly, tl_created_at = 0,
       tl_kind = ''persistent'', tl_expires_at = None\<rparr>),
     (''refs/remotes/o/main'', policy_tag 2)]\<rparr>"

definition behind_repo :: "(mem_store, mem_refs, mem_acl) repository" where
  "behind_repo = merged_repo\<lparr>r_objects := filter (\<lambda>(i, _). i < 3) (r_objects merged_repo)\<rparr>"

lemma table_limits:
  assumes "distinct ids" and "set ids \<subseteq> dom (map_of (r_objects demo_repo))"
  shows "pack_limits (table_codec demo_objects) (map (\<lambda>i. (i, the (map_of (r_objects demo_repo) i))) ids)"
proof -
  have dom: "set ids \<subseteq> {0, 1, 2}" using assms(2) by (auto simp: demo_repo_def split: if_splits)
  have "length ids = card (set ids)" using distinct_card [OF assms(1)] by simp
  also have "\<dots> \<le> 3" using card_mono [OF _ dom] by simp
  finally have len: "length ids \<le> 3" .
  have one: "good_object (table_codec demo_objects) (i, the (map_of (r_objects demo_repo) i)) \<and>
      length (the (map_of (r_objects demo_repo) i)) = 1" if "i \<in> {0, 1, 2}" for i
    using that by (auto simp: demo_repo_def good_object_def from_content_def table_codec_def from_be_def MAX_OBJECT_LEN_def)
  have "set xs \<subseteq> {0, 1, 2} \<Longrightarrow> total_len (map (\<lambda>i. (i, the (map_of (r_objects demo_repo) i))) xs) = length xs" for xs
    using one by (induction xs) auto
  with dom len one show ?thesis
    by (auto simp: pack_limits_def list_all_iff MAX_PACK_OBJECTS_def MAX_PACK_TOTAL_LEN_def)
qed

theorem fetch_complete_witness:
  "\<exists>tracked R'. fetch demo_env stored memory_repo ''o'' demo_env demo_repo writer = Inr (tracked, R') \<and>
     (\<exists>t. map_of (r_refs R') ''refs/remotes/o/main'' = Some (policy_tag t))"
proof -
  have tr: "transferable mem_inv map_of mr_inv demo_env mem_inv map_of mr_inv demo_env stored memory_repo demo_repo"
    unfolding transferable_def
    by (intro conjI demo_good stored_ok allI impI table_limits)
      (simp_all add: memory_repo_def mem_inv_def mr_inv_def stored_def MAX_OBJECT_LEN_def table_limits)
  have names: "list_refs_served demo_env demo_repo [] writer = Inr [''main'']" by code_simp
  have ok: "\<forall>n \<in> set [''main'']. valid_name (''refs/remotes/'' @ ''o'' @ ''/'' @ n)" by code_simp
  from fetch_complete [OF mempair.sync_pair_axioms tr names ok] show ?thesis by auto
qed

end
