(* ===== verification/Object_Writes.thy ===== *)
theory Object_Writes
  imports Object_Graph
begin

text \<open>
  Writing objects through any lawful backend: the id of an object, the condition that no two of finitely
  many objects collide, and, under it, that a write succeeds, keeps what was readable and makes the
  object readable under its id. Operations that write several objects in a row rest on these lemmas.
\<close>

section \<open>Ids and collisions\<close>

definition obj_id :: "ocodec \<Rightarrow> object \<Rightarrow> oid" where
  "obj_id C obj = (case serialize C obj of Inr data \<Rightarrow> object_id C data | Inl _ \<Rightarrow> 0)"

text \<open>
  The objects of a set can be stored beside the bytes of a set: they can be encoded, and no two of these
  bytes have the same hash. For BLAKE3 and the finitely many objects of a repository this says that
  no collision occurs among them.
\<close>

definition collision_free :: "ocodec \<Rightarrow> bytes set \<Rightarrow> object set \<Rightarrow> bool" where
  "collision_free C D objs \<longleftrightarrow> (\<forall>obj \<in> objs. \<exists>data. serialize C obj = Inr data) \<and>
     inj_on (object_id C) (D \<union> {data. \<exists>obj \<in> objs. serialize C obj = Inr data})"

lemma collision_freeD:
  assumes "collision_free C D objs"
  obtains X where "D \<subseteq> X" and "inj_on (object_id C) X" and "\<And>obj. obj \<in> objs \<Longrightarrow> \<exists>data \<in> X. serialize C obj = Inr data"
proof
  let ?X = "D \<union> {data. \<exists>obj \<in> objs. serialize C obj = Inr data}"
  show "D \<subseteq> ?X" "inj_on (object_id C) ?X" using assms by (auto simp: collision_free_def)
  show "\<exists>data \<in> ?X. serialize C obj = Inr data" if "obj \<in> objs" for obj
  proof -
    obtain data where "serialize C obj = Inr data" using assms \<open>obj \<in> objs\<close> unfolding collision_free_def by blast
    with \<open>obj \<in> objs\<close> show ?thesis by blast
  qed
qed

section \<open>One write\<close>

context storage_backend
begin

definition good :: "ocodec \<Rightarrow> bytes set \<Rightarrow> 's \<Rightarrow> bool" where
  "good C X s \<longleftrightarrow> inv s \<and> addressed C s \<and> ran (abst s) \<subseteq> X \<and> readable (ost_get B C s)"

lemma put_good:
  assumes "ocodec_ok C" and "\<And>data. storable data" and "inj_on (object_id C) X"
    and "good C X s" and "serialize C obj = Inr data" and "data \<in> X"
  shows "\<exists>s'. ost_put B C s obj = Inr (obj_id C obj, s') \<and> good C X s' \<and> abst s \<subseteq>\<^sub>m abst s' \<and>
    ost_get B C s' (obj_id C obj) = Inr (Some obj)"
proof -
  have s: "inv s" "addressed C s" "ran (abst s) \<subseteq> X" "readable (ost_get B C s)" using assms(4) by (simp_all add: good_def)
  have i: "obj_id C obj = object_id C data" by (simp add: obj_id_def assms(5))
  have "no_collision C s data"
    unfolding no_collision_def
  proof (intro allI impI)
    fix data'
    assume d: "abst s (object_id C data) = Some data'"
    then have "object_id C data' = object_id C data" using s(2) by (simp add: addressed_def)
    moreover have "data' \<in> X" using d s(3) by (auto simp: ran_def)
    ultimately show "data' = data" using assms(3,6) by (auto dest: inj_onD)
  qed
  then obtain s' where s': "ost_put B C s obj = Inr (object_id C data, s')" "inv s'" "addressed C s'"
    "ost_get B C s' (object_id C data) = Inr (Some obj)" "abst s' = (abst s)(object_id C data \<mapsto> data)"
    using ost_put_get [OF s(1,2) assms(1,5,2)] by blast
  have le: "abst s \<subseteq>\<^sub>m abst s'"
    using \<open>no_collision C s data\<close> unfolding s'(5) by (auto simp: map_le_def no_collision_def)
  have "\<exists>found. ost_get B C s' j = Inr found" for j
  proof (cases "j = object_id C data")
    case False
    then have "ost_get B C s' j = ost_get B C s j"
      by (simp add: ost_get_def get_law [OF s(1)] get_law [OF s'(2)] s'(5))
    then show ?thesis using s(4) by (simp add: readable_def)
  qed (use s'(4) in simp)
  moreover have "ran (abst s') \<subseteq> X" using s(3) assms(6) unfolding s'(5) by (auto simp: ran_def split: if_splits)
  ultimately show ?thesis using s' le by (auto simp: good_def readable_def i)
qed

lemma get_mono:
  assumes "good C X s" and "good C X s'" and "abst s \<subseteq>\<^sub>m abst s'" and "ost_get B C s i = Inr (Some obj)"
  shows "ost_get B C s' i = Inr (Some obj)"
  using ost_get_mono [OF _ _ assms(3,4)] assms(1,2) by (simp add: good_def)

end

section \<open>The table codec\<close>

lemma table_serialize:
  assumes "length objs \<le> 256"
  shows "obj \<in> set objs \<Longrightarrow> \<exists>b. serialize (table_codec objs) obj = Inr [b]"
    and "serialize (table_codec objs) obj = Inr data \<Longrightarrow> \<exists>b. data = [b]"
proof -
  assume "obj \<in> set objs"
  then have "\<exists>n. index_of obj objs = Some n" by (induction objs) auto
  then obtain n where "index_of obj objs = Some n" ..
  with index_of_SomeD [OF this] assms show "\<exists>b. serialize (table_codec objs) obj = Inr [b]"
    by (simp add: serialize_def table_codec_def map_codec_def)
qed (auto simp: serialize_def table_codec_def map_codec_def split: option.splits if_splits sum.splits)

lemma table_collision_free:
  assumes "length objs \<le> 256" and "X \<subseteq> set objs" and "D \<subseteq> range (\<lambda>b. [b])"
  shows "collision_free (table_codec objs) D X"
proof -
  let ?C = "table_codec objs"
  have "unat (object_id ?C [b]) = unat b" for b
  proof -
    have "unat b < 2 ^ 256" using unsigned_less [of b] by (rule less_trans) simp
    then show ?thesis by (simp add: object_id_def from_content_def table_codec_def from_be_def unsigned_ucast_eq take_bit_nat_eq_self)
  qed
  then have "b = c" if "object_id ?C [b] = object_id ?C [c]" for b c
    using that by (metis word_unat_eq_iff)
  then have "inj_on (object_id ?C) (range (\<lambda>b. [b]))" by (auto intro!: inj_onI)
  moreover have "D \<union> {data. \<exists>obj \<in> X. serialize ?C obj = Inr data} \<subseteq> range (\<lambda>b. [b])"
    using assms(3) table_serialize(2) [OF assms(1)] by blast
  ultimately have "inj_on (object_id ?C) (D \<union> {data. \<exists>obj \<in> X. serialize ?C obj = Inr data})" by (rule inj_on_subset)
  then show ?thesis using table_serialize(1) [OF assms(1)] assms(2) unfolding collision_free_def by blast
qed

end
