(* ===== verification/Workspace.thy ===== *)
theory Workspace
  imports Repository_Laws Object_Writes
begin

text \<open>
  The in-memory workspace (\<^verbatim>\<open>src/repo/ephemeral.rs\<close>): the tree of directories built from a flat map of
  paths, its storage, the listing of a snapshot, path diffs, and the workspace that edits files and
  commits snapshots. The listing is the one walk of the program without a depth bound; it is a
  \<^verbatim>\<open>while\<close> loop over a stack that need not end on a cyclic graph, so it is a partial function, and where
  it must return this is proved. The workspace on disk is not modelled: it walks a directory and asks
  a third-party gitignore matcher.
\<close>

section \<open>Diffs\<close>

record path_diff =
  pd_added :: "string list"
  pd_removed :: "string list"
  pd_modified :: "string list"

definition diff_is_empty :: "path_diff \<Rightarrow> bool" where
  "diff_is_empty d \<longleftrightarrow> pd_added d = [] \<and> pd_removed d = [] \<and> pd_modified d = []"

definition diff_target :: "file_map \<Rightarrow> string \<times> oid \<Rightarrow> path_diff \<Rightarrow> path_diff" where
  "diff_target base = (\<lambda>(path, i) d. case bt_get base path of
       None \<Rightarrow> d\<lparr>pd_added := pd_added d @ [path]\<rparr>
     | Some base_id \<Rightarrow> if base_id \<noteq> i then d\<lparr>pd_modified := pd_modified d @ [path]\<rparr> else d)"

definition diff_base :: "file_map \<Rightarrow> string \<Rightarrow> path_diff \<Rightarrow> path_diff" where
  "diff_base target path d = (if bt_get target path = None then d\<lparr>pd_removed := pd_removed d @ [path]\<rparr> else d)"

definition diff_paths :: "file_map \<Rightarrow> file_map \<Rightarrow> path_diff" where
  "diff_paths base target =
     fold (diff_base target) (bt_keys base)
       (fold (diff_target base) target \<lparr>pd_added = [], pd_removed = [], pd_modified = []\<rparr>)"

section \<open>Building a tree\<close>

datatype dir_node = DirNode (dn_files: "(string \<times> oid) list") (dn_dirs: "(string \<times> dir_node) list")

definition dir_empty :: dir_node where
  "dir_empty = DirNode [] []"

text \<open>\<^verbatim>\<open>split_once('/')\<close>.\<close>

fun split_once :: "string \<Rightarrow> (string \<times> string) option" where
  "split_once [] = None"
| "split_once (c # s) =
     (if c = CHR ''/'' then Some ([], s) else map_option (\<lambda>(head, rest). (c # head, rest)) (split_once s))"

lemma split_once_Some: "split_once s = Some (head, rest) \<Longrightarrow> s = head @ ''/'' @ rest \<and> CHR ''/'' \<notin> set head"
  by (induction s arbitrary: head) (auto split: if_splits)

lemma split_once_None: "split_once s = None \<longleftrightarrow> CHR ''/'' \<notin> set s"
  by (induction s) auto

lemma split_once_join: "CHR ''/'' \<notin> set head \<Longrightarrow> split_once (head @ CHR ''/'' # rest) = Some (head, rest)"
  by (induction head) auto

function dn_insert :: "string \<Rightarrow> oid \<Rightarrow> dir_node \<Rightarrow> dir_node" where
  "dn_insert path i (DirNode fs ds) =
     (case split_once path of
        Some (head, rest) \<Rightarrow>
          DirNode fs (bt_insert head (dn_insert rest i (case bt_get ds head of Some d \<Rightarrow> d | None \<Rightarrow> dir_empty)) ds)
      | None \<Rightarrow> DirNode (bt_insert path i fs) ds)"
  by pat_completeness auto
termination
  by (relation "measure (\<lambda>(path, i, node). length path)") (auto dest: split_once_Some)

text \<open>Storing a directory: its files, then each subdirectory, then the tree of both.\<close>

fun store_dir :: "'s backend \<Rightarrow> ocodec \<Rightarrow> dir_node \<Rightarrow> 's \<Rightarrow> (oid \<times> 's) result"
  and store_dirs :: "'s backend \<Rightarrow> ocodec \<Rightarrow> (string \<times> dir_node) list \<Rightarrow> (string, tree_entry) btree \<Rightarrow> 's \<Rightarrow>
    ((string, tree_entry) btree \<times> 's) result" where
  "store_dir B C (DirNode fs ds) s =
     bind_res (store_dirs B C ds (fold (\<lambda>(name, i). bt_insert name \<lparr>te_id = i, te_kind = KBlob\<rparr>) fs []) s) (\<lambda>(es, s).
       put_tree B C s es)"
| "store_dirs B C [] es s = Inr (es, s)"
| "store_dirs B C ((name, child) # ds) es s =
     bind_res (store_dir B C child s) (\<lambda>(child_id, s).
       store_dirs B C ds (bt_insert name \<lparr>te_id = child_id, te_kind = KTree\<rparr> es) s)"

definition dir_of :: "file_map \<Rightarrow> dir_node" where
  "dir_of files = fold (\<lambda>(path, i). dn_insert path i) files dir_empty"

definition build_tree :: "'s backend \<Rightarrow> ocodec \<Rightarrow> 's \<Rightarrow> file_map \<Rightarrow> (oid \<times> 's) result" where
  "build_tree B C s files = store_dir B C (dir_of files) s"

section \<open>Listing a snapshot\<close>

definition plain_entry :: "string \<Rightarrow> string \<times> tree_entry \<Rightarrow> (oid \<times> string) list \<times> file_map \<Rightarrow> (oid \<times> string) list \<times> file_map" where
  "plain_entry pfx = (\<lambda>(name, entry) (stack, out).
     let path = full_path pfx name in
     case te_kind entry of
       KBlob \<Rightarrow> (stack, bt_insert path (te_id entry) out)
     | KTree \<Rightarrow> ((te_id entry, path) # stack, out))"

partial_function (option) walk_tree :: "getter \<Rightarrow> (oid \<times> string) list \<Rightarrow> file_map \<Rightarrow> file_map result option" where
  [code]: "walk_tree get stack out =
     (case stack of
        [] \<Rightarrow> Some (Inr out)
      | (tid, pfx) # rest \<Rightarrow>
          (case get tid of
             Inl e \<Rightarrow> Some (Inl e)
           | Inr obj \<Rightarrow>
               (case as_tree obj of
                  None \<Rightarrow> Some (Inl (Storage (''not a tree: '' @ oid_display tid)))
                | Some t \<Rightarrow>
                    (case fold (plain_entry pfx) (entries t) (rest, out) of
                       (stack', out') \<Rightarrow> walk_tree get stack' out'))))"

definition snapshot_paths :: "getter \<Rightarrow> oid \<Rightarrow> file_map result option" where
  "snapshot_paths get i =
     (case get i of
        Inl e \<Rightarrow> Some (Inl e)
      | Inr obj \<Rightarrow>
          (case as_snapshot obj of
             None \<Rightarrow> Some (Inl (Storage (''not a snapshot: '' @ oid_display i)))
           | Some sn \<Rightarrow> walk_tree get [(root sn, [])] []))"

section \<open>The workspace\<close>

record ephemeral_workspace =
  ws_base :: "oid option"
  ws_files :: "(string, bytes) btree"

definition ws_new :: ephemeral_workspace where
  "ws_new = \<lparr>ws_base = None, ws_files = []\<rparr>"

definition as_blob :: "object option \<Rightarrow> blob option" where
  "as_blob obj = (case obj of Some (OBlob b) \<Rightarrow> Some b | _ \<Rightarrow> None)"

definition load_file :: "getter \<Rightarrow> string \<times> oid \<Rightarrow> (string, bytes) btree \<Rightarrow> (string, bytes) btree result" where
  "load_file get = (\<lambda>(path, i) files. bind_res (get i) (\<lambda>obj. case as_blob obj of
       Some b \<Rightarrow> Inr (bt_insert path (blob_data b) files)
     | None \<Rightarrow> Inl (Storage (''not a blob: '' @ oid_display i))))"

definition from_snapshot :: "('o, 'r, 'a) repo_env \<Rightarrow> ('o, 'r, 'a) repository \<Rightarrow> oid \<Rightarrow> ephemeral_workspace result option" where
  "from_snapshot E R i =
     (case snapshot_paths (repo_get E R) i of
        None \<Rightarrow> None
      | Some (Inl e) \<Rightarrow> Some (Inl e)
      | Some (Inr paths) \<Rightarrow>
          Some (bind_res (fold_res (load_file (repo_get E R)) paths []) (\<lambda>files. Inr \<lparr>ws_base = Some i, ws_files = files\<rparr>)))"

definition ws_read :: "ephemeral_workspace \<Rightarrow> string \<Rightarrow> bytes option" where
  "ws_read ws path = bt_get (ws_files ws) path"

definition ws_write :: "ephemeral_workspace \<Rightarrow> string \<Rightarrow> bytes \<Rightarrow> ephemeral_workspace" where
  "ws_write ws path data = ws\<lparr>ws_files := bt_insert path data (ws_files ws)\<rparr>"

definition ws_remove :: "ephemeral_workspace \<Rightarrow> string \<Rightarrow> bool \<times> ephemeral_workspace" where
  "ws_remove ws path =
     (bt_get (ws_files ws) path \<noteq> None, ws\<lparr>ws_files := filter (\<lambda>(p, _). p \<noteq> path) (ws_files ws)\<rparr>)"

definition ws_paths :: "ephemeral_workspace \<Rightarrow> string list" where
  "ws_paths ws = bt_keys (ws_files ws)"

definition store_file :: "'s backend \<Rightarrow> ocodec \<Rightarrow> string \<times> bytes \<Rightarrow> file_map \<times> 's \<Rightarrow> (file_map \<times> 's) result" where
  "store_file B C = (\<lambda>(path, data) (out, s).
     bind_res (put_blob B C s data) (\<lambda>(i, s'). Inr (bt_insert path i out, s')))"

definition current_paths :: "('o, 'r, 'a) repo_env \<Rightarrow> ephemeral_workspace \<Rightarrow> ('o, 'r, 'a) repository \<Rightarrow>
    (file_map \<times> ('o, 'r, 'a) repository) result" where
  "current_paths E ws R =
     bind_res (fold_res (store_file (env_objects E) (env_codec E)) (ws_files ws) ([], r_objects R)) (\<lambda>(out, s).
       Inr (out, R\<lparr>r_objects := s\<rparr>))"

definition ws_diff :: "('o, 'r, 'a) repo_env \<Rightarrow> ephemeral_workspace \<Rightarrow> ('o, 'r, 'a) repository \<Rightarrow>
    (path_diff \<times> ('o, 'r, 'a) repository) result option" where
  "ws_diff E ws R =
     (case (case ws_base ws of Some b \<Rightarrow> snapshot_paths (repo_get E R) b | None \<Rightarrow> Some (Inr [])) of
        None \<Rightarrow> None
      | Some base \<Rightarrow>
          Some (bind_res base (\<lambda>base. bind_res (current_paths E ws R) (\<lambda>(target, R'). Inr (diff_paths base target, R')))))"

definition ws_commit :: "('o, 'r, 'a) repo_env \<Rightarrow> ephemeral_workspace \<Rightarrow> ('o, 'r, 'a) repository \<Rightarrow> string \<Rightarrow> string \<Rightarrow> u64 \<Rightarrow>
    (oid \<times> ephemeral_workspace \<times> ('o, 'r, 'a) repository) result" where
  "ws_commit E ws R author' message' created =
     bind_res (current_paths E ws R) (\<lambda>(files, R1).
     bind_res (build_tree (env_objects E) (env_codec E) (r_objects R1) files) (\<lambda>(root', s2).
     bind_res (put_snapshot (env_objects E) (env_codec E) s2
       \<lparr>root = root', parents = (case ws_base ws of Some b \<Rightarrow> [b] | None \<Rightarrow> []), author = author', created_at = created,
         message = message'\<rparr>) (\<lambda>(i, s3).
       Inr (i, ws\<lparr>ws_base := Some i\<rparr>, R1\<lparr>r_objects := s3\<rparr>))))"


section \<open>What a diff says\<close>

lemma bt_mem: "bt_wf m \<Longrightarrow> (k, v) \<in> set m \<longleftrightarrow> bt_get m k = Some v"
  by (simp add: bt_wf_distinct)

lemma fold_diff_target:
  "fold (diff_target base) target d = d\<lparr>pd_added := pd_added d @ map fst (filter (\<lambda>(p, i). bt_get base p = None) target),
     pd_modified := pd_modified d @ map fst (filter (\<lambda>(p, i). bt_get base p \<noteq> None \<and> bt_get base p \<noteq> Some i) target)\<rparr>"
  by (induction target arbitrary: d) (auto simp: diff_target_def split: option.split)

lemma fold_diff_base:
  "fold (diff_base target) ps d = d\<lparr>pd_removed := pd_removed d @ filter (\<lambda>p. bt_get target p = None) ps\<rparr>"
  by (induction ps arbitrary: d) (auto simp: diff_base_def)

text \<open>
  A diff is exact: the added, removed and modified paths are, in path order and without repetition, those only
  in the target, only in the base, and in both with different content; and the diff is empty just when
  the two maps are equal.
\<close>

lemma diff_paths_exact:
  assumes "bt_wf base" and "bt_wf target"
  shows "sorted_wrt (<) (pd_added (diff_paths base target)) \<and> sorted_wrt (<) (pd_removed (diff_paths base target)) \<and>
    sorted_wrt (<) (pd_modified (diff_paths base target)) \<and>
    set (pd_added (diff_paths base target)) = dom (bt_get target) - dom (bt_get base) \<and>
    set (pd_removed (diff_paths base target)) = dom (bt_get base) - dom (bt_get target) \<and>
    set (pd_modified (diff_paths base target)) =
      {p \<in> dom (bt_get base) \<inter> dom (bt_get target). bt_get base p \<noteq> bt_get target p} \<and>
    (diff_is_empty (diff_paths base target) \<longleftrightarrow> base = target)"
proof -
  let ?d = "diff_paths base target"
  have parts: "pd_added ?d = map fst (filter (\<lambda>(p, i). bt_get base p = None) target)"
    "pd_removed ?d = filter (\<lambda>p. bt_get target p = None) (bt_keys base)"
    "pd_modified ?d = map fst (filter (\<lambda>(p, i). bt_get base p \<noteq> None \<and> bt_get base p \<noteq> Some i) target)"
    by (simp_all add: diff_paths_def fold_diff_target fold_diff_base)
  have sets: "set (pd_added ?d) = dom (bt_get target) - dom (bt_get base)"
    "set (pd_removed ?d) = dom (bt_get base) - dom (bt_get target)"
    "set (pd_modified ?d) = {p \<in> dom (bt_get base) \<inter> dom (bt_get target). bt_get base p \<noteq> bt_get target p}"
    subgoal unfolding parts by (force simp: bt_mem [OF assms(2)])
    subgoal unfolding parts by (auto simp: dom_map_of_conv_image_fst map_of_eq_None_iff)
    subgoal unfolding parts by (force simp: bt_mem [OF assms(2)])
    done
  have "bt_get base = bt_get target" if "diff_is_empty ?d"
  proof
    fix p
    have none: "set (pd_added ?d) = {}" "set (pd_removed ?d) = {}" "set (pd_modified ?d) = {}"
      using that by (simp_all add: diff_is_empty_def)
    have "p \<in> set (pd_added ?d) \<union> set (pd_removed ?d) \<union> set (pd_modified ?d)" if "bt_get base p \<noteq> bt_get target p"
      using that unfolding sets by (cases "bt_get base p"; cases "bt_get target p") (auto simp: dom_def)
    with none show "bt_get base p = bt_get target p" by (metis Un_empty empty_iff)
  qed
  then have "base = target" if "diff_is_empty ?d" using that bt_get_eq_wf [OF assms] by blast
  moreover have "diff_is_empty ?d" if "base = target"
    using sets that by (auto simp: diff_is_empty_def)
  moreover have "sorted_wrt (<) (pd_added ?d)" "sorted_wrt (<) (pd_modified ?d)" "sorted_wrt (<) (pd_removed ?d)"
    using assms unfolding parts bt_wf_def by (simp_all add: sorted_wrt_filter sorted_wrt_map)
  ultimately show ?thesis using sets by blast
qed

section \<open>The directory of a map of paths\<close>

function dn_lookup :: "dir_node \<Rightarrow> string \<Rightarrow> oid option" where
  "dn_lookup (DirNode fs ds) path =
     (case split_once path of
        Some (head, rest) \<Rightarrow> (case bt_get ds head of Some d \<Rightarrow> dn_lookup d rest | None \<Rightarrow> None)
      | None \<Rightarrow> bt_get fs path)"
  by pat_completeness auto
termination
  by (relation "measure (\<lambda>(node, path). length path)") (auto dest: split_once_Some)

lemmas [simp del] = dn_insert.simps dn_lookup.simps

lemma dn_lookup_empty [simp]: "dn_lookup dir_empty p = None"
  by (simp add: dir_empty_def dn_lookup.simps split: option.split)

lemma dn_insert_below:
  assumes "split_once path = Some (h, r)"
  obtains d where "dn_insert path i (DirNode fs ds) = DirNode fs (bt_insert h (dn_insert r i d) ds)"
    and "bt_get ds h = None \<and> d = dir_empty \<or> bt_get ds h = Some d"
    and "d = (case bt_get ds h of Some d \<Rightarrow> d | None \<Rightarrow> dir_empty)"
  using assms by (cases "bt_get ds h") (simp_all add: dn_insert.simps)

lemma dn_lookup_insert: "dn_lookup (dn_insert p i node) = (dn_lookup node)(p \<mapsto> i)"
proof (induction p i node rule: dn_insert.induct)
  case (1 path i fs ds)
  show ?case
  proof (cases "split_once path")
    case None
    then show ?thesis
      by (auto simp: fun_eq_iff dn_insert.simps dn_lookup.simps split: option.split)
  next
    case (Some hr)
    obtain h r where hr: "hr = (h, r)" by (cases hr)
    obtain d where ins: "dn_insert path i (DirNode fs ds) = DirNode fs (bt_insert h (dn_insert r i d) ds)"
      and d: "bt_get ds h = None \<and> d = dir_empty \<or> bt_get ds h = Some d"
      and d_eq: "d = (case bt_get ds h of Some d \<Rightarrow> d | None \<Rightarrow> dir_empty)"
      using dn_insert_below [OF Some [unfolded hr]] .
    have IH: "dn_lookup (dn_insert r i d) = (dn_lookup d)(r \<mapsto> i)"
      using "1.IH" [OF Some hr [symmetric]] unfolding d_eq .
    have "dn_lookup (DirNode fs (bt_insert h (dn_insert r i d) ds)) q = ((dn_lookup (DirNode fs ds))(path \<mapsto> i)) q" for q
    proof (cases "split_once q")
      case None
      then have "q \<noteq> path" using Some by auto
      with None show ?thesis by (simp add: dn_lookup.simps)
    next
      case (Some hr')
      obtain h' r' where hr': "hr' = (h', r')" by (cases hr')
      have same: "q = path \<longleftrightarrow> h' = h \<and> r' = r"
      proof
        assume "q = path"
        with Some \<open>split_once path = Some hr\<close> show "h' = h \<and> r' = r" by (simp add: hr hr')
      next
        assume "h' = h \<and> r' = r"
        then show "q = path"
          using split_once_Some [OF Some [unfolded hr'], THEN conjunct1]
            split_once_Some [OF \<open>split_once path = Some hr\<close> [unfolded hr], THEN conjunct1] by simp
      qed
      show ?thesis
      proof (cases "h' = h")
        case True
        have "(case bt_get ds h of Some d \<Rightarrow> dn_lookup d r' | None \<Rightarrow> None) = dn_lookup d r'" using d by auto
        with True show ?thesis by (simp add: dn_lookup.simps Some hr' IH same)
      qed (simp add: dn_lookup.simps Some hr' same)
    qed
    then show ?thesis unfolding ins by (simp add: fun_eq_iff)
  qed
qed

lemma dn_lookup_dir_of: "bt_wf files \<Longrightarrow> dn_lookup (dir_of files) = bt_get files"
proof -
  have "dn_lookup (fold (\<lambda>(path, i). dn_insert path i) fs node) = dn_lookup node ++ map_of (rev fs)" for fs node
    by (induction fs arbitrary: node) (auto simp: dn_lookup_insert fun_eq_iff map_add_def split: option.split)
  moreover assume "bt_wf files"
  then have "map_of (rev files) = bt_get files"
    by (intro map_of_inject_set [THEN iffD2]) (simp_all add: bt_wf_distinct rev_map [symmetric])
  ultimately show ?thesis by (simp add: dir_of_def fun_eq_iff map_add_def split: option.split)
qed

text \<open>The maps of every directory are in order, names have no slash, and no subdirectory is without files.\<close>

inductive dir_ok :: "dir_node \<Rightarrow> bool" where
  dir_okI: "bt_wf fs \<Longrightarrow> bt_wf ds \<Longrightarrow> (\<And>n i. (n, i) \<in> set fs \<Longrightarrow> CHR ''/'' \<notin> set n) \<Longrightarrow>
    (\<And>n d. (n, d) \<in> set ds \<Longrightarrow> CHR ''/'' \<notin> set n \<and> dir_ok d \<and> (\<exists>p. dn_lookup d p \<noteq> None)) \<Longrightarrow> dir_ok (DirNode fs ds)"

inductive_cases dir_okE: "dir_ok (DirNode fs ds)"

lemma set_bt_insert: "bt_wf m \<Longrightarrow> (a, b) \<in> set (bt_insert k v m) \<longleftrightarrow> (if a = k then b = v else (a, b) \<in> set m)"
  by (auto simp: bt_mem fun_upd_def split: if_splits)

lemma dir_ok_insert: "dir_ok node \<Longrightarrow> dir_ok (dn_insert p i node)"
proof (induction p i node rule: dn_insert.induct)
  case (1 path i fs ds)
  have ok: "bt_wf fs" "bt_wf ds" "\<And>n i. (n, i) \<in> set fs \<Longrightarrow> CHR ''/'' \<notin> set n"
    "\<And>n d. (n, d) \<in> set ds \<Longrightarrow> CHR ''/'' \<notin> set n \<and> dir_ok d \<and> (\<exists>p. dn_lookup d p \<noteq> None)"
    using "1.prems" by (auto elim: dir_okE)
  show ?case
  proof (cases "split_once path")
    case None
    then show ?thesis using ok split_once_None [of path]
      by (auto simp: dn_insert.simps set_bt_insert intro!: dir_okI split: if_splits)
  next
    case (Some hr)
    obtain h r where hr: "hr = (h, r)" by (cases hr)
    obtain d where ins: "dn_insert path i (DirNode fs ds) = DirNode fs (bt_insert h (dn_insert r i d) ds)"
      and d: "bt_get ds h = None \<and> d = dir_empty \<or> bt_get ds h = Some d"
      and d_eq: "d = (case bt_get ds h of Some d \<Rightarrow> d | None \<Rightarrow> dir_empty)"
      using dn_insert_below [OF Some [unfolded hr]] .
    have "dir_ok d" using d ok(4) by (auto simp: dir_empty_def intro!: dir_okI dest: map_of_SomeD)
    then have new: "dir_ok (dn_insert r i d)" using "1.IH" [OF Some hr [symmetric]] unfolding d_eq by blast
    have "dn_lookup (dn_insert r i d) r \<noteq> None" by (simp add: dn_lookup_insert)
    with new split_once_Some [OF Some [unfolded hr]] ok show ?thesis unfolding ins
      by (intro dir_okI) (auto simp: set_bt_insert split: if_splits)
  qed
qed

lemma dir_ok_dir_of: "dir_ok (dir_of files)"
proof -
  have "dir_ok node \<Longrightarrow> dir_ok (fold (\<lambda>(path, i). dn_insert path i) fs node)" for fs node
    by (induction fs arbitrary: node) (auto intro: dir_ok_insert)
  moreover have "dir_ok dir_empty" by (auto simp: dir_empty_def intro!: dir_okI)
  ultimately show ?thesis by (simp add: dir_of_def)
qed

section \<open>Storing a directory\<close>

text \<open>The entries, the id and the objects of a stored directory, as functions of it.\<close>

fun dir_entries :: "ocodec \<Rightarrow> dir_node \<Rightarrow> (string, tree_entry) btree"
  and dirs_entries :: "ocodec \<Rightarrow> (string \<times> dir_node) list \<Rightarrow> (string, tree_entry) btree \<Rightarrow> (string, tree_entry) btree" where
  "dir_entries C (DirNode fs ds) =
     dirs_entries C ds (fold (\<lambda>(name, i). bt_insert name \<lparr>te_id = i, te_kind = KBlob\<rparr>) fs [])"
| "dirs_entries C [] es = es"
| "dirs_entries C ((name, child) # ds) es =
     dirs_entries C ds (bt_insert name \<lparr>te_id = obj_id C (OTree \<lparr>entries = dir_entries C child\<rparr>), te_kind = KTree\<rparr> es)"

abbreviation dir_tree :: "ocodec \<Rightarrow> dir_node \<Rightarrow> object" where
  "dir_tree C node \<equiv> OTree \<lparr>entries = dir_entries C node\<rparr>"

fun dir_objects :: "ocodec \<Rightarrow> dir_node \<Rightarrow> object set"
  and dirs_objects :: "ocodec \<Rightarrow> (string \<times> dir_node) list \<Rightarrow> object set" where
  "dir_objects C (DirNode fs ds) = insert (dir_tree C (DirNode fs ds)) (dirs_objects C ds)"
| "dirs_objects C [] = {}"
| "dirs_objects C ((name, child) # ds) = dir_objects C child \<union> dirs_objects C ds"

context storage_backend
begin

definition stores :: "ocodec \<Rightarrow> bytes set \<Rightarrow> dir_node \<Rightarrow> bool" where
  "stores C X node \<longleftrightarrow> (\<forall>s. good C X s \<longrightarrow> (\<forall>obj \<in> dir_objects C node. \<exists>data \<in> X. serialize C obj = Inr data) \<longrightarrow>
     (\<exists>s'. store_dir B C node s = Inr (obj_id C (dir_tree C node), s') \<and> good C X s' \<and> abst s \<subseteq>\<^sub>m abst s' \<and>
       (\<forall>obj \<in> dir_objects C node. ost_get B C s' (obj_id C obj) = Inr (Some obj))))"

lemma store_dirs_correct:
  assumes "\<forall>nd \<in> set ds. stores C X (snd nd)" and "good C X s"
    and "\<forall>obj \<in> dirs_objects C ds. \<exists>data \<in> X. serialize C obj = Inr data"
  shows "\<exists>s'. store_dirs B C ds es s = Inr (dirs_entries C ds es, s') \<and> good C X s' \<and> abst s \<subseteq>\<^sub>m abst s' \<and>
    (\<forall>obj \<in> dirs_objects C ds. ost_get B C s' (obj_id C obj) = Inr (Some obj))"
  using assms
proof (induction ds arbitrary: es s)
  case (Cons nd ds)
  obtain name d where nd: "nd = (name, d)" by (cases nd)
  have "stores C X d" using Cons.prems(1) nd by simp
  then obtain s1 where s1: "store_dir B C d s = Inr (obj_id C (dir_tree C d), s1)" "good C X s1" "abst s \<subseteq>\<^sub>m abst s1"
    "\<forall>obj \<in> dir_objects C d. ost_get B C s1 (obj_id C obj) = Inr (Some obj)"
    using Cons.prems(2,3) unfolding stores_def nd by auto
  let ?es = "bt_insert name \<lparr>te_id = obj_id C (dir_tree C d), te_kind = KTree\<rparr> es"
  obtain s2 where s2: "store_dirs B C ds ?es s1 = Inr (dirs_entries C ds ?es, s2)" "good C X s2" "abst s1 \<subseteq>\<^sub>m abst s2"
    "\<forall>obj \<in> dirs_objects C ds. ost_get B C s2 (obj_id C obj) = Inr (Some obj)"
    using Cons.IH [OF _ s1(2), of ?es] Cons.prems(1,3) nd by auto
  have "\<forall>obj \<in> dir_objects C d. ost_get B C s2 (obj_id C obj) = Inr (Some obj)"
    using s1(4) get_mono [OF s1(2) s2(2,3)] by blast
  with s1 s2 show ?case by (auto simp: nd intro: map_le_trans)
qed simp

lemma store_dir_correct:
  assumes "ocodec_ok C" and "\<And>data. storable data" and "inj_on (object_id C) X"
  shows "stores C X node"
proof (induction node)
  case (DirNode fs ds)
  have IH: "\<forall>nd \<in> set ds. stores C X (snd nd)"
    using DirNode.IH by (metis snds.intros)
  show ?case unfolding stores_def
  proof (intro allI impI)
    fix s
    assume s: "good C X s" and ser: "\<forall>obj \<in> dir_objects C (DirNode fs ds). \<exists>data \<in> X. serialize C obj = Inr data"
    let ?es = "fold (\<lambda>(name, i). bt_insert name \<lparr>te_id = i, te_kind = KBlob\<rparr>) fs []"
    have "\<forall>obj \<in> dirs_objects C ds. \<exists>data \<in> X. serialize C obj = Inr data" using ser by simp
    from store_dirs_correct [OF IH s this, where es = ?es] obtain s1 where s1: "store_dirs B C ds ?es s = Inr (dirs_entries C ds ?es, s1)"
      "good C X s1" "abst s \<subseteq>\<^sub>m abst s1" "\<forall>obj \<in> dirs_objects C ds. ost_get B C s1 (obj_id C obj) = Inr (Some obj)" by blast
    obtain data where data: "serialize C (dir_tree C (DirNode fs ds)) = Inr data" "data \<in> X" using ser by auto
    obtain s2 where s2: "ost_put B C s1 (dir_tree C (DirNode fs ds)) = Inr (obj_id C (dir_tree C (DirNode fs ds)), s2)"
      "good C X s2" "abst s1 \<subseteq>\<^sub>m abst s2"
      "ost_get B C s2 (obj_id C (dir_tree C (DirNode fs ds))) = Inr (Some (dir_tree C (DirNode fs ds)))"
      using put_good [OF assms s1(2) data] by blast
    have "\<forall>obj \<in> dirs_objects C ds. ost_get B C s2 (obj_id C obj) = Inr (Some obj)"
      using s1(4) get_mono [OF s1(2) s2(2,3)] by blast
    with s1 s2 show "\<exists>s'. store_dir B C (DirNode fs ds) s = Inr (obj_id C (dir_tree C (DirNode fs ds)), s') \<and>
        good C X s' \<and> abst s \<subseteq>\<^sub>m abst s' \<and>
        (\<forall>obj \<in> dir_objects C (DirNode fs ds). ost_get B C s' (obj_id C obj) = Inr (Some obj))"
      by (auto simp: put_tree_def intro: map_le_trans)
  qed
qed

end

section \<open>Listing a stored directory\<close>

lemma set_dirs_entries:
  assumes "bt_wf es"
  shows "bt_wf (dirs_entries C ds es)" and "distinct (map fst ds) \<Longrightarrow> map_of (dirs_entries C ds es) n = (case map_of ds n of
      Some d \<Rightarrow> Some \<lparr>te_id = obj_id C (dir_tree C d), te_kind = KTree\<rparr> | None \<Rightarrow> map_of es n)"
  using assms
proof (induction ds arbitrary: es)
  case (Cons nd ds)
  obtain m d where nd: "nd = (m, d)" by (cases nd)
  {
    case 1
    then show ?case using Cons.IH(1) by (simp add: nd)
  next
    case 2
    then have "map_of ds m = None" by (simp add: nd map_of_eq_None_iff)
    with 2 show ?case using Cons.IH(2) [of "bt_insert m \<lparr>te_id = obj_id C (dir_tree C d), te_kind = KTree\<rparr> es"]
      by (auto simp: nd split: option.split)
  }
qed simp_all

lemma bt_fold_insert:
  assumes "bt_wf es"
  shows "bt_wf (fold (\<lambda>(n, i). bt_insert n (g i)) xs es)"
    and "distinct (map fst xs) \<Longrightarrow>
      map_of (fold (\<lambda>(n, i). bt_insert n (g i)) xs es) = map_of es ++ map_of (map (\<lambda>(n, i). (n, g i)) xs)"
  using assms
proof (induction xs arbitrary: es)
  case (Cons x xs)
  obtain n i where x: "x = (n, i)" by (cases x)
  {
    case 1
    then show ?case using Cons.IH(1) by (simp add: x)
  next
    case 2
    then have "map_of (map (\<lambda>(n, i). (n, g i)) xs) n = None" by (auto simp: x map_of_eq_None_iff image_iff)
    with 2 show ?case using Cons.IH(2) [of "bt_insert n (g i) es"] by (auto simp: x fun_eq_iff map_add_def split: option.split)
  }
qed simp_all

lemma dir_entry:
  assumes "dir_ok (DirNode fs ds)"
  shows "(n, e) \<in> set (dir_entries C (DirNode fs ds)) \<longleftrightarrow> (case map_of ds n of
      Some d \<Rightarrow> e = \<lparr>te_id = obj_id C (dir_tree C d), te_kind = KTree\<rparr>
    | None \<Rightarrow> (\<exists>i. map_of fs n = Some i \<and> e = \<lparr>te_id = i, te_kind = KBlob\<rparr>))"
proof -
  let ?es = "fold (\<lambda>(name, i). bt_insert name \<lparr>te_id = i, te_kind = KBlob\<rparr>) fs []"
  have wf: "bt_wf fs" "bt_wf ds" using assms by (auto elim: dir_okE)
  have "bt_wf ?es" "map_of ?es n = map_option (\<lambda>i. \<lparr>te_id = i, te_kind = KBlob\<rparr>) (map_of fs n)"
    using bt_fold_insert [where g = "\<lambda>i. \<lparr>te_id = i, te_kind = KBlob\<rparr>" and xs = fs and es = "[]"] wf(1)
    by (simp_all add: bt_wf_distinct map_of_map)
  note es = this
  have "bt_wf (dir_entries C (DirNode fs ds))" using set_dirs_entries(1) [OF es(1)] by simp
  then have "(n, e) \<in> set (dir_entries C (DirNode fs ds)) \<longleftrightarrow> map_of (dir_entries C (DirNode fs ds)) n = Some e" by (rule bt_mem)
  also have "map_of (dir_entries C (DirNode fs ds)) n = (case map_of ds n of
      Some d \<Rightarrow> Some \<lparr>te_id = obj_id C (dir_tree C d), te_kind = KTree\<rparr> | None \<Rightarrow> map_of ?es n)"
    using set_dirs_entries(2) [OF es(1), of ds C n] wf(2) by (simp add: bt_wf_distinct)
  finally show ?thesis unfolding es(2) by (cases "map_of ds n"; cases "map_of fs n") auto
qed

text \<open>A path that is a directory of another path loses its file: the entry of the directory replaces it.\<close>

definition shadowed :: "(string \<Rightarrow> 'a option) \<Rightarrow> string \<Rightarrow> bool" where
  "shadowed m p \<longleftrightarrow> (\<exists>q. m (p @ ''/'' @ q) \<noteq> None)"

lemma shadowed_keys: "shadowed (bt_get files) p \<longleftrightarrow> list_ex (\<lambda>(q, _). take (Suc (length p)) q = p @ ''/'') files"
proof -
  have "take (Suc (length p)) q = p @ ''/'' \<longleftrightarrow> (\<exists>r. q = p @ ''/'' @ r)" for q
    by (metis append.assoc append_eq_conv_conj append_take_drop_id length_append_singleton)
  then show ?thesis by (force simp: shadowed_def list_ex_iff map_of_eq_None_iff)
qed

definition node_files :: "dir_node \<Rightarrow> string \<Rightarrow> (string \<times> oid) set" where
  "node_files node pfx = {(full_path pfx p, i) |p i. dn_lookup node p = Some i \<and> \<not> shadowed (dn_lookup node) p}"

lemma dn_lookup_below:
  assumes "dir_ok (DirNode fs ds)" and "map_of ds n = Some d"
  shows "dn_lookup (DirNode fs ds) (n @ ''/'' @ r) = dn_lookup d r"
proof -
  have "CHR ''/'' \<notin> set n" using assms(1) map_of_SomeD [OF assms(2)] by (auto elim!: dir_okE)
  then show ?thesis using assms(2) by (simp add: dn_lookup.simps split_once_join)
qed

lemma dn_lookup_split:
  assumes "dir_ok (DirNode fs ds)"
  shows "dn_lookup (DirNode fs ds) p = Some i \<longleftrightarrow>
    map_of fs p = Some i \<or> (\<exists>n d r. map_of ds n = Some d \<and> p = n @ ''/'' @ r \<and> dn_lookup d r = Some i)"
proof (cases "split_once p")
  case None
  then show ?thesis using split_once_None [of p] by (auto simp: dn_lookup.simps)
next
  case (Some hr)
  obtain h r where hr: "hr = (h, r)" by (cases hr)
  have p: "p = h @ ''/'' @ r" "CHR ''/'' \<notin> set h" using split_once_Some Some hr by auto
  have "CHR ''/'' \<notin> set m" if "(m, j) \<in> set fs" for m j using assms that by (auto elim: dir_okE)
  from this [of p i] have "map_of fs p \<noteq> Some i" using p(1) map_of_SomeD [of fs p i] by auto
  moreover have "dn_lookup (DirNode fs ds) p = (case map_of ds h of Some d \<Rightarrow> dn_lookup d r | None \<Rightarrow> None)"
    by (simp add: dn_lookup.simps Some hr)
  moreover have "dn_lookup (DirNode fs ds) p = Some i" if "map_of ds n = Some d" "p = n @ ''/'' @ r'" "dn_lookup d r' = Some i" for n d r'
    using dn_lookup_below [OF assms that(1)] that(2,3) by simp
  ultimately show ?thesis using p(1) by (cases "map_of ds h") auto
qed

lemma full_path_assoc: "full_path pfx n \<noteq> [] \<Longrightarrow> full_path pfx (n @ ''/'' @ r) = full_path (full_path pfx n) r"
  by (simp add: full_path_def split: if_splits)

lemma shadowed_below:
  assumes "dir_ok (DirNode fs ds)"
  shows "map_of ds n = Some d \<Longrightarrow> shadowed (dn_lookup (DirNode fs ds)) (n @ ''/'' @ r) \<longleftrightarrow> shadowed (dn_lookup d) r"
    and "CHR ''/'' \<notin> set n \<Longrightarrow> shadowed (dn_lookup (DirNode fs ds)) n \<longleftrightarrow> map_of ds n \<noteq> None"
proof -
  assume n: "map_of ds n = Some d"
  show "shadowed (dn_lookup (DirNode fs ds)) (n @ ''/'' @ r) \<longleftrightarrow> shadowed (dn_lookup d) r"
    using dn_lookup_below [OF assms n, of "r @ ''/'' @ q" for q] by (simp add: shadowed_def)
next
  assume n: "CHR ''/'' \<notin> set n"
  show "shadowed (dn_lookup (DirNode fs ds)) n \<longleftrightarrow> map_of ds n \<noteq> None"
  proof (cases "map_of ds n")
    case None
    then show ?thesis using n by (simp add: shadowed_def dn_lookup.simps split_once_join)
  next
    case (Some d)
    then have "\<exists>p. dn_lookup d p \<noteq> None" using assms by (auto elim!: dir_okE dest!: map_of_SomeD)
    then show ?thesis using dn_lookup_below [OF assms Some] Some by (auto simp: shadowed_def)
  qed
qed

lemma node_files_split:
  assumes "dir_ok (DirNode fs ds)" and "\<And>n d. map_of ds n = Some d \<Longrightarrow> full_path pfx n \<noteq> []"
  shows "node_files (DirNode fs ds) pfx = {(full_path pfx n, i) |n i. map_of fs n = Some i \<and> map_of ds n = None} \<union>
      (\<Union>(n, d) \<in> {(n, d). map_of ds n = Some d}. node_files d (full_path pfx n))"
    (is "_ = ?F \<union> ?D")
proof (intro set_eqI iffI)
  have name: "CHR ''/'' \<notin> set n" if "map_of fs n = Some i" for n i
    using assms(1) map_of_SomeD [OF that] by (auto elim!: dir_okE)
  {
    fix x assume "x \<in> node_files (DirNode fs ds) pfx"
    then obtain p i where x: "x = (full_path pfx p, i)" and look: "dn_lookup (DirNode fs ds) p = Some i"
      and vis: "\<not> shadowed (dn_lookup (DirNode fs ds)) p" by (auto simp: node_files_def)
    from look dn_lookup_split [OF assms(1)]
    consider "map_of fs p = Some i" | n d r where "map_of ds n = Some d" "p = n @ ''/'' @ r" "dn_lookup d r = Some i" by blast
    then show "x \<in> ?F \<union> ?D"
    proof cases
      case 1
      then show ?thesis using x vis shadowed_below(2) [OF assms(1) name [OF 1]] by auto
    next
      case 2
      then have "\<not> shadowed (dn_lookup d) r" using vis shadowed_below(1) [OF assms(1) 2(1)] by simp
      then have "x \<in> node_files d (full_path pfx n)" using full_path_assoc [OF assms(2)] 2 x by (auto simp: node_files_def)
      with 2(1) show ?thesis by blast
    qed
  next
    fix x assume "x \<in> ?F \<union> ?D"
    then consider n i where "x = (full_path pfx n, i)" "map_of fs n = Some i" "map_of ds n = None"
      | n d r i where "map_of ds n = Some d" "x = (full_path (full_path pfx n) r, i)" "dn_lookup d r = Some i" "\<not> shadowed (dn_lookup d) r"
      by (auto simp: node_files_def)
    then show "x \<in> node_files (DirNode fs ds) pfx"
    proof cases
      case 1
      then show ?thesis
        using dn_lookup_split [OF assms(1)] shadowed_below(2) [OF assms(1) name [OF 1(2)]] by (auto simp: node_files_def)
    next
      case (2 n d r i)
      then have "dn_lookup (DirNode fs ds) (n @ ''/'' @ r) = Some i" using dn_lookup_split [OF assms(1)] by blast
      moreover have "x = (full_path pfx (n @ ''/'' @ r), i)" using 2(2) by (simp only: full_path_assoc [OF assms(2) [OF 2(1)]])
      moreover have "\<not> shadowed (dn_lookup (DirNode fs ds)) (n @ ''/'' @ r)" using shadowed_below(1) [OF assms(1) 2(1)] 2(4) by simp
      ultimately show ?thesis unfolding node_files_def by blast
    qed
  }
qed

lemma plain_entries:
  "fold (plain_entry pfx) es (stack, out) =
     (rev (map (\<lambda>(t, p, d). (t, p)) (subtrees pfx 0 es)) @ stack, insert_visible (\<lambda>_. True) (blobs pfx es) out)"
  by (induction es arbitrary: stack out)
    (auto simp: plain_entry_def subtrees_def blobs_def insert_visible_def Let_def split: entry_kind.splits)

text \<open>A walk lists a directory when it goes on after it with its files added.\<close>

definition dir_listed :: "getter \<Rightarrow> ocodec \<Rightarrow> dir_node \<Rightarrow> string \<Rightarrow> bool" where
  "dir_listed get C node pfx \<longleftrightarrow> (\<forall>rest out. bt_wf out \<longrightarrow>
     (\<exists>out'. walk_tree get ((obj_id C (dir_tree C node), pfx) # rest) out = walk_tree get rest out' \<and> bt_wf out' \<and>
       files_listed (\<lambda>_. True) (node_files node pfx) out out'))"

lemma walk_dirs:
  assumes "\<forall>(n, d) \<in> set dl. dir_listed get C d (full_path pfx n)" and "bt_wf out"
  shows "\<exists>out'. walk_tree get (map (\<lambda>(n, d). (obj_id C (dir_tree C d), full_path pfx n)) dl @ rest) out = walk_tree get rest out' \<and>
    bt_wf out' \<and> files_listed (\<lambda>_. True) (\<Union>(n, d) \<in> set dl. node_files d (full_path pfx n)) out out'"
  using assms
proof (induction dl arbitrary: out)
  case Nil
  then show ?case by (auto simp: files_listed_def)
next
  case (Cons nd dl)
  obtain n d where nd: "nd = (n, d)" by (cases nd)
  let ?rest = "map (\<lambda>(n, d). (obj_id C (dir_tree C d), full_path pfx n)) dl @ rest"
  obtain mid where mid: "walk_tree get ((obj_id C (dir_tree C d), full_path pfx n) # ?rest) out = walk_tree get ?rest mid"
    "bt_wf mid" "files_listed (\<lambda>_. True) (node_files d (full_path pfx n)) out mid"
  proof -
    have "dir_listed get C d (full_path pfx n)" using Cons.prems(1) by (simp add: nd)
    then show thesis using that Cons.prems(2) unfolding dir_listed_def by metis
  qed
  obtain out' where out': "walk_tree get ?rest mid = walk_tree get rest out'" "bt_wf out'"
    "files_listed (\<lambda>_. True) (\<Union>(n, d) \<in> set dl. node_files d (full_path pfx n)) mid out'"
    using Cons.IH [OF _ mid(2)] Cons.prems(1) by auto
  show ?case using mid(1) out' files_listed_trans [OF mid(3) out'(3)] by (auto simp: nd)
qed

lemma dir_walk:
  assumes "dir_ok node"
    and "pfx \<noteq> [] \<or> (\<forall>p. dn_lookup node p \<noteq> None \<longrightarrow> take 1 p \<noteq> ''/'')"
    and "\<forall>obj \<in> dir_objects C node. get (obj_id C obj) = Inr (Some obj)"
  shows "dir_listed get C node pfx"
  using assms
proof (induction node arbitrary: pfx rule: dir_node.induct)
  case (DirNode fs ds)
  have dirs: "map_of ds n = Some d \<Longrightarrow> (n, d) \<in> set ds" for n d by (rule map_of_SomeD)
  have wf: "bt_wf fs" "bt_wf ds" using DirNode.prems(1) by (auto elim: dir_okE)
  have dir: "dir_ok d" "\<exists>p i. dn_lookup d p = Some i" if "map_of ds n = Some d" for n d
    using DirNode.prems(1) dirs [OF that] by (auto elim!: dir_okE)
  have below: "dn_lookup (DirNode fs ds) (n @ ''/'' @ r) = dn_lookup d r" if "map_of ds n = Some d" for n d r
    by (rule dn_lookup_below [OF DirNode.prems(1) that])
  have pfx: "full_path pfx n \<noteq> []" if n: "map_of ds n = Some d" for n d
  proof (cases n)
    case Nil
    obtain p i where "dn_lookup d p = Some i" using dir(2) [OF n] by blast
    then have "dn_lookup (DirNode fs ds) (''/'' @ p) = Some i" using below [OF n, of p] Nil by simp
    then have "pfx \<noteq> []" using DirNode.prems(2) by fastforce
    then show ?thesis by (simp add: full_path_def)
  qed (simp add: full_path_def)
  have objs: "dir_objects C d \<subseteq> dirs_objects C ds" if "(n, d) \<in> set ds" for n d ds
    using that by (induction ds) auto
  have IH: "dir_listed get C d (full_path pfx n)" if n: "map_of ds n = Some d" for n d
  proof (rule DirNode.IH [OF dirs [OF n]])
    show "d \<in> Basic_BNFs.snds (n, d)" by simp
    show "dir_ok d" by (rule dir(1) [OF n])
    show "full_path pfx n \<noteq> [] \<or> (\<forall>p. dn_lookup d p \<noteq> None \<longrightarrow> take 1 p \<noteq> ''/'')" using pfx [OF n] by simp
    show "\<forall>obj \<in> dir_objects C d. get (obj_id C obj) = Inr (Some obj)"
      using DirNode.prems(3) objs [OF dirs [OF n]] by auto
  qed
  let ?es = "dir_entries C (DirNode fs ds)"
  define dl where "dl = rev (map (\<lambda>(n, e). (n, the (map_of ds n))) (filter (\<lambda>(n, e). te_kind e = KTree) ?es))"
  have entry: "(n, e) \<in> set ?es \<longleftrightarrow> (case map_of ds n of
      Some d \<Rightarrow> e = \<lparr>te_id = obj_id C (dir_tree C d), te_kind = KTree\<rparr>
    | None \<Rightarrow> (\<exists>i. map_of fs n = Some i \<and> e = \<lparr>te_id = i, te_kind = KBlob\<rparr>))" for n e
    by (rule dir_entry [OF DirNode.prems(1)])
  have tree: "(n, e) \<in> set ?es \<and> te_kind e = KTree \<longleftrightarrow>
      (\<exists>d. map_of ds n = Some d \<and> e = \<lparr>te_id = obj_id C (dir_tree C d), te_kind = KTree\<rparr>)" for n e
    unfolding entry by (cases "map_of ds n") auto
  have blob: "(n, e) \<in> set ?es \<and> te_kind e = KBlob \<longleftrightarrow>
      (\<exists>i. map_of fs n = Some i \<and> map_of ds n = None \<and> e = \<lparr>te_id = i, te_kind = KBlob\<rparr>)" for n e
    unfolding entry by (cases "map_of ds n") auto
  have "(n, d) \<in> set dl \<longleftrightarrow> (\<exists>e. ((n, e) \<in> set ?es \<and> te_kind e = KTree) \<and> d = the (map_of ds n))" for n d
    unfolding dl_def by auto
  then have dl: "set dl = {(n, d). map_of ds n = Some d}" unfolding tree by auto
  have subs: "rev (map (\<lambda>(t, p, d). (t, p)) (subtrees pfx 0 ?es)) = map (\<lambda>(n, d). (obj_id C (dir_tree C d), full_path pfx n)) dl"
    unfolding subtrees_def dl_def rev_map [symmetric] map_map
    using tree by (intro arg_cong [where f = rev] map_cong) fastforce+
  have "x \<in> set (blobs pfx ?es) \<longleftrightarrow> (\<exists>n e. ((n, e) \<in> set ?es \<and> te_kind e = KBlob) \<and> x = (full_path pfx n, te_id e))" for x
    unfolding blobs_def by auto
  then have bl: "set (blobs pfx ?es) = {(full_path pfx n, i) |n i. map_of fs n = Some i \<and> map_of ds n = None}" unfolding blob by force
  show ?case unfolding dir_listed_def
  proof (intro allI impI)
    fix rest out assume out: "bt_wf (out :: file_map)"
    let ?mid = "insert_visible (\<lambda>_. True) (blobs pfx ?es) out"
    have "get (obj_id C (dir_tree C (DirNode fs ds))) = Inr (Some (dir_tree C (DirNode fs ds)))" using DirNode.prems(3) by simp
    then have step: "walk_tree get ((obj_id C (dir_tree C (DirNode fs ds)), pfx) # rest) out =
        walk_tree get (map (\<lambda>(n, d). (obj_id C (dir_tree C d), full_path pfx n)) dl @ rest) ?mid"
      by (subst walk_tree.simps) (simp add: plain_entries subs del: dir_entries.simps)
    have "bt_wf ?mid" by (rule insert_visible_wf [OF out])
    moreover have "\<forall>(n, d) \<in> set dl. dir_listed get C d (full_path pfx n)" using IH dl by auto
    ultimately obtain out' where out': "walk_tree get (map (\<lambda>(n, d). (obj_id C (dir_tree C d), full_path pfx n)) dl @ rest) ?mid =
        walk_tree get rest out'" "bt_wf out'"
      "files_listed (\<lambda>_. True) (\<Union>(n, d) \<in> set dl. node_files d (full_path pfx n)) ?mid out'"
      using walk_dirs [where dl = dl and get = get and C = C and pfx = pfx and out = ?mid and rest = rest] by blast
    have "node_files (DirNode fs ds) pfx = set (blobs pfx ?es) \<union> (\<Union>(n, d) \<in> set dl. node_files d (full_path pfx n))"
      unfolding bl dl by (rule node_files_split [OF DirNode.prems(1) pfx])
    then have "files_listed (\<lambda>_. True) (node_files (DirNode fs ds) pfx) out out'"
      using files_listed_trans [OF files_listed_insert out'(3)] by simp
    with step out' show "\<exists>out'. walk_tree get ((obj_id C (dir_tree C (DirNode fs ds)), pfx) # rest) out = walk_tree get rest out' \<and>
        bt_wf out' \<and> files_listed (\<lambda>_. True) (node_files (DirNode fs ds) pfx) out out'" by metis
  qed
qed

lemma walk_dir_of:
  assumes "bt_wf files" and "\<forall>p. bt_get files p \<noteq> None \<longrightarrow> take 1 p \<noteq> ''/''"
    and "\<forall>obj \<in> dir_objects C (dir_of files). get (obj_id C obj) = Inr (Some obj)"
  shows "walk_tree get [(obj_id C (dir_tree C (dir_of files)), [])] [] =
    Some (Inr (filter (\<lambda>(p, _). \<not> shadowed (bt_get files) p) files))"
proof -
  have look: "dn_lookup (dir_of files) = bt_get files" by (rule dn_lookup_dir_of [OF assms(1)])
  have "dir_listed get C (dir_of files) []"
    by (rule dir_walk [OF dir_ok_dir_of]) (use assms(2,3) in \<open>simp_all add: look\<close>)
  then obtain out where out: "walk_tree get [(obj_id C (dir_tree C (dir_of files)), [])] [] = walk_tree get [] out"
    "bt_wf out" "files_listed (\<lambda>_. True) (node_files (dir_of files) []) [] out"
    unfolding dir_listed_def by (metis bt_wf_Nil)
  let ?files = "filter (\<lambda>(p, _). \<not> shadowed (bt_get files) p) files"
  have wf: "bt_wf ?files" using assms(1) by (rule bt_wf_filter)
  have get: "bt_get ?files p = (if shadowed (bt_get files) p then None else bt_get files p)" for p
    using assms(1) by (simp add: bt_wf_distinct bt_get_filter)
  have "bt_get out p = bt_get ?files p" for p
    using out(3) [unfolded files_listed_def, THEN spec, of p]
    by (cases "bt_get files p") (auto simp: get node_files_def look full_path_def image_iff)
  then have "out = ?files" using bt_get_eq_wf [OF out(2) wf] by blast
  then show ?thesis using out(1) by (simp add: walk_tree.simps)
qed

section \<open>Committing\<close>

abbreviation blob_obj :: "bytes \<Rightarrow> object" where
  "blob_obj data \<equiv> OBlob \<lparr>blob_data = data\<rparr>"

definition blob_paths :: "ocodec \<Rightarrow> (string, bytes) btree \<Rightarrow> file_map" where
  "blob_paths C files = map (\<lambda>(p, data). (p, obj_id C (blob_obj data))) files"

lemma blob_paths_wf: "bt_wf files \<Longrightarrow> bt_wf (blob_paths C files)"
  by (simp add: bt_wf_def blob_paths_def sorted_wrt_map case_prod_unfold)

lemma blob_paths_get: "bt_get (blob_paths C files) p = map_option (\<lambda>data. obj_id C (blob_obj data)) (bt_get files p)"
  by (induction files) (auto simp: blob_paths_def)

lemma fold_insert_id:
  assumes "bt_wf xs"
  shows "fold (\<lambda>(p, d). bt_insert p (g d)) xs [] = map (\<lambda>(p, d). (p, g d)) xs"
proof (rule bt_get_eq_wf)
  show "bt_wf (fold (\<lambda>(p, d). bt_insert p (g d)) xs [])" by (rule bt_fold_insert(1)) simp
  show "bt_wf (map (\<lambda>(p, d). (p, g d)) xs)"
    using assms by (simp add: bt_wf_def sorted_wrt_map case_prod_unfold)
  show "bt_get (fold (\<lambda>(p, d). bt_insert p (g d)) xs []) = bt_get (map (\<lambda>(p, d). (p, g d)) xs)"
    using bt_fold_insert(2) [of "[]" xs g] assms by (simp add: bt_wf_distinct)
qed

lemma load_files:
  assumes "bt_wf files" and "\<forall>(p, data) \<in> set files. get (obj_id C (blob_obj data)) = Inr (Some (blob_obj data))"
  shows "fold_res (load_file get) (blob_paths C files) [] = Inr files"
proof -
  have "fold_res (load_file get) (blob_paths C fs) out = Inr (fold (\<lambda>(p, d). bt_insert p d) fs out)"
    if "\<forall>(p, data) \<in> set fs. get (obj_id C (blob_obj data)) = Inr (Some (blob_obj data))" for fs out
    using that by (induction fs arbitrary: out) (auto simp: blob_paths_def load_file_def as_blob_def)
  from this [OF assms(2)] show ?thesis using fold_insert_id [OF assms(1), of "\<lambda>d. d"] by simp
qed

context storage_backend
begin

lemma store_files_correct:
  assumes "ocodec_ok C" and "\<And>data. storable data" and "inj_on (object_id C) X" and "good C X s"
    and "\<forall>(p, data) \<in> set files. \<exists>b \<in> X. serialize C (blob_obj data) = Inr b"
  shows "\<exists>s'. fold_res (store_file B C) files (out, s) =
      Inr (fold (\<lambda>(p, data). bt_insert p (obj_id C (blob_obj data))) files out, s') \<and> good C X s' \<and> abst s \<subseteq>\<^sub>m abst s' \<and>
    (\<forall>(p, data) \<in> set files. ost_get B C s' (obj_id C (blob_obj data)) = Inr (Some (blob_obj data)))"
  using assms(4,5)
proof (induction files arbitrary: out s)
  case (Cons pd files)
  obtain p data where pd: "pd = (p, data)" by (cases pd)
  obtain b where b: "serialize C (blob_obj data) = Inr b" "b \<in> X" using Cons.prems(2) pd by auto
  obtain s1 where s1: "ost_put B C s (blob_obj data) = Inr (obj_id C (blob_obj data), s1)" "good C X s1" "abst s \<subseteq>\<^sub>m abst s1"
    "ost_get B C s1 (obj_id C (blob_obj data)) = Inr (Some (blob_obj data))"
    using put_good [OF assms(1-3) Cons.prems(1) b] by blast
  obtain s2 where s2: "fold_res (store_file B C) files (bt_insert p (obj_id C (blob_obj data)) out, s1) =
      Inr (fold (\<lambda>(p, data). bt_insert p (obj_id C (blob_obj data))) files (bt_insert p (obj_id C (blob_obj data)) out), s2)"
    "good C X s2" "abst s1 \<subseteq>\<^sub>m abst s2"
    "\<forall>(p, data) \<in> set files. ost_get B C s2 (obj_id C (blob_obj data)) = Inr (Some (blob_obj data))"
    using Cons.IH [OF s1(2), of "bt_insert p (obj_id C (blob_obj data)) out"] Cons.prems(2) by auto
  show ?case using s1 s2 get_mono [OF s1(2) s2(2,3) s1(4)]
    by (auto simp: pd store_file_def put_blob_def intro: map_le_trans)
qed simp

end

text \<open>The objects that a commit writes.\<close>

definition commit_root :: "ocodec \<Rightarrow> ephemeral_workspace \<Rightarrow> oid" where
  "commit_root C ws = obj_id C (dir_tree C (dir_of (blob_paths C (ws_files ws))))"

definition commit_snapshot :: "ocodec \<Rightarrow> ephemeral_workspace \<Rightarrow> string \<Rightarrow> string \<Rightarrow> u64 \<Rightarrow> snapshot" where
  "commit_snapshot C ws author' message' created =
     \<lparr>root = commit_root C ws, parents = (case ws_base ws of Some b \<Rightarrow> [b] | None \<Rightarrow> []), author = author',
       created_at = created, message = message'\<rparr>"

definition commit_objects :: "ocodec \<Rightarrow> ephemeral_workspace \<Rightarrow> string \<Rightarrow> string \<Rightarrow> u64 \<Rightarrow> object set" where
  "commit_objects C ws author' message' created =
     blob_obj ` snd ` set (ws_files ws) \<union> dir_objects C (dir_of (blob_paths C (ws_files ws))) \<union>
     {OSnapshot (commit_snapshot C ws author' message' created)}"

lemma blob_in_commit: "(p, data) \<in> set (ws_files ws) \<Longrightarrow> blob_obj data \<in> commit_objects C ws author' message' created"
  unfolding commit_objects_def by (metis UnI1 image_eqI snd_conv)

context storage_backend
begin

lemma commit_stores:
  assumes "B = env_objects E" and "C = env_codec E" and "ocodec_ok C" and "\<And>data. storable data" and "inj_on (object_id C) X"
    and "good C X (r_objects R)" and "bt_wf (ws_files ws)"
    and "\<And>obj. obj \<in> commit_objects C ws author' message' created \<Longrightarrow> \<exists>data \<in> X. serialize C obj = Inr data"
  shows "\<exists>s. ws_commit E ws R author' message' created =
      Inr (obj_id C (OSnapshot (commit_snapshot C ws author' message' created)),
        ws\<lparr>ws_base := Some (obj_id C (OSnapshot (commit_snapshot C ws author' message' created)))\<rparr>, R\<lparr>r_objects := s\<rparr>) \<and>
    good C X s \<and> abst (r_objects R) \<subseteq>\<^sub>m abst s \<and>
    (\<forall>obj \<in> commit_objects C ws author' message' created. ost_get B C s (obj_id C obj) = Inr (Some obj))"
proof -
  let ?paths = "blob_paths C (ws_files ws)" and ?snap = "OSnapshot (commit_snapshot C ws author' message' created)"
  have "\<forall>(p, data) \<in> set (ws_files ws). \<exists>b \<in> X. serialize C (blob_obj data) = Inr b"
  proof clarify
    fix p data assume "(p, data) \<in> set (ws_files ws)"
    from assms(8) [OF blob_in_commit [OF this]] show "\<exists>b \<in> X. serialize C (blob_obj data) = Inr b" .
  qed
  from store_files_correct [OF assms(3-6) this, of "[]"] obtain s1 where
    s1: "fold_res (store_file B C) (ws_files ws) ([], r_objects R) = Inr (?paths, s1)" "good C X s1" "abst (r_objects R) \<subseteq>\<^sub>m abst s1"
      "\<forall>(p, data) \<in> set (ws_files ws). ost_get B C s1 (obj_id C (blob_obj data)) = Inr (Some (blob_obj data))"
    unfolding fold_insert_id [OF assms(7)] blob_paths_def by blast
  have "\<forall>obj \<in> dir_objects C (dir_of ?paths). \<exists>data \<in> X. serialize C obj = Inr data"
    using assms(8) by (simp add: commit_objects_def)
  with store_dir_correct [OF assms(3-5)] s1(2) obtain s2 where
    s2: "store_dir B C (dir_of ?paths) s1 = Inr (obj_id C (dir_tree C (dir_of ?paths)), s2)" "good C X s2" "abst s1 \<subseteq>\<^sub>m abst s2"
      "\<forall>obj \<in> dir_objects C (dir_of ?paths). ost_get B C s2 (obj_id C obj) = Inr (Some obj)"
    unfolding stores_def by blast
  obtain data where "serialize C ?snap = Inr data" "data \<in> X" using assms(8) [of ?snap] by (auto simp: commit_objects_def)
  from put_good [OF assms(3-5) s2(2) this] obtain s3 where
    s3: "ost_put B C s2 ?snap = Inr (obj_id C ?snap, s3)" "good C X s3" "abst s2 \<subseteq>\<^sub>m abst s3"
      "ost_get B C s3 (obj_id C ?snap) = Inr (Some ?snap)" by blast
  have le: "abst s1 \<subseteq>\<^sub>m abst s3" using map_le_trans [OF s2(3) s3(3)] .
  have "ost_get B C s3 (obj_id C obj) = Inr (Some obj)" if obj: "obj \<in> commit_objects C ws author' message' created" for obj
    using obj unfolding commit_objects_def
  proof (elim UnE)
    assume "obj \<in> blob_obj ` snd ` set (ws_files ws)"
    then show ?thesis using s1(4) get_mono [OF s1(2) s3(2) le] by auto
  next
    assume "obj \<in> dir_objects C (dir_of ?paths)"
    then show ?thesis using s2(4) get_mono [OF s2(2) s3(2,3)] by blast
  qed (use s3(4) in simp)
  moreover have "ws_commit E ws R author' message' created = Inr (obj_id C ?snap, ws\<lparr>ws_base := Some (obj_id C ?snap)\<rparr>, R\<lparr>r_objects := s3\<rparr>)"
    using s1(1) s2(1) s3(1) unfolding assms(1,2)
    by (simp add: ws_commit_def current_paths_def build_tree_def put_snapshot_def commit_snapshot_def commit_root_def)
  ultimately show ?thesis using s3(2) map_le_trans [OF s1(3) le] by blast
qed

end

text \<open>
  C28. Committing a workspace and opening the new snapshot gives the workspace back: the commit succeeds,
  its snapshot has the old base as its only parent, every object stored before is still readable, no
  ref moves, and the snapshot's files are byte for byte those of the workspace, apart from the files whose
  path is a directory of another file: these, and only these, are lost. No path may start with a slash, the store is readable and
  addressed by content, the backend stores every object, and what the commit writes does not collide with what is stored.
  The walk that opens the snapshot returns, although it has no depth bound.
\<close>

theorem commit_round_trip:
  assumes "storage_backend oinv oabst storable (env_objects E)" and "ocodec_ok (env_codec E)" and "\<forall>data. storable data"
    and "oinv (r_objects R)" and "storage_backend.addressed oabst (env_codec E) (r_objects R)" and "readable (repo_get E R)"
    and "bt_wf (ws_files ws)" and "\<forall>p. ws_read ws p \<noteq> None \<longrightarrow> take 1 p \<noteq> ''/''"
    and "collision_free (env_codec E) (ran (oabst (r_objects R))) (commit_objects (env_codec E) ws author' message' created)"
  shows "\<exists>i R'. ws_commit E ws R author' message' created = Inr (i, ws\<lparr>ws_base := Some i\<rparr>, R') \<and>
    repo_get E R' i = Inr (Some (OSnapshot (commit_snapshot (env_codec E) ws author' message' created))) \<and>
    from_snapshot E R' i = Some (Inr \<lparr>ws_base = Some i, ws_files = filter (\<lambda>(p, _). \<not> shadowed (ws_read ws) p) (ws_files ws)\<rparr>) \<and>
    r_refs R' = r_refs R \<and>
    (\<forall>j obj. repo_get E R j = Inr (Some obj) \<longrightarrow> repo_get E R' j = Inr (Some obj))"
proof -
  let ?C = "env_codec E" and ?B = "env_objects E" and ?objs = "commit_objects (env_codec E) ws author' message' created"
  let ?snap = "OSnapshot (commit_snapshot (env_codec E) ws author' message' created)" and ?paths = "blob_paths (env_codec E) (ws_files ws)"
  obtain X where X: "ran (oabst (r_objects R)) \<subseteq> X" "inj_on (object_id ?C) X"
    "\<And>obj. obj \<in> ?objs \<Longrightarrow> \<exists>data \<in> X. serialize ?C obj = Inr data" using collision_freeD [OF assms(9)] by blast
  have good: "storage_backend.good oinv oabst ?B ?C X (r_objects R)"
    unfolding storage_backend.good_def [OF assms(1)] using assms(4-6) X(1) by simp
  obtain s where s: "ws_commit E ws R author' message' created = Inr (obj_id ?C ?snap, ws\<lparr>ws_base := Some (obj_id ?C ?snap)\<rparr>, R\<lparr>r_objects := s\<rparr>)"
    "storage_backend.good oinv oabst ?B ?C X s" "oabst (r_objects R) \<subseteq>\<^sub>m oabst s"
    "\<forall>obj \<in> ?objs. ost_get ?B ?C s (obj_id ?C obj) = Inr (Some obj)"
    using storage_backend.commit_stores [OF assms(1) refl refl assms(2) _ X(2) good assms(7) X(3)] assms(3) by blast
  let ?R = "R\<lparr>r_objects := s\<rparr>"
  have get: "repo_get E ?R (obj_id ?C obj) = Inr (Some obj)" if "obj \<in> ?objs" for obj using s(4) that by simp
  let ?files = "filter (\<lambda>(p, _). \<not> shadowed (ws_read ws) p) (ws_files ws)"
  have shadow: "shadowed (bt_get ?paths) = shadowed (ws_read ws)"
    by (rule ext) (simp add: shadowed_def blob_paths_get ws_read_def)
  have "walk_tree (repo_get E ?R) [(commit_root ?C ws, [])] [] =
      Some (Inr (filter (\<lambda>(p, _). \<not> shadowed (bt_get ?paths) p) ?paths))"
    unfolding commit_root_def
  proof (rule walk_dir_of [OF blob_paths_wf [OF assms(7)]])
    show "\<forall>p. bt_get ?paths p \<noteq> None \<longrightarrow> take 1 p \<noteq> ''/''" using assms(8) by (simp add: blob_paths_get ws_read_def)
    show "\<forall>obj \<in> dir_objects ?C (dir_of ?paths). repo_get E ?R (obj_id ?C obj) = Inr (Some obj)"
      using get by (simp add: commit_objects_def)
  qed
  then have "walk_tree (repo_get E ?R) [(commit_root ?C ws, [])] [] = Some (Inr (blob_paths ?C ?files))"
    unfolding shadow by (simp add: blob_paths_def filter_map comp_def case_prod_unfold)
  moreover have snap: "repo_get E ?R (obj_id ?C ?snap) = Inr (Some ?snap)" using get by (simp add: commit_objects_def)
  ultimately have "snapshot_paths (repo_get E ?R) (obj_id ?C ?snap) = Some (Inr (blob_paths ?C ?files))"
    by (simp add: snapshot_paths_def as_snapshot_def commit_snapshot_def)
  moreover have "\<forall>(p, data) \<in> set ?files. repo_get E ?R (obj_id ?C (blob_obj data)) = Inr (Some (blob_obj data))"
  proof clarify
    fix p data assume "(p, data) \<in> set ?files"
    then have "(p, data) \<in> set (ws_files ws)" by simp
    from get [OF blob_in_commit [OF this]] show "repo_get E ?R (obj_id ?C (blob_obj data)) = Inr (Some (blob_obj data))" .
  qed
  ultimately have "from_snapshot E ?R (obj_id ?C ?snap) = Some (Inr \<lparr>ws_base = Some (obj_id ?C ?snap), ws_files = ?files\<rparr>)"
    using load_files [OF bt_wf_filter [OF assms(7)]] by (simp add: from_snapshot_def)
  moreover have "repo_get E ?R j = Inr (Some obj)" if "repo_get E R j = Inr (Some obj)" for j obj
    using storage_backend.get_mono [OF assms(1) good s(2,3) that] by simp
  ultimately show ?thesis using s(1) snap by (intro exI [of _ "obj_id ?C ?snap"] exI [of _ ?R]) simp
qed

section \<open>An instance\<close>

definition desk_objects :: "object list" where
  "desk_objects = [blob_obj [1], blob_obj [2], blob_obj [3],
     OTree \<lparr>entries = [(''b'', \<lparr>te_id = 1, te_kind = KBlob\<rparr>)]\<rparr>,
     OTree \<lparr>entries = [(''a'', \<lparr>te_id = 3, te_kind = KTree\<rparr>), (''c'', \<lparr>te_id = 2, te_kind = KBlob\<rparr>)]\<rparr>,
     OSnapshot \<lparr>root = 4, parents = [], author = ''u'', created_at = 7, message = ''m''\<rparr>]"

abbreviation desk_env :: "(mem_store, mem_refs, mem_acl) repo_env" where
  "desk_env \<equiv> memory_env (table_codec desk_objects) plain_scheme"

definition desk :: ephemeral_workspace where
  "desk = ws_write (ws_write (ws_write ws_new ''a'' [1]) ''a/b'' [2]) ''c'' [3]"

lemma desk_files: "ws_files desk = [(''a'', [1]), (''a/b'', [2]), (''c'', [3])]" "ws_base desk = None"
  by code_simp+

lemma desk_commit_objects: "commit_objects (table_codec desk_objects) desk ''u'' ''m'' 7 = set desk_objects"
  by code_simp

lemma desk_length: "length desk_objects = 6"
  by (simp add: desk_objects_def)

theorem commit_round_trip_witness:
  "\<exists>i R'. ws_commit desk_env desk memory_repo ''u'' ''m'' 7 = Inr (i, desk\<lparr>ws_base := Some i\<rparr>, R') \<and>
     from_snapshot desk_env R' i = Some (Inr \<lparr>ws_base = Some i, ws_files = [(''a/b'', [2]), (''c'', [3])]\<rparr>)"
proof -
  have files: "filter (\<lambda>(p, _). \<not> shadowed (ws_read desk) p) (ws_files desk) = [(''a/b'', [2]), (''c'', [3])]"
    unfolding ws_read_def shadowed_keys by code_simp
  have free: "collision_free (env_codec desk_env) (ran (map_of (r_objects memory_repo)))
      (commit_objects (env_codec desk_env) desk ''u'' ''m'' 7)"
    using table_collision_free [of desk_objects "set desk_objects" "{}"]
    unfolding memory_env_simps desk_commit_objects by (simp add: memory_repo_def desk_length)
  have paths: "\<forall>p. ws_read desk p \<noteq> None \<longrightarrow> take 1 p \<noteq> ''/''" by (simp add: ws_read_def desk_files)
  have wf: "bt_wf (ws_files desk)" by code_simp
  have readable: "readable (repo_get desk_env memory_repo)" unfolding memory_env_simps by (rule readable_memory) code_simp
  have store: "storage_backend mem_inv map_of (\<lambda>_. True) (env_objects desk_env)"
    using memst.storage_backend_axioms by simp
  have inv: "mem_inv (r_objects memory_repo)" "memst.addressed (env_codec desk_env) (r_objects memory_repo)"
    by (simp_all add: mem_inv_def memst.addressed_def memory_repo_def)
  have codec: "ocodec_ok (env_codec desk_env)" by (simp add: table_codec_ok)
  show ?thesis
    using commit_round_trip [where oabst = map_of, OF store codec _ inv readable wf paths free] unfolding files by blast
qed

end
