(* ===== verification/Secrets.thy ===== *)
theory Secrets
  imports Repository
begin

text \<open>
  Secrets (\<^verbatim>\<open>src/crypto/key_provider.rs\<close>, \<^verbatim>\<open>src/crypto/kms.rs\<close>, \<^verbatim>\<open>src/object/secret.rs\<close>, the secret operations
  of \<^verbatim>\<open>src/store/mod.rs\<close> and of \<^verbatim>\<open>src/repo/mod.rs\<close>): master keys behind key providers, data keys
  wrapped under them, secrets for one and for several recipients, and the resolution of environment
  overlays. The cipher ChaCha20-Poly1305 and the encoding of the authenticated data are parameters; every
  \<^verbatim>\<open>random()\<close> is an argument of the operation that draws it.
\<close>

section \<open>Parameters\<close>

text \<open>Sealing and opening take key, nonce, associated data and text.\<close>

record cipher =
  ae_seal :: "bytes \<Rightarrow> bytes \<Rightarrow> bytes \<Rightarrow> bytes \<Rightarrow> bytes option"
  ae_open :: "bytes \<Rightarrow> bytes \<Rightarrow> bytes \<Rightarrow> bytes \<Rightarrow> bytes option"
  aad_enc :: "secret_aad \<Rightarrow> string + bytes"

text \<open>\<^verbatim>\<open>ChaCha20Poly1305::new_from_slice\<close>: the key must have 32 bytes.\<close>

definition new_cipher :: "string \<Rightarrow> bytes \<Rightarrow> bytes result" where
  "new_cipher msg key = (if length key = 32 then Inr key else Inl (Codec msg))"

text \<open>\<^verbatim>\<open>String::from_utf8\<close>: the well-formed byte sequences of Unicode.\<close>

definition utf8_tail :: "u8 \<Rightarrow> bool" where
  "utf8_tail b \<longleftrightarrow> 128 \<le> b \<and> b \<le> 191"

fun utf8_valid :: "bytes \<Rightarrow> bool" where
  "utf8_valid [] = True"
| "utf8_valid (a # bs) =
     (if a < 128 then utf8_valid bs
      else case bs of
        [] \<Rightarrow> False
      | b # cs \<Rightarrow>
          if 194 \<le> a \<and> a \<le> 223 then utf8_tail b \<and> utf8_valid cs
          else (case cs of
            [] \<Rightarrow> False
          | c # ds \<Rightarrow>
              if a = 224 then 160 \<le> b \<and> b \<le> 191 \<and> utf8_tail c \<and> utf8_valid ds
              else if a = 237 then 128 \<le> b \<and> b \<le> 159 \<and> utf8_tail c \<and> utf8_valid ds
              else if 225 \<le> a \<and> a \<le> 239 then utf8_tail b \<and> utf8_tail c \<and> utf8_valid ds
              else (case ds of
                [] \<Rightarrow> False
              | d # es \<Rightarrow>
                  utf8_tail c \<and> utf8_tail d \<and> utf8_valid es \<and>
                  (if a = 240 then 144 \<le> b \<and> b \<le> 191
                   else if a = 244 then 128 \<le> b \<and> b \<le> 143
                   else 241 \<le> a \<and> a \<le> 243 \<and> utf8_tail b))))"

definition from_utf8 :: "bytes \<Rightarrow> string option" where
  "from_utf8 bs = (if utf8_valid bs then Some (bytes_str bs) else None)"

section \<open>Key providers\<close>

text \<open>The first argument of \<open>wrap_dk\<close> is the randomness that the call draws.\<close>

record key_provider =
  active_key_ref :: string
  wrap_dk :: "bytes \<Rightarrow> bytes \<Rightarrow> bytes \<Rightarrow> wrapped_key result"
  unwrap_dk :: "wrapped_key \<Rightarrow> bytes \<Rightarrow> bytes result"

definition hex8 :: "bytes \<Rightarrow> string" where
  "hex8 bs = concat (map hex_byte (take 8 bs))"

text \<open>\<^verbatim>\<open>try_into\<close> an array of 32 bytes.\<close>

definition try_key :: "bytes \<Rightarrow> bytes result" where
  "try_key dk = (if length dk = 32 then Inr dk else Inl DecryptionFailed)"

definition local_wrap :: "cipher \<Rightarrow> bytes \<Rightarrow> string \<Rightarrow> bytes \<Rightarrow> bytes \<Rightarrow> bytes \<Rightarrow> wrapped_key result" where
  "local_wrap A mk kref nonce dk aad =
     bind_res (new_cipher ''invalid master key length'' mk) (\<lambda>key.
       case ae_seal A key nonce aad dk of
         None \<Rightarrow> Inl (Codec ''dk wrap failed'')
       | Some ct \<Rightarrow> Inr \<lparr>key_ref = kref, wk_bytes = nonce @ ct\<rparr>)"

definition local_unwrap :: "cipher \<Rightarrow> bytes \<Rightarrow> wrapped_key \<Rightarrow> bytes \<Rightarrow> bytes result" where
  "local_unwrap A mk wrapped aad =
     (if length (wk_bytes wrapped) < 12 then Inl DecryptionFailed
      else bind_res (new_cipher ''invalid master key length'' mk) (\<lambda>key.
        case ae_open A key (take 12 (wk_bytes wrapped)) aad (drop 12 (wk_bytes wrapped)) of
          None \<Rightarrow> Inl DecryptionFailed
        | Some dk \<Rightarrow> try_key dk))"

definition local_provider :: "cipher \<Rightarrow> (bytes \<Rightarrow> oid) \<Rightarrow> bytes \<Rightarrow> string \<Rightarrow> key_provider" where
  "local_provider A blake3 mk key_prefix =
     (let kref = key_prefix @ '':'' @ hex8 (as_bytes (blake3 mk)) in
      \<lparr>active_key_ref = kref, wrap_dk = local_wrap A mk kref, unwrap_dk = local_unwrap A mk\<rparr>)"

text \<open>A provider on top of an external key service.\<close>

record kms_client =
  kms_key_ref :: string
  kms_encrypt :: "bytes \<Rightarrow> bytes \<Rightarrow> bytes \<Rightarrow> bytes result"
  kms_decrypt :: "bytes \<Rightarrow> bytes \<Rightarrow> bytes result"

definition kms_provider :: "kms_client \<Rightarrow> key_provider" where
  "kms_provider K = \<lparr>active_key_ref = kms_key_ref K,
     wrap_dk = (\<lambda>r dk aad. bind_res (kms_encrypt K r dk aad) (\<lambda>bs. Inr \<lparr>key_ref = kms_key_ref K, wk_bytes = bs\<rparr>)),
     unwrap_dk = (\<lambda>wrapped aad. bind_res (kms_decrypt K (wk_bytes wrapped) aad) try_key)\<rparr>"

definition local_kms_client :: "cipher \<Rightarrow> (bytes \<Rightarrow> oid) \<Rightarrow> bytes \<Rightarrow> kms_client" where
  "local_kms_client A blake3 key = \<lparr>
     kms_key_ref = ''local-kms:'' @ hex8 (as_bytes (blake3 key)),
     kms_encrypt = (\<lambda>nonce plaintext aad.
       bind_res (new_cipher ''invalid kms key'' key) (\<lambda>k. case ae_seal A k nonce aad plaintext of
           None \<Rightarrow> Inl (Codec ''kms encrypt failed'')
         | Some ct \<Rightarrow> Inr (nonce @ ct))),
     kms_decrypt = (\<lambda>ciphertext aad.
       if length ciphertext < 12 then Inl DecryptionFailed
       else bind_res (new_cipher ''invalid kms key'' key) (\<lambda>k.
         case ae_open A k (take 12 ciphertext) aad (drop 12 ciphertext) of
           None \<Rightarrow> Inl DecryptionFailed
         | Some dk \<Rightarrow> Inr dk))\<rparr>"

section \<open>Provider chains\<close>

record provider_chain =
  providers :: "key_provider list"
  legacy_keys :: "bytes list"

definition chain_new :: provider_chain where
  "chain_new = \<lparr>providers = [], legacy_keys = []\<rparr>"

definition with_provider :: "key_provider \<Rightarrow> provider_chain" where
  "with_provider P = \<lparr>providers = [P], legacy_keys = []\<rparr>"

definition push_provider :: "provider_chain \<Rightarrow> key_provider \<Rightarrow> provider_chain" where
  "push_provider ch P = ch\<lparr>providers := providers ch @ [P]\<rparr>"

definition push_legacy_key :: "provider_chain \<Rightarrow> bytes \<Rightarrow> provider_chain" where
  "push_legacy_key ch key = ch\<lparr>legacy_keys := legacy_keys ch @ [key]\<rparr>"

definition chain_active :: "provider_chain \<Rightarrow> key_provider result" where
  "chain_active ch = (case providers ch of P # _ \<Rightarrow> Inr P | [] \<Rightarrow> Inl (Codec ''no key provider configured''))"

text \<open>A loop that returns the first success.\<close>

fun first_ok :: "('a \<Rightarrow> 'b result) \<Rightarrow> 'a list \<Rightarrow> 'b option" where
  "first_ok f [] = None"
| "first_ok f (x # xs) = (case f x of Inr y \<Rightarrow> Some y | Inl _ \<Rightarrow> first_ok f xs)"

definition chain_unwrap :: "provider_chain \<Rightarrow> wrapped_key \<Rightarrow> bytes \<Rightarrow> bytes result" where
  "chain_unwrap ch wrapped aad =
     (case first_ok (\<lambda>P. unwrap_dk P wrapped aad) (filter (\<lambda>P. active_key_ref P = key_ref wrapped) (providers ch)) of
        Some dk \<Rightarrow> Inr dk
      | None \<Rightarrow>
          (case first_ok (\<lambda>P. unwrap_dk P wrapped aad) (providers ch) of
             Some dk \<Rightarrow> Inr dk
           | None \<Rightarrow> Inl DecryptionFailed))"

section \<open>Secrets under one key\<close>

definition secret_encrypt :: "cipher \<Rightarrow> bytes \<Rightarrow> bytes \<Rightarrow> bytes \<Rightarrow> secret result" where
  "secret_encrypt A nonce plaintext key =
     bind_res (new_cipher ''invalid key length'' key) (\<lambda>k. case ae_seal A k nonce [] plaintext of
         None \<Rightarrow> Inl (Codec ''encryption failed'')
       | Some ct \<Rightarrow> Inr \<lparr>sec_nonce = nonce, sec_ciphertext = ct\<rparr>)"

definition secret_decrypt :: "cipher \<Rightarrow> secret \<Rightarrow> bytes \<Rightarrow> bytes result" where
  "secret_decrypt A s key =
     bind_res (new_cipher ''invalid key length'' key) (\<lambda>k. case ae_open A k (sec_nonce s) [] (sec_ciphertext s) of
         None \<Rightarrow> Inl DecryptionFailed
       | Some pt \<Rightarrow> Inr pt)"

definition v2 :: "label option \<Rightarrow> secret_aad" where
  "v2 lab = \<lparr>aad_version = 2, aad_label = lab\<rparr>"

definition aad_to_bytes :: "cipher \<Rightarrow> secret_aad \<Rightarrow> bytes result" where
  "aad_to_bytes A aad = map_codec (aad_enc A aad)"

text \<open>Sealing and opening the value under a data key, the common part of both kinds of envelope.\<close>

definition seal_value :: "cipher \<Rightarrow> bytes \<Rightarrow> bytes \<Rightarrow> bytes \<Rightarrow> bytes \<Rightarrow> bytes result" where
  "seal_value A dk nonce aad plaintext =
     bind_res (new_cipher ''invalid data key length'' dk) (\<lambda>k. case ae_seal A k nonce aad plaintext of
         None \<Rightarrow> Inl (Codec ''value encryption failed'')
       | Some ct \<Rightarrow> Inr ct)"

definition open_value :: "cipher \<Rightarrow> bytes \<Rightarrow> bytes \<Rightarrow> bytes \<Rightarrow> bytes \<Rightarrow> bytes result" where
  "open_value A dk nonce aad ct =
     bind_res (new_cipher ''invalid data key length'' dk) (\<lambda>k. case ae_open A k nonce aad ct of
         None \<Rightarrow> Inl DecryptionFailed
       | Some pt \<Rightarrow> Inr pt)"

section \<open>Envelopes\<close>

definition encrypt_envelope ::
  "cipher \<Rightarrow> bytes \<Rightarrow> key_provider \<Rightarrow> secret_aad \<Rightarrow> bytes \<Rightarrow> bytes \<Rightarrow> bytes \<Rightarrow> secret_v2 result" where
  "encrypt_envelope A plaintext P aad dk nonce r =
     bind_res (aad_to_bytes A aad) (\<lambda>aad_bytes.
     bind_res (seal_value A dk nonce aad_bytes plaintext) (\<lambda>ct.
     bind_res (wrap_dk P r dk aad_bytes) (\<lambda>wrapped.
       Inr \<lparr>v2_wrapped_dk = wrapped, v2_nonce = nonce, v2_ciphertext = ct, v2_aad = aad\<rparr>)))"

definition v2_decrypt :: "cipher \<Rightarrow> secret_v2 \<Rightarrow> provider_chain \<Rightarrow> bytes result" where
  "v2_decrypt A s ch =
     bind_res (aad_to_bytes A (v2_aad s)) (\<lambda>aad_bytes.
     bind_res (chain_unwrap ch (v2_wrapped_dk s) aad_bytes) (\<lambda>dk.
       open_value A dk (v2_nonce s) aad_bytes (v2_ciphertext s)))"

definition rewrap :: "cipher \<Rightarrow> secret_v2 \<Rightarrow> provider_chain \<Rightarrow> key_provider \<Rightarrow> bytes \<Rightarrow> secret_v2 result" where
  "rewrap A s old new r =
     bind_res (aad_to_bytes A (v2_aad s)) (\<lambda>aad_bytes.
     bind_res (chain_unwrap old (v2_wrapped_dk s) aad_bytes) (\<lambda>dk.
     bind_res (wrap_dk new r dk aad_bytes) (\<lambda>wrapped.
       Inr \<lparr>v2_wrapped_dk = wrapped, v2_nonce = v2_nonce s, v2_ciphertext = v2_ciphertext s, v2_aad = v2_aad s\<rparr>)))"

text \<open>Several recipients; \<open>rs\<close> is the randomness of each wrap.\<close>

definition encrypt_for ::
  "cipher \<Rightarrow> bytes \<Rightarrow> key_provider list \<Rightarrow> secret_aad \<Rightarrow> bytes \<Rightarrow> bytes \<Rightarrow> bytes list \<Rightarrow> multi_secret result" where
  "encrypt_for A plaintext recipients aad dk nonce rs =
     (if recipients = [] then Inl (Codec ''a multi-recipient secret needs at least one recipient'')
      else bind_res (aad_to_bytes A aad) (\<lambda>aad_bytes.
      bind_res (seal_value A dk nonce aad_bytes plaintext) (\<lambda>ct.
      bind_res (map_res (\<lambda>(P, r). wrap_dk P r dk aad_bytes) (zip recipients rs)) (\<lambda>wraps.
        Inr \<lparr>ms_recipients = wraps, ms_nonce = nonce, ms_ciphertext = ct, ms_aad = aad\<rparr>))))"

definition ms_decrypt :: "cipher \<Rightarrow> multi_secret \<Rightarrow> provider_chain \<Rightarrow> bytes result" where
  "ms_decrypt A s ch =
     bind_res (aad_to_bytes A (ms_aad s)) (\<lambda>aad_bytes.
       case first_ok (\<lambda>wrap. chain_unwrap ch wrap aad_bytes) (ms_recipients s) of
         Some dk \<Rightarrow> open_value A dk (ms_nonce s) aad_bytes (ms_ciphertext s)
       | None \<Rightarrow> Inl DecryptionFailed)"

definition ms_grant :: "cipher \<Rightarrow> multi_secret \<Rightarrow> provider_chain \<Rightarrow> key_provider \<Rightarrow> bytes \<Rightarrow> multi_secret result" where
  "ms_grant A s ch P r =
     bind_res (aad_to_bytes A (ms_aad s)) (\<lambda>aad_bytes.
       case first_ok (\<lambda>wrap. chain_unwrap ch wrap aad_bytes) (ms_recipients s) of
         None \<Rightarrow> Inl DecryptionFailed
       | Some dk \<Rightarrow>
           bind_res (wrap_dk P r dk aad_bytes) (\<lambda>new_wrap.
             if list_ex (\<lambda>w. key_ref w = key_ref new_wrap) (ms_recipients s) then Inr s
             else Inr (s\<lparr>ms_recipients := ms_recipients s @ [new_wrap]\<rparr>)))"

definition ms_revoke :: "multi_secret \<Rightarrow> string \<Rightarrow> (bool \<times> multi_secret) result" where
  "ms_revoke s kref =
     (let matching = length (filter (\<lambda>w. key_ref w = kref) (ms_recipients s)) in
      if matching = 0 then Inr (False, s)
      else if matching \<ge> length (ms_recipients s) then Inl (Codec ''cannot revoke the last recipient of a secret'')
      else Inr (True, s\<lparr>ms_recipients := filter (\<lambda>w. key_ref w \<noteq> kref) (ms_recipients s)\<rparr>))"

section \<open>Secrets in the store\<close>

definition put_secret :: "'s backend \<Rightarrow> ocodec \<Rightarrow> cipher \<Rightarrow> 's \<Rightarrow> bytes \<Rightarrow> bytes \<Rightarrow> bytes \<Rightarrow> (oid \<times> 's) result" where
  "put_secret B C A s plaintext key nonce =
     bind_res (secret_encrypt A nonce plaintext key) (\<lambda>sec. ost_put B C s (OSecret sec))"

definition get_secret :: "cipher \<Rightarrow> getter \<Rightarrow> oid \<Rightarrow> bytes \<Rightarrow> bytes option result" where
  "get_secret A get i key =
     bind_res (get i) (\<lambda>found. case found of
       None \<Rightarrow> Inr None
     | Some (OSecret s) \<Rightarrow> bind_res (secret_decrypt A s key) (\<lambda>pt. Inr (Some pt))
     | Some _ \<Rightarrow> Inl (Codec ''not a secret''))"

definition put_secret_enveloped ::
  "'s backend \<Rightarrow> ocodec \<Rightarrow> cipher \<Rightarrow> 's \<Rightarrow> bytes \<Rightarrow> key_provider \<Rightarrow> secret_aad \<Rightarrow> bytes \<Rightarrow> bytes \<Rightarrow> bytes \<Rightarrow> (oid \<times> 's) result" where
  "put_secret_enveloped B C A s plaintext P aad dk nonce r =
     bind_res (encrypt_envelope A plaintext P aad dk nonce r) (\<lambda>sec. ost_put B C s (OSecretV2 sec))"

definition put_multi_recipient ::
  "'s backend \<Rightarrow> ocodec \<Rightarrow> cipher \<Rightarrow> 's \<Rightarrow> bytes \<Rightarrow> key_provider list \<Rightarrow> secret_aad \<Rightarrow> bytes \<Rightarrow> bytes \<Rightarrow> bytes list \<Rightarrow>
    (oid \<times> 's) result" where
  "put_multi_recipient B C A s plaintext recipients aad dk nonce rs =
     bind_res (encrypt_for A plaintext recipients aad dk nonce rs) (\<lambda>sec. ost_put B C s (OMultiRecipientSecret sec))"

definition err_no_secret :: "oid \<Rightarrow> error" where
  "err_no_secret i = Storage (''secret not found: '' @ oid_display i)"

definition grant_secret_recipient ::
  "'s backend \<Rightarrow> ocodec \<Rightarrow> cipher \<Rightarrow> 's \<Rightarrow> oid \<Rightarrow> provider_chain \<Rightarrow> key_provider \<Rightarrow> bytes \<Rightarrow> bytes \<Rightarrow> bytes \<Rightarrow> bytes \<Rightarrow>
    (oid \<times> 's) result" where
  "grant_secret_recipient B C A s i ch P dk nonce r r' =
     bind_res (ost_get B C s i) (\<lambda>found. case found of
       Some (OMultiRecipientSecret sec) \<Rightarrow>
         bind_res (ms_grant A sec ch P r) (\<lambda>sec'. ost_put B C s (OMultiRecipientSecret sec'))
     | Some (OSecretV2 sec) \<Rightarrow>
         bind_res (v2_decrypt A sec ch) (\<lambda>plaintext.
         bind_res (chain_active ch) (\<lambda>granter.
           put_multi_recipient B C A s plaintext [granter, P] (v2_aad sec) dk nonce [r, r']))
     | Some _ \<Rightarrow> Inl (Codec ''not an envelope secret'')
     | None \<Rightarrow> Inl (err_no_secret i))"

definition revoke_secret_recipient :: "'s backend \<Rightarrow> ocodec \<Rightarrow> 's \<Rightarrow> oid \<Rightarrow> string \<Rightarrow> (oid \<times> 's) result" where
  "revoke_secret_recipient B C s i kref =
     bind_res (ost_get B C s i) (\<lambda>found. case found of
       Some (OMultiRecipientSecret sec) \<Rightarrow>
         bind_res (ms_revoke sec kref) (\<lambda>(removed, sec').
           if \<not> removed then Inl (Codec (kref @ '' is not a recipient of this secret''))
           else ost_put B C s (OMultiRecipientSecret sec'))
     | Some _ \<Rightarrow> Inl (Codec ''not a multi-recipient secret'')
     | None \<Rightarrow> Inl (err_no_secret i))"

definition get_secret_resolved :: "cipher \<Rightarrow> getter \<Rightarrow> oid \<Rightarrow> provider_chain \<Rightarrow> bytes option result" where
  "get_secret_resolved A get i ch =
     bind_res (get i) (\<lambda>found. case found of
       None \<Rightarrow> Inr None
     | Some (OSecretV2 s) \<Rightarrow> bind_res (v2_decrypt A s ch) (\<lambda>pt. Inr (Some pt))
     | Some (OMultiRecipientSecret s) \<Rightarrow> bind_res (ms_decrypt A s ch) (\<lambda>pt. Inr (Some pt))
     | Some (OSecret s) \<Rightarrow>
         (case first_ok (secret_decrypt A s) (legacy_keys ch) of
            Some pt \<Rightarrow> Inr (Some pt)
          | None \<Rightarrow> Inl DecryptionFailed)
     | Some _ \<Rightarrow> Inl (Codec ''not a secret''))"

section \<open>Overlays\<close>

record workspace_view =
  wv_files :: file_map
  wv_env :: "(string, string) btree"

definition err_no_overlay :: "oid \<Rightarrow> error" where
  "err_no_overlay i = Storage (''overlay not found: '' @ oid_display i)"

definition view_entry :: "cipher \<Rightarrow> getter \<Rightarrow> bytes \<Rightarrow> string \<times> env_value \<Rightarrow> (string, string) btree \<Rightarrow> (string, string) btree result" where
  "view_entry A get key = (\<lambda>(var, value) env. case value of
       EnvPlain s \<Rightarrow> Inr (bt_insert var s env)
     | EnvSecret i \<Rightarrow>
         bind_res (get_secret A get i key) (\<lambda>found. case found of
           None \<Rightarrow> Inl (err_no_secret i)
         | Some bs \<Rightarrow> (case from_utf8 bs of None \<Rightarrow> Inl SecretNotUtf8 | Some s \<Rightarrow> Inr (bt_insert var s env))))"

definition compute_workspace_view ::
  "('o, 'r, 'a) repo_env \<Rightarrow> cipher \<Rightarrow> ('o, 'r, 'a) repository \<Rightarrow> oid \<Rightarrow> oid \<Rightarrow> bytes \<Rightarrow> accessor \<Rightarrow> workspace_view option result" where
  "compute_workspace_view E A R snapshot_id overlay_id key acc =
     bind_res (get_snapshot_filtered E R snapshot_id acc) (\<lambda>found. case found of
       None \<Rightarrow> Inr None
     | Some filtered \<Rightarrow>
         bind_res (get_overlay (env_objects E) (env_codec E) (r_objects R) overlay_id) (\<lambda>found. case found of
           None \<Rightarrow> Inl (err_no_overlay overlay_id)
         | Some overlay \<Rightarrow>
             bind_res (fold_res (view_entry A (repo_get E R) key) (env_entries overlay) []) (\<lambda>env.
               Inr (Some \<lparr>wv_files = visible_paths filtered, wv_env = env\<rparr>))))"

definition secret_cleared :: "lattice \<Rightarrow> label_rule_set \<Rightarrow> accessor \<Rightarrow> string \<Rightarrow> bool" where
  "secret_cleared L rules acc var =
     (let label = label_for_secret rules L var in label = lat_bottom L \<or> can_read acc label (ResSecret var))"

definition err_not_cleared :: "string \<Rightarrow> error" where
  "err_not_cleared var = AccessDenied (''not cleared to resolve secret for env var '' @ [CHR 0x27] @ var @ [CHR 0x27])"

definition err_secret_utf8 :: "string \<Rightarrow> error" where
  "err_secret_utf8 var = Codec (''secret for env var '' @ [CHR 0x27] @ var @ [CHR 0x27] @ '' is not valid UTF-8'')"

definition resolve_entry ::
  "cipher \<Rightarrow> getter \<Rightarrow> lattice \<Rightarrow> label_rule_set \<Rightarrow> provider_chain \<Rightarrow> accessor \<Rightarrow> bool \<Rightarrow> string \<times> env_value \<Rightarrow>
    (string, string) btree \<Rightarrow> (string, string) btree result" where
  "resolve_entry A get L rules ch acc skip = (\<lambda>(var, value) out. case value of
       EnvPlain s \<Rightarrow> Inr (bt_insert var s out)
     | EnvSecret i \<Rightarrow>
         if \<not> secret_cleared L rules acc var then
           if skip then Inr out else Inl (err_not_cleared var)
         else bind_res (get_secret_resolved A get i ch) (\<lambda>found. case found of
           None \<Rightarrow> Inl (err_no_secret i)
         | Some bs \<Rightarrow> (case from_utf8 bs of None \<Rightarrow> Inl (err_secret_utf8 var) | Some s \<Rightarrow> Inr (bt_insert var s out))))"

definition resolve_overlay ::
  "('o, 'r, 'a) repo_env \<Rightarrow> cipher \<Rightarrow> ('o, 'r, 'a) repository \<Rightarrow> oid \<Rightarrow> provider_chain \<Rightarrow> accessor \<Rightarrow> bool \<Rightarrow>
    (string, string) btree result" where
  "resolve_overlay E A R overlay_id ch acc skip =
     bind_res (get_overlay (env_objects E) (env_codec E) (r_objects R) overlay_id) (\<lambda>found. case found of
       None \<Rightarrow> Inl (err_no_overlay overlay_id)
     | Some overlay \<Rightarrow>
         bind_res (repo_lattice E R) (\<lambda>L. bind_res (repo_rules E R) (\<lambda>rules.
           fold_res (resolve_entry A (repo_get E R) L rules ch acc skip) (env_entries overlay) [])))"

text \<open>Each id comes with the randomness its re-encryption draws: data key, nonce and that of the wrap.\<close>

definition rekey_one ::
  "('o, 'r, 'a) repo_env \<Rightarrow> cipher \<Rightarrow> provider_chain \<Rightarrow> key_provider \<Rightarrow> oid \<times> bytes \<times> bytes \<times> bytes \<Rightarrow>
    (oid \<times> oid) list \<times> ('o, 'r, 'a) repository \<Rightarrow> ((oid \<times> oid) list \<times> ('o, 'r, 'a) repository) result" where
  "rekey_one E A old new = (\<lambda>(i, dk, nonce, r) (mapping, R).
     bind_res (bind_res (repo_get E R i) (\<lambda>found. case found of
         Some (OSecretV2 s) \<Rightarrow> bind_res (rewrap A s old new r) (\<lambda>s'. repo_put E R (OSecretV2 s'))
       | Some (OSecret v1) \<Rightarrow>
           (case first_ok (secret_decrypt A v1) (legacy_keys old) of
              None \<Rightarrow> Inl DecryptionFailed
            | Some pt \<Rightarrow>
                bind_res (put_secret_enveloped (env_objects E) (env_codec E) A (r_objects R) pt new (v2 None) dk nonce r)
                  (\<lambda>(j, s). Inr (j, R\<lparr>r_objects := s\<rparr>)))
       | Some _ \<Rightarrow> Inl (Codec (''not a secret: '' @ oid_display i))
       | None \<Rightarrow> Inl (err_no_secret i))) (\<lambda>(new_id, R').
       Inr (mapping @ [(i, new_id)], R')))"

definition rekey ::
  "('o, 'r, 'a) repo_env \<Rightarrow> cipher \<Rightarrow> ('o, 'r, 'a) repository \<Rightarrow> (oid \<times> bytes \<times> bytes \<times> bytes) list \<Rightarrow> provider_chain \<Rightarrow>
    key_provider \<Rightarrow> ((oid \<times> oid) list \<times> ('o, 'r, 'a) repository) result" where
  "rekey E A R ids old new = fold_res (rekey_one E A old new) ids ([], R)"

end
