(* ===== verification/Secret_Laws.thy ===== *)
theory Secret_Laws
  imports Secrets Repository_Laws Object_Writes
begin

text \<open>
  What secrets guarantee: a value sealed for several recipients through every sequence of grants and
  revocations, the rotation of master keys over the store, and what an accessor sees of an overlay. The
  laws of the cipher and of the key providers are locales; the providers of the program, local and through
  a key service, satisfy the second whenever their cipher satisfies the first.
\<close>

section \<open>Keys that agree\<close>

text \<open>What is relied on of an authenticated cipher: opening undoes sealing, and another key does not open to another text.\<close>

locale aead_cipher =
  fixes A :: cipher
  assumes open_seal: "ae_seal A key nonce aad m = Some ct \<Longrightarrow> ae_open A key nonce aad ct = Some m"
    and open_other: "ae_seal A key nonce aad m = Some ct \<Longrightarrow> ae_open A key' nonce aad ct = Some m' \<Longrightarrow> m' = m"

text \<open>
  The contract of the key providers in use: a wrap names its provider, the provider recovers the data key
  from it, and no provider recovers a different one. Nonces have 12 bytes and data keys 32.
\<close>

locale key_authority =
  fixes Ps :: "key_provider set"
  assumes own: "P \<in> Ps \<Longrightarrow> length r = 12 \<Longrightarrow> length dk = 32 \<Longrightarrow> wrap_dk P r dk aad = Inr w \<Longrightarrow> unwrap_dk P w aad = Inr dk"
    and agree: "P \<in> Ps \<Longrightarrow> Q \<in> Ps \<Longrightarrow> length r = 12 \<Longrightarrow> length dk = 32 \<Longrightarrow> wrap_dk P r dk aad = Inr w \<Longrightarrow>
      unwrap_dk Q w aad = Inr dk' \<Longrightarrow> dk' = dk"
    and named: "P \<in> Ps \<Longrightarrow> wrap_dk P r dk aad = Inr w \<Longrightarrow> key_ref w = active_key_ref P"
    and key_size: "P \<in> Ps \<Longrightarrow> unwrap_dk P w aad = Inr dk \<Longrightarrow> length dk = 32"
begin

definition wrapped :: "bytes \<Rightarrow> bytes \<Rightarrow> wrapped_key \<Rightarrow> bool" where
  "wrapped dk aad w \<longleftrightarrow> length dk = 32 \<and> (\<exists>P \<in> Ps. \<exists>r. length r = 12 \<and> wrap_dk P r dk aad = Inr w)"

lemma wrapped_opens: "wrapped dk aad w \<Longrightarrow> \<exists>P \<in> Ps. key_ref w = active_key_ref P \<and> unwrap_dk P w aad = Inr dk"
  unfolding wrapped_def using own named by blast

lemma wrapped_unique: "wrapped dk aad w \<Longrightarrow> P \<in> Ps \<Longrightarrow> unwrap_dk P w aad = Inr dk' \<Longrightarrow> dk' = dk"
  unfolding wrapped_def using agree by blast

end

lemma first_ok_Some: "first_ok f xs = Some y \<Longrightarrow> \<exists>x \<in> set xs. f x = Inr y"
  by (induction xs) (auto split: sum.splits)

lemma first_ok_None: "first_ok f xs = None \<longleftrightarrow> (\<forall>x \<in> set xs. isl (f x))"
  by (induction xs) (auto split: sum.splits)

lemma chain_unwrap_Inr: "chain_unwrap ch w aad = Inr dk \<Longrightarrow> \<exists>P \<in> set (providers ch). unwrap_dk P w aad = Inr dk"
  by (auto simp: chain_unwrap_def split: option.splits dest!: first_ok_Some)

lemma chain_unwrap_Inl: "chain_unwrap ch w aad = Inl e \<longleftrightarrow> e = DecryptionFailed \<and> (\<forall>P \<in> set (providers ch). isl (unwrap_dk P w aad))"
  unfolding chain_unwrap_def
  by (auto split: option.splits simp: first_ok_None dest!: first_ok_Some) (metis first_ok_Some isl_def sum.distinct(1) sum.disc(2))+

lemma chain_unwrap_single: "chain_unwrap (with_provider P) w aad = (case unwrap_dk P w aad of Inr dk \<Rightarrow> Inr dk | Inl _ \<Rightarrow> Inl DecryptionFailed)"
  by (simp add: chain_unwrap_def with_provider_def split: sum.split)

text \<open>Whether a chain of keys opens some wrap.\<close>

definition opens :: "provider_chain \<Rightarrow> bytes \<Rightarrow> wrapped_key list \<Rightarrow> bool" where
  "opens ch aad ws \<longleftrightarrow> list_ex (\<lambda>w. list_ex (\<lambda>P. \<not> isl (unwrap_dk P w aad)) (providers ch)) ws"

context key_authority
begin

lemma chain_opens:
  assumes "\<forall>w \<in> set ws. wrapped dk aad w" and "set (providers ch) \<subseteq> Ps"
  shows "first_ok (\<lambda>w. chain_unwrap ch w aad) ws = (if opens ch aad ws then Some dk else None)"
proof (cases "first_ok (\<lambda>w. chain_unwrap ch w aad) ws")
  case None
  then have "\<forall>w \<in> set ws. isl (chain_unwrap ch w aad)" by (simp add: first_ok_None)
  then have "\<forall>w \<in> set ws. \<forall>P \<in> set (providers ch). isl (unwrap_dk P w aad)"
    by (metis chain_unwrap_Inl isl_def)
  with None show ?thesis by (simp add: opens_def list_ex_iff)
next
  case (Some dk')
  then obtain w P where w: "w \<in> set ws" "P \<in> set (providers ch)" "unwrap_dk P w aad = Inr dk'"
    by (metis first_ok_Some chain_unwrap_Inr)
  then have "dk' = dk" using assms wrapped_unique by blast
  moreover have "opens ch aad ws" unfolding opens_def list_ex_iff using w by (metis sum.disc(2))
  ultimately show ?thesis using Some by simp
qed

lemma chain_opens_one:
  assumes "wrapped dk aad w" and "set (providers ch) \<subseteq> Ps"
  shows "chain_unwrap ch w aad = (if opens ch aad [w] then Inr dk else Inl DecryptionFailed)"
  using chain_opens [of "[w]" dk aad ch] assms chain_unwrap_Inl [of ch w aad]
  by (auto split: sum.splits if_splits)

end

locale envelopes = aead_cipher A + key_authority Ps for A :: cipher and Ps :: "key_provider set"
begin

lemma open_sealed: "seal_value A dk nonce aad pt = Inr ct \<Longrightarrow> open_value A dk nonce aad ct = Inr pt"
  by (cases "length dk = 32") (auto simp: seal_value_def open_value_def new_cipher_def open_seal split: option.splits)

end

section \<open>Sharing a secret\<close>

inductive sharing :: "cipher \<Rightarrow> key_provider set \<Rightarrow> multi_secret \<Rightarrow> multi_secret \<Rightarrow> bool" for A Ps where
  share_grant: "set (providers ch) \<subseteq> Ps \<Longrightarrow> P \<in> Ps \<Longrightarrow> length r = 12 \<Longrightarrow> ms_grant A s ch P r = Inr s' \<Longrightarrow> sharing A Ps s s'"
| share_revoke: "ms_revoke s kref = Inr (removed, s') \<Longrightarrow> sharing A Ps s s'"

lemma ms_revoke_cases:
  assumes "ms_revoke s kref = Inr (removed, s')"
  shows "\<not> removed \<and> s' = s \<and> kref \<notin> key_ref ` set (ms_recipients s) \<or>
    removed \<and> s' = s\<lparr>ms_recipients := filter (\<lambda>w. key_ref w \<noteq> kref) (ms_recipients s)\<rparr> \<and> ms_recipients s' \<noteq> []"
proof -
  let ?ws = "ms_recipients s" and ?n = "length (filter (\<lambda>w. key_ref w = kref) (ms_recipients s))"
  have len: "?n + length (filter (\<lambda>w. key_ref w \<noteq> kref) ?ws) = length ?ws" by (rule sum_length_filter_compl)
  consider "?n = 0" | "?n \<noteq> 0" "?n < length ?ws" using assms by (fastforce simp: ms_revoke_def Let_def split: if_splits)
  then show ?thesis
  proof cases
    case 1
    then have "kref \<notin> key_ref ` set ?ws" by (auto simp: filter_empty_conv)
    with 1 assms show ?thesis by (simp add: ms_revoke_def)
  next
    case 2
    then have res: "removed" "s' = s\<lparr>ms_recipients := filter (\<lambda>w. key_ref w \<noteq> kref) ?ws\<rparr>"
      using assms by (simp_all add: ms_revoke_def Let_def)
    have "filter (\<lambda>w. key_ref w \<noteq> kref) ?ws \<noteq> []" using 2 len by (metis add.right_neutral less_irrefl list.size(3))
    with res show ?thesis by simp
  qed
qed

context envelopes
begin

definition shared :: "bytes \<Rightarrow> bytes \<Rightarrow> bytes \<Rightarrow> multi_secret \<Rightarrow> bool" where
  "shared dk aad pt s \<longleftrightarrow> ms_recipients s \<noteq> [] \<and> (\<forall>w \<in> set (ms_recipients s). wrapped dk aad w) \<and>
     aad_to_bytes A (ms_aad s) = Inr aad \<and> open_value A dk (ms_nonce s) aad (ms_ciphertext s) = Inr pt"

lemma encrypt_for_shared:
  assumes "encrypt_for A pt recipients aad dk nonce rs = Inr s" and "set recipients \<subseteq> Ps" and "length dk = 32"
    and "length rs = length recipients" and "\<forall>r \<in> set rs. length r = 12"
  shows "\<exists>aad_bytes. shared dk aad_bytes pt s"
proof -
  from assms(1) obtain ab ct wraps where ab: "aad_to_bytes A aad = Inr ab" and ct: "seal_value A dk nonce ab pt = Inr ct"
    and wraps: "map_res (\<lambda>(P, r). wrap_dk P r dk ab) (zip recipients rs) = Inr wraps"
    and s: "s = \<lparr>ms_recipients = wraps, ms_nonce = nonce, ms_ciphertext = ct, ms_aad = aad\<rparr>" and ne: "recipients \<noteq> []"
    by (auto simp: encrypt_for_def bind_res_Inr split: if_splits)
  have rel: "list_all2 (\<lambda>(P, r) w. wrap_dk P r dk ab = Inr w) (zip recipients rs) wraps"
    using wraps by (simp add: map_res_Inr_iff case_prod_unfold)
  have "wrapped dk ab w" if w: "w \<in> set wraps" for w
  proof -
    obtain n where n: "n < length wraps" "wraps ! n = w" using w by (metis in_set_conv_nth)
    obtain P r where Pr: "zip recipients rs ! n = (P, r)" by (cases "zip recipients rs ! n")
    have wr: "wrap_dk P r dk ab = Inr w" using list_all2_nthD2 [OF rel n(1)] n(2) Pr by simp
    have "(P, r) \<in> set (zip recipients rs)" using n(1) Pr list_all2_lengthD [OF rel] nth_mem by metis
    then have "P \<in> Ps" "length r = 12" using assms(2,5) by (auto dest: set_zip_leftD set_zip_rightD)
    then show ?thesis unfolding wrapped_def using wr assms(3) by blast
  qed
  moreover have "wraps \<noteq> []" using list_all2_lengthD [OF rel] ne assms(4) by auto
  ultimately show ?thesis using ab open_sealed [OF ct] by (auto simp: shared_def s)
qed

lemma sharing_step:
  assumes "sharing A Ps s s'" and "shared dk aad pt s"
  shows "shared dk aad pt s' \<and> ms_nonce s' = ms_nonce s \<and> ms_ciphertext s' = ms_ciphertext s \<and> ms_aad s' = ms_aad s"
  using assms
proof (induction rule: sharing.induct)
  case (share_grant ch P r s s')
  have ab: "aad_to_bytes A (ms_aad s) = Inr aad" and ws: "\<forall>w \<in> set (ms_recipients s). wrapped dk aad w"
    and dk: "length dk = 32" using share_grant.prems by (auto simp: shared_def wrapped_def dest: hd_in_set)
  from share_grant(4) obtain w where w: "wrap_dk P r dk aad = Inr w" and s': "s' = s \<or> s' = s\<lparr>ms_recipients := ms_recipients s @ [w]\<rparr>"
    by (auto simp: ms_grant_def ab chain_opens [OF ws share_grant(1)] bind_res_Inr split: if_splits)
  have "wrapped dk aad w" unfolding wrapped_def using share_grant(2,3) w dk by blast
  with s' share_grant.prems show ?case by (auto simp: shared_def)
next
  case (share_revoke s kref removed s')
  from ms_revoke_cases [OF share_revoke(1)] share_revoke(2) show ?case by (auto simp: shared_def)
qed

end

context envelopes
begin

lemma shared_decrypt:
  assumes "shared dk aad pt s" and "set (providers ch) \<subseteq> Ps"
  shows "ms_decrypt A s ch = (if opens ch aad (ms_recipients s) then Inr pt else Inl DecryptionFailed)"
  using assms chain_opens [of "ms_recipients s" dk aad ch] by (simp add: ms_decrypt_def shared_def)

lemma shared_reader:
  assumes "shared dk aad pt s" and "w \<in> set (ms_recipients s)"
  shows "\<exists>P \<in> Ps. active_key_ref P = key_ref w \<and> ms_decrypt A s (with_provider P) = Inr pt"
proof -
  obtain P where P: "P \<in> Ps" "key_ref w = active_key_ref P" "unwrap_dk P w aad = Inr dk"
    using assms wrapped_opens [of dk aad w] by (auto simp: shared_def)
  have "opens (with_provider P) aad (ms_recipients s)"
    unfolding opens_def list_ex_iff using assms(2) P(3) by (force simp: with_provider_def)
  then show ?thesis using P shared_decrypt [OF assms(1), of "with_provider P"] by (auto simp: with_provider_def)
qed

lemma sharing_steps:
  assumes "(sharing A Ps)\<^sup>*\<^sup>* s s'" and "shared dk aad pt s"
  shows "shared dk aad pt s' \<and> ms_nonce s' = ms_nonce s \<and> ms_ciphertext s' = ms_ciphertext s \<and> ms_aad s' = ms_aad s"
  using assms(1)
proof (induction rule: rtranclp_induct)
  case (step y z)
  then show ?case using sharing_step [of y z dk aad pt] by simp
qed (use assms(2) in simp)

end

text \<open>
  C15. Whatever sequence of grants and revocations a shared secret goes through, it keeps at least one recipient
  and its value is never encrypted again; every wrap left belongs to a provider that still reads the
  value with its own key alone; and a chain of keys either reads exactly the value, namely when one of its
  providers opens one of the wraps left, or fails.
\<close>

theorem shared_secret_invariant:
  assumes "envelopes A Ps" and "encrypt_for A pt recipients aad dk nonce rs = Inr s0" and "set recipients \<subseteq> Ps"
    and "length dk = 32" and "length rs = length recipients" and "\<forall>r \<in> set rs. length r = 12"
    and "(sharing A Ps)\<^sup>*\<^sup>* s0 s"
  shows "ms_recipients s \<noteq> [] \<and> ms_nonce s = ms_nonce s0 \<and> ms_ciphertext s = ms_ciphertext s0 \<and> ms_aad s = aad \<and>
    (\<forall>w \<in> set (ms_recipients s). \<exists>P \<in> Ps. active_key_ref P = key_ref w \<and> ms_decrypt A s (with_provider P) = Inr pt) \<and>
    (\<exists>aad_bytes. aad_to_bytes A aad = Inr aad_bytes \<and> (\<forall>ch. set (providers ch) \<subseteq> Ps \<longrightarrow>
      ms_decrypt A s ch = (if opens ch aad_bytes (ms_recipients s) then Inr pt else Inl DecryptionFailed)))"
proof -
  obtain ab where s0: "envelopes.shared A Ps dk ab pt s0"
    using envelopes.encrypt_for_shared [OF assms(1-6)] by blast
  from envelopes.sharing_steps [OF assms(1,7) s0] have s: "envelopes.shared A Ps dk ab pt s"
    and same: "ms_nonce s = ms_nonce s0" "ms_ciphertext s = ms_ciphertext s0" "ms_aad s = ms_aad s0" by blast+
  have "ms_aad s0 = aad" using assms(2) by (auto simp: encrypt_for_def bind_res_Inr split: if_splits)
  with same have aad: "ms_aad s = aad" by simp
  have "ms_recipients s \<noteq> []" "aad_to_bytes A (ms_aad s) = Inr ab"
    using s unfolding envelopes.shared_def [OF assms(1)] by blast+
  then show ?thesis
    using same aad envelopes.shared_reader [OF assms(1) s] envelopes.shared_decrypt [OF assms(1) s] by metis
qed

section \<open>Rotating the master key\<close>

inductive rotation :: "cipher \<Rightarrow> key_provider set \<Rightarrow> secret_v2 \<Rightarrow> secret_v2 \<Rightarrow> bool" for A Ps where
  rotate: "set (providers ch) \<subseteq> Ps \<Longrightarrow> new \<in> Ps \<Longrightarrow> length r = 12 \<Longrightarrow> rewrap A s ch new r = Inr s' \<Longrightarrow> rotation A Ps s s'"

context key_authority
begin

lemma rewrap_value:
  assumes "set (providers old) \<subseteq> Ps" and "new \<in> Ps" and "length r = 12" and "rewrap A s old new r = Inr s'"
  shows "v2_decrypt A s' (with_provider new) = v2_decrypt A s old" and "active_key_ref new = key_ref (v2_wrapped_dk s')"
proof -
  from assms(4) obtain ab dk w where ab: "aad_to_bytes A (v2_aad s) = Inr ab" and dk: "chain_unwrap old (v2_wrapped_dk s) ab = Inr dk"
    and w: "wrap_dk new r dk ab = Inr w" and s': "s' = s\<lparr>v2_wrapped_dk := w\<rparr>"
    by (auto simp: rewrap_def bind_res_Inr)
  have "length dk = 32" using chain_unwrap_Inr [OF dk] assms(1) key_size by blast
  then have "unwrap_dk new w ab = Inr dk" using own [OF assms(2,3) _ w] by blast
  then show "v2_decrypt A s' (with_provider new) = v2_decrypt A s old"
    by (simp add: v2_decrypt_def s' ab dk chain_unwrap_single)
  show "active_key_ref new = key_ref (v2_wrapped_dk s')" using named [OF assms(2) w] s' by simp
qed

end

context envelopes
begin

definition enveloped :: "bytes \<Rightarrow> bytes \<Rightarrow> bytes \<Rightarrow> secret_v2 \<Rightarrow> bool" where
  "enveloped dk aad pt s \<longleftrightarrow> wrapped dk aad (v2_wrapped_dk s) \<and> aad_to_bytes A (v2_aad s) = Inr aad \<and>
     open_value A dk (v2_nonce s) aad (v2_ciphertext s) = Inr pt"

lemma enveloped_decrypt:
  assumes "enveloped dk aad pt s" and "set (providers ch) \<subseteq> Ps"
  shows "v2_decrypt A s ch = (if opens ch aad [v2_wrapped_dk s] then Inr pt else Inl DecryptionFailed)"
  using assms chain_opens_one [of dk aad "v2_wrapped_dk s" ch] by (simp add: v2_decrypt_def enveloped_def)

lemma encrypt_enveloped:
  assumes "encrypt_envelope A pt P aad dk nonce r = Inr s" and "P \<in> Ps" and "length dk = 32" and "length r = 12"
  shows "\<exists>aad_bytes. enveloped dk aad_bytes pt s \<and> v2_decrypt A s (with_provider P) = Inr pt"
proof -
  from assms(1) obtain ab ct w where ab: "aad_to_bytes A aad = Inr ab" and ct: "seal_value A dk nonce ab pt = Inr ct"
    and w: "wrap_dk P r dk ab = Inr w" and s: "s = \<lparr>v2_wrapped_dk = w, v2_nonce = nonce, v2_ciphertext = ct, v2_aad = aad\<rparr>"
    by (auto simp: encrypt_envelope_def bind_res_Inr)
  have "unwrap_dk P w ab = Inr dk" by (rule own [OF assms(2,4,3) w])
  then have "v2_decrypt A s (with_provider P) = Inr pt"
    by (simp add: v2_decrypt_def s ab chain_unwrap_single open_sealed [OF ct])
  moreover have "enveloped dk ab pt s"
    unfolding enveloped_def wrapped_def using w assms(2-4) by (auto simp: s ab open_sealed [OF ct])
  ultimately show ?thesis by blast
qed

end

text \<open>What rekeying writes for one id, as a function of the store before.\<close>

definition rekeyed :: "cipher \<Rightarrow> getter \<Rightarrow> provider_chain \<Rightarrow> key_provider \<Rightarrow> oid \<times> bytes \<times> bytes \<times> bytes \<Rightarrow> object result" where
  "rekeyed A get old new = (\<lambda>(i, dk, nonce, r).
     bind_res (get i) (\<lambda>found. case found of
       Some (OSecretV2 s) \<Rightarrow> bind_res (rewrap A s old new r) (\<lambda>s'. Inr (OSecretV2 s'))
     | Some (OSecret v1) \<Rightarrow>
         (case first_ok (secret_decrypt A v1) (legacy_keys old) of
            None \<Rightarrow> Inl DecryptionFailed
          | Some pt \<Rightarrow> bind_res (encrypt_envelope A pt new (v2 None) dk nonce r) (\<lambda>s'. Inr (OSecretV2 s')))
     | Some _ \<Rightarrow> Inl (Codec (''not a secret: '' @ oid_display i))
     | None \<Rightarrow> Inl (err_no_secret i)))"

lemma rekey_one_rekeyed:
  "rekey_one E A old new (i, coins) (mapping, R) =
     bind_res (rekeyed A (repo_get E R) old new (i, coins)) (\<lambda>obj.
     bind_res (repo_put E R obj) (\<lambda>(j, R'). Inr (mapping @ [(i, j)], R')))"
proof (cases "repo_get E R i")
  case (Inr found)
  then show ?thesis
    by (cases coins; cases found)
      (auto simp: rekey_one_def rekeyed_def put_secret_enveloped_def repo_put_def bind_res_def
        split: object.split sum.split option.split)
qed (cases coins; simp add: rekey_one_def rekeyed_def)

context envelopes
begin

lemma rekeyed_value:
  assumes "rekeyed A get old new (i, dk, nonce, r) = Inr obj" and "set (providers old) \<subseteq> Ps" and "new \<in> Ps"
    and "length dk = 32" and "length r = 12" and "get' j = Inr (Some obj)"
  shows "get_secret_resolved A get' j (with_provider new) = get_secret_resolved A get i old"
proof -
  from assms(1) obtain found where found: "get i = Inr (Some found)"
    by (auto simp: rekeyed_def bind_res_Inr split: option.splits)
  then consider s s' where "found = OSecretV2 s" "rewrap A s old new r = Inr s'" "obj = OSecretV2 s'"
    | v1 pt s' where "found = OSecret v1" "first_ok (secret_decrypt A v1) (legacy_keys old) = Some pt"
      "encrypt_envelope A pt new (v2 None) dk nonce r = Inr s'" "obj = OSecretV2 s'"
    using assms(1) by (cases found) (auto simp: rekeyed_def bind_res_Inr split: option.splits)
  then show ?thesis
  proof cases
    case (1 s s')
    then show ?thesis using rewrap_value(1) [OF assms(2,3,5) 1(2)] found assms(6) by (simp add: get_secret_resolved_def)
  next
    case (2 v1 pt s')
    then show ?thesis using encrypt_enveloped [OF 2(3) assms(3-5)] found assms(6) by (auto simp: get_secret_resolved_def)
  qed
qed

end

lemma rekeyed_cong: "get i = get' i \<Longrightarrow> rekeyed A get old new (i, coins) = rekeyed A get' old new (i, coins)"
  by (cases coins) (simp add: rekeyed_def)

lemma resolved_cong: "get i = get' i \<Longrightarrow> get_secret_resolved A get i ch = get_secret_resolved A get' i ch"
  by (simp add: get_secret_resolved_def)

lemma rekey_steps:
  assumes "storage_backend oinv oabst storable (env_objects E)" and "envelopes A Ps" and "ocodec_ok (env_codec E)"
    and "\<And>data. storable data" and "inj_on (object_id (env_codec E)) X" and "set (providers old) \<subseteq> Ps" and "new \<in> Ps"
    and "storage_backend.good oinv oabst (env_objects E) (env_codec E) X (r_objects R)"
    and "\<forall>(i, dk, nonce, r) \<in> set ids. length dk = 32 \<and> length r = 12 \<and> (\<exists>obj. repo_get E R i = Inr (Some obj))"
    and "\<forall>x \<in> set ids. \<forall>obj. rekeyed A (repo_get E R) old new x = Inr obj \<longrightarrow> (\<exists>data \<in> X. serialize (env_codec E) obj = Inr data)"
    and "fold_res (rekey_one E A old new) ids (mapping, R) = Inr (mapping', R')"
  shows "\<exists>ms. mapping' = mapping @ ms \<and> map fst ms = map fst ids \<and> r_refs R' = r_refs R \<and>
    storage_backend.good oinv oabst (env_objects E) (env_codec E) X (r_objects R') \<and> oabst (r_objects R) \<subseteq>\<^sub>m oabst (r_objects R') \<and>
    (\<forall>(i, j) \<in> set ms. get_secret_resolved A (repo_get E R') j (with_provider new) = get_secret_resolved A (repo_get E R) i old)"
  using assms(8-11)
proof (induction ids arbitrary: mapping R)
  case (Cons x ids)
  obtain i dk nonce r where x: "x = (i, dk, nonce, r)" by (cases x)
  have len: "length dk = 32" "length r = 12" using Cons.prems(2) by (simp_all add: x)
  from Cons.prems(4) obtain m1 R1 where one: "rekey_one E A old new x (mapping, R) = Inr (m1, R1)"
    and rest: "fold_res (rekey_one E A old new) ids (m1, R1) = Inr (mapping', R')" by (auto simp: bind_res_Inr)
  from one obtain obj j where obj: "rekeyed A (repo_get E R) old new x = Inr obj" and put: "repo_put E R obj = Inr (j, R1)"
    and m1: "m1 = mapping @ [(i, j)]"
    by (auto simp: x rekey_one_rekeyed bind_res_Inr)
  obtain data where data: "serialize (env_codec E) obj = Inr data" "data \<in> X" using Cons.prems(3) obj by auto
  obtain s1 where s1: "ost_put (env_objects E) (env_codec E) (r_objects R) obj = Inr (obj_id (env_codec E) obj, s1)"
    "storage_backend.good oinv oabst (env_objects E) (env_codec E) X s1" "oabst (r_objects R) \<subseteq>\<^sub>m oabst s1"
    "ost_get (env_objects E) (env_codec E) s1 (obj_id (env_codec E) obj) = Inr (Some obj)"
    using storage_backend.put_good [OF assms(1,3,4,5) Cons.prems(1) data] by blast
  then have j: "j = obj_id (env_codec E) obj" and R1: "R1 = R\<lparr>r_objects := s1\<rparr>" using put by (simp_all add: repo_put_def)
  have same: "repo_get E R1 k = repo_get E R k" if "\<exists>ob. repo_get E R k = Inr (Some ob)" for k
    using that storage_backend.get_mono [OF assms(1) Cons.prems(1) s1(2,3)] R1 by auto
  have present: "\<exists>ob. repo_get E R k = Inr (Some ob)" if "(k, coins) \<in> set ids" for k coins
    using Cons.prems(2) that by (cases coins) auto
  have ids: "\<forall>(i, dk, nonce, r) \<in> set ids. length dk = 32 \<and> length r = 12 \<and> (\<exists>obj. repo_get E R1 i = Inr (Some obj))"
    using Cons.prems(2) same by fastforce
  have ser: "\<forall>y \<in> set ids. \<forall>ob. rekeyed A (repo_get E R1) old new y = Inr ob \<longrightarrow> (\<exists>data \<in> X. serialize (env_codec E) ob = Inr data)"
  proof
    fix y assume y: "y \<in> set ids"
    obtain k coins where k: "y = (k, coins)" by (cases y)
    have "rekeyed A (repo_get E R1) old new y = rekeyed A (repo_get E R) old new y"
      unfolding k by (rule rekeyed_cong) (use same present y k in blast)
    then show "\<forall>ob. rekeyed A (repo_get E R1) old new y = Inr ob \<longrightarrow> (\<exists>data \<in> X. serialize (env_codec E) ob = Inr data)"
      using Cons.prems(3) y by simp
  qed
  have good1: "storage_backend.good oinv oabst (env_objects E) (env_codec E) X (r_objects R1)" using s1(2) R1 by simp
  from Cons.IH [OF good1 ids ser rest] obtain ms where ms: "mapping' = m1 @ ms" "map fst ms = map fst ids" "r_refs R' = r_refs R1"
    "storage_backend.good oinv oabst (env_objects E) (env_codec E) X (r_objects R')" "oabst (r_objects R1) \<subseteq>\<^sub>m oabst (r_objects R')"
    "\<forall>(i, j) \<in> set ms. get_secret_resolved A (repo_get E R') j (with_provider new) = get_secret_resolved A (repo_get E R1) i old" by blast
  have "repo_get E R' j = Inr (Some obj)"
    using storage_backend.get_mono [OF assms(1) good1 ms(4,5), of j obj] s1(4) R1 j by simp
  from envelopes.rekeyed_value [where get' = "repo_get E R'" and get = "repo_get E R" and i = i and j = j, OF assms(2) obj [unfolded x] assms(6,7) len this]
  have first: "get_secret_resolved A (repo_get E R') j (with_provider new) = get_secret_resolved A (repo_get E R) i old" .
  have "get_secret_resolved A (repo_get E R') b (with_provider new) = get_secret_resolved A (repo_get E R) a old" if "(a, b) \<in> set ms" for a b
  proof -
    have "a \<in> fst ` set ids" using that ms(2) by (metis fst_conv image_eqI image_set)
    then have "repo_get E R1 a = repo_get E R a" using same present by force
    then show ?thesis using ms(6) that resolved_cong [of "repo_get E R1" a "repo_get E R" A old] by fastforce
  qed
  with first ms m1 x R1 s1(3) show ?case
    by (intro exI [of _ "(i, j) # ms"]) (auto intro: map_le_trans)
qed simp

text \<open>
  C16. Rotating the master key of stored secrets changes nobody's view of their values: after a rekeying that
  succeeds, each secret reads under the new provider alone exactly as it did under the old chain, with the
  ids paired in order; a secret of the old kind is carried over to an envelope. All objects stored before
  stay readable and no ref moves.
\<close>

theorem rekey_keeps_values:
  assumes "storage_backend oinv oabst storable (env_objects E)" and "envelopes A Ps" and "ocodec_ok (env_codec E)"
    and "\<forall>data. storable data" and "set (providers old) \<subseteq> Ps" and "new \<in> Ps"
    and "oinv (r_objects R)" and "storage_backend.addressed oabst (env_codec E) (r_objects R)" and "readable (repo_get E R)"
    and "\<forall>(i, dk, nonce, r) \<in> set ids. length dk = 32 \<and> length r = 12 \<and> (\<exists>obj. repo_get E R i = Inr (Some obj))"
    and "collision_free (env_codec E) (ran (oabst (r_objects R))) {obj. \<exists>x \<in> set ids. rekeyed A (repo_get E R) old new x = Inr obj}"
    and "rekey E A R ids old new = Inr (mapping, R')"
  shows "map fst mapping = map fst ids \<and> r_refs R' = r_refs R \<and>
    (\<forall>(i, j) \<in> set mapping. get_secret_resolved A (repo_get E R') j (with_provider new) = get_secret_resolved A (repo_get E R) i old) \<and>
    (\<forall>j obj. repo_get E R j = Inr (Some obj) \<longrightarrow> repo_get E R' j = Inr (Some obj))"
proof -
  obtain X where X: "ran (oabst (r_objects R)) \<subseteq> X" "inj_on (object_id (env_codec E)) X"
    "\<And>obj. obj \<in> {obj. \<exists>x \<in> set ids. rekeyed A (repo_get E R) old new x = Inr obj} \<Longrightarrow> \<exists>data \<in> X. serialize (env_codec E) obj = Inr data"
    using collision_freeD [OF assms(11)] by blast
  have ser: "\<forall>x \<in> set ids. \<forall>obj. rekeyed A (repo_get E R) old new x = Inr obj \<longrightarrow> (\<exists>data \<in> X. serialize (env_codec E) obj = Inr data)"
    using X(3) by blast
  have good: "storage_backend.good oinv oabst (env_objects E) (env_codec E) X (r_objects R)"
    unfolding storage_backend.good_def [OF assms(1)] using assms(7-9) X(1) by simp
  from assms(4) have all: "\<And>data. storable data" by blast
  from rekey_steps [OF assms(1-3) all X(2) assms(5,6) good assms(10) ser assms(12) [unfolded rekey_def]]
  obtain ms where ms: "mapping = [] @ ms" "map fst ms = map fst ids" "r_refs R' = r_refs R"
    "storage_backend.good oinv oabst (env_objects E) (env_codec E) X (r_objects R')" "oabst (r_objects R) \<subseteq>\<^sub>m oabst (r_objects R')"
    "\<forall>(i, j) \<in> set ms. get_secret_resolved A (repo_get E R') j (with_provider new) = get_secret_resolved A (repo_get E R) i old" by blast
  have "repo_get E R' j = Inr (Some obj)" if "repo_get E R j = Inr (Some obj)" for j obj
    by (rule storage_backend.get_mono [OF assms(1) good ms(4,5) that])
  with ms show ?thesis by simp
qed

section \<open>Who sees a secret\<close>

definition secret_matched :: "label_rule_set \<Rightarrow> string \<Rightarrow> bool" where
  "secret_matched rules var \<longleftrightarrow> (\<exists>name l. RuleSecret name l \<in> set rules \<and> glob_matches name var)"

lemma label_for_secret_two_point:
  assumes "acl_rules rules"
  shows "label_for_secret rules two_point var = (if secret_matched rules var then label_protected else label_public)"
proof -
  have "foldl (\<lambda>acc rule. case rule of
         RuleSecret rname label \<Rightarrow> if glob_matches rname var then lat_join two_point acc label else acc
       | _ \<Rightarrow> acc) l rs = (if secret_matched rs var then label_protected else l)"
    if "acl_rules rs" "l \<in> {label_public, label_protected}" for l rs
    using that
  proof (induction rs arbitrary: l)
    case (Cons rule rs)
    have rs: "acl_rules rs" using Cons.prems(1) by (simp add: acl_rules_def)
    show ?case
    proof (cases rule)
      case (RuleSecret name m)
      then have "m = label_protected" using Cons.prems(1) by (simp add: acl_rules_def)
      moreover have "lat_join two_point l label_protected = label_protected" using Cons.prems(2) by (auto simp: two_point_facts)
      ultimately show ?thesis using RuleSecret Cons.IH [OF rs, of l] Cons.IH [OF rs, of label_protected] Cons.prems(2)
        by (auto simp: secret_matched_def)
    qed (use Cons.IH [OF rs, of l] Cons.prems(2) in \<open>auto simp: secret_matched_def\<close>)
  qed (simp add: secret_matched_def)
  from this [OF assms, of label_public] show ?thesis by (simp add: label_for_secret_def two_point_facts(1))
qed

lemma secret_cleared_two_point:
  "acl_rules rules \<Longrightarrow> secret_cleared two_point rules acc var \<longleftrightarrow>
     \<not> secret_matched rules var \<or> can_read acc label_protected (ResSecret var)"
  by (simp add: secret_cleared_def label_for_secret_two_point two_point_facts two_point_facts(8) [symmetric])

text \<open>The text that the keys of a chain give a secret, if any.\<close>

definition secret_text :: "cipher \<Rightarrow> getter \<Rightarrow> provider_chain \<Rightarrow> oid \<Rightarrow> string option" where
  "secret_text A get ch i = (case get_secret_resolved A get i ch of Inr (Some bs) \<Rightarrow> from_utf8 bs | _ \<Rightarrow> None)"

definition seen_value :: "cipher \<Rightarrow> getter \<Rightarrow> provider_chain \<Rightarrow> (string \<Rightarrow> bool) \<Rightarrow> string \<Rightarrow> env_value \<Rightarrow> string option" where
  "seen_value A get ch cleared var val = (case val of
       EnvPlain s \<Rightarrow> Some s | EnvSecret i \<Rightarrow> if cleared var then secret_text A get ch i else None)"

lemma resolve_entry_Inr:
  "resolve_entry A get L rules ch acc skip (var, val) out = Inr out' \<longleftrightarrow>
    (case seen_value A get ch (secret_cleared L rules acc) var val of
       Some s \<Rightarrow> out' = bt_insert var s out
     | None \<Rightarrow> skip \<and> \<not> secret_cleared L rules acc var \<and> out' = out)"
  by (auto simp: resolve_entry_def seen_value_def secret_text_def bind_res_def split: env_value.splits sum.splits option.splits)

lemma resolve_entries_Inr:
  assumes "distinct (map fst es)" and "fold_res (resolve_entry A get L rules ch acc skip) es out = Inr out'"
  shows "bt_get out' var = (case map_of es var of
      None \<Rightarrow> bt_get out var
    | Some val \<Rightarrow> (case seen_value A get ch (secret_cleared L rules acc) var val of Some s \<Rightarrow> Some s | None \<Rightarrow> bt_get out var))"
  using assms
proof (induction es arbitrary: out)
  case (Cons e es)
  obtain v val where e: "e = (v, val)" by (cases e)
  from Cons.prems(2) obtain mid where mid: "resolve_entry A get L rules ch acc skip (v, val) out = Inr mid"
    and rest: "fold_res (resolve_entry A get L rules ch acc skip) es mid = Inr out'" by (auto simp: e bind_res_Inr)
  have new: "map_of es v = None" using Cons.prems(1) by (simp add: e map_of_eq_None_iff)
  have "bt_get mid var = (if var = v then
      (case seen_value A get ch (secret_cleared L rules acc) v val of Some s \<Rightarrow> Some s | None \<Rightarrow> bt_get out var) else bt_get out var)"
    using mid [unfolded resolve_entry_Inr] by (auto split: option.splits)
  with Cons.IH [OF _ rest] Cons.prems(1) new show ?case by (auto simp: e split: option.splits)
qed simp

lemma resolve_entries_total:
  "(\<exists>out'. fold_res (resolve_entry A get L rules ch acc skip) es out = Inr out') \<longleftrightarrow>
    (\<forall>(var, val) \<in> set es. seen_value A get ch (secret_cleared L rules acc) var val \<noteq> None \<or> skip \<and> \<not> secret_cleared L rules acc var)"
proof (induction es arbitrary: out)
  case (Cons e es)
  obtain v val where e: "e = (v, val)" by (cases e)
  show ?case
  proof (cases "seen_value A get ch (secret_cleared L rules acc) v val \<noteq> None \<or> skip \<and> \<not> secret_cleared L rules acc v")
    case True
    then obtain mid where "resolve_entry A get L rules ch acc skip (v, val) out = Inr mid"
      using resolve_entry_Inr [of A get L rules ch acc skip v val out]
      by (cases "seen_value A get ch (secret_cleared L rules acc) v val") auto
    then show ?thesis using Cons.IH [of mid] True by (simp add: e)
  next
    case False
    then have "\<nexists>mid. resolve_entry A get L rules ch acc skip (v, val) out = Inr mid"
      using resolve_entry_Inr [of A get L rules ch acc skip v val out] by auto
    then show ?thesis using False by (auto simp: e bind_res_Inr)
  qed
qed simp

text \<open>
  C14. An overlay resolves exactly to what the accessor may see. A variable with a secret is readable when no
  secret rule matches its name or the accessor may read protected secrets of that name. The resolution
  succeeds just when every readable secret can be decrypted to text and, unless the caller asks to skip them,
  no unreadable secret is referenced; the environment then holds each plain variable with its value, each
  readable secret with its text, and nothing else.
\<close>

theorem resolve_overlay_exact:
  assumes "repo_get E R oid = Inr (Some (OEnvOverlay overlay))" and "bt_wf (env_entries overlay)" and "repo_rules E R = Inr rules"
  shows "((\<exists>out. resolve_overlay E A R oid ch acc skip = Inr out) \<longleftrightarrow>
      (\<forall>var i. bt_get (env_entries overlay) var = Some (EnvSecret i) \<longrightarrow>
        (if secret_matched rules var \<and> \<not> can_read acc label_protected (ResSecret var) then skip
         else secret_text A (repo_get E R) ch i \<noteq> None))) \<and>
    (\<forall>out. resolve_overlay E A R oid ch acc skip = Inr out \<longrightarrow> (\<forall>var. bt_get out var =
      (case bt_get (env_entries overlay) var of
         None \<Rightarrow> None
       | Some (EnvPlain s) \<Rightarrow> Some s
       | Some (EnvSecret i) \<Rightarrow>
           if secret_matched rules var \<and> \<not> can_read acc label_protected (ResSecret var) then None
           else secret_text A (repo_get E R) ch i)))"
proof -
  have acl: "acl_rules rules" by (rule repo_rules_acl [OF assms(3)])
  let ?cleared = "secret_cleared two_point rules acc"
  have cleared: "?cleared var \<longleftrightarrow> \<not> (secret_matched rules var \<and> \<not> can_read acc label_protected (ResSecret var))" for var
    using secret_cleared_two_point [OF acl] by simp
  have run: "resolve_overlay E A R oid ch acc skip =
      fold_res (resolve_entry A (repo_get E R) two_point rules ch acc skip) (env_entries overlay) []"
    using assms(1,3) by (simp add: resolve_overlay_def get_overlay_def get_lattice_def)
  have dist: "distinct (map fst (env_entries overlay))" using assms(2) by (simp add: bt_wf_distinct)
  have ok: "seen_value A (repo_get E R) ch ?cleared var val \<noteq> None \<or> skip \<and> \<not> ?cleared var \<longleftrightarrow>
      (\<forall>i. val = EnvSecret i \<longrightarrow> (if secret_matched rules var \<and> \<not> can_read acc label_protected (ResSecret var) then skip
         else secret_text A (repo_get E R) ch i \<noteq> None))" for var val
    by (cases val) (auto simp: seen_value_def cleared)
  have "(\<exists>out. resolve_overlay E A R oid ch acc skip = Inr out) \<longleftrightarrow>
      (\<forall>(var, val) \<in> set (env_entries overlay). seen_value A (repo_get E R) ch ?cleared var val \<noteq> None \<or> skip \<and> \<not> ?cleared var)"
    unfolding run by (rule resolve_entries_total)
  also have "\<dots> \<longleftrightarrow> (\<forall>var i. bt_get (env_entries overlay) var = Some (EnvSecret i) \<longrightarrow>
        (if secret_matched rules var \<and> \<not> can_read acc label_protected (ResSecret var) then skip
         else secret_text A (repo_get E R) ch i \<noteq> None))"
    unfolding ok using dist by (force simp: map_of_eq_Some_iff)
  finally have total: "(\<exists>out. resolve_overlay E A R oid ch acc skip = Inr out) \<longleftrightarrow> \<dots>" .
  have "bt_get out var = (case bt_get (env_entries overlay) var of None \<Rightarrow> None | Some (EnvPlain s) \<Rightarrow> Some s
       | Some (EnvSecret i) \<Rightarrow> if secret_matched rules var \<and> \<not> can_read acc label_protected (ResSecret var) then None
           else secret_text A (repo_get E R) ch i)"
    if "resolve_overlay E A R oid ch acc skip = Inr out" for out var
    using resolve_entries_Inr [OF dist that [unfolded run], of var]
    by (auto simp: seen_value_def cleared split: option.splits env_value.splits)
  with total show ?thesis by blast
qed

text \<open>
  A secret that the accessor is not cleared for has no influence on what the accessor gets: two repositories
  with the same overlay and the same rules, and with the same object behind each readable secret, give the
  same result, error or environment, whatever the other secrets hold.
\<close>

lemma uncleared_secrets_irrelevant:
  assumes "repo_get E R oid = Inr (Some (OEnvOverlay overlay))" and "repo_get E R' oid = Inr (Some (OEnvOverlay overlay))"
    and "repo_rules E R = Inr rules" and "repo_rules E R' = Inr rules"
    and "\<forall>(var, val) \<in> set (env_entries overlay). \<forall>i. val = EnvSecret i \<longrightarrow>
      secret_cleared two_point rules acc var \<longrightarrow> repo_get E R i = repo_get E R' i"
  shows "resolve_overlay E A R oid ch acc skip = resolve_overlay E A R' oid ch acc skip"
proof -
  have entry: "resolve_entry A (repo_get E R) two_point rules ch acc skip e = resolve_entry A (repo_get E R') two_point rules ch acc skip e"
    if e: "e \<in> set (env_entries overlay)" for e
  proof (cases e)
    case (Pair var val)
    have "get_secret_resolved A (repo_get E R) i ch = get_secret_resolved A (repo_get E R') i ch"
      if "val = EnvSecret i" "secret_cleared two_point rules acc var" for i
      by (rule resolved_cong) (use assms(5) e Pair that in blast)
    then show ?thesis by (auto simp: Pair resolve_entry_def fun_eq_iff split: env_value.split)
  qed
  have "fold_res (resolve_entry A (repo_get E R) two_point rules ch acc skip) es out =
      fold_res (resolve_entry A (repo_get E R') two_point rules ch acc skip) es out" if "set es \<subseteq> set (env_entries overlay)" for es out
    using that entry by (intro fold_res_cong refl) auto
  then show ?thesis using assms(1-4) by (simp add: resolve_overlay_def get_overlay_def get_lattice_def)
qed

text \<open>A workspace view, by contrast, does not ask: whoever gets one gets the same environment.\<close>

lemma view_env_ignores_accessor:
  assumes "compute_workspace_view E A R sid oid key acc = Inr (Some v)" and "compute_workspace_view E A R sid oid key acc' = Inr (Some v')"
  shows "wv_env v = wv_env v'"
  using assms by (auto simp: compute_workspace_view_def bind_res_Inr split: option.splits)

section \<open>The providers of the program\<close>

definition local_providers :: "cipher \<Rightarrow> key_provider set" where
  "local_providers A = {local_provider A blake3 mk p |blake3 mk p. True} \<union> {kms_provider (local_kms_client A blake3 key) |blake3 key. True}"

text \<open>Both kinds of provider store the nonce before the sealed data key.\<close>

lemma local_provider_wrap:
  assumes "P \<in> local_providers A"
  obtains key where
    "\<And>r dk aad w. wrap_dk P r dk aad = Inr w \<longleftrightarrow>
      length key = 32 \<and> (\<exists>ct. ae_seal A key r aad dk = Some ct \<and> w = \<lparr>key_ref = active_key_ref P, wk_bytes = r @ ct\<rparr>)"
    and "\<And>w aad dk. unwrap_dk P w aad = Inr dk \<longleftrightarrow> 12 \<le> length (wk_bytes w) \<and> length key = 32 \<and> length dk = 32 \<and>
      ae_open A key (take 12 (wk_bytes w)) aad (drop 12 (wk_bytes w)) = Some dk"
proof -
  from assms consider blake3 mk p where "P = local_provider A blake3 mk p"
    | blake3 key where "P = kms_provider (local_kms_client A blake3 key)"
    by (auto simp: local_providers_def)
  then show thesis
  proof cases
    case (1 blake3 mk p)
    show thesis
      by (rule that [of mk])
        (auto simp: 1 local_provider_def Let_def local_wrap_def local_unwrap_def new_cipher_def try_key_def split: option.splits if_splits)
  next
    case (2 blake3 key)
    show thesis
      by (rule that [of key])
        (auto simp: 2 kms_provider_def local_kms_client_def new_cipher_def try_key_def split: option.splits if_splits)
  qed
qed

context aead_cipher
begin

lemma local_wrap_unwrap:
  assumes "P \<in> local_providers A" and "Q \<in> local_providers A" and "length r = 12" and "length dk = 32" and "wrap_dk P r dk aad = Inr w"
  shows "unwrap_dk P w aad = Inr dk" and "unwrap_dk Q w aad = Inr dk' \<Longrightarrow> dk' = dk"
proof -
  obtain key where P: "\<And>r dk aad w. wrap_dk P r dk aad = Inr w \<longleftrightarrow>
      length key = 32 \<and> (\<exists>ct. ae_seal A key r aad dk = Some ct \<and> w = \<lparr>key_ref = active_key_ref P, wk_bytes = r @ ct\<rparr>)"
    "\<And>w aad dk. unwrap_dk P w aad = Inr dk \<longleftrightarrow> 12 \<le> length (wk_bytes w) \<and> length key = 32 \<and> length dk = 32 \<and>
      ae_open A key (take 12 (wk_bytes w)) aad (drop 12 (wk_bytes w)) = Some dk"
    using local_provider_wrap [OF assms(1)] by blast
  obtain key' where Q: "\<And>w aad dk. unwrap_dk Q w aad = Inr dk \<longleftrightarrow> 12 \<le> length (wk_bytes w) \<and> length key' = 32 \<and> length dk = 32 \<and>
      ae_open A key' (take 12 (wk_bytes w)) aad (drop 12 (wk_bytes w)) = Some dk"
    using local_provider_wrap [OF assms(2)] by metis
  from assms(5) obtain ct where ct: "length key = 32" "ae_seal A key r aad dk = Some ct" "wk_bytes w = r @ ct" by (auto simp: P(1))
  show "unwrap_dk P w aad = Inr dk" using ct assms(3,4) open_seal [OF ct(2)] by (simp add: P(2))
  show "dk' = dk" if "unwrap_dk Q w aad = Inr dk'" using that ct(3) assms(3) open_other [OF ct(2)] by (auto simp: Q)
qed

end

sublocale aead_cipher \<subseteq> local: envelopes A "local_providers A"
proof unfold_locales
  show "unwrap_dk P w aad = Inr dk" if "P \<in> local_providers A" "length r = 12" "length dk = 32" "wrap_dk P r dk aad = Inr w"
    for P r dk aad w by (rule local_wrap_unwrap(1) [OF that(1,1) that(2-)])
  show "key_ref w = active_key_ref P" if "P \<in> local_providers A" "wrap_dk P r dk aad = Inr w" for P r dk aad w
    using that by (metis local_provider_wrap wrapped_key.select_convs(1))
  show "length dk = 32" if "P \<in> local_providers A" "unwrap_dk P w aad = Inr dk" for P w aad dk
    using that by (metis local_provider_wrap)
qed (rule local_wrap_unwrap(2))

section \<open>An instance\<close>

text \<open>A cipher in the clear that carries its key, nonce and data as a tag; keys have 32 bytes.\<close>

definition tagged_cipher :: cipher where
  "tagged_cipher = \<lparr>
     ae_seal = (\<lambda>key nonce aad m. if length key = 32 then Some (key @ nonce @ aad @ m) else None),
     ae_open = (\<lambda>key nonce aad ct.
       if length key = 32 \<and> take (length (key @ nonce @ aad)) ct = key @ nonce @ aad
       then Some (drop (length (key @ nonce @ aad)) ct) else None),
     aad_enc = (\<lambda>aad. Inr [aad_version aad])\<rparr>"

interpretation tagged: aead_cipher tagged_cipher
  by unfold_locales (auto simp: tagged_cipher_def split: if_splits)

abbreviation alice_key :: key_provider where
  "alice_key \<equiv> local_provider tagged_cipher (\<lambda>_. 1) (replicate 32 1) ''alice''"

abbreviation bob_key :: key_provider where
  "bob_key \<equiv> local_provider tagged_cipher (\<lambda>_. 2) (replicate 32 2) ''bob''"

abbreviation coin :: bytes where
  "coin \<equiv> replicate 12 5"

abbreviation data_key :: bytes where
  "data_key \<equiv> replicate 32 9"

lemma local_members: "alice_key \<in> local_providers tagged_cipher" "bob_key \<in> local_providers tagged_cipher"
  by (auto simp: local_providers_def)

definition demo_shared :: multi_secret where
  "demo_shared = projr (encrypt_for tagged_cipher [72, 105] [alice_key, bob_key] (v2 None) data_key coin [coin, coin])"

lemma demo_shared: "encrypt_for tagged_cipher [72, 105] [alice_key, bob_key] (v2 None) data_key coin [coin, coin] = Inr demo_shared"
  by code_simp

definition demo_revoked :: multi_secret where
  "demo_revoked = snd (projr (ms_revoke demo_shared (active_key_ref bob_key)))"

lemma demo_revoked: "ms_revoke demo_shared (active_key_ref bob_key) = Inr (True, demo_revoked)"
  by code_simp

theorem shared_secret_invariant_witness:
  "ms_decrypt tagged_cipher demo_revoked (with_provider alice_key) = Inr [72, 105] \<and>
   ms_decrypt tagged_cipher demo_revoked (with_provider bob_key) = Inl DecryptionFailed"
proof -
  have step: "(sharing tagged_cipher (local_providers tagged_cipher))\<^sup>*\<^sup>* demo_shared demo_revoked"
    by (rule r_into_rtranclp, rule share_revoke, rule demo_revoked)
  have sub: "set [alice_key, bob_key] \<subseteq> local_providers tagged_cipher" using local_members by simp
  have "\<forall>r \<in> set [coin, coin]. length r = 12" "length data_key = 32" "length [coin, coin] = length [alice_key, bob_key]" by simp_all
  from shared_secret_invariant [OF tagged.local.envelopes_axioms demo_shared sub this(2,3,1) step] obtain ab where
    ab: "aad_to_bytes tagged_cipher (v2 None) = Inr ab" and dec: "\<And>ch. set (providers ch) \<subseteq> local_providers tagged_cipher \<Longrightarrow>
      ms_decrypt tagged_cipher demo_revoked ch = (if opens ch ab (ms_recipients demo_revoked) then Inr [72, 105] else Inl DecryptionFailed)"
    by blast
  have "ab = [2]" using ab by (simp add: aad_to_bytes_def tagged_cipher_def v2_def map_codec_def)
  moreover have "opens (with_provider alice_key) [2] (ms_recipients demo_revoked)" "\<not> opens (with_provider bob_key) [2] (ms_recipients demo_revoked)"
    by code_simp+
  ultimately show ?thesis using dec [of "with_provider alice_key"] dec [of "with_provider bob_key"] local_members
    by (simp add: with_provider_def)
qed

definition alice_envelope :: secret_v2 where
  "alice_envelope = \<lparr>
     v2_wrapped_dk = \<lparr>key_ref = ''alice:0000000000000000'', wk_bytes = coin @ replicate 32 1 @ coin @ [2] @ data_key\<rparr>,
     v2_nonce = coin, v2_ciphertext = data_key @ coin @ [2] @ [72, 105], v2_aad = v2 None\<rparr>"

definition bob_envelope :: secret_v2 where
  "bob_envelope = alice_envelope\<lparr>
     v2_wrapped_dk := \<lparr>key_ref = ''bob:0000000000000000'', wk_bytes = coin @ replicate 32 2 @ coin @ [2] @ data_key\<rparr>\<rparr>"

lemma alice_rotates: "rewrap tagged_cipher alice_envelope (with_provider alice_key) bob_key coin = Inr bob_envelope"
  by code_simp

definition vault_objects :: "object list" where
  "vault_objects = [OSecretV2 alice_envelope, OSecretV2 bob_envelope,
     OEnvOverlay \<lparr>env_entries = [(''DB_URL'', EnvSecret 0), (''MODE'', EnvPlain ''dev'')]\<rparr>]"

abbreviation vault_env :: "(mem_store, mem_refs, mem_acl) repo_env" where
  "vault_env \<equiv> memory_env (table_codec vault_objects) plain_scheme"

definition vault :: "(mem_store, mem_refs, mem_acl) repository" where
  "vault = memory_repo\<lparr>r_objects := [(0, [0]), (2, [2])],
     r_acls := mem_acl_new\<lparr>secret_acls := [(''DB_*'', \<lparr>sa_name = ''DB_*''\<rparr>)]\<rparr>\<rparr>"

lemma vault_get:
  "repo_get vault_env vault 0 = Inr (Some (OSecretV2 alice_envelope))"
  "repo_get vault_env vault 2 = Inr (Some (OEnvOverlay \<lparr>env_entries = [(''DB_URL'', EnvSecret 0), (''MODE'', EnvPlain ''dev'')]\<rparr>))"
  by (simp_all add: vault_def ost_get_def memory_backend_def mem_get_def deserialize_def map_codec_def table_codec_def vault_objects_def)

lemma vault_put: "repo_put vault_env vault (OSecretV2 bob_envelope) = Inr (1, vault\<lparr>r_objects := [(0, [0]), (2, [2]), (1, [1])]\<rparr>)"
proof -
  have "alice_envelope \<noteq> bob_envelope" by (simp add: bob_envelope_def alice_envelope_def)
  then have "serialize (table_codec vault_objects) (OSecretV2 bob_envelope) = Inr [1]"
    by (simp add: serialize_def map_codec_def table_codec_def vault_objects_def)
  moreover have "object_id (table_codec vault_objects) [1] = 1" by (simp add: object_id_def from_content_def table_codec_def from_be_def)
  ultimately show ?thesis
    by (simp add: repo_put_def ost_put_def vault_def memory_backend_def mem_exists_def mem_put_def Let_def)
qed

lemma vault_rekeyed: "rekeyed tagged_cipher (repo_get vault_env vault) (with_provider alice_key) bob_key (0, data_key, coin, coin) = Inr (OSecretV2 bob_envelope)"
  by (simp add: rekeyed_def vault_get alice_rotates del: memory_env_simps)

lemma vault_rekeys: "rekey vault_env tagged_cipher vault [(0, data_key, coin, coin)] (with_provider alice_key) bob_key =
    Inr ([(0, 1)], vault\<lparr>r_objects := [(0, [0]), (2, [2]), (1, [1])]\<rparr>)"
  by (simp add: rekey_def rekey_one_rekeyed vault_rekeyed vault_put del: memory_env_simps)

theorem rekey_keeps_values_witness:
  "get_secret_resolved tagged_cipher (repo_get vault_env (vault\<lparr>r_objects := [(0, [0]), (2, [2]), (1, [1])]\<rparr>)) 1 (with_provider bob_key) =
     get_secret_resolved tagged_cipher (repo_get vault_env vault) 0 (with_provider alice_key)"
proof -
  have store: "storage_backend mem_inv map_of (\<lambda>_. True) (env_objects vault_env)" using memst.storage_backend_axioms by simp
  have codec: "ocodec_ok (env_codec vault_env)" by (simp add: table_codec_ok)
  have chain: "set (providers (with_provider alice_key)) \<subseteq> local_providers tagged_cipher"
    using local_members by (simp add: with_provider_def)
  have inv: "mem_inv (r_objects vault)" by (simp add: mem_inv_def vault_def)
  have addr: "memst.addressed (env_codec vault_env) (r_objects vault)"
    by (auto simp: memst.addressed_def vault_def object_id_def from_content_def table_codec_def from_be_def split: if_splits)
  have readable: "readable (repo_get vault_env vault)"
    unfolding memory_env_simps
    by (rule readable_memory) (simp add: vault_def deserialize_def map_codec_def table_codec_def vault_objects_def)
  have ids: "\<forall>(i, dk, nonce, r) \<in> set [(0, data_key, coin, coin)]. length dk = 32 \<and> length r = 12 \<and> (\<exists>obj. repo_get vault_env vault i = Inr (Some obj))"
    by (simp add: vault_get del: memory_env_simps)
  have free: "collision_free (env_codec vault_env) (ran (map_of (r_objects vault)))
      {obj. \<exists>x \<in> set [(0, data_key, coin, coin)]. rekeyed tagged_cipher (repo_get vault_env vault) (with_provider alice_key) bob_key x = Inr obj}"
  proof -
    let ?X = "{obj. \<exists>x \<in> set [(0, data_key, coin, coin)]. rekeyed tagged_cipher (repo_get vault_env vault) (with_provider alice_key) bob_key x = Inr obj}"
    have "ran (map_of (r_objects vault)) \<subseteq> range (\<lambda>b. [b])" by (auto simp: vault_def ran_def split: if_splits)
    moreover have "?X \<subseteq> set vault_objects" using vault_rekeyed by (auto simp: vault_objects_def simp del: memory_env_simps)
    moreover have "length vault_objects \<le> 256" by (simp add: vault_objects_def)
    ultimately have "collision_free (table_codec vault_objects) (ran (map_of (r_objects vault))) ?X" by (intro table_collision_free)
    then show ?thesis unfolding memory_env_simps .
  qed
  show ?thesis
    using rekey_keeps_values [where oabst = map_of, OF store tagged.local.envelopes_axioms codec _ chain local_members(2) inv addr readable ids free vault_rekeys]
    by (simp del: memory_env_simps)
qed

lemma vault_rules: "repo_rules vault_env vault = Inr [RuleSecret ''DB_*'' label_protected]"
  unfolding memory_env_simps by code_simp

lemma vault_matched: "secret_matched [RuleSecret ''DB_*'' label_protected] ''DB_URL''"
proof -
  have "glob_matches ''DB_*'' ''DB_URL''" by code_simp
  then show ?thesis by (auto simp: secret_matched_def)
qed

lemma vault_denies: "\<not> can_read accessor_new label_protected (ResSecret ''DB_URL'')"
  by code_simp

theorem resolve_overlay_exact_witness:
  "(\<nexists>out. resolve_overlay vault_env tagged_cipher vault 2 (with_provider alice_key) accessor_new False = Inr out) \<and>
   (\<exists>out. resolve_overlay vault_env tagged_cipher vault 2 (with_provider alice_key) accessor_new True = Inr out \<and>
     bt_get out ''DB_URL'' = None \<and> bt_get out ''MODE'' = Some ''dev'')"
proof -
  have wf: "bt_wf (env_entries \<lparr>env_entries = [(''DB_URL'', EnvSecret 0), (''MODE'', EnvPlain ''dev'')]\<rparr>)" by code_simp
  note exact = resolve_overlay_exact [OF vault_get(2) wf vault_rules, where A = tagged_cipher and ch = "with_provider alice_key" and acc = accessor_new]
  have "\<nexists>out. resolve_overlay vault_env tagged_cipher vault 2 (with_provider alice_key) accessor_new False = Inr out"
    unfolding exact [of False, THEN conjunct1]
    by (intro notI, drule spec [of _ "''DB_URL''"], drule spec [of _ 0]) (simp add: vault_matched vault_denies)
  moreover obtain out where out: "resolve_overlay vault_env tagged_cipher vault 2 (with_provider alice_key) accessor_new True = Inr out"
  proof -
    have "\<exists>out. resolve_overlay vault_env tagged_cipher vault 2 (with_provider alice_key) accessor_new True = Inr out"
      unfolding exact [of True, THEN conjunct1] using vault_matched vault_denies by simp
    then show thesis using that by blast
  qed
  moreover have "bt_get out ''DB_URL'' = None \<and> bt_get out ''MODE'' = Some ''dev''"
    using exact [of True, THEN conjunct2, rule_format, OF out] vault_matched vault_denies by (simp del: memory_env_simps)
  ultimately show ?thesis by blast
qed

end
