(* ===== verification/Signatures.thy ===== *)
theory Signatures
  imports Policy
begin

text \<open>
  What is signed under the Ed25519 keys of bole, and how signatures are checked: the records of
  \<^verbatim>\<open>src/collab/object.rs\<close>, \<^verbatim>\<open>src/pr.rs\<close>, \<^verbatim>\<open>src/board.rs\<close> and \<^verbatim>\<open>src/reporecord.rs\<close>, the relay and hub
  challenges, and the signed ref updates of \<^verbatim>\<open>src/sync/authn.rs\<close>. Each scheme puts a tag of its own in
  front of the message. The \<^verbatim>\<open>postcard\<close> encoders of the unsigned fields are parameters, like Ed25519.
\<close>

section \<open>Keys\<close>

definition fingerprint :: "ocodec \<Rightarrow> key \<Rightarrow> string" where
  "fingerprint C k = oid_display (oc_hash C k)"

definition key_hex :: "key \<Rightarrow> string" where
  "key_hex k = concat (map hex_byte k)"

record relay_pin =
  rp_key :: key
  rp_endpoint :: string

section \<open>Unsigned fields\<close>

record profile_msg =
  pm_key :: key
  pm_display_name :: string
  pm_bio :: string
  pm_endpoints :: "string list"
  pm_dns_aliases :: "string list"
  pm_seq :: u64

record edge_msg =
  em_from_key :: key
  em_to_key :: key
  em_kind :: trust_kind
  em_petname :: "string option"
  em_seq :: u64

record proposal_msg =
  prm_author :: key
  prm_source :: string
  prm_target :: string
  prm_title :: string
  prm_created_at :: u64

record comment_msg =
  cm_author :: key
  cm_proposal :: oid
  cm_body :: string
  cm_resolves :: bool
  cm_created_at :: u64

record post_msg =
  pom_author :: key
  pom_board :: string
  pom_body :: string
  pom_parent :: "oid option"
  pom_created_at :: u64

record repo_msg =
  rm_owner :: key
  rm_name :: string
  rm_description :: string
  rm_seq :: u64

text \<open>\<^verbatim>\<open>postcard::to_allocvec\<close> at these types, and the codec of relay pins.\<close>

record msg_codec =
  mc_profile :: "profile_msg \<Rightarrow> bytes"
  mc_edge :: "edge_msg \<Rightarrow> bytes"
  mc_proposal :: "proposal_msg \<Rightarrow> bytes"
  mc_comment :: "comment_msg \<Rightarrow> bytes"
  mc_post :: "post_msg \<Rightarrow> bytes"
  mc_repo :: "repo_msg \<Rightarrow> bytes"
  mc_pin :: "relay_pin \<Rightarrow> bytes"
  mc_unpin :: "bytes \<Rightarrow> relay_pin option"

text \<open>Its documented behaviour: an encoding determines the value.\<close>

definition msg_codec_ok :: "msg_codec \<Rightarrow> bool" where
  "msg_codec_ok M \<longleftrightarrow> inj (mc_profile M) \<and> inj (mc_edge M) \<and> inj (mc_proposal M) \<and> inj (mc_comment M) \<and>
     inj (mc_post M) \<and> inj (mc_repo M) \<and> (\<forall>pin. mc_unpin M (mc_pin M pin) = Some pin)"

section \<open>Messages\<close>

definition COLLAB_PROFILE_DOMAIN :: bytes where
  "COLLAB_PROFILE_DOMAIN = str_bytes ''bole-collab-profile-v1'' @ [0]"

definition COLLAB_EDGE_DOMAIN :: bytes where
  "COLLAB_EDGE_DOMAIN = str_bytes ''bole-collab-edge-v1'' @ [0]"

definition COLLAB_RELAY_AUTH_DOMAIN :: bytes where
  "COLLAB_RELAY_AUTH_DOMAIN = str_bytes ''bole-relay-auth-v1''"

definition PROPOSAL_DOMAIN :: bytes where
  "PROPOSAL_DOMAIN = str_bytes ''bole-change-proposal-v1'' @ [0]"

definition REVIEW_COMMENT_DOMAIN :: bytes where
  "REVIEW_COMMENT_DOMAIN = str_bytes ''bole-review-comment-v1'' @ [0]"

definition BOARD_POST_DOMAIN :: bytes where
  "BOARD_POST_DOMAIN = str_bytes ''bole-board-post-v1'' @ [0]"

definition REPO_RECORD_DOMAIN :: bytes where
  "REPO_RECORD_DOMAIN = str_bytes ''bole-repo-record-v1'' @ [0]"

definition REF_OP_DOMAIN :: bytes where
  "REF_OP_DOMAIN = str_bytes ''bole-ref-op-v1'' @ [0]"

definition HUB_PUSH_DOMAIN :: bytes where
  "HUB_PUSH_DOMAIN = str_bytes ''bole-hub-push-v1'' @ [0]"

definition profile_message :: "msg_codec \<Rightarrow> profile \<Rightarrow> bytes" where
  "profile_message M p = COLLAB_PROFILE_DOMAIN @ mc_profile M
     \<lparr>pm_key = pf_key p, pm_display_name = pf_display_name p, pm_bio = pf_bio p, pm_endpoints = pf_endpoints p,
      pm_dns_aliases = pf_dns_aliases p, pm_seq = pf_seq p\<rparr>"

definition edge_message :: "msg_codec \<Rightarrow> trust_edge \<Rightarrow> bytes" where
  "edge_message M e = COLLAB_EDGE_DOMAIN @ mc_edge M
     \<lparr>em_from_key = ed_from_key e, em_to_key = ed_to_key e, em_kind = ed_kind e, em_petname = ed_petname e, em_seq = ed_seq e\<rparr>"

definition relay_challenge_message :: "bytes \<Rightarrow> bytes" where
  "relay_challenge_message nonce = COLLAB_RELAY_AUTH_DOMAIN @ nonce"

definition proposal_message :: "msg_codec \<Rightarrow> change_proposal \<Rightarrow> bytes" where
  "proposal_message M p = PROPOSAL_DOMAIN @ mc_proposal M
     \<lparr>prm_author = cp_author p, prm_source = cp_source p, prm_target = cp_target p, prm_title = cp_title p,
      prm_created_at = cp_created_at p\<rparr>"

definition comment_message :: "msg_codec \<Rightarrow> review_comment \<Rightarrow> bytes" where
  "comment_message M c = REVIEW_COMMENT_DOMAIN @ mc_comment M
     \<lparr>cm_author = rc_author c, cm_proposal = rc_proposal c, cm_body = rc_body c, cm_resolves = rc_resolves c,
      cm_created_at = rc_created_at c\<rparr>"

definition post_message :: "msg_codec \<Rightarrow> post \<Rightarrow> bytes" where
  "post_message M p = BOARD_POST_DOMAIN @ mc_post M
     \<lparr>pom_author = po_author p, pom_board = po_board p, pom_body = po_body p, pom_parent = po_parent p,
      pom_created_at = po_created_at p\<rparr>"

definition repo_message :: "msg_codec \<Rightarrow> repo_record \<Rightarrow> bytes" where
  "repo_message M r = REPO_RECORD_DOMAIN @ mc_repo M
     \<lparr>rm_owner = rr_owner r, rm_name = rr_name r, rm_description = rr_description r, rm_seq = rr_seq r\<rparr>"

definition ref_op_message :: "ref_name \<Rightarrow> oid option \<Rightarrow> oid \<Rightarrow> bytes" where
  "ref_op_message name expected_old new_head =
     REF_OP_DOMAIN @ str_bytes name @ [0] @ (case expected_old of Some old \<Rightarrow> as_bytes old | None \<Rightarrow> []) @ [0] @ as_bytes new_head"

definition challenge_message :: "bytes \<Rightarrow> bytes" where
  "challenge_message nonce = HUB_PUSH_DOMAIN @ nonce"

section \<open>Signing\<close>

text \<open>A signer is the seed of its key pair.\<close>

definition sign_profile :: "ed25519 \<Rightarrow> msg_codec \<Rightarrow> bytes \<Rightarrow> string \<Rightarrow> string \<Rightarrow> string list \<Rightarrow> string list \<Rightarrow> u64 \<Rightarrow> profile" where
  "sign_profile ed M seed display_name bio endpoints dns_aliases seq =
     (let p = \<lparr>pf_key = ed_public ed seed, pf_display_name = display_name, pf_bio = bio, pf_endpoints = endpoints,
               pf_dns_aliases = dns_aliases, pf_seq = seq, pf_sig = []\<rparr> in
      p\<lparr>pf_sig := ed_sign ed seed (profile_message M p)\<rparr>)"

definition sign_edge :: "ed25519 \<Rightarrow> msg_codec \<Rightarrow> bytes \<Rightarrow> key \<Rightarrow> trust_kind \<Rightarrow> string option \<Rightarrow> u64 \<Rightarrow> trust_edge" where
  "sign_edge ed M seed to_key kind petname seq =
     (let e = \<lparr>ed_from_key = ed_public ed seed, ed_to_key = to_key, ed_kind = kind, ed_petname = petname,
               ed_seq = seq, ed_sig = []\<rparr> in
      e\<lparr>ed_sig := ed_sign ed seed (edge_message M e)\<rparr>)"

definition sign_relay_challenge :: "ed25519 \<Rightarrow> bytes \<Rightarrow> bytes \<Rightarrow> bytes" where
  "sign_relay_challenge ed seed nonce = ed_sign ed seed (relay_challenge_message nonce)"

definition sign_proposal :: "ed25519 \<Rightarrow> msg_codec \<Rightarrow> bytes \<Rightarrow> string \<Rightarrow> string \<Rightarrow> string \<Rightarrow> u64 \<Rightarrow> change_proposal" where
  "sign_proposal ed M seed source target title created =
     (let p = \<lparr>cp_author = ed_public ed seed, cp_source = source, cp_target = target, cp_title = title,
               cp_created_at = created, cp_sig = []\<rparr> in
      p\<lparr>cp_sig := ed_sign ed seed (proposal_message M p)\<rparr>)"

definition sign_comment :: "ed25519 \<Rightarrow> msg_codec \<Rightarrow> bytes \<Rightarrow> oid \<Rightarrow> string \<Rightarrow> bool \<Rightarrow> u64 \<Rightarrow> review_comment" where
  "sign_comment ed M seed proposal body resolves created =
     (let c = \<lparr>rc_author = ed_public ed seed, rc_proposal = proposal, rc_body = body, rc_resolves = resolves,
               rc_created_at = created, rc_sig = []\<rparr> in
      c\<lparr>rc_sig := ed_sign ed seed (comment_message M c)\<rparr>)"

definition sign_post :: "ed25519 \<Rightarrow> msg_codec \<Rightarrow> bytes \<Rightarrow> string \<Rightarrow> string \<Rightarrow> oid option \<Rightarrow> u64 \<Rightarrow> post" where
  "sign_post ed M seed board body reply created =
     (let p = \<lparr>po_author = ed_public ed seed, po_board = board, po_body = body, po_parent = reply,
               po_created_at = created, po_sig = []\<rparr> in
      p\<lparr>po_sig := ed_sign ed seed (post_message M p)\<rparr>)"

definition sign_repo :: "ed25519 \<Rightarrow> msg_codec \<Rightarrow> bytes \<Rightarrow> string \<Rightarrow> string \<Rightarrow> u64 \<Rightarrow> repo_record" where
  "sign_repo ed M seed name description seq =
     (let r = \<lparr>rr_owner = ed_public ed seed, rr_name = name, rr_description = description, rr_seq = seq, rr_sig = []\<rparr> in
      r\<lparr>rr_sig := ed_sign ed seed (repo_message M r)\<rparr>)"

definition sign_ref_op :: "ed25519 \<Rightarrow> bytes \<Rightarrow> ref_name \<Rightarrow> oid option \<Rightarrow> oid \<Rightarrow> bytes" where
  "sign_ref_op ed seed name expected_old new_head = ed_sign ed seed (ref_op_message name expected_old new_head)"

section \<open>Checking\<close>

text \<open>
  Every check refuses a malformed key, then a signature that is not 64 bytes long, and only then asks
  Ed25519. The relay check takes a signature of the right length.
\<close>

definition checks :: "ed25519 \<Rightarrow> key \<Rightarrow> bytes \<Rightarrow> bytes \<Rightarrow> bool" where
  "checks ed k m sig = (if \<not> ed_key_valid ed k then False else if length sig \<noteq> 64 then False else ed_verify ed k m sig)"

definition verify_profile :: "ed25519 \<Rightarrow> msg_codec \<Rightarrow> profile \<Rightarrow> bool" where
  "verify_profile ed M p = checks ed (pf_key p) (profile_message M p) (pf_sig p)"

definition verify_edge :: "ed25519 \<Rightarrow> msg_codec \<Rightarrow> trust_edge \<Rightarrow> bool" where
  "verify_edge ed M e = checks ed (ed_from_key e) (edge_message M e) (ed_sig e)"

definition verify_relay_challenge :: "ed25519 \<Rightarrow> key \<Rightarrow> bytes \<Rightarrow> bytes \<Rightarrow> bool" where
  "verify_relay_challenge ed k nonce sig =
     (if \<not> ed_key_valid ed k then False else ed_verify ed k (relay_challenge_message nonce) sig)"

definition verify_proposal :: "ed25519 \<Rightarrow> msg_codec \<Rightarrow> change_proposal \<Rightarrow> bool" where
  "verify_proposal ed M p = checks ed (cp_author p) (proposal_message M p) (cp_sig p)"

definition verify_comment :: "ed25519 \<Rightarrow> msg_codec \<Rightarrow> review_comment \<Rightarrow> bool" where
  "verify_comment ed M c = checks ed (rc_author c) (comment_message M c) (rc_sig c)"

definition verify_post :: "ed25519 \<Rightarrow> msg_codec \<Rightarrow> post \<Rightarrow> bool" where
  "verify_post ed M p = checks ed (po_author p) (post_message M p) (po_sig p)"

definition verify_repo :: "ed25519 \<Rightarrow> msg_codec \<Rightarrow> repo_record \<Rightarrow> bool" where
  "verify_repo ed M r = checks ed (rr_owner r) (repo_message M r) (rr_sig r)"

definition verify_ref_op :: "ed25519 \<Rightarrow> ref_name \<Rightarrow> oid option \<Rightarrow> oid \<Rightarrow> bytes \<Rightarrow> key \<Rightarrow> bool" where
  "verify_ref_op ed name expected_old new_head sig public_key =
     checks ed public_key (ref_op_message name expected_old new_head) sig"

definition verify_proof :: "ed25519 \<Rightarrow> key \<Rightarrow> bytes \<Rightarrow> bytes \<Rightarrow> bool" where
  "verify_proof ed owner nonce sig = checks ed owner (challenge_message nonce) sig"

definition verified :: "ed25519 \<Rightarrow> msg_codec \<Rightarrow> collab_object \<Rightarrow> bool" where
  "verified ed M obj = (case obj of CProfile p \<Rightarrow> verify_profile ed M p | CTrustEdge e \<Rightarrow> verify_edge ed M e)"

definition publisher_key :: "collab_object \<Rightarrow> key" where
  "publisher_key obj = (case obj of CProfile p \<Rightarrow> pf_key p | CTrustEdge e \<Rightarrow> ed_from_key e)"

section \<open>Separation of the schemes\<close>

text \<open>Everything that is signed under an Ed25519 key, the approvals and policy roots of the policy layer included.\<close>

datatype signed_item =
    SgProfile profile
  | SgEdge trust_edge
  | SgRelay bytes
  | SgProposal change_proposal
  | SgComment review_comment
  | SgPost post
  | SgRepo repo_record
  | SgRefOp ref_name "oid option" oid
  | SgHubPush bytes
  | SgAttestation string oid
  | SgPolicyRoot oid

fun signed_message :: "msg_codec \<Rightarrow> signed_item \<Rightarrow> bytes" where
  "signed_message M (SgProfile p) = profile_message M p"
| "signed_message M (SgEdge e) = edge_message M e"
| "signed_message M (SgRelay nonce) = relay_challenge_message nonce"
| "signed_message M (SgProposal p) = proposal_message M p"
| "signed_message M (SgComment c) = comment_message M c"
| "signed_message M (SgPost p) = post_message M p"
| "signed_message M (SgRepo r) = repo_message M r"
| "signed_message M (SgRefOp name old new) = ref_op_message name old new"
| "signed_message M (SgHubPush nonce) = challenge_message nonce"
| "signed_message M (SgAttestation target h) = attestation_message target h"
| "signed_message M (SgPolicyRoot r) = policy_root_message r"

text \<open>The item without its signature, which is what the message has to determine.\<close>

fun unsigned :: "signed_item \<Rightarrow> signed_item" where
  "unsigned (SgProfile p) = SgProfile (p\<lparr>pf_sig := []\<rparr>)"
| "unsigned (SgEdge e) = SgEdge (e\<lparr>ed_sig := []\<rparr>)"
| "unsigned (SgProposal p) = SgProposal (p\<lparr>cp_sig := []\<rparr>)"
| "unsigned (SgComment c) = SgComment (c\<lparr>rc_sig := []\<rparr>)"
| "unsigned (SgPost p) = SgPost (p\<lparr>po_sig := []\<rparr>)"
| "unsigned (SgRepo r) = SgRepo (r\<lparr>rr_sig := []\<rparr>)"
| "unsigned item = item"

fun item_ok :: "signed_item \<Rightarrow> bool" where
  "item_ok (SgRefOp name _ _) = valid_name name"
| "item_ok _ = True"

fun domain_of :: "signed_item \<Rightarrow> bytes" where
  "domain_of (SgProfile _) = COLLAB_PROFILE_DOMAIN"
| "domain_of (SgEdge _) = COLLAB_EDGE_DOMAIN"
| "domain_of (SgRelay _) = COLLAB_RELAY_AUTH_DOMAIN"
| "domain_of (SgProposal _) = PROPOSAL_DOMAIN"
| "domain_of (SgComment _) = REVIEW_COMMENT_DOMAIN"
| "domain_of (SgPost _) = BOARD_POST_DOMAIN"
| "domain_of (SgRepo _) = REPO_RECORD_DOMAIN"
| "domain_of (SgRefOp _ _ _) = REF_OP_DOMAIN"
| "domain_of (SgHubPush _) = HUB_PUSH_DOMAIN"
| "domain_of (SgAttestation _ _) = ATTESTATION_DOMAIN"
| "domain_of (SgPolicyRoot _) = POLICY_ROOT_DOMAIN"

lemmas domain_defs = COLLAB_PROFILE_DOMAIN_def COLLAB_EDGE_DOMAIN_def COLLAB_RELAY_AUTH_DOMAIN_def PROPOSAL_DOMAIN_def
  REVIEW_COMMENT_DOMAIN_def BOARD_POST_DOMAIN_def REPO_RECORD_DOMAIN_def REF_OP_DOMAIN_def HUB_PUSH_DOMAIN_def
  ATTESTATION_DOMAIN_def POLICY_ROOT_DOMAIN_def

lemmas message_defs = profile_message_def edge_message_def relay_challenge_message_def proposal_message_def
  comment_message_def post_message_def repo_message_def ref_op_message_def challenge_message_def
  attestation_message_def policy_root_message_def

definition sig_domains :: "bytes list" where
  "sig_domains = [COLLAB_PROFILE_DOMAIN, COLLAB_EDGE_DOMAIN, COLLAB_RELAY_AUTH_DOMAIN, PROPOSAL_DOMAIN,
     REVIEW_COMMENT_DOMAIN, BOARD_POST_DOMAIN, REPO_RECORD_DOMAIN, REF_OP_DOMAIN, HUB_PUSH_DOMAIN,
     ATTESTATION_DOMAIN, POLICY_ROOT_DOMAIN]"

lemma domain_of_mem: "domain_of s \<in> set sig_domains"
  by (cases s) (simp_all add: sig_domains_def)

text \<open>No tag is a prefix of another: they differ within the first fourteen bytes.\<close>

lemma domains_apart:
  "list_all (\<lambda>d. 14 \<le> length d) sig_domains" "distinct (map (take 14) sig_domains)"
  by code_simp+

lemma same_domain:
  assumes "domain_of s @ x = domain_of t @ y"
  shows "domain_of s = domain_of t"
proof -
  have "14 \<le> length (domain_of u)" for u
    using domains_apart(1) domain_of_mem [of u] by (simp add: list_all_iff)
  then have "take 14 (domain_of s) = take 14 (domain_of t)"
    using arg_cong [OF assms, of "take 14"] by simp
  moreover have "inj_on (take 14) (set sig_domains)" using domains_apart(2) by (simp add: distinct_map)
  ultimately show ?thesis using domain_of_mem by (auto dest: inj_onD)
qed

lemma signed_message_domain: "\<exists>body. signed_message M s = domain_of s @ body"
  by (cases s) (simp_all add: message_defs)

lemma valid_name_no_nul: "valid_name name \<Longrightarrow> CHR 0x00 \<notin> set name"
proof -
  have "set (join_with CHR ''/'' ss) \<subseteq> {CHR ''/''} \<union> (\<Union>seg \<in> set ss. set seg)" for ss
    by (induction "CHR ''/''" ss rule: join_with.induct) auto
  from this [of "split_at CHR ''/'' name"]
  have "set name \<subseteq> {CHR ''/''} \<union> (\<Union>seg \<in> set (split_at CHR ''/'' name). set seg)" by simp
  moreover assume "valid_name name"
  then have "\<forall>seg \<in> set (split_at CHR ''/'' name). CHR 0x00 \<notin> set seg"
    by (simp add: valid_name_def segs_def list_all_iff good_segment_def)
  ultimately show ?thesis by auto
qed

lemma str_bytes_nul: "0 \<in> set (str_bytes s) \<longleftrightarrow> CHR 0x00 \<in> set s"
proof -
  have "(of_char c :: u8) = 0 \<longleftrightarrow> c = CHR 0x00" for c
    using of_char_u8_inj [of c "CHR 0x00"] by simp
  then show ?thesis by (force simp: str_bytes_def)
qed

lemma split_first_eq:
  assumes "xs @ c # ys = xs' @ c # ys'" and "c \<notin> set xs" and "c \<notin> set xs'"
  shows "xs = xs' \<and> ys = ys'"
  using assms by (induction xs arbitrary: xs') (case_tac xs'; auto)+

lemma ref_op_message_inj:
  assumes "valid_name a" and "valid_name b" and "ref_op_message a old new = ref_op_message b old' new'"
  shows "a = b \<and> old = old' \<and> new = new'"
proof -
  let ?o = "\<lambda>x. case x of Some i \<Rightarrow> as_bytes i | None \<Rightarrow> []"
  have eq: "(str_bytes a @ 0 # ?o old @ [0]) @ as_bytes new = (str_bytes b @ 0 # ?o old' @ [0]) @ as_bytes new'"
    using assms(3) by (simp add: ref_op_message_def)
  then have "(str_bytes a @ 0 # ?o old @ [0]) = (str_bytes b @ 0 # ?o old' @ [0]) \<and> as_bytes new = as_bytes new'"
    by (rule append_eq_append_conv [THEN iffD1, rotated]) simp
  then have new: "new = new'" and pre: "str_bytes a @ 0 # (?o old @ [0]) = str_bytes b @ 0 # (?o old' @ [0])"
    by simp_all
  have "0 \<notin> set (str_bytes a)" "0 \<notin> set (str_bytes b)"
    using assms(1,2) valid_name_no_nul by (auto simp: str_bytes_nul)
  from split_first_eq [OF pre this] have "a = b" and o: "?o old = ?o old'" by simp_all
  have "as_bytes i = [] \<longleftrightarrow> False" "[] = as_bytes i \<longleftrightarrow> False" for i
    by (metis length_as_bytes list.size(3) zero_neq_numeral)+
  with o have "old = old'" by (simp split: option.splits)
  with \<open>a = b\<close> new show ?thesis by simp
qed

fun scheme :: "signed_item \<Rightarrow> nat" where
  "scheme (SgProfile _) = 0"
| "scheme (SgEdge _) = 1"
| "scheme (SgRelay _) = 2"
| "scheme (SgProposal _) = 3"
| "scheme (SgComment _) = 4"
| "scheme (SgPost _) = 5"
| "scheme (SgRepo _) = 6"
| "scheme (SgRefOp _ _ _) = 7"
| "scheme (SgHubPush _) = 8"
| "scheme (SgAttestation _ _) = 9"
| "scheme (SgPolicyRoot _) = 10"

lemma domain_of_scheme: "scheme s < length sig_domains \<and> domain_of s = sig_domains ! scheme s"
  by (cases s) (simp_all add: sig_domains_def)

lemma same_scheme: "domain_of s = domain_of t \<Longrightarrow> scheme s = scheme t"
proof -
  have "distinct sig_domains" using domains_apart(2) by (simp add: distinct_map)
  then show "domain_of s = domain_of t \<Longrightarrow> scheme s = scheme t"
    using domain_of_scheme [of s] domain_of_scheme [of t] by (simp add: nth_eq_iff_index_eq)
qed

lemma unsigned_by_message:
  assumes "msg_codec_ok M" and "item_ok s" and "item_ok t" and "signed_message M s = signed_message M t"
    and "domain_of s = domain_of t"
  shows "unsigned s = unsigned t"
  using same_scheme [OF assms(5)] assms(1-4)
  by (cases s; cases t)
    (auto simp: msg_codec_ok_def inj_eq message_defs(1-7) message_defs(9,11) attestation_message_inj dest: ref_op_message_inj)

text \<open>
  C20. One signature, one statement. Two items that are signed as the same bytes are of the same kind and
  agree in every field but the signature itself, across all eleven schemes of the program: profiles,
  trust edges, proposals, comments, posts, repository records, relay and hub challenges, ref updates,
  approvals and policy roots. So a signature made for one statement is never a signature of another.
\<close>

theorem signature_binds_one_statement:
  assumes "msg_codec_ok M" and "item_ok s" and "item_ok t" and "signed_message M s = signed_message M t"
  shows "unsigned s = unsigned t"
proof (rule unsigned_by_message [OF assms])
  obtain x y where "signed_message M s = domain_of s @ x" "signed_message M t = domain_of t @ y"
    using signed_message_domain by metis
  with assms(4) show "domain_of s = domain_of t" using same_domain by metis
qed

section \<open>Signed records pass their checks\<close>

lemma signed_checks:
  assumes "ed25519_ok ed"
  shows "checks ed (ed_public ed seed) m (ed_sign ed seed m)"
  using assms by (simp add: checks_def ed25519_ok_def)

lemma signed_verifies:
  assumes "ed25519_ok ed"
  shows "verify_profile ed M (sign_profile ed M seed name bio eps als seq)"
    and "verify_edge ed M (sign_edge ed M seed to_key kind pet seq)"
    and "verify_proposal ed M (sign_proposal ed M seed source target title at)"
    and "verify_comment ed M (sign_comment ed M seed prop body resolves at)"
    and "verify_post ed M (sign_post ed M seed board body reply at)"
    and "verify_repo ed M (sign_repo ed M seed name desc seq)"
    and "verify_ref_op ed rname old new (sign_ref_op ed seed rname old new) (ed_public ed seed)"
    and "verify_relay_challenge ed (ed_public ed seed) nonce (sign_relay_challenge ed seed nonce)"
  using signed_checks [OF assms] assms
  by (simp_all add: verify_profile_def sign_profile_def verify_edge_def sign_edge_def verify_proposal_def sign_proposal_def
      verify_comment_def sign_comment_def verify_post_def sign_post_def verify_repo_def sign_repo_def verify_ref_op_def
      sign_ref_op_def verify_relay_challenge_def sign_relay_challenge_def Let_def message_defs ed25519_ok_def)

section \<open>A codec\<close>

text \<open>Self-delimiting encoders, and the codec they make up.\<close>

definition delimited :: "('a \<Rightarrow> bytes) \<Rightarrow> bool" where
  "delimited f \<longleftrightarrow> (\<forall>a b x y. f a @ x = f b @ y \<longrightarrow> a = b \<and> x = y)"

fun enc_nat :: "nat \<Rightarrow> bytes" where
  "enc_nat 0 = [0]"
| "enc_nat (Suc n) = 1 # enc_nat n"

definition enc_word :: "'w::len word \<Rightarrow> bytes" where
  "enc_word w = enc_nat (unat w)"

definition enc_list :: "('a \<Rightarrow> bytes) \<Rightarrow> 'a list \<Rightarrow> bytes" where
  "enc_list f xs = enc_nat (length xs) @ concat (map f xs)"

definition enc_bytes :: "bytes \<Rightarrow> bytes" where
  "enc_bytes bs = enc_list (\<lambda>b. [b]) bs"

definition enc_str :: "string \<Rightarrow> bytes" where
  "enc_str s = enc_bytes (str_bytes s)"

definition enc_opt :: "('a \<Rightarrow> bytes) \<Rightarrow> 'a option \<Rightarrow> bytes" where
  "enc_opt f x = (case x of None \<Rightarrow> [0] | Some a \<Rightarrow> 1 # f a)"

fun kind_code :: "trust_kind \<Rightarrow> bytes" where
  "kind_code Vouch = [0]"
| "kind_code Follow = [1]"
| "kind_code Review = [2]"

lemma delimitedI: "(\<And>a b x y. f a @ x = f b @ y \<Longrightarrow> a = b \<and> x = y) \<Longrightarrow> delimited f"
  unfolding delimited_def by blast

lemma delimitedD: "delimited f \<Longrightarrow> f a @ x = f b @ y \<longleftrightarrow> a = b \<and> x = y"
  unfolding delimited_def by blast

lemma delimited_last: "delimited f \<Longrightarrow> f a = f b \<longleftrightarrow> a = b"
  using delimitedD [of f a "[]" b "[]"] by simp

lemma delimited_nat: "delimited enc_nat"
proof (rule delimitedI)
  show "enc_nat a @ x = enc_nat b @ y \<Longrightarrow> a = b \<and> x = y" for a b x y
  proof (induction a arbitrary: b)
    case 0 then show ?case by (cases b) auto
  next
    case (Suc a) then show ?case by (cases b) auto
  qed
qed

lemma delimited_word: "delimited (enc_word :: 'w::len word \<Rightarrow> bytes)"
  by (rule delimitedI) (simp add: enc_word_def delimitedD [OF delimited_nat] word_unat_eq_iff)

lemma delimited_list:
  assumes "delimited f"
  shows "delimited (enc_list f)"
proof (rule delimitedI)
  have parts: "length xs = length ys \<Longrightarrow> concat (map f xs) @ x = concat (map f ys) @ y \<Longrightarrow> xs = ys \<and> x = y" for xs ys x y
    by (induction xs ys rule: list_induct2) (simp_all add: delimitedD [OF assms])
  show "enc_list f xs @ x = enc_list f ys @ y \<Longrightarrow> xs = ys \<and> x = y" for xs ys x y
    using parts [of xs ys x y] by (simp add: enc_list_def delimitedD [OF delimited_nat])
qed

lemma delimited_bytes: "delimited enc_bytes"
  unfolding enc_bytes_def by (rule delimited_list) (simp add: delimited_def)

lemma delimited_str: "delimited enc_str"
  by (rule delimitedI) (simp add: enc_str_def delimitedD [OF delimited_bytes])

lemma delimited_opt: "delimited f \<Longrightarrow> delimited (enc_opt f)"
  by (rule delimitedI) (simp add: enc_opt_def delimitedD split: option.splits)

lemma delimited_kind: "delimited kind_code"
proof (rule delimitedI)
  show "kind_code a @ x = kind_code b @ y \<Longrightarrow> a = b \<and> x = y" for a b x y by (cases a; cases b) simp_all
qed

lemmas delimited_parts = delimited_word delimited_bytes delimited_str delimited_kind delimited_opt [OF delimited_str]
  delimited_opt [OF delimited_word] delimited_list [OF delimited_str]

definition flat_codec :: msg_codec where
  "flat_codec =
     \<lparr>mc_profile = (\<lambda>m. enc_bytes (pm_key m) @ enc_str (pm_display_name m) @ enc_str (pm_bio m) @
        enc_list enc_str (pm_endpoints m) @ enc_list enc_str (pm_dns_aliases m) @ enc_word (pm_seq m)),
      mc_edge = (\<lambda>m. enc_bytes (em_from_key m) @ enc_bytes (em_to_key m) @ kind_code (em_kind m) @
        enc_opt enc_str (em_petname m) @ enc_word (em_seq m)),
      mc_proposal = (\<lambda>m. enc_bytes (prm_author m) @ enc_str (prm_source m) @ enc_str (prm_target m) @
        enc_str (prm_title m) @ enc_word (prm_created_at m)),
      mc_comment = (\<lambda>m. enc_bytes (cm_author m) @ enc_word (cm_proposal m) @ enc_str (cm_body m) @
        (if cm_resolves m then [1] else [0]) @ enc_word (cm_created_at m)),
      mc_post = (\<lambda>m. enc_bytes (pom_author m) @ enc_str (pom_board m) @ enc_str (pom_body m) @
        enc_opt enc_word (pom_parent m) @ enc_word (pom_created_at m)),
      mc_repo = (\<lambda>m. enc_bytes (rm_owner m) @ enc_str (rm_name m) @ enc_str (rm_description m) @ enc_word (rm_seq m)),
      mc_pin = (\<lambda>p. enc_str (rp_endpoint p) @ rp_key p),
      mc_unpin = (\<lambda>bs. let n = length (takeWhile (\<lambda>b. b = 1) bs); rest = drop (Suc n) bs in
        Some \<lparr>rp_key = drop n rest, rp_endpoint = bytes_str (take n rest)\<rparr>)\<rparr>"

lemma enc_nat_takeWhile: "takeWhile (\<lambda>b. b = 1) (enc_nat n @ x) = replicate n 1" "length (enc_nat n) = Suc n"
  by (induction n) simp_all

lemma flat_codec_ok: "msg_codec_ok flat_codec"
proof -
  note eqs = delimited_parts [THEN delimitedD] delimited_parts [THEN delimited_last]
  show ?thesis
    unfolding msg_codec_ok_def inj_def flat_codec_def
    by (simp add: eqs enc_str_def [of "rp_endpoint _"] enc_bytes_def [of "str_bytes (rp_endpoint _)"]
        enc_list_def [of "\<lambda>b. [b]"] enc_nat_takeWhile Let_def split: if_splits)
qed

theorem signature_binds_one_statement_witness:
  "let p = sign_profile plain_scheme flat_codec [7] ''ada'' ''bio'' [] [] 1;
       q = p\<lparr>pf_sig := [1, 2, 3]\<rparr> in
   signed_message flat_codec (SgProfile p) = signed_message flat_codec (SgProfile q) \<and> p \<noteq> q \<and>
   unsigned (SgProfile p) = unsigned (SgProfile q)"
proof -
  let ?p = "sign_profile plain_scheme flat_codec [7] ''ada'' ''bio'' [] [] 1"
  let ?q = "?p\<lparr>pf_sig := [1, 2, 3]\<rparr>"
  have eq: "signed_message flat_codec (SgProfile ?p) = signed_message flat_codec (SgProfile ?q)"
    by (simp add: profile_message_def)
  have "length (pf_sig ?p) = 64" using plain_scheme_ok by (simp add: sign_profile_def Let_def ed25519_ok_def)
  moreover have "length (pf_sig ?q) = 3" by simp
  ultimately have "length (pf_sig ?p) \<noteq> length (pf_sig ?q)" by presburger
  then have "?p \<noteq> ?q" by (rule contrapos_nn) (rule arg_cong)
  with eq signature_binds_one_statement [OF flat_codec_ok _ _ eq] show ?thesis by (simp add: Let_def)
qed

end
