(* ===== verification/Trust.thy ===== *)
theory Trust
  imports Signatures Object_Writes "HOL-Library.Product_Lexorder"
begin

text \<open>
  The trust graph of \<^verbatim>\<open>src/collab/trust.rs\<close>, the names it suggests (\<^verbatim>\<open>naming.rs\<close>, \<^verbatim>\<open>alias.rs\<close>), the discovery
  index and the ranking of strangers (\<^verbatim>\<open>discovery.rs\<close>), and the search a relay runs on its corpus
  (\<^verbatim>\<open>search.rs\<close>). The four breadth-first searches are loops over a queue; each ends because a key enters
  the queue only when it is first seen. The accompanying theory \<^verbatim>\<open>Trust_Laws\<close> proves what they compute.
\<close>

section \<open>Substrings\<close>

text \<open>\<^verbatim>\<open>str::contains\<close>.\<close>

fun str_contains :: "string \<Rightarrow> string \<Rightarrow> bool" where
  "str_contains [] term \<longleftrightarrow> term = []"
| "str_contains (c # s) term \<longleftrightarrow> starts_with term (c # s) \<or> str_contains s term"

section \<open>The trust graph\<close>

type_synonym trust_graph = "trust_edge list"

record trust_hop =
  th_key :: key
  th_via :: trust_kind

record vouch_suggestion =
  vs_petname :: string
  vs_depth :: u8
  vs_path :: "key list"

definition follows :: "trust_graph \<Rightarrow> key \<Rightarrow> key list" where
  "follows g from_key = map ed_to_key (filter (\<lambda>e. ed_kind e = Follow \<and> ed_from_key e = from_key) g)"

abbreviation graph_keys :: "trust_graph \<Rightarrow> key set" where
  "graph_keys g \<equiv> ed_to_key ` set g"

text \<open>The keys of a list that a set does not have, each at its first occurrence.\<close>

fun fresh :: "'a list \<Rightarrow> 'a set \<Rightarrow> 'a list" where
  "fresh [] S = []"
| "fresh (x # xs) S = (if x \<in> S then fresh xs S else x # fresh xs (insert x S))"

lemma set_fresh [simp]: "set (fresh xs S) = set xs - S"
  by (induction xs S rule: fresh.induct) auto

lemma distinct_fresh [simp]: "distinct (fresh xs S)"
  by (induction xs S rule: fresh.induct) auto

text \<open>A round of a search makes its measure smaller: either it sees a new key, or the queue shrinks.\<close>

lemma search_round:
  assumes "finite U" and "set xs \<subseteq> U"
  shows "card (U - (S \<union> set xs)) < card (U - S) \<or>
    card (U - (S \<union> set xs)) = card (U - S) \<and> length (fresh xs S) = 0"
proof (cases "set xs \<subseteq> S")
  case True
  then have "set (fresh xs S) = {}" by auto
  then have "fresh xs S = []" by (simp only: set_empty)
  with True show ?thesis by (simp add: Un_absorb2)
next
  case False
  then have "U - (S \<union> set xs) \<subset> U - S" using assms(2) by auto
  then show ?thesis using assms(1) by (simp add: psubset_card_mono)
qed

subsection \<open>Neighbourhoods\<close>

type_synonym nb_state = "(key, u8) btree \<times> (key \<times> u8) list \<times> key set"

definition reach_next :: "u8 \<Rightarrow> key \<Rightarrow> nb_state \<Rightarrow> nb_state" where
  "reach_next d k st = (case st of (dist, q, seen) \<Rightarrow>
     if k \<in> seen then st else (bt_insert k (d + 1) dist, q @ [(k, d + 1)], insert k seen))"

lemma fold_reach_next:
  "fold (reach_next d) ks (dist, q, seen) =
     (fold (\<lambda>k. bt_insert k (d + 1)) (fresh ks seen) dist, q @ map (\<lambda>k. (k, d + 1)) (fresh ks seen), seen \<union> set ks)"
  by (induction ks seen arbitrary: dist q rule: fresh.induct) (auto simp: reach_next_def)

function neighborhood_loop :: "trust_graph \<Rightarrow> u8 \<Rightarrow> (key \<times> u8) list \<Rightarrow> (key, u8) btree \<Rightarrow> key set \<Rightarrow> (key, u8) btree" where
  "neighborhood_loop g hops [] dist seen = dist"
| "neighborhood_loop g hops ((node, d) # q) dist seen =
     (if d = hops then neighborhood_loop g hops q dist seen
      else case fold (reach_next d) (follows g node) (dist, q, seen) of
        (dist', q', seen') \<Rightarrow> neighborhood_loop g hops q' dist' seen')"
  by pat_completeness auto
termination
proof (relation "measures [\<lambda>(g, hops, q, dist, seen). card (graph_keys g - seen), \<lambda>(g, hops, q, dist, seen). length q]", goal_cases)
  case (3 g hops node d q dist seen dist' st q' seen')
  from 3(2,3) have "seen' = seen \<union> set (follows g node)" "q' = q @ map (\<lambda>k. (k, d + 1)) (fresh (follows g node) seen)"
    by (auto simp: fold_reach_next)
  then show ?case
    using search_round [of "graph_keys g" "follows g node" seen] by (auto simp: follows_def)
qed simp_all

definition follow_neighborhood :: "trust_graph \<Rightarrow> key \<Rightarrow> u8 \<Rightarrow> (key, u8) btree" where
  "follow_neighborhood g self hops = neighborhood_loop g hops [(self, 0)] [] {self}"

text \<open>
  Paths. A node that is taken from the queue has a path, so that \<^verbatim>\<open>expect\<close> finds one; the length of a path is
  cast to a byte before one is subtracted.
\<close>

lemma dom_bt_insert: "dom (bt_get (bt_insert k v m)) = insert k (dom (bt_get m))"
  by (simp only: bt_get_insert dom_fun_upd) simp

definition extend_path :: "key list \<Rightarrow> key \<Rightarrow> (key, key list) btree \<times> key list \<Rightarrow> (key, key list) btree \<times> key list" where
  "extend_path node_path k st = (case st of (paths, q) \<Rightarrow>
     if bt_get paths k = None then (bt_insert k (node_path @ [k]) paths, q @ [k]) else st)"

lemma fold_extend_path:
  "fold (extend_path p) ks (paths, q) =
     (fold (\<lambda>k. bt_insert k (p @ [k])) (fresh ks (dom (bt_get paths))) paths, q @ fresh ks (dom (bt_get paths)))"
proof (induction ks arbitrary: paths q)
  case (Cons k ks)
  show ?case
  proof (cases "bt_get paths k")
    case None
    then have "k \<notin> dom (bt_get paths)" by (simp add: domIff)
    then show ?thesis using Cons.IH [of "bt_insert k (p @ [k]) paths"] by (simp add: extend_path_def None dom_bt_insert del: bt_get_insert)
  next
    case (Some p')
    then have "k \<in> dom (bt_get paths)" by (simp add: domIff)
    then show ?thesis using Cons.IH [of paths] by (simp add: extend_path_def Some)
  qed
qed simp

lemma dom_fold_bt_insert: "dom (bt_get (fold (\<lambda>k. bt_insert k (f k)) ks m)) = dom (bt_get m) \<union> set ks"
  by (induction ks arbitrary: m) auto

function paths_loop :: "trust_graph \<Rightarrow> u8 \<Rightarrow> key list \<Rightarrow> (key, key list) btree \<Rightarrow> (key, key list) btree" where
  "paths_loop g hops [] paths = paths"
| "paths_loop g hops (node # q) paths =
     (let node_path = the (bt_get paths node) in
      if of_nat (length node_path) - 1 = hops then paths_loop g hops q paths
      else case fold (extend_path node_path) (follows g node) (paths, q) of
        (paths', q') \<Rightarrow> paths_loop g hops q' paths')"
  by pat_completeness auto
termination
proof (relation "measures [\<lambda>(g, hops, q, paths). card (graph_keys g - dom (bt_get paths)), \<lambda>(g, hops, q, paths). length q]", goal_cases)
  case (3 g hops node q paths node_path paths' q')
  let ?new = "fresh (follows g node) (dom (bt_get paths))"
  from 3(3) have p: "paths' = fold (\<lambda>k. bt_insert k (node_path @ [k])) ?new paths" and q': "q' = q @ ?new"
    by (simp_all add: fold_extend_path)
  have "dom (bt_get paths') = dom (bt_get paths) \<union> set (follows g node)"
    unfolding p dom_fold_bt_insert by auto
  then show ?case
    using search_round [of "graph_keys g" "follows g node" "dom (bt_get paths)"] q' by (auto simp: follows_def)
qed simp_all

definition follow_paths :: "trust_graph \<Rightarrow> key \<Rightarrow> u8 \<Rightarrow> (key, key list) btree" where
  "follow_paths g self hops = filter (\<lambda>(k, p). k \<noteq> self) (paths_loop g hops [self] (bt_insert self [self] []))"

subsection \<open>Names\<close>

definition vouch_suggestions :: "trust_graph \<Rightarrow> key \<Rightarrow> key \<Rightarrow> u8 \<Rightarrow> vouch_suggestion list" where
  "vouch_suggestions g self target max_depth =
     (let named = (\<lambda>voucher depth path. concat (map (\<lambda>e.
            if ed_kind e = Vouch \<and> ed_from_key e = voucher \<and> ed_to_key e = target
            then (case ed_petname e of Some name \<Rightarrow> [\<lparr>vs_petname = name, vs_depth = depth, vs_path = path\<rparr>] | None \<Rightarrow> [])
            else []) g)) in
      (if 1 \<le> max_depth then named self 1 [self] else []) @
      (if 2 \<le> max_depth then concat (map (\<lambda>voucher. named voucher 2 [self, voucher]) (follows g self)) else []))"

datatype petname_resolution = NamedLocal string | NamedVouch string u8 "key list" | NamedFingerprint string

definition resolve_name :: "ocodec \<Rightarrow> key \<Rightarrow> (key, string) btree \<Rightarrow> trust_graph \<Rightarrow> key \<Rightarrow> petname_resolution" where
  "resolve_name C self names g k =
     (case bt_get names k of
        Some name \<Rightarrow> NamedLocal name
      | None \<Rightarrow>
          (case sort_key vs_depth (vouch_suggestions g self k 2) of
             s # _ \<Rightarrow> NamedVouch (vs_petname s) (vs_depth s) (vs_path s)
           | [] \<Rightarrow> NamedFingerprint (fingerprint C k)))"

datatype alias_status = AliasVerified | AliasClaimed

definition verify_alias :: "(string \<Rightarrow> key option result) \<Rightarrow> string \<Rightarrow> key \<Rightarrow> alias_status result" where
  "verify_alias asserted_key name k =
     bind_res (asserted_key name) (\<lambda>found. Inr (if found = Some k then AliasVerified else AliasClaimed))"

subsection \<open>Trust paths\<close>

text \<open>The neighbours a path may step to, ordered by key; a vouch hides a follow of the same key.\<close>

definition note_neighbor :: "key \<Rightarrow> trust_edge \<Rightarrow> (key, trust_kind) btree \<Rightarrow> (key, trust_kind) btree" where
  "note_neighbor from_key e best =
     (if ed_from_key e = from_key \<and> ed_kind e \<in> {Follow, Vouch} then
        (case bt_get best (ed_to_key e) of
           Some v \<Rightarrow> if ed_kind e = Vouch then bt_insert (ed_to_key e) Vouch best else best
         | None \<Rightarrow> bt_insert (ed_to_key e) (ed_kind e) best)
      else best)"

definition trust_neighbors :: "trust_graph \<Rightarrow> key \<Rightarrow> (key \<times> trust_kind) list" where
  "trust_neighbors g from_key = fold (note_neighbor from_key) g []"

lemma keys_trust_neighbors: "fst ` set (trust_neighbors g k) = ed_to_key ` {e \<in> set g. ed_from_key e = k \<and> ed_kind e \<in> {Follow, Vouch}}"
proof -
  have "fst ` set (fold (note_neighbor k) g best) =
      fst ` set best \<union> ed_to_key ` {e \<in> set g. ed_from_key e = k \<and> ed_kind e \<in> {Follow, Vouch}}" for best
  proof (induction g arbitrary: best)
    case (Cons e g)
    have "fst ` set (note_neighbor k e best) =
        fst ` set best \<union> (if ed_from_key e = k \<and> ed_kind e \<in> {Follow, Vouch} then {ed_to_key e} else {})"
    proof (cases "bt_get best (ed_to_key e)")
      case (Some v)
      then have "ed_to_key e \<in> fst ` set best" by (force dest: map_of_SomeD)
      with Some show ?thesis by (auto simp: note_neighbor_def)
    qed (auto simp: note_neighbor_def)
    with Cons show ?case by auto
  qed simp
  then show ?thesis by (simp add: trust_neighbors_def)
qed

text \<open>The inner loop of the search: it returns from the whole function when it meets the target.\<close>

fun scan_hops ::
  "key \<Rightarrow> trust_hop list \<Rightarrow> (key \<times> trust_kind) list \<Rightarrow> (key, trust_hop list) btree \<Rightarrow> key list \<Rightarrow>
   trust_hop list + (key, trust_hop list) btree \<times> key list" where
  "scan_hops target node_path [] paths q = Inr (paths, q)"
| "scan_hops target node_path ((k, via) # ns) paths q =
     (if bt_get paths k = None then
        (let p = node_path @ [\<lparr>th_key = k, th_via = via\<rparr>] in
         if k = target then Inl p else scan_hops target node_path ns (bt_insert k p paths) (q @ [k]))
      else scan_hops target node_path ns paths q)"

lemma scan_hops_Inr:
  "scan_hops target p ns paths q = Inr (paths', q') \<Longrightarrow>
     q' = q @ fresh (map fst ns) (dom (bt_get paths)) \<and> dom (bt_get paths') = dom (bt_get paths) \<union> fst ` set ns"
proof (induction target p ns paths q rule: scan_hops.induct)
  case (2 target p k via ns paths q)
  then show ?case
    by (cases "bt_get paths k = None"; cases "k = target") (auto simp: Let_def domIff insert_absorb dom_bt_insert simp del: bt_get_insert split: if_splits)
qed simp

function trust_loop :: "trust_graph \<Rightarrow> key \<Rightarrow> u8 \<Rightarrow> key list \<Rightarrow> (key, trust_hop list) btree \<Rightarrow> trust_hop list option" where
  "trust_loop g target max_hops [] paths = None"
| "trust_loop g target max_hops (node # q) paths =
     (let node_path = the (bt_get paths node) in
      if of_nat (length node_path) = max_hops then trust_loop g target max_hops q paths
      else case scan_hops target node_path (trust_neighbors g node) paths q of
        Inl p \<Rightarrow> Some p
      | Inr (paths', q') \<Rightarrow> trust_loop g target max_hops q' paths')"
  by pat_completeness auto
termination
proof (relation "measures [\<lambda>(g, target, m, q, paths). card (graph_keys g - dom (bt_get paths)), \<lambda>(g, target, m, q, paths). length q]", goal_cases)
  case (3 g target m node q paths node_path st paths' q')
  then have "scan_hops target node_path (trust_neighbors g node) paths q = Inr (paths', q')" by simp
  from scan_hops_Inr [OF this] have "q' = q @ fresh (map fst (trust_neighbors g node)) (dom (bt_get paths))"
    "dom (bt_get paths') = dom (bt_get paths) \<union> set (map fst (trust_neighbors g node))" by simp_all
  moreover have "set (map fst (trust_neighbors g node)) \<subseteq> graph_keys g" using keys_trust_neighbors [of g node] by auto
  ultimately show ?case
    using search_round [of "graph_keys g" "map fst (trust_neighbors g node)" "dom (bt_get paths)"] by auto
qed simp_all

definition trust_path :: "trust_graph \<Rightarrow> key \<Rightarrow> key \<Rightarrow> u8 \<Rightarrow> trust_hop list option" where
  "trust_path g self target max_hops =
     (if self = target then Some [] else trust_loop g target max_hops [self] (bt_insert self [] []))"

section \<open>Discovery\<close>

record discovery_result =
  dr_key :: key
  dr_object :: collab_object
  dr_distance :: u8
  dr_trust_path :: "key list"

type_synonym discovery_index = "discovery_result list"

definition recency :: "collab_object \<Rightarrow> u64" where
  "recency obj = (case obj of CProfile p \<Rightarrow> pf_seq p | CTrustEdge e \<Rightarrow> ed_seq e)"

definition object_matches :: "ocodec \<Rightarrow> collab_object \<Rightarrow> string \<Rightarrow> bool" where
  "object_matches C obj term =
     (if term = [] then True else
      case obj of
        CProfile p \<Rightarrow> str_contains (fingerprint C (pf_key p)) term \<or> str_contains (pf_display_name p) term \<or>
          str_contains (pf_bio p) term \<or> list_ex (\<lambda>a. str_contains a term) (pf_dns_aliases p)
      | CTrustEdge e \<Rightarrow> str_contains (fingerprint C (ed_from_key e)) term \<or>
          (case ed_petname e of Some n \<Rightarrow> str_contains n term | None \<Rightarrow> False))"

definition index_build :: "key \<Rightarrow> collab_object list \<Rightarrow> (key \<times> u8 \<times> key list \<times> collab_object list) list \<Rightarrow> discovery_index" where
  "index_build self own pulled =
     map (\<lambda>obj. \<lparr>dr_key = publisher_key obj, dr_object = obj, dr_distance = 0, dr_trust_path = [self]\<rparr>) own @
     concat (map (\<lambda>(via, distance, path, objects).
       map (\<lambda>obj. \<lparr>dr_key = publisher_key obj, dr_object = obj, dr_distance = distance, dr_trust_path = path\<rparr>) objects) pulled)"

text \<open>By distance, then latest first; the sort is stable.\<close>

definition index_query :: "ocodec \<Rightarrow> discovery_index \<Rightarrow> string \<Rightarrow> discovery_result list" where
  "index_query C idx term =
     sort_key (\<lambda>r. (dr_distance r, - uint (recency (dr_object r)))) (filter (\<lambda>r. object_matches C (dr_object r) term) idx)"

text \<open>A source is what it answers when it is asked for its public objects.\<close>

type_synonym object_source = "collab_object list result"

definition gather_index ::
  "ed25519 \<Rightarrow> msg_codec \<Rightarrow> key \<Rightarrow> object_source \<Rightarrow> trust_graph \<Rightarrow> u8 \<Rightarrow> (key, object_source) btree \<Rightarrow> discovery_index result" where
  "gather_index ed M self own g hops sources =
     bind_res own (\<lambda>objs.
     let pulled = concat (map (\<lambda>(peer, distance). case bt_get sources peer of
            Some (Inr found) \<Rightarrow> [(peer, distance, [self, peer], filter (verified ed M) found)]
          | _ \<Rightarrow> []) (follow_neighborhood g self hops)) in
     Inr (index_build self (filter (verified ed M) objs) pulled))"

record stranger_hit =
  sh_key :: key
  sh_display_name :: string
  sh_trust_path :: "trust_hop list option"
  sh_hops :: "nat option"
  sh_relays :: "key list"

definition profile_matches :: "profile \<Rightarrow> string \<Rightarrow> bool" where
  "profile_matches p term \<longleftrightarrow> str_contains (pf_display_name p) term \<or> str_contains (pf_bio p) term \<or>
     list_ex (\<lambda>a. str_contains a term) (pf_dns_aliases p) \<or> str_contains (key_hex (pf_key p)) term"

definition has_vouch :: "trust_hop list option \<Rightarrow> bool" where
  "has_vouch path = (case path of Some p \<Rightarrow> list_ex (\<lambda>h. th_via h = Vouch) p | None \<Rightarrow> False)"

fun edges_of :: "collab_object list \<Rightarrow> trust_edge list" where
  "edges_of [] = []"
| "edges_of (CTrustEdge e # objs) = e # edges_of objs"
| "edges_of (CProfile _ # objs) = edges_of objs"

fun profiles_of :: "collab_object list \<Rightarrow> profile list" where
  "profiles_of [] = []"
| "profiles_of (CProfile p # objs) = p # profiles_of objs"
| "profiles_of (CTrustEdge _ # objs) = profiles_of objs"

text \<open>The order of the comparison chain: connected, fewer hops, a vouch on the way, name, fingerprint.\<close>

definition hit_rank :: "ocodec \<Rightarrow> stranger_hit \<Rightarrow> bool \<times> nat \<times> bool \<times> string \<times> string" where
  "hit_rank C h = (sh_trust_path h = None, case sh_hops h of Some n \<Rightarrow> n | None \<Rightarrow> 2 ^ 64 - 1,
     \<not> has_vouch (sh_trust_path h), sh_display_name h, fingerprint C (sh_key h))"

definition rank_strangers :: "ocodec \<Rightarrow> key \<Rightarrow> trust_edge list \<Rightarrow> collab_object list \<Rightarrow> string \<Rightarrow> u8 \<Rightarrow> stranger_hit list" where
  "rank_strangers C self own_edges corpus term max_hops =
     (let g = own_edges @ edges_of corpus in
      sort_key (hit_rank C) (map (\<lambda>p. let path = trust_path g self (pf_key p) max_hops in
          \<lparr>sh_key = pf_key p, sh_display_name = pf_display_name p, sh_trust_path = path,
           sh_hops = map_option length path, sh_relays = []\<rparr>)
        (filter (\<lambda>p. profile_matches p term) (profiles_of corpus))))"

text \<open>The id of an edge, whose encoding the code takes to succeed.\<close>

definition edge_id :: "ocodec \<Rightarrow> trust_edge \<Rightarrow> oid" where
  "edge_id C e = obj_id C (OCollab (CTrustEdge e))"

type_synonym merged_corpus = "(key, profile) btree \<times> (key, key list) btree \<times> (oid, trust_edge) btree"

definition merge_object :: "ocodec \<Rightarrow> key \<Rightarrow> collab_object \<Rightarrow> merged_corpus \<Rightarrow> merged_corpus" where
  "merge_object C relay obj st = (case st of (best, served_by, edges) \<Rightarrow>
     (case obj of
        CProfile p \<Rightarrow>
          ((case bt_get best (pf_key p) of
              Some cur \<Rightarrow> if pf_seq p \<le> pf_seq cur then best else bt_insert (pf_key p) p best
            | None \<Rightarrow> bt_insert (pf_key p) p best),
           bt_insert (pf_key p) (btset_of (relay # (case bt_get served_by (pf_key p) of Some s \<Rightarrow> s | None \<Rightarrow> []))) served_by,
           edges)
      | CTrustEdge e \<Rightarrow>
          (best, served_by, if bt_get edges (edge_id C e) = None then bt_insert (edge_id C e) e edges else edges)))"

definition rank_strangers_multi ::
  "ocodec \<Rightarrow> key \<Rightarrow> trust_edge list \<Rightarrow> (key \<times> collab_object list) list \<Rightarrow> string \<Rightarrow> u8 \<Rightarrow> stranger_hit list" where
  "rank_strangers_multi C self own_edges per_relay term max_hops =
     (case fold (\<lambda>(relay, corpus). fold (merge_object C relay) corpus) per_relay ([], [], []) of
        (best, served_by, edges) \<Rightarrow>
          map (\<lambda>h. case bt_get served_by (sh_key h) of Some s \<Rightarrow> h\<lparr>sh_relays := s\<rparr> | None \<Rightarrow> h)
            (rank_strangers C self own_edges (map (CProfile \<circ> snd) best @ map (CTrustEdge \<circ> snd) edges) term max_hops))"

section \<open>Search on a relay\<close>

definition MAX_SEARCH_HOPS :: u8 where
  "MAX_SEARCH_HOPS = 6"

definition MIN_SEARCH_TERM_LEN :: nat where
  "MIN_SEARCH_TERM_LEN = 3"

type_synonym incoming = "(key, trust_edge list) btree"

definition incoming_edges :: "trust_edge list \<Rightarrow> incoming" where
  "incoming_edges edges = fold (\<lambda>e m.
     bt_insert (ed_to_key e) ((case bt_get m (ed_to_key e) of Some es \<Rightarrow> es | None \<Rightarrow> []) @ [e]) m) edges []"

text \<open>What the search has selected, and the ids of the edges among it.\<close>

type_synonym selection = "collab_object list \<times> oid set"

definition take_edge :: "ocodec \<Rightarrow> u8 \<Rightarrow> trust_edge \<Rightarrow> selection \<times> (key \<times> u8) list \<times> key set \<Rightarrow> selection \<times> (key \<times> u8) list \<times> key set" where
  "take_edge C depth e st = (case st of ((out, ball), q, visited) \<Rightarrow>
     (if edge_id C e \<in> ball then (out, ball) else (out @ [CTrustEdge e], insert (edge_id C e) ball),
      if ed_from_key e \<in> visited then (q, visited)
      else (q @ [(ed_from_key e, depth + 1)], insert (ed_from_key e) visited)))"

fun keep_edges :: "ocodec \<Rightarrow> trust_edge list \<Rightarrow> selection \<Rightarrow> selection" where
  "keep_edges C [] sel = sel"
| "keep_edges C (e # es) (out, ball) =
     keep_edges C es (if edge_id C e \<in> ball then (out, ball) else (out @ [CTrustEdge e], insert (edge_id C e) ball))"

lemma fold_take_edge:
  "fold (take_edge C depth) es (sel, q, visited) =
     (keep_edges C es sel, q @ map (\<lambda>k. (k, depth + 1)) (fresh (map ed_from_key es) visited), visited \<union> ed_from_key ` set es)"
  by (induction es arbitrary: sel q visited) (auto simp: take_edge_def split: prod.splits)

function ball_loop :: "ocodec \<Rightarrow> incoming \<Rightarrow> u8 \<Rightarrow> (key \<times> u8) list \<Rightarrow> key set \<Rightarrow> selection \<Rightarrow> selection" where
  "ball_loop C inc max_hops [] visited sel = sel"
| "ball_loop C inc max_hops ((node, depth) # q) visited sel =
     (if max_hops \<le> depth then ball_loop C inc max_hops q visited sel
      else case bt_get inc node of
        None \<Rightarrow> ball_loop C inc max_hops q visited sel
      | Some preds \<Rightarrow>
          (case fold (take_edge C depth) preds (sel, q, visited) of
             (sel', q', visited') \<Rightarrow> ball_loop C inc max_hops q' visited' sel'))"
  by pat_completeness auto
termination
proof (relation "measures [\<lambda>(C, inc, m, q, visited, sel). card (ed_from_key ` (\<Union>es \<in> snd ` set inc. set es) - visited),
    \<lambda>(C, inc, m, q, visited, sel). length q]", goal_cases)
  case (4 C inc m node depth q visited sel preds sel' st q' visited')
  let ?U = "ed_from_key ` (\<Union>es \<in> snd ` set inc. set es)"
  from 4(3,4) have "visited' = visited \<union> set (map ed_from_key preds)"
    "q' = q @ map (\<lambda>k. (k, depth + 1)) (fresh (map ed_from_key preds) visited)" by (auto simp: fold_take_edge)
  moreover have "preds \<in> snd ` set inc" using map_of_SomeD [OF 4(2)] by force
  then have "set (map ed_from_key preds) \<subseteq> ?U" by auto
  moreover have "finite ?U" by simp
  ultimately show ?case using search_round [of ?U "map ed_from_key preds" visited] by auto
qed simp_all

definition search_ball :: "ocodec \<Rightarrow> collab_object list \<Rightarrow> string \<Rightarrow> u8 \<Rightarrow> collab_object list" where
  "search_ball C corpus term max_hops =
     (let inc = incoming_edges (edges_of corpus) in
      fst (fold (\<lambda>p (out, ball).
          if profile_matches p term
          then ball_loop C inc max_hops [(pf_key p, 0)] {pf_key p} (out @ [CProfile p], ball)
          else (out, ball))
        (profiles_of corpus) ([], {})))"

end
