(* ===== verification/Trust_Laws.thy ===== *)
theory Trust_Laws
  imports Trust
begin

text \<open>
  What the searches of the trust graph compute. A bounded breadth-first search is described once, by an
  invariant of its queue, its seen keys and their levels; each of the loops is shown to keep it. So a
  neighbourhood holds exactly the keys within the bound, with their distances; a trust path is a shortest
  one; and the search on a relay selects what a client needs to find the same distances itself.
\<close>

section \<open>Distances\<close>

definition at_dist :: "('k \<times> 'k) set \<Rightarrow> 'k \<Rightarrow> nat \<Rightarrow> 'k \<Rightarrow> bool" where
  "at_dist R a n k \<longleftrightarrow> (a, k) \<in> R ^^ n \<and> (\<forall>m < n. (a, k) \<notin> R ^^ m)"

lemma at_dist_unique: "at_dist R a m k \<Longrightarrow> at_dist R a n k \<Longrightarrow> m = n"
  unfolding at_dist_def by (metis linorder_neqE_nat)

lemma at_dist_0 [simp]: "at_dist R a 0 k \<longleftrightarrow> k = a"
  by (auto simp: at_dist_def)

lemma at_dist_le: "(a, k) \<in> R ^^ n \<Longrightarrow> \<exists>m \<le> n. at_dist R a m k"
proof -
  assume *: "(a, k) \<in> R ^^ n"
  let ?m = "LEAST m. (a, k) \<in> R ^^ m"
  have "(a, k) \<in> R ^^ ?m" "?m \<le> n" using * by (rule LeastI, rule Least_le)
  then show ?thesis unfolding at_dist_def using not_less_Least by blast
qed

lemma at_dist_pred:
  assumes "at_dist R a (Suc n) k"
  obtains j where "at_dist R a n j" and "(j, k) \<in> R"
proof -
  from assms obtain j where j: "(a, j) \<in> R ^^ n" "(j, k) \<in> R" by (auto simp: at_dist_def)
  have "(a, j) \<notin> R ^^ m" if "m < n" for m
  proof
    assume "(a, j) \<in> R ^^ m"
    with j(2) have "(a, k) \<in> R ^^ Suc m" by auto
    with assms that show False unfolding at_dist_def by (metis Suc_less_eq)
  qed
  with j that show thesis by (auto simp: at_dist_def)
qed

section \<open>Bounded breadth-first search\<close>

definition bfs_inv :: "('k \<times> 'k) set \<Rightarrow> 'k \<Rightarrow> nat \<Rightarrow> 'k set \<Rightarrow> ('k \<Rightarrow> nat) \<Rightarrow> 'k list \<Rightarrow> bool" where
  "bfs_inv R a bound seen lev q \<longleftrightarrow> a \<in> seen \<and> set q \<subseteq> seen \<and>
     (\<forall>k \<in> seen. at_dist R a (lev k) k \<and> lev k \<le> bound) \<and>
     (\<forall>k \<in> seen. k \<notin> set q \<longrightarrow> lev k < bound \<longrightarrow> R `` {k} \<subseteq> seen) \<and>
     sorted (map lev q) \<and> (\<forall>k \<in> set q. lev k \<le> Suc (lev (hd q)))"

lemma bfs_seen:
  assumes "bfs_inv R a bound seen lev q" and "at_dist R a n k" and "n \<le> bound" and "q \<noteq> [] \<Longrightarrow> n \<le> lev (hd q)"
  shows "k \<in> seen"
  using assms(2-4)
proof (induction n arbitrary: k)
  case 0
  then show ?case using assms(1) by (simp add: bfs_inv_def)
next
  case (Suc n)
  obtain j where j: "at_dist R a n j" "(j, k) \<in> R" using Suc.prems(1) by (rule at_dist_pred)
  have "j \<in> seen" using Suc.IH [OF j(1)] Suc.prems by fastforce
  then have lev: "lev j = n" using assms(1) j(1) at_dist_unique unfolding bfs_inv_def by fastforce
  have "j \<notin> set q"
  proof
    assume "j \<in> set q"
    then obtain x q' where q: "q = x # q'" by (cases q) auto
    with \<open>j \<in> set q\<close> assms(1) have "lev x \<le> lev j" by (auto simp: bfs_inv_def)
    with Suc.prems(3) q lev show False by simp
  qed
  with \<open>j \<in> seen\<close> lev Suc.prems(2) assms(1) j(2) show ?case unfolding bfs_inv_def by fastforce
qed

lemma bfs_new:
  assumes "bfs_inv R a bound seen lev (x # q)" and "lev x < bound" and "(x, y) \<in> R" and "y \<notin> seen"
  shows "at_dist R a (Suc (lev x)) y"
proof -
  have "(a, x) \<in> R ^^ lev x" using assms(1) by (auto simp: bfs_inv_def at_dist_def)
  with assms(3) have "(a, y) \<in> R ^^ Suc (lev x)" by auto
  then obtain n where n: "n \<le> Suc (lev x)" "at_dist R a n y" using at_dist_le by metis
  moreover have "\<not> n \<le> lev x" using bfs_seen [OF assms(1) n(2)] assms(2,4) by auto
  ultimately show ?thesis by (metis le_antisym not_less_eq_eq)
qed

lemma bfs_start: "bfs_inv R a bound {a} (\<lambda>_. 0) [a]"
  by (simp add: bfs_inv_def)

lemma bfs_skip:
  assumes "bfs_inv R a bound seen lev (x # q)" and "bound \<le> lev x"
  shows "bfs_inv R a bound seen lev q"
proof -
  have "lev k \<le> Suc (lev (hd q))" if "k \<in> set q" for k
  proof -
    have "lev k \<le> Suc (lev x)" "lev x \<le> lev (hd q)" using assms(1) that by (cases q; auto simp: bfs_inv_def)+
    then show ?thesis by simp
  qed
  with assms show ?thesis by (auto simp: bfs_inv_def)
qed

lemma bfs_expand:
  assumes "bfs_inv R a bound seen lev (x # q)" and "lev x < bound" and "set new = R `` {x} - seen"
    and "\<And>k. k \<in> seen \<Longrightarrow> lev' k = lev k" and "\<And>k. k \<in> set new \<Longrightarrow> lev' k = Suc (lev x)"
  shows "bfs_inv R a bound (seen \<union> set new) lev' (q @ new)"
proof -
  have q: "set q \<subseteq> seen" "sorted (map lev q)" "\<forall>k \<in> set q. lev x \<le> lev k \<and> lev k \<le> Suc (lev x)" "x \<in> seen"
    using assms(1) by (auto simp: bfs_inv_def)
  have levq: "lev' k = lev k" if "k \<in> set q" for k using that q(1) assms(4) by blast
  then have mapq: "map lev' q = map lev q" by simp
  have mapnew: "map lev' new = map (\<lambda>_. Suc (lev x)) new" using assms(5) by simp
  have "sorted (map lev' (q @ new))"
    using q(2,3) mapnew by (auto simp: sorted_append mapq map_replicate_const)
  moreover have "lev' k \<le> Suc (lev' (hd (q @ new)))" if "k \<in> set (q @ new)" for k
  proof -
    have "lev' k \<le> Suc (lev x)" using that q(3) assms(5) levq by auto
    moreover have "lev x \<le> lev' (hd (q @ new))"
    proof (cases q)
      case Nil
      with that have "hd (q @ new) \<in> set new" by (cases new) auto
      then show ?thesis using assms(5) by simp
    qed (use q(3) levq in auto)
    ultimately show ?thesis by simp
  qed
  moreover have "at_dist R a (lev' k) k \<and> lev' k \<le> bound" if "k \<in> seen \<union> set new" for k
  proof (cases "k \<in> seen")
    case True
    then show ?thesis using assms(1,4) by (simp add: bfs_inv_def)
  next
    case False
    with that assms(3) have "k \<in> set new" "(x, k) \<in> R" by auto
    then show ?thesis using bfs_new [OF assms(1,2) _ False] assms(2,5) by simp
  qed
  moreover have "R `` {k} \<subseteq> seen \<union> set new"
    if k: "k \<in> seen \<union> set new" "k \<notin> set (q @ new)" "lev' k < bound" for k
  proof (cases "k = x")
    case True
    then show ?thesis using assms(3) by auto
  next
    case False
    with k have "k \<in> seen" "k \<notin> set (x # q)" "lev k < bound" using assms(4) by auto
    then show ?thesis using assms(1) unfolding bfs_inv_def by blast
  qed
  ultimately show ?thesis using assms(1) q(1) unfolding bfs_inv_def by auto
qed

lemma bfs_end:
  assumes "bfs_inv R a bound seen lev []"
  shows "k \<in> seen \<and> lev k = n \<longleftrightarrow> at_dist R a n k \<and> n \<le> bound"
proof
  assume "at_dist R a n k \<and> n \<le> bound"
  moreover from this have "k \<in> seen" using bfs_seen [OF assms, of n k] by simp
  ultimately show "k \<in> seen \<and> lev k = n" using assms at_dist_unique unfolding bfs_inv_def by metis
qed (use assms in \<open>auto simp: bfs_inv_def\<close>)

section \<open>Neighbourhoods\<close>

definition follow_rel :: "trust_graph \<Rightarrow> (key \<times> key) set" where
  "follow_rel g = {(a, b). \<exists>e \<in> set g. ed_kind e = Follow \<and> ed_from_key e = a \<and> ed_to_key e = b}"

lemma follows_rel: "set (follows g a) = follow_rel g `` {a}"
  by (auto simp: follows_def follow_rel_def)

lemma get_fold_bt_insert:
  "bt_get (fold (\<lambda>k. bt_insert k (f k)) ks m) k = (if k \<in> set ks then Some (f k) else bt_get m k)"
  by (induction ks arbitrary: m) auto

text \<open>The state of the loop that computes distances.\<close>

definition nb_inv :: "trust_graph \<Rightarrow> key \<Rightarrow> u8 \<Rightarrow> (key \<times> u8) list \<Rightarrow> (key, u8) btree \<Rightarrow> key set \<Rightarrow> (key \<Rightarrow> nat) \<Rightarrow> bool" where
  "nb_inv g a hops q dist seen lev \<longleftrightarrow> bfs_inv (follow_rel g) a (unat hops) seen lev (map fst q) \<and>
     (\<forall>k. bt_get dist k = (if k \<in> seen - {a} then Some (of_nat (lev k)) else None)) \<and>
     (\<forall>(k, d) \<in> set q. d = of_nat (lev k))"

lemma level_byte:
  assumes "bfs_inv R a (unat (hops :: u8)) seen lev q" and "k \<in> seen"
  shows "unat (of_nat (lev k) :: u8) = lev k" "of_nat (lev k) = hops \<longleftrightarrow> lev k = unat hops"
proof -
  have "lev k \<le> unat hops" using assms by (auto simp: bfs_inv_def)
  then have "lev k < 2 ^ LENGTH(8)" using unsigned_less [of hops] by (rule le_less_trans)
  then show *: "unat (of_nat (lev k) :: u8) = lev k" by (simp add: unat_of_nat take_bit_nat_eq_self)
  then show "of_nat (lev k) = hops \<longleftrightarrow> lev k = unat hops" by (auto simp: word_unat_eq_iff)
qed

lemma neighborhood_loop_inv:
  "nb_inv g a hops q dist seen lev \<Longrightarrow>
     \<exists>seen' lev'. nb_inv g a hops [] (neighborhood_loop g hops q dist seen) seen' lev'"
proof (induction g hops q dist seen arbitrary: lev rule: neighborhood_loop.induct)
  case (2 g hops node d q dist seen)
  let ?R = "follow_rel g"
  have inv: "bfs_inv ?R a (unat hops) seen lev (node # map fst q)" and d: "d = of_nat (lev node)"
    and dist: "\<And>k. bt_get dist k = (if k \<in> seen - {a} then Some (of_nat (lev k)) else None)"
    and rest: "\<And>k d. (k, d) \<in> set q \<Longrightarrow> d = of_nat (lev k)"
    using "2.prems" by (auto simp: nb_inv_def)
  have node: "node \<in> seen" using inv by (simp add: bfs_inv_def)
  show ?case
  proof (cases "d = hops")
    case True
    then have "unat hops \<le> lev node" using level_byte [OF inv node] d by simp
    from bfs_skip [OF inv this] have "nb_inv g a hops q dist seen lev" using dist rest by (auto simp: nb_inv_def)
    with True "2.IH"(1) show ?thesis by simp
  next
    case False
    let ?new = "fresh (follows g node) seen"
    let ?lev = "\<lambda>k. if k \<in> set ?new then Suc (lev node) else lev k"
    have lt: "lev node < unat hops"
      using False level_byte [OF inv node] d inv node by (auto simp: bfs_inv_def order.order_iff_strict)
    have new: "set ?new = ?R `` {node} - seen" by (simp add: follows_rel)
    have "bfs_inv ?R a (unat hops) (seen \<union> set ?new) ?lev (map fst q @ ?new)"
      by (rule bfs_expand [OF inv lt new]) auto
    then have bfs: "bfs_inv ?R a (unat hops) (seen \<union> set (follows g node)) ?lev (map fst (q @ map (\<lambda>k. (k, d + 1)) ?new))"
      by (simp add: comp_def)
    have "a \<in> seen" and qs: "\<And>k d. (k, d) \<in> set q \<Longrightarrow> k \<in> seen" using inv by (auto simp: bfs_inv_def)
    then have "\<forall>k. bt_get (fold (\<lambda>k. bt_insert k (d + 1)) ?new dist) k =
        (if k \<in> (seen \<union> set (follows g node)) - {a} then Some (of_nat (?lev k)) else None)"
      and "\<forall>(k, d') \<in> set (q @ map (\<lambda>k. (k, d + 1)) ?new). d' = of_nat (?lev k)"
      by (auto simp: get_fold_bt_insert dist d dest: qs intro: rest)
    with bfs have "nb_inv g a hops (q @ map (\<lambda>k. (k, d + 1)) ?new) (fold (\<lambda>k. bt_insert k (d + 1)) ?new dist)
        (seen \<union> set (follows g node)) ?lev" unfolding nb_inv_def by blast
    then show ?thesis using "2.IH"(2) [OF False fold_reach_next [symmetric] refl] False
      by (simp add: fold_reach_next)
  qed
qed auto

lemma neighborhood_exact:
  "bt_get (follow_neighborhood g a hops) k = Some d \<longleftrightarrow>
     k \<noteq> a \<and> d \<le> hops \<and> at_dist (follow_rel g) a (unat d) k"
proof -
  have "nb_inv g a hops [(a, 0)] [] {a} (\<lambda>_. 0)" using bfs_start by (simp add: nb_inv_def)
  then obtain seen lev where inv: "nb_inv g a hops [] (follow_neighborhood g a hops) seen lev"
    unfolding follow_neighborhood_def by (blast dest: neighborhood_loop_inv)
  then have bfs: "bfs_inv (follow_rel g) a (unat hops) seen lev []"
    and get: "bt_get (follow_neighborhood g a hops) k = (if k \<in> seen - {a} then Some (of_nat (lev k)) else None)"
    by (simp_all add: nb_inv_def)
  have "bt_get (follow_neighborhood g a hops) k = Some d \<longleftrightarrow> k \<noteq> a \<and> k \<in> seen \<and> lev k = unat d"
    using level_byte(1) [OF bfs] by (auto simp: get)
  then show ?thesis using bfs_end [OF bfs, of k "unat d"] by (auto simp: word_le_nat_alt)
qed

text \<open>
  The follow neighbourhood is exact: it holds a key with a number of hops exactly when the key is not
  the root itself, the number is within the bound, and it is the length of a shortest chain of follow
  edges from the root to the key.
\<close>

lemma follow_neighborhood_exact:
  "bt_get (follow_neighborhood g a hops) k = Some d \<longleftrightarrow>
     k \<noteq> a \<and> d \<le> hops \<and> at_dist (follow_rel g) a (unat d) k"
  by (rule neighborhood_exact)

section \<open>Paths of the neighbourhood\<close>

definition path_inv :: "trust_graph \<Rightarrow> key \<Rightarrow> u8 \<Rightarrow> key list \<Rightarrow> (key, key list) btree \<Rightarrow> (key \<Rightarrow> nat) \<Rightarrow> bool" where
  "path_inv g a hops q paths lev \<longleftrightarrow> bfs_inv (follow_rel g) a (unat hops) (dom (bt_get paths)) lev q \<and> bt_wf paths \<and>
     (\<forall>k p. bt_get paths k = Some p \<longrightarrow> length p = Suc (lev k) \<and> hd p = a \<and> last p = k \<and>
        successively (\<lambda>x y. (x, y) \<in> follow_rel g) p)"

lemma bt_wf_fold: "bt_wf m \<Longrightarrow> bt_wf (fold (\<lambda>k. bt_insert k (f k)) ks m)"
  by (induction ks arbitrary: m) simp_all

lemma paths_loop_inv:
  "path_inv g a hops q paths lev \<Longrightarrow> \<exists>lev'. path_inv g a hops [] (paths_loop g hops q paths) lev'"
proof (induction g hops q paths arbitrary: lev rule: paths_loop.induct)
  case (2 g hops node q paths)
  let ?R = "follow_rel g"
  have inv: "bfs_inv ?R a (unat hops) (dom (bt_get paths)) lev (node # q)" and dis: "bt_wf paths"
    and paths: "\<And>k p. bt_get paths k = Some p \<Longrightarrow> length p = Suc (lev k) \<and> hd p = a \<and> last p = k \<and>
        successively (\<lambda>x y. (x, y) \<in> ?R) p"
    using "2.prems" by (auto simp: path_inv_def)
  have node: "node \<in> dom (bt_get paths)" using inv by (simp add: bfs_inv_def)
  then obtain p where p: "bt_get paths node = Some p" by blast
  have len: "of_nat (length p) - 1 = hops \<longleftrightarrow> lev node = unat hops"
    using paths [OF p] level_byte(2) [OF inv node] by simp
  show ?case
  proof (cases "lev node = unat hops")
    case True
    from bfs_skip [OF inv] True have "path_inv g a hops q paths lev" using paths dis by (simp add: path_inv_def)
    with True len p "2.IH"(1) [OF refl] show ?thesis by simp
  next
    case False
    let ?new = "fresh (follows g node) (dom (bt_get paths))"
    let ?lev = "\<lambda>k. if k \<in> set ?new then Suc (lev node) else lev k"
    let ?paths = "fold (\<lambda>k. bt_insert k (p @ [k])) ?new paths"
    have lt: "lev node < unat hops" using False inv node by (auto simp: bfs_inv_def order.order_iff_strict)
    have "bfs_inv ?R a (unat hops) (dom (bt_get paths) \<union> set ?new) ?lev (q @ ?new)"
      by (rule bfs_expand [OF inv lt]) (auto simp: follows_rel)
    then have "bfs_inv ?R a (unat hops) (dom (bt_get ?paths)) ?lev (q @ ?new)" by (simp only: dom_fold_bt_insert)
    moreover have "bt_wf ?paths" using dis by (rule bt_wf_fold)
    moreover have "length p' = Suc (?lev k) \<and> hd p' = a \<and> last p' = k \<and> successively (\<lambda>x y. (x, y) \<in> ?R) p'"
      if "bt_get ?paths k = Some p'" for k p'
    proof (cases "k \<in> set ?new")
      case True
      then have "p' = p @ [k]" "(node, k) \<in> ?R" using that by (auto simp: get_fold_bt_insert follows_rel)
      moreover have "p \<noteq> []" using paths [OF p] by auto
      ultimately show ?thesis using paths [OF p] True by (simp add: successively_append_iff)
    next
      case False
      with that have "bt_get paths k = Some p'" by (simp only: get_fold_bt_insert if_False)
      from paths [OF this] show ?thesis by (simp only: False if_False)
    qed
    ultimately have "path_inv g a hops (q @ ?new) ?paths ?lev" unfolding path_inv_def by blast
    then show ?thesis using "2.IH"(2) [OF refl _ fold_extend_path [symmetric]] False len p
      by (simp add: fold_extend_path)
  qed
qed auto

text \<open>
  The two searches of the follow graph agree: a key has a path within the bound exactly when it is in
  the neighbourhood, the path leads along follow edges from the root to the key, and it has as many hops
  as the distance says.
\<close>

lemma follow_paths_agree:
  "case bt_get (follow_paths g a hops) k of
     None \<Rightarrow> bt_get (follow_neighborhood g a hops) k = None
   | Some p \<Rightarrow> bt_get (follow_neighborhood g a hops) k = Some (of_nat (length p - 1)) \<and> length p - 1 \<le> unat hops \<and>
       hd p = a \<and> last p = k \<and> successively (\<lambda>x y. (x, y) \<in> follow_rel g) p"
proof -
  have "path_inv g a hops [a] (bt_insert a [a] []) (\<lambda>_. 0)" using bfs_start by (simp add: path_inv_def bt_wf_Cons)
  then obtain lev where inv: "path_inv g a hops [] (paths_loop g hops [a] (bt_insert a [a] [])) lev"
    by (blast dest: paths_loop_inv)
  let ?paths = "paths_loop g hops [a] (bt_insert a [a] [])"
  have bfs: "bfs_inv (follow_rel g) a (unat hops) (dom (bt_get ?paths)) lev []" and dis: "bt_wf ?paths"
    and paths: "\<And>k p. bt_get ?paths k = Some p \<Longrightarrow> length p = Suc (lev k) \<and> hd p = a \<and> last p = k \<and>
        successively (\<lambda>x y. (x, y) \<in> follow_rel g) p"
    using inv by (auto simp: path_inv_def)
  have get: "bt_get (follow_paths g a hops) k = (if k = a then None else bt_get ?paths k)"
    unfolding follow_paths_def using bt_get_filter [OF bt_wf_distinct [OF dis], of "\<lambda>k. k \<noteq> a"] by (simp add: restrict_map_def)
  show ?thesis
  proof (cases "bt_get (follow_paths g a hops) k")
    case None
    then have "k = a \<or> k \<notin> dom (bt_get ?paths)" by (auto simp: get split: if_splits)
    then have "bt_get (follow_neighborhood g a hops) k \<noteq> Some d" for d
      using bfs_end [OF bfs, of k "unat d"] by (auto simp: neighborhood_exact word_le_nat_alt)
    then have "bt_get (follow_neighborhood g a hops) k = None" by (cases "bt_get (follow_neighborhood g a hops) k") auto
    then show ?thesis by (simp add: None)
  next
    case (Some p)
    then have k: "k \<noteq> a" "bt_get ?paths k = Some p" by (simp_all add: get split: if_splits)
    note p = paths [OF k(2)]
    have at: "at_dist (follow_rel g) a (lev k) k" "lev k \<le> unat hops" using bfs k(2) by (auto simp: bfs_inv_def)
    moreover have "unat (of_nat (lev k) :: u8) = lev k" using level_byte(1) [OF bfs] k(2) by blast
    ultimately have "bt_get (follow_neighborhood g a hops) k = Some (of_nat (lev k))"
      using k(1) by (simp add: neighborhood_exact word_le_nat_alt)
    with p at Some show ?thesis by simp
  qed
qed

section \<open>Trust paths\<close>

definition trust_rel :: "trust_graph \<Rightarrow> (key \<times> key) set" where
  "trust_rel g = {(a, b). \<exists>e \<in> set g. ed_kind e \<in> {Follow, Vouch} \<and> ed_from_key e = a \<and> ed_to_key e = b}"

definition vouches :: "trust_graph \<Rightarrow> key \<Rightarrow> key \<Rightarrow> bool" where
  "vouches g a b \<longleftrightarrow> (\<exists>e \<in> set g. ed_kind e = Vouch \<and> ed_from_key e = a \<and> ed_to_key e = b)"

text \<open>Hops that lead from one key to another over edges of the graph, with the strongest kind at each.\<close>

fun hop_chain :: "trust_graph \<Rightarrow> key \<Rightarrow> trust_hop list \<Rightarrow> key \<Rightarrow> bool" where
  "hop_chain g a [] k \<longleftrightarrow> k = a"
| "hop_chain g a (h # hs) k \<longleftrightarrow> (a, th_key h) \<in> trust_rel g \<and>
     th_via h = (if vouches g a (th_key h) then Vouch else Follow) \<and> hop_chain g (th_key h) hs k"

lemma hop_chain_snoc:
  "hop_chain g a (hs @ [h]) k \<longleftrightarrow> (\<exists>j. hop_chain g a hs j \<and> (j, th_key h) \<in> trust_rel g \<and>
     th_via h = (if vouches g j (th_key h) then Vouch else Follow) \<and> k = th_key h)"
  by (induction hs arbitrary: a) auto

lemma neighbor_keys: "set (map fst (trust_neighbors g a)) = trust_rel g `` {a}"
  using keys_trust_neighbors [of g a] by (auto simp: trust_rel_def)

lemma neighbor_kind:
  assumes "(k, via) \<in> set (trust_neighbors g a)"
  shows "via = (if vouches g a k then Vouch else Follow)"
proof -
  define ok where "ok = (\<lambda>h best. bt_wf best \<and> (\<forall>k. bt_get best k =
      (if vouches h a k then Some Vouch else if (a, k) \<in> trust_rel h then Some Follow else None)))"
  have "ok (h @ g) (fold (note_neighbor a) g best)" if "ok h best" for h best
    using that
  proof (induction g arbitrary: h best)
    case (Cons e g)
    have "bt_wf (note_neighbor a e best)" using Cons.prems by (simp add: ok_def note_neighbor_def split: option.split)
    moreover have "bt_get (note_neighbor a e best) k = (if vouches (h @ [e]) a k then Some Vouch
        else if (a, k) \<in> trust_rel (h @ [e]) then Some Follow else None)" for k
    proof -
      have get: "bt_get best j = (if vouches h a j then Some Vouch else if (a, j) \<in> trust_rel h then Some Follow else None)" for j
        using Cons.prems by (simp add: ok_def)
      have v: "vouches (h @ [e]) a k \<longleftrightarrow> vouches h a k \<or> ed_kind e = Vouch \<and> ed_from_key e = a \<and> ed_to_key e = k"
        by (auto simp: vouches_def)
      have t: "(a, k) \<in> trust_rel (h @ [e]) \<longleftrightarrow> (a, k) \<in> trust_rel h \<or> ed_kind e \<in> {Follow, Vouch} \<and> ed_from_key e = a \<and> ed_to_key e = k"
        by (auto simp: trust_rel_def)
      show ?thesis unfolding v t note_neighbor_def by (cases "ed_kind e") (simp_all add: get)
    qed
    ultimately have "ok (h @ [e]) (note_neighbor a e best)" by (simp add: ok_def)
    from Cons.IH [OF this] show ?case by simp
  qed simp
  from this [of "[]" "[]"] have "ok g (trust_neighbors g a)"
    by (simp add: ok_def trust_neighbors_def vouches_def trust_rel_def)
  moreover from this have "distinct (map fst (trust_neighbors g a))" by (simp add: ok_def bt_wf_distinct)
  then have "bt_get (trust_neighbors g a) k = Some via" using assms by (simp only: map_of_eq_Some_iff)
  ultimately show ?thesis by (auto simp: ok_def split: if_splits)
qed

lemma scan_hops_found:
  "scan_hops t p ns paths q = Inl p' \<Longrightarrow> \<exists>via. (t, via) \<in> set ns \<and> p' = p @ [\<lparr>th_key = t, th_via = via\<rparr>]"
  by (induction t p ns paths q rule: scan_hops.induct) (auto simp: Let_def split: if_splits)

lemma scan_hops_paths:
  "scan_hops t p ns paths q = Inr (paths', q') \<Longrightarrow> bt_get paths' k = Some p' \<Longrightarrow>
     bt_get paths k = Some p' \<or>
     bt_get paths k = None \<and> k \<noteq> t \<and> (\<exists>via. (k, via) \<in> set ns \<and> p' = p @ [\<lparr>th_key = k, th_via = via\<rparr>])"
proof (induction t p ns paths q rule: scan_hops.induct)
  case (2 t p j via ns paths q)
  then show ?case by (cases "bt_get paths j"; cases "j = t") (auto simp: Let_def split: if_splits)
qed simp

text \<open>
  The state of the loop; the target has not been seen, for the search returns when it sees it.
\<close>

definition hop_inv :: "trust_graph \<Rightarrow> key \<Rightarrow> key \<Rightarrow> u8 \<Rightarrow> key list \<Rightarrow> (key, trust_hop list) btree \<Rightarrow> bool" where
  "hop_inv g a t m q paths \<longleftrightarrow> bt_get paths t = None \<and>
     bfs_inv (trust_rel g) a (unat m) (dom (bt_get paths)) (\<lambda>k. length (the (bt_get paths k))) q \<and>
     (\<forall>k p. bt_get paths k = Some p \<longrightarrow> hop_chain g a p k)"

abbreviation shortest_path :: "trust_graph \<Rightarrow> key \<Rightarrow> key \<Rightarrow> u8 \<Rightarrow> trust_hop list option \<Rightarrow> bool" where
  "shortest_path g a t m r \<equiv> (case r of
     None \<Rightarrow> (\<forall>n \<le> unat m. (a, t) \<notin> trust_rel g ^^ n)
   | Some p \<Rightarrow> hop_chain g a p t \<and> length p \<le> unat m \<and> at_dist (trust_rel g) a (length p) t)"

lemma trust_loop_shortest: "hop_inv g a t m q paths \<Longrightarrow> shortest_path g a t m (trust_loop g t m q paths)"
proof (induction g t m q paths rule: trust_loop.induct)
  case (1 g t m paths)
  let ?lev = "\<lambda>k. length (the (bt_get paths k))"
  have bfs: "bfs_inv (trust_rel g) a (unat m) (dom (bt_get paths)) ?lev []" and t: "t \<notin> dom (bt_get paths)"
    using "1.prems" by (auto simp: hop_inv_def)
  have "(a, t) \<notin> trust_rel g ^^ n" if "n \<le> unat m" for n
  proof
    assume "(a, t) \<in> trust_rel g ^^ n"
    then obtain l where "l \<le> n" "at_dist (trust_rel g) a l t" using at_dist_le by metis
    with that t bfs_end [OF bfs, of t l] show False by auto
  qed
  then show ?case by simp
next
  case (2 g t m node q paths)
  let ?R = "trust_rel g" and ?lev = "\<lambda>k. length (the (bt_get paths k))"
  let ?ns = "trust_neighbors g node"
  have inv: "bfs_inv ?R a (unat m) (dom (bt_get paths)) ?lev (node # q)" and t: "bt_get paths t = None"
    and chains: "\<And>k p. bt_get paths k = Some p \<Longrightarrow> hop_chain g a p k"
    using "2.prems" by (auto simp: hop_inv_def)
  have node: "node \<in> dom (bt_get paths)" using inv by (simp add: bfs_inv_def)
  then obtain p where p: "bt_get paths node = Some p" by blast
  have len: "of_nat (length p) = m \<longleftrightarrow> ?lev node = unat m"
    using level_byte(2) [OF inv node] p by simp
  have new_hop: "hop_chain g a (p @ [\<lparr>th_key = k, th_via = via\<rparr>]) k" "(node, k) \<in> ?R" if "(k, via) \<in> set ?ns" for k via
  proof -
    show "(node, k) \<in> ?R" using that neighbor_keys [of g node] by force
    then show "hop_chain g a (p @ [\<lparr>th_key = k, th_via = via\<rparr>]) k"
      using chains [OF p] neighbor_kind [OF that] by (auto simp: hop_chain_snoc)
  qed
  show ?case
  proof (cases "?lev node = unat m")
    case True
    with bfs_skip [OF inv] have "hop_inv g a t m q paths" using t chains by (simp add: hop_inv_def)
    with True len p "2.IH"(1) [OF refl] show ?thesis by simp
  next
    case False
    have lt: "?lev node < unat m" using False inv node by (auto simp: bfs_inv_def order.order_iff_strict)
    show ?thesis
    proof (cases "scan_hops t p ?ns paths q")
      case (Inl p')
      then obtain via where via: "(t, via) \<in> set ?ns" "p' = p @ [\<lparr>th_key = t, th_via = via\<rparr>]"
        using scan_hops_found by blast
      have "at_dist ?R a (Suc (?lev node)) t" using bfs_new [OF inv lt new_hop(2) [OF via(1)]] t by blast
      with new_hop(1) [OF via(1)] via(2) lt p have "shortest_path g a t m (Some p')" by simp
      then show ?thesis using False len p Inl by simp
    next
      case (Inr r)
      obtain paths' q' where "r = (paths', q')" by (cases r)
      with Inr have scan: "scan_hops t p ?ns paths q = Inr (paths', q')" by simp
      let ?new = "fresh (map fst ?ns) (dom (bt_get paths))"
      have q': "q' = q @ ?new" and dom: "dom (bt_get paths') = dom (bt_get paths) \<union> set ?new"
        using scan_hops_Inr [OF scan] by auto
      have old: "bt_get paths' k = bt_get paths k" if "k \<in> dom (bt_get paths)" for k
        using scan_hops_paths [OF scan, of k] dom that by (cases "bt_get paths' k") auto
      have fresh_path: "\<exists>via. (k, via) \<in> set ?ns \<and> bt_get paths' k = Some (p @ [\<lparr>th_key = k, th_via = via\<rparr>]) \<and> k \<noteq> t"
        if "k \<in> dom (bt_get paths')" "k \<notin> dom (bt_get paths)" for k
        using that scan_hops_paths [OF scan, of k] by auto
      have new: "set ?new = ?R `` {node} - dom (bt_get paths)" using neighbor_keys [of g node] by simp
      have "bfs_inv ?R a (unat m) (dom (bt_get paths) \<union> set ?new) (\<lambda>k. length (the (bt_get paths' k))) (q @ ?new)"
      proof (rule bfs_expand [OF inv lt new])
        show "length (the (bt_get paths' k)) = ?lev k" if "k \<in> dom (bt_get paths)" for k using old [OF that] by simp
        show "length (the (bt_get paths' k)) = Suc (?lev node)" if "k \<in> set ?new" for k
          using fresh_path [of k] that dom p by auto
      qed
      moreover have "hop_chain g a p' k" if "bt_get paths' k = Some p'" for k p'
        using old [of k] fresh_path [of k] that chains new_hop(1) by (cases "k \<in> dom (bt_get paths)") (auto simp: domIff)
      moreover have "bt_get paths' t = None" using fresh_path [of t] t by (cases "bt_get paths' t") (auto simp: domIff)
      ultimately have "hop_inv g a t m q' paths'" by (simp add: hop_inv_def q' dom)
      then show ?thesis using "2.IH"(2) [OF refl, of "(paths', q')" paths' q'] False len p scan by simp
    qed
  qed
qed

lemma trust_path_is_shortest: "shortest_path g a t m (trust_path g a t m)"
proof (cases "a = t")
  case False
  have "hop_inv g a t m [a] (bt_insert a [] [])" using bfs_start False by (simp add: hop_inv_def bfs_inv_def)
  from trust_loop_shortest [OF this] show ?thesis unfolding trust_path_def by (simp only: False if_False)
qed (simp add: trust_path_def)

text \<open>
  C21. A trust path is genuine and shortest: its hops lead from the root to the target over follow and
  vouch edges of the graph, each marked with the strongest kind of edge there is; it has no more hops
  than the bound, and there is no shorter chain. When no path is returned, no chain within the bound exists.
\<close>

theorem trust_path_shortest:
  "case trust_path g a t m of
     None \<Rightarrow> \<forall>n \<le> unat m. (a, t) \<notin> trust_rel g ^^ n
   | Some p \<Rightarrow> hop_chain g a p t \<and> length p \<le> unat m \<and> at_dist (trust_rel g) a (length p) t"
  by (rule trust_path_is_shortest)

theorem trust_path_shortest_witness:
  "let step = (\<lambda>a b. \<lparr>ed_from_key = [a], ed_to_key = [b], ed_kind = Follow, ed_petname = None, ed_seq = 1, ed_sig = []\<rparr>);
       g = [step 1 2, step 2 3, step 1 4, step 4 2] in
   \<exists>p. trust_path g [1] [3] 6 = Some p \<and> hop_chain g [1] p [3] \<and> at_dist (trust_rel g) [1] 2 [3]"
proof -
  define step where "step = (\<lambda>a b. \<lparr>ed_from_key = [a], ed_to_key = [b], ed_kind = Follow, ed_petname = None, ed_seq = 1, ed_sig = []\<rparr>)"
  let ?g = "[step 1 2, step 2 3, step 1 4, step 4 2]"
  have "trust_path ?g [1] [3] 6 = Some [\<lparr>th_key = [2], th_via = Follow\<rparr>, \<lparr>th_key = [3], th_via = Follow\<rparr>]"
    unfolding step_def by code_simp
  with trust_path_shortest [where g = ?g and a = "[1]" and t = "[3]" and m = 6] show ?thesis by (simp add: step_def [symmetric] numeral_2_eq_2)
qed

end
