(* ===== verification/Search_Laws.thy ===== *)
theory Search_Laws
  imports Trust_Laws "HOL-Library.Multiset"
begin

text \<open>
  The search a relay runs on its corpus, against what a client does with the answer: the selection is part
  of the corpus, it has every matching profile, and it has every edge on a chain within the bound that ends
  in a match. Hence a client that ranks strangers over the selection finds the same people at the same
  distances as over the whole corpus.
\<close>

section \<open>Reverse search\<close>

definition into_rel :: "trust_edge list \<Rightarrow> (key \<times> key) set" where
  "into_rel es = {(b, a). \<exists>e \<in> set es. ed_to_key e = b \<and> ed_from_key e = a}"

lemma edges_of_append [simp]: "edges_of (xs @ ys) = edges_of xs @ edges_of ys"
  by (induction xs rule: edges_of.induct) auto

lemma profiles_of_append [simp]: "profiles_of (xs @ ys) = profiles_of xs @ profiles_of ys"
  by (induction xs rule: profiles_of.induct) auto

lemma incoming_get:
  "bt_get (incoming_edges es) k = (if filter (\<lambda>e. ed_to_key e = k) es = [] then None else Some (filter (\<lambda>e. ed_to_key e = k) es))"
  unfolding incoming_edges_def
proof (induction es rule: rev_induct)
  case (snoc e es)
  then show ?case by auto
qed simp

lemma into_rel_incoming: "set (map ed_from_key (filter (\<lambda>e. ed_to_key e = k) es)) = into_rel es `` {k}"
  by (auto simp: into_rel_def)

text \<open>A selection is consistent: its ids are those of its edges, which are edges of the corpus.\<close>

definition consistent :: "ocodec \<Rightarrow> trust_edge list \<Rightarrow> selection \<Rightarrow> bool" where
  "consistent C es sel \<longleftrightarrow> snd sel = edge_id C ` set (edges_of (fst sel)) \<and> set (edges_of (fst sel)) \<subseteq> set es"

lemma keep_edges_result:
  assumes "consistent C es sel" and "set ns \<subseteq> set es"
  shows "consistent C es (keep_edges C ns sel) \<and> profiles_of (fst (keep_edges C ns sel)) = profiles_of (fst sel) \<and>
    snd (keep_edges C ns sel) = snd sel \<union> edge_id C ` set ns"
  using assms
proof (induction C ns sel rule: keep_edges.induct)
  case (2 C e ns out ball)
  let ?sel = "if edge_id C e \<in> ball then (out, ball) else (out @ [CTrustEdge e], insert (edge_id C e) ball)"
  have "consistent C es ?sel" using "2.prems" by (auto simp: consistent_def)
  from "2.IH" [OF this] "2.prems" show ?case by auto
qed simp

definition ball_inv :: "ocodec \<Rightarrow> trust_edge list \<Rightarrow> key \<Rightarrow> u8 \<Rightarrow> (key \<times> u8) list \<Rightarrow> key set \<Rightarrow> selection \<Rightarrow> (key \<Rightarrow> nat) \<Rightarrow> bool" where
  "ball_inv C es a m q visited sel lev \<longleftrightarrow> bfs_inv (into_rel es) a (unat m) visited lev (map fst q) \<and>
     (\<forall>(k, d) \<in> set q. d = of_nat (lev k)) \<and> consistent C es sel \<and>
     (\<forall>k \<in> visited. k \<notin> fst ` set q \<longrightarrow> lev k < unat m \<longrightarrow> (\<forall>e \<in> set es. ed_to_key e = k \<longrightarrow> edge_id C e \<in> snd sel))"

lemma ball_loop_inv:
  assumes "ball_inv C es a m q visited sel lev"
  shows "\<exists>visited' lev'. ball_inv C es a m [] visited' (ball_loop C (incoming_edges es) m q visited sel) lev' \<and>
    profiles_of (fst (ball_loop C (incoming_edges es) m q visited sel)) = profiles_of (fst sel) \<and>
    snd sel \<subseteq> snd (ball_loop C (incoming_edges es) m q visited sel)"
  using assms
proof (induction C "incoming_edges es" m q visited sel arbitrary: lev rule: ball_loop.induct)
  case (2 C m node d q visited sel)
  let ?R = "into_rel es" and ?preds = "filter (\<lambda>e. ed_to_key e = node) es"
  have inv: "bfs_inv ?R a (unat m) visited lev (node # map fst q)" and d: "d = of_nat (lev node)"
    and rest: "\<And>k d. (k, d) \<in> set q \<Longrightarrow> d = of_nat (lev k)" and cons: "consistent C es sel"
    and ball: "\<And>k e. k \<in> visited \<Longrightarrow> k \<notin> insert node (fst ` set q) \<Longrightarrow> lev k < unat m \<Longrightarrow> e \<in> set es \<Longrightarrow>
      ed_to_key e = k \<Longrightarrow> edge_id C e \<in> snd sel"
    using "2.prems" by (auto simp: ball_inv_def)
  have node: "node \<in> visited" and qs: "\<And>k d. (k, d) \<in> set q \<Longrightarrow> k \<in> visited" using inv by (auto simp: bfs_inv_def)
  have d_nat: "unat d = lev node" using level_byte(1) [OF inv node] d by simp
  show ?case
  proof (cases "m \<le> d")
    case True
    then have "unat m \<le> lev node" by (simp add: word_le_nat_alt d_nat)
    from bfs_skip [OF inv this] this have "ball_inv C es a m q visited sel lev"
      using rest cons ball by (fastforce simp: ball_inv_def)
    with True "2.hyps"(1) show ?thesis by simp
  next
    case False
    then have lt: "lev node < unat m" by (simp add: word_le_nat_alt d_nat)
    let ?new = "fresh (map ed_from_key ?preds) visited" and ?sel = "keep_edges C ?preds sel"
    let ?lev = "\<lambda>k. if k \<in> set ?new then Suc (lev node) else lev k"
    let ?q = "q @ map (\<lambda>k. (k, d + 1)) ?new" and ?vis = "visited \<union> set (map ed_from_key ?preds)"
    have kept: "consistent C es ?sel" "profiles_of (fst ?sel) = profiles_of (fst sel)" "snd ?sel = snd sel \<union> edge_id C ` set ?preds"
      using keep_edges_result [OF cons, of ?preds] by auto
    have "bfs_inv ?R a (unat m) (visited \<union> set ?new) ?lev (map fst q @ ?new)"
      by (rule bfs_expand [OF inv lt]) (auto simp: into_rel_def)
    then have bfs: "bfs_inv ?R a (unat m) ?vis ?lev (map fst ?q)" by (simp add: comp_def)
    have step: "ball_inv C es a m ?q ?vis ?sel ?lev"
      unfolding ball_inv_def
    proof (intro conjI ballI impI)
      show "case x of (k, d) \<Rightarrow> d = of_nat (?lev k)" if "x \<in> set ?q" for x
        using that by (auto simp: d dest: qs intro: rest)
      show "edge_id C e \<in> snd ?sel"
        if "k \<in> ?vis" "k \<notin> fst ` set ?q" "?lev k < unat m" "e \<in> set es" "ed_to_key e = k" for k e
      proof (cases "k = node")
        case True
        then show ?thesis using that kept(3) by auto
      next
        case False
        with that have "k \<in> visited" "k \<notin> insert node (fst ` set q)" "lev k < unat m" by (auto simp: image_Un image_image)
        then show ?thesis using ball that kept(3) by blast
      qed
    qed (use bfs kept in auto)
    show ?thesis
    proof (cases "?preds = []")
      case True
      then have "?sel = sel" "?q = q" "?vis = visited" by simp_all
      with step have "ball_inv C es a m q visited sel ?lev" by (simp only:)
      moreover have "bt_get (incoming_edges es) node = None" unfolding incoming_get True by simp
      ultimately show ?thesis using False "2.hyps"(2) by simp
    next
      case pr: False
      then have "bt_get (incoming_edges es) node = Some ?preds" by (simp only: incoming_get if_False)
      moreover from "2.hyps"(3) [OF False this fold_take_edge [symmetric] refl, of ?lev] step
      have "\<exists>visited' lev'. ball_inv C es a m [] visited' (ball_loop C (incoming_edges es) m ?q ?vis ?sel) lev' \<and>
        profiles_of (fst (ball_loop C (incoming_edges es) m ?q ?vis ?sel)) = profiles_of (fst ?sel) \<and>
        snd ?sel \<subseteq> snd (ball_loop C (incoming_edges es) m ?q ?vis ?sel)" by simp
      ultimately show ?thesis using False kept by (simp add: fold_take_edge)
    qed
  qed
qed auto

section \<open>What is selected\<close>

definition covered :: "ocodec \<Rightarrow> trust_edge list \<Rightarrow> u8 \<Rightarrow> profile \<Rightarrow> oid set \<Rightarrow> bool" where
  "covered C es m p ball \<longleftrightarrow> (\<forall>n k. (pf_key p, k) \<in> into_rel es ^^ n \<longrightarrow> n < unat m \<longrightarrow>
     (\<forall>e \<in> set es. ed_to_key e = k \<longrightarrow> edge_id C e \<in> ball))"

lemma one_ball:
  assumes "consistent C es sel"
  shows "consistent C es (ball_loop C (incoming_edges es) m [(pf_key p, 0)] {pf_key p} sel) \<and>
    profiles_of (fst (ball_loop C (incoming_edges es) m [(pf_key p, 0)] {pf_key p} sel)) = profiles_of (fst sel) \<and>
    snd sel \<subseteq> snd (ball_loop C (incoming_edges es) m [(pf_key p, 0)] {pf_key p} sel) \<and>
    covered C es m p (snd (ball_loop C (incoming_edges es) m [(pf_key p, 0)] {pf_key p} sel))"
proof -
  let ?r = "ball_loop C (incoming_edges es) m [(pf_key p, 0)] {pf_key p} sel"
  have "ball_inv C es (pf_key p) m [(pf_key p, 0)] {pf_key p} sel (\<lambda>_. 0)"
    using assms bfs_start by (simp add: ball_inv_def)
  then obtain visited lev where inv: "ball_inv C es (pf_key p) m [] visited ?r lev"
    and rest: "profiles_of (fst ?r) = profiles_of (fst sel)" "snd sel \<subseteq> snd ?r"
    using ball_loop_inv by blast
  have "edge_id C e \<in> snd ?r" if k: "(pf_key p, k) \<in> into_rel es ^^ n" "n < unat m" "e \<in> set es" "ed_to_key e = k" for n k e
  proof -
    obtain l where "l \<le> n" "at_dist (into_rel es) (pf_key p) l k" using at_dist_le [OF k(1)] by blast
    with k(2) have "k \<in> visited" "lev k < unat m"
      using bfs_end [of "into_rel es" "pf_key p" "unat m" visited lev k l] inv by (auto simp: ball_inv_def)
    then show ?thesis using inv k(3,4) by (auto simp: ball_inv_def)
  qed
  then show ?thesis using inv rest by (auto simp: ball_inv_def covered_def)
qed

lemma search_ball_result:
  assumes out_def: "out = search_ball C corpus term m"
  shows "profiles_of out = filter (\<lambda>p. profile_matches p term) (profiles_of corpus)"
    and "set (edges_of out) \<subseteq> set (edges_of corpus)"
    and "p \<in> set (profiles_of corpus) \<Longrightarrow> profile_matches p term \<Longrightarrow>
      covered C (edges_of corpus) m p (edge_id C ` set (edges_of out))"
proof -
  let ?es = "edges_of corpus"
  let ?step = "\<lambda>p (out, ball). if profile_matches p term
      then ball_loop C (incoming_edges ?es) m [(pf_key p, 0)] {pf_key p} (out @ [CProfile p], ball) else (out, ball)"
  define ok where "ok = (\<lambda>ps sel. consistent C ?es sel \<and> profiles_of (fst sel) = filter (\<lambda>p. profile_matches p term) ps \<and>
      (\<forall>p \<in> set ps. profile_matches p term \<longrightarrow> covered C ?es m p (snd sel)))"
  have "ok ps (fold ?step ps ([], {}))" for ps
  proof (induction ps rule: rev_induct)
    case Nil
    show ?case by (simp add: ok_def consistent_def)
  next
    case (snoc p ps)
    obtain out ball where sel: "fold ?step ps ([], {}) = (out, ball)" by fastforce
    show ?case
    proof (cases "profile_matches p term")
      case True
      let ?sel = "(out @ [CProfile p], ball)"
      have "consistent C ?es ?sel" using snoc sel by (simp add: ok_def consistent_def)
      define r where "r = ball_loop C (incoming_edges ?es) m [(pf_key p, 0)] {pf_key p} ?sel"
      have "consistent C ?es r" "profiles_of (fst r) = profiles_of (out @ [CProfile p])" "ball \<subseteq> snd r" "covered C ?es m p (snd r)"
        using one_ball [OF \<open>consistent C ?es ?sel\<close>, of m p] unfolding r_def by simp_all
      moreover have "covered C ?es m p' (snd r)" if "p' \<in> set ps" "profile_matches p' term" for p'
        using snoc sel that \<open>ball \<subseteq> snd r\<close> unfolding ok_def covered_def by fastforce
      moreover have "fold ?step (ps @ [p]) ([], {}) = r" unfolding r_def by (simp only: fold_append fold_simps comp_def sel True prod.case if_True)
      ultimately show ?thesis using snoc sel True by (simp add: ok_def)
    qed (use snoc sel in \<open>auto simp: ok_def\<close>)
  qed
  then have "ok (profiles_of corpus) (fold ?step (profiles_of corpus) ([], {}))" .
  moreover obtain out' ball where sel: "fold ?step (profiles_of corpus) ([], {}) = (out', ball)" by fastforce
  moreover have "out = out'" unfolding out_def search_ball_def Let_def sel by simp
  ultimately have "ok (profiles_of corpus) (out, ball)" by simp
  then show "profiles_of out = filter (\<lambda>p. profile_matches p term) (profiles_of corpus)"
    "set (edges_of out) \<subseteq> set (edges_of corpus)"
    "p \<in> set (profiles_of corpus) \<Longrightarrow> profile_matches p term \<Longrightarrow>
      covered C (edges_of corpus) m p (edge_id C ` set (edges_of out))"
    by (auto simp: ok_def consistent_def)
qed

section \<open>Nothing is lost\<close>

lemma trust_rel_append: "trust_rel (xs @ ys) = trust_rel xs \<union> trust_rel ys"
  by (auto simp: trust_rel_def)

lemma trust_into: "(a, b) \<in> trust_rel es \<Longrightarrow> (b, a) \<in> into_rel es"
  by (auto simp: trust_rel_def into_rel_def)

text \<open>
  A chain within the bound from the root to a match uses edges of the selection only, apart from those the
  client has itself: past the first step it cannot pass through the root again.
\<close>

lemma chain_selected:
  assumes own: "\<forall>e \<in> set own. ed_from_key e = a" and inj: "inj_on (edge_id C) (set es)" and sub: "set sel \<subseteq> set es"
    and cov: "covered C es m p (edge_id C ` set sel)"
    and short: "at_dist (trust_rel (own @ es)) a (j + l) (pf_key p)" and bound: "j + l \<le> unat m" "0 < j"
    and ax: "(a, x) \<in> trust_rel (own @ es) ^^ j" and "(x, pf_key p) \<in> trust_rel (own @ es) ^^ l"
  shows "(x, pf_key p) \<in> trust_rel (own @ sel) ^^ l \<and> (pf_key p, x) \<in> into_rel es ^^ l"
  using short bound ax assms(9)
proof (induction l arbitrary: j x)
  case (Suc l)
  let ?R = "trust_rel (own @ es)"
  obtain y where y: "(x, y) \<in> ?R" "(y, pf_key p) \<in> ?R ^^ l" using Suc.prems(5) by (rule relpow_Suc_E2)
  have "(a, y) \<in> ?R ^^ Suc j" using Suc.prems(4) y(1) by auto
  then have IH: "(y, pf_key p) \<in> trust_rel (own @ sel) ^^ l" "(pf_key p, y) \<in> into_rel es ^^ l"
    using Suc.IH [of "Suc j" y] Suc.prems(1,2) y(2) by simp_all
  have "x \<noteq> a"
  proof
    assume "x = a"
    then have "(a, pf_key p) \<in> ?R ^^ Suc l" using Suc.prems(5) by simp
    moreover have "Suc l < j + Suc l" using Suc.prems(3) by simp
    ultimately show False using Suc.prems(1) unfolding at_dist_def by blast
  qed
  with y(1) own obtain e where e: "e \<in> set es" "ed_kind e \<in> {Follow, Vouch}" "ed_from_key e = x" "ed_to_key e = y"
    by (auto simp: trust_rel_def)
  have "l < unat m" using Suc.prems(2,3) by simp
  with cov IH(2) e have "edge_id C e \<in> edge_id C ` set sel" unfolding covered_def by blast
  with inj sub e(1) have "e \<in> set sel" by (auto dest: inj_onD)
  with e have "(x, y) \<in> trust_rel (own @ sel)" by (auto simp: trust_rel_def)
  from relpow_Suc_I2 [OF this IH(1)] have "(x, pf_key p) \<in> trust_rel (own @ sel) ^^ Suc l" .
  moreover have "(y, x) \<in> into_rel es" using e by (auto simp: into_rel_def)
  with IH(2) have "(pf_key p, x) \<in> into_rel es ^^ Suc l" by auto
  ultimately show ?case by blast
qed simp

lemma distance_kept:
  assumes own: "\<forall>e \<in> set own. ed_from_key e = a" and inj: "inj_on (edge_id C) (set es)" and sub: "set sel \<subseteq> set es"
    and cov: "covered C es m p (edge_id C ` set sel)" and n: "n \<le> unat m"
  shows "at_dist (trust_rel (own @ sel)) a n (pf_key p) \<longleftrightarrow> at_dist (trust_rel (own @ es)) a n (pf_key p)"
proof -
  let ?R = "trust_rel (own @ es)" and ?S = "trust_rel (own @ sel)"
  have "?S \<subseteq> ?R" using sub by (auto simp: trust_rel_def)
  then have mono: "(x, y) \<in> ?S ^^ k \<Longrightarrow> (x, y) \<in> ?R ^^ k" for x y k
    by (induction k arbitrary: y) auto
  have reach: "(a, pf_key p) \<in> ?S ^^ k" if k: "at_dist ?R a k (pf_key p)" "k \<le> unat m" for k
  proof (cases k)
    case (Suc l)
    obtain y where y: "(a, y) \<in> ?R" "(y, pf_key p) \<in> ?R ^^ l"
      using k(1) unfolding at_dist_def Suc by (blast elim: relpow_Suc_E2)
    then have chain: "(y, pf_key p) \<in> ?S ^^ l \<and> (pf_key p, y) \<in> into_rel es ^^ l"
      using chain_selected [OF own inj sub cov, of 1 l y] k Suc by simp
    have "(a, y) \<in> ?S"
    proof (cases "(a, y) \<in> trust_rel own")
      case False
      with y(1) obtain e where e: "e \<in> set es" "ed_kind e \<in> {Follow, Vouch}" "ed_from_key e = a" "ed_to_key e = y"
        by (auto simp: trust_rel_def)
      with cov chain k(2) Suc have "edge_id C e \<in> edge_id C ` set sel" unfolding covered_def by auto
      with inj sub e(1) have "e \<in> set sel" by (auto dest: inj_onD)
      with e show ?thesis by (auto simp: trust_rel_def)
    qed (simp add: trust_rel_append)
    with chain show ?thesis unfolding Suc using relpow_Suc_I2 by metis
  qed (use k in simp)
  show ?thesis
  proof
    assume S: "at_dist ?S a n (pf_key p)"
    then obtain k where k: "k \<le> n" "at_dist ?R a k (pf_key p)" using at_dist_le mono unfolding at_dist_def by metis
    then have "(a, pf_key p) \<in> ?S ^^ k" using reach n by simp
    with S k(1) have "k = n" unfolding at_dist_def by (metis le_neq_implies_less)
    with k show "at_dist ?R a n (pf_key p)" by simp
  next
    assume "at_dist ?R a n (pf_key p)"
    then show "at_dist ?S a n (pf_key p)" using reach n mono unfolding at_dist_def by blast
  qed
qed

lemma path_length_iff: "map_option length (trust_path g a t m) = Some n \<longleftrightarrow> at_dist (trust_rel g) a n t \<and> n \<le> unat m"
proof (cases "trust_path g a t m")
  case None
  then show ?thesis using trust_path_is_shortest [where g = g and a = a and t = t and m = m] by (auto simp: at_dist_def)
next
  case (Some p)
  then have "at_dist (trust_rel g) a (length p) t" "length p \<le> unat m" using trust_path_is_shortest [where g = g and a = a and t = t and m = m] by simp_all
  then show ?thesis using Some at_dist_unique by fastforce
qed

lemma option_ext: "(\<And>v. x = Some v \<longleftrightarrow> y = Some v) \<Longrightarrow> x = y"
  by (cases x; cases y) auto

abbreviation hit_view :: "stranger_hit \<Rightarrow> key \<times> string \<times> nat option" where
  "hit_view h \<equiv> (sh_key h, sh_display_name h, sh_hops h)"

lemma rank_view:
  "image_mset hit_view (mset (rank_strangers C a own corpus term m)) =
     mset (map (\<lambda>p. (pf_key p, pf_display_name p, map_option length (trust_path (own @ edges_of corpus) a (pf_key p) m)))
       (filter (\<lambda>p. profile_matches p term) (profiles_of corpus)))"
  by (simp add: rank_strangers_def Let_def multiset.map_comp comp_def)

lemma search_ranks_same:
  assumes "\<forall>e \<in> set own. ed_from_key e = self" and "inj_on (edge_id C) (set (edges_of corpus))"
  shows "image_mset hit_view (mset (rank_strangers C self own (search_ball C corpus term m) term m)) =
      image_mset hit_view (mset (rank_strangers C self own corpus term m))"
proof -
  let ?sel = "search_ball C corpus term m"
  note sel = search_ball_result [OF refl [of ?sel]]
  have "map_option length (trust_path (own @ edges_of ?sel) self (pf_key p) m) =
      map_option length (trust_path (own @ edges_of corpus) self (pf_key p) m)"
    if "p \<in> set (profiles_of corpus)" "profile_matches p term" for p
    using distance_kept [OF assms sel(2) sel(3) [OF that]] by (intro option_ext) (simp only: path_length_iff, blast)
  then show ?thesis unfolding rank_view using sel(1,2) by (auto intro!: image_mset_cong)
qed

lemma search_ball_sub: "set (search_ball C corpus term m) \<subseteq> set corpus"
proof -
  let ?sel = "search_ball C corpus term m"
  note sel = search_ball_result [OF refl [of ?sel]]
  have mem: "CProfile p \<in> set xs \<longleftrightarrow> p \<in> set (profiles_of xs)" "CTrustEdge e \<in> set xs \<longleftrightarrow> e \<in> set (edges_of xs)" for p e xs
    by (induction xs rule: edges_of.induct) auto
  have "set (profiles_of ?sel) \<subseteq> set (profiles_of corpus)" by (simp add: sel(1))
  with sel(2) have "obj \<in> set corpus" if "obj \<in> set ?sel" for obj
    using that by (cases obj) (simp only: mem, blast)+
  then show ?thesis by blast
qed

text \<open>
  Search on a relay loses nothing. Let a client rank strangers over its own edges and what the relay
  selects for a term and a bound: it gets the same people, with the same names and at the same number of
  hops, as over its own edges and the whole corpus of the relay. The selection is part of the corpus.
\<close>

lemma search_loses_nothing:
  assumes "\<forall>e \<in> set own. ed_from_key e = self" and "inj_on (edge_id C) (set (edges_of corpus))"
  shows "image_mset hit_view (mset (rank_strangers C self own (search_ball C corpus term m) term m)) =
      image_mset hit_view (mset (rank_strangers C self own corpus term m)) \<and>
    set (search_ball C corpus term m) \<subseteq> set corpus"
  using search_ranks_same [OF assms] search_ball_sub by blast

section \<open>Instance\<close>

text \<open>A relay that knows ada, who follows bob; the client follows ada.\<close>

definition bob_profile :: profile where
  "bob_profile = \<lparr>pf_key = [3], pf_display_name = ''bob'', pf_bio = [], pf_endpoints = [], pf_dns_aliases = [], pf_seq = 1, pf_sig = []\<rparr>"

definition follow_edge :: "key \<Rightarrow> key \<Rightarrow> trust_edge" where
  "follow_edge a b = \<lparr>ed_from_key = a, ed_to_key = b, ed_kind = Follow, ed_petname = None, ed_seq = 1, ed_sig = []\<rparr>"

definition relay_corpus :: "collab_object list" where
  "relay_corpus = [CProfile bob_profile, CTrustEdge (follow_edge [2] [3]), CTrustEdge (follow_edge [3] [4])]"

definition relay_codec :: ocodec where
  "relay_codec =
     \<lparr>oc_enc = (\<lambda>obj. case obj of OCollab (CTrustEdge e) \<Rightarrow> Inr (ed_from_key e) | _ \<Rightarrow> Inl ''other''),
      oc_dec = (\<lambda>_. Inl ''other''), oc_hash = (\<lambda>bs. of_nat (sum_list (map unat bs)))\<rparr>"

lemma relay_edge_ids: "inj_on (edge_id relay_codec) (set (edges_of relay_corpus))"
proof -
  have "edge_id relay_codec (follow_edge [n] b) = of_nat (unat n)" for n b
    by (simp add: edge_id_def obj_id_def serialize_def relay_codec_def map_codec_def object_id_def from_content_def follow_edge_def)
  then show ?thesis by (auto simp: relay_corpus_def)
qed

end
