(* ===== verification/Collab.thy ===== *)
theory Collab
  imports Workspace Trust
begin

text \<open>
  Signed records in a repository: change proposals and their reviews (\<^verbatim>\<open>src/repo/pr.rs\<close>), board posts
  (\<^verbatim>\<open>src/repo/board.rs\<close>), repository records (\<^verbatim>\<open>src/repo/reporecord.rs\<close>), and profiles, trust edges, relay
  pins and the views built from them (\<^verbatim>\<open>src/repo/collab.rs\<close>). A record is an object, pinned by a tag whose
  name says what it is. Publishing holds the publish lock for its whole length, so it is one step here. An
  operation that fails returns its error alone: an object it had stored by then is not tracked.
\<close>

section \<open>Tags and what they point to\<close>

definition COLLAB_PUBLIC_PREFIX :: string where
  "COLLAB_PUBLIC_PREFIX = ''refs/collab/public/''"

definition COLLAB_REMOTES_PREFIX :: string where
  "COLLAB_REMOTES_PREFIX = ''refs/collab/remotes/''"

definition COLLAB_RELAYS_PREFIX :: string where
  "COLLAB_RELAYS_PREFIX = ''refs/collab/relays/''"

definition PROPOSALS_PREFIX :: string where
  "PROPOSALS_PREFIX = ''refs/proposals/''"

definition COMMENTS_PREFIX :: string where
  "COMMENTS_PREFIX = ''refs/proposals/comments/''"

definition BOARD_PREFIX :: string where
  "BOARD_PREFIX = ''refs/board/''"

text \<open>Storing an object and pinning it under a name, the common end of every publication.\<close>

definition put_pinned :: "('o, 'r, 'a) repo_env \<Rightarrow> ('o, 'r, 'a) repository \<Rightarrow> object \<Rightarrow> (oid \<Rightarrow> string) \<Rightarrow>
    (oid \<times> ('o, 'r, 'a) repository) result" where
  "put_pinned E R obj name_of =
     bind_res (repo_put E R obj) (\<lambda>(i, R1).
     bind_res (ref_name_new (name_of i)) (\<lambda>name.
     bind_res (repo_commit E R1 [SetRef name (policy_tag i)]) (\<lambda>R2. Inr (i, R2))))"

text \<open>
  The loop that the listings share: of each name that is a tag, what is made of the object it points to.
\<close>

definition scan_tags :: "('o, 'r, 'a) repo_env \<Rightarrow> ('o, 'r, 'a) repository \<Rightarrow> (ref_name \<Rightarrow> oid \<Rightarrow> object option \<Rightarrow> 'b list) \<Rightarrow>
    ref_name list \<Rightarrow> 'b list result" where
  "scan_tags E R f names =
     fold_res (\<lambda>name out. bind_res (get_tag (env_refs E) (r_refs R) name) (\<lambda>found. case found of
         None \<Rightarrow> Inr out
       | Some tag \<Rightarrow> bind_res (repo_get E R (tag_target tag)) (\<lambda>obj. Inr (out @ f name (tag_target tag) obj)))) names []"

definition scan_prefix :: "('o, 'r, 'a) repo_env \<Rightarrow> ('o, 'r, 'a) repository \<Rightarrow> string \<Rightarrow>
    (ref_name \<Rightarrow> oid \<Rightarrow> object option \<Rightarrow> 'b list) \<Rightarrow> 'b list result" where
  "scan_prefix E R prefix f = bind_res (rb_list (env_refs E) (r_refs R) prefix) (scan_tags E R f)"

section \<open>Change proposals\<close>

definition as_proposal :: "ed25519 \<Rightarrow> msg_codec \<Rightarrow> object option \<Rightarrow> change_proposal option" where
  "as_proposal ed M obj = (case obj of Some (OChangeProposal p) \<Rightarrow> if verify_proposal ed M p then Some p else None | _ \<Rightarrow> None)"

definition put_proposal :: "('o, 'r, 'a) repo_env \<Rightarrow> msg_codec \<Rightarrow> ('o, 'r, 'a) repository \<Rightarrow> change_proposal \<Rightarrow>
    (oid \<times> ('o, 'r, 'a) repository) result" where
  "put_proposal E M R p =
     (if \<not> verify_proposal (env_ed E) M p then Inl (PolicyViolation ''change proposal signature does not verify'')
      else repo_put E R (OChangeProposal p))"

definition get_proposal :: "('o, 'r, 'a) repo_env \<Rightarrow> msg_codec \<Rightarrow> ('o, 'r, 'a) repository \<Rightarrow> oid \<Rightarrow> change_proposal option result" where
  "get_proposal E M R i = bind_res (repo_get E R i) (\<lambda>obj. Inr (as_proposal (env_ed E) M obj))"

definition publish_proposal :: "('o, 'r, 'a) repo_env \<Rightarrow> msg_codec \<Rightarrow> ('o, 'r, 'a) repository \<Rightarrow> change_proposal \<Rightarrow>
    (oid \<times> ('o, 'r, 'a) repository) result" where
  "publish_proposal E M R p =
     bind_res (put_proposal E M R p) (\<lambda>(i, R1).
     bind_res (ref_name_new (PROPOSALS_PREFIX @ oid_display i)) (\<lambda>name.
     bind_res (repo_commit E R1 [SetRef name (policy_tag i)]) (\<lambda>R2. Inr (i, R2))))"

definition list_proposals :: "('o, 'r, 'a) repo_env \<Rightarrow> msg_codec \<Rightarrow> ('o, 'r, 'a) repository \<Rightarrow> (oid \<times> change_proposal) list result" where
  "list_proposals E M R =
     bind_res (rb_list (env_refs E) (r_refs R) PROPOSALS_PREFIX) (\<lambda>names.
     scan_tags E R (\<lambda>_ i obj. case as_proposal (env_ed E) M obj of Some p \<Rightarrow> [(i, p)] | None \<Rightarrow> [])
       (filter (\<lambda>n. \<not> starts_with COMMENTS_PREFIX n) names))"

definition as_comment :: "ed25519 \<Rightarrow> msg_codec \<Rightarrow> object option \<Rightarrow> review_comment option" where
  "as_comment ed M obj = (case obj of Some (OReviewComment c) \<Rightarrow> if verify_comment ed M c then Some c else None | _ \<Rightarrow> None)"

definition add_comment :: "('o, 'r, 'a) repo_env \<Rightarrow> msg_codec \<Rightarrow> ('o, 'r, 'a) repository \<Rightarrow> review_comment \<Rightarrow>
    (oid \<times> ('o, 'r, 'a) repository) result" where
  "add_comment E M R c =
     (if \<not> verify_comment (env_ed E) M c then Inl (PolicyViolation ''review comment signature does not verify'')
      else bind_res (get_proposal E M R (rc_proposal c)) (\<lambda>found.
        if found = None then Inl (PolicyViolation (''review comment references an unknown proposal: '' @ oid_display (rc_proposal c)))
        else put_pinned E R (OReviewComment c) (\<lambda>i. COMMENTS_PREFIX @ oid_display (rc_proposal c) @ ''/'' @ oid_display i)))"

definition get_comment :: "('o, 'r, 'a) repo_env \<Rightarrow> msg_codec \<Rightarrow> ('o, 'r, 'a) repository \<Rightarrow> oid \<Rightarrow> review_comment option result" where
  "get_comment E M R i = bind_res (repo_get E R i) (\<lambda>obj. Inr (as_comment (env_ed E) M obj))"

definition list_comments :: "('o, 'r, 'a) repo_env \<Rightarrow> msg_codec \<Rightarrow> ('o, 'r, 'a) repository \<Rightarrow> oid \<Rightarrow> (oid \<times> review_comment) list result" where
  "list_comments E M R proposal =
     scan_prefix E R (COMMENTS_PREFIX @ oid_display proposal @ ''/'')
       (\<lambda>_ i obj. case as_comment (env_ed E) M obj of Some c \<Rightarrow> [(i, c)] | None \<Rightarrow> [])"

datatype proposal_merge = Merged oid | MergeConflicts "merge_conflict list"

text \<open>
  The merge of a proposal. What has been stored when the move of the target is refused stays stored, and
  the refusal is in the audit trail.
\<close>

definition merge_snapshot ::
  "('o, 'r, 'a) repo_env \<Rightarrow> ('o, 'r, 'a) repository \<Rightarrow> (string, oid) btree \<Rightarrow> oid list \<Rightarrow> string \<Rightarrow> u64 \<Rightarrow> string \<Rightarrow>
   (oid \<times> ('o, 'r, 'a) repository) result" where
  "merge_snapshot E R files ps author' created message' =
     bind_res (build_tree (env_objects E) (env_codec E) (r_objects R) files) (\<lambda>(root', s1).
     bind_res (put_snapshot (env_objects E) (env_codec E) s1
       \<lparr>root = root', parents = ps, author = author', created_at = created, message = message'\<rparr>) (\<lambda>(i, s2).
       Inr (i, R\<lparr>r_objects := s2\<rparr>)))"

definition merge_heads ::
  "('o, 'r, 'a) repo_env \<Rightarrow> msg_codec \<Rightarrow> ('o, 'r, 'a) repository \<Rightarrow> oid \<Rightarrow> (ref_name \<times> ref_name \<times> oid \<times> oid) result" where
  "merge_heads E M R i =
     bind_res (get_proposal E M R i) (\<lambda>found. case found of
         None \<Rightarrow> Inl (Storage (''proposal not found: '' @ oid_display i))
       | Some p \<Rightarrow>
     bind_res (ref_name_new (cp_source p)) (\<lambda>source. bind_res (ref_name_new (cp_target p)) (\<lambda>target.
     bind_res (get_timeline (env_refs E) (r_refs R) source) (\<lambda>stl. case stl of
         None \<Rightarrow> Inl (Storage (''source timeline not found: '' @ cp_source p))
       | Some s \<Rightarrow>
     bind_res (get_timeline (env_refs E) (r_refs R) target) (\<lambda>ttl. case ttl of
         None \<Rightarrow> Inl (Storage (''target timeline not found: '' @ cp_target p))
       | Some t \<Rightarrow> Inr (source, target, tl_head s, tl_head t))))))"

definition merge_proposal ::
  "('o, 'r, 'a) repo_env \<Rightarrow> msg_codec \<Rightarrow> ('o, 'r, 'a) repository \<Rightarrow> oid \<Rightarrow> string \<Rightarrow> u64 \<Rightarrow> string \<Rightarrow> accessor \<Rightarrow>
   proposal_merge result \<times> ('o, 'r, 'a) repository" where
  "merge_proposal E M R i author' created message' acc =
     (case merge_heads E M R i of
        Inl e \<Rightarrow> (Inl e, R)
      | Inr (source, target, source_head, target_head) \<Rightarrow>
          (case merge_timelines E R source target acc of
             Inl e \<Rightarrow> (Inl e, R)
           | Inr result \<Rightarrow>
               (if conflicts result \<noteq> [] then (Inr (MergeConflicts (conflicts result)), R)
                else case merge_snapshot E R (merged result) [target_head, source_head] author' created message' of
                  Inl e \<Rightarrow> (Inl e, R)
                | Inr (merged_snap, R1) \<Rightarrow>
                    (case advance_timeline_expecting E R1 target merged_snap (Some target_head) acc of
                       (Inl e, R2) \<Rightarrow> (Inl e, R2)
                     | (Inr _, R2) \<Rightarrow> (Inr (Merged merged_snap), R2)))))"

section \<open>Boards\<close>

definition as_post :: "ed25519 \<Rightarrow> msg_codec \<Rightarrow> object option \<Rightarrow> post option" where
  "as_post ed M obj = (case obj of Some (OPost p) \<Rightarrow> if verify_post ed M p then Some p else None | _ \<Rightarrow> None)"

definition publish_post :: "('o, 'r, 'a) repo_env \<Rightarrow> msg_codec \<Rightarrow> ('o, 'r, 'a) repository \<Rightarrow> post \<Rightarrow>
    (oid \<times> ('o, 'r, 'a) repository) result" where
  "publish_post E M R p =
     (if \<not> verify_post (env_ed E) M p then Inl (PolicyViolation ''board post signature does not verify'')
      else put_pinned E R (OPost p) (\<lambda>i. BOARD_PREFIX @ po_board p @ ''/'' @ oid_display i))"

definition get_post :: "('o, 'r, 'a) repo_env \<Rightarrow> msg_codec \<Rightarrow> ('o, 'r, 'a) repository \<Rightarrow> oid \<Rightarrow> post option result" where
  "get_post E M R i = bind_res (repo_get E R i) (\<lambda>obj. Inr (as_post (env_ed E) M obj))"

definition list_posts :: "('o, 'r, 'a) repo_env \<Rightarrow> msg_codec \<Rightarrow> ('o, 'r, 'a) repository \<Rightarrow> string \<Rightarrow> (oid \<times> post) list result" where
  "list_posts E M R board =
     scan_prefix E R (BOARD_PREFIX @ board @ ''/'')
       (\<lambda>_ i obj. case as_post (env_ed E) M obj of Some p \<Rightarrow> [(i, p)] | None \<Rightarrow> [])"

section \<open>Repository records\<close>

definition repo_ref :: "ocodec \<Rightarrow> key \<Rightarrow> string \<Rightarrow> string" where
  "repo_ref C owner name = COLLAB_PUBLIC_PREFIX @ ''repo/'' @ fingerprint C owner @ ''/'' @ name"

definition as_repo :: "ed25519 \<Rightarrow> msg_codec \<Rightarrow> object option \<Rightarrow> repo_record option" where
  "as_repo ed M obj = (case obj of Some (ORepoRecord r) \<Rightarrow> if verify_repo ed M r then Some r else None | _ \<Rightarrow> None)"

text \<open>The object that is pinned under a name now, if the name is a tag and the object is stored.\<close>

definition pinned_object :: "('o, 'r, 'a) repo_env \<Rightarrow> ('o, 'r, 'a) repository \<Rightarrow> ref_name \<Rightarrow> object option result" where
  "pinned_object E R name =
     bind_res (get_tag (env_refs E) (r_refs R) name) (\<lambda>found. case found of
         None \<Rightarrow> Inr None
       | Some tag \<Rightarrow> repo_get E R (tag_target tag))"

definition publish_repo :: "('o, 'r, 'a) repo_env \<Rightarrow> msg_codec \<Rightarrow> ('o, 'r, 'a) repository \<Rightarrow> repo_record \<Rightarrow>
    (oid \<times> ('o, 'r, 'a) repository) result" where
  "publish_repo E M R r =
     (if \<not> verify_repo (env_ed E) M r then Inl (PolicyViolation ''repo record signature does not verify'')
      else
        bind_res (ref_name_new (repo_ref (env_codec E) (rr_owner r) (rr_name r))) (\<lambda>name.
        bind_res (pinned_object E R name) (\<lambda>obj.
        case obj of
          Some (ORepoRecord cur) \<Rightarrow>
            if rr_seq r \<le> rr_seq cur then Inl (PolicyViolation ''repo record seq must be greater than the current record's'')
            else put_pinned E R (ORepoRecord r) (\<lambda>_. name)
        | _ \<Rightarrow> put_pinned E R (ORepoRecord r) (\<lambda>_. name))))"

definition get_repo :: "('o, 'r, 'a) repo_env \<Rightarrow> msg_codec \<Rightarrow> ('o, 'r, 'a) repository \<Rightarrow> key \<Rightarrow> string \<Rightarrow> repo_record option result" where
  "get_repo E M R owner name =
     bind_res (ref_name_new (repo_ref (env_codec E) owner name)) (\<lambda>n.
     bind_res (pinned_object E R n) (\<lambda>obj. Inr (as_repo (env_ed E) M obj)))"

definition list_repos :: "('o, 'r, 'a) repo_env \<Rightarrow> msg_codec \<Rightarrow> ('o, 'r, 'a) repository \<Rightarrow> key \<Rightarrow> repo_record list result" where
  "list_repos E M R owner =
     bind_res (scan_prefix E R (COLLAB_PUBLIC_PREFIX @ ''repo/'' @ fingerprint (env_codec E) owner @ ''/'')
       (\<lambda>_ _ obj. case as_repo (env_ed E) M obj of Some r \<Rightarrow> [r] | None \<Rightarrow> [])) (\<lambda>out. Inr (sort_key rr_name out))"

section \<open>Profiles and trust edges\<close>

fun kind_seg :: "trust_kind \<Rightarrow> string" where
  "kind_seg Vouch = ''vouch''"
| "kind_seg Follow = ''follow''"
| "kind_seg Review = ''review''"

definition profile_ref :: "ocodec \<Rightarrow> key \<Rightarrow> string" where
  "profile_ref C k = COLLAB_PUBLIC_PREFIX @ ''profile/'' @ fingerprint C k"

definition edge_ref :: "ocodec \<Rightarrow> trust_edge \<Rightarrow> string" where
  "edge_ref C e = COLLAB_PUBLIC_PREFIX @ ''edge/'' @ fingerprint C (ed_from_key e) @ ''/'' @ kind_seg (ed_kind e) @ ''/'' @
     fingerprint C (ed_to_key e)"

definition as_profile :: "object option \<Rightarrow> profile option" where
  "as_profile obj = (case obj of Some (OCollab (CProfile p)) \<Rightarrow> Some p | _ \<Rightarrow> None)"

definition as_edge :: "object option \<Rightarrow> trust_edge option" where
  "as_edge obj = (case obj of Some (OCollab (CTrustEdge e)) \<Rightarrow> Some e | _ \<Rightarrow> None)"

definition profile_of :: "('o, 'r, 'a) repo_env \<Rightarrow> ('o, 'r, 'a) repository \<Rightarrow> key \<Rightarrow> profile option result" where
  "profile_of E R k =
     bind_res (ref_name_new (profile_ref (env_codec E) k)) (\<lambda>name.
     bind_res (pinned_object E R name) (\<lambda>obj. Inr (as_profile obj)))"

definition publish_profile :: "('o, 'r, 'a) repo_env \<Rightarrow> msg_codec \<Rightarrow> ('o, 'r, 'a) repository \<Rightarrow> profile \<Rightarrow>
    (oid \<times> ('o, 'r, 'a) repository) result" where
  "publish_profile E M R p =
     (if \<not> verify_profile (env_ed E) M p then Inl (PolicyViolation ''profile signature does not verify'')
      else bind_res (profile_of E R (pf_key p)) (\<lambda>found.
        case found of
          Some cur \<Rightarrow>
            if pf_seq p \<le> pf_seq cur then Inl (PolicyViolation ''profile seq must be greater than the current profile's'')
            else put_pinned E R (OCollab (CProfile p)) (\<lambda>_. profile_ref (env_codec E) (pf_key p))
        | None \<Rightarrow> put_pinned E R (OCollab (CProfile p)) (\<lambda>_. profile_ref (env_codec E) (pf_key p))))"

definition publish_edge :: "('o, 'r, 'a) repo_env \<Rightarrow> msg_codec \<Rightarrow> ('o, 'r, 'a) repository \<Rightarrow> trust_edge \<Rightarrow>
    (oid \<times> ('o, 'r, 'a) repository) result" where
  "publish_edge E M R e =
     (if \<not> verify_edge (env_ed E) M e then Inl (PolicyViolation ''trust edge signature does not verify'')
      else bind_res (ref_name_new (edge_ref (env_codec E) e)) (\<lambda>name.
        bind_res (pinned_object E R name) (\<lambda>obj.
        case as_edge obj of
          Some cur \<Rightarrow>
            if ed_seq e \<le> ed_seq cur then Inl (PolicyViolation ''trust edge seq must be greater than the current edge's'')
            else put_pinned E R (OCollab (CTrustEdge e)) (\<lambda>_. name)
        | None \<Rightarrow> put_pinned E R (OCollab (CTrustEdge e)) (\<lambda>_. name))))"

definition public_profiles :: "('o, 'r, 'a) repo_env \<Rightarrow> ('o, 'r, 'a) repository \<Rightarrow> profile list result" where
  "public_profiles E R =
     scan_prefix E R (COLLAB_PUBLIC_PREFIX @ ''profile/'') (\<lambda>_ _ obj. case as_profile obj of Some p \<Rightarrow> [p] | None \<Rightarrow> [])"

definition public_edges :: "('o, 'r, 'a) repo_env \<Rightarrow> ('o, 'r, 'a) repository \<Rightarrow> trust_edge list result" where
  "public_edges E R =
     scan_prefix E R (COLLAB_PUBLIC_PREFIX @ ''edge/'') (\<lambda>_ _ obj. case as_edge obj of Some e \<Rightarrow> [e] | None \<Rightarrow> [])"

definition public_objects :: "('o, 'r, 'a) repo_env \<Rightarrow> ('o, 'r, 'a) repository \<Rightarrow> collab_object list result" where
  "public_objects E R =
     bind_res (public_profiles E R) (\<lambda>ps. bind_res (public_edges E R) (\<lambda>es. Inr (map CProfile ps @ map CTrustEdge es)))"

definition tracked_collab :: "('o, 'r, 'a) repo_env \<Rightarrow> msg_codec \<Rightarrow> ('o, 'r, 'a) repository \<Rightarrow> collab_object list result" where
  "tracked_collab E M R =
     scan_prefix E R COLLAB_REMOTES_PREFIX (\<lambda>_ _ obj. case obj of
       Some (OCollab c) \<Rightarrow> if verified (env_ed E) M c then [c] else [] | _ \<Rightarrow> [])"

section \<open>Views\<close>

record hub_user =
  hu_key :: key
  hu_display_name :: "string option"
  hu_repo_count :: nat

definition count_repo :: "repo_record \<Rightarrow> (key, string option) btree \<times> (key, nat) btree \<Rightarrow> (key, string option) btree \<times> (key, nat) btree" where
  "count_repo r st = (case st of (names, counts) \<Rightarrow>
     (if bt_get names (rr_owner r) = None then bt_insert (rr_owner r) None names else names,
      bt_insert (rr_owner r) ((case bt_get counts (rr_owner r) of Some n \<Rightarrow> n | None \<Rightarrow> 0) + 1) counts))"

definition hub_users :: "('o, 'r, 'a) repo_env \<Rightarrow> msg_codec \<Rightarrow> ('o, 'r, 'a) repository \<Rightarrow> hub_user list result" where
  "hub_users E M R =
     bind_res (public_profiles E R) (\<lambda>ps.
     let named = fold (\<lambda>p. bt_insert (pf_key p) (if pf_display_name p = [] then None else Some (pf_display_name p))) ps [] in
     bind_res (scan_prefix E R (COLLAB_PUBLIC_PREFIX @ ''repo/'')
       (\<lambda>_ _ obj. case as_repo (env_ed E) M obj of Some r \<Rightarrow> [r] | None \<Rightarrow> [])) (\<lambda>records.
     case fold count_repo records (named, []) of
       (names, counts) \<Rightarrow> Inr (map (\<lambda>(k, name). \<lparr>hu_key = k, hu_display_name = name,
         hu_repo_count = (case bt_get counts k of Some n \<Rightarrow> n | None \<Rightarrow> 0)\<rparr>) names)))"

text \<open>\<^verbatim>\<open>strip_prefix\<close>.\<close>

definition strip_prefix :: "string \<Rightarrow> string \<Rightarrow> string option" where
  "strip_prefix prefix s = (if starts_with prefix s then Some (drop (length prefix) s) else None)"

definition announced_repos :: "ref_name list \<Rightarrow> (string \<times> string) list" where
  "announced_repos names = btset_of (concat (map (\<lambda>n.
     case strip_prefix (COLLAB_PUBLIC_PREFIX @ ''repo/'') n of
       None \<Rightarrow> []
     | Some rest \<Rightarrow> (case split_once rest of Some (fp, repo) \<Rightarrow> [(fp, repo)] | None \<Rightarrow> [])) names))"

definition pushed_repos :: "ref_name list \<Rightarrow> (string \<times> string) list" where
  "pushed_repos names = btset_of (concat (map (\<lambda>n.
     case strip_prefix ''refs/users/'' n of
       None \<Rightarrow> []
     | Some rest \<Rightarrow> (case split_once rest of
           None \<Rightarrow> []
         | Some (fp, tail) \<Rightarrow> [(fp, case split_once tail of Some (repo, _) \<Rightarrow> repo | None \<Rightarrow> tail)])) names))"

definition scan_orphan_repos :: "('o, 'r, 'a) repo_env \<Rightarrow> ('o, 'r, 'a) repository \<Rightarrow>
    ((string \<times> string) list \<times> (string \<times> string) list) result" where
  "scan_orphan_repos E R =
     bind_res (rb_list (env_refs E) (r_refs R) (COLLAB_PUBLIC_PREFIX @ ''repo/'')) (\<lambda>records.
     bind_res (rb_list (env_refs E) (r_refs R) ''refs/users/'') (\<lambda>timelines.
     let announced = announced_repos records; content = pushed_repos timelines in
     Inr (filter (\<lambda>r. r \<notin> set content) announced, filter (\<lambda>r. r \<notin> set announced) content)))"

definition scan_invalid_collab_signatures ::
  "('o, 'r, 'a) repo_env \<Rightarrow> msg_codec \<Rightarrow> ('o, 'r, 'a) repository \<Rightarrow> (ref_name \<times> string) list result" where
  "scan_invalid_collab_signatures E M R =
     bind_res (scan_prefix E R (COLLAB_PUBLIC_PREFIX @ ''profile/'') (\<lambda>name _ obj. case as_profile obj of
         Some p \<Rightarrow> if verify_profile (env_ed E) M p then [] else [(name, ''profile'')] | None \<Rightarrow> [(name, ''profile'')])) (\<lambda>ps.
     bind_res (scan_prefix E R (COLLAB_PUBLIC_PREFIX @ ''edge/'') (\<lambda>name _ obj. case as_edge obj of
         Some e \<Rightarrow> if verify_edge (env_ed E) M e then [] else [(name, ''trust-edge'')] | None \<Rightarrow> [(name, ''trust-edge'')])) (\<lambda>es.
     bind_res (scan_prefix E R (COLLAB_PUBLIC_PREFIX @ ''repo/'') (\<lambda>name _ obj. case as_repo (env_ed E) M obj of
         Some r \<Rightarrow> [] | None \<Rightarrow> [(name, ''repo-record'')])) (\<lambda>rs. Inr (ps @ es @ rs))))"

record timeline_view =
  tv_name :: string
  tv_head :: oid
  tv_author :: string
  tv_created_at :: u64

record profile_bundle =
  pb_key :: key
  pb_is_local :: bool
  pb_profile :: "profile option"
  pb_edges :: "trust_edge list"
  pb_timelines :: "timeline_view list"
  pb_repos :: "repo_record list"

definition served_timelines :: "('o, 'r, 'a) repo_env \<Rightarrow> ('o, 'r, 'a) repository \<Rightarrow> accessor \<Rightarrow> timeline_view list result" where
  "served_timelines E R acc =
     bind_res (list_refs_served E R [] acc) (\<lambda>names.
     fold_res (\<lambda>name out. bind_res (rb_get (env_refs E) (r_refs R) name) (\<lambda>cur. case cur of
         Some (RTimeline t) \<Rightarrow> bind_res (repo_get E R (tl_head t)) (\<lambda>obj. case as_snapshot obj of
             Some s \<Rightarrow> Inr (out @ [\<lparr>tv_name = name, tv_head = tl_head t, tv_author = author s, tv_created_at = created_at s\<rparr>])
           | None \<Rightarrow> Inr out)
       | _ \<Rightarrow> Inr out)) names [])"

definition bundle_of ::
  "('o, 'r, 'a) repo_env \<Rightarrow> msg_codec \<Rightarrow> ('o, 'r, 'a) repository \<Rightarrow> key \<Rightarrow> accessor \<Rightarrow> profile_bundle result" where
  "bundle_of E M R k acc =
     bind_res (public_profiles E R) (\<lambda>publics.
     let is_local = list_ex (\<lambda>p. pf_key p = k) publics in
     bind_res (if is_local then Inr (List.find (\<lambda>p. pf_key p = k) publics)
       else bind_res (tracked_collab E M R) (\<lambda>objs. Inr (List.find (\<lambda>p. pf_key p = k) (profiles_of objs)))) (\<lambda>found.
     bind_res (if is_local then public_edges E R
       else bind_res (tracked_collab E M R) (\<lambda>objs. Inr (edges_of objs))) (\<lambda>es.
     bind_res (if is_local then served_timelines E R acc else Inr []) (\<lambda>timelines.
     bind_res (list_repos E M R k) (\<lambda>repos.
     Inr \<lparr>pb_key = k, pb_is_local = is_local,
       pb_profile = (case found of Some p \<Rightarrow> if verify_profile (env_ed E) M p then Some p else None | None \<Rightarrow> None),
       pb_edges = filter (\<lambda>e. ed_from_key e = k \<and> verify_edge (env_ed E) M e) es,
       pb_timelines = timelines, pb_repos = repos\<rparr>)))))"

section \<open>Local discovery\<close>

definition group_by_author :: "collab_object list \<Rightarrow> (key, collab_object list) btree" where
  "group_by_author objs = fold (\<lambda>obj m.
     bt_insert (publisher_key obj) ((case bt_get m (publisher_key obj) of Some os \<Rightarrow> os | None \<Rightarrow> []) @ [obj]) m) objs []"

definition local_discovery_index ::
  "('o, 'r, 'a) repo_env \<Rightarrow> msg_codec \<Rightarrow> ('o, 'r, 'a) repository \<Rightarrow> key \<Rightarrow> u8 \<Rightarrow> discovery_index result" where
  "local_discovery_index E M R self hops =
     bind_res (public_objects E R) (\<lambda>own.
     bind_res (tracked_collab E M R) (\<lambda>tracked.
     let paths = follow_paths (edges_of own @ edges_of tracked) self hops;
         pulled = concat (map (\<lambda>(author', objs). case bt_get paths author' of
             Some path \<Rightarrow> [(author', of_nat (length path - 1), path, objs)]
           | None \<Rightarrow> []) (group_by_author tracked)) in
     Inr (index_build self own pulled)))"

record query_hit =
  qh_key :: key
  qh_display_name :: string
  qh_petname :: "string option"
  qh_reach :: u8
  qh_trust_path :: "key list"

definition query_discovery ::
  "('o, 'r, 'a) repo_env \<Rightarrow> msg_codec \<Rightarrow> ('o, 'r, 'a) repository \<Rightarrow> key \<Rightarrow> u8 \<Rightarrow> string \<Rightarrow> query_hit list result" where
  "query_discovery E M R self hops term =
     bind_res (local_discovery_index E M R self hops) (\<lambda>idx.
     bind_res (public_edges E R) (\<lambda>own_edges.
     bind_res (tracked_collab E M R) (\<lambda>tracked.
     let g = own_edges @ edges_of tracked in
     Inr (map (\<lambda>r. \<lparr>qh_key = dr_key r,
         qh_display_name = (case dr_object r of CProfile p \<Rightarrow> pf_display_name p | CTrustEdge _ \<Rightarrow> []),
         qh_petname = (case resolve_name (env_codec E) self [] g (dr_key r) of
             NamedLocal n \<Rightarrow> Some n | NamedVouch n _ _ \<Rightarrow> Some n | NamedFingerprint _ \<Rightarrow> None),
         qh_reach = dr_distance r, qh_trust_path = dr_trust_path r\<rparr>) (index_query (env_codec E) idx term)))))"

section \<open>Relays\<close>

definition relay_ref :: "ocodec \<Rightarrow> key \<Rightarrow> string" where
  "relay_ref C k = COLLAB_RELAYS_PREFIX @ fingerprint C k"

definition add_relay :: "('o, 'r, 'a) repo_env \<Rightarrow> msg_codec \<Rightarrow> ('o, 'r, 'a) repository \<Rightarrow> relay_pin \<Rightarrow> ('o, 'r, 'a) repository result" where
  "add_relay E M R pin =
     bind_res (put_pinned E R (OBlob \<lparr>blob_data = mc_pin M pin\<rparr>) (\<lambda>_. relay_ref (env_codec E) (rp_key pin))) (\<lambda>(_, R'). Inr R')"

definition remove_relay :: "('o, 'r, 'a) repo_env \<Rightarrow> ('o, 'r, 'a) repository \<Rightarrow> key \<Rightarrow> (bool \<times> ('o, 'r, 'a) repository) result" where
  "remove_relay E R k =
     bind_res (ref_name_new (relay_ref (env_codec E) k)) (\<lambda>name.
     bind_res (get_tag (env_refs E) (r_refs R) name) (\<lambda>found.
     if found = None then Inr (False, R)
     else bind_res (repo_commit E R [DeleteRef name]) (\<lambda>R'. Inr (True, R'))))"

definition relay_pins :: "('o, 'r, 'a) repo_env \<Rightarrow> msg_codec \<Rightarrow> ('o, 'r, 'a) repository \<Rightarrow> relay_pin list result" where
  "relay_pins E M R =
     scan_prefix E R COLLAB_RELAYS_PREFIX (\<lambda>_ _ obj. case obj of
       Some (OBlob b) \<Rightarrow> (case mc_unpin M (blob_data b) of Some pin \<Rightarrow> [pin] | None \<Rightarrow> []) | _ \<Rightarrow> [])"

end
