(* ===== verification/Collab_Laws.thy ===== *)
theory Collab_Laws
  imports Collab
begin

text \<open>
  What publication guarantees: sequence numbers of profiles, trust edges and repository records never go
  back, whatever operations run in between; what a board lists is what was posted there; and merging a
  proposal moves one timeline, from the head the merge was computed against, to a snapshot with both heads
  as parents. Two further theorems show where the code falls short of its documentation.
\<close>

section \<open>Publication\<close>

context repo_stores
begin

lemma get_tag_abst:
  assumes "rinv rs" and "fits rs N" and "n \<in> N"
  shows "get_tag (env_refs E) rs n = (case rabst rs n of
      Some (RTag t) \<Rightarrow> Inr (Some t) | Some (RTimeline _) \<Rightarrow> Inl (err_is_timeline n) | None \<Rightarrow> Inr None)"
  using rt.get_law [OF assms] by (simp add: get_tag_def split: option.split ref.split)

lemma pinned_object_tag:
  assumes "rinv (r_refs R)" and "fits (r_refs R) N" and "n \<in> N"
  shows "pinned_object E R n = Inr (Some obj) \<longleftrightarrow>
    (\<exists>t. rabst (r_refs R) n = Some (RTag t) \<and> repo_get E R (tag_target t) = Inr (Some obj))"
  by (auto simp: pinned_object_def get_tag_abst [OF assms] split: option.split ref.split)

text \<open>The state of a repository whose objects come from a set without collisions.\<close>

definition fine :: "bytes set \<Rightarrow> ('o, 'r, 'a) repository \<Rightarrow> bool" where
  "fine X R \<longleftrightarrow> st.good (env_codec E) X (r_objects R) \<and> rinv (r_refs R)"

lemma repo_put_fine:
  assumes "ocodec_ok (env_codec E)" and "\<And>data. storable data" and "inj_on (object_id (env_codec E)) X" and "fine X R"
    and "serialize (env_codec E) obj = Inr data" and "data \<in> X" and "repo_put E R obj = Inr (i, R')"
  shows "fine X R'" and "repo_get E R' i = Inr (Some obj)" and "r_refs R' = r_refs R"
    and "\<And>j ob. repo_get E R j = Inr (Some ob) \<Longrightarrow> repo_get E R' j = Inr (Some ob)"
proof -
  have good: "st.good (env_codec E) X (r_objects R)" using assms(4) by (simp add: fine_def)
  obtain s' where s': "ost_put (env_objects E) (env_codec E) (r_objects R) obj = Inr (obj_id (env_codec E) obj, s')"
    "st.good (env_codec E) X s'" "oabst (r_objects R) \<subseteq>\<^sub>m oabst s'"
    "ost_get (env_objects E) (env_codec E) s' (obj_id (env_codec E) obj) = Inr (Some obj)"
    using st.put_good [OF assms(1-3) good assms(5,6)] by blast
  then have "i = obj_id (env_codec E) obj" "R' = R\<lparr>r_objects := s'\<rparr>" using assms(7) by (simp_all add: repo_put_def)
  with s' assms(4) show "fine X R'" "repo_get E R' i = Inr (Some obj)" "r_refs R' = r_refs R"
    "\<And>j ob. repo_get E R j = Inr (Some ob) \<Longrightarrow> repo_get E R' j = Inr (Some ob)"
    using st.get_mono [OF good s'(2,3)] by (simp_all add: fine_def)
qed

lemma put_pinned_Inr:
  assumes "put_pinned E R obj name_of = Inr (i, R')"
  obtains R1 where "repo_put E R obj = Inr (i, R1)" and "valid_name (name_of i)"
    and "repo_commit E R1 [SetRef (name_of i) (policy_tag i)] = Inr R'"
  using assms by (auto simp: put_pinned_def bind_res_Inr valid_name_iff)

lemma put_pinned_fine:
  assumes "ocodec_ok (env_codec E)" and "\<And>data. storable data" and "\<And>rs N. fits rs N"
    and "inj_on (object_id (env_codec E)) X" and "fine X R"
    and "serialize (env_codec E) obj = Inr data" and "data \<in> X" and "put_pinned E R obj name_of = Inr (i, R')"
  shows "fine X R'" and "repo_get E R' i = Inr (Some obj)"
    and "rabst (r_refs R') = (rabst (r_refs R))(name_of i \<mapsto> policy_tag i)"
    and "\<And>j ob. repo_get E R j = Inr (Some ob) \<Longrightarrow> repo_get E R' j = Inr (Some ob)"
proof -
  obtain R1 where R1: "repo_put E R obj = Inr (i, R1)" "repo_commit E R1 [SetRef (name_of i) (policy_tag i)] = Inr R'"
    using assms(8) by (rule put_pinned_Inr)
  note put = repo_put_fine [OF assms(1,2,4-7) R1(1)]
  obtain rs where rs: "commit_transaction (env_refs E) (r_refs R1) [SetRef (name_of i) (policy_tag i)] = Inr rs" "R' = R1\<lparr>r_refs := rs\<rparr>"
    using R1(2) by (auto simp: repo_commit_def bind_res_Inr)
  have "rinv rs \<and> rabst rs = (rabst (r_refs R1))(name_of i \<mapsto> policy_tag i)"
    using commit_set [OF _ assms(3) _ rs(1), of UNIV] put(1) by (simp add: fine_def)
  with put rs(2) show "fine X R'" "repo_get E R' i = Inr (Some obj)"
    "rabst (r_refs R') = (rabst (r_refs R))(name_of i \<mapsto> policy_tag i)"
    "\<And>j ob. repo_get E R j = Inr (Some ob) \<Longrightarrow> repo_get E R' j = Inr (Some ob)"
    by (simp_all add: fine_def)
qed

end

section \<open>Sequence numbers\<close>

text \<open>The operations that write signed records, and what else may run beside them.\<close>

inductive collab_step :: "('o, 'r, 'a) repo_env \<Rightarrow> msg_codec \<Rightarrow> object set \<Rightarrow> ('o, 'r, 'a) repository \<Rightarrow> ('o, 'r, 'a) repository \<Rightarrow> bool"
  for E M objs where
  cs_put: "obj \<in> objs \<Longrightarrow> repo_put E R obj = Inr (i, R') \<Longrightarrow> collab_step E M objs R R'"
| cs_profile: "OCollab (CProfile p) \<in> objs \<Longrightarrow> publish_profile E M R p = Inr (i, R') \<Longrightarrow> collab_step E M objs R R'"
| cs_edge: "OCollab (CTrustEdge e) \<in> objs \<Longrightarrow> publish_edge E M R e = Inr (i, R') \<Longrightarrow> collab_step E M objs R R'"
| cs_repo: "ORepoRecord r \<in> objs \<Longrightarrow> publish_repo E M R r = Inr (i, R') \<Longrightarrow> collab_step E M objs R R'"
| cs_proposal: "OChangeProposal cp \<in> objs \<Longrightarrow> publish_proposal E M R cp = Inr (i, R') \<Longrightarrow> collab_step E M objs R R'"
| cs_comment: "OReviewComment c \<in> objs \<Longrightarrow> add_comment E M R c = Inr (i, R') \<Longrightarrow> collab_step E M objs R R'"
| cs_post: "OPost po \<in> objs \<Longrightarrow> publish_post E M R po = Inr (i, R') \<Longrightarrow> collab_step E M objs R R'"
| cs_relay: "OBlob \<lparr>blob_data = mc_pin M pin\<rparr> \<in> objs \<Longrightarrow> add_relay E M R pin = Inr R' \<Longrightarrow> collab_step E M objs R R'"
| cs_unrelay: "remove_relay E R k = Inr (b, R') \<Longrightarrow> collab_step E M objs R R'"
| cs_advance: "advance_timeline_expecting E R name sid expected acc = (res, R') \<Longrightarrow> collab_step E M objs R R'"

fun record_seq :: "object \<Rightarrow> u64" where
  "record_seq (OCollab (CProfile p)) = pf_seq p"
| "record_seq (OCollab (CTrustEdge e)) = ed_seq e"
| "record_seq (ORepoRecord r) = rr_seq r"
| "record_seq _ = 0"

text \<open>A record under a name of its kind.\<close>

fun filed :: "ref_name \<Rightarrow> object \<Rightarrow> bool" where
  "filed n (OCollab (CProfile p)) = starts_with (COLLAB_PUBLIC_PREFIX @ ''profile/'') n"
| "filed n (OCollab (CTrustEdge e)) = starts_with (COLLAB_PUBLIC_PREFIX @ ''edge/'') n"
| "filed n (ORepoRecord r) = starts_with (COLLAB_PUBLIC_PREFIX @ ''repo/'') n"
| "filed n _ = False"

lemmas prefix_defs = COLLAB_PUBLIC_PREFIX_def COLLAB_RELAYS_PREFIX_def PROPOSALS_PREFIX_def COMMENTS_PREFIX_def BOARD_PREFIX_def

lemma starts_with_append [simp]: "starts_with p (p @ x)"
  by (simp add: starts_with_def)

lemma filed_names:
  "filed (profile_ref C k) obj \<Longrightarrow> \<exists>p. obj = OCollab (CProfile p)"
  "filed (edge_ref C e) obj \<Longrightarrow> \<exists>e. obj = OCollab (CTrustEdge e)"
  "filed (repo_ref C k rn) obj \<Longrightarrow> \<exists>r. obj = ORepoRecord r"
  "\<not> filed (PROPOSALS_PREFIX @ x) obj" "\<not> filed (COMMENTS_PREFIX @ x) obj" "\<not> filed (BOARD_PREFIX @ x) obj"
  "\<not> filed (relay_ref C k) obj" "\<not> filed [] obj"
  by (induction obj rule: record_seq.induct)
    (auto simp: profile_ref_def edge_ref_def repo_ref_def relay_ref_def prefix_defs starts_with_def)

context repo_stores
begin

text \<open>Of each record: it is kept, or a record of the same kind with a greater number takes its place.\<close>

definition seq_keeps :: "('o, 'r, 'a) repository \<Rightarrow> ('o, 'r, 'a) repository \<Rightarrow> bool" where
  "seq_keeps R R' \<longleftrightarrow> (\<forall>n obj. pinned_object E R n = Inr (Some obj) \<longrightarrow> filed n obj \<longrightarrow>
     (\<exists>obj'. pinned_object E R' n = Inr (Some obj') \<and> filed n obj' \<and> (obj' = obj \<or> record_seq obj < record_seq obj')))"

lemma seq_keeps_pin:
  assumes "\<And>rs N. fits rs N" and "rinv (r_refs R)" and "rinv (r_refs R')"
    and "\<And>j ob. repo_get E R j = Inr (Some ob) \<Longrightarrow> repo_get E R' j = Inr (Some ob)"
    and "rabst (r_refs R') = (rabst (r_refs R))(m := v)"
    and "\<And>obj. pinned_object E R m = Inr (Some obj) \<Longrightarrow> filed m obj \<Longrightarrow>
      \<exists>i obj'. v = Some (policy_tag i) \<and> repo_get E R' i = Inr (Some obj') \<and> filed m obj' \<and> record_seq obj < record_seq obj'"
  shows "seq_keeps R R'"
  unfolding seq_keeps_def
proof (intro allI impI)
  fix n obj
  assume n: "pinned_object E R n = Inr (Some obj)" "filed n obj"
  note tag = pinned_object_tag [OF assms(2) assms(1) UNIV_I] and tag' = pinned_object_tag [OF assms(3) assms(1) UNIV_I]
  show "\<exists>obj'. pinned_object E R' n = Inr (Some obj') \<and> filed n obj' \<and> (obj' = obj \<or> record_seq obj < record_seq obj')"
  proof (cases "n = m")
    case True
    then obtain i obj' where "v = Some (policy_tag i)" "repo_get E R' i = Inr (Some obj')" "filed m obj'" "record_seq obj < record_seq obj'"
      using assms(6) n by blast
    then have "pinned_object E R' n = Inr (Some obj')" by (simp add: tag' assms(5) True)
    with \<open>filed m obj'\<close> \<open>record_seq obj < record_seq obj'\<close> True show ?thesis by blast
  next
    case False
    with n(1) have "pinned_object E R' n = Inr (Some obj)" using assms(4) by (auto simp: tag tag' assms(5))
    with n(2) show ?thesis by blast
  qed
qed

lemma publish_seq_keeps:
  assumes "ocodec_ok (env_codec E)" and "\<And>data. storable data" and "\<And>rs N. fits rs N"
    and "inj_on (object_id (env_codec E)) X" and "fine X R" and "\<exists>data \<in> X. serialize (env_codec E) obj = Inr data"
    and "put_pinned E R obj (\<lambda>_. m) = Inr (i, R')" and "filed m obj"
    and "\<And>cur. pinned_object E R m = Inr (Some cur) \<Longrightarrow> filed m cur \<Longrightarrow> record_seq cur < record_seq obj"
  shows "fine X R' \<and> seq_keeps R R'"
proof -
  obtain data where data: "serialize (env_codec E) obj = Inr data" "data \<in> X" using assms(6) by blast
  note pin = put_pinned_fine [OF assms(1-5) data assms(7)]
  have "seq_keeps R R'"
    by (rule seq_keeps_pin [OF assms(3) _ _ pin(4,3)]) (use assms(5,8,9) pin(1,2) in \<open>auto simp: fine_def\<close>)
  with pin(1) show ?thesis by simp
qed

lemma other_seq_keeps:
  assumes "ocodec_ok (env_codec E)" and "\<And>data. storable data" and "\<And>rs N. fits rs N"
    and "inj_on (object_id (env_codec E)) X" and "fine X R" and "\<exists>data \<in> X. serialize (env_codec E) obj = Inr data"
    and "put_pinned E R obj name_of = Inr (i, R')" and "\<And>ob. \<not> filed (name_of i) ob"
  shows "fine X R' \<and> seq_keeps R R'"
proof -
  obtain data where data: "serialize (env_codec E) obj = Inr data" "data \<in> X" using assms(6) by blast
  note pin = put_pinned_fine [OF assms(1-5) data assms(7)]
  have "seq_keeps R R'"
    by (rule seq_keeps_pin [OF assms(3) _ _ pin(4,3)]) (use assms(5,8) pin(1) in \<open>auto simp: fine_def\<close>)
  with pin(1) show ?thesis by simp
qed

end

lemma publish_proposal_pinned:
  "publish_proposal E M R p = (if verify_proposal (env_ed E) M p
     then put_pinned E R (OChangeProposal p) (\<lambda>i. PROPOSALS_PREFIX @ oid_display i)
     else Inl (PolicyViolation ''change proposal signature does not verify''))"
  by (simp add: publish_proposal_def put_proposal_def put_pinned_def)

lemma publish_profile_Inr:
  assumes "publish_profile E M R p = Inr (i, R')"
  shows "verify_profile (env_ed E) M p \<and> put_pinned E R (OCollab (CProfile p)) (\<lambda>_. profile_ref (env_codec E) (pf_key p)) = Inr (i, R') \<and>
    (\<forall>cur. pinned_object E R (profile_ref (env_codec E) (pf_key p)) = Inr (Some (OCollab (CProfile cur))) \<longrightarrow> pf_seq cur < pf_seq p)"
proof -
  let ?n = "profile_ref (env_codec E) (pf_key p)"
  have v: "verify_profile (env_ed E) M p" using assms by (simp add: publish_profile_def split: if_splits)
  then obtain obj where obj: "pinned_object E R ?n = Inr obj"
    and rest: "(case as_profile obj of
        Some cur \<Rightarrow> if pf_seq p \<le> pf_seq cur then Inl (PolicyViolation ''profile seq must be greater than the current profile's'')
          else put_pinned E R (OCollab (CProfile p)) (\<lambda>_. ?n)
      | None \<Rightarrow> put_pinned E R (OCollab (CProfile p)) (\<lambda>_. ?n)) = Inr (i, R')"
    using assms by (auto simp: publish_profile_def profile_of_def bind_res_Inr valid_name_iff)
  show ?thesis using v obj rest by (cases "as_profile obj") (auto simp: as_profile_def split: if_splits)
qed

lemma publish_edge_Inr:
  assumes "publish_edge E M R e = Inr (i, R')"
  shows "verify_edge (env_ed E) M e \<and> put_pinned E R (OCollab (CTrustEdge e)) (\<lambda>_. edge_ref (env_codec E) e) = Inr (i, R') \<and>
    (\<forall>cur. pinned_object E R (edge_ref (env_codec E) e) = Inr (Some (OCollab (CTrustEdge cur))) \<longrightarrow> ed_seq cur < ed_seq e)"
proof -
  let ?n = "edge_ref (env_codec E) e"
  have v: "verify_edge (env_ed E) M e" using assms by (simp add: publish_edge_def split: if_splits)
  then obtain obj where obj: "pinned_object E R ?n = Inr obj"
    and rest: "(case as_edge obj of
        Some cur \<Rightarrow> if ed_seq e \<le> ed_seq cur then Inl (PolicyViolation ''trust edge seq must be greater than the current edge's'')
          else put_pinned E R (OCollab (CTrustEdge e)) (\<lambda>_. ?n)
      | None \<Rightarrow> put_pinned E R (OCollab (CTrustEdge e)) (\<lambda>_. ?n)) = Inr (i, R')"
    using assms by (auto simp: publish_edge_def bind_res_Inr valid_name_iff)
  show ?thesis using v obj rest by (cases "as_edge obj") (auto simp: as_edge_def split: if_splits)
qed

lemma publish_repo_Inr:
  assumes "publish_repo E M R r = Inr (i, R')"
  shows "verify_repo (env_ed E) M r \<and> put_pinned E R (ORepoRecord r) (\<lambda>_. repo_ref (env_codec E) (rr_owner r) (rr_name r)) = Inr (i, R') \<and>
    (\<forall>cur. pinned_object E R (repo_ref (env_codec E) (rr_owner r) (rr_name r)) = Inr (Some (ORepoRecord cur)) \<longrightarrow> rr_seq cur < rr_seq r)"
proof -
  let ?n = "repo_ref (env_codec E) (rr_owner r) (rr_name r)"
  have v: "verify_repo (env_ed E) M r" using assms by (simp add: publish_repo_def split: if_splits)
  then obtain obj where obj: "pinned_object E R ?n = Inr obj"
    and rest: "(case obj of
        Some (ORepoRecord cur) \<Rightarrow>
          if rr_seq r \<le> rr_seq cur then Inl (PolicyViolation ''repo record seq must be greater than the current record's'')
          else put_pinned E R (ORepoRecord r) (\<lambda>_. ?n)
      | _ \<Rightarrow> put_pinned E R (ORepoRecord r) (\<lambda>_. ?n)) = Inr (i, R')"
    using assms by (auto simp: publish_repo_def bind_res_Inr valid_name_iff)
  show ?thesis
  proof (cases "\<exists>cur. obj = Some (ORepoRecord cur)")
    case True
    then show ?thesis using v obj rest by (auto split: if_splits)
  next
    case False
    with rest have "put_pinned E R (ORepoRecord r) (\<lambda>_. ?n) = Inr (i, R')" by (simp split: option.splits object.splits)
    with False v obj show ?thesis by simp
  qed
qed

lemma filed_at_name:
  "filed (profile_ref C k) (OCollab (CProfile p))" "filed (edge_ref C e) (OCollab (CTrustEdge e'))" "filed (repo_ref C k rn) (ORepoRecord r)"
  by (simp_all add: profile_ref_def edge_ref_def repo_ref_def starts_with_def COLLAB_PUBLIC_PREFIX_def)

context repo_stores
begin

lemma commit_delete:
  assumes "rinv rs" and "fits rs N" and "n \<in> N" and "commit_transaction (env_refs E) rs [DeleteRef n] = Inr rs'"
  shows "rinv rs' \<and> fits rs' N \<and> rabst rs' = (rabst rs)(n := None)"
  using rt.commit_refines [OF assms(1,2), of "[DeleteRef n]"] assms(3,4) by (simp add: op_effect_def)

lemma seq_keeps_trans:
  assumes "seq_keeps R S" and "seq_keeps S T"
  shows "seq_keeps R T"
  unfolding seq_keeps_def
proof (intro allI impI)
  fix n obj
  assume "pinned_object E R n = Inr (Some obj)" "filed n obj"
  then obtain o1 where "pinned_object E S n = Inr (Some o1)" "filed n o1" and 1: "o1 = obj \<or> record_seq obj < record_seq o1"
    using assms(1) unfolding seq_keeps_def by blast
  then obtain o2 where 2: "pinned_object E T n = Inr (Some o2)" "filed n o2" "o2 = o1 \<or> record_seq o1 < record_seq o2"
    using assms(2) unfolding seq_keeps_def by blast
  from 1 2(3) have "o2 = obj \<or> record_seq obj < record_seq o2" by auto
  with 2 show "\<exists>obj'. pinned_object E T n = Inr (Some obj') \<and> filed n obj' \<and> (obj' = obj \<or> record_seq obj < record_seq obj')" by blast
qed

lemma seq_keeps_same:
  assumes "r_refs R' = r_refs R" and "r_objects R' = r_objects R"
  shows "seq_keeps R R'"
proof -
  have "pinned_object E R' n = pinned_object E R n" for n by (simp add: pinned_object_def assms cong: option.case_cong)
  then show ?thesis by (simp add: seq_keeps_def)
qed

lemma collab_step_keeps:
  assumes "ocodec_ok (env_codec E)" and "\<And>data. storable data" and "\<And>rs N. fits rs N"
    and "inj_on (object_id (env_codec E)) X" and "fine X R"
    and "\<And>obj. obj \<in> objs \<Longrightarrow> \<exists>data \<in> X. serialize (env_codec E) obj = Inr data"
    and "collab_step E M objs R R'"
  shows "fine X R' \<and> seq_keeps R R'"
  using assms(7)
proof cases
  case (cs_put obj i)
  obtain data where "serialize (env_codec E) obj = Inr data" "data \<in> X" using assms(6) [OF cs_put(1)] by blast
  note put = repo_put_fine [OF assms(1,2,4,5) this cs_put(2)]
  have "seq_keeps R R'"
    by (rule seq_keeps_pin [OF assms(3) _ _ put(4), where m = "[]" and v = "rabst (r_refs R) []"])
      (use assms(5) put(1,3) filed_names(8) in \<open>auto simp: fine_def\<close>)
  with put(1) show ?thesis by simp
next
  case (cs_profile p i)
  note pub = publish_profile_Inr [OF cs_profile(2)]
  show ?thesis
    by (rule publish_seq_keeps [OF assms(1-5) assms(6) [OF cs_profile(1)] _ filed_at_name(1)])
      (use pub in \<open>auto dest!: filed_names(1)\<close>)
next
  case (cs_edge e i)
  note pub = publish_edge_Inr [OF cs_edge(2)]
  show ?thesis
    by (rule publish_seq_keeps [OF assms(1-5) assms(6) [OF cs_edge(1)] _ filed_at_name(2)])
      (use pub in \<open>auto dest!: filed_names(2)\<close>)
next
  case (cs_repo r i)
  note pub = publish_repo_Inr [OF cs_repo(2)]
  show ?thesis
    by (rule publish_seq_keeps [OF assms(1-5) assms(6) [OF cs_repo(1)] _ filed_at_name(3)])
      (use pub in \<open>auto dest!: filed_names(3)\<close>)
next
  case (cs_proposal cp i)
  then show ?thesis
    by (intro other_seq_keeps [OF assms(1-5) assms(6) [OF cs_proposal(1)]])
      (auto simp: publish_proposal_pinned filed_names split: if_splits)
next
  case (cs_comment c i)
  then show ?thesis
    by (intro other_seq_keeps [OF assms(1-5) assms(6) [OF cs_comment(1)]])
      (auto simp: add_comment_def bind_res_Inr filed_names split: if_splits)
next
  case (cs_post po i)
  then show ?thesis
    by (intro other_seq_keeps [OF assms(1-5) assms(6) [OF cs_post(1)]])
      (auto simp: publish_post_def filed_names split: if_splits)
next
  case (cs_relay pin)
  then obtain i where "put_pinned E R (OBlob \<lparr>blob_data = mc_pin M pin\<rparr>) (\<lambda>_. relay_ref (env_codec E) (rp_key pin)) = Inr (i, R')"
    by (auto simp: add_relay_def bind_res_Inr)
  then show ?thesis by (intro other_seq_keeps [OF assms(1-5) assms(6) [OF cs_relay(1)]]) (auto simp: filed_names)
next
  case (cs_unrelay k b)
  show ?thesis
  proof (cases b)
    case False
    then show ?thesis using cs_unrelay assms(5) by (auto simp: remove_relay_def bind_res_Inr intro: seq_keeps_same split: if_splits)
  next
    case True
    then obtain rs where rs: "commit_transaction (env_refs E) (r_refs R) [DeleteRef (relay_ref (env_codec E) k)] = Inr rs" "R' = R\<lparr>r_refs := rs\<rparr>"
      using cs_unrelay by (auto simp: remove_relay_def repo_commit_def bind_res_Inr valid_name_iff split: if_splits)
    have del: "rinv rs \<and> rabst rs = (rabst (r_refs R))(relay_ref (env_codec E) k := None)"
      using commit_delete [OF _ assms(3) _ rs(1), of UNIV] assms(5) by (simp add: fine_def)
    have "seq_keeps R R'"
      by (rule seq_keeps_pin [OF assms(3), where m = "relay_ref (env_codec E) k" and v = None])
        (use del rs(2) assms(5) filed_names(7) in \<open>auto simp: fine_def\<close>)
    with del rs(2) assms(5) show ?thesis by (simp add: fine_def)
  qed
next
  case (cs_advance name sid expected acc res)
  show ?thesis
  proof (cases res)
    case (Inl e)
    then obtain log where "R' = R\<lparr>r_audit := log\<rparr>" using cs_advance advance_failure_changes_audit_only by blast
    with assms(5) show ?thesis by (auto simp: fine_def intro: seq_keeps_same)
  next
    case (Inr u)
    have inv: "rinv (r_refs R)" using assms(5) by (simp add: fine_def)
    have "advance_timeline_expecting E R name sid expected acc = (Inr (), R')" using cs_advance Inr by simp
    from advance_Inr [OF inv assms(3) UNIV_I this] obtain t rs log where t: "rabst (r_refs R) name = Some (RTimeline t)"
      "rinv rs" "rabst rs = (rabst (r_refs R))(name \<mapsto> RTimeline (t\<lparr>tl_head := sid\<rparr>))" "R' = R\<lparr>r_refs := rs, r_audit := log\<rparr>"
      by blast
    have "seq_keeps R R'"
      by (rule seq_keeps_pin [OF assms(3) inv, where m = name and v = "Some (RTimeline (t\<lparr>tl_head := sid\<rparr>))"])
        (use t pinned_object_tag [OF inv assms(3) UNIV_I, of name] in auto)
    with t assms(5) show ?thesis by (simp add: fine_def)
  qed
qed

lemma collab_steps_keep:
  assumes "ocodec_ok (env_codec E)" and "\<And>data. storable data" and "\<And>rs N. fits rs N"
    and "collision_free (env_codec E) (ran (oabst (r_objects R))) objs"
    and "oinv (r_objects R)" and "rinv (r_refs R)" and "st.addressed (env_codec E) (r_objects R)" and "readable (repo_get E R)"
    and "(collab_step E M objs)\<^sup>*\<^sup>* R R'"
  shows "seq_keeps R R'"
proof -
  obtain X where X: "ran (oabst (r_objects R)) \<subseteq> X" "inj_on (object_id (env_codec E)) X"
    "\<And>obj. obj \<in> objs \<Longrightarrow> \<exists>data \<in> X. serialize (env_codec E) obj = Inr data"
    using assms(4) by (rule collision_freeD) blast
  have "fine X R" using X(1) assms(5-8) by (simp add: fine_def st.good_def)
  from assms(9) this have "fine X R' \<and> seq_keeps R R'"
  proof (induction rule: rtranclp_induct)
    case base
    then show ?case by (simp add: seq_keeps_same)
  next
    case (step S T)
    then have "fine X T" "seq_keeps S T" "seq_keeps R S"
      using collab_step_keeps [OF assms(1-3) X(2) _ X(3) step.hyps(2)] by blast+
    then show ?case using seq_keeps_trans by blast
  qed
  then show ?thesis ..
qed

end

text \<open>
  C18. Sequence numbers never go back. Whatever records are published and whatever timelines move in
  between, the profile, trust edge or repository record pinned under a name is, at the end, the one from
  the start or one of the same kind with a strictly greater sequence number: it is never replaced by a
  stale one, never altered in place and never lost.
\<close>

theorem sequence_numbers_only_grow:
  assumes "ocodec_ok C" and "collision_free C (ran (map_of (r_objects R))) objs"
    and "mem_inv (r_objects R)" and "mr_inv (r_refs R)" and "memst.addressed C (r_objects R)"
    and "readable (repo_get (memory_env C ed) R)" and "(collab_step (memory_env C ed) M objs)\<^sup>*\<^sup>* R R'"
    and "pinned_object (memory_env C ed) R n = Inr (Some obj)" and "filed n obj"
  shows "\<exists>obj'. pinned_object (memory_env C ed) R' n = Inr (Some obj') \<and> filed n obj' \<and>
    (obj' = obj \<or> record_seq obj < record_seq obj')"
proof -
  have "memrepo.seq_keeps C ed R R'"
    by (rule memrepo.collab_steps_keep [OF _ TrueI TrueI _ _ _ _ assms(6,7)]) (use assms(1-5) in simp_all)
  with assms(8,9) show ?thesis by (simp add: memrepo.seq_keeps_def)
qed

section \<open>Listings\<close>

lemma list_all2_members:
  assumes "list_all2 P xs ys"
  shows "y \<in> set ys \<Longrightarrow> \<exists>x \<in> set xs. P x y" and "x \<in> set xs \<Longrightarrow> \<exists>y \<in> set ys. P x y"
  using assms by (induction rule: list_all2_induct) auto

lemma fold_res_collect:
  assumes "\<And>x. x \<in> set xs \<Longrightarrow> \<exists>ys. (\<forall>out. f x out = Inr (out @ ys)) \<and> P x ys"
  shows "\<exists>yss. fold_res f xs out = Inr (out @ concat yss) \<and> list_all2 P xs yss"
  using assms
proof (induction xs arbitrary: out)
  case (Cons x xs)
  obtain ys where ys: "\<forall>out. f x out = Inr (out @ ys)" "P x ys" using Cons.prems by force
  obtain yss where "fold_res f xs (out @ ys) = Inr ((out @ ys) @ concat yss)" "list_all2 P xs yss"
    using Cons.IH [of "out @ ys"] Cons.prems by force
  with ys show ?case by (intro exI [of _ "ys # yss"]) simp
qed simp

context repo_stores
begin

text \<open>A scan meets every tag under the prefix, provided no timeline is there.\<close>

lemma scan_prefix_all:
  assumes "\<And>rs N. fits rs N" and "rinv (r_refs R)" and "readable (repo_get E R)"
    and "\<And>n r. rabst (r_refs R) n = Some r \<Longrightarrow> starts_with prefix n \<Longrightarrow> \<exists>t. r = RTag t"
  shows "\<exists>out. scan_prefix E R prefix f = Inr out \<and>
    set out = {x. \<exists>n t found. rabst (r_refs R) n = Some (RTag t) \<and> starts_with prefix n \<and>
      repo_get E R (tag_target t) = Inr found \<and> x \<in> set (f n (tag_target t) found)}"
proof -
  obtain ns where ns: "rb_list (env_refs E) (r_refs R) prefix = Inr ns" "set ns = {n \<in> dom (rabst (r_refs R)). starts_with prefix n}"
    using rt.list_law [OF assms(2)] by blast
  let ?step = "\<lambda>name out. bind_res (get_tag (env_refs E) (r_refs R) name) (\<lambda>found. case found of
         None \<Rightarrow> Inr out
       | Some tag \<Rightarrow> bind_res (repo_get E R (tag_target tag)) (\<lambda>obj. Inr (out @ f name (tag_target tag) obj)))"
  let ?P = "\<lambda>n ys. \<exists>t found. rabst (r_refs R) n = Some (RTag t) \<and> repo_get E R (tag_target t) = Inr found \<and> ys = f n (tag_target t) found"
  have step: "\<exists>ys. (\<forall>out. ?step n out = Inr (out @ ys)) \<and> ?P n ys" if "n \<in> set ns" for n
  proof -
    from that ns(2) obtain r where "rabst (r_refs R) n = Some r" "starts_with prefix n" by auto
    with assms(4) obtain t where t: "rabst (r_refs R) n = Some (RTag t)" by blast
    obtain found where "repo_get E R (tag_target t) = Inr found" using assms(3) by (auto simp: readable_def)
    with t show ?thesis by (intro exI [of _ "f n (tag_target t) found"]) (simp add: get_tag_abst [OF assms(2,1) UNIV_I])
  qed
  have "\<exists>yss. fold_res ?step ns [] = Inr ([] @ concat yss) \<and> list_all2 ?P ns yss"
    by (rule fold_res_collect) (rule step)
  then obtain yss where yss: "fold_res ?step ns [] = Inr (concat yss)" "list_all2 ?P ns yss" unfolding append_Nil by blast
  have "set (concat yss) = {x. \<exists>n t found. rabst (r_refs R) n = Some (RTag t) \<and> starts_with prefix n \<and>
      repo_get E R (tag_target t) = Inr found \<and> x \<in> set (f n (tag_target t) found)}" (is "_ = ?S")
  proof (intro equalityI subsetI)
    fix x
    assume "x \<in> set (concat yss)"
    then obtain ys where "ys \<in> set yss" "x \<in> set ys" by auto
    then obtain n where "n \<in> set ns" "?P n ys" using list_all2_members(1) [OF yss(2)] by blast
    with ns(2) \<open>x \<in> set ys\<close> show "x \<in> ?S" by auto
  next
    fix x
    assume "x \<in> ?S"
    then obtain n t found where x: "rabst (r_refs R) n = Some (RTag t)" "starts_with prefix n"
      "repo_get E R (tag_target t) = Inr found" "x \<in> set (f n (tag_target t) found)" by blast
    then have "n \<in> set ns" using ns(2) by auto
    then obtain ys where "ys \<in> set yss" "?P n ys" using list_all2_members(2) [OF yss(2)] by blast
    with x show "x \<in> set (concat yss)" by auto
  qed
  then show ?thesis using yss(1) by (simp add: scan_prefix_def scan_tags_def ns(1))
qed

lemma post_listed:
  assumes "ocodec_ok (env_codec E)" and "\<And>data. storable data" and "\<And>rs N. fits rs N"
    and "inj_on (object_id (env_codec E)) X" and "fine X R" and "\<exists>data \<in> X. serialize (env_codec E) (OPost p) = Inr data"
    and "\<And>n r. rabst (r_refs R) n = Some r \<Longrightarrow> starts_with BOARD_PREFIX n \<Longrightarrow> \<exists>t. r = RTag t"
    and "publish_post E M R p = Inr (i, R')" and "po_board p = board \<or> (\<exists>c. po_board p = board @ ''/'' @ c)"
  shows "\<exists>out. list_posts E M R' board = Inr out \<and> (i, p) \<in> set out \<and>
    (\<forall>(j, q) \<in> set out. verify_post (env_ed E) M q \<and> repo_get E R' j = Inr (Some (OPost q)))"
proof -
  let ?name = "BOARD_PREFIX @ po_board p @ ''/'' @ oid_display i"
  let ?f = "\<lambda>_ i obj. case as_post (env_ed E) M obj of Some p \<Rightarrow> [(i, p)] | None \<Rightarrow> []"
  obtain data where data: "serialize (env_codec E) (OPost p) = Inr data" "data \<in> X" using assms(6) by blast
  have v: "verify_post (env_ed E) M p" and
    put: "put_pinned E R (OPost p) (\<lambda>i. BOARD_PREFIX @ po_board p @ ''/'' @ oid_display i) = Inr (i, R')"
    using assms(8) by (auto simp: publish_post_def split: if_splits)
  note pin = put_pinned_fine [OF assms(1-5) data put]
  have sw: "starts_with (BOARD_PREFIX @ board @ ''/'') ?name" using assms(9) by (auto simp: starts_with_def)
  have "starts_with BOARD_PREFIX n" if "starts_with (BOARD_PREFIX @ board @ ''/'') n" for n
    using that unfolding starts_with_def by (metis append_eq_conv_conj append_take_drop_id append_assoc)
  then have tags: "\<exists>t. r = RTag t" if "rabst (r_refs R') n = Some r" "starts_with (BOARD_PREFIX @ board @ ''/'') n" for n r
    using that assms(7) [of n r] unfolding pin(3) by (auto split: if_splits)
  have fine: "rinv (r_refs R')" "readable (repo_get E R')" using pin(1) by (simp_all add: fine_def st.good_def)
  have "\<exists>out. list_posts E M R' board = Inr out \<and>
      set out = {x. \<exists>n t found. rabst (r_refs R') n = Some (RTag t) \<and> starts_with (BOARD_PREFIX @ board @ ''/'') n \<and>
        repo_get E R' (tag_target t) = Inr found \<and> x \<in> set (?f n (tag_target t) found)}"
    unfolding list_posts_def by (rule scan_prefix_all [OF assms(3) fine]) (rule tags)
  then obtain out where out: "list_posts E M R' board = Inr out"
    "set out = {x. \<exists>n t found. rabst (r_refs R') n = Some (RTag t) \<and> starts_with (BOARD_PREFIX @ board @ ''/'') n \<and>
      repo_get E R' (tag_target t) = Inr found \<and> x \<in> set (?f n (tag_target t) found)}" by blast
  have "(i, p) \<in> set out"
    unfolding out(2) mem_Collect_eq
    by (rule exI [of _ ?name], rule exI [of _ "\<lparr>tag_target = i, tag_created_at = 0, tag_message = None\<rparr>"], rule exI [of _ "Some (OPost p)"])
      (use pin(2,3) v sw in \<open>simp add: as_post_def\<close>)
  moreover have "verify_post (env_ed E) M q \<and> repo_get E R' j = Inr (Some (OPost q))" if jq: "(j, q) \<in> set out" for j q
  proof -
    obtain t :: tag and found where t: "repo_get E R' (tag_target t) = Inr found" "(j, q) \<in> set (?f [] (tag_target t) found)"
      using jq unfolding out(2) mem_Collect_eq by blast
    then have "as_post (env_ed E) M found = Some q" "j = tag_target t" by (auto split: option.splits)
    with t(1) show ?thesis by (auto simp: as_post_def split: option.splits object.splits if_splits)
  qed
  ultimately show ?thesis using out(1) by blast
qed

end

text \<open>
  A published post is listed, under its id and as it was signed, on the board it names; and every entry
  of a listing is stored and carries a valid signature of its author. A board is found by the prefix of
  its tags, so the post is also listed on each board whose name, followed by a slash, its board's name
  starts with: a post on \<open>a/b\<close> appears on \<open>a\<close>, where it was not made.
\<close>

lemma published_post_is_listed:
  assumes "ocodec_ok C" and "collision_free C (ran (map_of (r_objects R))) {OPost p}"
    and "mem_inv (r_objects R)" and "mr_inv (r_refs R)" and "memst.addressed C (r_objects R)"
    and "readable (repo_get (memory_env C ed) R)"
    and "\<And>n r. map_of (r_refs R) n = Some r \<Longrightarrow> starts_with BOARD_PREFIX n \<Longrightarrow> \<exists>t. r = RTag t"
    and "publish_post (memory_env C ed) M R p = Inr (i, R')"
    and "po_board p = board \<or> (\<exists>c. po_board p = board @ ''/'' @ c)"
  shows "\<exists>out. list_posts (memory_env C ed) M R' board = Inr out \<and> (i, p) \<in> set out \<and>
    (\<forall>(j, q) \<in> set out. verify_post ed M q \<and> repo_get (memory_env C ed) R' j = Inr (Some (OPost q)))"
proof -
  obtain X where X: "ran (map_of (r_objects R)) \<subseteq> X" "inj_on (object_id C) X"
    "\<And>obj. obj \<in> {OPost p} \<Longrightarrow> \<exists>data \<in> X. serialize C obj = Inr data"
    using assms(2) by (rule collision_freeD) blast
  have "memrepo.fine C ed X R" using X(1) assms(3-6) by (simp add: memrepo.fine_def memst.good_def)
  from memrepo.post_listed [where C = C and ed = ed, OF _ TrueI TrueI _ this _ _ assms(8,9)] X(2) X(3) [of "OPost p"] assms(1,7)
  show ?thesis by simp
qed

section \<open>Merging a proposal\<close>

lemma as_proposal_Some: "as_proposal ed M obj = Some p \<longleftrightarrow> obj = Some (OChangeProposal p) \<and> verify_proposal ed M p"
  by (auto simp: as_proposal_def split: option.splits object.splits if_splits)

lemma merge_heads_Inr:
  assumes "merge_heads E M R i = Inr (source, target, source_head, target_head)"
  obtains p s t where "get_proposal E M R i = Inr (Some p)" and "source = cp_source p" and "target = cp_target p"
    and "get_timeline (env_refs E) (r_refs R) source = Inr (Some s)" and "source_head = tl_head s"
    and "get_timeline (env_refs E) (r_refs R) target = Inr (Some t)" and "target_head = tl_head t"
  using assms by (auto simp: merge_heads_def bind_res_Inr valid_name_iff split: option.splits)

text \<open>The snapshot that records a merge, and everything that a merge stores.\<close>

definition merge_commit :: "ocodec \<Rightarrow> (string, oid) btree \<Rightarrow> oid list \<Rightarrow> string \<Rightarrow> u64 \<Rightarrow> string \<Rightarrow> snapshot" where
  "merge_commit C files ps author' created message' =
     \<lparr>root = obj_id C (dir_tree C (dir_of files)), parents = ps, author = author', created_at = created, message = message'\<rparr>"

definition merge_writes ::
  "('o, 'r, 'a) repo_env \<Rightarrow> msg_codec \<Rightarrow> ('o, 'r, 'a) repository \<Rightarrow> oid \<Rightarrow> string \<Rightarrow> u64 \<Rightarrow> string \<Rightarrow> accessor \<Rightarrow> object set" where
  "merge_writes E M R i author' created message' acc =
     (case merge_heads E M R i of
        Inl _ \<Rightarrow> {}
      | Inr (source, target, sh, th) \<Rightarrow>
          (case merge_timelines E R source target acc of
             Inl _ \<Rightarrow> {}
           | Inr result \<Rightarrow> insert (OSnapshot (merge_commit (env_codec E) (merged result) [th, sh] author' created message'))
               (dir_objects (env_codec E) (dir_of (merged result)))))"

context repo_stores
begin

lemma merge_snapshot_stored:
  fixes author' created message'
  assumes "ocodec_ok (env_codec E)" and "\<And>data. storable data" and "inj_on (object_id (env_codec E)) X"
    and "st.good (env_codec E) X (r_objects R)"
    and "\<And>obj. obj \<in> insert (OSnapshot sn) (dir_objects (env_codec E) (dir_of files)) \<Longrightarrow> \<exists>data \<in> X. serialize (env_codec E) obj = Inr data"
    and "sn = merge_commit (env_codec E) files ps author' created message'"
  shows "\<exists>s. merge_snapshot E R files ps author' created message' = Inr (obj_id (env_codec E) (OSnapshot sn), R\<lparr>r_objects := s\<rparr>) \<and>
    (\<forall>obj \<in> insert (OSnapshot sn) (dir_objects (env_codec E) (dir_of files)). repo_get E (R\<lparr>r_objects := s\<rparr>) (obj_id (env_codec E) obj) = Inr (Some obj)) \<and>
    (\<forall>j obj. repo_get E R j = Inr (Some obj) \<longrightarrow> repo_get E (R\<lparr>r_objects := s\<rparr>) j = Inr (Some obj))"
proof -
  let ?C = "env_codec E" and ?B = "env_objects E"
  have "st.stores ?C X (dir_of files)" by (rule st.store_dir_correct [OF assms(1-3)])
  then obtain s1 where s1: "store_dir ?B ?C (dir_of files) (r_objects R) = Inr (obj_id ?C (dir_tree ?C (dir_of files)), s1)"
    "st.good ?C X s1" "oabst (r_objects R) \<subseteq>\<^sub>m oabst s1"
    "\<forall>obj \<in> dir_objects ?C (dir_of files). ost_get ?B ?C s1 (obj_id ?C obj) = Inr (Some obj)"
    using assms(4,5) unfolding st.stores_def by blast
  obtain data where data: "serialize ?C (OSnapshot sn) = Inr data" "data \<in> X" using assms(5) by blast
  obtain s2 where s2: "ost_put ?B ?C s1 (OSnapshot sn) = Inr (obj_id ?C (OSnapshot sn), s2)"
    "st.good ?C X s2" "oabst s1 \<subseteq>\<^sub>m oabst s2" "ost_get ?B ?C s2 (obj_id ?C (OSnapshot sn)) = Inr (Some (OSnapshot sn))"
    using st.put_good [OF assms(1-3) s1(2) data] by blast
  have "merge_snapshot E R files ps author' created message' = Inr (obj_id ?C (OSnapshot sn), R\<lparr>r_objects := s2\<rparr>)"
    using s1(1) s2(1) by (simp add: merge_snapshot_def build_tree_def put_snapshot_def assms(6) merge_commit_def)
  moreover have "ost_get ?B ?C s2 j = Inr (Some obj)" if "ost_get ?B ?C s1 j = Inr (Some obj)" for j obj
    by (rule st.get_mono [OF s1(2) s2(2,3) that])
  moreover have "ost_get ?B ?C s1 j = Inr (Some obj)" if "repo_get E R j = Inr (Some obj)" for j obj
    by (rule st.get_mono [OF assms(4) s1(2,3) that])
  ultimately show ?thesis using s1(4) s2(4) by (intro exI [of _ s2]) auto
qed

end

text \<open>The runs of a merge: one that stops before the target moves, or one that reaches the move.\<close>

lemma merge_proposal_cases:
  assumes "merge_proposal E M R i author' created message' acc = (res, R')"
  obtains (stopped) "R' = R" and "\<And>sid. res \<noteq> Inr (Merged sid)"
  | (moved) source target sh th result sid R1 adv where
      "merge_heads E M R i = Inr (source, target, sh, th)"
      "merge_timelines E R source target acc = Inr result" "conflicts result = []"
      "merge_snapshot E R (merged result) [th, sh] author' created message' = Inr (sid, R1)"
      "advance_timeline_expecting E R1 target sid (Some th) acc = (adv, R')"
      "res = (case adv of Inl e \<Rightarrow> Inl e | Inr _ \<Rightarrow> Inr (Merged sid))"
proof (cases "merge_heads E M R i")
  case (Inl e)
  with assms show ?thesis by (intro stopped) (auto simp: merge_proposal_def)
next
  case heads: (Inr hs)
  obtain source target sh th where hs: "hs = (source, target, sh, th)" by (cases hs)
  show ?thesis
  proof (cases "merge_timelines E R source target acc")
    case (Inl e)
    with assms heads hs show ?thesis by (intro stopped) (auto simp: merge_proposal_def)
  next
    case result: (Inr result)
    show ?thesis
    proof (cases "conflicts result = []")
      case False
      with assms heads hs result show ?thesis by (intro stopped) (auto simp: merge_proposal_def)
    next
      case True
      show ?thesis
      proof (cases "merge_snapshot E R (merged result) [th, sh] author' created message'")
        case (Inl e)
        with assms heads hs result True show ?thesis by (intro stopped) (auto simp: merge_proposal_def)
      next
        case snap: (Inr sn)
        obtain sid R1 where sn: "sn = (sid, R1)" by (cases sn)
        obtain adv R2 where adv: "advance_timeline_expecting E R1 target sid (Some th) acc = (adv, R2)" by fastforce
        from assms heads hs result True snap sn adv
        have "R2 = R'" "res = (case adv of Inl e \<Rightarrow> Inl e | Inr _ \<Rightarrow> Inr (Merged sid))"
          by (auto simp: merge_proposal_def split: sum.splits)
        with heads hs result True snap sn adv show ?thesis by (intro moved [of source target sh th result]) auto
      qed
    qed
  qed
qed

text \<open>
  C19. Merging a proposal is safe. The store is readable and addressed by content, the backend stores all objects
  and can hold the refs of the proposal, and what the merge writes does not collide with what is stored. If the merge reports
  success, the proposal is stored and signed by its author, the three-way merge of its two timelines had no conflict, and the
  only ref that has changed is its target: a timeline that stood at the very head the merge was computed against,
  and now stands at a stored snapshot whose parents are that head and the head of the source and whose root, stored
  too, is the directory of the merged files; nothing stored before is lost. If it reports conflicts or fails, no ref has changed.
\<close>

theorem merge_proposal_safe:
  assumes "repo_stores oinv oabst storable rinv fits rabst E" and "rinv (r_refs R)"
    and "\<And>p. get_proposal E M R i = Inr (Some p) \<Longrightarrow> fits (r_refs R) {cp_source p, cp_target p}"
    and "ocodec_ok (env_codec E)" and "\<And>data. storable data" and "oinv (r_objects R)" and "readable (repo_get E R)"
    and "\<And>j data. oabst (r_objects R) j = Some data \<Longrightarrow> object_id (env_codec E) data = j"
    and "collision_free (env_codec E) (ran (oabst (r_objects R))) (merge_writes E M R i author' created message' acc)"
    and "merge_proposal E M R i author' created message' acc = (res, R')"
  shows "case res of
      Inr (Merged sid) \<Rightarrow> \<exists>p s t result sn. get_proposal E M R i = Inr (Some p) \<and> verify_proposal (env_ed E) M p \<and>
        rabst (r_refs R) (cp_source p) = Some (RTimeline s) \<and> rabst (r_refs R) (cp_target p) = Some (RTimeline t) \<and>
        merge_timelines E R (cp_source p) (cp_target p) acc = Inr result \<and> conflicts result = [] \<and>
        sn = merge_commit (env_codec E) (merged result) [tl_head t, tl_head s] author' created message' \<and>
        repo_get E R' sid = Inr (Some (OSnapshot sn)) \<and>
        repo_get E R' (root sn) = Inr (Some (dir_tree (env_codec E) (dir_of (merged result)))) \<and>
        (\<forall>j obj. repo_get E R j = Inr (Some obj) \<longrightarrow> repo_get E R' j = Inr (Some obj)) \<and>
        rabst (r_refs R') = (rabst (r_refs R))(cp_target p \<mapsto> RTimeline (t\<lparr>tl_head := sid\<rparr>))
    | _ \<Rightarrow> r_refs R' = r_refs R"
  using assms(10)
proof (cases rule: merge_proposal_cases)
  case stopped
  then show ?thesis by (auto split: sum.splits proposal_merge.splits)
next
  case (moved source target sh th result sid R1 adv)
  let ?C = "env_codec E"
  define sn where "sn = merge_commit ?C (merged result) [th, sh] author' created message'"
  obtain X where X: "ran (oabst (r_objects R)) \<subseteq> X" "inj_on (object_id ?C) X"
    "\<And>obj. obj \<in> insert (OSnapshot sn) (dir_objects ?C (dir_of (merged result))) \<Longrightarrow> \<exists>data \<in> X. serialize ?C obj = Inr data"
    using assms(9) by (rule collision_freeD) (use moved(1,2) in \<open>auto simp: merge_writes_def sn_def\<close>)
  have sb: "storage_backend oinv oabst storable (env_objects E)" using assms(1) by (simp add: repo_stores_def)
  have "storage_backend.good oinv oabst (env_objects E) ?C X (r_objects R)"
    using X(1) assms(6-8) by (simp add: storage_backend.good_def [OF sb] storage_backend.addressed_def [OF sb])
  from repo_stores.merge_snapshot_stored [OF assms(1,4,5) X(2) this X(3) sn_def] moved(4)
  obtain s where sid: "sid = obj_id ?C (OSnapshot sn)" and R1: "R1 = R\<lparr>r_objects := s\<rparr>"
    and new: "\<And>obj. obj \<in> insert (OSnapshot sn) (dir_objects ?C (dir_of (merged result))) \<Longrightarrow> repo_get E R1 (obj_id ?C obj) = Inr (Some obj)"
    and old: "\<And>j obj. repo_get E R j = Inr (Some obj) \<Longrightarrow> repo_get E R1 j = Inr (Some obj)" by auto
  show ?thesis
  proof (cases adv)
    case (Inl e)
    with moved(5) have "R' = R1\<lparr>r_audit := r_audit R'\<rparr>" using advance_failure_changes_audit_only by blast
    then have "r_refs R' = r_refs R1" by (metis repository.select_convs(2) repository.surjective repository.update_convs(5))
    then show ?thesis using Inl moved(6) R1 by simp
  next
    case (Inr u)
    obtain p st t where p: "get_proposal E M R i = Inr (Some p)" "source = cp_source p" "target = cp_target p"
      "get_timeline (env_refs E) (r_refs R) source = Inr (Some st)" "sh = tl_head st"
      "get_timeline (env_refs E) (r_refs R) target = Inr (Some t)" "th = tl_head t"
      using moved(1) by (rule merge_heads_Inr)
    have fits: "fits (r_refs R) {source, target}" using assms(3) [OF p(1)] p(2,3) by simp
    note tl = repo_stores.get_timeline_Some [OF assms(1,2) fits]
    have ab: "rabst (r_refs R) source = Some (RTimeline st)" "rabst (r_refs R) target = Some (RTimeline t)" using p(4,6) tl by blast+
    have inv: "rinv (r_refs R1)" "fits (r_refs R1) {source, target}" using assms(2) fits R1 by simp_all
    have "advance_timeline_expecting E R1 target sid (Some th) acc = (Inr (), R')" using moved(5) Inr by simp
    from repo_stores.advance_Inr [OF assms(1) inv _ this] obtain rs log where R': "R' = R1\<lparr>r_refs := rs, r_audit := log\<rparr>"
      and ref: "rabst (r_refs R') = (rabst (r_refs R))(target \<mapsto> RTimeline (t\<lparr>tl_head := sid\<rparr>))" using ab(2) R1 by auto
    have same: "repo_get E R' = repo_get E R1" by (simp add: R')
    obtain fs ds where node: "dir_of (merged result) = DirNode fs ds" by (cases "dir_of (merged result)")
    have snap: "repo_get E R' sid = Inr (Some (OSnapshot sn))" unfolding same sid using new by blast
    have tree: "repo_get E R' (root sn) = Inr (Some (dir_tree ?C (dir_of (merged result))))"
      using new [of "dir_tree ?C (dir_of (merged result))"] unfolding same by (simp add: sn_def merge_commit_def node)
    have ver: "verify_proposal (env_ed E) M p" using p(1) by (auto simp: get_proposal_def bind_res_Inr as_proposal_Some)
    have res: "res = Inr (Merged sid)" using Inr moved(6) by simp
    show ?thesis
      unfolding res sum.case proposal_merge.case
      by (rule exI [of _ p], rule exI [of _ st], rule exI [of _ t], rule exI [of _ result], rule exI [of _ sn])
        (use p(1) ver ab [unfolded p(2,3)] moved(2,3) [unfolded p(2,3)] sn_def [unfolded p(5,7)] snap tree old [folded same] ref [unfolded p(3)]
          in \<open>intro conjI allI impI; assumption?; blast?\<close>)
  qed
qed

section \<open>Where a merge loses a file\<close>

text \<open>
  A file against a directory is not a conflict, and the file is lost. Let the target of a merge add
  the file \<open>a/b\<close> and the source the file \<open>a\<close>. The three-way merge finds no conflict and keeps both paths,
  but the tree that is built from them has \<open>a\<close> as a directory with \<open>b\<close> in it, whatever the store: the
  file of the source is not in the merged snapshot.
\<close>

lemma merge_drops_file:
  "conflicts (three_way_diff [] [(''a/b'', x)] [(''a'', y)]) = [] \<and>
   bt_get (merged (three_way_diff [] [(''a/b'', x)] [(''a'', y)])) ''a'' = Some y \<and>
   build_tree B C s (merged (three_way_diff [] [(''a/b'', x)] [(''a'', y)])) =
     bind_res (put_tree B C s [(''b'', \<lparr>te_id = x, te_kind = KBlob\<rparr>)]) (\<lambda>(i, s').
       put_tree B C s' [(''a'', \<lparr>te_id = i, te_kind = KTree\<rparr>)])"
proof -
  have diff: "three_way_diff [] [(''a/b'', x)] [(''a'', y)] = \<lparr>merged = [(''a'', y), (''a/b'', x)], conflicts = []\<rparr>"
    by (simp add: three_way_diff_def merge_key_def btset_of_def)
  have "dir_of [(''a'', y), (''a/b'', x)] = DirNode [(''a'', y)] [(''a'', DirNode [(''b'', x)] [])]"
    by (simp add: dir_of_def dir_empty_def dn_insert.simps)
  then show ?thesis
    by (cases "put_tree B C s [(''b'', \<lparr>te_id = x, te_kind = KBlob\<rparr>)]") (simp_all add: diff build_tree_def split_def)
qed

section \<open>Instances\<close>

definition ada_profile :: "u64 \<Rightarrow> profile" where
  "ada_profile seq = sign_profile plain_scheme flat_codec [7] ''ada'' [] [] [] seq"

lemma ada_profile_simps [simp]:
  "verify_profile plain_scheme flat_codec (ada_profile seq)" "pf_key (ada_profile seq) = [7]" "pf_seq (ada_profile seq) = seq"
  "ada_profile m = ada_profile n \<longleftrightarrow> m = n"
proof -
  show "verify_profile plain_scheme flat_codec (ada_profile seq)" unfolding ada_profile_def by (rule signed_verifies(1) [OF plain_scheme_ok])
  show key: "pf_key (ada_profile seq) = [7]" and seq: "pf_seq (ada_profile seq) = seq" for seq
    by (simp_all add: ada_profile_def sign_profile_def Let_def plain_scheme_def)
  show "ada_profile m = ada_profile n \<longleftrightarrow> m = n" using seq by metis
qed

definition ada_objects :: "object list" where
  "ada_objects = [OCollab (CProfile (ada_profile 1)), OCollab (CProfile (ada_profile 2))]"

abbreviation ada_env :: "(mem_store, mem_refs, mem_acl) repo_env" where
  "ada_env \<equiv> memory_env (table_codec ada_objects) plain_scheme"

abbreviation ada_name :: ref_name where
  "ada_name \<equiv> profile_ref (table_codec []) [7]"

definition ada_repo :: "(mem_store, mem_refs, mem_acl) repository" where
  "ada_repo = memory_repo\<lparr>r_objects := [(0, [0])], r_refs := [(ada_name, policy_tag 0)]\<rparr>"

lemma ada_name_eq: "profile_ref (table_codec ada_objects) [7] = ada_name"
  by (simp add: profile_ref_def fingerprint_def table_codec_def)

lemma ada_get: "repo_get ada_env ada_repo 0 = Inr (Some (OCollab (CProfile (ada_profile 1))))"
  by (simp add: ost_get_def memory_backend_def mem_get_def ada_repo_def memory_repo_def deserialize_def table_codec_def map_codec_def ada_objects_def)

lemma ada_pinned: "pinned_object ada_env ada_repo ada_name = Inr (Some (OCollab (CProfile (ada_profile 1))))"
  using ada_get by (simp add: pinned_object_def get_tag_def memory_refs_def mr_get_def) (simp add: ada_repo_def)

lemma ada_publishes: "\<exists>R'. publish_profile ada_env flat_codec ada_repo (ada_profile 2) = Inr (1, R')"
proof -
  have valid: "valid_name ada_name" by code_simp
  have put: "repo_put ada_env ada_repo (OCollab (CProfile (ada_profile 2))) = Inr (1, ada_repo\<lparr>r_objects := [(0, [0]), (1, [1])]\<rparr>)"
    by (simp add: repo_put_def ost_put_def serialize_def table_codec_def map_codec_def ada_objects_def object_id_def from_content_def
        memory_backend_def mem_exists_def mem_put_def ada_repo_def from_be_def)
  have "ref_name_new ada_name = Inr ada_name" using valid by (simp add: valid_name_iff)
  then show ?thesis
    by (simp add: publish_profile_def profile_of_def ada_name_eq ada_pinned as_profile_def put_pinned_def put repo_commit_def
        commit_transaction_def resolve_def memory_refs_def
        default_apply_atomic_def plan_step_def mr_set_def word_le_nat_alt)
qed

theorem sequence_numbers_only_grow_witness:
  "\<exists>R' p. publish_profile ada_env flat_codec ada_repo (ada_profile 2) = Inr (1, R') \<and>
     pinned_object ada_env R' ada_name = Inr (Some p) \<and> 1 \<le> record_seq p"
proof -
  obtain R' where R': "publish_profile ada_env flat_codec ada_repo (ada_profile 2) = Inr (1, R')" using ada_publishes ..
  then have step: "(collab_step ada_env flat_codec (set ada_objects))\<^sup>*\<^sup>* ada_repo R'"
    by (intro r_into_rtranclp cs_profile) (simp_all add: ada_objects_def)
  have free: "collision_free (table_codec ada_objects) (ran (map_of (r_objects ada_repo))) (set ada_objects)"
    by (rule table_collision_free) (auto simp: ada_objects_def ada_repo_def)
  have inv: "mem_inv (r_objects ada_repo)" "mr_inv (r_refs ada_repo)" "memst.addressed (table_codec ada_objects) (r_objects ada_repo)"
    by (auto simp: mem_inv_def mr_inv_def memst.addressed_def ada_repo_def object_id_def from_content_def table_codec_def from_be_def)
  have readable: "readable (repo_get ada_env ada_repo)"
    unfolding memory_env_simps by (rule readable_memory) (simp add: ada_repo_def deserialize_def table_codec_def map_codec_def ada_objects_def)
  have filed: "filed ada_name (OCollab (CProfile (ada_profile 1)))" by (rule filed_at_name)
  from sequence_numbers_only_grow [OF table_codec_ok free inv readable step ada_pinned filed]
  obtain p where "pinned_object ada_env R' ada_name = Inr (Some p)" "p = OCollab (CProfile (ada_profile 1)) \<or> 1 < record_seq p"
    by auto
  then have "1 \<le> record_seq p" by auto
  with R' \<open>pinned_object ada_env R' ada_name = Inr (Some p)\<close> show ?thesis by blast
qed

text \<open>A post on the board \<open>a/b\<close>.\<close>

definition hello_post :: post where
  "hello_post = sign_post plain_scheme flat_codec [7] ''a/b'' ''hello'' None 1"

abbreviation note_env :: "(mem_store, mem_refs, mem_acl) repo_env" where
  "note_env \<equiv> memory_env (table_codec [OPost hello_post]) plain_scheme"

lemma note_publishes: "\<exists>R'. publish_post note_env flat_codec memory_repo hello_post = Inr (0, R')"
proof -
  have valid: "valid_name (BOARD_PREFIX @ ''a/b'' @ ''/'' @ oid_display 0)" by code_simp
  have ver: "verify_post plain_scheme flat_codec hello_post" unfolding hello_post_def by (rule signed_verifies(5) [OF plain_scheme_ok])
  have board: "po_board hello_post = ''a/b''" by (simp add: hello_post_def sign_post_def Let_def)
  have put: "repo_put note_env memory_repo (OPost hello_post) = Inr (0, memory_repo\<lparr>r_objects := [(0, [0])]\<rparr>)"
    by (simp add: repo_put_def ost_put_def serialize_def table_codec_def map_codec_def object_id_def from_content_def
        memory_backend_def mem_exists_def mem_put_def memory_repo_def from_be_def)
  have "ref_name_new (BOARD_PREFIX @ ''a/b'' @ ''/'' @ oid_display 0) = Inr (BOARD_PREFIX @ ''a/b'' @ ''/'' @ oid_display 0)"
    using valid by (simp add: valid_name_iff)
  then show ?thesis
    by (simp add: publish_post_def ver board put_pinned_def put repo_commit_def commit_transaction_def resolve_def memory_refs_def
        default_apply_atomic_def plan_step_def mr_set_def word_le_nat_alt)
qed

text \<open>A proposal to merge \<open>dev\<close> into \<open>main\<close>, both at the same snapshot of an empty tree.\<close>

definition pull_request :: change_proposal where
  "pull_request = \<lparr>cp_author = [7], cp_source = ''dev'', cp_target = ''main'', cp_title = ''t'', cp_created_at = 0,
     cp_sig = take 64 (7 # str_bytes ''bole-change-proposal-v1'' @ [0, 1, 0, 7, 1, 1, 1, 0] @ str_bytes ''dev'' @
       [1, 1, 1, 1, 0] @ str_bytes ''main'' @ [1, 0] @ str_bytes ''t'' @ replicate 40 0)\<rparr>"

definition review_objects :: "object list" where
  "review_objects = [OTree \<lparr>entries = []\<rparr>,
     OSnapshot \<lparr>root = 0, parents = [], author = ''a'', created_at = 0, message = ''one''\<rparr>,
     OChangeProposal pull_request,
     OSnapshot \<lparr>root = 0, parents = [1, 1], author = ''m'', created_at = 2, message = ''merge''\<rparr>]"

definition review_repo :: "(mem_store, mem_refs, mem_acl) repository" where
  "review_repo = memory_repo\<lparr>r_objects := [(0, [0]), (1, [1]), (2, [2])],
     r_refs := [(''dev'', RTimeline \<lparr>tl_head = 1, tl_policy = FastForwardOnly, tl_created_at = 0,
         tl_kind = ''persistent'', tl_expires_at = None\<rparr>),
       (''main'', RTimeline \<lparr>tl_head = 1, tl_policy = FastForwardOnly, tl_created_at = 0,
         tl_kind = ''persistent'', tl_expires_at = None\<rparr>)]\<rparr>"

abbreviation review_env :: "(mem_store, mem_refs, mem_acl) repo_env" where
  "review_env \<equiv> memory_env (table_codec review_objects) plain_scheme"

lemma review_good:
  "mem_inv (r_objects review_repo)" "mr_inv (r_refs review_repo)" "readable (repo_get review_env review_repo)"
  "map_of (r_objects review_repo) j = Some data \<Longrightarrow> object_id (table_codec review_objects) data = j"
  subgoal by (simp add: mem_inv_def review_repo_def)
  subgoal by (simp add: mr_inv_def review_repo_def)
  subgoal unfolding memory_env_simps by (rule readable_memory) code_simp
  subgoal by (auto simp: review_repo_def object_id_def from_content_def table_codec_def from_be_def split: if_splits)
  done

lemma review_writes: "merge_writes review_env flat_codec review_repo 2 ''m'' 2 ''merge'' writer \<subseteq> set review_objects"
proof -
  have "merge_heads review_env flat_codec review_repo 2 = Inr (''dev'', ''main'', 1, 1)" by code_simp
  moreover have "merge_timelines review_env review_repo ''dev'' ''main'' writer = Inr \<lparr>merged = [], conflicts = []\<rparr>" by code_simp
  moreover have "obj_id (table_codec review_objects) (OTree \<lparr>entries = []\<rparr>) = 0" by code_simp
  ultimately show ?thesis
    by (simp add: merge_writes_def merge_commit_def dir_of_def dir_empty_def) (simp add: review_objects_def)
qed

theorem merge_proposal_safe_witness:
  "\<exists>R' p t sn. merge_proposal review_env flat_codec review_repo 2 ''m'' 2 ''merge'' writer = (Inr (Merged 3), R') \<and>
     verify_proposal plain_scheme flat_codec p \<and> repo_get review_env R' 3 = Inr (Some (OSnapshot sn)) \<and>
     map_of (r_refs R') = (map_of (r_refs review_repo))(cp_target p \<mapsto> RTimeline (t\<lparr>tl_head := 3\<rparr>))"
proof -
  have "fst (merge_proposal review_env flat_codec review_repo 2 ''m'' 2 ''merge'' writer) = Inr (Merged 3)" by code_simp
  then obtain R' where run: "merge_proposal review_env flat_codec review_repo 2 ''m'' 2 ''merge'' writer = (Inr (Merged 3), R')"
    by (metis prod.collapse)
  have ok: "ocodec_ok (env_codec review_env)" by (simp add: table_codec_ok)
  have free: "collision_free (env_codec review_env) (ran (map_of (r_objects review_repo)))
      (merge_writes review_env flat_codec review_repo 2 ''m'' 2 ''merge'' writer)"
    unfolding memory_env_simps
    by (rule table_collision_free [OF _ review_writes]) (auto simp: review_objects_def review_repo_def ran_def split: if_splits)
  have addr: "object_id (env_codec review_env) data = j" if "map_of (r_objects review_repo) j = Some data" for j data
    using review_good(4) [OF that] by simp
  from merge_proposal_safe [OF memrepo.repo_stores_axioms review_good(2) TrueI ok TrueI review_good(1,3) addr free run] run
  show ?thesis unfolding sum.case proposal_merge.case memory_env_simps by blast
qed

end
