(* ===== verification/History_Laws.thy ===== *)
theory History_Laws
  imports Sync_Laws Collab_Laws
begin

text \<open>
  History only grows. One step relation gathers the operations that write to a repository: those of
  \<^verbatim>\<open>src/repo/mod.rs\<close>, the publication of signed records, what a peer pushes, the packs that are received and
  the fetch from another repository. Pruning, collection, \<^verbatim>\<open>copy_to\<close>, the import from git and transactions on refs that
  a caller writes by hand are not among them.
\<close>

inductive history_step :: "('o, 'r, 'a) repo_env \<Rightarrow> msg_codec \<Rightarrow> ('o, 'r, 'a) repository \<Rightarrow> ('o, 'r, 'a) repository \<Rightarrow> bool"
  for E M where
  hs_local: "repo_step E R R' \<Longrightarrow> history_step E M R R'"
| hs_publish: "collab_step E M UNIV R R' \<Longrightarrow> history_step E M R R'"
| hs_push: "apply_push_ops E R acc ops = Inr (results, R') \<Longrightarrow> history_step E M R R'"
| hs_receive: "land_pack E Z pack R = (r, R') \<Longrightarrow> readable (repo_get E R') \<Longrightarrow> history_step E M R R'"
| hs_fetch: "fetch E Z R remote (F :: ('o, 'r, 'a) repo_env) S acc = Inr (tracked, R') \<Longrightarrow> readable (repo_get E R') \<Longrightarrow>
    history_step E M R R'"

inductive_cases history_stepE: "history_step E M R R'"

lemma reserved_records:
  "reserved (profile_ref C k)" "reserved (edge_ref C e)" "reserved (repo_ref C k rn)" "reserved (relay_ref C k)"
  "reserved (PROPOSALS_PREFIX @ x)" "reserved (COMMENTS_PREFIX @ x)" "reserved (BOARD_PREFIX @ x)"
  by (simp_all add: reserved_def starts_with_def profile_ref_def edge_ref_def repo_ref_def relay_ref_def prefix_defs)

lemma reserved_tracking: "tracking_ref remote n = Inr m \<Longrightarrow> reserved m"
  by (auto simp: tracking_ref_def reserved_def starts_with_def valid_name_iff split: sum.splits)

lemma fold_set_effect:
  assumes "fold_res op_effect (map (\<lambda>(k, v). SetRef k (f v)) kvs) m = Inr m'" and "n \<notin> fst ` set kvs"
  shows "m' n = m n"
  using assms by (induction kvs arbitrary: m) (auto simp: op_effect_def)

lemma transfer_lands:
  assumes "sync_transfer E Z R F S wants = Inr (n, R1)"
  obtains ds r where "land E ds R = (r, R1)"
proof (cases "R1 = R")
  case True
  then show ?thesis using that [of "[]"] by simp
next
  case False
  then obtain ds where "(case land E ds R of (Inl e, _) \<Rightarrow> Inl e | (Inr _, R') \<Rightarrow> Inr (length ds, R')) = Inr (n, R1)"
    using assms by (auto simp: sync_transfer_def bind_res_Inr split: if_splits)
  then show ?thesis using that [of ds] by (cases "land E ds R"; cases "fst (land E ds R)") auto
qed

context repo_stores
begin

lemma evolves_off_reserved:
  assumes "sound R'" and "\<And>n. \<not> reserved n \<Longrightarrow> rabst (r_refs R') n = rabst (r_refs R) n"
    and "\<And>j obj. repo_get E R j = Inr (Some obj) \<Longrightarrow> repo_get E R' j = Inr (Some obj)"
  shows "evolves R R'"
  using assms unfolding evolves_def by auto

lemma land_grows:
  assumes "oinv (r_objects R)" and "\<And>data. storable data" and "land E ds R = (r, R')"
  shows "\<exists>s. R' = R\<lparr>r_objects := s\<rparr> \<and> oinv s \<and> oabst (r_objects R) \<subseteq>\<^sub>m oabst s"
  using assms(1,3)
proof (induction ds arbitrary: R)
  case Nil
  then show ?case by (intro exI [of _ "r_objects R"]) simp
next
  case (Cons ic ds)
  obtain i c where ic: "ic = (i, c)" by fastforce
  show ?case
  proof (cases "put_raw (env_objects E) (env_codec E) (r_objects R) c")
    case (Inl e)
    with Cons.prems ic show ?thesis by (intro exI [of _ "r_objects R"]) simp
  next
    case (Inr p)
    obtain j s1 where p: "p = (j, s1)" by fastforce
    note res = st.put_raw_result [OF Cons.prems(1) assms(2) Inr [unfolded p]]
    have run: "land E ds (R\<lparr>r_objects := s1\<rparr>) = (r, R')" using Cons.prems(2) ic Inr p by simp
    have "oinv (r_objects (R\<lparr>r_objects := s1\<rparr>))" using res(2) by simp
    from Cons.IH [OF this run] obtain s where s: "R' = R\<lparr>r_objects := s\<rparr>" "oinv s" "oabst s1 \<subseteq>\<^sub>m oabst s" by auto
    moreover have "oabst (r_objects R) \<subseteq>\<^sub>m oabst s1" using res(3) by (auto simp: map_le_def)
    ultimately show ?thesis using map_le_trans by blast
  qed
qed

lemma land_evolves:
  assumes "sound R" and "\<And>data. storable data" and "land E ds R = (r, R')" and "readable (repo_get E R')"
  shows "evolves R R'"
proof -
  have inv: "oinv (r_objects R)" using assms(1) by (simp add: sound_def)
  obtain s where s: "R' = R\<lparr>r_objects := s\<rparr>" "oinv s" "oabst (r_objects R) \<subseteq>\<^sub>m oabst s"
    using land_grows [OF inv assms(2,3)] by blast
  have "repo_get E R' j = Inr (Some obj)" if "repo_get E R j = Inr (Some obj)" for j obj
    using st.ost_get_mono [OF inv s(2,3) that] s(1) by simp
  with s(1,2) assms(1,4) show ?thesis by (intro evolves_same_refs) (auto simp: sound_def)
qed

lemma put_pinned_evolves:
  assumes "sound R" and "\<And>data. storable data" and "\<And>rs N. fits rs N" and "ocodec_ok (env_codec E)"
    and "put_pinned E R obj name_of = Inr (i, R')" and "reserved (name_of i)"
  shows "evolves R R'"
proof -
  obtain R1 where R1: "repo_put E R obj = Inr (i, R1)" "repo_commit E R1 [SetRef (name_of i) (policy_tag i)] = Inr R'"
    using assms(5) by (rule put_pinned_Inr)
  have "evolves R R1" by (rule put_evolves [OF assms(1,2,4) R1(1)])
  moreover from this have "evolves R1 R'" by (intro set_evolves [OF _ assms(3) R1(2) assms(6)]) (simp add: evolves_def)
  ultimately show ?thesis by (rule evolves_trans)
qed

lemma unrelay_evolves:
  assumes "sound R" and "\<And>rs N. fits rs N" and "remove_relay E R k = Inr (b, R')"
  shows "evolves R R'"
proof (cases b)
  case False
  then have "R' = R" using assms(3) by (auto simp: remove_relay_def bind_res_Inr split: if_splits)
  with assms(1) show ?thesis by (intro evolves_same_refs) simp_all
next
  case True
  then obtain rs where rs: "commit_transaction (env_refs E) (r_refs R) [DeleteRef (relay_ref (env_codec E) k)] = Inr rs" "R' = R\<lparr>r_refs := rs\<rparr>"
    using assms(3) by (auto simp: remove_relay_def repo_commit_def bind_res_Inr valid_name_iff split: if_splits)
  have "rinv rs \<and> rabst rs = (rabst (r_refs R))(relay_ref (env_codec E) k := None)"
    using commit_delete [OF _ assms(2) _ rs(1), of UNIV] assms(1) by (simp add: sound_def)
  with rs(2) assms(1) show ?thesis
    by (intro evolves_off_reserved) (use reserved_records(4) in \<open>auto simp: sound_def\<close>)
qed

lemma publish_evolves:
  assumes "sound R" and "\<And>data. storable data" and "\<And>rs N. fits rs N" and "ocodec_ok (env_codec E)"
    and "collab_step E M objs R R'"
  shows "evolves R R'"
  using assms(5)
proof cases
  case (cs_relay pin)
  then obtain i where "put_pinned E R (OBlob \<lparr>blob_data = mc_pin M pin\<rparr>) (\<lambda>_. relay_ref (env_codec E) (rp_key pin)) = Inr (i, R')"
    by (auto simp: add_relay_def bind_res_Inr)
  then show ?thesis by (rule put_pinned_evolves [OF assms(1-4)]) (rule reserved_records)
next
  case (cs_unrelay k b)
  then show ?thesis using unrelay_evolves [OF assms(1,3)] by blast
next
  case (cs_advance name sid expected acc res)
  then show ?thesis using advance_evolves [OF assms(1,3)] by blast
next
  case (cs_put obj i)
  then show ?thesis using put_evolves [OF assms(1,2,4)] by blast
next
  case (cs_profile p i)
  then have "put_pinned E R (OCollab (CProfile p)) (\<lambda>_. profile_ref (env_codec E) (pf_key p)) = Inr (i, R')"
    using publish_profile_Inr by blast
  then show ?thesis by (rule put_pinned_evolves [OF assms(1-4)]) (rule reserved_records)
next
  case (cs_edge e i)
  then have "put_pinned E R (OCollab (CTrustEdge e)) (\<lambda>_. edge_ref (env_codec E) e) = Inr (i, R')"
    using publish_edge_Inr by blast
  then show ?thesis by (rule put_pinned_evolves [OF assms(1-4)]) (rule reserved_records)
next
  case (cs_repo r i)
  then have "put_pinned E R (ORepoRecord r) (\<lambda>_. repo_ref (env_codec E) (rr_owner r) (rr_name r)) = Inr (i, R')"
    using publish_repo_Inr by blast
  then show ?thesis by (rule put_pinned_evolves [OF assms(1-4)]) (rule reserved_records)
qed (rule put_pinned_evolves [OF assms(1-4)], auto simp: publish_proposal_pinned add_comment_def publish_post_def bind_res_Inr
    reserved_records split: if_splits)+

lemma commit_rinv:
  assumes "rinv (r_refs R)" and "\<And>rs N. fits rs N" and "repo_commit E R ops = Inr R'"
  shows "rinv (r_refs R')" and "r_objects R' = r_objects R"
    and "fold_res op_effect ops (rabst (r_refs R)) = Inr (rabst (r_refs R'))"
proof -
  obtain rs where rs: "commit_transaction (env_refs E) (r_refs R) ops = Inr rs" "R' = R\<lparr>r_refs := rs\<rparr>"
    using assms(3) by (auto simp: repo_commit_def bind_res_Inr)
  with rt.commit_refines [OF assms(1,2) subset_UNIV, of ops]
  show "rinv (r_refs R')" "r_objects R' = r_objects R" "fold_res op_effect ops (rabst (r_refs R)) = Inr (rabst (r_refs R'))"
    by (auto split: sum.splits)
qed

lemma push_evolves:
  assumes "sound R" and "\<And>rs N. fits rs N" and "apply_push_ops E R acc ops = Inr (results, R')"
  shows "evolves R R'"
proof -
  have inv: "rinv (r_refs R)" "readable (repo_get E R)" using assms(1) by (simp_all add: sound_def)
  note eff = push_effect [OF inv(1) assms(2) subset_UNIV inv(2) assms(3)]
  have R': "rinv (r_refs R')" "r_objects R' = r_objects R"
    using apply_push_cases [OF assms(3)] commit_rinv [OF inv(1) assms(2)] inv(1) by blast+
  have "\<exists>t'. rabst (r_refs R') n = Some (RTimeline t') \<and> tl_policy t' = tl_policy t \<and>
      (tl_head t', tl_head t) \<in> (parent_rel (repo_get E R))\<^sup>*"
    if "rabst (r_refs R) n = Some (RTimeline t)" "tl_policy t \<noteq> Unrestricted" for n t
    using conjunct2 [OF eff, of n] that by (auto simp: pushed_over_def)
  with assms(1) R' show ?thesis by (simp add: evolves_def sound_def)
qed

lemma fetch_evolves:
  assumes "sound R" and "\<And>data. storable data" and "\<And>rs N. fits rs N"
    and "fetch E Z R remote F S acc = Inr (tracked, R')" and "readable (repo_get E R')"
  shows "evolves R R'"
proof -
  obtain adverts n R1 where run: "sync_transfer E Z R F S (map snd adverts) = Inr (n, R1)"
    "map_res (\<lambda>(name, target). bind_res (tracking_ref remote name) (\<lambda>tracking. Inr (tracking, target))) adverts = Inr tracked"
    "repo_commit E R1 (map (\<lambda>(tracking, target). SetRef tracking (policy_tag target)) tracked) = Inr R'"
    using assms(4) by (auto simp: fetch_def bind_res_Inr split: prod.splits)
  obtain ds r where land: "land E ds R = (r, R1)"
    using run(1) by (rule transfer_lands)
  obtain s where s: "R1 = R\<lparr>r_objects := s\<rparr>" "oinv s" "oabst (r_objects R) \<subseteq>\<^sub>m oabst s"
    using land_grows [OF _ assms(2) land] assms(1) by (auto simp: sound_def)
  have inv: "rinv (r_refs R1)" "oinv (r_objects R)" using s(1) assms(1) by (simp_all add: sound_def)
  note com = commit_rinv [OF inv(1) assms(3) run(3)]
  have keep: "repo_get E R' j = Inr (Some obj)" if "repo_get E R j = Inr (Some obj)" for j obj
    using st.ost_get_mono [OF inv(2) s(2,3) that] com(2) s(1) by simp
  have "reserved k" if "k \<in> fst ` set tracked" for k
    using list_all2_members(1) [OF run(2) [unfolded map_res_Inr_iff]] that by (fastforce simp: bind_res_Inr dest: reserved_tracking)
  then have "rabst (r_refs R') k = rabst (r_refs R) k" if "\<not> reserved k" for k
    using fold_set_effect [OF com(3), of k] that s(1) by auto
  with com(1,2) s(1,2) assms(5) keep show ?thesis by (intro evolves_off_reserved) (simp_all add: sound_def)
qed

lemma history_step_evolves:
  assumes "sound R" and "\<And>data. storable data" and "\<And>rs N. fits rs N" and "ocodec_ok (env_codec E)"
    and "history_step E M R R'"
  shows "evolves R R'"
  using assms(5)
proof cases
  case hs_local
  then show ?thesis by (rule step_evolves [OF assms(1-4)])
next
  case hs_publish
  then show ?thesis by (rule publish_evolves [OF assms(1-4)])
next
  case (hs_push acc ops results)
  then show ?thesis using push_evolves [OF assms(1,3)] by blast
next
  case (hs_receive Z pack r)
  obtain ds r' where "land E ds R = (r', R')"
    using hs_receive(1) by (auto simp: land_pack_def split: sum.splits intro: that [of "[]"])
  then show ?thesis by (rule land_evolves [OF assms(1,2) _ hs_receive(2)])
next
  case (hs_fetch Z remote F S acc tracked)
  then show ?thesis using fetch_evolves [OF assms(1-3)] by blast
qed

lemma history_evolves:
  assumes "sound R" and "\<And>data. storable data" and "\<And>rs N. fits rs N" and "ocodec_ok (env_codec E)"
    and "(history_step E M)\<^sup>*\<^sup>* R R'"
  shows "evolves R R'"
  using assms(5)
proof (induction rule: rtranclp_induct)
  case base
  then show ?case using assms(1) by (intro evolves_same_refs) auto
next
  case (step S T)
  then have "sound S" by (simp add: evolves_def)
  from history_step_evolves [OF this assms(2-4) step.hyps(2)] step.IH show ?case by (blast intro: evolves_trans)
qed

end

text \<open>
  C3. History only grows. Take a readable repository in memory and any sequence of these operations, by any accessors: storing an object, advancing a
  timeline, setting or adopting a policy root, setting approvers, adding an attestation, registering a hook, publishing
  or withdrawing signed records, applying pushed ref updates, storing a received pack, and fetching from another repository, the
  objects received being readable. Then a timeline outside the names the program reserves for its own tags, with a policy that forbids rewriting,
  is still a timeline with that policy, its head reaches the earlier head by parent edges, and every object stored before is still there.
\<close>

theorem history_only_grows:
  assumes "ocodec_ok C" and "mem_inv (r_objects R)" and "mr_inv (r_refs R)" and "readable (repo_get (memory_env C ed) R)"
    and "(history_step (memory_env C ed) M)\<^sup>*\<^sup>* R R'"
  shows "(\<forall>n t. map_of (r_refs R) n = Some (RTimeline t) \<and> \<not> reserved n \<and> tl_policy t \<noteq> Unrestricted \<longrightarrow>
      (\<exists>t'. map_of (r_refs R') n = Some (RTimeline t') \<and> tl_policy t' = tl_policy t \<and>
        (tl_head t', tl_head t) \<in> (parent_rel (repo_get (memory_env C ed) R'))\<^sup>*)) \<and>
    (\<forall>j obj. repo_get (memory_env C ed) R j = Inr (Some obj) \<longrightarrow> repo_get (memory_env C ed) R' j = Inr (Some obj))"
proof -
  have "memrepo.sound C ed R" using assms(2-4) by (simp add: memrepo.sound_def)
  moreover have "ocodec_ok (env_codec (memory_env C ed))" using assms(1) by simp
  ultimately have "memrepo.evolves C ed R R'" by (intro memrepo.history_evolves [OF _ TrueI TrueI _ assms(5)])
  then show ?thesis unfolding memrepo.evolves_def by blast
qed

section \<open>An instance\<close>

theorem history_only_grows_witness:
  "\<exists>R' t'. apply_push_ops merged_env merged_repo writer [\<lparr>ru_name = ''main'', ru_expected_old = Some 2, ru_new_head = 3\<rparr>] =
       Inr ([\<lparr>rse_name = ''main'', rse_status = ApplyOk\<rparr>], R') \<and>
     map_of (r_refs R') ''main'' = Some (RTimeline t') \<and> tl_policy t' = FastForwardOnly \<and>
     (tl_head t', 2) \<in> (parent_rel (repo_get merged_env R'))\<^sup>*"
proof -
  obtain R' where push: "apply_push_ops merged_env merged_repo writer [\<lparr>ru_name = ''main'', ru_expected_old = Some 2, ru_new_head = 3\<rparr>] =
       Inr ([\<lparr>rse_name = ''main'', rse_status = ApplyOk\<rparr>], R')" using merged_push_applied by blast
  have steps: "(history_step merged_env flat_codec)\<^sup>*\<^sup>* merged_repo R'"
    by (rule r_into_rtranclp) (rule hs_push [OF push])
  have t: "map_of (r_refs merged_repo) ''main'' = Some (RTimeline \<lparr>tl_head = 2, tl_policy = FastForwardOnly, tl_created_at = 0,
       tl_kind = ''persistent'', tl_expires_at = None\<rparr>)" by (simp add: merged_repo_def)
  have free: "\<not> reserved ''main''" by code_simp
  from conjunct1 [OF history_only_grows [OF table_codec_ok merged_good steps]] t free
  obtain t' where "map_of (r_refs R') ''main'' = Some (RTimeline t')" "tl_policy t' = FastForwardOnly"
    "(tl_head t', 2) \<in> (parent_rel (repo_get merged_env R'))\<^sup>*"
    by fastforce
  with push show ?thesis by blast
qed

end
