(* ===== verification/Hub.thy ===== *)
theory Hub
  imports Sync_Laws Collab_Laws
begin

text \<open>
  Who may write over a connection, and the sessions of hubs and collaboration nodes: principals and
  accessors (\<^verbatim>\<open>src/sync/authn.rs\<close>), the owner-authenticated push and the public fetch of a hub
  (\<^verbatim>\<open>src/sync/hub.rs\<close>), and serving, pulling and searching signed records (\<^verbatim>\<open>src/sync/collab.rs\<close>). Sessions are
  functions of the messages received, as in \<^verbatim>\<open>Sync\<close>; a nonce, which the code draws at random, is an argument.
  Where the code prints an unexpected message into an error, only the fixed part of the text is kept.
\<close>

section \<open>Principals\<close>

datatype principal = SshKey string | Token string | Mtls string | Anonymous

datatype auth_method = AuthSsh | AuthToken | AuthMtls | AuthNone

record peer_identity =
  pi_principal :: principal
  pi_method :: auth_method

record actor_map =
  am_ssh :: "string table"
  am_token :: "string table"
  am_mtls :: "string table"

definition actor_map_new :: actor_map where
  "actor_map_new = \<lparr>am_ssh = [], am_token = [], am_mtls = []\<rparr>"

definition map_ssh_key :: "actor_map \<Rightarrow> string \<Rightarrow> string \<Rightarrow> actor_map" where
  "map_ssh_key m key_id actor = m\<lparr>am_ssh := AList.update key_id actor (am_ssh m)\<rparr>"

definition map_token :: "actor_map \<Rightarrow> string \<Rightarrow> string \<Rightarrow> actor_map" where
  "map_token m token actor = m\<lparr>am_token := AList.update token actor (am_token m)\<rparr>"

definition map_mtls :: "actor_map \<Rightarrow> string \<Rightarrow> string \<Rightarrow> actor_map" where
  "map_mtls m subject actor = m\<lparr>am_mtls := AList.update subject actor (am_mtls m)\<rparr>"

definition actor_for :: "actor_map \<Rightarrow> principal \<Rightarrow> string option" where
  "actor_for m p = (case p of
       SshKey k \<Rightarrow> map_of (am_ssh m) k
     | Token t \<Rightarrow> map_of (am_token m) t
     | Mtls s \<Rightarrow> map_of (am_mtls m) s
     | Anonymous \<Rightarrow> None)"

definition accessor_for :: "'a acl_backend \<Rightarrow> 'a \<Rightarrow> actor_map \<Rightarrow> principal \<Rightarrow> accessor result" where
  "accessor_for B s m p =
     bind_res (get_lattice B s) (\<lambda>L. bind_res (get_label_ruleset B s) (\<lambda>rules.
     let anonymous = Inr (from_parts L rules \<lparr>clearances = [], confined = False\<rparr>) in
     case actor_for m p of
       None \<Rightarrow> anonymous
     | Some actor \<Rightarrow> bind_res (be_get_grant B s actor) (\<lambda>found. case found of
           Some grant \<Rightarrow> Inr (from_parts L rules (gr_clearances grant))
         | None \<Rightarrow> anonymous)))"

section \<open>The hub\<close>

definition user_namespace :: "ocodec \<Rightarrow> key \<Rightarrow> string" where
  "user_namespace C owner = ''refs/users/'' @ fingerprint C owner @ ''/''"

definition owner_accessor :: "ocodec \<Rightarrow> key \<Rightarrow> accessor" where
  "owner_accessor C owner =
     (let pattern = ''refs/users/'' @ fingerprint C owner @ ''/**'' in
      with_actor (with_timeline_role (with_timeline_role accessor_new
          \<lparr>tr_pattern = pattern, tr_permission = PermWrite\<rparr>)
          \<lparr>tr_pattern = pattern, tr_permission = PermRead\<rparr>) (fingerprint C owner))"

text \<open>The results of publishing the account of the pusher are ignored.\<close>

definition unless_refused :: "'s \<Rightarrow> (oid \<times> 's) result \<Rightarrow> 's" where
  "unless_refused R r = (case r of Inr (_, R') \<Rightarrow> R' | Inl _ \<Rightarrow> R)"

definition land_identity ::
  "('o, 'r, 'a) repo_env \<Rightarrow> msg_codec \<Rightarrow> key \<Rightarrow> profile option \<Rightarrow> repo_record list \<Rightarrow> ('o, 'r, 'a) repository \<Rightarrow> ('o, 'r, 'a) repository" where
  "land_identity E M owner profile repos R =
     (let R1 = (case profile of
          Some p \<Rightarrow> if pf_key p = owner then unless_refused R (publish_profile E M R p) else R
        | None \<Rightarrow> R) in
      fold (\<lambda>r R. if rr_owner r = owner then unless_refused R (publish_repo E M R r) else R) repos R1)"

definition serve_authenticated_push ::
  "('o, 'r, 'a) repo_env \<Rightarrow> zstd \<Rightarrow> msg_codec \<Rightarrow> ('o, 'r, 'a) repository \<Rightarrow> key \<Rightarrow> bytes \<Rightarrow> message list \<Rightarrow>
   ('o, 'r, 'a, unit) session_result" where
  "serve_authenticated_push E Z M R owner nonce inbox =
     (let C = env_codec E; acc = owner_accessor C owner; out0 = [MHubChallenge nonce] in
      case inbox of
        [] \<Rightarrow> (out0, conn_closed, R)
      | MHubProof sig # rest1 \<Rightarrow>
          (if \<not> verify_proof (env_ed E) owner nonce sig
           then (out0 @ [MError ''hub auth failed''], Inl (AccessDenied ''hub push auth failed''), R)
           else case session_advertise E R acc of
             Inl e \<Rightarrow> (out0, Inl e, R)
           | Inr refs \<Rightarrow>
               (let out1 = out0 @ [welcome_msg (filter (\<lambda>r. starts_with (user_namespace C owner) (ra_name r)) refs)] in
                case rest1 of
                  [] \<Rightarrow> (out1, conn_closed, R)
                | MPack pack # rest2 \<Rightarrow>
                    (case decode_pack C Z pack of
                       Inl e \<Rightarrow> (out1, Inl e, R)
                     | Inr decoded \<Rightarrow>
                         (case rest2 of
                            [] \<Rightarrow> (out1, conn_closed, R)
                          | MRefUpdate ops # rest3 \<Rightarrow>
                              (case land E decoded R of
                                 (Inl e, R1) \<Rightarrow> (out1, Inl e, R1)
                               | (Inr _, R1) \<Rightarrow>
                                   (case apply_push_ops E R1 acc ops of
                                      Inl e \<Rightarrow> (out1, Inl e, R1)
                                    | Inr (results, R2) \<Rightarrow>
                                        (let out2 = out1 @ [MRefStatus results] in
                                         case rest3 of
                                           [] \<Rightarrow> (out2, conn_closed, R2)
                                         | MHubIdentity profile repos # _ \<Rightarrow>
                                             (out2 @ [MDone], Inr (), land_identity E M owner profile repos R2)
                                         | _ # _ \<Rightarrow> (out2, Inl (Storage ''hub: expected HubIdentity''), R2))))
                          | _ # _ \<Rightarrow> (out1, Inl (Storage ''hub: expected RefUpdate''), R)))
                | _ # _ \<Rightarrow> (out1, Inl (Storage ''hub: expected Pack''), R)))
      | _ # _ \<Rightarrow> (out0 @ [MError ''expected HubProof''], Inl (Storage ''hub: expected HubProof''), R))"

definition serve_hub ::
  "('o, 'r, 'a) repo_env \<Rightarrow> zstd \<Rightarrow> msg_codec \<Rightarrow> ('o, 'r, 'a) repository \<Rightarrow> bytes \<Rightarrow> message list \<Rightarrow>
   ('o, 'r, 'a, unit) session_result" where
  "serve_hub E Z M R nonce inbox =
     (case inbox of
        [] \<Rightarrow> ([], conn_closed, R)
      | MHubHello owner # rest \<Rightarrow> serve_authenticated_push E Z M R owner nonce rest
      | MHello _ _ _ i _ # rest \<Rightarrow>
          (case i of
             IPush \<Rightarrow> ([MError ''hub requires authenticated push (use --as)''],
               Inl (AccessDenied ''hub: plain push not allowed; authenticate with --as''), R)
           | _ \<Rightarrow> serve_fetch E Z R privileged rest)
      | _ # _ \<Rightarrow> ([MError ''expected HubHello or Hello''], Inl (Storage ''hub: expected HubHello or Hello''), R))"

definition serve_hub_push ::
  "('o, 'r, 'a) repo_env \<Rightarrow> zstd \<Rightarrow> msg_codec \<Rightarrow> ('o, 'r, 'a) repository \<Rightarrow> bytes \<Rightarrow> message list \<Rightarrow>
   ('o, 'r, 'a, unit) session_result" where
  "serve_hub_push E Z M R nonce inbox =
     (case inbox of
        [] \<Rightarrow> ([], conn_closed, R)
      | MHubHello owner # rest \<Rightarrow> serve_authenticated_push E Z M R owner nonce rest
      | _ # _ \<Rightarrow> ([MError ''expected HubHello''], Inl (Storage ''hub: expected HubHello''), R))"

text \<open>The client of a hub.\<close>

definition hub_ops ::
  "('o, 'r, 'a) repo_env \<Rightarrow> ('o, 'r, 'a) repository \<Rightarrow> string \<Rightarrow> (ref_name \<times> ref_name) list \<Rightarrow> ref_update_op list result" where
  "hub_ops E R remote pushes =
     fold_res (\<lambda>(local_name, hub_name) ops. bind_res (get_timeline (env_refs E) (r_refs R) local_name) (\<lambda>found. case found of
         None \<Rightarrow> Inr ops
       | Some t \<Rightarrow>
           bind_res (tracking_ref remote hub_name) (\<lambda>tracking.
           bind_res (get_tag (env_refs E) (r_refs R) tracking) (\<lambda>seen.
             Inr (ops @ [\<lparr>ru_name = hub_name, ru_expected_old = map_option tag_target seen, ru_new_head = tl_head t\<rparr>])))))
       pushes []"

definition hub_track :: "string \<Rightarrow> ref_update_op list \<Rightarrow> ref_status_entry list \<Rightarrow> ref_op list result" where
  "hub_track remote ops results =
     fold_res (\<lambda>entry tx.
       if rse_status entry = ApplyOk then
         (case List.find (\<lambda>op. ru_name op = rse_name entry) ops of
            None \<Rightarrow> Inr tx
          | Some op \<Rightarrow> bind_res (ref_name_new (''refs/remotes/'' @ remote @ ''/'' @ ru_name op)) (\<lambda>t.
              Inr (tx @ [SetRef t (policy_tag (ru_new_head op))])))
       else Inr tx) results []"

definition hub_push ::
  "('o, 'r, 'a) repo_env \<Rightarrow> zstd \<Rightarrow> msg_codec \<Rightarrow> ('o, 'r, 'a) repository \<Rightarrow> bytes \<Rightarrow> string \<Rightarrow> (ref_name \<times> ref_name) list \<Rightarrow>
   message list \<Rightarrow> ('o, 'r, 'a, ref_status_entry list) session_result" where
  "hub_push E Z M R seed remote pushes inbox =
     (let owner = ed_public (env_ed E) seed; out0 = [MHubHello owner] in
      case inbox of
        [] \<Rightarrow> (out0, conn_closed, R)
      | MHubChallenge nonce # rest1 \<Rightarrow>
          (let out1 = out0 @ [MHubProof (ed_sign (env_ed E) seed (challenge_message nonce))] in
           case rest1 of
             [] \<Rightarrow> (out1, conn_closed, R)
           | MWelcome _ _ refs _ # rest2 \<Rightarrow>
               (case bind_res (hub_ops E R remote pushes) (\<lambda>ops.
                  bind_res (missing_closure (repo_get E R) (map ru_new_head ops) (set (map ra_target refs))) (\<lambda>missing.
                  bind_res (build_pack E Z R missing) (\<lambda>pack. Inr (ops, pack)))) of
                  Inl e \<Rightarrow> (out1, Inl e, R)
                | Inr (ops, pack) \<Rightarrow>
                    (let out2 = out1 @ [MPack pack, MRefUpdate ops] in
                     case rest2 of
                       [] \<Rightarrow> (out2, conn_closed, R)
                     | MRefStatus results # rest3 \<Rightarrow>
                         (case bind_res (hub_track remote ops results) (repo_commit E R) of
                            Inl e \<Rightarrow> (out2, Inl e, R)
                          | Inr R1 \<Rightarrow>
                              (case bind_res (profile_of E R1 owner) (\<lambda>p. bind_res (list_repos E M R1 owner) (\<lambda>rs. Inr (p, rs))) of
                                 Inl e \<Rightarrow> (out2, Inl e, R1)
                               | Inr (p, rs) \<Rightarrow>
                                   (let out3 = out2 @ [MHubIdentity p rs] in
                                    case rest3 of
                                      [] \<Rightarrow> (out3, conn_closed, R1)
                                    | MDone # _ \<Rightarrow> (out3, Inr results, R1)
                                    | MError e # _ \<Rightarrow> (out3, Inl (Storage e), R1)
                                    | _ # _ \<Rightarrow> (out3, Inl (Storage ''hub: expected Done after identity''), R1))))
                     | MError e # _ \<Rightarrow> (out2, Inl (Storage e), R)
                     | _ # _ \<Rightarrow> (out2, Inl (Storage ''hub: expected RefStatus''), R)))
           | MError e # _ \<Rightarrow> (out1, Inl (Storage e), R)
           | _ # _ \<Rightarrow> (out1, Inl (Storage ''hub: expected Welcome''), R))
      | MError e # _ \<Rightarrow> (out0, Inl (Storage e), R)
      | _ # _ \<Rightarrow> (out0, Inl (Storage ''hub: expected HubChallenge''), R))"

definition hub_fetch ::
  "('o, 'r, 'a) repo_env \<Rightarrow> zstd \<Rightarrow> ('o, 'r, 'a) repository \<Rightarrow> key \<Rightarrow> string \<Rightarrow> string \<Rightarrow> message list \<Rightarrow>
   ('o, 'r, 'a, (ref_name \<times> oid) list) session_result" where
  "hub_fetch E Z R owner repo_name remote inbox =
     (let prefix = user_namespace (env_codec E) owner @ repo_name @ ''/''; out0 = [hello_msg IFetch] in
      case inbox of
        [] \<Rightarrow> (out0, conn_closed, R)
      | MWelcome _ _ refs _ # rest \<Rightarrow>
          (let wanted = filter (\<lambda>r. starts_with prefix (ra_name r)) refs in
           if wanted = [] then (out0 @ [MHaveWant [] []], Inl (Storage (''hub hosts no repo '' @ repo_name @ '' for that owner'')), R)
           else case sb_list (env_objects E) (r_objects R) of
             Inl e \<Rightarrow> (out0, Inl e, R)
           | Inr have \<Rightarrow>
               (let out1 = out0 @ [MHaveWant (map ra_target wanted) have] in
                case rest of
                  [] \<Rightarrow> (out1, conn_closed, R)
                | MPack pack # rest2 \<Rightarrow>
                    (case rest2 of
                       [] \<Rightarrow> (out1, conn_closed, R)
                     | _ # _ \<Rightarrow>
                         (case land_pack E Z pack R of
                            (Inl e, R1) \<Rightarrow> (out1, Inl e, R1)
                          | (Inr _, R1) \<Rightarrow>
                              (case track_all E R1 remote wanted of
                                 Inl e \<Rightarrow> (out1, Inl e, R1)
                               | Inr (tracked, R2) \<Rightarrow> (out1, Inr tracked, R2))))
                | MError e # _ \<Rightarrow> (out1, Inl (Storage e), R)
                | _ # _ \<Rightarrow> (out1, Inl (Storage ''hub: expected Pack''), R)))
      | MError e # _ \<Rightarrow> (out0, Inl (Storage e), R)
      | _ # _ \<Rightarrow> (out0, Inl (Storage ''hub: expected Welcome''), R))"

end
