(* ===== verification/Collab_Sync.thy ===== *)
theory Collab_Sync
  imports Hub
begin

text \<open>
  Serving, pulling and searching signed records over a connection (\<^verbatim>\<open>src/sync/collab.rs\<close>). As in the other
  sessions the messages received are an argument and the messages sent a result; the nonce of an authenticated
  client is an argument, and so is what each relay of a set answers. The public objects of a
  node and the records it cached from others are told apart by the prefix of the ref that pins them.
\<close>

section \<open>The responder\<close>

definition adverts_under :: "('o, 'r, 'a) repo_env \<Rightarrow> ('o, 'r, 'a) repository \<Rightarrow> string \<Rightarrow> ref_advert list result" where
  "adverts_under E R prefix =
     bind_res (rb_list (env_refs E) (r_refs R) prefix) (\<lambda>names.
       fold_res (\<lambda>name out. bind_res (get_tag (env_refs E) (r_refs R) name) (\<lambda>found. case found of
           Some tag \<Rightarrow> Inr (out @ [\<lparr>ra_name = name, ra_target = tag_target tag, ra_is_timeline = False\<rparr>])
         | None \<Rightarrow> Inr out)) names [])"

definition collab_adverts :: "('o, 'r, 'a) repo_env \<Rightarrow> ('o, 'r, 'a) repository \<Rightarrow> bool \<Rightarrow> ref_advert list result" where
  "collab_adverts E R relay =
     bind_res (adverts_under E R COLLAB_PUBLIC_PREFIX) (\<lambda>own.
       if relay then bind_res (adverts_under E R COLLAB_REMOTES_PREFIX) (\<lambda>cached. Inr (own @ cached))
       else bind_res (public_edges E R) (\<lambda>edges.
         fold_res (\<lambda>e out.
           if ed_kind e = Follow
           then bind_res (adverts_under E R (COLLAB_REMOTES_PREFIX @ fingerprint (env_codec E) (ed_to_key e) @ ''/''))
                  (\<lambda>cached. Inr (out @ cached))
           else Inr out) edges own))"

text \<open>The corpus of a search: the advertised targets that are profiles and trust edges.\<close>

definition served_corpus :: "('o, 'r, 'a) repo_env \<Rightarrow> ('o, 'r, 'a) repository \<Rightarrow> ref_advert list \<Rightarrow> collab_object list result" where
  "served_corpus E R refs =
     fold_res (\<lambda>a corpus. bind_res (repo_get E R (ra_target a)) (\<lambda>found. case found of
         Some (OCollab obj) \<Rightarrow> Inr (corpus @ [obj])
       | _ \<Rightarrow> Inr corpus)) refs []"

definition relay_proof :: "ed25519 \<Rightarrow> bool \<Rightarrow> bytes option \<Rightarrow> bytes option \<Rightarrow> bytes option" where
  "relay_proof ed relay signer nonce = (case (relay, signer, nonce) of
       (True, Some seed, Some n) \<Rightarrow> Some (sign_relay_challenge ed seed n)
     | _ \<Rightarrow> None)"

definition answer_collab ::
  "('o, 'r, 'a) repo_env \<Rightarrow> zstd \<Rightarrow> ('o, 'r, 'a) repository \<Rightarrow> ref_advert list \<Rightarrow> message \<Rightarrow> message list \<times> unit result" where
  "answer_collab E Z R refs request =
     (case request of
        MHaveWant want have \<Rightarrow>
          (let offered = filter (\<lambda>w. w \<in> set (map ra_target refs)) want in
           case bind_res (missing_closure (repo_get E R) offered (set have)) (build_pack E Z R) of
             Inl e \<Rightarrow> ([], Inl e)
           | Inr pack \<Rightarrow> ([MPack pack, MDone], Inr ()))
      | MSearch term max_hops \<Rightarrow>
          (if length term < MIN_SEARCH_TERM_LEN then ([MError ''search term too short''], Inr ())
           else case bind_res (served_corpus E R refs) (\<lambda>corpus.
               build_pack E Z R (map (\<lambda>obj. obj_id (env_codec E) (OCollab obj))
                 (search_ball (env_codec E) corpus term (min max_hops MAX_SEARCH_HOPS)))) of
             Inl e \<Rightarrow> ([], Inl e)
           | Inr pack \<Rightarrow> ([MPack pack, MDone], Inr ()))
      | _ \<Rightarrow> ([], Inl (Storage ''collab: expected HaveWant or Search'')))"

definition serve_collab ::
  "('o, 'r, 'a) repo_env \<Rightarrow> zstd \<Rightarrow> ('o, 'r, 'a) repository \<Rightarrow> bool \<Rightarrow> bytes option \<Rightarrow> message list \<Rightarrow>
   ('o, 'r, 'a, unit) session_result" where
  "serve_collab E Z R relay signer inbox =
     (case inbox of
        [] \<Rightarrow> ([], conn_closed, R)
      | MHello _ _ _ i nonce # rest \<Rightarrow>
          (if i = IPush
           then ([MError ''collab endpoint is read-only''], Inl (Storage ''collab: push not permitted''), R)
           else case collab_adverts E R relay of
             Inl e \<Rightarrow> ([], Inl e, R)
           | Inr refs \<Rightarrow>
               (let out0 = [MWelcome PROTO_VERSION (if relay then CAP_SEARCH else 0) refs (relay_proof (env_ed E) relay signer nonce)] in
                case rest of
                  [] \<Rightarrow> (out0, conn_closed, R)
                | request # _ \<Rightarrow> (case answer_collab E Z R refs request of (out1, r) \<Rightarrow> (out0 @ out1, r, R))))
      | _ # _ \<Rightarrow> ([MError ''expected Hello''], Inl (Storage ''collab: expected Hello''), R))"

section \<open>Pulling into a repository\<close>

definition resolve_adverts ::
  "('o, 'r, 'a) repo_env \<Rightarrow> msg_codec \<Rightarrow> ('o, 'r, 'a) repository \<Rightarrow> ref_advert list \<Rightarrow> (ref_name \<times> collab_object) list result" where
  "resolve_adverts E M R refs =
     fold_res (\<lambda>a out. bind_res (repo_get E R (ra_target a)) (\<lambda>found. case found of
         Some (OCollab obj) \<Rightarrow> Inr (if verified (env_ed E) M obj then out @ [(ra_name a, obj)] else out)
       | _ \<Rightarrow> Inr out)) refs []"

fun is_profile :: "collab_object \<Rightarrow> bool" where
  "is_profile (CProfile _) = True"
| "is_profile (CTrustEdge _) = False"

definition peer_of :: "(ref_name \<times> collab_object) list \<Rightarrow> key option" where
  "peer_of resolved = map_option (publisher_key \<circ> snd)
     (List.find (\<lambda>(name, obj). starts_with COLLAB_PUBLIC_PREFIX name \<and> is_profile obj) resolved)"

definition remote_record :: "ocodec \<Rightarrow> collab_object \<Rightarrow> string" where
  "remote_record C obj = COLLAB_REMOTES_PREFIX @ fingerprint C (publisher_key obj) @ (case obj of
       CProfile _ \<Rightarrow> ''/profile''
     | CTrustEdge e \<Rightarrow> ''/edge/'' @ kind_seg (ed_kind e) @ ''/'' @ fingerprint C (ed_to_key e))"

fun file_records ::
  "('o, 'r, 'a) repo_env \<Rightarrow> collab_object list \<Rightarrow> ref_op list \<Rightarrow> ('o, 'r, 'a) repository \<Rightarrow>
   ref_op list result \<times> ('o, 'r, 'a) repository" where
  "file_records E [] ops R = (Inr ops, R)"
| "file_records E (obj # objs) ops R =
     (case repo_put E R (OCollab obj) of
        Inl e \<Rightarrow> (Inl e, R)
      | Inr (target, R1) \<Rightarrow>
          (case ref_name_new (remote_record (env_codec E) obj) of
             Inl e \<Rightarrow> (Inl e, R1)
           | Inr name \<Rightarrow> file_records E objs (ops @ [SetRef name (policy_tag target)]) R1))"

definition cache_records ::
  "('o, 'r, 'a) repo_env \<Rightarrow> msg_codec \<Rightarrow> ref_advert list \<Rightarrow> ('o, 'r, 'a) repository \<Rightarrow> key result \<times> ('o, 'r, 'a) repository" where
  "cache_records E M refs R =
     (case resolve_adverts E M R refs of
        Inl e \<Rightarrow> (Inl e, R)
      | Inr resolved \<Rightarrow>
          (case peer_of resolved of
             None \<Rightarrow> (Inl (Storage ''collab: peer served no valid profile''), R)
           | Some peer \<Rightarrow>
               (case file_records E (map snd resolved) [] R of
                  (Inl e, R1) \<Rightarrow> (Inl e, R1)
                | (Inr ops, R1) \<Rightarrow>
                    (case repo_commit E R1 ops of Inl e \<Rightarrow> (Inl e, R1) | Inr R2 \<Rightarrow> (Inr peer, R2)))))"

abbreviation want_all :: "ref_advert list \<Rightarrow> message" where
  "want_all refs \<equiv> MHaveWant (map ra_target refs) []"

definition collab_pull ::
  "('o, 'r, 'a) repo_env \<Rightarrow> zstd \<Rightarrow> msg_codec \<Rightarrow> ('o, 'r, 'a) repository \<Rightarrow> message list \<Rightarrow> ('o, 'r, 'a, key) session_result" where
  "collab_pull E Z M R inbox =
     (let out0 = [hello_msg IFetch] in
      case inbox of
        [] \<Rightarrow> (out0, conn_closed, R)
      | MWelcome _ _ refs _ # rest1 \<Rightarrow>
          (let out1 = out0 @ [want_all refs] in
           case rest1 of
             [] \<Rightarrow> (out1, conn_closed, R)
           | MPack pack # rest2 \<Rightarrow>
               (case rest2 of
                  [] \<Rightarrow> (out1, conn_closed, R)
                | MDone # _ \<Rightarrow>
                    (case land_pack E Z pack R of
                       (Inl e, R1) \<Rightarrow> (out1, Inl e, R1)
                     | (Inr _, R1) \<Rightarrow> (case cache_records E M refs R1 of (r, R2) \<Rightarrow> (out1, r, R2)))
                | _ # _ \<Rightarrow> (out1, Inl (Storage ''collab: expected Done''), R))
           | _ # _ \<Rightarrow> (out1, Inl (Storage ''collab: expected Pack''), R))
      | MError e # _ \<Rightarrow> (out0, Inl (Storage e), R)
      | _ # _ \<Rightarrow> (out0, Inl (Storage ''collab: expected Welcome''), R))"

section \<open>Fetching and searching without a repository\<close>

text \<open>What every transient exchange does with the pack it receives: decode, and drop what does not verify.\<close>

definition keep_verified :: "ocodec \<Rightarrow> ed25519 \<Rightarrow> msg_codec \<Rightarrow> (oid \<times> bytes) list \<Rightarrow> collab_object list" where
  "keep_verified C ed M decoded =
     concat (map (\<lambda>(_, canonical). case deserialize C canonical of
         Inr (OCollab obj) \<Rightarrow> if verified ed M obj then [obj] else []
       | _ \<Rightarrow> []) decoded)"

definition receive_records ::
  "ocodec \<Rightarrow> ed25519 \<Rightarrow> zstd \<Rightarrow> msg_codec \<Rightarrow> bool \<Rightarrow> message list \<Rightarrow> collab_object list result" where
  "receive_records C ed Z M reports_errors inbox =
     (case inbox of
        [] \<Rightarrow> conn_closed
      | MPack pack # rest \<Rightarrow>
          (case rest of
             [] \<Rightarrow> conn_closed
           | MDone # _ \<Rightarrow> bind_res (decode_pack C Z pack) (\<lambda>decoded. Inr (keep_verified C ed M decoded))
           | _ # _ \<Rightarrow> Inl (Storage ''collab: expected Done''))
      | MError e # _ \<Rightarrow> Inl (Storage (if reports_errors then e else ''collab: expected Pack''))
      | _ # _ \<Rightarrow> Inl (Storage ''collab: expected Pack''))"

definition check_relay :: "ed25519 \<Rightarrow> key \<Rightarrow> bytes \<Rightarrow> bytes option \<Rightarrow> unit result" where
  "check_relay ed pinned nonce relay_sig = (case relay_sig of
       None \<Rightarrow> Inl (Storage ''relay did not authenticate'')
     | Some sig \<Rightarrow> if verify_relay_challenge ed pinned nonce sig then Inr () else Inl (Storage ''relay auth signature invalid''))"

definition collab_fetch_transient ::
  "ocodec \<Rightarrow> ed25519 \<Rightarrow> zstd \<Rightarrow> msg_codec \<Rightarrow> message list \<Rightarrow> message list \<times> collab_object list result" where
  "collab_fetch_transient C ed Z M inbox =
     (let out0 = [hello_msg IFetch] in
      case inbox of
        [] \<Rightarrow> (out0, conn_closed)
      | MWelcome _ _ refs _ # rest \<Rightarrow> (out0 @ [want_all refs], receive_records C ed Z M False rest)
      | MError e # _ \<Rightarrow> (out0, Inl (Storage e))
      | _ # _ \<Rightarrow> (out0, Inl (Storage ''collab: expected Welcome'')))"

definition collab_fetch_authenticated ::
  "ocodec \<Rightarrow> ed25519 \<Rightarrow> zstd \<Rightarrow> msg_codec \<Rightarrow> key \<Rightarrow> bytes \<Rightarrow> message list \<Rightarrow> message list \<times> collab_object list result" where
  "collab_fetch_authenticated C ed Z M pinned nonce inbox =
     (let out0 = [MHello PROTO_VERSION PROTO_VERSION 0 IFetch (Some nonce)] in
      case inbox of
        [] \<Rightarrow> (out0, conn_closed)
      | MWelcome _ _ refs relay_sig # rest \<Rightarrow>
          (case check_relay ed pinned nonce relay_sig of
             Inl e \<Rightarrow> (out0, Inl e)
           | Inr _ \<Rightarrow> (out0 @ [want_all refs], receive_records C ed Z M False rest))
      | MError e # _ \<Rightarrow> (out0, Inl (Storage e))
      | _ # _ \<Rightarrow> (out0, Inl (Storage ''collab: expected Welcome'')))"

definition search_or_fallback ::
  "ocodec \<Rightarrow> ed25519 \<Rightarrow> zstd \<Rightarrow> msg_codec \<Rightarrow> cap_set \<Rightarrow> ref_advert list \<Rightarrow> string \<Rightarrow> u8 \<Rightarrow> message list \<Rightarrow>
   message list \<times> collab_object list result" where
  "search_or_fallback C ed Z M negotiated refs term max_hops inbox =
     ([if cap_has negotiated CAP_SEARCH then MSearch term max_hops else want_all refs], receive_records C ed Z M True inbox)"

definition collab_search ::
  "ocodec \<Rightarrow> ed25519 \<Rightarrow> zstd \<Rightarrow> msg_codec \<Rightarrow> string \<Rightarrow> u8 \<Rightarrow> message list \<Rightarrow> message list \<times> collab_object list result" where
  "collab_search C ed Z M term max_hops inbox =
     (let out0 = [MHello PROTO_VERSION PROTO_VERSION CAP_SEARCH IFetch None] in
      case inbox of
        [] \<Rightarrow> (out0, conn_closed)
      | MWelcome _ caps refs _ # rest \<Rightarrow>
          (case search_or_fallback C ed Z M (cap_intersect CAP_SEARCH caps) refs term max_hops rest of (out1, r) \<Rightarrow> (out0 @ out1, r))
      | MError e # _ \<Rightarrow> (out0, Inl (Storage e))
      | _ # _ \<Rightarrow> (out0, Inl (Storage ''collab: expected Welcome'')))"

definition collab_search_authenticated ::
  "ocodec \<Rightarrow> ed25519 \<Rightarrow> zstd \<Rightarrow> msg_codec \<Rightarrow> key \<Rightarrow> bytes \<Rightarrow> string \<Rightarrow> u8 \<Rightarrow> message list \<Rightarrow>
   message list \<times> collab_object list result" where
  "collab_search_authenticated C ed Z M pinned nonce term max_hops inbox =
     (let out0 = [MHello PROTO_VERSION PROTO_VERSION CAP_SEARCH IFetch (Some nonce)] in
      case inbox of
        [] \<Rightarrow> (out0, conn_closed)
      | MWelcome _ caps refs relay_sig # rest \<Rightarrow>
          (case check_relay ed pinned nonce relay_sig of
             Inl e \<Rightarrow> (out0, Inl e)
           | Inr _ \<Rightarrow>
               (case search_or_fallback C ed Z M (cap_intersect CAP_SEARCH caps) refs term max_hops rest of (out1, r) \<Rightarrow> (out0 @ out1, r)))
      | MError e # _ \<Rightarrow> (out0, Inl (Storage e))
      | _ # _ \<Rightarrow> (out0, Inl (Storage ''collab: expected Welcome'')))"

text \<open>
  A set of pinned relays. The argument \<^verbatim>\<open>answers\<close> gives, for the endpoint of a relay, the nonce drawn for it and the
  messages it sent, or nothing when it cannot be reached.
\<close>

definition query_relay_set ::
  "ocodec \<Rightarrow> ed25519 \<Rightarrow> zstd \<Rightarrow> msg_codec \<Rightarrow> (relay_pin \<Rightarrow> (bytes \<times> message list) option) \<Rightarrow> key \<Rightarrow> trust_edge list \<Rightarrow>
   relay_pin list \<Rightarrow> string \<Rightarrow> u8 \<Rightarrow> stranger_hit list" where
  "query_relay_set C ed Z M answers self own_edges relays term max_hops =
     (let per_relay = concat (map (\<lambda>pin. case answers pin of
          None \<Rightarrow> []
        | Some (nonce, inbox) \<Rightarrow>
            (case snd (collab_search_authenticated C ed Z M (rp_key pin) nonce term max_hops inbox) of
               Inr objs \<Rightarrow> [(rp_key pin, objs)]
             | Inl _ \<Rightarrow> [])) relays) in
      rank_strangers_multi C self own_edges per_relay term max_hops)"

end
