(* ===== verification/Hub_Laws.thy ===== *)
theory Hub_Laws
  imports Collab_Sync Search_Laws
begin

text \<open>
  What the sessions of hubs and collaboration nodes guarantee: a hub lets a peer write only below the namespace of a
  key whose possession it proved, a collaboration endpoint writes nothing and hands out public records and
  their cache only, and a puller files only records that verify, each under the key that signed it.
\<close>

section \<open>Patterns with a literal prefix\<close>

lemma glob_lang_prefix:
  assumes "CHR ''*'' \<notin> set lit"
  shows "s \<in> glob_lang (lit @ p) \<longleftrightarrow> (\<exists>w. s = lit @ w \<and> w \<in> glob_lang p)"
  using assms
proof (induction lit arbitrary: s)
  case (Cons c lit)
  have "\<not> is_prefix ''*'' (c # lit @ p)" using Cons.prems by auto
  from glob_lang_lit [OF _ this, of s]
  have "s \<in> glob_lang ((c # lit) @ p) \<longleftrightarrow> (\<exists>s'. s = c # s' \<and> s' \<in> glob_lang (lit @ p))" by (cases s) auto
  with Cons show ?case by auto
qed simp

lemma glob_matches_prefix:
  assumes "CHR ''*'' \<notin> set lit" and "glob_matches (lit @ p) s"
  shows "starts_with lit s"
proof -
  have "fst (matches (lit @ p) s {})" using assms(2) by (simp add: glob_matches_def split: if_splits)
  then have "s \<in> glob_lang (lit @ p)" by (simp add: matches_lang)
  with assms(1) show ?thesis by (auto simp: glob_lang_prefix)
qed

lemma fingerprint_no_star: "CHR ''*'' \<notin> set (fingerprint C k)"
proof -
  have "hex_char w \<noteq> CHR ''*''" if "w < 16" for w :: u8
    using hex_nibble_hex_char [OF that] by (auto simp: hex_nibble_def)
  from this [OF drop_bit_4_less] this [OF and_15_less] have "CHR ''*'' \<notin> set (hex_byte b)" for b
    by (simp add: hex_byte_def not_sym)
  then show ?thesis by (auto simp: fingerprint_def oid_display_def)
qed

lemma owner_writes:
  assumes "can_write (owner_accessor C owner) l (ResTimeline n)"
  shows "starts_with (user_namespace C owner) n"
proof -
  let ?lit = "''refs/users/'' @ fingerprint C owner @ ''/''"
  have "glob_matches (?lit @ ''**'') n"
    using assms by (auto simp: can_write_def owner_accessor_def Let_def accessor_new_def with_timeline_role_def with_actor_def split: if_splits)
  from glob_matches_prefix [OF _ this] fingerprint_no_star show ?thesis by (simp add: user_namespace_def)
qed

section \<open>Sessions and refs\<close>

lemma land_refs: "r_refs (snd (land E ds R)) = r_refs R"
proof (induction ds arbitrary: R)
  case (Cons d ds)
  obtain i c where d: "d = (i, c)" by (cases d)
  show ?case
  proof (cases "put_raw (env_objects E) (env_codec E) (r_objects R) c")
    case (Inr x)
    then show ?thesis using Cons.IH [of "R\<lparr>r_objects := snd x\<rparr>"] by (cases x) (simp add: d)
  qed (simp add: d)
qed simp

lemma repo_put_refs: "repo_put E R obj = Inr (i, R') \<Longrightarrow> r_refs R' = r_refs R \<and> i = obj_id (env_codec E) obj"
  by (auto simp: repo_put_def bind_res_Inr ost_put_def obj_id_def put_raw_def Let_def split: if_splits)

lemma fold_updates:
  assumes "fold_res op_effect (map update_op ops) m = Inr m'"
  shows "m' n = m n \<or> n \<in> ru_name ` set ops \<and> (\<exists>t. m' n = Some (RTimeline t))"
  using assms
proof (induction ops arbitrary: m)
  case (Cons op ops)
  obtain m1 where m1: "op_effect (update_op op) m = Inr m1" and rest: "fold_res op_effect (map update_op ops) m1 = Inr m'"
    using Cons.prems by (auto simp: bind_res_Inr)
  have "m1 n = m n \<or> n = ru_name op \<and> (\<exists>t. m1 n = Some (RTimeline t))"
    using m1 by (auto simp: update_op_def op_effect_def bind_res_Inr split: option.splits ref.splits if_splits)
  with Cons.IH [OF rest] show ?case by auto
qed simp

context repo_stores
begin

lemma push_names:
  assumes "rinv (r_refs R)" and "fits (r_refs R) N" and "ru_name ` set ops \<subseteq> N"
    and "apply_push_ops E R acc ops = Inr (results, R')"
  shows "rinv (r_refs R') \<and> fits (r_refs R') N \<and> (rabst (r_refs R') n = rabst (r_refs R) n \<or>
    (\<exists>l t. can_write acc l (ResTimeline n) \<and> \<not> reserved_namespace n \<and> rabst (r_refs R') n = Some (RTimeline t)))"
proof (cases "R' = R")
  case False
  then obtain rules reg res kept where filt: "push_filter E R two_point rules reg acc ops = Inr (res, kept)"
    and com: "repo_commit E R (map update_op kept) = Inr R'"
    using apply_push_cases [OF assms(4)] by blast
  then obtain rs where rs: "commit_transaction (env_refs E) (r_refs R) (map update_op kept) = Inr rs" "R' = R\<lparr>r_refs := rs\<rparr>"
    by (auto simp: repo_commit_def bind_res_Inr)
  have ok: "op \<in> set ops" "\<not> reserved_namespace (ru_name op)"
    "can_write acc (label_for_timeline rules two_point (ru_name op)) (ResTimeline (ru_name op))" if "op \<in> set kept" for op
    using push_filter_accepted [OF filt that] by (auto simp: push_verdict_def split: if_splits)
  have name: "op_name (update_op op) = ru_name op" for op by (simp add: update_op_def split: option.split)
  have "op_name ` set (map update_op kept) \<subseteq> N" using ok(1) assms(3) by (auto simp: name)
  from rt.commit_refines [OF assms(1,2) this] rs(1)
  have "fold_res op_effect (map update_op kept) (rabst (r_refs R)) = Inr (rabst rs)" "rinv rs" "fits rs N"
    by (auto split: sum.splits)
  with fold_updates [OF this(1), of n] ok rs(2) show ?thesis by auto
qed (use assms in simp)

lemma pinned_refs:
  assumes "rinv (r_refs R)" and "fits (r_refs R) N" and "name \<in> N" and "put_pinned E R obj (\<lambda>_. name) = Inr (i, R')"
  shows "rinv (r_refs R') \<and> fits (r_refs R') N \<and>
    rabst (r_refs R') = (rabst (r_refs R))(name \<mapsto> policy_tag (obj_id (env_codec E) obj))"
proof -
  obtain R1 where R1: "repo_put E R obj = Inr (i, R1)" "repo_commit E R1 [SetRef name (policy_tag i)] = Inr R'"
    using assms(4) by (rule put_pinned_Inr)
  then obtain rs where rs: "commit_transaction (env_refs E) (r_refs R) [SetRef name (policy_tag i)] = Inr rs" "R' = R1\<lparr>r_refs := rs\<rparr>"
    using repo_put_refs [OF R1(1)] by (auto simp: repo_commit_def bind_res_Inr)
  with commit_set [OF assms(1-3) rs(1)] repo_put_refs [OF R1(1)] show ?thesis by simp
qed

end

section \<open>The hub\<close>

text \<open>The names of refs that a session with a hub mentions.\<close>

definition session_names :: "ocodec \<Rightarrow> message list \<Rightarrow> ref_name set" where
  "session_names C inbox =
     {n. \<exists>ops. MRefUpdate ops \<in> set inbox \<and> n \<in> ru_name ` set ops} \<union>
     {profile_ref C k |k. MHubHello k \<in> set inbox} \<union>
     {repo_ref C (rr_owner r) (rr_name r) |r p rs. MHubIdentity p rs \<in> set inbox \<and> r \<in> set rs}"

text \<open>What the holder of a key may leave at a name of a hub.\<close>

definition owner_ref :: "('o, 'r, 'a) repo_env \<Rightarrow> msg_codec \<Rightarrow> key \<Rightarrow> ref_name \<Rightarrow> ref option \<Rightarrow> bool" where
  "owner_ref E M owner n v \<longleftrightarrow>
     starts_with (user_namespace (env_codec E) owner) n \<and> (\<exists>t. v = Some (RTimeline t)) \<or>
     n = profile_ref (env_codec E) owner \<and> (\<exists>p. pf_key p = owner \<and> verify_profile (env_ed E) M p \<and>
       v = Some (policy_tag (obj_id (env_codec E) (OCollab (CProfile p))))) \<or>
     (\<exists>r. rr_owner r = owner \<and> verify_repo (env_ed E) M r \<and> n = repo_ref (env_codec E) owner (rr_name r) \<and>
       v = Some (policy_tag (obj_id (env_codec E) (ORepoRecord r))))"

context repo_stores
begin

text \<open>Sound refs, of which those that changed are the owner's.\<close>

definition owner_step :: "msg_codec \<Rightarrow> key \<Rightarrow> ref_name set \<Rightarrow> (ref_name \<rightharpoonup> ref) \<Rightarrow> ('o, 'r, 'a) repository \<Rightarrow> bool" where
  "owner_step M owner N m R \<longleftrightarrow> rinv (r_refs R) \<and> fits (r_refs R) N \<and>
     (\<forall>n. rabst (r_refs R) n = m n \<or> owner_ref E M owner n (rabst (r_refs R) n))"

lemma owner_step_pin:
  assumes "owner_step M owner N m R" and "name \<in> N"
    and "\<And>i R'. r = Inr (i, R') \<Longrightarrow> put_pinned E R obj (\<lambda>_. name) = Inr (i, R') \<and>
      owner_ref E M owner name (Some (policy_tag (obj_id (env_codec E) obj)))"
  shows "owner_step M owner N m (unless_refused R r)"
proof (cases r)
  case (Inr x)
  obtain i R' where x: "x = (i, R')" by (cases x)
  note pin = assms(3) [OF Inr [unfolded x]]
  from pinned_refs [OF _ _ assms(2) conjunct1 [OF pin]] assms(1) pin show ?thesis
    by (auto simp: owner_step_def unless_refused_def Inr x)
qed (use assms(1) in \<open>simp add: unless_refused_def\<close>)

lemma land_identity_owner:
  assumes "owner_step M owner N m R" and "profile_ref (env_codec E) owner \<in> N"
    and "\<And>r. r \<in> set repos \<Longrightarrow> repo_ref (env_codec E) (rr_owner r) (rr_name r) \<in> N"
  shows "owner_step M owner N m (land_identity E M owner profile repos R)"
proof -
  have fold: "owner_step M owner N m (fold (\<lambda>r R. if rr_owner r = owner then unless_refused R (publish_repo E M R r) else R) repos S)"
    if "owner_step M owner N m S" for S
    using that assms(3)
  proof (induction repos arbitrary: S)
    case (Cons r repos)
    have "owner_step M owner N m (if rr_owner r = owner then unless_refused S (publish_repo E M S r) else S)"
    proof (cases "rr_owner r = owner")
      case True
      have "owner_step M owner N m (unless_refused S (publish_repo E M S r))"
        by (rule owner_step_pin [OF Cons.prems(1), where name = "repo_ref (env_codec E) (rr_owner r) (rr_name r)" and obj = "ORepoRecord r"])
          (use Cons.prems(2) True in \<open>auto dest!: publish_repo_Inr simp: owner_ref_def\<close>)
      with True show ?thesis by simp
    qed (use Cons.prems(1) in simp)
    with Cons show ?case by simp
  qed simp
  show ?thesis
  proof (cases "\<exists>p. profile = Some p \<and> pf_key p = owner")
    case True
    then obtain p where p: "profile = Some p" "pf_key p = owner" by blast
    have "owner_step M owner N m (unless_refused R (publish_profile E M R p))"
      by (rule owner_step_pin [OF assms(1,2), where obj = "OCollab (CProfile p)"])
        (use p in \<open>auto dest!: publish_profile_Inr simp: owner_ref_def\<close>)
    from fold [OF this] p show ?thesis by (simp add: land_identity_def)
  qed (use fold [OF assms(1)] in \<open>auto simp: land_identity_def split: option.splits\<close>)
qed

end

text \<open>A push that passed authentication, from the pack on.\<close>

definition authenticated_push ::
  "('o, 'r, 'a) repo_env \<Rightarrow> msg_codec \<Rightarrow> key \<Rightarrow> (oid \<times> bytes) list \<Rightarrow> ref_update_op list \<Rightarrow> message list \<Rightarrow>
   ('o, 'r, 'a) repository \<Rightarrow> ('o, 'r, 'a) repository \<Rightarrow> bool" where
  "authenticated_push E M owner decoded ops rest R R' \<longleftrightarrow> R' = snd (land E decoded R) \<or>
     (\<exists>results R2. apply_push_ops E (snd (land E decoded R)) (owner_accessor (env_codec E) owner) ops = Inr (results, R2) \<and>
       (R' = R2 \<or> (\<exists>profile repos. MHubIdentity profile repos \<in> set rest \<and> R' = land_identity E M owner profile repos R2)))"

lemma authenticated_cases:
  assumes "serve_authenticated_push E Z M R owner nonce inbox = (out, r, R')" and "R' \<noteq> R"
  obtains sig pack ops rest decoded where "inbox = MHubProof sig # MPack pack # MRefUpdate ops # rest"
    and "verify_proof (env_ed E) owner nonce sig" and "authenticated_push E M owner decoded ops rest R R'"
proof -
  obtain m rest1 where inbox: "inbox = m # rest1" using assms by (cases inbox) (auto simp: serve_authenticated_push_def Let_def)
  obtain sig where m: "m = MHubProof sig" using assms by (cases m) (auto simp: serve_authenticated_push_def Let_def inbox)
  have sig: "verify_proof (env_ed E) owner nonce sig"
    using assms by (auto simp: serve_authenticated_push_def Let_def inbox m split: if_splits)
  obtain refs where refs: "session_advertise E R (owner_accessor (env_codec E) owner) = Inr refs"
    using assms by (cases "session_advertise E R (owner_accessor (env_codec E) owner)")
      (auto simp: serve_authenticated_push_def Let_def inbox m sig)
  note run1 = assms(1) [unfolded serve_authenticated_push_def Let_def inbox m, simplified, unfolded refs, simplified sig, simplified]
  obtain m1 rest2 where rest1: "rest1 = m1 # rest2" using run1 assms(2) by (cases rest1) auto
  obtain pack where m1: "m1 = MPack pack" using run1 assms(2) by (cases m1) (auto simp: rest1)
  note run2 = run1 [unfolded rest1 m1, simplified]
  obtain decoded where decoded: "decode_pack (env_codec E) Z pack = Inr decoded"
    using run2 assms(2) by (cases "decode_pack (env_codec E) Z pack") auto
  note run3 = run2 [unfolded decoded, simplified]
  obtain m2 rest3 where rest2: "rest2 = m2 # rest3" using run3 assms(2) by (cases rest2) auto
  obtain ops where m2: "m2 = MRefUpdate ops" using run3 assms(2) by (cases m2) (auto simp: rest2)
  note run4 = run3 [unfolded rest2 m2, simplified]
  obtain l R1 where R1: "land E decoded R = (l, R1)" by (cases "land E decoded R")
  have "authenticated_push E M owner decoded ops rest3 R R'"
  proof (cases "\<exists>results R2. l = Inr () \<and> apply_push_ops E R1 (owner_accessor (env_codec E) owner) ops = Inr (results, R2)")
    case True
    then obtain results R2 where l: "l = Inr ()" and R2: "apply_push_ops E R1 (owner_accessor (env_codec E) owner) ops = Inr (results, R2)"
      by blast
    note run5 = run4 [unfolded R1 l, simplified, unfolded R2, simplified]
    show ?thesis
    proof (cases rest3)
      case (Cons m3 rest4)
      with run5 R2 show ?thesis by (cases m3) (auto simp: authenticated_push_def R1)
    qed (use run5 R2 in \<open>auto simp: authenticated_push_def R1\<close>)
  next
    case False
    with run4 show ?thesis
      by (cases l; cases "apply_push_ops E R1 (owner_accessor (env_codec E) owner) ops") (auto simp: R1 authenticated_push_def)
  qed
  with that inbox m rest1 m1 rest2 m2 sig show ?thesis by blast
qed

context repo_stores
begin

lemma authenticated_push_owner:
  assumes "rinv (r_refs R)" and "fits (r_refs R) N" and "ru_name ` set ops \<subseteq> N" and "profile_ref (env_codec E) owner \<in> N"
    and "\<And>p rs r. MHubIdentity p rs \<in> set rest \<Longrightarrow> r \<in> set rs \<Longrightarrow> repo_ref (env_codec E) (rr_owner r) (rr_name r) \<in> N"
    and "authenticated_push E M owner decoded ops rest R R'"
  shows "owner_step M owner N (rabst (r_refs R)) R'"
proof -
  let ?R1 = "snd (land E decoded R)"
  have land: "owner_step M owner N (rabst (r_refs R)) ?R1" using assms(1,2) by (simp add: owner_step_def land_refs)
  have push: "owner_step M owner N (rabst (r_refs R)) R2"
    if "apply_push_ops E ?R1 (owner_accessor (env_codec E) owner) ops = Inr (results, R2)" for results R2
    using push_names [OF _ _ assms(3) that] assms(1,2) owner_writes unfolding land_refs owner_step_def owner_ref_def by blast
  from assms(6) show ?thesis
    unfolding authenticated_push_def using land push land_identity_owner [OF push assms(4)] assms(5) by blast
qed

end

text \<open>
  C7. A session with a hub changes the repository only for a peer that proves possession of its key over the fresh nonce.
  Of the refs, such a session can change only timelines below the namespace of that key, the profile of that key
  and the repository records of that key, and the profile and the records that it installs carry a valid signature.
\<close>

theorem hub_push_confined:
  assumes "repo_stores oinv oabst storable rinv fits rabst E"
    and "rinv (r_refs R)" and "fits (r_refs R) (session_names (env_codec E) inbox)"
    and "serve_hub E Z M R nonce inbox = (out, r, R')"
  shows "R' = R \<or> (\<exists>owner sig rest. inbox = MHubHello owner # MHubProof sig # rest \<and>
    verify_proof (env_ed E) owner nonce sig \<and>
    (\<forall>n. rabst (r_refs R') n = rabst (r_refs R) n \<or> owner_ref E M owner n (rabst (r_refs R') n)))"
proof (cases "R' = R")
  case False
  obtain m rest where inbox: "inbox = m # rest" using assms(4) False by (cases inbox) (auto simp: serve_hub_def)
  have fetch: "serve_fetch E Z R acc ms = (o1, o2, R1) \<Longrightarrow> R1 = R" for acc ms o1 o2 R1
    by (cases "session_advertise E R acc"; cases ms; cases "hd ms") (auto simp: serve_fetch_def Let_def split: sum.splits)
  obtain owner where m: "m = MHubHello owner"
    using assms(4) False by (cases m) (auto simp: serve_hub_def inbox dest: fetch split: intent.splits)
  have run: "serve_authenticated_push E Z M R owner nonce rest = (out, r, R')" using assms(4) by (simp add: serve_hub_def inbox m)
  obtain sig pack ops rest' decoded where ses: "rest = MHubProof sig # MPack pack # MRefUpdate ops # rest'"
    "verify_proof (env_ed E) owner nonce sig" "authenticated_push E M owner decoded ops rest' R R'"
    by (rule authenticated_cases [OF run False])
  have "repo_stores.owner_step rinv fits rabst E M owner (session_names (env_codec E) inbox) (rabst (r_refs R)) R'"
    by (rule repo_stores.authenticated_push_owner [OF assms(1-3) _ _ _ ses(3)]) (auto simp: session_names_def inbox m ses(1))
  with ses(1,2) m inbox show ?thesis by (auto simp: repo_stores.owner_step_def [OF assms(1)])
qed simp

section \<open>The collaboration endpoint\<close>

lemma collab_case:
  "(case found of Some (OCollab obj) \<Rightarrow> f obj | _ \<Rightarrow> Inr z) = Inr y \<Longrightarrow> (\<exists>obj. found = Some (OCollab obj) \<and> f obj = Inr y) \<or> y = z"
  by (cases found; simp; cases "the found") auto

text \<open>The names whose targets a collaboration node serves.\<close>

definition offered :: "('o, 'r, 'a) repo_env \<Rightarrow> ('o, 'r, 'a) repository \<Rightarrow> bool \<Rightarrow> ref_name \<Rightarrow> bool" where
  "offered E R relay n \<longleftrightarrow> starts_with COLLAB_PUBLIC_PREFIX n \<or> (relay \<and> starts_with COLLAB_REMOTES_PREFIX n) \<or>
     (\<exists>edges e. public_edges E R = Inr edges \<and> e \<in> set edges \<and> ed_kind e = Follow \<and>
       starts_with (COLLAB_REMOTES_PREFIX @ fingerprint (env_codec E) (ed_to_key e) @ ''/'') n)"

definition offers :: "('r \<Rightarrow> ref_name \<rightharpoonup> ref) \<Rightarrow> ('o, 'r, 'a) repo_env \<Rightarrow> ('o, 'r, 'a) repository \<Rightarrow> bool \<Rightarrow> oid \<Rightarrow> bool" where
  "offers rabst E R relay i \<longleftrightarrow> (\<exists>n t. offered E R relay n \<and> rabst (r_refs R) n = Some (RTag t) \<and> tag_target t = i)"

context repo_stores
begin

lemma adverts_under_Inr:
  assumes "rinv (r_refs R)" and "fits (r_refs R) (dom (rabst (r_refs R)))" and "adverts_under E R prefix = Inr refs"
  shows "\<forall>a \<in> set refs. starts_with prefix (ra_name a) \<and>
    (\<exists>t. rabst (r_refs R) (ra_name a) = Some (RTag t) \<and> ra_target a = tag_target t)"
proof -
  obtain ns where ns: "rb_list (env_refs E) (r_refs R) prefix = Inr ns" "set ns = {n \<in> dom (rabst (r_refs R)). starts_with prefix n}"
    using rt.list_law [OF assms(1)] by blast
  show ?thesis
    by (rule fold_res_invariant [OF assms(3) [unfolded adverts_under_def ns(1) bind_res_simps]])
      (auto simp: ns(2) bind_res_Inr get_tag_abst [OF assms(1,2)] domI split: option.splits ref.splits)
qed

lemma collab_adverts_Inr:
  assumes "rinv (r_refs R)" and "fits (r_refs R) (dom (rabst (r_refs R)))" and "collab_adverts E R relay = Inr refs"
  shows "\<forall>a \<in> set refs. offered E R relay (ra_name a) \<and>
    (\<exists>t. rabst (r_refs R) (ra_name a) = Some (RTag t) \<and> ra_target a = tag_target t)"
proof -
  note under = adverts_under_Inr [OF assms(1,2)]
  obtain own where own: "adverts_under E R COLLAB_PUBLIC_PREFIX = Inr own" using assms(3) by (auto simp: collab_adverts_def bind_res_Inr)
  show ?thesis
  proof (cases relay)
    case True
    then show ?thesis using assms(3) own under [OF own] by (auto simp: collab_adverts_def bind_res_Inr offered_def dest!: under)
  next
    case False
    obtain edges where edges: "public_edges E R = Inr edges" using assms(3) False by (auto simp: collab_adverts_def bind_res_Inr)
    note run = assms(3) [unfolded collab_adverts_def own bind_res_simps edges, simplified False if_False bind_res_simps edges]
    show ?thesis
    proof (rule fold_res_invariant [OF run], goal_cases)
      case 1
      show ?case using under [OF own] by (simp add: offered_def)
    next
      case (2 e u v)
      show ?case
      proof (cases "ed_kind e = Follow")
        case True
        with 2(3) obtain cached where
          c: "adverts_under E R (COLLAB_REMOTES_PREFIX @ fingerprint (env_codec E) (ed_to_key e) @ ''/'') = Inr cached" "v = u @ cached"
          by (auto simp: bind_res_Inr)
        from under [OF c(1)] edges 2(1) True have "\<forall>a \<in> set cached. offered E R relay (ra_name a) \<and>
            (\<exists>t. rabst (r_refs R) (ra_name a) = Some (RTag t) \<and> ra_target a = tag_target t)"
          unfolding offered_def by blast
        with 2(2) c(2) show ?thesis by auto
      qed (use 2 in auto)
    qed
  qed
qed

lemma resolve_adverts_Inr:
  "resolve_adverts E M R refs = Inr resolved \<Longrightarrow>
    \<forall>(n, obj) \<in> set resolved. verified (env_ed E) M obj \<and>
      (\<exists>a \<in> set refs. ra_name a = n \<and> repo_get E R (ra_target a) = Inr (Some (OCollab obj)))"
  unfolding resolve_adverts_def
proof (erule fold_res_invariant, goal_cases)
  case (2 a u v)
  then obtain found where found: "repo_get E R (ra_target a) = Inr found" by (auto simp: bind_res_Inr)
  then show ?case using 2(1,2) collab_case [OF 2(3) [unfolded found bind_res_simps]] by (auto split: if_splits)
qed simp

lemma served_corpus_Inr:
  "served_corpus E R refs = Inr corpus \<Longrightarrow>
    \<forall>obj \<in> set corpus. \<exists>a \<in> set refs. repo_get E R (ra_target a) = Inr (Some (OCollab obj))"
  unfolding served_corpus_def
proof (erule fold_res_invariant, goal_cases)
  case (2 a u v)
  then obtain found where found: "repo_get E R (ra_target a) = Inr found" by (auto simp: bind_res_Inr)
  then show ?case using 2(1,2) collab_case [OF 2(3) [unfolded found bind_res_simps]] by auto
qed simp

lemma answer_confined:
  assumes "readable (repo_get E R)" and "answer_collab E Z R refs request = (out, r)" and "MPack pack \<in> set out"
  shows "\<exists>ids. build_pack E Z R ids = Inr pack \<and> (\<forall>i \<in> set ids. \<exists>a \<in> set refs. (ra_target a, i) \<in> (child_rel (repo_get E R))\<^sup>* \<or>
    (\<exists>obj. repo_get E R (ra_target a) = Inr (Some (OCollab obj)) \<and> i = obj_id (env_codec E) (OCollab obj)))"
proof (cases request)
  case (MHaveWant want held)
  let ?want = "filter (\<lambda>w. w \<in> set (map ra_target refs)) want"
  obtain ids where ids: "missing_closure (repo_get E R) ?want (set held) = Inr ids"
    "set ids = {x \<in> (sent_rel (repo_get E R) (set held))\<^sup>* `` set ?want. x \<notin> set held \<and> repo_get E R x \<noteq> Inr None}"
    using missing_closure_correct [OF assms(1)] by blast
  have "build_pack E Z R ids = Inr pack"
    using assms(2,3) ids(1) by (auto simp: answer_collab_def MHaveWant Let_def split: sum.splits)
  moreover have "\<exists>a \<in> set refs. (ra_target a, i) \<in> (child_rel (repo_get E R))\<^sup>*" if "i \<in> set ids" for i
    using that ids(2) sent_rel_sub by fastforce
  ultimately show ?thesis by blast
next
  case (MSearch query hops)
  let ?sel = "\<lambda>corpus. search_ball (env_codec E) corpus query (min hops MAX_SEARCH_HOPS)"
  obtain corpus where corpus: "served_corpus E R refs = Inr corpus"
    and pack: "build_pack E Z R (map (\<lambda>obj. obj_id (env_codec E) (OCollab obj)) (?sel corpus)) = Inr pack"
    using assms(2,3) by (auto simp: answer_collab_def MSearch bind_res_def split: sum.splits if_splits)
  have "\<exists>a \<in> set refs. repo_get E R (ra_target a) = Inr (Some (OCollab obj))" if "obj \<in> set (?sel corpus)" for obj
    using served_corpus_Inr [OF corpus] search_ball_sub that by blast
  with pack show ?thesis by (intro exI conjI) (assumption, unfold set_map, blast)
qed (use assms(2,3) in \<open>auto simp: answer_collab_def\<close>)

lemma served_public:
  assumes "rinv (r_refs R)" and "fits (r_refs R) (dom (rabst (r_refs R)))" and "readable (repo_get E R)"
    and "serve_collab E Z R relay signer inbox = (out, r, R')"
  shows "R' = R \<and> (\<forall>v caps refs sig. MWelcome v caps refs sig \<in> set out \<longrightarrow> (\<forall>a \<in> set refs. offers rabst E R relay (ra_target a))) \<and>
    (\<forall>pack. MPack pack \<in> set out \<longrightarrow> (\<exists>ids. build_pack E Z R ids = Inr pack \<and> (\<forall>i \<in> set ids. \<exists>j. offers rabst E R relay j \<and>
      ((j, i) \<in> (child_rel (repo_get E R))\<^sup>* \<or>
       (\<exists>obj. repo_get E R j = Inr (Some (OCollab obj)) \<and> i = obj_id (env_codec E) (OCollab obj))))))"
proof (cases "\<exists>u v c i nonce rest. inbox = MHello u v c i nonce # rest \<and> i \<noteq> IPush")
  case True
  then obtain u v c i nonce rest where inbox: "inbox = MHello u v c i nonce # rest" "i \<noteq> IPush" by blast
  show ?thesis
  proof (cases "collab_adverts E R relay")
    case (Inr refs)
    have off: "offers rabst E R relay (ra_target a)" if "a \<in> set refs" for a
      using collab_adverts_Inr [OF assms(1,2) Inr] that unfolding offers_def by metis
    show ?thesis
    proof (cases rest)
      case (Cons request rest')
      obtain out1 r1 where ans: "answer_collab E Z R refs request = (out1, r1)" by fastforce
      have "MWelcome v caps refs sig \<notin> set out1" for v caps refs sig
        using ans by (cases request) (auto simp: answer_collab_def Let_def split: sum.splits if_splits)
      moreover have "\<exists>ids. build_pack E Z R ids = Inr pack \<and> (\<forall>i \<in> set ids. \<exists>j. offers rabst E R relay j \<and>
          ((j, i) \<in> (child_rel (repo_get E R))\<^sup>* \<or>
           (\<exists>obj. repo_get E R j = Inr (Some (OCollab obj)) \<and> i = obj_id (env_codec E) (OCollab obj))))"
        if "MPack pack \<in> set out1" for pack
        using answer_confined [OF assms(3) ans that] off by blast
      ultimately show ?thesis using assms(4) off by (auto simp: serve_collab_def inbox Inr Cons ans Let_def)
    qed (use assms(4) off in \<open>auto simp: serve_collab_def inbox Inr\<close>)
  qed (use assms(4) in \<open>auto simp: serve_collab_def inbox\<close>)
next
  case False
  then show ?thesis using assms(4) by (cases inbox; cases "hd inbox") (auto simp: serve_collab_def)
qed

end

text \<open>
  C8. The collaboration endpoint is read only and public. Whatever a peer sends, the repository does not change; what is
  advertised is the target of a tag below the public prefix, or below the cache of other authors (on a relay the whole
  cache, elsewhere the cache of authors that a public edge follows); and each object of a pack that is sent
  is in the closure of such a target, or is a record stored there. So a scoped ref is neither advertised nor served.
\<close>

theorem serve_collab_public_only:
  assumes "repo_stores oinv oabst storable rinv fits rabst E"
    and "rinv (r_refs R)" and "fits (r_refs R) (dom (rabst (r_refs R)))" and "readable (repo_get E R)"
    and "serve_collab E Z R relay signer inbox = (out, r, R')"
  shows "R' = R \<and>
    (\<forall>v caps refs sig. MWelcome v caps refs sig \<in> set out \<longrightarrow> (\<forall>a \<in> set refs. offers rabst E R relay (ra_target a))) \<and>
    (\<forall>pack. MPack pack \<in> set out \<longrightarrow> (\<exists>ids. build_pack E Z R ids = Inr pack \<and> (\<forall>i \<in> set ids. \<exists>j. offers rabst E R relay j \<and>
      ((j, i) \<in> (child_rel (repo_get E R))\<^sup>* \<or>
       (\<exists>obj. repo_get E R j = Inr (Some (OCollab obj)) \<and> i = obj_id (env_codec E) (OCollab obj))))))"
  by (rule repo_stores.served_public [OF assms])

section \<open>Pulling\<close>

lemma file_records_Inr:
  assumes "file_records E objs ops R = (Inr ops', R')"
  shows "ops' = ops @ map (\<lambda>obj. SetRef (remote_record (env_codec E) obj) (policy_tag (obj_id (env_codec E) (OCollab obj)))) objs"
  using assms
proof (induction objs arbitrary: ops R)
  case (Cons obj objs)
  from Cons.prems obtain i R1 where put: "repo_put E R (OCollab obj) = Inr (i, R1)" by (auto split: sum.splits)
  with Cons.prems obtain name where name: "ref_name_new (remote_record (env_codec E) obj) = Inr name"
    by (auto split: sum.splits)
  from name have "name = remote_record (env_codec E) obj" by (simp add: valid_name_iff)
  with Cons.IH [of "ops @ [SetRef name (policy_tag i)]" R1] Cons.prems put name repo_put_refs [OF put]
  show ?case by simp
qed simp

lemma file_records_refs: "r_refs (snd (file_records E objs ops R)) = r_refs R"
  by (induction objs arbitrary: ops R) (auto split: sum.splits dest: repo_put_refs)

lemma fold_sets:
  assumes "fold_res op_effect (map (\<lambda>x. SetRef (f x) (g x)) xs) m = Inr m'"
  shows "m' n = m n \<or> (\<exists>x \<in> set xs. n = f x \<and> m' n = Some (g x))"
  using assms
proof (induction xs arbitrary: m)
  case (Cons x xs)
  then show ?case using Cons.IH [of "m(f x \<mapsto> g x)"] by (auto simp: op_effect_def split: if_splits)
qed simp

lemma peer_of_Some:
  assumes "peer_of resolved = Some peer"
  shows "\<exists>n p. (n, CProfile p) \<in> set resolved \<and> starts_with COLLAB_PUBLIC_PREFIX n \<and> pf_key p = peer"
proof -
  obtain n obj where "List.find (\<lambda>(name, obj). starts_with COLLAB_PUBLIC_PREFIX name \<and> is_profile obj) resolved = Some (n, obj)"
    and peer: "publisher_key obj = peer"
    using assms by (auto simp: peer_of_def)
  then have "(n, obj) \<in> set resolved" "starts_with COLLAB_PUBLIC_PREFIX n" "is_profile obj"
    by (auto simp: find_Some_iff) (metis nth_mem)
  with peer show ?thesis by (cases obj) (auto simp: publisher_key_def)
qed

text \<open>A record that is the object at the target of an advertised ref whose name has a prefix.\<close>

definition advertised :: "('o, 'r, 'a) repo_env \<Rightarrow> ('o, 'r, 'a) repository \<Rightarrow> ref_advert list \<Rightarrow> string \<Rightarrow> collab_object \<Rightarrow> bool" where
  "advertised E R refs pfx obj \<longleftrightarrow>
     (\<exists>a \<in> set refs. starts_with pfx (ra_name a) \<and> repo_get E R (ra_target a) = Inr (Some (OCollab obj)))"

context repo_stores
begin

lemma cache_records_effect:
  assumes "rinv (r_refs R)" and "fits (r_refs R) {n. starts_with COLLAB_REMOTES_PREFIX n}"
    and "cache_records E M refs R = (r, R')"
  shows "(rabst (r_refs R') n = rabst (r_refs R) n \<or> (\<exists>obj. advertised E R refs [] obj \<and> verified (env_ed E) M obj \<and>
      n = remote_record (env_codec E) obj \<and> rabst (r_refs R') n = Some (policy_tag (obj_id (env_codec E) (OCollab obj))))) \<and>
    (\<forall>peer. r = Inr peer \<longrightarrow> (\<exists>p. advertised E R refs COLLAB_PUBLIC_PREFIX (CProfile p) \<and> verify_profile (env_ed E) M p \<and> pf_key p = peer))"
proof (cases "\<exists>resolved peer ops R1. resolve_adverts E M R refs = Inr resolved \<and> peer_of resolved = Some peer \<and>
    file_records E (map snd resolved) [] R = (Inr ops, R1) \<and> repo_commit E R1 ops = Inr R' \<and> r = Inr peer")
  case True
  then obtain resolved peer ops R1 where run: "resolve_adverts E M R refs = Inr resolved" "peer_of resolved = Some peer"
    "file_records E (map snd resolved) [] R = (Inr ops, R1)" "repo_commit E R1 ops = Inr R'" "r = Inr peer" by blast
  have ver: "verified (env_ed E) M obj" "advertised E R refs [] obj" "starts_with pfx n \<Longrightarrow> advertised E R refs pfx obj"
    if "(n, obj) \<in> set resolved" for n obj pfx
    using resolve_adverts_Inr [OF run(1)] that by (fastforce simp: advertised_def starts_with_def)+
  let ?set = "\<lambda>obj. SetRef (remote_record (env_codec E) obj) (policy_tag (obj_id (env_codec E) (OCollab obj)))"
  have ops: "ops = map ?set (map snd resolved)" using file_records_Inr [OF run(3)] by simp
  have refs: "r_refs R1 = r_refs R" using file_records_refs [of E "map snd resolved" "[]" R] run(3) by simp
  obtain rs where rs: "commit_transaction (env_refs E) (r_refs R) ops = Inr rs" "R' = R1\<lparr>r_refs := rs\<rparr>"
    using run(4) refs by (auto simp: repo_commit_def bind_res_Inr)
  have "op_name ` set ops \<subseteq> {n. starts_with COLLAB_REMOTES_PREFIX n}" by (auto simp: ops remote_record_def)
  from rt.commit_refines [OF assms(1,2) this] rs(1) have "fold_res op_effect ops (rabst (r_refs R)) = Inr (rabst rs)"
    by (auto split: sum.splits)
  from fold_sets [OF this [unfolded ops], of n] ver(1,2) rs(2)
  have "rabst (r_refs R') n = rabst (r_refs R) n \<or> (\<exists>obj. advertised E R refs [] obj \<and> verified (env_ed E) M obj \<and>
      n = remote_record (env_codec E) obj \<and> rabst (r_refs R') n = Some (policy_tag (obj_id (env_codec E) (OCollab obj))))" by auto
  moreover obtain k p where "(k, CProfile p) \<in> set resolved" "starts_with COLLAB_PUBLIC_PREFIX k" "pf_key p = peer"
    using peer_of_Some [OF run(2)] by blast
  moreover from this ver have "verify_profile (env_ed E) M p" "advertised E R refs COLLAB_PUBLIC_PREFIX (CProfile p)"
    by (fastforce simp: verified_def)+
  ultimately show ?thesis using run(5) by blast
next
  case False
  then have "r_refs R' = r_refs R \<and> (\<forall>peer. r \<noteq> Inr peer)"
    using assms(3) file_records_refs [of E]
    by (auto simp: cache_records_def split: sum.splits option.splits prod.splits) (metis snd_conv)+
  then show ?thesis by simp
qed

end

text \<open>
  C11. Whatever a peer sends, a pull either changes no ref and names no peer, or the peer advertised some refs and sent
  a pack that has been stored. In the second case a ref that changes is below the remotes prefix, at the name
  of the record it now pins, under the fingerprint of the key that signed the record; this record carries a valid signature of that
  key and is the stored object at the target of an advertised ref. The pull names as its peer only the key of a validly signed profile that is the
  stored object at the target of a ref advertised below the public prefix. The backend must be able to hold the names below the remotes prefix.
\<close>

theorem pull_files_verified:
  assumes "repo_stores oinv oabst storable rinv fits rabst E"
    and "rinv (r_refs R)" and "fits (r_refs R) {n. starts_with COLLAB_REMOTES_PREFIX n}"
    and "collab_pull E Z M R inbox = (out, r, R')"
  shows "rabst (r_refs R') = rabst (r_refs R) \<and> (\<forall>peer. r \<noteq> Inr peer) \<or>
    (\<exists>v caps refs sig pack rest R1. inbox = MWelcome v caps refs sig # MPack pack # MDone # rest \<and> land_pack E Z pack R = (Inr (), R1) \<and>
      (\<forall>n. rabst (r_refs R') n = rabst (r_refs R) n \<or>
        (\<exists>obj. advertised E R1 refs [] obj \<and> verified (env_ed E) M obj \<and> n = remote_record (env_codec E) obj \<and>
          rabst (r_refs R') n = Some (policy_tag (obj_id (env_codec E) (OCollab obj))))) \<and>
      (\<forall>peer. r = Inr peer \<longrightarrow>
        (\<exists>p. advertised E R1 refs COLLAB_PUBLIC_PREFIX (CProfile p) \<and> verify_profile (env_ed E) M p \<and> pf_key p = peer)))"
proof (cases "\<exists>v caps refs sig pack rest. inbox = MWelcome v caps refs sig # MPack pack # MDone # rest")
  case True
  then obtain v caps refs sig pack rest where inbox: "inbox = MWelcome v caps refs sig # MPack pack # MDone # rest" by blast
  obtain l R1 where land: "land_pack E Z pack R = (l, R1)" by fastforce
  have R1: "r_refs R1 = r_refs R"
    using land land_refs [of E] by (auto simp: land_pack_def split: sum.splits) (metis snd_conv)
  show ?thesis
  proof (cases l)
    case (Inr u)
    with assms(4) have "cache_records E M refs R1 = (r, R')"
      by (auto simp: collab_pull_def Let_def inbox land split: prod.splits)
    note eff = repo_stores.cache_records_effect [OF assms(1) _ _ this, unfolded R1, OF assms(2,3)]
    have "land_pack E Z pack R = (Inr (), R1)" using land Inr by simp
    with eff inbox show ?thesis by (intro disjI2) blast
  qed (use assms(4) R1 in \<open>auto simp: collab_pull_def Let_def inbox land\<close>)
next
  case False
  have "R' = R \<and> (\<forall>peer. r \<noteq> Inr peer)"
  proof (cases "\<exists>v caps refs sig pack rest. inbox = MWelcome v caps refs sig # MPack pack # rest")
    case True
    then obtain v caps refs sig pack rest where inbox: "inbox = MWelcome v caps refs sig # MPack pack # rest" by blast
    with False assms(4) show ?thesis by (cases rest; cases "hd rest") (auto simp: collab_pull_def Let_def)
  next
    case no: False
    show ?thesis
    proof (cases "\<exists>v caps refs sig rest. inbox = MWelcome v caps refs sig # rest")
      case True
      then obtain v caps refs sig rest where inbox: "inbox = MWelcome v caps refs sig # rest" by blast
      with no assms(4) show ?thesis by (cases rest; cases "hd rest") (auto simp: collab_pull_def Let_def)
    next
      case False
      with assms(4) show ?thesis by (cases inbox; cases "hd inbox") (auto simp: collab_pull_def Let_def)
    qed
  qed
  then show ?thesis by (intro disjI1) simp
qed

section \<open>Searching a relay\<close>

text \<open>A relay that can answer a search: its corpus can be read, each record is stored under its id and verifies, and the selection fits in a pack.\<close>

definition relay_ready ::
  "('o \<Rightarrow> oid \<Rightarrow> bytes option) \<Rightarrow> ('o, 'r, 'a) repo_env \<Rightarrow> zstd \<Rightarrow> msg_codec \<Rightarrow> ('o, 'r, 'a) repository \<Rightarrow> ref_advert list \<Rightarrow>
   collab_object list \<Rightarrow> string \<Rightarrow> u8 \<Rightarrow> bool" where
  "relay_ready oabst E Z M R refs corpus query hops \<longleftrightarrow>
     zstd_ok Z \<and> (\<forall>c. length c \<le> MAX_OBJECT_LEN \<longrightarrow> (\<exists>z. z_enc Z c = Inr z)) \<and>
     ocodec_ok (env_codec E) \<and> ed25519_ok (env_ed E) \<and>
     collab_adverts E R True = Inr refs \<and> served_corpus E R refs = Inr corpus \<and>
     (\<forall>obj \<in> set corpus. verified (env_ed E) M obj \<and> (\<exists>data. serialize (env_codec E) (OCollab obj) = Inr data \<and>
       oabst (r_objects R) (obj_id (env_codec E) (OCollab obj)) = Some data)) \<and>
     pack_limits (env_codec E) (map (\<lambda>obj. (obj_id (env_codec E) (OCollab obj), the (oabst (r_objects R) (obj_id (env_codec E) (OCollab obj)))))
       (search_ball (env_codec E) corpus query hops))"

lemma keep_verified_all:
  assumes "ocodec_ok C" and "\<And>obj. obj \<in> set objs \<Longrightarrow> verified ed M obj \<and> serialize C (OCollab obj) = Inr (f obj)"
  shows "keep_verified C ed M (map (\<lambda>obj. (g obj, f obj)) objs) = objs"
  using assms(2)
proof (induction objs)
  case (Cons obj objs)
  then have "deserialize C (f obj) = Inr (OCollab obj)" using serialize_deserialize [OF assms(1)] by simp
  with Cons show ?case by (simp add: keep_verified_def)
qed (simp add: keep_verified_def)

context repo_stores
begin

lemma search_pack:
  assumes "oinv (r_objects R)" and "relay_ready oabst E Z M R refs corpus query hops"
  shows "\<exists>pack. build_pack E Z R (map (\<lambda>obj. obj_id (env_codec E) (OCollab obj)) (search_ball (env_codec E) corpus query hops)) = Inr pack \<and>
    receive_records (env_codec E) (env_ed E) Z M b (MPack pack # MDone # rest) = Inr (search_ball (env_codec E) corpus query hops)"
proof -
  let ?id = "\<lambda>obj. obj_id (env_codec E) (OCollab obj)" and ?sel = "search_ball (env_codec E) corpus query hops"
  let ?data = "\<lambda>obj. the (oabst (r_objects R) (?id obj))"
  have ready: "zstd_ok Z" "\<And>c. length c \<le> MAX_OBJECT_LEN \<Longrightarrow> \<exists>z. z_enc Z c = Inr z" "ocodec_ok (env_codec E)"
    "pack_limits (env_codec E) (map (\<lambda>obj. (?id obj, ?data obj)) ?sel)"
    and stored: "\<And>obj. obj \<in> set ?sel \<Longrightarrow> verified (env_ed E) M obj \<and> (\<exists>data. serialize (env_codec E) (OCollab obj) = Inr data \<and>
       oabst (r_objects R) (?id obj) = Some data)"
    using assms(2) search_ball_sub unfolding relay_ready_def by blast+
  have "set (map ?id ?sel) \<subseteq> dom (oabst (r_objects R))" using stored by auto
  from gather_raw_all [OF assms(1) this] have gather: "gather_raw E R (map ?id ?sel) = Inr (map (\<lambda>obj. (?id obj, ?data obj)) ?sel)"
    by (simp add: comp_def)
  obtain pack es digest where pack: "finish (env_codec E) Z (map (\<lambda>obj. (?id obj, ?data obj)) ?sel) = Inr (pack, es, digest)"
    "decode_pack (env_codec E) Z pack = Inr (map (\<lambda>obj. (?id obj, ?data obj)) ?sel)"
    using finish_decode [OF ready(1,4,2)] by blast
  have "keep_verified (env_codec E) (env_ed E) M (map (\<lambda>obj. (?id obj, ?data obj)) ?sel) = ?sel"
    by (rule keep_verified_all [OF ready(3)]) (use stored in fastforce)
  with pack show ?thesis by (simp add: build_pack_def gather receive_records_def)
qed

lemma search_session:
  assumes "oinv (r_objects R)" and "relay_ready oabst E Z M R refs corpus query hops" and "3 \<le> length query" and "hops \<le> MAX_SEARCH_HOPS"
  shows "\<exists>out. serve_collab E Z R True (Some seed)
      (fst (collab_search_authenticated (env_codec E) (env_ed E) Z M (ed_public (env_ed E) seed) nonce query hops out)) = (out, Inr (), R) \<and>
    snd (collab_search_authenticated (env_codec E) (env_ed E) Z M (ed_public (env_ed E) seed) nonce query hops out) =
      Inr (search_ball (env_codec E) corpus query hops)"
proof -
  obtain pack where pack: "build_pack E Z R (map (\<lambda>obj. obj_id (env_codec E) (OCollab obj)) (search_ball (env_codec E) corpus query hops)) = Inr pack"
    "receive_records (env_codec E) (env_ed E) Z M True [MPack pack, MDone] = Inr (search_ball (env_codec E) corpus query hops)"
    using search_pack [OF assms(1,2), of True "[]"] by blast
  have ready: "collab_adverts E R True = Inr refs" "served_corpus E R refs = Inr corpus" "ed25519_ok (env_ed E)"
    using assms(2) by (simp_all add: relay_ready_def)
  let ?proof = "sign_relay_challenge (env_ed E) seed nonce"
  let ?out = "[MWelcome PROTO_VERSION CAP_SEARCH refs (Some ?proof), MPack pack, MDone]"
  have auth: "verify_relay_challenge (env_ed E) (ed_public (env_ed E) seed) nonce ?proof"
    using ready(3) by (simp add: verify_relay_challenge_def sign_relay_challenge_def ed25519_ok_def)
  have caps: "cap_has (cap_intersect CAP_SEARCH CAP_SEARCH) CAP_SEARCH" by code_simp
  have client: "collab_search_authenticated (env_codec E) (env_ed E) Z M (ed_public (env_ed E) seed) nonce query hops ?out =
      ([MHello PROTO_VERSION PROTO_VERSION CAP_SEARCH IFetch (Some nonce), MSearch query hops], Inr (search_ball (env_codec E) corpus query hops))"
    using auth caps pack(2) by (simp add: collab_search_authenticated_def check_relay_def search_or_fallback_def)
  have "min hops MAX_SEARCH_HOPS = hops" using assms(4) by (simp add: min_def)
  then have "serve_collab E Z R True (Some seed)
      [MHello PROTO_VERSION PROTO_VERSION CAP_SEARCH IFetch (Some nonce), MSearch query hops] = (?out, Inr (), R)"
    using ready pack(1) assms(3)
    by (simp add: serve_collab_def relay_proof_def answer_collab_def MIN_SEARCH_TERM_LEN_def)
  with client show ?thesis by (intro exI [of _ ?out]) simp
qed

end

text \<open>
  C17. An authenticated search of a pinned relay works from end to end: the messages of the client, answered by a relay that holds the pinned
  key, lead to an exchange that ends well on both sides and changes nothing on the relay. The relay proves possession of its key over the nonce of the
  client, and ranking the records that arrive gives the client the same people, names and distances as
  ranking the whole corpus of the relay. This is so for a query of at least 3 bytes and at most 6 hops, a corpus that can be read, whose
  records verify and are stored under their ids and whose edges have different ids, an answer within the limits of a pack, and edges of the client's own.
\<close>

theorem relay_search_end_to_end:
  assumes "repo_stores oinv oabst storable rinv fits rabst E" and "oinv (r_objects R)"
    and "relay_ready oabst E Z M R refs corpus query hops" and "3 \<le> length query" and "hops \<le> MAX_SEARCH_HOPS"
    and "\<forall>e \<in> set own. ed_from_key e = self" and "inj_on (edge_id (env_codec E)) (set (edges_of corpus))"
  shows "\<exists>out records. serve_collab E Z R True (Some seed)
      (fst (collab_search_authenticated (env_codec E) (env_ed E) Z M (ed_public (env_ed E) seed) nonce query hops out)) = (out, Inr (), R) \<and>
    snd (collab_search_authenticated (env_codec E) (env_ed E) Z M (ed_public (env_ed E) seed) nonce query hops out) = Inr records \<and>
    image_mset hit_view (mset (rank_strangers (env_codec E) self own records query hops)) =
      image_mset hit_view (mset (rank_strangers (env_codec E) self own corpus query hops))"
  using repo_stores.search_session [OF assms(1-5)] search_ranks_same [OF assms(6,7)] by blast

section \<open>Instances\<close>

lemma ada_readable: "readable (repo_get ada_env ada_repo)"
  unfolding memory_env_simps by (rule readable_memory) (simp add: ada_repo_def deserialize_def table_codec_def map_codec_def ada_objects_def)

lemma ada_inv: "mem_inv (r_objects ada_repo)" "mr_inv (r_refs ada_repo)"
  by (auto simp: mem_inv_def mr_inv_def ada_repo_def)

lemma ada_list: "adverts_under ada_env ada_repo prefix =
    Inr (if starts_with prefix ada_name then [\<lparr>ra_name = ada_name, ra_target = 0, ra_is_timeline = False\<rparr>] else [])"
  by (simp add: adverts_under_def memory_refs_def mr_list_def ada_repo_def get_tag_def mr_get_def)

lemma ada_name_public: "starts_with COLLAB_PUBLIC_PREFIX ada_name" "\<not> starts_with COLLAB_REMOTES_PREFIX ada_name"
  by code_simp+

lemma ada_corpus: "collab_adverts ada_env ada_repo True = Inr [\<lparr>ra_name = ada_name, ra_target = 0, ra_is_timeline = False\<rparr>]"
  "served_corpus ada_env ada_repo [\<lparr>ra_name = ada_name, ra_target = 0, ra_is_timeline = False\<rparr>] = Inr [CProfile (ada_profile 1)]"
  using ada_get by (simp_all add: collab_adverts_def ada_list ada_name_public served_corpus_def)

lemma empty_pack: "\<exists>pack. decode_pack (table_codec objs) stored pack = Inr []"
  using finish_decode [OF stored_ok(1), of "table_codec objs" "[]"]
  by (auto simp: pack_limits_def stored_def MAX_OBJECT_LEN_def)

lemma ada_matches: "profile_matches (ada_profile 1) ''ada''" "pf_display_name (ada_profile 1) = ''ada''"
proof -
  show name: "pf_display_name (ada_profile 1) = ''ada''" by (simp add: ada_profile_def sign_profile_def Let_def)
  have "str_contains ''ada'' ''ada''" by code_simp
  with name show "profile_matches (ada_profile 1) ''ada''" by (simp add: profile_matches_def)
qed

lemma ada_ready:
  "relay_ready map_of ada_env stored flat_codec ada_repo [\<lparr>ra_name = ada_name, ra_target = 0, ra_is_timeline = False\<rparr>]
     [CProfile (ada_profile 1)] ''ada'' 6"
proof -
  have ser: "serialize (table_codec ada_objects) (OCollab (CProfile (ada_profile 1))) = Inr [0]"
    by (simp add: serialize_def table_codec_def map_codec_def ada_objects_def)
  then have id: "obj_id (table_codec ada_objects) (OCollab (CProfile (ada_profile 1))) = 0"
    by (simp add: obj_id_def object_id_def from_content_def from_be_def table_codec_def)
  have sel: "search_ball (table_codec ada_objects) [CProfile (ada_profile 1)] ''ada'' 6 = [CProfile (ada_profile 1)]"
    by (simp add: search_ball_def incoming_edges_def ada_matches)
  have "pack_limits (table_codec ada_objects) [(0, [0])]"
    by (simp add: pack_limits_def good_object_def from_content_def from_be_def table_codec_def MAX_OBJECT_LEN_def
        MAX_PACK_OBJECTS_def MAX_PACK_TOTAL_LEN_def)
  moreover have "map_of (r_objects ada_repo) 0 = Some [0]" by (simp add: ada_repo_def)
  moreover have "\<forall>c. length c \<le> MAX_OBJECT_LEN \<longrightarrow> (\<exists>z. z_enc stored c = Inr z)" by (simp add: stored_def MAX_OBJECT_LEN_def)
  ultimately show ?thesis
    unfolding relay_ready_def using ada_corpus table_codec_ok stored_ok plain_scheme_ok ser id sel by (simp add: verified_def)
qed

theorem serve_collab_public_only_witness:
  "\<exists>out r. serve_collab ada_env stored ada_repo True None [hello_msg IFetch, MHaveWant [0] []] = (out, r, ada_repo) \<and>
     MWelcome PROTO_VERSION CAP_SEARCH [\<lparr>ra_name = ada_name, ra_target = 0, ra_is_timeline = False\<rparr>] None \<in> set out \<and>
     offers map_of ada_env ada_repo True 0"
proof -
  obtain out r R' where run: "serve_collab ada_env stored ada_repo True None [hello_msg IFetch, MHaveWant [0] []] = (out, r, R')"
    by (metis prod.exhaust)
  have greets: "MWelcome PROTO_VERSION CAP_SEARCH [\<lparr>ra_name = ada_name, ra_target = 0, ra_is_timeline = False\<rparr>] None \<in> set out"
    using run by (auto simp: serve_collab_def ada_corpus relay_proof_def split: prod.splits)
  from serve_collab_public_only [OF memrepo.repo_stores_axioms ada_inv(2) TrueI ada_readable run] greets
  have "R' = ada_repo" "offers map_of ada_env ada_repo True 0" by fastforce+
  with run greets show ?thesis by blast
qed

theorem relay_search_end_to_end_witness:
  "\<exists>out records. serve_collab ada_env stored ada_repo True (Some [9])
      (fst (collab_search_authenticated (table_codec ada_objects) plain_scheme stored flat_codec [9] [1, 2] ''ada'' 6 out)) = (out, Inr (), ada_repo) \<and>
    snd (collab_search_authenticated (table_codec ada_objects) plain_scheme stored flat_codec [9] [1, 2] ''ada'' 6 out) = Inr records \<and>
    image_mset hit_view (mset (rank_strangers (table_codec ada_objects) [1] [follow_edge [1] [7]] records ''ada'' 6)) = {#([7], ''ada'', Some 1)#}"
proof -
  have "trust_path [follow_edge [1] [7]] [1] [7] 6 = Some [\<lparr>th_key = [7], th_via = Follow\<rparr>]" by code_simp
  then have rank: "image_mset hit_view (mset (rank_strangers (table_codec ada_objects) [1] [follow_edge [1] [7]] [CProfile (ada_profile 1)] ''ada'' 6)) =
      {#([7], ''ada'', Some 1)#}"
    unfolding rank_view by (simp add: ada_matches)
  have key: "ed_public plain_scheme [9] = [9]" by (simp add: plain_scheme_def)
  have "ed_from_key (follow_edge [1] [7]) = [1]" by (simp add: follow_edge_def)
  moreover have "(6 :: u8) \<le> MAX_SEARCH_HOPS" by (simp add: MAX_SEARCH_HOPS_def)
  moreover note relay_search_end_to_end [OF memrepo.repo_stores_axioms ada_inv(1) ada_ready, of "[follow_edge [1] [7]]" "[1]" "[9]" "[1, 2]"]
  ultimately show ?thesis by (simp add: key rank)
qed

text \<open>A pull of the profile of ada from a node that holds it, and a push of a new profile to a hub.\<close>

theorem pull_files_verified_witness:
  "\<exists>pack out R' R1 p. collab_pull ada_env stored flat_codec ada_repo
      [welcome_msg [\<lparr>ra_name = ada_name, ra_target = 0, ra_is_timeline = False\<rparr>], MPack pack, MDone] = (out, Inr [7], R') \<and>
    advertised ada_env R1 [\<lparr>ra_name = ada_name, ra_target = 0, ra_is_timeline = False\<rparr>] COLLAB_PUBLIC_PREFIX (CProfile p) \<and>
    verify_profile plain_scheme flat_codec p \<and> pf_key p = [7]"
proof -
  obtain pack where pack: "decode_pack (table_codec ada_objects) stored pack = Inr []" using empty_pack by blast
  let ?refs = "[\<lparr>ra_name = ada_name, ra_target = 0, ra_is_timeline = False\<rparr>]"
  let ?name = "remote_record (table_codec []) (CProfile (ada_profile 1))"
  have name: "remote_record (table_codec ada_objects) (CProfile (ada_profile 1)) = ?name"
    by (simp add: remote_record_def fingerprint_def table_codec_def)
  have "valid_name (COLLAB_REMOTES_PREFIX @ fingerprint (table_codec []) [7] @ ''/profile'')" by code_simp
  then have valid: "ref_name_new ?name = Inr ?name" by (simp add: valid_name_iff remote_record_def publisher_key_def)
  have put: "repo_put ada_env ada_repo (OCollab (CProfile (ada_profile 1))) = Inr (0, ada_repo)"
    by (simp add: repo_put_def ost_put_def serialize_def table_codec_def map_codec_def ada_objects_def object_id_def from_content_def
        memory_backend_def mem_exists_def mem_put_def ada_repo_def memory_repo_def from_be_def)
  have resolved: "resolve_adverts ada_env flat_codec ada_repo ?refs = Inr [(ada_name, CProfile (ada_profile 1))]"
    using ada_get by (simp add: resolve_adverts_def verified_def)
  obtain R' where com: "repo_commit ada_env ada_repo [SetRef ?name (policy_tag 0)] = Inr R'"
    by (simp add: repo_commit_def commit_transaction_def resolve_def memory_refs_def default_apply_atomic_def plan_step_def mr_set_def)
  have "cache_records ada_env flat_codec ?refs ada_repo = (Inr [7], R')"
    by (simp add: cache_records_def resolved peer_of_def ada_name_public publisher_key_def put name valid com)
  then have run: "collab_pull ada_env stored flat_codec ada_repo [welcome_msg ?refs, MPack pack, MDone] =
      ([hello_msg IFetch, want_all ?refs], Inr [7], R')"
    using pack by (simp add: collab_pull_def land_pack_def)
  from pull_files_verified [OF memrepo.repo_stores_axioms ada_inv(2) TrueI run]
  obtain R1 p where "advertised ada_env R1 ?refs COLLAB_PUBLIC_PREFIX (CProfile p)" "verify_profile plain_scheme flat_codec p" "pf_key p = [7]"
    by auto
  with run show ?thesis by blast
qed

lemma ada_advertises: "\<exists>refs. session_advertise ada_env ada_repo (owner_accessor (table_codec ada_objects) [7]) = Inr refs"
proof -
  have "\<not> isl (session_advertise ada_env ada_repo (owner_accessor (table_codec ada_objects) [7]))" by code_simp
  then show ?thesis by (cases "session_advertise ada_env ada_repo (owner_accessor (table_codec ada_objects) [7])") auto
qed

lemma ada_push: "apply_push_ops ada_env ada_repo acc [] = Inr ([], ada_repo)"
proof -
  have "policy_root_of ada_env ada_repo = Inr None" "r_hooks ada_repo = []" by code_simp+
  then have "policy_registry ada_env ada_repo = Inr registry_new" by (simp add: policy_registry_def push_specs_def)
  moreover have "repo_rules ada_env ada_repo = Inr []" "reg_deterministic registry_new" by code_simp+
  ultimately show ?thesis by (simp add: apply_push_ops_def push_filter_def get_lattice_def del: memory_env_simps)
qed

theorem hub_push_confined_witness:
  "\<exists>pack sig out R'. serve_hub ada_env stored flat_codec ada_repo [1, 2]
      [MHubHello [7], MHubProof sig, MPack pack, MRefUpdate [], MHubIdentity (Some (ada_profile 2)) []] = (out, Inr (), R') \<and> R' \<noteq> ada_repo \<and>
    (\<forall>n. map_of (r_refs R') n = map_of (r_refs ada_repo) n \<or> owner_ref ada_env flat_codec [7] n (map_of (r_refs R') n))"
proof -
  obtain pack where pack: "decode_pack (table_codec ada_objects) stored pack = Inr []" using empty_pack by blast
  let ?sig = "ed_sign plain_scheme [7] (challenge_message [1, 2])"
  let ?inbox = "[MHubHello [7], MHubProof ?sig, MPack pack, MRefUpdate [], MHubIdentity (Some (ada_profile 2)) []]"
  have sig: "verify_proof plain_scheme [7] [1, 2] ?sig" by code_simp
  obtain refs where refs: "session_advertise ada_env ada_repo (owner_accessor (table_codec ada_objects) [7]) = Inr refs"
    using ada_advertises ..
  obtain R' where R': "publish_profile ada_env flat_codec ada_repo (ada_profile 2) = Inr (1, R')" using ada_publishes ..
  have "\<exists>out. serve_hub ada_env stored flat_codec ada_repo [1, 2] ?inbox = (out, Inr (), R')"
    using sig refs pack ada_push R' by (simp add: serve_hub_def serve_authenticated_push_def land_identity_def unless_refused_def)
  then obtain out where run: "serve_hub ada_env stored flat_codec ada_repo [1, 2] ?inbox = (out, Inr (), R')" ..
  have "R' \<noteq> ada_repo"
  proof
    assume "R' = ada_repo"
    moreover have "put_pinned ada_env ada_repo (OCollab (CProfile (ada_profile 2))) (\<lambda>_. ada_name) = Inr (1, R')"
      using publish_profile_Inr [OF R'] by (simp add: ada_name_eq)
    from memrepo.pinned_refs [OF ada_inv(2) TrueI UNIV_I this] have "map_of (r_refs R') ada_name = Some (policy_tag
        (obj_id (table_codec ada_objects) (OCollab (CProfile (ada_profile 2)))))" by simp
    moreover have "obj_id (table_codec ada_objects) (OCollab (CProfile (ada_profile 2))) = 1"
      by (simp add: obj_id_def serialize_def table_codec_def map_codec_def ada_objects_def object_id_def from_content_def from_be_def)
    ultimately show False by (simp add: ada_repo_def)
  qed
  with hub_push_confined [OF memrepo.repo_stores_axioms ada_inv(2) TrueI run]
  have "\<forall>n. map_of (r_refs R') n = map_of (r_refs ada_repo) n \<or> owner_ref ada_env flat_codec [7] n (map_of (r_refs R') n)" by simp
  with run \<open>R' \<noteq> ada_repo\<close> show ?thesis by blast
qed

end
