(* ===== verification/Api.thy ===== *)
theory Api
  imports Hub Secrets
begin

text \<open>
  The HTTP server (\<^verbatim>\<open>bole-api/src/\<close>): the configuration of credentials (\<^verbatim>\<open>config.rs\<close>), the error envelope
  (\<^verbatim>\<open>error.rs\<close>), the authentication of requests (\<^verbatim>\<open>auth.rs\<close>) and the read-only handlers (\<^verbatim>\<open>handlers/\<close>), with the
  JSON they answer. A request is a record with its method, its target, its headers and the address of the
  peer; the clock is an argument. Routing and the extraction of path and query parameters are the framework's:
  a handler takes the parameters it asks for. The hex codec, SHA-256 and the parser of IP addresses are
  fields of the record \<^verbatim>\<open>web\<close>. Log messages are left out.
\<close>

section \<open>JSON and errors\<close>

datatype json = JNull | JBool bool | JNum nat | JStr string | JArr "json list" | JObj "(string \<times> json) list"

abbreviation jopt :: "('a \<Rightarrow> json) \<Rightarrow> 'a option \<Rightarrow> json" where
  "jopt f x \<equiv> (case x of None \<Rightarrow> JNull | Some y \<Rightarrow> f y)"

abbreviation jid :: "oid \<Rightarrow> json" where
  "jid i \<equiv> JStr (oid_display i)"

abbreviation jword :: "u64 \<Rightarrow> json" where
  "jword w \<equiv> JNum (unat w)"

record api_error =
  ae_status :: nat
  ae_code :: string
  ae_message :: string

type_synonym 'a api = "api_error + 'a"

definition bad_request :: "string \<Rightarrow> api_error" where
  "bad_request m = \<lparr>ae_status = 400, ae_code = ''bad_request'', ae_message = m\<rparr>"

definition unauthorized :: "string \<Rightarrow> api_error" where
  "unauthorized m = \<lparr>ae_status = 401, ae_code = ''unauthorized'', ae_message = m\<rparr>"

definition not_found :: "string \<Rightarrow> api_error" where
  "not_found m = \<lparr>ae_status = 404, ae_code = ''not_found'', ae_message = m\<rparr>"

definition method_not_allowed :: "string \<Rightarrow> api_error" where
  "method_not_allowed m = \<lparr>ae_status = 405, ae_code = ''method_not_allowed'', ae_message = m\<rparr>"

definition internal :: "string \<Rightarrow> api_error" where
  "internal m = \<lparr>ae_status = 500, ae_code = ''internal'', ae_message = m\<rparr>"

definition from_status :: "nat \<Rightarrow> string \<Rightarrow> api_error" where
  "from_status status m =
     \<lparr>ae_status = status,
      ae_code = (if status = 400 then ''bad_request'' else if status = 401 then ''unauthorized''
        else if status = 404 then ''not_found'' else if status = 405 then ''method_not_allowed''
        else if 500 \<le> status \<and> status < 600 then ''internal'' else ''bad_request''),
      ae_message = m\<rparr>"

definition into_response :: "api_error \<Rightarrow> nat \<times> json" where
  "into_response e = (ae_status e, JObj [(''error'', JObj [(''code'', JStr (ae_code e)), (''message'', JStr (ae_message e))])])"

definition api_of_error :: "error \<Rightarrow> api_error" where
  "api_of_error e = internal (error_display e)"

text \<open>The \<open>?\<close> operator of the handlers, on their own errors and on those of the library.\<close>

definition bind_api :: "'a api \<Rightarrow> ('a \<Rightarrow> 'b api) \<Rightarrow> 'b api" where
  "bind_api r f = (case r of Inl e \<Rightarrow> Inl e | Inr x \<Rightarrow> f x)"

definition bind_lib :: "'a result \<Rightarrow> ('a \<Rightarrow> 'b api) \<Rightarrow> 'b api" where
  "bind_lib r f = (case r of Inl e \<Rightarrow> Inl (api_of_error e) | Inr x \<Rightarrow> f x)"

definition or_reject :: "'a option \<Rightarrow> api_error \<Rightarrow> 'a api" where
  "or_reject x e = (case x of None \<Rightarrow> Inl e | Some y \<Rightarrow> Inr y)"

section \<open>Configuration\<close>

datatype ip_addr = V4 "32 word" | V6 "128 word"

record web =
  w_hex :: "bytes \<Rightarrow> string"
  w_unhex :: "string \<Rightarrow> bytes option"
  w_sha256 :: "bytes \<Rightarrow> bytes"
  w_ip :: "string \<Rightarrow> ip_addr option"

record registered_key =
  rk_pubkey :: key
  rk_actor :: string

record auth_config =
  ac_actors :: actor_map
  ac_keys :: "registered_key table"
  ac_trusted :: "string list"

record auth_config_file =
  cf_tokens :: "string table"
  cf_mtls :: "string table"
  cf_keys :: "(string \<times> string) table"
  cf_trusted :: "string list"

definition read_pubkey :: "web \<Rightarrow> string \<Rightarrow> string \<Rightarrow> string + key" where
  "read_pubkey W key_id hex = (case w_unhex W hex of
       None \<Rightarrow> Inl (''key '' @ key_id @ '': pubkey is not valid hex'')
     | Some raw \<Rightarrow> if length raw = 32 then Inr raw else Inl (''key '' @ key_id @ '': pubkey must be 32 bytes''))"

fun read_keys :: "web \<Rightarrow> (string \<times> string) table \<Rightarrow> actor_map \<times> registered_key table \<Rightarrow> string + (actor_map \<times> registered_key table)" where
  "read_keys W [] acc = Inr acc"
| "read_keys W ((key_id, hex, actor) # rest) (actors, keys) =
     (case read_pubkey W key_id hex of
        Inl e \<Rightarrow> Inl e
      | Inr pubkey \<Rightarrow> read_keys W rest
          (map_ssh_key actors key_id actor, AList.update key_id \<lparr>rk_pubkey = pubkey, rk_actor = actor\<rparr> keys))"

definition from_file :: "web \<Rightarrow> auth_config_file \<Rightarrow> string + auth_config" where
  "from_file W f =
     (let actors1 = fold (\<lambda>(token, actor) m. map_token m token actor) (cf_tokens f) actor_map_new;
          actors2 = fold (\<lambda>(subject, actor) m. map_mtls m subject actor) (cf_mtls f) actors1 in
      case read_keys W (cf_keys f) (actors2, []) of
        Inl e \<Rightarrow> Inl e
      | Inr (actors, keys) \<Rightarrow> Inr \<lparr>ac_actors = actors, ac_keys = keys, ac_trusted = cf_trusted f\<rparr>)"

section \<open>Requests\<close>

text \<open>A header value reads as text or it does not.\<close>

datatype header = HText string | HOpaque

record request =
  rq_method :: string
  rq_target :: string
  rq_headers :: "header table"
  rq_peer :: "ip_addr option"

definition header_text :: "request \<Rightarrow> string \<Rightarrow> string option" where
  "header_text rq name = (case map_of (rq_headers rq) name of Some (HText s) \<Rightarrow> Some s | _ \<Rightarrow> None)"

text \<open>String operations of the standard library, on the ASCII text of headers.\<close>

definition ascii_lower :: "char \<Rightarrow> char" where
  "ascii_lower c = (if CHR ''A'' \<le> c \<and> c \<le> CHR ''Z'' then char_of (of_char c + (32 :: nat)) else c)"

definition eq_ignore_case :: "string \<Rightarrow> string \<Rightarrow> bool" where
  "eq_ignore_case s t \<longleftrightarrow> map ascii_lower s = map ascii_lower t"

fun split_space :: "string \<Rightarrow> (string \<times> string) option" where
  "split_space [] = None"
| "split_space (c # s) = (if c = CHR '' '' then Some ([], s) else map_option (\<lambda>(a, b). (c # a, b)) (split_space s))"

definition is_space :: "char \<Rightarrow> bool" where
  "is_space c \<longleftrightarrow> c = CHR '' '' \<or> (9 \<le> (of_char c :: nat) \<and> (of_char c :: nat) \<le> 13)"

definition trim_by :: "(char \<Rightarrow> bool) \<Rightarrow> string \<Rightarrow> string" where
  "trim_by p s = rev (dropWhile p (rev (dropWhile p s)))"

definition digit_val :: "char \<Rightarrow> nat option" where
  "digit_val c = (if CHR ''0'' \<le> c \<and> c \<le> CHR ''9'' then Some (of_char c - 48) else None)"

fun digits_val :: "string \<Rightarrow> nat \<Rightarrow> nat option" where
  "digits_val [] n = Some n"
| "digits_val (c # s) n = (case digit_val c of None \<Rightarrow> None | Some d \<Rightarrow> digits_val s (10 * n + d))"

definition parse_u64 :: "string \<Rightarrow> u64 option" where
  "parse_u64 s =
     (let body = (case s of c # rest \<Rightarrow> if c = CHR ''+'' then rest else s | [] \<Rightarrow> []) in
      if body = [] then None
      else case digits_val body 0 of None \<Rightarrow> None | Some n \<Rightarrow> if n < 2 ^ 64 then Some (of_nat n) else None)"

definition abs_diff :: "u64 \<Rightarrow> u64 \<Rightarrow> u64" where
  "abs_diff a b = (if a < b then b - a else a - b)"

definition canonical_ip :: "ip_addr \<Rightarrow> ip_addr" where
  "canonical_ip a = (case a of
       V6 w \<Rightarrow> if drop_bit 32 w = 0xFFFF then V4 (ucast w) else V6 w
     | V4 w \<Rightarrow> V4 w)"

definition extract_param :: "string \<Rightarrow> string \<Rightarrow> string option" where
  "extract_param s name =
     (case List.find (\<lambda>part. starts_with (name @ ''='') part) (map (trim_by is_space) (split_at CHR '','' s)) of
        None \<Rightarrow> None
      | Some part \<Rightarrow> Some (trim_by (\<lambda>c. c = CHR 0x22) (drop (length (name @ ''='')) part)))"

definition SIGNED_REQUEST_DOMAIN :: bytes where
  "SIGNED_REQUEST_DOMAIN = str_bytes ''bole-http-req-v1'' @ [0]"

definition MAX_SKEW_SECS :: u64 where
  "MAX_SKEW_SECS = 300"

definition DUMMY_VERIFY_SEED :: bytes where
  "DUMMY_VERIFY_SEED = replicate 32 0x42"

definition request_message :: "web \<Rightarrow> string \<Rightarrow> string \<Rightarrow> string \<Rightarrow> bytes" where
  "request_message W method target date =
     SIGNED_REQUEST_DOMAIN @
     str_bytes (method @ [CHR 0x0A] @ target @ [CHR 0x0A] @ date @ [CHR 0x0A] @ w_hex W (w_sha256 W []))"

definition signed_rejected :: api_error where
  "signed_rejected = unauthorized ''signed request rejected''"

definition verify_signed :: "web \<Rightarrow> ed25519 \<Rightarrow> u64 \<Rightarrow> auth_config \<Rightarrow> request \<Rightarrow> string \<Rightarrow> principal api" where
  "verify_signed W ed now cfg rq rest =
     bind_api (or_reject (extract_param rest ''keyId'') signed_rejected) (\<lambda>key_id.
     bind_api (or_reject (extract_param rest ''sig'') signed_rejected) (\<lambda>sig_hex.
     bind_api (or_reject (header_text rq ''x-bole-date'') signed_rejected) (\<lambda>date.
     bind_api (or_reject (parse_u64 date) signed_rejected) (\<lambda>ts.
     if MAX_SKEW_SECS < abs_diff now ts then Inl signed_rejected
     else
       (let registered = map_of (ac_keys cfg) key_id;
            msg = request_message W (rq_method rq) (rq_target rq) date in
        bind_api (case registered of
            Some r \<Rightarrow> if ed_key_valid ed (rk_pubkey r) then Inr (rk_pubkey r) else Inl signed_rejected
          | None \<Rightarrow> Inr (ed_public ed DUMMY_VERIFY_SEED)) (\<lambda>vk.
        let sig_ok = (case w_unhex W sig_hex of
              Some sig \<Rightarrow> length sig = 64 \<and> ed_verify ed vk msg sig
            | None \<Rightarrow> False) in
        if registered = None \<or> \<not> sig_ok then Inl signed_rejected else Inr (SshKey key_id)))))))"

definition resolve_principal :: "web \<Rightarrow> ed25519 \<Rightarrow> u64 \<Rightarrow> auth_config \<Rightarrow> request \<Rightarrow> principal api" where
  "resolve_principal W ed now cfg rq =
     (case map_of (rq_headers rq) ''authorization'' of
        Some HOpaque \<Rightarrow> Inl (bad_request ''non-ascii Authorization header'')
      | Some (HText value) \<Rightarrow>
          (case split_space value of
             None \<Rightarrow> Inl (unauthorized ''malformed Authorization header'')
           | Some (sch, rest) \<Rightarrow>
               if eq_ignore_case sch ''bearer'' then Inr (Token rest)
               else if eq_ignore_case sch ''signature'' then verify_signed W ed now cfg rq rest
               else Inl (unauthorized ''unrecognized Authorization scheme''))
      | None \<Rightarrow>
          (case header_text rq ''x-bole-client-subject'' of
             None \<Rightarrow> Inr Anonymous
           | Some subject \<Rightarrow>
               (let trusted = (case rq_peer rq of
                    None \<Rightarrow> False
                  | Some a \<Rightarrow> list_ex (\<lambda>t. case w_ip W t of Some b \<Rightarrow> canonical_ip b = canonical_ip a | None \<Rightarrow> False) (ac_trusted cfg)) in
                if trusted then Inr (Mtls subject) else Inr Anonymous)))"

record request_auth =
  au_accessor :: accessor
  au_principal :: principal
  au_actor :: "string option"

definition authenticate :: "web \<Rightarrow> ('o, 'r, 'a) repo_env \<Rightarrow> ('o, 'r, 'a) repository \<Rightarrow> u64 \<Rightarrow> auth_config \<Rightarrow> request \<Rightarrow> request_auth api" where
  "authenticate W E R now cfg rq =
     bind_api (resolve_principal W (env_ed E) now cfg rq) (\<lambda>p.
     let actor = actor_for (ac_actors cfg) p in
     if actor = None \<and> p \<noteq> Anonymous then Inl (unauthorized ''credentials do not map to a known actor'')
     else bind_lib (accessor_for (env_acls E) (r_acls R) (ac_actors cfg) p) (\<lambda>acc.
       Inr \<lparr>au_accessor = acc, au_principal = p, au_actor = actor\<rparr>))"

section \<open>Handlers\<close>

definition get_status :: "string \<Rightarrow> ('o, 'r, 'a) repo_env \<Rightarrow> ('o, 'r, 'a) repository \<Rightarrow> json api" where
  "get_status version E R =
     bind_lib (rb_list (env_refs E) (r_refs R) []) (\<lambda>refs.
       Inr (JObj [(''service'', JStr ''bole-api''), (''version'', JStr version), (''ref_count'', JNum (length refs))]))"

definition list_timelines :: "('o, 'r, 'a) repo_env \<Rightarrow> ('o, 'r, 'a) repository \<Rightarrow> request_auth \<Rightarrow> json api" where
  "list_timelines E R auth =
     bind_lib (list_refs_served E R [] (au_accessor auth)) (\<lambda>names.
     bind_lib (fold_res (\<lambda>name out. bind_res (rb_get (env_refs E) (r_refs R) name) (\<lambda>cur. Inr (case cur of
         Some (RTimeline t) \<Rightarrow> out @ [JObj [(''name'', JStr name), (''kind'', JStr ''timeline''), (''head'', jid (tl_head t)),
           (''policy'', JStr (policy_debug (tl_policy t)))]]
       | Some (RTag t) \<Rightarrow> out @ [JObj [(''name'', JStr name), (''kind'', JStr ''tag''), (''head'', jid (tag_target t))]]
       | None \<Rightarrow> out))) names []) (\<lambda>rows.
       Inr (JObj [(''timelines'', JArr rows)])))"

definition get_timeline_ref :: "('o, 'r, 'a) repo_env \<Rightarrow> ('o, 'r, 'a) repository \<Rightarrow> string \<Rightarrow> request_auth \<Rightarrow> json api" where
  "get_timeline_ref E R name auth =
     (case ref_name_new name of
        Inl _ \<Rightarrow> Inl (bad_request ''invalid ref name'')
      | Inr n \<Rightarrow>
          bind_lib (ref_served E R n (au_accessor auth)) (\<lambda>served.
          if \<not> served then Inl (not_found ''no such ref'')
          else bind_lib (rb_get (env_refs E) (r_refs R) n) (\<lambda>cur. case cur of
              Some (RTimeline t) \<Rightarrow> Inr (JObj [(''name'', JStr n), (''kind'', JStr ''timeline''), (''head'', jid (tl_head t)),
                (''policy'', JStr (policy_debug (tl_policy t))), (''created_at'', jword (tl_created_at t))])
            | Some (RTag t) \<Rightarrow> Inr (JObj [(''name'', JStr n), (''kind'', JStr ''tag''), (''head'', jid (tag_target t)),
                (''created_at'', jword (tag_created_at t))])
            | None \<Rightarrow> Inl (not_found ''no such ref''))))"

definition parse_oid :: "string \<Rightarrow> oid api" where
  "parse_oid s = or_reject (oid_from_str s) (bad_request ''invalid object id (expected 64 hex chars)'')"

definition filtered_or_404 :: "('o, 'r, 'a) repo_env \<Rightarrow> ('o, 'r, 'a) repository \<Rightarrow> oid \<Rightarrow> request_auth \<Rightarrow> filtered_snapshot api" where
  "filtered_or_404 E R i auth =
     bind_lib (get_snapshot_filtered E R i (au_accessor auth)) (\<lambda>found. or_reject found (not_found ''no such snapshot''))"

definition get_metadata :: "('o, 'r, 'a) repo_env \<Rightarrow> ('o, 'r, 'a) repository \<Rightarrow> string \<Rightarrow> request_auth \<Rightarrow> json api" where
  "get_metadata E R sid auth =
     bind_api (parse_oid sid) (\<lambda>i.
     bind_api (filtered_or_404 E R i auth) (\<lambda>f.
       Inr (JObj [(''id'', jid (fs_id f)), (''author'', JStr (fs_author f)), (''created_at'', jword (fs_created_at f)),
         (''message'', JStr (fs_message f)), (''parents'', JArr (map jid (fs_parents f))),
         (''visible_paths'', JObj (map (\<lambda>(p, blob). (p, jid blob)) (visible_paths f)))])))"

definition get_blob :: "('o, 'r, 'a) repo_env \<Rightarrow> ('o, 'r, 'a) repository \<Rightarrow> string \<Rightarrow> string \<Rightarrow> request_auth \<Rightarrow> bytes api" where
  "get_blob E R sid path auth =
     bind_api (parse_oid sid) (\<lambda>i.
     bind_api (filtered_or_404 E R i auth) (\<lambda>f.
     bind_api (or_reject (bt_get (visible_paths f) path) (not_found ''no such path in snapshot'')) (\<lambda>blob_id.
     bind_lib (repo_get E R blob_id) (\<lambda>obj. case obj of
         Some (OBlob b) \<Rightarrow> Inr (blob_data b)
       | _ \<Rightarrow> Inl (internal ''path did not resolve to a blob'')))))"

definition list_all_repos :: "('o, 'r, 'a) repo_env \<Rightarrow> ('o, 'r, 'a) repository \<Rightarrow> json api" where
  "list_all_repos E R =
     bind_lib (rb_list (env_refs E) (r_refs R) []) (\<lambda>refs.
       Inr (JObj [(''repos'', JArr [JObj [(''id'', JStr ''default''), (''ref_count'', JNum (length refs))]])]))"

definition parse_key :: "web \<Rightarrow> string \<Rightarrow> key api" where
  "parse_key W hex =
     bind_api (or_reject (w_unhex W hex) (bad_request ''key must be 64 hex chars'')) (\<lambda>raw.
       if length raw = 32 then Inr raw else Inl (bad_request ''key must be 32 bytes (64 hex)''))"

definition repo_json :: "repo_record \<Rightarrow> json" where
  "repo_json r = JObj [(''name'', JStr (rr_name r)), (''description'', JStr (rr_description r)),
     (''owner'', JStr (key_hex (rr_owner r))), (''seq'', jword (rr_seq r))]"

definition list_for_owner :: "web \<Rightarrow> ('o, 'r, 'a) repo_env \<Rightarrow> msg_codec \<Rightarrow> ('o, 'r, 'a) repository \<Rightarrow> string \<Rightarrow> json api" where
  "list_for_owner W E M R hex =
     bind_api (parse_key W hex) (\<lambda>owner.
     bind_lib (list_repos E M R owner) (\<lambda>repos.
       Inr (JObj [(''owner'', JStr (key_hex owner)), (''repos'', JArr (map repo_json repos))])))"

definition repo_or_404 :: "('o, 'r, 'a) repo_env \<Rightarrow> msg_codec \<Rightarrow> ('o, 'r, 'a) repository \<Rightarrow> key \<Rightarrow> string \<Rightarrow> repo_record api" where
  "repo_or_404 E M R owner name =
     bind_lib (get_repo E M R owner name) (\<lambda>found. or_reject found (not_found ''no such repo''))"

definition get_repo_record :: "web \<Rightarrow> ('o, 'r, 'a) repo_env \<Rightarrow> msg_codec \<Rightarrow> ('o, 'r, 'a) repository \<Rightarrow> string \<Rightarrow> string \<Rightarrow> json api" where
  "get_repo_record W E M R owner_hex name =
     bind_api (parse_key W owner_hex) (\<lambda>owner.
     bind_api (repo_or_404 E M R owner name) (\<lambda>rec. Inr (repo_json rec)))"

text \<open>The content view of a repository: which timeline it shows, and the files of its head.\<close>

definition choose_timeline :: "ref_name list \<Rightarrow> string \<Rightarrow> ref_name option" where
  "choose_timeline timelines prefix = (case ref_name_new (prefix @ ''main'') of
       Inr m \<Rightarrow> if m \<in> set timelines then Some m else (case timelines of [] \<Rightarrow> None | t # _ \<Rightarrow> Some t)
     | Inl _ \<Rightarrow> (case timelines of [] \<Rightarrow> None | t # _ \<Rightarrow> Some t))"

definition timeline_head :: "('o, 'r, 'a) repo_env \<Rightarrow> ('o, 'r, 'a) repository \<Rightarrow> string \<Rightarrow> ref_name option \<Rightarrow> (string \<times> oid option) result" where
  "timeline_head E R prefix chosen = (case chosen of
       None \<Rightarrow> Inr ([], None)
     | Some rn \<Rightarrow> bind_res (get_timeline (env_refs E) (r_refs R) rn) (\<lambda>found. Inr (case found of
           Some t \<Rightarrow> (case strip_prefix prefix rn of Some l \<Rightarrow> l | None \<Rightarrow> [], Some (tl_head t))
         | None \<Rightarrow> ([], None))))"

definition readme_of :: "('o, 'r, 'a) repo_env \<Rightarrow> ('o, 'r, 'a) repository \<Rightarrow> file_map \<Rightarrow> string option result" where
  "readme_of E R paths = (case List.find (\<lambda>p. eq_ignore_case p ''README.md'') (bt_keys paths) of
       None \<Rightarrow> Inr None
     | Some rp \<Rightarrow> (case bt_get paths rp of
           None \<Rightarrow> Inr None
         | Some blob_id \<Rightarrow> bind_res (repo_get E R blob_id) (\<lambda>obj. Inr (case obj of
               Some (OBlob b) \<Rightarrow> from_utf8 (blob_data b)
             | _ \<Rightarrow> None))))"

definition head_files :: "('o, 'r, 'a) repo_env \<Rightarrow> ('o, 'r, 'a) repository \<Rightarrow> oid option \<Rightarrow> accessor \<Rightarrow> (string list \<times> string option) result" where
  "head_files E R head acc = (case head of
       None \<Rightarrow> Inr ([], None)
     | Some h \<Rightarrow> bind_res (get_snapshot_filtered E R h acc) (\<lambda>found. case found of
           None \<Rightarrow> Inr ([], None)
         | Some f \<Rightarrow> bind_res (readme_of E R (visible_paths f)) (\<lambda>readme. Inr (bt_keys (visible_paths f), readme))))"

definition get_tree :: "web \<Rightarrow> ('o, 'r, 'a) repo_env \<Rightarrow> msg_codec \<Rightarrow> ('o, 'r, 'a) repository \<Rightarrow> string \<Rightarrow> string \<Rightarrow> request_auth \<Rightarrow> json api" where
  "get_tree W E M R owner_hex name auth =
     bind_api (parse_key W owner_hex) (\<lambda>owner.
     bind_api (repo_or_404 E M R owner name) (\<lambda>rec.
     let prefix = ''refs/users/'' @ fingerprint (env_codec E) owner @ ''/'' @ name @ ''/'' in
     bind_lib (rb_list (env_refs E) (r_refs R) prefix) (\<lambda>timelines.
     bind_lib (timeline_head E R prefix (choose_timeline timelines prefix)) (\<lambda>(label, head).
     bind_lib (head_files E R head (au_accessor auth)) (\<lambda>(files, readme).
       Inr (JObj [(''name'', JStr (rr_name rec)), (''description'', JStr (rr_description rec)), (''owner'', JStr (key_hex (rr_owner rec))),
         (''seq'', jword (rr_seq rec)), (''timeline'', JStr label), (''head'', jopt jid head),
         (''files'', JArr (map JStr files)), (''readme'', jopt JStr readme)]))))))"

definition list_users :: "('o, 'r, 'a) repo_env \<Rightarrow> msg_codec \<Rightarrow> ('o, 'r, 'a) repository \<Rightarrow> json api" where
  "list_users E M R =
     bind_lib (hub_users E M R) (\<lambda>users.
       Inr (JObj [(''users'', JArr (map (\<lambda>u. JObj [(''key'', JStr (key_hex (hu_key u))), (''display_name'', jopt JStr (hu_display_name u)),
         (''repo_count'', JNum (hu_repo_count u))]) users))]))"

definition profile_fields :: "profile \<Rightarrow> (string \<times> json) list" where
  "profile_fields p = [(''key'', JStr (key_hex (pf_key p))), (''display_name'', JStr (pf_display_name p)), (''bio'', JStr (pf_bio p)),
     (''endpoints'', JArr (map JStr (pf_endpoints p))), (''dns_aliases'', JArr (map JStr (pf_dns_aliases p))), (''seq'', jword (pf_seq p))]"

definition get_profile :: "web \<Rightarrow> ('o, 'r, 'a) repo_env \<Rightarrow> msg_codec \<Rightarrow> ('o, 'r, 'a) repository \<Rightarrow> string \<Rightarrow> json api" where
  "get_profile W E M R hex =
     bind_api (parse_key W hex) (\<lambda>k.
     bind_lib (profile_of E R k) (\<lambda>found.
     bind_api (or_reject found (not_found ''no profile for key'')) (\<lambda>p.
       if \<not> verify_profile (env_ed E) M p then Inl (not_found ''profile failed verification'')
       else Inr (JObj (profile_fields p @ [(''sig'', JStr (w_hex W (pf_sig p)))])))))"

definition get_bundle :: "web \<Rightarrow> ('o, 'r, 'a) repo_env \<Rightarrow> msg_codec \<Rightarrow> ('o, 'r, 'a) repository \<Rightarrow> string \<Rightarrow> request_auth \<Rightarrow> json api" where
  "get_bundle W E M R hex auth =
     bind_api (parse_key W hex) (\<lambda>k.
     bind_lib (bundle_of E M R k (au_accessor auth)) (\<lambda>b.
       Inr (JObj [(''key'', JStr (key_hex (pb_key b))), (''is_local'', JBool (pb_is_local b)),
         (''profile'', jopt (\<lambda>p. JObj (profile_fields p)) (pb_profile b)),
         (''trust'', JObj [(''edges'', JArr (map (\<lambda>e. JObj [(''to'', JStr (key_hex (ed_to_key e))), (''kind'', JStr (kind_seg (ed_kind e))),
           (''petname'', jopt JStr (ed_petname e)), (''seq'', jword (ed_seq e))]) (pb_edges b)))]),
         (''timelines'', JArr (map (\<lambda>t. JObj [(''name'', JStr (tv_name t)), (''head'', jid (tv_head t)), (''author'', JStr (tv_author t)),
           (''created_at'', jword (tv_created_at t))]) (pb_timelines b))),
         (''repos'', JArr (map repo_json (pb_repos b)))])))"

definition proposal_fields :: "web \<Rightarrow> oid \<Rightarrow> change_proposal \<Rightarrow> (string \<times> json) list" where
  "proposal_fields W i p = [(''id'', jid i), (''from'', JStr (cp_source p)), (''into'', JStr (cp_target p)), (''title'', JStr (cp_title p)),
     (''author'', JStr (w_hex W (cp_author p))), (''created_at'', jword (cp_created_at p))]"

definition api_proposals :: "web \<Rightarrow> ('o, 'r, 'a) repo_env \<Rightarrow> msg_codec \<Rightarrow> ('o, 'r, 'a) repository \<Rightarrow> json api" where
  "api_proposals W E M R =
     bind_lib (list_proposals E M R) (\<lambda>ps. Inr (JObj [(''proposals'', JArr (map (\<lambda>(i, p). JObj (proposal_fields W i p)) ps))]))"

definition api_proposal :: "web \<Rightarrow> ('o, 'r, 'a) repo_env \<Rightarrow> msg_codec \<Rightarrow> ('o, 'r, 'a) repository \<Rightarrow> string \<Rightarrow> json api" where
  "api_proposal W E M R pid =
     bind_api (or_reject (oid_from_str pid) (bad_request ''invalid proposal id'')) (\<lambda>i.
     bind_lib (get_proposal E M R i) (\<lambda>found.
     bind_api (or_reject found (not_found ''no such proposal'')) (\<lambda>p.
     bind_lib (list_comments E M R i) (\<lambda>cs.
       Inr (JObj (proposal_fields W i p @ [(''comments'', JArr (map (\<lambda>(cid, c). JObj [(''id'', jid cid), (''body'', JStr (rc_body c)),
         (''resolves'', JBool (rc_resolves c)), (''author'', JStr (w_hex W (rc_author c))), (''created_at'', jword (rc_created_at c))]) cs))]))))))"

definition get_board :: "web \<Rightarrow> ('o, 'r, 'a) repo_env \<Rightarrow> msg_codec \<Rightarrow> ('o, 'r, 'a) repository \<Rightarrow> string \<Rightarrow> json api" where
  "get_board W E M R board =
     bind_lib (list_posts E M R board) (\<lambda>posts.
       Inr (JObj [(''board'', JStr board), (''posts'', JArr (map (\<lambda>(i, p). JObj [(''id'', jid i), (''body'', JStr (po_body p)),
         (''parent'', jopt jid (po_parent p)), (''author'', JStr (w_hex W (po_author p))), (''created_at'', jword (po_created_at p))]) posts))]))"

section \<open>The route table\<close>

text \<open>The endpoints with the parameters that the framework extracts for them.\<close>

datatype endpoint =
    EpStatus
  | EpTimelines
  | EpTimeline string
  | EpSnapshot string
  | EpBlob string string
  | EpRepos
  | EpUserRepos string
  | EpRepo string string
  | EpTree string string
  | EpUsers
  | EpProfile string
  | EpBundle string
  | EpProposals
  | EpProposal string
  | EpBoard string
  | EpUnmatched
  | EpWrongMethod

datatype reply = RJson json | RBytes bytes

definition api_answer ::
  "web \<Rightarrow> string \<Rightarrow> ('o, 'r, 'a) repo_env \<Rightarrow> msg_codec \<Rightarrow> ('o, 'r, 'a) repository \<Rightarrow> u64 \<Rightarrow> auth_config \<Rightarrow> request \<Rightarrow> endpoint \<Rightarrow> reply api" where
  "api_answer W version E M R now cfg rq ep =
     (let authed = bind_api (authenticate W E R now cfg rq);
          js = map_sum (\<lambda>e. e) RJson in
      case ep of
        EpStatus \<Rightarrow> js (get_status version E R)
      | EpTimelines \<Rightarrow> js (authed (list_timelines E R))
      | EpTimeline name \<Rightarrow> js (authed (get_timeline_ref E R name))
      | EpSnapshot i \<Rightarrow> js (authed (get_metadata E R i))
      | EpBlob i path \<Rightarrow> map_sum (\<lambda>e. e) RBytes (bind_api (authenticate W E R now cfg rq) (get_blob E R i path))
      | EpRepos \<Rightarrow> js (authed (\<lambda>_. list_all_repos E R))
      | EpUserRepos k \<Rightarrow> js (authed (\<lambda>_. list_for_owner W E M R k))
      | EpRepo k name \<Rightarrow> js (authed (\<lambda>_. get_repo_record W E M R k name))
      | EpTree k name \<Rightarrow> js (authed (get_tree W E M R k name))
      | EpUsers \<Rightarrow> js (authed (\<lambda>_. list_users E M R))
      | EpProfile k \<Rightarrow> js (authed (\<lambda>_. get_profile W E M R k))
      | EpBundle k \<Rightarrow> js (authed (get_bundle W E M R k))
      | EpProposals \<Rightarrow> js (authed (\<lambda>_. api_proposals W E M R))
      | EpProposal i \<Rightarrow> js (authed (\<lambda>_. api_proposal W E M R i))
      | EpBoard b \<Rightarrow> js (authed (\<lambda>_. get_board W E M R b))
      | EpUnmatched \<Rightarrow> Inl (not_found ''no such route'')
      | EpWrongMethod \<Rightarrow> Inl (method_not_allowed ''method not allowed on this route''))"

end
