(* ===== verification/Api_Laws.thy ===== *)
theory Api_Laws
  imports Api Collab_Laws
begin

text \<open>
  What the HTTP server guarantees: which credentials a request is authenticated by, what a signed request
  binds, and that refs a caller may not read have no influence on the answers about refs. A last
  theorem shows the endpoint that departs from this.
\<close>

lemma bind_api_Inr: "bind_api r f = Inr y \<longleftrightarrow> (\<exists>x. r = Inr x \<and> f x = Inr y)"
  by (cases r) (simp_all add: bind_api_def)

lemma bind_lib_Inr: "bind_lib r f = Inr y \<longleftrightarrow> (\<exists>x. r = Inr x \<and> f x = Inr y)"
  by (cases r) (simp_all add: bind_lib_def)

lemma bind_api_simps [simp]: "bind_api (Inl e) f = Inl e" "bind_api (Inr x) f = f x"
  by (simp_all add: bind_api_def)

lemma bind_lib_simps [simp]: "bind_lib (Inl e) f = Inl (api_of_error e)" "bind_lib (Inr x) f = f x"
  by (simp_all add: bind_lib_def)

lemma or_reject_Inr: "or_reject x e = Inr y \<longleftrightarrow> x = Some y"
  by (cases x) (simp_all add: or_reject_def)

section \<open>Authentication\<close>

lemma split_space_Some: "split_space s = Some (a, b) \<Longrightarrow> s = a @ '' '' @ b"
  by (induction s arbitrary: a) (auto split: if_splits)

lemma verify_signed_Inr:
  "verify_signed W ed now cfg rq rest = Inr p \<longleftrightarrow>
     (\<exists>key_id sig_hex date ts r sig. p = SshKey key_id \<and> extract_param rest ''keyId'' = Some key_id \<and> extract_param rest ''sig'' = Some sig_hex \<and>
       header_text rq ''x-bole-date'' = Some date \<and> parse_u64 date = Some ts \<and> abs_diff now ts \<le> MAX_SKEW_SECS \<and>
       map_of (ac_keys cfg) key_id = Some r \<and> ed_key_valid ed (rk_pubkey r) \<and> w_unhex W sig_hex = Some sig \<and> length sig = 64 \<and>
       ed_verify ed (rk_pubkey r) (request_message W (rq_method rq) (rq_target rq) date) sig)"
  (is "?lhs \<longleftrightarrow> ?rhs")
proof
  show ?rhs if ?lhs using that
    by (auto simp: verify_signed_def bind_api_Inr or_reject_Inr Let_def not_less split: if_splits option.splits)
  show ?lhs if ?rhs using that by (auto simp: verify_signed_def or_reject_def Let_def not_less)
qed

text \<open>The evidence in a request for the principal it is authenticated as.\<close>

definition evidence :: "web \<Rightarrow> ed25519 \<Rightarrow> u64 \<Rightarrow> auth_config \<Rightarrow> request \<Rightarrow> principal \<Rightarrow> bool" where
  "evidence W ed now cfg rq p \<longleftrightarrow> (case p of
       Anonymous \<Rightarrow> map_of (rq_headers rq) ''authorization'' = None
     | Token t \<Rightarrow> \<exists>sch. map_of (rq_headers rq) ''authorization'' = Some (HText (sch @ '' '' @ t)) \<and> eq_ignore_case sch ''bearer''
     | SshKey k \<Rightarrow> \<exists>sch rest sig_hex sig r date ts. map_of (rq_headers rq) ''authorization'' = Some (HText (sch @ '' '' @ rest)) \<and>
         eq_ignore_case sch ''signature'' \<and> extract_param rest ''keyId'' = Some k \<and>
         extract_param rest ''sig'' = Some sig_hex \<and> w_unhex W sig_hex = Some sig \<and> length sig = 64 \<and>
         map_of (ac_keys cfg) k = Some r \<and> header_text rq ''x-bole-date'' = Some date \<and> parse_u64 date = Some ts \<and>
         abs_diff now ts \<le> MAX_SKEW_SECS \<and> ed_verify ed (rk_pubkey r) (request_message W (rq_method rq) (rq_target rq) date) sig
     | Mtls s \<Rightarrow> map_of (rq_headers rq) ''authorization'' = None \<and> header_text rq ''x-bole-client-subject'' = Some s \<and>
         (\<exists>a t b. rq_peer rq = Some a \<and> t \<in> set (ac_trusted cfg) \<and> w_ip W t = Some b \<and> canonical_ip b = canonical_ip a))"

lemma resolve_principal_evidence:
  assumes "resolve_principal W ed now cfg rq = Inr p"
  shows "evidence W ed now cfg rq p"
proof (cases "map_of (rq_headers rq) ''authorization''")
  case None
  with assms show ?thesis
    by (auto simp: resolve_principal_def evidence_def list_ex_iff Let_def split: option.splits if_splits) blast
next
  case (Some h)
  then obtain val where h: "h = HText val" using assms by (cases h) (auto simp: resolve_principal_def)
  then obtain sch rest where val: "split_space val = Some (sch, rest)"
    using assms Some by (auto simp: resolve_principal_def split: option.splits)
  show ?thesis
  proof (cases "eq_ignore_case sch ''bearer''")
    case True
    with assms Some h val split_space_Some [OF val] show ?thesis by (auto simp: resolve_principal_def evidence_def)
  next
    case False
    with assms Some h val have "verify_signed W ed now cfg rq rest = Inr p" and sch: "eq_ignore_case sch ''signature''"
      by (auto simp: resolve_principal_def split: if_splits)
    then obtain k where "p = SshKey k" and "\<exists>sig_hex date ts r sig. extract_param rest ''keyId'' = Some k \<and> extract_param rest ''sig'' = Some sig_hex \<and>
       header_text rq ''x-bole-date'' = Some date \<and> parse_u64 date = Some ts \<and> abs_diff now ts \<le> MAX_SKEW_SECS \<and>
       map_of (ac_keys cfg) k = Some r \<and> w_unhex W sig_hex = Some sig \<and> length sig = 64 \<and>
       ed_verify ed (rk_pubkey r) (request_message W (rq_method rq) (rq_target rq) date) sig"
      unfolding verify_signed_Inr by blast
    moreover have "map_of (rq_headers rq) ''authorization'' = Some (HText (sch @ '' '' @ rest))"
      using Some h split_space_Some [OF val] by simp
    ultimately show ?thesis using sch unfolding evidence_def by (simp only: principal.case) blast
  qed
qed

lemma accessor_for_clearances:
  assumes "accessor_for B s m p = Inr acc"
  shows "case actor_for m p of None \<Rightarrow> held_clearances acc = []
    | Some actor \<Rightarrow> \<exists>found. be_get_grant B s actor = Inr found \<and>
        acc_clearances acc = (case found of Some g \<Rightarrow> gr_clearances g | None \<Rightarrow> \<lparr>clearances = [], confined = False\<rparr>)"
proof (cases "actor_for m p")
  case None
  with assms show ?thesis by (auto simp: accessor_for_def bind_res_Inr from_parts_def)
next
  case (Some actor)
  with assms obtain found where found: "be_get_grant B s actor = Inr found"
    by (auto simp: accessor_for_def bind_res_Inr Let_def)
  with assms Some show ?thesis by (cases found) (auto simp: accessor_for_def bind_res_Inr from_parts_def)
qed

text \<open>
  C13. A request is served only as what its credentials prove. Without an Authorization header it is anonymous, and then it holds
  no clearance, or it carries a subject from a trusted proxy. With an Authorization header it is never anonymous: the header is a bearer
  token, which is the principal, or it names a registered key and holds a signature of 64 bytes, and this signature verifies under that key over the
  method, the target and the date of the request, the date being within the replay window; in every case but the anonymous one
  an actor is configured for the principal. The clearances are those granted to that actor, or none.
\<close>

theorem authentication_sound:
  assumes "authenticate W E R now cfg rq = Inr auth"
  shows "evidence W (env_ed E) now cfg rq (au_principal auth) \<and>
    au_actor auth = actor_for (ac_actors cfg) (au_principal auth) \<and>
    (case au_actor auth of
       None \<Rightarrow> au_principal auth = Anonymous \<and> held_clearances (au_accessor auth) = []
     | Some actor \<Rightarrow> \<exists>found. be_get_grant (env_acls E) (r_acls R) actor = Inr found \<and>
         acc_clearances (au_accessor auth) = (case found of Some g \<Rightarrow> gr_clearances g | None \<Rightarrow> \<lparr>clearances = [], confined = False\<rparr>))"
proof -
  obtain p acc where p: "resolve_principal W (env_ed E) now cfg rq = Inr p"
    and acc: "accessor_for (env_acls E) (r_acls R) (ac_actors cfg) p = Inr acc"
    and known: "actor_for (ac_actors cfg) p = None \<longrightarrow> p = Anonymous"
    and auth: "auth = \<lparr>au_accessor = acc, au_principal = p, au_actor = actor_for (ac_actors cfg) p\<rparr>"
    using assms by (auto simp: authenticate_def bind_api_Inr bind_lib_Inr Let_def split: if_splits)
  show ?thesis
    using resolve_principal_evidence [OF p] accessor_for_clearances [OF acc] known unfolding auth
    by (auto split: option.splits)
qed

section \<open>Signed requests\<close>

lemma newline_split:
  assumes "CHR 0x0A \<notin> set a" and "CHR 0x0A \<notin> set b" and "a @ [CHR 0x0A] @ x = b @ [CHR 0x0A] @ y"
  shows "a = b \<and> x = y"
  using assms by (induction a arbitrary: b) (auto simp: Cons_eq_append_conv append_eq_Cons_conv)

lemma request_message_inj:
  assumes "CHR 0x0A \<notin> set m" "CHR 0x0A \<notin> set m'" "CHR 0x0A \<notin> set t" "CHR 0x0A \<notin> set t'"
    and "request_message W m t d = request_message W m' t' d'"
  shows "m = m' \<and> t = t' \<and> d = d'"
proof -
  have "m @ [CHR 0x0A] @ t @ [CHR 0x0A] @ d @ [CHR 0x0A] @ w_hex W (w_sha256 W []) =
      m' @ [CHR 0x0A] @ t' @ [CHR 0x0A] @ d' @ [CHR 0x0A] @ w_hex W (w_sha256 W [])"
    using assms(5) by (simp add: request_message_def str_bytes_inj)
  from newline_split [OF assms(1,2) this] have "m = m'"
    and r: "t @ [CHR 0x0A] @ d @ [CHR 0x0A] @ w_hex W (w_sha256 W []) = t' @ [CHR 0x0A] @ d' @ [CHR 0x0A] @ w_hex W (w_sha256 W [])" by blast+
  from newline_split [OF assms(3,4) r] \<open>m = m'\<close> show ?thesis by simp
qed

lemma request_message_apart: "request_message W m t d \<noteq> signed_message M s"
proof
  assume eq: "request_message W m t d = signed_message M s"
  obtain body where body: "signed_message M s = domain_of s @ body" using signed_message_domain by blast
  have "14 \<le> length (domain_of s)" using domains_apart(1) domain_of_mem [of s] by (simp add: list_all_iff)
  moreover have "14 \<le> length SIGNED_REQUEST_DOMAIN" by code_simp
  ultimately have "take 14 SIGNED_REQUEST_DOMAIN = take 14 (domain_of s)"
    using arg_cong [OF eq, of "take 14"] by (simp add: request_message_def body)
  moreover have "list_all (\<lambda>d. take 14 SIGNED_REQUEST_DOMAIN \<noteq> take 14 d) sig_domains" by code_simp
  ultimately show False using domain_of_mem [of s] by (auto simp: list_all_iff)
qed

text \<open>
  A signed request authorises itself only. The bytes that are signed determine the method, the whole target with its query, and
  the date, none of which can hold a line break except the date; and they are not the bytes of
  any other statement that is signed in the program, so no signature made elsewhere authenticates a request.
\<close>

lemma signed_request_binds:
  assumes "request_message W (rq_method rq) (rq_target rq) date = request_message W (rq_method rq') (rq_target rq') date'"
    and "\<forall>q \<in> {rq, rq'}. CHR 0x0A \<notin> set (rq_method q) \<and> CHR 0x0A \<notin> set (rq_target q)"
  shows "rq_method rq = rq_method rq' \<and> rq_target rq = rq_target rq' \<and> date = date' \<and>
    request_message W (rq_method rq) (rq_target rq) date \<noteq> signed_message M s"
  using request_message_inj [OF _ _ _ _ assms(1)] request_message_apart assms(2) by blast

section \<open>Hidden refs\<close>

text \<open>The names of refs that can be served to an accessor.\<close>

definition servable :: "('o, 'r, 'a) repo_env \<Rightarrow> ('o, 'r, 'a) repository \<Rightarrow> accessor \<Rightarrow> ref_name \<Rightarrow> bool" where
  "servable E R acc n \<longleftrightarrow> \<not> starts_with COLLAB_SCOPED_PREFIX n \<and>
     (\<forall>L rules. repo_lattice E R = Inr L \<longrightarrow> repo_rules E R = Inr rules \<longrightarrow> timeline_readable_with L rules n acc)"

lemma fold_res_same:
  "(\<And>x u. x \<in> set xs \<Longrightarrow> f x u = g x u) \<Longrightarrow> fold_res f xs s = fold_res g xs s"
  by (rule fold_res_cong) simp_all

lemma served_servable:
  "list_refs_served E R prefix acc = Inr names \<Longrightarrow> n \<in> set names \<Longrightarrow> servable E R acc n"
  by (auto simp: list_refs_served_def list_refs_filtered_def bind_res_Inr servable_def)

context repo_stores
begin

lemma served_names_agree:
  assumes "rinv (r_refs R)" and "rinv rs" and "\<And>n. servable E R acc n \<Longrightarrow> rabst rs n = rabst (r_refs R) n"
  shows "list_refs_served E (R\<lparr>r_refs := rs\<rparr>) prefix acc = list_refs_served E R prefix acc"
proof -
  obtain ns where ns: "rb_list (env_refs E) (r_refs R) prefix = Inr ns" "sorted ns" "distinct ns"
    "set ns = {n \<in> dom (rabst (r_refs R)). starts_with prefix n}" using rt.list_law [OF assms(1)] by blast
  obtain ms where ms: "rb_list (env_refs E) rs prefix = Inr ms" "sorted ms" "distinct ms"
    "set ms = {n \<in> dom (rabst rs). starts_with prefix n}" using rt.list_law [OF assms(2)] by blast
  have same: "filter P ms = filter P ns" if "\<And>n. P n \<Longrightarrow> servable E R acc n" for P
  proof (rule sorted_distinct_set_unique)
    show "set (filter P ms) = set (filter P ns)" using that assms(3) by (auto simp: ns(4) ms(4) dom_def)
  qed (use ns ms in \<open>simp_all add: sorted_wrt_filter\<close>)
  show "list_refs_served E (R\<lparr>r_refs := rs\<rparr>) prefix acc = list_refs_served E R prefix acc"
  proof (cases "repo_rules E R")
    case (Inr rules)
    then have "filter (\<lambda>n. timeline_readable_with two_point rules n acc \<and> \<not> starts_with COLLAB_SCOPED_PREFIX n) ms =
        filter (\<lambda>n. timeline_readable_with two_point rules n acc \<and> \<not> starts_with COLLAB_SCOPED_PREFIX n) ns"
      by (intro same) (simp add: servable_def get_lattice_def)
    with Inr show ?thesis by (simp add: list_refs_served_def list_refs_filtered_def get_lattice_def ns(1) ms(1))
  qed (simp add: list_refs_served_def list_refs_filtered_def get_lattice_def)
qed

lemma served_in_map:
  assumes "rinv (r_refs R)" and "list_refs_served E R prefix acc = Inr names" and "n \<in> set names"
  shows "n \<in> dom (rabst (r_refs R))"
  using rt.list_law [OF assms(1), of prefix] assms(2,3) by (auto simp: list_refs_served_def list_refs_filtered_def bind_res_Inr)

lemma get_agrees:
  assumes "rinv (r_refs R)" and "rinv rs" and "fits (r_refs R) N" and "fits rs N" and "n \<in> N" and "rabst rs n = rabst (r_refs R) n"
  shows "rb_get (env_refs E) rs n = rb_get (env_refs E) (r_refs R) n"
  using rt.get_law [OF assms(1,3,5)] rt.get_law [OF assms(2,4,5)] assms(6) by simp

lemma hidden_refs:
  assumes "rinv (r_refs R)" and "rinv rs"
    and "\<And>n. servable E R (au_accessor auth) n \<Longrightarrow> rabst rs n = rabst (r_refs R) n"
    and "fits (r_refs R) N" and "fits rs N" and "insert name {n \<in> dom (rabst (r_refs R)). servable E R (au_accessor auth) n} \<subseteq> N"
  shows "list_timelines E (R\<lparr>r_refs := rs\<rparr>) auth = list_timelines E R auth"
    and "get_timeline_ref E (R\<lparr>r_refs := rs\<rparr>) name auth = get_timeline_ref E R name auth"
proof -
  note names = served_names_agree [OF assms(1-3)]
  note get = get_agrees [OF assms(1,2,4,5) _ assms(3)]
  have named: "name \<in> N" using assms(6) by simp
  show "list_timelines E (R\<lparr>r_refs := rs\<rparr>) auth = list_timelines E R auth"
  proof (cases "list_refs_served E R [] (au_accessor auth)")
    case (Inr ns)
    have in_N: "n \<in> N" if "n \<in> set ns" for n
      using assms(6) served_in_map [OF assms(1) Inr that] served_servable [OF Inr that] by blast
    have "fold_res (\<lambda>name out. bind_res (rb_get (env_refs E) rs name) (h name out)) ns [] =
        fold_res (\<lambda>name out. bind_res (rb_get (env_refs E) (r_refs R) name) (h name out)) ns []" for h :: "ref_name \<Rightarrow> json list \<Rightarrow> ref option \<Rightarrow> json list result"
      by (rule fold_res_same) (simp add: get [OF in_N served_servable [OF Inr]])
    then show ?thesis by (simp add: list_timelines_def names Inr)
  qed (simp add: list_timelines_def names)
  show "get_timeline_ref E (R\<lparr>r_refs := rs\<rparr>) name auth = get_timeline_ref E R name auth"
  proof (cases "ref_name_new name")
    case (Inr n)
    then have n: "n = name" by (simp add: valid_name_iff)
    show ?thesis
    proof (cases "servable E R (au_accessor auth) name")
      case True
      have "ref_served E (R\<lparr>r_refs := rs\<rparr>) name (au_accessor auth) = ref_served E R name (au_accessor auth)"
        by (simp add: ref_served_def get [OF named True])
      then show ?thesis by (simp add: get_timeline_ref_def Inr n get [OF named True] cong: if_cong)
    next
      case False
      obtain r r' where r: "rb_get (env_refs E) (r_refs R) name = Inr r" "rb_get (env_refs E) rs name = Inr r'"
        using rt.get_law [OF assms(1,4) named] rt.get_law [OF assms(2,5) named] by blast
      have "ref_served E (R\<lparr>r_refs := rs\<rparr>) name (au_accessor auth) = ref_served E R name (au_accessor auth) \<and>
          ref_served E R name (au_accessor auth) \<noteq> Inr True"
        using False r by (cases "repo_rules E R") (auto simp: ref_served_def servable_def get_lattice_def Let_def)
      then show ?thesis by (cases "ref_served E R name (au_accessor auth)") (auto simp: get_timeline_ref_def Inr n)
    qed
  qed (simp add: get_timeline_ref_def)
qed

end

text \<open>
  C12. Refs that a caller may not read have no influence on what it is told about refs: in two repositories that
  differ only in such refs, whether they exist and where they point, the listing of refs and the lookup of
  a name give the same answer. This holds for every lawful backend that can hold, in both repositories, the refs that are served and the name that is looked up. The
  memory backend can hold every set of names; on disk it excludes a name that is a directory of a stored ref, or below one.
\<close>

theorem hidden_refs_invisible:
  assumes "repo_stores oinv oabst storable rinv fits rabst E" and "rinv (r_refs R)" and "rinv rs"
    and "\<forall>n. servable E R (au_accessor auth) n \<longrightarrow> rabst rs n = rabst (r_refs R) n"
    and "fits (r_refs R) (insert name {n \<in> dom (rabst (r_refs R)). servable E R (au_accessor auth) n})"
    and "fits rs (insert name {n \<in> dom (rabst (r_refs R)). servable E R (au_accessor auth) n})"
  shows "list_timelines E (R\<lparr>r_refs := rs\<rparr>) auth = list_timelines E R auth \<and>
    get_timeline_ref E (R\<lparr>r_refs := rs\<rparr>) name auth = get_timeline_ref E R name auth"
  using repo_stores.hidden_refs [OF assms(1-3) _ assms(5,6) subset_refl] assms(4) by blast

section \<open>A hidden timeline in the content view\<close>

lemma choose_main: "valid_name (prefix @ ''main'') \<Longrightarrow> prefix @ ''main'' \<in> set names \<Longrightarrow> choose_timeline names prefix = Some (prefix @ ''main'')"
  by (simp add: choose_timeline_def valid_name_iff [THEN iffD2])

text \<open>
  C38. The content view of a repository shows a hidden timeline. Let the timeline \<open>main\<close> of a recorded repository exist and be one that
  the caller may not read. The lookup of the timeline is then answered as if it did not exist, while the content view
  of the repository, whenever the head can be read, names the timeline and its head and lists the files of the head that the rules on paths
  let the caller see: it lists and reads refs without the check that the other endpoints make.
\<close>

theorem tree_shows_hidden_timeline:
  assumes "repo_stores oinv oabst storable rinv fits rabst E" and "rinv (r_refs R)"
    and "prefix = ''refs/users/'' @ fingerprint (env_codec E) owner @ ''/'' @ name @ ''/''"
    and "fits (r_refs R) {prefix @ ''main''}" and "valid_name (prefix @ ''main'')" and "rabst (r_refs R) (prefix @ ''main'') = Some (RTimeline t)"
    and "repo_rules E R = Inr rules" and "\<not> timeline_readable_with two_point rules (prefix @ ''main'') (au_accessor auth)"
    and "parse_key W owner_hex = Inr owner" and "get_repo E M R owner name = Inr (Some rec)"
    and "head_files E R (Some (tl_head t)) (au_accessor auth) = Inr (files, readme)"
  shows "get_timeline_ref E R (prefix @ ''main'') auth = Inl (not_found ''no such ref'') \<and>
   (\<exists>fields. get_tree W E M R owner_hex name auth = Inr (JObj fields) \<and>
     map_of fields ''timeline'' = Some (JStr ''main'') \<and> map_of fields ''head'' = Some (jid (tl_head t)) \<and>
     map_of fields ''files'' = Some (JArr (map JStr files)))"
proof -
  let ?n = "prefix @ ''main''"
  have rt: "ref_table rinv fits rabst (env_refs E)" using assms(1) by (simp add: repo_stores_def)
  have get: "rb_get (env_refs E) (r_refs R) ?n = Inr (Some (RTimeline t))"
    using ref_table.get_law [OF rt assms(2,4)] assms(6) by simp
  obtain ns where ns: "rb_list (env_refs E) (r_refs R) prefix = Inr ns" "set ns = {n \<in> dom (rabst (r_refs R)). starts_with prefix n}"
    using ref_table.list_law [OF rt assms(2), of prefix] by blast
  have "?n \<in> set ns" using ns(2) assms(6) by (auto simp: starts_with_def)
  then have chosen: "timeline_head E R prefix (choose_timeline ns prefix) = Inr (''main'', Some (tl_head t))"
    using choose_main [OF assms(5)] get
    by (simp add: timeline_head_def get_timeline_def strip_prefix_def starts_with_def)
  have "ref_served E R ?n (au_accessor auth) = Inr False"
    using assms(7,8) get by (simp add: ref_served_def get_lattice_def)
  then have "get_timeline_ref E R ?n auth = Inl (not_found ''no such ref'')"
    using valid_name_iff [THEN iffD2, OF conjI [OF refl assms(5)]] by (simp add: get_timeline_ref_def)
  moreover have "get_tree W E M R owner_hex name auth = Inr (JObj [(''name'', JStr (rr_name rec)), (''description'', JStr (rr_description rec)),
      (''owner'', JStr (key_hex (rr_owner rec))), (''seq'', jword (rr_seq rec)), (''timeline'', JStr ''main''), (''head'', jopt jid (Some (tl_head t))),
      (''files'', JArr (map JStr files)), (''readme'', jopt JStr readme)])"
    unfolding get_tree_def repo_or_404_def or_reject_def Let_def
    by (simp only: assms(3) [symmetric] assms(9-11) ns(1) chosen bind_api_simps bind_lib_simps option.case prod.case)
  ultimately show ?thesis by simp
qed

subsection \<open>An instance\<close>

text \<open>
  A hub that hosts the repository \<open>site\<close> of one key, announced by a signed record, with one file on its timeline \<open>main\<close>.
  The timelines of users are protected and the caller holds no clearance.
\<close>

definition site_key :: key where
  "site_key = replicate 31 0 @ [1]"

definition site_record :: repo_record where
  "site_record = sign_repo plain_scheme flat_codec site_key ''site'' [] 1"

definition site_objects :: "object list" where
  "site_objects = [ORepoRecord site_record,
     OSnapshot \<lparr>root = 2, parents = [], author = ''ada'', created_at = 0, message = []\<rparr>,
     OTree \<lparr>entries = [(''plan.md'', \<lparr>te_id = 3, te_kind = KBlob\<rparr>)]\<rparr>,
     OBlob \<lparr>blob_data = [7]\<rparr>]"

abbreviation site_env :: "(mem_store, mem_refs, mem_acl) repo_env" where
  "site_env \<equiv> memory_env (table_codec site_objects) plain_scheme"

abbreviation site_timeline :: ref_name where
  "site_timeline \<equiv> ''refs/users/'' @ fingerprint (table_codec []) site_key @ ''/site/main''"

definition site_repo :: "(mem_store, mem_refs, mem_acl) repository" where
  "site_repo = memory_repo\<lparr>r_objects := [(0, [0]), (1, [1]), (2, [2]), (3, [3])],
     r_refs := [(repo_ref (table_codec []) site_key ''site'', policy_tag 0),
       (site_timeline, RTimeline \<lparr>tl_head = 1, tl_policy = FastForwardOnly, tl_created_at = 0, tl_kind = ''persistent'', tl_expires_at = None\<rparr>)],
     r_acls := mem_acl_new\<lparr>timeline_acls := [(''refs/users/**'', \<lparr>ta_pattern = ''refs/users/**''\<rparr>)]\<rparr>\<rparr>"

definition nobody :: request_auth where
  "nobody = \<lparr>au_accessor = from_parts two_point [] \<lparr>clearances = [], confined = False\<rparr>, au_principal = Anonymous, au_actor = None\<rparr>"

definition site_web :: web where
  "site_web = \<lparr>w_hex = key_hex, w_unhex = hex_pairs, w_sha256 = (\<lambda>_. []), w_ip = (\<lambda>_. None)\<rparr>"

lemma site_hidden: "\<not> timeline_readable_with two_point [RuleTimeline ''refs/users/**'' label_protected] site_timeline (au_accessor nobody)"
  by code_simp

abbreviation site_prefix :: string where
  "site_prefix \<equiv> ''refs/users/'' @ fingerprint (env_codec site_env) site_key @ ''/'' @ ''site'' @ ''/''"

lemma site_main: "site_prefix @ ''main'' = site_timeline" "valid_name site_timeline" "mr_inv (r_refs site_repo)"
  subgoal by code_simp
  subgoal by code_simp
  subgoal unfolding mr_inv_def by code_simp
  done

lemma site_rules: "repo_rules site_env site_repo = Inr [RuleTimeline ''refs/users/**'' label_protected]"
  by code_simp

lemma site_ref: "map_of (r_refs site_repo) site_timeline =
    Some (RTimeline \<lparr>tl_head = 1, tl_policy = FastForwardOnly, tl_created_at = 0, tl_kind = ''persistent'', tl_expires_at = None\<rparr>)"
  by code_simp

lemma site_parse: "parse_key site_web (key_hex site_key) = Inr site_key"
  by code_simp

lemma site_found: "get_repo site_env flat_codec site_repo site_key ''site'' = Inr (Some site_record)"
  by code_simp

lemma site_view: "get_snapshot_filtered site_env site_repo 1 (au_accessor nobody) = Inr (Some \<lparr>fs_id = 1, fs_author = ''ada'', fs_created_at = 0,
    fs_message = [], fs_parents = [], visible_paths = [(''plan.md'', 3)]\<rparr>)"
  by code_simp

lemma not_readme: "\<not> eq_ignore_case ''plan.md'' ''README.md''"
  by code_simp

lemma site_files: "head_files site_env site_repo (Some 1) (au_accessor nobody) = Inr ([''plan.md''], None)"
  using not_readme by (simp add: head_files_def site_view readme_of_def)

theorem tree_shows_hidden_timeline_witness:
  "get_timeline_ref site_env site_repo site_timeline nobody = Inl (not_found ''no such ref'') \<and>
   (\<exists>fields. get_tree site_web site_env flat_codec site_repo (key_hex site_key) ''site'' nobody = Inr (JObj fields) \<and>
     map_of fields ''timeline'' = Some (JStr ''main'') \<and> map_of fields ''head'' = Some (jid 1) \<and>
     map_of fields ''files'' = Some (JArr [JStr ''plan.md'']))"
proof -
  let ?t = "\<lparr>tl_head = 1, tl_policy = FastForwardOnly, tl_created_at = 0, tl_kind = ''persistent'', tl_expires_at = None\<rparr>"
  have files: "head_files site_env site_repo (Some (tl_head ?t)) (au_accessor nobody) = Inr ([''plan.md''], None)"
    unfolding timeline.select_convs by (rule site_files)
  note facts = site_main(2) site_ref site_hidden
  from tree_shows_hidden_timeline [OF memrepo.repo_stores_axioms site_main(3) refl TrueI facts(1,2) [folded site_main(1)] site_rules
      facts(3) [folded site_main(1)] site_parse site_found files]
  show ?thesis unfolding site_main(1) timeline.select_convs list.map .
qed

section \<open>Instances\<close>

definition ada_config :: auth_config where
  "ada_config = \<lparr>ac_actors = map_token actor_map_new ''t'' ''ada'', ac_keys = [], ac_trusted = []\<rparr>"

definition ada_request :: request where
  "ada_request = \<lparr>rq_method = ''GET'', rq_target = ''/v1/timelines?x=1'', rq_headers = [(''authorization'', HText ''bearer t'')], rq_peer = None\<rparr>"

theorem authentication_sound_witness:
  "\<exists>auth. authenticate site_web site_env site_repo 7 ada_config ada_request = Inr auth \<and> au_principal auth = Token ''t'' \<and>
     au_actor auth = Some ''ada'' \<and> evidence site_web plain_scheme 7 ada_config ada_request (Token ''t'')"
proof -
  have "resolve_principal site_web (env_ed site_env) 7 ada_config ada_request = Inr (Token ''t'')"
    "actor_for (ac_actors ada_config) (Token ''t'') = Some ''ada''" by code_simp+
  moreover have "\<not> isl (accessor_for (env_acls site_env) (r_acls site_repo) (ac_actors ada_config) (Token ''t''))" by code_simp
  then obtain acc where "accessor_for (env_acls site_env) (r_acls site_repo) (ac_actors ada_config) (Token ''t'') = Inr acc"
    using sum.collapse(2) by metis
  ultimately obtain auth where auth: "authenticate site_web site_env site_repo 7 ada_config ada_request = Inr auth"
    "au_principal auth = Token ''t''" "au_actor auth = Some ''ada''"
    by (auto simp: authenticate_def bind_lib_def isl_def split: sum.splits simp del: memory_env_simps)
  with authentication_sound [OF auth(1)] show ?thesis by auto
qed

theorem hidden_refs_invisible_witness:
  "list_timelines site_env (site_repo\<lparr>r_refs := butlast (r_refs site_repo)\<rparr>) nobody = list_timelines site_env site_repo nobody \<and>
   butlast (r_refs site_repo) \<noteq> r_refs site_repo"
proof -
  have "distinct (map fst (r_refs site_repo))" by code_simp
  then have inv: "mr_inv (r_refs site_repo)" "mr_inv (butlast (r_refs site_repo))"
    by (simp_all add: mr_inv_def map_butlast distinct_butlast)
  have "\<forall>n. servable site_env site_repo (au_accessor nobody) n \<longrightarrow> map_of (butlast (r_refs site_repo)) n = map_of (r_refs site_repo) n"
    using site_hidden site_rules by (auto simp: servable_def get_lattice_def site_repo_def)
  from hidden_refs_invisible [OF memrepo.repo_stores_axioms inv this TrueI TrueI] show ?thesis by (simp add: site_repo_def)
qed

end
