(* ===== verification/Git_Bridge.thy ===== *)
theory Git_Bridge
  imports Workspace
begin

text \<open>
  The bridge to git: import (\<^verbatim>\<open>src/repo/git_import.rs\<close>) and projection (\<^verbatim>\<open>src/repo/git_projection.rs\<close>). The git library
  is not code of the repository. What an import reads through it is a record \<^verbatim>\<open>git_source\<close>: the references
  with their peeled targets and the decoded objects, each access with the message of its error. What a projection writes is a record
  \<^verbatim>\<open>git_target\<close>: the objects under the hashes of their bytes, the loose refs and \<^verbatim>\<open>HEAD\<close>; the hash is a parameter. Git ids are
  the 160-bit words of SHA-1. Both operations keep what they did when they fail, so they are functions from a state
  to an outcome and a state. The translation of a tree recurses over the git objects without a bound, so it takes
  fuel and \<^verbatim>\<open>None\<close> means that the fuel ran out.
\<close>

section \<open>Steps that may fail and keep their effects\<close>

type_synonym ('s, 'a) act = "'s \<Rightarrow> 'a result \<times> 's"
type_synonym ('s, 'a) run = "'s \<Rightarrow> ('a result \<times> 's) option"

definition act_return :: "'a \<Rightarrow> ('s, 'a) act" where
  "act_return x s = (Inr x, s)"

definition act_lift :: "'a result \<Rightarrow> ('s, 'a) act" where
  "act_lift r s = (r, s)"

definition act_bind :: "('s, 'a) act \<Rightarrow> ('a \<Rightarrow> ('s, 'b) act) \<Rightarrow> ('s, 'b) act" where
  "act_bind m f s = (case m s of (Inl e, s') \<Rightarrow> (Inl e, s') | (Inr x, s') \<Rightarrow> f x s')"

fun act_fold :: "('x \<Rightarrow> 'a \<Rightarrow> ('s, 'a) act) \<Rightarrow> 'x list \<Rightarrow> 'a \<Rightarrow> ('s, 'a) act" where
  "act_fold f [] a = act_return a"
| "act_fold f (x # xs) a = act_bind (f x a) (act_fold f xs)"

definition run_return :: "'a \<Rightarrow> ('s, 'a) run" where
  "run_return x s = Some (Inr x, s)"

definition run_act :: "('s, 'a) act \<Rightarrow> ('s, 'a) run" where
  "run_act m s = Some (m s)"

definition run_bind :: "('s, 'a) run \<Rightarrow> ('a \<Rightarrow> ('s, 'b) run) \<Rightarrow> ('s, 'b) run" where
  "run_bind m f s = (case m s of None \<Rightarrow> None | Some (Inl e, s') \<Rightarrow> Some (Inl e, s') | Some (Inr x, s') \<Rightarrow> f x s')"

fun run_fold :: "('x \<Rightarrow> 'a \<Rightarrow> ('s, 'a) run) \<Rightarrow> 'x list \<Rightarrow> 'a \<Rightarrow> ('s, 'a) run" where
  "run_fold f [] a = run_return a"
| "run_fold f (x # xs) a = run_bind (f x a) (run_fold f xs)"

section \<open>Git objects\<close>

type_synonym git_id = "160 word"

definition git_bytes :: "git_id \<Rightarrow> bytes" where
  "git_bytes g = be_bytes 20 (unat g)"

definition git_display :: "git_id \<Rightarrow> string" where
  "git_display g = concat (map hex_byte (git_bytes g))"

datatype git_kind = KindBlob | KindTree | KindCommit | KindTag

record git_sig =
  gs_name :: string
  gs_email :: string
  gs_seconds :: int

record git_commit =
  gc_tree :: "string + git_id"
  gc_parents :: "git_id list"
  gc_author :: "string + git_sig"
  gc_committer :: "git_sig option"
  gc_message :: string

datatype entry_mode = ModeTree | ModeCommit | ModeBlob

record git_entry =
  ge_mode :: entry_mode
  ge_name :: string
  ge_oid :: git_id

record git_tag =
  gt_message :: string
  gt_tagger :: "git_sig option"

text \<open>An object has its raw bytes and, by its kind, what decoding them gives; entries of a tree are decoded one at a time.\<close>

datatype git_view =
    VBlob
  | VTree "(string + git_entry) list"
  | VCommit git_commit
  | VTag "string + git_tag"

record git_object =
  go_data :: bytes
  go_view :: git_view

text \<open>
  A repository as the library shows it: all references or the error of listing them, each with its full name and
  peeled target; the objects; the object a reference names directly; and the message for an
  object of the wrong kind.
\<close>

record git_source =
  gs_references :: "string + (string + (string \<times> (string + git_id))) list"
  gs_object :: "git_id \<Rightarrow> string + git_object"
  gs_direct :: "string \<Rightarrow> git_id option"
  gs_mismatch :: "git_id \<Rightarrow> git_kind \<Rightarrow> string"

definition git_err :: "string + 'a \<Rightarrow> 'a result" where
  "git_err r = map_sum GitProjection (\<lambda>x. x) r"

definition find_commit :: "git_source \<Rightarrow> git_id \<Rightarrow> git_commit result" where
  "find_commit G g = bind_res (git_err (gs_object G g)) (\<lambda>ob. case go_view ob of
       VCommit c \<Rightarrow> Inr c
     | _ \<Rightarrow> Inl (GitProjection (gs_mismatch G g KindCommit)))"

definition find_tree :: "git_source \<Rightarrow> git_id \<Rightarrow> (string + git_entry) list result" where
  "find_tree G g = bind_res (git_err (gs_object G g)) (\<lambda>ob. case go_view ob of
       VTree es \<Rightarrow> Inr es
     | _ \<Rightarrow> Inl (GitProjection (gs_mismatch G g KindTree)))"

section \<open>The identity map\<close>

record identity_map =
  git_to_bole :: "(git_id \<times> oid) list"
  bole_to_git :: "(oid \<times> git_id) list"

definition im_new :: identity_map where
  "im_new = \<lparr>git_to_bole = [], bole_to_git = []\<rparr>"

definition im_insert :: "identity_map \<Rightarrow> git_id \<Rightarrow> oid \<Rightarrow> identity_map" where
  "im_insert m g b = \<lparr>git_to_bole = AList.update g b (git_to_bole m), bole_to_git = AList.update b g (bole_to_git m)\<rparr>"

definition bole_for_git :: "identity_map \<Rightarrow> git_id \<Rightarrow> oid option" where
  "bole_for_git m g = map_of (git_to_bole m) g"

definition git_for_bole :: "identity_map \<Rightarrow> oid \<Rightarrow> git_id option" where
  "git_for_bole m b = map_of (bole_to_git m) b"

definition im_len :: "identity_map \<Rightarrow> nat" where
  "im_len m = length (git_to_bole m)"

definition im_is_empty :: "identity_map \<Rightarrow> bool" where
  "im_is_empty m \<longleftrightarrow> git_to_bole m = []"

text \<open>
  The sidecar files by path, with the operating system assumed not to fail. The encoding of the map and
  the canonical form of a path are parameters.
\<close>

record sidecar =
  sc_enc :: "identity_map \<Rightarrow> string + bytes"
  sc_dec :: "bytes \<Rightarrow> string + identity_map"
  sc_canonical :: "string \<Rightarrow> string"

definition source_fingerprint :: "sidecar \<Rightarrow> ocodec \<Rightarrow> string \<Rightarrow> string" where
  "source_fingerprint S C source = oid_display (from_content C (str_bytes (sc_canonical S source)))"

definition map_stem :: "sidecar \<Rightarrow> ocodec \<Rightarrow> string \<Rightarrow> string \<Rightarrow> string" where
  "map_stem S C dir source = dir @ ''/git-map/'' @ source_fingerprint S C source"

definition map_path :: "sidecar \<Rightarrow> ocodec \<Rightarrow> string \<Rightarrow> string \<Rightarrow> string" where
  "map_path S C dir source = map_stem S C dir source @ ''.postcard''"

definition im_load :: "sidecar \<Rightarrow> ocodec \<Rightarrow> bytes table \<Rightarrow> string \<Rightarrow> string \<Rightarrow> identity_map result" where
  "im_load S C files dir source = (case map_of files (map_path S C dir source) of
       Some data \<Rightarrow> map_codec (sc_dec S data)
     | None \<Rightarrow> Inr im_new)"

definition im_save :: "sidecar \<Rightarrow> ocodec \<Rightarrow> identity_map \<Rightarrow> string \<Rightarrow> string \<Rightarrow> bytes table \<Rightarrow> bytes table result" where
  "im_save S C m dir source files = bind_res (map_codec (sc_enc S m)) (\<lambda>data.
     let path = map_path S C dir source; tmp = map_stem S C dir source @ ''.tmp'' in
     let written = AList.update tmp data files in
     Inr (AList.update path data (AList.delete tmp written)))"

section \<open>Names\<close>

definition sanitize_segment :: "string \<Rightarrow> string" where
  "sanitize_segment s = (case filter (\<lambda>c. c \<noteq> CHR 0x00) s of
       [] \<Rightarrow> []
     | c # rest \<Rightarrow> if c = CHR ''.'' then CHR ''_'' # rest else c # rest)"

definition sanitize_ref_name :: "string \<Rightarrow> string option" where
  "sanitize_ref_name git_name =
     (let segments = filter (\<lambda>s. s \<noteq> []) (map sanitize_segment (filter (\<lambda>s. s \<noteq> []) (split_at CHR ''/'' git_name))) in
      if segments = [] then None else Some (join_with CHR ''/'' segments))"

definition name_or_git :: "string \<Rightarrow> ref_name result" where
  "name_or_git s = (case ref_name_new s of Inl e \<Rightarrow> Inl (GitProjection (error_display e)) | Inr n \<Rightarrow> Inr n)"

definition sanitized_ref :: "string \<Rightarrow> string table \<Rightarrow> (ref_name \<times> string table) result" where
  "sanitized_ref short seen = (case sanitize_ref_name short of
       None \<Rightarrow> Inl (GitProjection (''ref name empty after sanitization: '' @ short))
     | Some sanitized \<Rightarrow>
         (case map_of seen sanitized of
            Some prev \<Rightarrow> if prev \<noteq> short
              then Inl (GitProjection (''git refs '' @ quoted prev @ '' and '' @ quoted short @ '' both sanitize to '' @ quoted sanitized))
              else bind_res (name_or_git sanitized) (\<lambda>n. Inr (n, AList.update sanitized short seen))
          | None \<Rightarrow> bind_res (name_or_git sanitized) (\<lambda>n. Inr (n, AList.update sanitized short seen))))"

section \<open>Order of commits\<close>

text \<open>
  The depth-first search both directions use. The stack has its top first; a flag says that the node's parents are done. The
  argument \<open>push\<close> gives what a node pushes, in the order of pushing, when a set of nodes has been visited.
\<close>

function topo_loop :: "('a :: finite set \<Rightarrow> 'a \<Rightarrow> 'a list result) \<Rightarrow> ('a \<times> bool) list \<Rightarrow> 'a set \<Rightarrow> 'a list \<Rightarrow> 'a list result" where
  "topo_loop push [] visited res = Inr res"
| "topo_loop push ((i, True) # stack) visited res = topo_loop push stack visited (res @ [i])"
| "topo_loop push ((i, False) # stack) visited res =
     (if i \<in> visited then topo_loop push stack visited res
      else bind_res (push (insert i visited) i) (\<lambda>ps.
        topo_loop push (rev (map (\<lambda>p. (p, False)) ps) @ (i, True) # stack) (insert i visited) res))"
  by pat_completeness auto
termination
proof (relation "measures [\<lambda>(push, stack, visited, res). card (- visited), \<lambda>(push, stack, visited, res). length stack]")
  fix push :: "'a set \<Rightarrow> 'a \<Rightarrow> 'a list result" and i :: 'a and stack visited res ps
  assume "i \<notin> visited"
  then have "card (- insert i visited) < card (- visited)" by (intro psubset_card_mono) auto
  then show "((push, rev (map (\<lambda>p. (p, False)) ps) @ (i, True) # stack, insert i visited, res), push, (i, False) # stack, visited, res)
      \<in> measures [\<lambda>(push, stack, visited, res). card (- visited), \<lambda>(push, stack, visited, res). length stack]"
    by simp
qed simp_all

definition topo_commits :: "git_source \<Rightarrow> git_id list \<Rightarrow> git_id list result" where
  "topo_commits G heads =
     topo_loop (\<lambda>visited g. bind_res (find_commit G g) (\<lambda>c. Inr (filter (\<lambda>p. p \<notin> visited) (gc_parents c))))
       (rev (map (\<lambda>h. (h, False)) heads)) {} []"

definition collect_topo :: "getter \<Rightarrow> oid list \<Rightarrow> oid list result" where
  "collect_topo get starts =
     topo_loop (\<lambda>visited i. bind_res (get i) (\<lambda>obj. Inr (rev (snapshot_parents obj))))
       (rev (map (\<lambda>i. (i, False)) starts)) {} []"

section \<open>Projection\<close>

record git_target =
  tg_objects :: "(git_id \<times> git_kind \<times> bytes) list"
  tg_refs :: "string table"
  tg_head :: string

text \<open>The hash of an object of a kind, the repository that initialisation makes, and the message of a failing file operation.\<close>

record gix =
  gx_hash :: "git_kind \<Rightarrow> bytes \<Rightarrow> git_id"
  gx_init :: git_target
  gx_os_error :: string

definition write_buf :: "gix \<Rightarrow> git_kind \<Rightarrow> bytes \<Rightarrow> (git_target, git_id) act" where
  "write_buf X k data T = (let g = gx_hash X k data in (Inr g, T\<lparr>tg_objects := AList.update g (k, data) (tg_objects T)\<rparr>))"

definition ends_line :: "string \<Rightarrow> string" where
  "ends_line m = (if m \<noteq> [] \<and> last m = CHR 0x0A then m else m @ [CHR 0x0A])"

definition git_line :: "string \<Rightarrow> string" where
  "git_line s = s @ [CHR 0x0A]"

definition encode_tag :: "git_id \<Rightarrow> string \<Rightarrow> string \<Rightarrow> string \<Rightarrow> bytes" where
  "encode_tag target_commit tag_name tagger msg =
     str_bytes (git_line (''object '' @ git_display target_commit) @ git_line ''type commit'' @ git_line (''tag '' @ tag_name) @
       git_line (''tagger '' @ tagger) @ git_line [] @ ends_line msg)"

definition encode_commit :: "git_id \<Rightarrow> git_id list \<Rightarrow> string \<Rightarrow> string \<Rightarrow> bytes" where
  "encode_commit tree ps identity msg =
     str_bytes (git_line (''tree '' @ git_display tree) @ concat (map (\<lambda>p. git_line (''parent '' @ git_display p)) ps) @
       git_line (''author '' @ identity) @ git_line (''committer '' @ identity) @ git_line [] @ ends_line msg)"

type_synonym tree_row = "string \<times> bool \<times> git_id"

definition row_key :: "tree_row \<Rightarrow> string" where
  "row_key = (\<lambda>(name, is_dir, sha). if is_dir then name @ ''/'' else name)"

definition encode_row :: "tree_row \<Rightarrow> bytes" where
  "encode_row = (\<lambda>(name, is_dir, sha).
     str_bytes (if is_dir then ''40000'' else ''100644'') @ str_bytes '' '' @ str_bytes name @ [0] @ git_bytes sha)"

definition encode_tree :: "tree_row list \<Rightarrow> bytes" where
  "encode_tree rows = concat (map encode_row (sort_key row_key rows))"

text \<open>The paths below a directory, without it.\<close>

definition sub_flat :: "string \<Rightarrow> file_map \<Rightarrow> file_map" where
  "sub_flat dir flat = map (\<lambda>(k, v). (drop (length dir + 1) k, v)) (filter (\<lambda>(k, v). starts_with (dir @ ''/'') k) flat)"

lemma sub_flat_shorter:
  assumes "(path, i) \<in> set flat" and "split_once path = Some (dir, rest)"
  shows "sum_list (map (length \<circ> fst) (sub_flat dir flat)) < sum_list (map (length \<circ> fst) flat)"
proof -
  have path: "path = dir @ ''/'' @ rest" using split_once_Some [OF assms(2)] by simp
  have le: "sum_list (map (length \<circ> fst) (sub_flat dir m)) \<le> sum_list (map (length \<circ> fst) m)" for m
    by (induction m) (auto simp: sub_flat_def)
  show ?thesis
    using assms(1)
  proof (induction flat)
    case (Cons e flat)
    show ?case
    proof (cases "e = (path, i)")
      case True
      have "starts_with (dir @ ''/'') path" by (simp add: path starts_with_def)
      then have "sub_flat dir (e # flat) = (rest, i) # sub_flat dir flat" using True path by (simp add: sub_flat_def)
      then show ?thesis using True le [of flat] path by (simp add: comp_def)
    next
      case False
      then have "(path, i) \<in> set flat" using Cons.prems by simp
      from Cons.IH [OF this] show ?thesis by (cases e) (auto simp: sub_flat_def)
    qed
  qed simp
qed

text \<open>A blob is written; an object of another kind is skipped.\<close>

definition write_blob_row :: "gix \<Rightarrow> getter \<Rightarrow> string \<Rightarrow> oid \<Rightarrow> tree_row list \<Rightarrow> (git_target, tree_row list) act" where
  "write_blob_row X get path blob_id rows =
     act_bind (act_lift (get blob_id)) (\<lambda>obj. case obj of
         Some (OBlob b) \<Rightarrow> act_bind (write_buf X KindBlob (blob_data b)) (\<lambda>g. act_return (rows @ [(path, False, g)]))
       | _ \<Rightarrow> act_return rows)"

lemma act_bind_cong [fundef_cong]: "m = m' \<Longrightarrow> (\<And>x. f x = f' x) \<Longrightarrow> act_bind m f = act_bind m' f'"
  by (simp add: act_bind_def fun_eq_iff split: sum.splits prod.splits)

lemma act_fold_cong [fundef_cong]:
  "xs = ys \<Longrightarrow> a = b \<Longrightarrow> (\<And>x c. x \<in> set ys \<Longrightarrow> f x c = g x c) \<Longrightarrow> act_fold f xs a = act_fold g ys b"
proof (induction xs arbitrary: ys a b)
  case (Cons x xs)
  have "act_fold f xs c = act_fold g xs c" for c by (rule Cons.IH) (use Cons.prems in auto)
  then have "act_fold f xs = act_fold g xs" by (rule ext)
  moreover have "f x a = g x a" using Cons.prems by auto
  ultimately show ?case using Cons.prems(1,2) by auto
qed auto

function write_git_tree_level :: "gix \<Rightarrow> getter \<Rightarrow> file_map \<Rightarrow> (git_target, git_id) act" where
  "write_git_tree_level X get flat =
     act_bind (act_fold (\<lambda>(path, blob_id) (rows, dirs_seen). case split_once path of
         Some (dir, _) \<Rightarrow>
           if dir \<notin> dirs_seen
           then act_bind (write_git_tree_level X get (sub_flat dir flat))
             (\<lambda>sub_id. act_return (rows @ [(dir, True, sub_id)], insert dir dirs_seen))
           else act_return (rows, dirs_seen)
       | None \<Rightarrow> act_bind (write_blob_row X get path blob_id rows) (\<lambda>rows. act_return (rows, dirs_seen))) flat ([], {}))
     (\<lambda>(rows, _). write_buf X KindTree (encode_tree rows))"
  by pat_completeness auto
termination
  by (relation "measure (\<lambda>(X, get, flat). sum_list (map (length \<circ> fst) flat))") (auto dest: sub_flat_shorter)

lemmas [simp del] = write_git_tree_level.simps

text \<open>
  A loose ref is a file below the repository: writing it fails when a directory on the way is a ref, or when
  the name is a directory of refs.
\<close>

definition write_loose_ref :: "gix \<Rightarrow> string \<Rightarrow> git_id \<Rightarrow> (git_target, unit) act" where
  "write_loose_ref X name sha T =
     (if list_ex (\<lambda>(f, _). starts_with (f @ ''/'') name \<or> starts_with (name @ ''/'') f) (tg_refs T)
      then (Inl (Io (gx_os_error X)), T)
      else (Inr (), T\<lparr>tg_refs := AList.update name (git_line (git_display sha)) (tg_refs T)\<rparr>))"

definition snapshot_identity :: "snapshot \<Rightarrow> string" where
  "snapshot_identity sn = (if author sn = [] then ''bole'' else author sn) @ '' <bole@local> '' @ show_nat (unat (created_at sn)) @ '' +0000''"

definition timeline_heads :: "('o, 'r, 'a) repo_env \<Rightarrow> ('o, 'r, 'a) repository \<Rightarrow> ref_name list \<Rightarrow> (ref_name \<times> oid) list result" where
  "timeline_heads E R names =
     fold_res (\<lambda>name out. bind_res (rb_get (env_refs E) (r_refs R) name) (\<lambda>cur. Inr (case cur of
         Some (RTimeline t) \<Rightarrow> out @ [(name, tl_head t)] | _ \<Rightarrow> out))) names []"

type_synonym id_map = "(oid \<times> git_id) list"

text \<open>One snapshot: its filtered tree and its commit. An id that is not a snapshot is passed over.\<close>

definition project_snapshot ::
  "gix \<Rightarrow> ('o, 'r, 'a) repo_env \<Rightarrow> ('o, 'r, 'a) repository \<Rightarrow> lattice \<Rightarrow> label_rule_set \<Rightarrow> accessor \<Rightarrow> oid \<Rightarrow> id_map \<Rightarrow> (git_target, id_map) act" where
  "project_snapshot X E R L rules acc snap_id ids =
     act_bind (act_lift (repo_get E R snap_id)) (\<lambda>obj. case as_snapshot obj of
         None \<Rightarrow> act_return ids
       | Some sn \<Rightarrow>
           act_bind (act_lift (walk_tree_filtered (repo_get E R) L rules (root sn) [] acc [])) (\<lambda>flat.
           act_bind (write_git_tree_level X (repo_get E R) flat) (\<lambda>git_tree.
           act_bind (write_buf X KindCommit (encode_commit git_tree (List.map_filter (map_of ids) (parents sn)) (snapshot_identity sn) (message sn))) (\<lambda>git_commit.
             act_return (AList.update snap_id git_commit ids)))))"

definition project_branch :: "gix \<Rightarrow> id_map \<Rightarrow> ref_name \<times> oid \<Rightarrow> unit \<Rightarrow> (git_target, unit) act" where
  "project_branch X ids = (\<lambda>(name, head) _. case map_of ids head of
       Some g \<Rightarrow> write_loose_ref X (''refs/heads/'' @ name) g
     | None \<Rightarrow> act_return ())"

definition project_tag ::
  "gix \<Rightarrow> ('o, 'r, 'a) repo_env \<Rightarrow> ('o, 'r, 'a) repository \<Rightarrow> id_map \<Rightarrow> ref_name \<Rightarrow> unit \<Rightarrow> (git_target, unit) act" where
  "project_tag X E R ids name _ =
     act_bind (act_lift (rb_get (env_refs E) (r_refs R) name)) (\<lambda>cur. case cur of
         Some (RTag tag) \<Rightarrow> (case map_of ids (tag_target tag) of
             None \<Rightarrow> act_return ()
           | Some git_commit \<Rightarrow>
               act_bind (case tag_message tag of
                   None \<Rightarrow> act_return git_commit
                 | Some msg \<Rightarrow> write_buf X KindTag (encode_tag git_commit name
                     (''bole <bole@local> '' @ show_nat (unat (tag_created_at tag)) @ '' +0000'') msg)) (\<lambda>target.
               write_loose_ref X (''refs/tags/'' @ name) target))
       | _ \<Rightarrow> act_return ())"

definition set_head :: "id_map \<Rightarrow> (ref_name \<times> oid) list \<Rightarrow> (git_target, unit) act" where
  "set_head ids heads T = (case List.find (\<lambda>(_, h). map_of ids h \<noteq> None) heads of
       Some (branch, _) \<Rightarrow> (Inr (), T\<lparr>tg_head := git_line (''ref: refs/heads/'' @ branch)\<rparr>)
     | None \<Rightarrow> (Inr (), T))"

text \<open>The passes over an open repository; the result is the map from snapshots to commits.\<close>

definition project_passes ::
  "gix \<Rightarrow> ('o, 'r, 'a) repo_env \<Rightarrow> ('o, 'r, 'a) repository \<Rightarrow> accessor \<Rightarrow> (git_target, id_map) act" where
  "project_passes X E R acc =
     act_bind (act_lift (list_refs_filtered E R [] acc)) (\<lambda>visible_refs.
     act_bind (act_lift (timeline_heads E R visible_refs)) (\<lambda>heads.
     act_bind (act_lift (collect_topo (repo_get E R) (map snd heads))) (\<lambda>ordered.
     act_bind (act_lift (repo_lattice E R)) (\<lambda>L.
     act_bind (act_lift (repo_rules E R)) (\<lambda>rules.
     act_bind (act_fold (project_snapshot X E R L rules acc) ordered []) (\<lambda>ids.
     act_bind (act_fold (project_branch X ids) heads ()) (\<lambda>_.
     act_bind (act_fold (project_tag X E R ids) visible_refs ()) (\<lambda>_.
     act_bind (set_head ids heads) (\<lambda>_.
       act_return ids)))))))))"

text \<open>What is on the host: at some paths a git repository, or something that is none, and the sidecar files.\<close>

record host =
  ho_git :: "(string + git_target) table"
  ho_files :: "bytes table"

definition project_impl ::
  "gix \<Rightarrow> sidecar \<Rightarrow> ('o, 'r, 'a) repo_env \<Rightarrow> ('o, 'r, 'a) repository \<Rightarrow> string \<Rightarrow> accessor \<Rightarrow> string option \<Rightarrow> host \<Rightarrow> unit result \<times> host" where
  "project_impl X S E R target_path acc map_dir H =
     (case (case map_of (ho_git H) target_path of None \<Rightarrow> Inr (gx_init X) | Some r \<Rightarrow> r) of
        Inl m \<Rightarrow> (Inl (GitProjection (''path exists but is not a git repo: '' @ m)), H)
      | Inr T \<Rightarrow>
          (case project_passes X E R acc T of (r, T') \<Rightarrow>
             let H' = H\<lparr>ho_git := AList.update target_path (Inr T') (ho_git H)\<rparr> in
             case r of
               Inl e \<Rightarrow> (Inl e, H')
             | Inr ids \<Rightarrow>
                 (case map_dir of
                    None \<Rightarrow> (Inr (), H')
                  | Some dir \<Rightarrow>
                      (case bind_res (im_load S (env_codec E) (ho_files H') dir target_path) (\<lambda>idmap.
                           im_save S (env_codec E) (fold (\<lambda>(snap, commit) m. im_insert m commit snap) ids idmap) dir target_path (ho_files H')) of
                         Inl e \<Rightarrow> (Inl e, H')
                       | Inr files \<Rightarrow> (Inr (), H'\<lparr>ho_files := files\<rparr>)))))"

definition project_to_git ::
  "gix \<Rightarrow> sidecar \<Rightarrow> ('o, 'r, 'a) repo_env \<Rightarrow> ('o, 'r, 'a) repository \<Rightarrow> string \<Rightarrow> accessor \<Rightarrow> host \<Rightarrow> unit result \<times> host" where
  "project_to_git X S E R target_path acc = project_impl X S E R target_path acc None"

definition project_to_git_mapped ::
  "gix \<Rightarrow> sidecar \<Rightarrow> ('o, 'r, 'a) repo_env \<Rightarrow> ('o, 'r, 'a) repository \<Rightarrow> string \<Rightarrow> accessor \<Rightarrow> string \<Rightarrow> host \<Rightarrow> unit result \<times> host" where
  "project_to_git_mapped X S E R target_path acc dir = project_impl X S E R target_path acc (Some dir)"

section \<open>Import\<close>

record import_options =
  io_branches :: "string list"
  io_timeline_policy :: timeline_policy
  io_label_ruleset :: "string option"
  io_dry_run :: bool
  io_force :: bool

definition default_options :: import_options where
  "default_options = \<lparr>io_branches = [], io_timeline_policy = Unrestricted, io_label_ruleset = None, io_dry_run = False, io_force = False\<rparr>"

record import_summary =
  blobs_written :: nat
  trees_written :: nat
  snapshots_written :: nat
  timelines_created :: nat
  timelines_advanced :: nat
  tags_created :: nat
  skipped_via_identity_map :: nat

definition empty_summary :: import_summary where
  "empty_summary = \<lparr>blobs_written = 0, trees_written = 0, snapshots_written = 0, timelines_created = 0, timelines_advanced = 0,
     tags_created = 0, skipped_via_identity_map = 0\<rparr>"

record ('o, 'r, 'a) import_state =
  is_repo :: "('o, 'r, 'a) repository"
  is_map :: identity_map
  is_summary :: import_summary

text \<open>An object is stored, or only its id is computed in a dry run.\<close>

definition put_or_hash :: "('o, 'r, 'a) repo_env \<Rightarrow> bool \<Rightarrow> object \<Rightarrow> (('o, 'r, 'a) import_state, oid) act" where
  "put_or_hash E dry obj st =
     (if dry then (bind_res (serialize (env_codec E) obj) (\<lambda>data. Inr (object_id (env_codec E) data)), st)
      else case repo_put E (is_repo st) obj of Inl e \<Rightarrow> (Inl e, st) | Inr (i, R) \<Rightarrow> (Inr i, st\<lparr>is_repo := R\<rparr>))"

definition record_id :: "git_id \<Rightarrow> (import_summary \<Rightarrow> import_summary) \<Rightarrow> oid \<Rightarrow> (('o, 'r, 'a) import_state, oid) act" where
  "record_id g tally i st = (Inr i, st\<lparr>is_map := im_insert (is_map st) g i, is_summary := tally (is_summary st)\<rparr>)"

definition translate_blob :: "('o, 'r, 'a) repo_env \<Rightarrow> git_source \<Rightarrow> bool \<Rightarrow> git_id \<Rightarrow> (('o, 'r, 'a) import_state, oid) act" where
  "translate_blob E G dry g st = (case bole_for_git (is_map st) g of
       Some existing \<Rightarrow> (Inr existing, st)
     | None \<Rightarrow>
         act_bind (act_lift (git_err (gs_object G g))) (\<lambda>ob.
         act_bind (put_or_hash E dry (OBlob \<lparr>blob_data = go_data ob\<rparr>)) (\<lambda>i.
           record_id g (\<lambda>s. s\<lparr>blobs_written := blobs_written s + 1\<rparr>) i)) st)"

type_synonym tree_entries = "(string, tree_entry) btree"

text \<open>One entry of a tree; \<open>sub\<close> translates a subtree. Gitlinks are skipped.\<close>

definition translate_entry ::
  "('o, 'r, 'a) repo_env \<Rightarrow> git_source \<Rightarrow> bool \<Rightarrow> (git_id \<Rightarrow> (('o, 'r, 'a) import_state, oid) run) \<Rightarrow> string + git_entry \<Rightarrow>
    tree_entries \<Rightarrow> (('o, 'r, 'a) import_state, tree_entries) run" where
  "translate_entry E G dry sub entry es =
     run_bind (run_act (act_lift (git_err entry))) (\<lambda>e. case ge_mode e of
         ModeTree \<Rightarrow> run_bind (sub (ge_oid e)) (\<lambda>i. run_return (bt_insert (ge_name e) \<lparr>te_id = i, te_kind = KTree\<rparr> es))
       | ModeCommit \<Rightarrow> run_return es
       | ModeBlob \<Rightarrow> run_bind (run_act (translate_blob E G dry (ge_oid e))) (\<lambda>i.
           run_return (bt_insert (ge_name e) \<lparr>te_id = i, te_kind = KBlob\<rparr> es)))"

primrec translate_tree ::
  "nat \<Rightarrow> ('o, 'r, 'a) repo_env \<Rightarrow> git_source \<Rightarrow> bool \<Rightarrow> git_id \<Rightarrow> (('o, 'r, 'a) import_state, oid) run" where
  "translate_tree 0 E G dry g = (\<lambda>st. None)"
| "translate_tree (Suc n) E G dry g = (\<lambda>st. case bole_for_git (is_map st) g of
       Some existing \<Rightarrow> Some (Inr existing, st)
     | None \<Rightarrow>
         run_bind (run_act (act_lift (find_tree G g))) (\<lambda>rows.
         run_bind (run_fold (translate_entry E G dry (translate_tree n E G dry)) rows []) (\<lambda>es.
         run_bind (run_act (put_or_hash E dry (OTree \<lparr>entries = es\<rparr>))) (\<lambda>i.
           run_act (record_id g (\<lambda>s. s\<lparr>trees_written := trees_written s + 1\<rparr>) i)))) st)"

text \<open>
  \<^verbatim>\<open>trim\<close> and \<^verbatim>\<open>trim_end\<close> remove the white space of Unicode, here in its UTF-8 form.
\<close>

definition white_space :: "string list" where
  "white_space = map (\<lambda>n. [char_of n]) [9 :: nat, 10, 11, 12, 13, 32] @ map (map char_of) ([[0xC2 :: nat, 0x85], [0xC2, 0xA0], [0xE1, 0x9A, 0x80]] @
     map (\<lambda>n. [0xE2, 0x80, n]) ([0x80 ..< 0x8B] @ [0xA8, 0xA9, 0xAF]) @ [[0xE2, 0x81, 0x9F], [0xE3, 0x80, 0x80]])"

function strip_all :: "string list \<Rightarrow> string \<Rightarrow> string" where
  "strip_all ws s = (case List.find (\<lambda>w. w \<noteq> [] \<and> starts_with w s) ws of None \<Rightarrow> s | Some w \<Rightarrow> strip_all ws (drop (length w) s))"
  by pat_completeness auto
termination
proof (relation "measure (\<lambda>(ws, s). length s)")
  fix ws s w
  assume "List.find (\<lambda>w. w \<noteq> [] \<and> starts_with w s) ws = Some w"
  then have "w \<noteq> []" "take (length w) s = w" by (auto simp: find_Some_iff starts_with_def)
  then have "0 < length w" "0 < length s" by auto
  then show "((ws, drop (length w) s), ws, s) \<in> measure (\<lambda>(ws, s). length s)" by simp
qed simp

lemmas [simp del] = strip_all.simps

definition trim_end :: "string \<Rightarrow> string" where
  "trim_end s = rev (strip_all (map rev white_space) (rev s))"

definition trim_white :: "string \<Rightarrow> string" where
  "trim_white s = trim_end (strip_all white_space s)"

text \<open>\<^verbatim>\<open>seconds().max(0) as u64\<close>, and a signature as it is written into text.\<close>

definition nonneg_seconds :: "int \<Rightarrow> u64" where
  "nonneg_seconds n = of_int (max n 0)"

definition show_int :: "int \<Rightarrow> string" where
  "show_int n = (if n < 0 then CHR ''-'' # show_nat (nat (- n)) else show_nat (nat n))"

definition sig_text :: "git_sig \<Rightarrow> string" where
  "sig_text s = gs_name s @ '' <'' @ gs_email s @ ''>''"

definition blank_line :: string where
  "blank_line = [CHR 0x0A, CHR 0x0A]"

definition commit_text :: "git_commit \<Rightarrow> git_sig \<Rightarrow> string" where
  "commit_text c a = (case gc_committer c of
       Some k \<Rightarrow> if gs_name k \<noteq> gs_name a \<or> gs_email k \<noteq> gs_email a
         then trim_end (gc_message c) @ blank_line @ ''Committer: '' @ sig_text k @ '' '' @ show_int (gs_seconds k)
         else gc_message c
     | None \<Rightarrow> gc_message c)"

definition parent_ids :: "identity_map \<Rightarrow> git_id list \<Rightarrow> oid list result" where
  "parent_ids m ps = map_res (\<lambda>p. case bole_for_git m p of
       Some b \<Rightarrow> Inr b
     | None \<Rightarrow> Inl (GitProjection ''parent commit not translated before child'')) ps"

definition translate_commit ::
  "nat \<Rightarrow> ('o, 'r, 'a) repo_env \<Rightarrow> git_source \<Rightarrow> bool \<Rightarrow> git_id \<Rightarrow> (('o, 'r, 'a) import_state, oid) run" where
  "translate_commit n E G dry g st = (case bole_for_git (is_map st) g of
       Some existing \<Rightarrow> Some (Inr existing, st\<lparr>is_summary := (is_summary st)\<lparr>skipped_via_identity_map := skipped_via_identity_map (is_summary st) + 1\<rparr>\<rparr>)
     | None \<Rightarrow>
         run_bind (run_act (act_lift (find_commit G g))) (\<lambda>c.
         run_bind (run_act (act_lift (git_err (gc_tree c)))) (\<lambda>tree_oid.
         run_bind (translate_tree n E G dry tree_oid) (\<lambda>r.
         run_bind (run_act (\<lambda>st. (parent_ids (is_map st) (gc_parents c), st))) (\<lambda>ps.
         run_bind (run_act (act_lift (git_err (gc_author c)))) (\<lambda>a.
         run_bind (run_act (put_or_hash E dry (OSnapshot \<lparr>root = r, parents = ps, author = sig_text a,
             created_at = nonneg_seconds (gs_seconds a), message = commit_text c a\<rparr>))) (\<lambda>i.
           run_act (record_id g (\<lambda>s. s\<lparr>snapshots_written := snapshots_written s + 1\<rparr>) i))))))) st)"

definition annotated_tag_meta ::
  "('o, 'r, 'a) repo_env \<Rightarrow> ('o, 'r, 'a) repository \<Rightarrow> git_source \<Rightarrow> string \<Rightarrow> oid \<Rightarrow> (string option \<times> u64) result" where
  "annotated_tag_meta E R G short bole_target =
     (let lightweight = bind_res (repo_get E R bole_target) (\<lambda>obj. Inr (None, case as_snapshot obj of Some sn \<Rightarrow> created_at sn | None \<Rightarrow> 0)) in
      case gs_direct G (''refs/tags/'' @ short) of
        None \<Rightarrow> lightweight
      | Some tid \<Rightarrow>
          (case gs_object G tid of
             Inl _ \<Rightarrow> lightweight
           | Inr ob \<Rightarrow>
               (case go_view ob of
                  VTag decoded \<Rightarrow> bind_res (git_err decoded) (\<lambda>t. Inr (case gt_tagger t of
                      Some k \<Rightarrow> (Some (gt_message t @ blank_line @ ''Tagger: '' @ sig_text k @ '' '' @ show_int (gs_seconds k)), nonneg_seconds (gs_seconds k))
                    | None \<Rightarrow> (Some (gt_message t), 0)))
                | _ \<Rightarrow> lightweight)))"

definition translate_tag ::
  "('o, 'r, 'a) repo_env \<Rightarrow> git_source \<Rightarrow> ref_name \<Rightarrow> git_id \<Rightarrow> (('o, 'r, 'a) import_state, unit) act" where
  "translate_tag E G name target st = (case bole_for_git (is_map st) target of
       None \<Rightarrow> (Inr (), st)
     | Some bole_target \<Rightarrow>
         act_bind (act_lift (annotated_tag_meta E (is_repo st) G name bole_target)) (\<lambda>(msg, at).
         act_bind (act_lift (get_tag (env_refs E) (r_refs (is_repo st)) name)) (\<lambda>existing st. case existing of
             Some _ \<Rightarrow> (Inr (), st)
           | None \<Rightarrow> (case create_tag (env_refs E) (r_refs (is_repo st)) name bole_target msg at of
                 Inl e \<Rightarrow> (Inl e, st)
               | Inr rs \<Rightarrow> (Inr (), st\<lparr>is_repo := (is_repo st)\<lparr>r_refs := rs\<rparr>,
                   is_summary := (is_summary st)\<lparr>tags_created := tags_created (is_summary st) + 1\<rparr>\<rparr>)))) st)"

text \<open>One branch: its timeline is created, or moved if that is allowed.\<close>

definition import_branch ::
  "('o, 'r, 'a) repo_env \<Rightarrow> import_options \<Rightarrow> string \<times> git_id \<Rightarrow> string table \<Rightarrow> (('o, 'r, 'a) import_state, string table) act" where
  "import_branch E opts = (\<lambda>(short, head) seen st.
     act_bind (act_lift (sanitized_ref short seen)) (\<lambda>(name, seen').
     act_bind (act_lift (case bole_for_git (is_map st) head of
         Some b \<Rightarrow> Inr b
       | None \<Rightarrow> Inl (GitProjection (''untranslated branch head: '' @ short)))) (\<lambda>bole_head.
     act_bind (act_lift (get_timeline (env_refs E) (r_refs (is_repo st)) name)) (\<lambda>found. case found of
         None \<Rightarrow> (\<lambda>st. case create_timeline (env_refs E) (r_refs (is_repo st)) name bole_head (io_timeline_policy opts) 0 ''persistent'' None of
             Inl e \<Rightarrow> (Inl e, st)
           | Inr rs \<Rightarrow> (Inr seen', st\<lparr>is_repo := (is_repo st)\<lparr>r_refs := rs\<rparr>,
               is_summary := (is_summary st)\<lparr>timelines_created := timelines_created (is_summary st) + 1\<rparr>\<rparr>))
       | Some t \<Rightarrow>
           act_bind (act_lift (find_common_ancestor (repo_get E (is_repo st)) (tl_head t) bole_head)) (\<lambda>common.
             if \<not> (io_force opts \<or> tl_policy t = Unrestricted \<or> common = Some (tl_head t))
             then act_lift (Inl (GitProjection (''non-fast-forward re-import of '' @ quoted name @ '' (use force)'')))
             else if tl_head t \<noteq> bole_head
             then (\<lambda>st. case advance_head (env_refs E) (r_refs (is_repo st)) name bole_head of
                 Inl e \<Rightarrow> (Inl e, st)
               | Inr rs \<Rightarrow> (Inr seen', st\<lparr>is_repo := (is_repo st)\<lparr>r_refs := rs\<rparr>,
                   is_summary := (is_summary st)\<lparr>timelines_advanced := timelines_advanced (is_summary st) + 1\<rparr>\<rparr>))
             else act_return seen')))) st)"

definition import_tag ::
  "('o, 'r, 'a) repo_env \<Rightarrow> git_source \<Rightarrow> string \<times> git_id \<Rightarrow> string table \<Rightarrow> (('o, 'r, 'a) import_state, string table) act" where
  "import_tag E G = (\<lambda>(short, target) seen.
     act_bind (act_lift (sanitized_ref short seen)) (\<lambda>(name, seen').
     act_bind (translate_tag E G name target) (\<lambda>_. act_return seen')))"

text \<open>Lines end at line feeds; a carriage return before one is white space that is trimmed, and empty lines are skipped.\<close>

definition apply_label_ruleset ::
  "('o, 'r, 'a) repo_env \<Rightarrow> (string \<Rightarrow> string result) \<Rightarrow> string \<Rightarrow> (('o, 'r, 'a) import_state, unit) act" where
  "apply_label_ruleset E read_text ruleset =
     act_bind (act_lift (read_text ruleset)) (\<lambda>text.
     act_fold (\<lambda>line _ st.
       let glob = trim_white line in
       if glob = [] \<or> hd glob = CHR ''#'' then (Inr (), st)
       else case be_set_path_acl (env_acls E) (r_acls (is_repo st)) \<lparr>pa_glob = glob\<rparr> of
           Inl e \<Rightarrow> (Inl e, st)
         | Inr a \<Rightarrow> (Inr (), st\<lparr>is_repo := (is_repo st)\<lparr>r_acls := a\<rparr>\<rparr>)) (split_at CHR 0x0A text) ())"

text \<open>The references are sorted into the selected branches and the tags; the first that cannot be read ends the import.\<close>

definition collect_ref ::
  "import_options \<Rightarrow> string + (string \<times> (string + git_id)) \<Rightarrow> (string \<times> git_id) list \<times> (string \<times> git_id) list \<Rightarrow>
    ((string \<times> git_id) list \<times> (string \<times> git_id) list) result" where
  "collect_ref opts r = (\<lambda>(branches, tags).
     bind_res (git_err r) (\<lambda>(full, peeled).
     bind_res (git_err peeled) (\<lambda>target.
       if starts_with ''refs/heads/'' full
       then let short = drop (length ''refs/heads/'') full in
         Inr (if io_branches opts = [] \<or> short \<in> set (io_branches opts) then branches @ [(short, target)] else branches, tags)
       else if starts_with ''refs/tags/'' full then Inr (branches, tags @ [(drop (length ''refs/tags/'') full, target)])
       else Inr (branches, tags))))"

definition collect_refs :: "import_options \<Rightarrow> git_source \<Rightarrow> ((string \<times> git_id) list \<times> (string \<times> git_id) list) result" where
  "collect_refs opts G = bind_res (git_err (gs_references G)) (\<lambda>rs. fold_res (collect_ref opts) rs ([], []))"

text \<open>Everything between loading and saving the map.\<close>

definition import_passes ::
  "nat \<Rightarrow> ('o, 'r, 'a) repo_env \<Rightarrow> git_source \<Rightarrow> import_options \<Rightarrow> (string \<Rightarrow> string result) \<Rightarrow> (('o, 'r, 'a) import_state, unit) run" where
  "import_passes n E G opts read_text =
     run_bind (run_act (act_lift (collect_refs opts G))) (\<lambda>(branches, tags).
     run_bind (run_act (act_lift (topo_commits G (map snd branches)))) (\<lambda>ordered.
     run_bind (run_fold (\<lambda>g _. run_bind (translate_commit n E G (io_dry_run opts) g) (\<lambda>_. run_return ())) ordered ()) (\<lambda>_.
     if io_dry_run opts then run_return ()
     else
       run_act (act_bind (act_fold (import_branch E opts) branches []) (\<lambda>seen.
         act_bind (act_fold (import_tag E G) tags seen) (\<lambda>_.
         case io_label_ruleset opts of
           Some ruleset \<Rightarrow> apply_label_ruleset E read_text ruleset
         | None \<Rightarrow> act_return ()))))))"

definition git_import ::
  "nat \<Rightarrow> sidecar \<Rightarrow> ('o, 'r, 'a) repo_env \<Rightarrow> string + git_source \<Rightarrow> (string \<Rightarrow> string result) \<Rightarrow> ('o, 'r, 'a) repository \<Rightarrow> string \<Rightarrow> string \<Rightarrow>
    import_options \<Rightarrow> bytes table \<Rightarrow> (import_summary result \<times> ('o, 'r, 'a) repository \<times> bytes table) option" where
  "git_import n S E git read_text R source dir opts files =
     (case git of
        Inl m \<Rightarrow> Some (Inl (GitProjection (''opening git repo: '' @ m)), R, files)
      | Inr G \<Rightarrow>
          (case im_load S (env_codec E) files dir source of
             Inl e \<Rightarrow> Some (Inl e, R, files)
           | Inr m \<Rightarrow>
               (case import_passes n E G opts read_text \<lparr>is_repo = R, is_map = m, is_summary = empty_summary\<rparr> of
                  None \<Rightarrow> None
                | Some (Inl e, st) \<Rightarrow> Some (Inl e, is_repo st, files)
                | Some (Inr _, st) \<Rightarrow>
                    if io_dry_run opts then Some (Inr (is_summary st), is_repo st, files)
                    else case im_save S (env_codec E) (is_map st) dir source files of
                        Inl e \<Rightarrow> Some (Inl e, is_repo st, files)
                      | Inr files' \<Rightarrow> Some (Inr (is_summary st), is_repo st, files'))))"

end
