(* ===== verification/Git_Laws.thy ===== *)
theory Git_Laws
  imports Git_Bridge
begin

text \<open>
  Laws of the git bridge: sanitised names are valid ref names; both depth-first searches list the
  nodes that can be reached, each once, parents first; an import ends, stores a translation of every commit it reaches, and
  fails for a tag named like a branch; a projection writes nothing that its accessor may not read.
\<close>

section \<open>Names\<close>

definition sanitized_segments :: "string \<Rightarrow> string list" where
  "sanitized_segments s = filter (\<lambda>s. s \<noteq> []) (map sanitize_segment (filter (\<lambda>s. s \<noteq> []) (split_at CHR ''/'' s)))"

lemma sanitize_eq: "sanitize_ref_name s = (if sanitized_segments s = [] then None else Some (join_with CHR ''/'' (sanitized_segments s)))"
  by (simp add: sanitize_ref_name_def sanitized_segments_def Let_def)

lemma sanitize_segment_good:
  assumes "CHR ''/'' \<notin> set s" and "sanitize_segment s \<noteq> []"
  shows "good_segment (sanitize_segment s)"
proof -
  obtain c rest where f: "filter (\<lambda>c. c \<noteq> CHR 0x00) s = c # rest"
    using assms(2) by (auto simp: sanitize_segment_def split: list.splits)
  have "set (filter (\<lambda>c. c \<noteq> CHR 0x00) s) \<subseteq> set s - {CHR 0x00}" by auto
  then have "set (c # rest) \<subseteq> set s - {CHR 0x00}" unfolding f .
  then show ?thesis using assms(1) f by (auto simp: sanitize_segment_def good_segment_def)
qed

lemma sanitized_good: "list_all good_segment (sanitized_segments s)"
  using sanitize_segment_good by (auto simp: list_all_iff sanitized_segments_def dest: split_at_no_sep)

lemma sanitize_segment_id: "good_segment s \<Longrightarrow> sanitize_segment s = s"
proof -
  assume s: "good_segment s"
  then have "filter (\<lambda>c. c \<noteq> CHR 0x00) s = s" by (auto simp: good_segment_def filter_id_conv)
  with s show ?thesis by (cases s) (auto simp: sanitize_segment_def good_segment_def)
qed

lemma sanitized_valid: "valid_name s \<Longrightarrow> sanitized_segments s = segs s"
proof -
  assume "valid_name s"
  then have good: "good_segment seg" if "seg \<in> set (segs s)" for seg using that by (auto simp: valid_name_def list_all_iff)
  then have "filter (\<lambda>s. s \<noteq> []) (segs s) = segs s" by (auto simp: filter_id_conv good_segment_def)
  moreover have "map sanitize_segment (segs s) = segs s" using good by (auto intro: map_idI sanitize_segment_id)
  ultimately show ?thesis by (simp add: sanitized_segments_def segs_def)
qed

lemma sanitize_segment_Nil: "sanitize_segment s = [] \<longleftrightarrow> set s \<subseteq> {CHR 0x00}"
proof -
  have "sanitize_segment s = [] \<longleftrightarrow> filter (\<lambda>c. c \<noteq> CHR 0x00) s = []"
    by (simp add: sanitize_segment_def split: list.splits)
  also have "\<dots> \<longleftrightarrow> set s \<subseteq> {CHR 0x00}" by (auto simp: filter_empty_conv)
  finally show ?thesis .
qed

lemma in_split_at: "x \<noteq> c \<Longrightarrow> (\<exists>seg \<in> set (split_at c s). x \<in> set seg) \<longleftrightarrow> x \<in> set s"
proof (induction s)
  case (Cons y s)
  obtain seg ss where "split_at c s = seg # ss" by (cases "split_at c s") auto
  with Cons show ?case by auto
qed simp

lemma sanitized_Nil: "sanitized_segments s = [] \<longleftrightarrow> set s \<subseteq> {CHR ''/'', CHR 0x00}"
proof -
  have "sanitized_segments s = [] \<longleftrightarrow> (\<forall>seg \<in> set (split_at CHR ''/'' s). set seg \<subseteq> {CHR 0x00})"
    by (auto simp: sanitized_segments_def filter_empty_conv sanitize_segment_Nil)
  also have "\<dots> \<longleftrightarrow> set s \<subseteq> {CHR ''/'', CHR 0x00}"
  proof
    assume all: "\<forall>seg \<in> set (split_at CHR ''/'' s). set seg \<subseteq> {CHR 0x00}"
    show "set s \<subseteq> {CHR ''/'', CHR 0x00}"
    proof
      fix x
      assume x: "x \<in> set s"
      show "x \<in> {CHR ''/'', CHR 0x00}" using in_split_at [of x "CHR ''/''" s] all x by (cases "x = CHR ''/''") auto
    qed
  next
    assume all: "set s \<subseteq> {CHR ''/'', CHR 0x00}"
    show "\<forall>seg \<in> set (split_at CHR ''/'' s). set seg \<subseteq> {CHR 0x00}"
    proof (intro ballI subsetI)
      fix seg x
      assume seg: "seg \<in> set (split_at CHR ''/'' s)" "x \<in> set seg"
      then have "x \<noteq> CHR ''/''" using split_at_no_sep by auto
      with seg all in_split_at [of x "CHR ''/''" s] show "x \<in> {CHR 0x00}" by blast
    qed
  qed
  finally show ?thesis .
qed

lemma sanitized_name:
  assumes "sanitize_ref_name s = Some n"
  shows "ref_name_new n = Inr n"
proof -
  have n: "sanitized_segments s \<noteq> []" "n = join_with CHR ''/'' (sanitized_segments s)"
    using assms by (auto simp: sanitize_eq split: if_splits)
  with sanitized_good [of s] have "\<exists>m. ref_name_new n = Inr m" using ref_name_grammar [of n] by blast
  then show ?thesis by (auto simp: valid_name_iff)
qed

text \<open>
  C26. Sanitising gives a valid ref name: what \<^verbatim>\<open>sanitize_ref_name\<close> returns is accepted by the constructor of ref names, it returns
  nothing exactly for names made of slashes and null bytes, and the names it leaves as they are
  are exactly the valid ref names.
\<close>

theorem sanitized_names_valid:
  "(case sanitize_ref_name s of
      None \<Rightarrow> set s \<subseteq> {CHR ''/'', CHR 0x00}
    | Some n \<Rightarrow> ref_name_new n = Inr n \<and> \<not> set s \<subseteq> {CHR ''/'', CHR 0x00}) \<and>
   (sanitize_ref_name s = Some s \<longleftrightarrow> ref_name_new s = Inr s)"
proof -
  have "sanitize_ref_name s = Some s" if "ref_name_new s = Inr s"
    using sanitized_valid [of s] that by (auto simp: valid_name_iff sanitize_eq segs_def)
  then have fix_iff: "sanitize_ref_name s = Some s \<longleftrightarrow> ref_name_new s = Inr s" using sanitized_name by blast
  show ?thesis
  proof (cases "sanitize_ref_name s")
    case None
    then show ?thesis using fix_iff by (auto simp: sanitize_eq sanitized_Nil split: if_splits)
  next
    case (Some n)
    then have "\<not> set s \<subseteq> {CHR ''/'', CHR 0x00}" by (simp add: sanitize_eq sanitized_Nil split: if_splits)
    then show ?thesis using fix_iff Some sanitized_name [OF Some] by simp
  qed
qed

lemma sanitized_ref_Inr:
  "sanitized_ref short seen = Inr (n, seen') \<longleftrightarrow> sanitize_ref_name short = Some n \<and>
     (case map_of seen n of Some prev \<Rightarrow> prev = short | None \<Rightarrow> True) \<and> seen' = AList.update n short seen"
  by (auto simp: sanitized_ref_def name_or_git_def bind_res_Inr sanitized_name split: option.splits if_splits)

section \<open>Depth-first order\<close>

text \<open>
  \<open>succs\<close> are the parents of a node. What a node pushes are parents, and all parents that have not been visited.
\<close>

locale post_order =
  fixes succs :: "'a :: finite \<Rightarrow> 'a list" and push :: "'a set \<Rightarrow> 'a \<Rightarrow> 'a list result" and ok :: "'a \<Rightarrow> bool"
  assumes push_ok: "ok i \<longleftrightarrow> (\<exists>ps. push V i = Inr ps)"
    and push_set: "push V i = Inr ps \<Longrightarrow> set ps \<subseteq> set (succs i) \<and> set (succs i) \<subseteq> set ps \<union> V"
begin

definition edges :: "('a \<times> 'a) set" where
  "edges = {(x, p). p \<in> set (succs x)}"

text \<open>Before the node, everything it depends on.\<close>

definition parents_first :: "'a list \<Rightarrow> bool" where
  "parents_first res \<longleftrightarrow> (\<forall>us x vs. res = us @ x # vs \<longrightarrow> set (succs x) \<subseteq> set us)"

lemma parents_first_snoc: "parents_first (res @ [i]) \<longleftrightarrow> parents_first res \<and> set (succs i) \<subseteq> set res"
proof
  assume p: "parents_first (res @ [i])"
  have "set (succs x) \<subseteq> set us" if "res = us @ x # vs" for us x vs
    using p that unfolding parents_first_def by (metis append_Cons append_assoc)
  moreover have "set (succs i) \<subseteq> set res" using p unfolding parents_first_def by blast
  ultimately show "parents_first res \<and> set (succs i) \<subseteq> set res" by (auto simp: parents_first_def)
next
  assume p: "parents_first res \<and> set (succs i) \<subseteq> set res"
  have "set (succs x) \<subseteq> set us" if "res @ [i] = us @ x # vs" for us x vs
  proof (cases vs rule: rev_cases)
    case Nil
    then show ?thesis using that p by simp
  next
    case (snoc ws w)
    then have "res = us @ x # ws" using that by (metis append_Cons append_assoc butlast_snoc)
    then show ?thesis using p unfolding parents_first_def by blast
  qed
  then show "parents_first (res @ [i])" by (simp add: parents_first_def)
qed

definition started :: "('a \<times> bool) list \<Rightarrow> 'a list" where
  "started stack = map fst (filter snd stack)"

text \<open>
  The state of the search: what has been visited is done or started; a started node has its parents done or above it on the stack, and
  whatever is above it can be reached from it.
\<close>

definition searching :: "('a \<times> bool) list \<Rightarrow> 'a set \<Rightarrow> 'a list \<Rightarrow> bool" where
  "searching stack V res \<longleftrightarrow> V = set res \<union> set (started stack) \<and> distinct (res @ started stack) \<and> parents_first res \<and>
     (\<forall>a y b. stack = a @ (y, True) # b \<longrightarrow>
        (\<forall>p \<in> set (succs y). p \<in> set res \<or> p \<in> fst ` set a) \<and> (\<forall>x \<in> fst ` set a. (y, x) \<in> edges\<^sup>+))"

lemma searching_pop:
  assumes "searching ((i, True) # stack) V res"
  shows "searching stack V (res @ [i])"
proof -
  have above: "set (succs i) \<subseteq> set res" using assms unfolding searching_def by fastforce
  have "(\<forall>p \<in> set (succs y). p \<in> set (res @ [i]) \<or> p \<in> fst ` set a) \<and> (\<forall>x \<in> fst ` set a. (y, x) \<in> edges\<^sup>+)"
    if "stack = a @ (y, True) # b" for a y b
  proof -
    have "(i, True) # stack = ((i, True) # a) @ (y, True) # b" using that by simp
    with assms have "(\<forall>p \<in> set (succs y). p \<in> set res \<or> p \<in> fst ` set ((i, True) # a)) \<and> (\<forall>x \<in> fst ` set ((i, True) # a). (y, x) \<in> edges\<^sup>+)"
      unfolding searching_def by blast
    then show ?thesis by auto
  qed
  moreover have "V = set (res @ [i]) \<union> set (started stack)" "distinct ((res @ [i]) @ started stack)" "parents_first (res @ [i])"
    using assms above by (auto simp: searching_def started_def parents_first_snoc)
  ultimately show ?thesis unfolding searching_def by blast
qed

lemma searching_skip:
  assumes "acyclic edges" and "searching ((i, False) # stack) V res" and "i \<in> V"
  shows "searching stack V res"
proof -
  have st: "started ((i, False) # stack) = started stack" by (simp add: started_def)
  have "(\<forall>p \<in> set (succs y). p \<in> set res \<or> p \<in> fst ` set a) \<and> (\<forall>x \<in> fst ` set a. (y, x) \<in> edges\<^sup>+)"
    if s: "stack = a @ (y, True) # b" for a y b
  proof -
    have "(i, False) # stack = ((i, False) # a) @ (y, True) # b" using s by simp
    then have y: "\<forall>p \<in> set (succs y). p \<in> set res \<or> p \<in> fst ` set ((i, False) # a)" "\<forall>x \<in> fst ` set ((i, False) # a). (y, x) \<in> edges\<^sup>+"
      using assms(2) unfolding searching_def by blast+
    have "i \<in> set res \<or> i \<in> fst ` set a"
    proof (rule ccontr)
      assume no: "\<not> ?thesis"
      then have "i \<in> set (started stack)" using assms(2,3) st by (auto simp: searching_def)
      with no s have "i = y \<or> (i, True) \<in> set b" by (force simp: started_def)
      then have "(i, y) \<in> edges\<^sup>*"
      proof
        assume "(i, True) \<in> set b"
        then obtain b1 b2 where "b = b1 @ (i, True) # b2" by (meson split_list)
        then have "(i, False) # stack = ((i, False) # a @ (y, True) # b1) @ (i, True) # b2" using s by simp
        with assms(2) have "\<forall>x \<in> fst ` set ((i, False) # a @ (y, True) # b1). (i, x) \<in> edges\<^sup>+" unfolding searching_def by blast
        then have "(i, y) \<in> edges\<^sup>+" by simp
        then show ?thesis by simp
      qed simp
      moreover have "(y, i) \<in> edges\<^sup>+" using y(2) by simp
      ultimately have "(i, i) \<in> edges\<^sup>+" by (rule rtrancl_trancl_trancl)
      then show False using assms(1) by (simp add: acyclic_def)
    qed
    with y show ?thesis by auto
  qed
  with assms(2) show ?thesis unfolding searching_def st by blast
qed

lemma searching_push:
  assumes "acyclic edges" and "searching ((i, False) # stack) V res" and "i \<notin> V" and "push (insert i V) i = Inr ps"
  shows "searching (rev (map (\<lambda>p. (p, False)) ps) @ (i, True) # stack) (insert i V) res"
proof -
  let ?new = "rev (map (\<lambda>p. (p, False)) ps)"
  note ps = push_set [OF assms(4)]
  have st: "started (?new @ (i, True) # stack) = i # started stack" "started ((i, False) # stack) = started stack"
    by (simp_all add: started_def rev_map filter_map comp_def)
  have reach: "(y, i) \<in> edges\<^sup>+" if "(y, True) \<in> set stack" for y
  proof -
    obtain a b where "stack = a @ (y, True) # b" using \<open>(y, True) \<in> set stack\<close> by (meson split_list)
    then have "(i, False) # stack = ((i, False) # a) @ (y, True) # b" by simp
    with assms(2) have "\<forall>x \<in> fst ` set ((i, False) # a). (y, x) \<in> edges\<^sup>+" unfolding searching_def by blast
    then show ?thesis by simp
  qed
  have i: "p \<in> set res \<or> p \<in> set ps" if "p \<in> set (succs i)" for p
  proof (rule ccontr)
    assume no: "\<not> ?thesis"
    then have "p \<in> insert i V" using ps that by blast
    moreover have e: "(i, p) \<in> edges" using that by (simp add: edges_def)
    moreover have "p \<noteq> i" using e assms(1) by (auto simp: acyclic_def)
    ultimately have "(p, True) \<in> set stack" using assms(2) st(2) no by (auto simp: searching_def started_def)
    then have "(p, p) \<in> edges\<^sup>+" using reach e by (meson trancl.trancl_into_trancl)
    then show False using assms(1) by (simp add: acyclic_def)
  qed
  have "(\<forall>p \<in> set (succs y). p \<in> set res \<or> p \<in> fst ` set a) \<and> (\<forall>x \<in> fst ` set a. (y, x) \<in> edges\<^sup>+)"
    if s: "?new @ (i, True) # stack = a @ (y, True) # b" for a y b
  proof -
    have "(y, True) \<notin> set ?new" by auto
    then consider "a = ?new" "y = i" | a' where "a = ?new @ (i, True) # a'" "stack = a' @ (y, True) # b"
    proof -
      from s obtain us where us: "?new = a @ us \<and> us @ (i, True) # stack = (y, True) # b \<or> ?new @ us = a \<and> (i, True) # stack = us @ (y, True) # b"
        unfolding append_eq_append_conv2 by blast
      have "\<exists>us. ?new @ us = a \<and> (i, True) # stack = us @ (y, True) # b"
      proof (cases us)
        case Nil
        then show ?thesis using us by (intro exI [of _ "[]"]) auto
      next
        case (Cons u us')
        have False if "?new = a @ us" "us @ (i, True) # stack = (y, True) # b"
        proof -
          have "u = (y, True)" using that(2) Cons by simp
          then have "(y, True) \<in> set ?new" unfolding that(1) Cons by simp
          with \<open>(y, True) \<notin> set ?new\<close> show False by (rule notE)
        qed
        then show ?thesis using us by blast
      qed
      then obtain vs where vs: "?new @ vs = a" "(i, True) # stack = vs @ (y, True) # b" by blast
      then show thesis using that by (cases vs) auto
    qed
    then show ?thesis
    proof cases
      case 1
      have "(i, x) \<in> edges\<^sup>+" if "x \<in> set ps" for x using that ps by (auto simp: edges_def)
      with 1 i show ?thesis by (auto simp: image_iff)
    next
      case 2
      have "(i, False) # stack = ((i, False) # a') @ (y, True) # b" using 2(2) by simp
      with assms(2) have y: "\<forall>p \<in> set (succs y). p \<in> set res \<or> p \<in> fst ` set ((i, False) # a')"
        "\<forall>x \<in> fst ` set ((i, False) # a'). (y, x) \<in> edges\<^sup>+" unfolding searching_def by blast+
      have "(y, x) \<in> edges\<^sup>+" if "x \<in> set ps" for x
        using y(2) that ps by (auto simp: edges_def intro: trancl.trancl_into_trancl)
      with y 2(1) show ?thesis by auto
    qed
  qed
  moreover have "insert i V = set res \<union> set (started (?new @ (i, True) # stack))" "distinct (res @ started (?new @ (i, True) # stack))"
    using assms(2,3) unfolding searching_def st by auto
  ultimately show ?thesis using assms(2) unfolding searching_def by blast
qed

text \<open>What is visited or can be reached from the stack.\<close>

definition pending :: "('a \<times> bool) list \<Rightarrow> 'a set \<Rightarrow> 'a set" where
  "pending stack V = V \<union> edges\<^sup>* `` (fst ` set stack)"

lemma parents_first_closed:
  assumes "parents_first res" and "x \<in> set res" and "(x, y) \<in> edges\<^sup>*"
  shows "y \<in> set res"
  using assms(3)
proof (induction rule: rtrancl_induct)
  case (step y z)
  obtain us vs where split: "res = us @ y # vs" using step.IH by (meson split_list)
  then have "set (succs y) \<subseteq> set us" using assms(1) unfolding parents_first_def by blast
  then show ?case using step.hyps(2) split by (auto simp: edges_def)
qed (rule assms(2))

lemma pending_pop:
  assumes "searching ((i, True) # stack) V res"
  shows "pending ((i, True) # stack) V = pending stack V"
proof -
  have s: "searching stack V (res @ [i])" using searching_pop [OF assms] .
  have "y \<in> V" if "(i, y) \<in> edges\<^sup>*" for y
    using parents_first_closed [OF _ _ that, of "res @ [i]"] s by (auto simp: searching_def)
  then show ?thesis by (auto simp: pending_def)
qed

lemma pending_skip:
  assumes "searching ((i, False) # stack) V res" and "i \<in> V"
  shows "pending ((i, False) # stack) V = pending stack V"
proof -
  have "y \<in> pending stack V" if y: "(i, y) \<in> edges\<^sup>*" for y
  proof (cases "i \<in> set res")
    case True
    then have "y \<in> V" using parents_first_closed [OF _ True y] assms(1) by (auto simp: searching_def)
    then show ?thesis by (simp add: pending_def)
  next
    case False
    then have "(i, True) \<in> set stack" using assms by (auto simp: searching_def started_def)
    then have "i \<in> fst ` set stack" by (force simp: image_iff)
    with y show ?thesis by (auto simp: pending_def)
  qed
  then show ?thesis by (auto simp: pending_def)
qed

lemma pending_push:
  assumes "push (insert i V) i = Inr ps"
  shows "pending (rev (map (\<lambda>p. (p, False)) ps) @ (i, True) # stack) (insert i V) = pending ((i, False) # stack) V"
proof -
  have "(i, y) \<in> edges\<^sup>*" if "p \<in> set ps" "(p, y) \<in> edges\<^sup>*" for p y
    using that push_set [OF assms] by (auto simp: edges_def intro: converse_rtrancl_into_rtrancl)
  then have "edges\<^sup>* `` set ps \<subseteq> edges\<^sup>* `` {i}" by blast
  then have "edges\<^sup>* `` (set ps \<union> insert i (fst ` set stack)) = edges\<^sup>* `` insert i (fst ` set stack)" by blast
  moreover have "fst ` set (rev (map (\<lambda>p. (p, False)) ps) @ (i, True) # stack) = set ps \<union> insert i (fst ` set stack)"
    by (simp add: image_Un image_image)
  moreover have "i \<in> edges\<^sup>* `` insert i (fst ` set stack)" by blast
  ultimately show ?thesis unfolding pending_def by (simp only: list.set image_insert fst_conv) blast
qed

lemma topo_loop_correct:
  assumes "acyclic edges" and "searching stack V res"
  shows "case topo_loop push stack V res of
      Inr out \<Rightarrow> distinct out \<and> parents_first out \<and> set out = pending stack V
    | Inl e \<Rightarrow> \<exists>x \<in> pending stack V. \<not> ok x"
proof -
  have "searching stack V res \<Longrightarrow> q = push \<Longrightarrow> case topo_loop q stack V res of
      Inr out \<Rightarrow> distinct out \<and> parents_first out \<and> set out = pending stack V
    | Inl e \<Rightarrow> \<exists>x \<in> pending stack V. \<not> ok x" for q
  proof (induction q stack V res rule: topo_loop.induct)
    case (1 q V res)
    then show ?case by (simp add: searching_def started_def pending_def)
  next
    case (2 q i stack V res)
    show ?case using "2.IH" [OF searching_pop [OF "2.prems"(1)] "2.prems"(2)] unfolding pending_pop [OF "2.prems"(1)] by simp
  next
    case (3 q i stack V res)
    show ?case
    proof (cases "i \<in> V")
      case True
      show ?thesis
        using "3.IH"(1) [OF True searching_skip [OF assms(1) "3.prems"(1) True] "3.prems"(2)] True unfolding pending_skip [OF "3.prems"(1) True] by simp
    next
      case False
      show ?thesis
      proof (cases "push (insert i V) i")
        case (Inl e)
        then have "\<not> ok i" using push_ok [of i "insert i V"] by simp
        moreover have "i \<in> pending ((i, False) # stack) V" by (auto simp: pending_def)
        ultimately show ?thesis using False Inl "3.prems"(2) by auto
      next
        case (Inr ps)
        have "q (insert i V) i = Inr ps" using Inr "3.prems"(2) by simp
        note IH = "3.IH"(2) [OF False this searching_push [OF assms(1) "3.prems"(1) False Inr] "3.prems"(2)]
        show ?thesis using IH False Inr "3.prems"(2) unfolding pending_push [OF Inr] by simp
      qed
    qed
  qed
  then show ?thesis using assms(2) by blast
qed

lemma topo_order:
  assumes "acyclic edges"
  shows "case topo_loop push (rev (map (\<lambda>h. (h, False)) heads)) {} [] of
      Inr out \<Rightarrow> distinct out \<and> parents_first out \<and> set out = edges\<^sup>* `` set heads
    | Inl e \<Rightarrow> \<exists>x \<in> edges\<^sup>* `` set heads. \<not> ok x"
proof -
  have "(y, True) \<notin> set (rev (map (\<lambda>h. (h, False)) heads))" for y by auto
  then have "rev (map (\<lambda>h. (h, False)) heads) \<noteq> a @ (y, True) # b" for a y b by (metis in_set_conv_decomp)
  moreover have "started (rev (map (\<lambda>h. (h, False)) heads)) = []" by (auto simp: started_def filter_empty_conv)
  ultimately have "searching (rev (map (\<lambda>h. (h, False)) heads)) {} []"
    unfolding searching_def by (simp add: parents_first_def)
  note correct = topo_loop_correct [OF assms this]
  have "pending (rev (map (\<lambda>h. (h, False)) heads)) {} = edges\<^sup>* `` set heads"
    by (auto simp: pending_def image_image)
  with correct show ?thesis by (simp split: sum.splits)
qed

end

text \<open>The parents that the two searches follow; what cannot be read has none.\<close>

definition commit_parents :: "git_source \<Rightarrow> git_id \<Rightarrow> git_id list" where
  "commit_parents G g = (case find_commit G g of Inr c \<Rightarrow> gc_parents c | Inl _ \<Rightarrow> [])"

definition get_parents :: "getter \<Rightarrow> oid \<Rightarrow> oid list" where
  "get_parents get i = (case get i of Inr obj \<Rightarrow> snapshot_parents obj | Inl _ \<Rightarrow> [])"

interpretation commits: post_order "commit_parents G"
  "\<lambda>visited g. bind_res (find_commit G g) (\<lambda>c. Inr (filter (\<lambda>p. p \<notin> visited) (gc_parents c)))" "\<lambda>g. \<not> isl (find_commit G g)" for G
proof
  fix i V
  show "(\<not> isl (find_commit G i)) = (\<exists>ps. bind_res (find_commit G i) (\<lambda>c. Inr (filter (\<lambda>p. p \<notin> V) (gc_parents c))) = Inr ps)"
    by (cases "find_commit G i") auto
qed (auto simp: bind_res_Inr commit_parents_def)

interpretation snapshots: post_order "get_parents get"
  "\<lambda>visited i. bind_res (get i) (\<lambda>obj. Inr (rev (snapshot_parents obj)))" "\<lambda>i. \<not> isl (get i)" for get
proof
  fix i V
  show "(\<not> isl (get i)) = (\<exists>ps. bind_res (get i) (\<lambda>obj. Inr (rev (snapshot_parents obj))) = Inr ps)"
    by (cases "get i") auto
qed (auto simp: bind_res_Inr get_parents_def)

text \<open>
  An import takes commits in the right order: when the commits have no cycle, the search either meets a commit that cannot be read,
  or lists every commit that can be reached from the heads, each once, and no commit before its parents.
\<close>

lemma commits_parents_first:
  assumes "acyclic {(x, p). p \<in> set (commit_parents G x)}"
  shows "case topo_commits G heads of
      Inr out \<Rightarrow> distinct out \<and> set out = {(x, p). p \<in> set (commit_parents G x)}\<^sup>* `` set heads \<and>
        (\<forall>us x vs. out = us @ x # vs \<longrightarrow> set (commit_parents G x) \<subseteq> set us)
    | Inl e \<Rightarrow> \<exists>g \<in> {(x, p). p \<in> set (commit_parents G x)}\<^sup>* `` set heads. isl (find_commit G g)"
  using commits.topo_order [of G heads] assms
  by (simp add: topo_commits_def commits.edges_def commits.parents_first_def split: sum.splits)

lemma collect_topo_reachable:
  assumes "acyclic (snapshots.edges get)" and "collect_topo get starts = Inr out"
  shows "set out = (snapshots.edges get)\<^sup>* `` set starts"
  using snapshots.topo_order [OF assms(1), of starts] assms(2) by (simp add: collect_topo_def)

section \<open>Steps\<close>

lemma act_bind_eq:
  "act_bind m f s = (r, s') \<longleftrightarrow> (\<exists>e. m s = (Inl e, s') \<and> r = Inl e) \<or> (\<exists>x s1. m s = (Inr x, s1) \<and> f x s1 = (r, s'))"
  by (auto simp: act_bind_def split: sum.splits prod.splits)

lemma run_bind_eq:
  "run_bind m f s = Some (r, s') \<longleftrightarrow>
     (\<exists>e. m s = Some (Inl e, s') \<and> r = Inl e) \<or> (\<exists>x s1. m s = Some (Inr x, s1) \<and> f x s1 = Some (r, s'))"
  by (auto simp: run_bind_def split: sum.splits prod.splits option.splits)

lemma run_act_eq [simp]: "run_act m s = Some (r, s') \<longleftrightarrow> m s = (r, s')"
  by (simp add: run_act_def)

lemma act_lift_eq [simp]: "act_lift r s = (r', s') \<longleftrightarrow> r = r' \<and> s' = s"
  by (auto simp: act_lift_def)

lemma run_return_eq [simp]: "run_return x s = Some (r, s') \<longleftrightarrow> r = Inr x \<and> s' = s"
  by (auto simp: run_return_def)

lemma act_return_eq [simp]: "act_return x s = (r, s') \<longleftrightarrow> r = Inr x \<and> s' = s"
  by (auto simp: act_return_def)

lemma git_err_Inr [simp]: "git_err r = Inr x \<longleftrightarrow> r = Inr x"
  by (cases r) (auto simp: git_err_def)

lemma find_tree_Inr: "find_tree G g = Inr rows \<longleftrightarrow> (\<exists>ob. gs_object G g = Inr ob \<and> go_view ob = VTree rows)"
proof (cases "gs_object G g")
  case (Inr ob)
  then show ?thesis by (cases "go_view ob") (auto simp: find_tree_def git_err_def)
qed (simp add: find_tree_def git_err_def)

lemma find_commit_Inr: "find_commit G g = Inr c \<longleftrightarrow> (\<exists>ob. gs_object G g = Inr ob \<and> go_view ob = VCommit c)"
proof (cases "gs_object G g")
  case (Inr ob)
  then show ?thesis by (cases "go_view ob") (auto simp: find_commit_def git_err_def)
qed (simp add: find_commit_def git_err_def)

section \<open>Translation\<close>

text \<open>
  What the loop over the rows of a git tree makes of them, when \<open>rel\<close> says which object stands for which git object: gitlinks are left out.
\<close>

inductive rows_to :: "(git_id \<Rightarrow> oid \<Rightarrow> bool) \<Rightarrow> (string + git_entry) list \<Rightarrow> tree_entries \<Rightarrow> tree_entries \<Rightarrow> bool" for rel where
  rows_done: "rows_to rel [] es es"
| rows_link: "ge_mode e = ModeCommit \<Longrightarrow> rows_to rel rows es es' \<Longrightarrow> rows_to rel (Inr e # rows) es es'"
| rows_entry: "ge_mode e \<noteq> ModeCommit \<Longrightarrow> rel (ge_oid e) i \<Longrightarrow>
    rows_to rel rows (bt_insert (ge_name e) \<lparr>te_id = i, te_kind = (if ge_mode e = ModeTree then KTree else KBlob)\<rparr> es) es' \<Longrightarrow>
    rows_to rel (Inr e # rows) es es'"

lemma rows_to_mono: "rows_to rel rows es es' \<Longrightarrow> (\<And>g b. rel g b \<Longrightarrow> rel' g b) \<Longrightarrow> rows_to rel' rows es es'"
  by (induction rule: rows_to.induct) (auto intro: rows_to.intros)

lemma rows_to_mono' [mono]: "(\<And>g b. rel g b \<longrightarrow> rel' g b) \<Longrightarrow> rows_to rel rows es es' \<longrightarrow> rows_to rel' rows es es'"
  using rows_to_mono by blast

definition commit_snapshot_of :: "git_commit \<Rightarrow> git_sig \<Rightarrow> oid \<Rightarrow> oid list \<Rightarrow> snapshot" where
  "commit_snapshot_of c a r ps = \<lparr>root = r, parents = ps, author = sig_text a, created_at = nonneg_seconds (gs_seconds a), message = commit_text c a\<rparr>"

text \<open>An object stands for a git object: the same bytes, the same entries, or the same commit.\<close>

inductive renders :: "(git_id \<Rightarrow> oid \<Rightarrow> bool) \<Rightarrow> git_source \<Rightarrow> git_id \<Rightarrow> object \<Rightarrow> bool" for rel G where
  renders_blob: "gs_object G g = Inr ob \<Longrightarrow> go_view ob = VBlob \<Longrightarrow> renders rel G g (OBlob \<lparr>blob_data = go_data ob\<rparr>)"
| renders_tree: "gs_object G g = Inr ob \<Longrightarrow> go_view ob = VTree rows \<Longrightarrow> rows_to rel rows [] es \<Longrightarrow> renders rel G g (OTree \<lparr>entries = es\<rparr>)"
| renders_commit: "gs_object G g = Inr ob \<Longrightarrow> go_view ob = VCommit c \<Longrightarrow> gc_tree c = Inr t \<Longrightarrow> gc_author c = Inr a \<Longrightarrow> rel t r \<Longrightarrow>
    list_all2 rel (gc_parents c) ps \<Longrightarrow> renders rel G g (OSnapshot (commit_snapshot_of c a r ps))"

lemma renders_mono: "renders rel G g obj \<Longrightarrow> (\<And>g b. rel g b \<Longrightarrow> rel' g b) \<Longrightarrow> renders rel' G g obj"
  by (induction rule: renders.induct) (auto intro: renders.intros rows_to_mono list_all2_mono)

lemma renders_mono' [mono]: "(\<And>g b. rel g b \<longrightarrow> rel' g b) \<Longrightarrow> renders rel G g obj \<longrightarrow> renders rel' G g obj"
  using renders_mono by blast

text \<open>A stored object mirrors a git object, with everything below it and before it.\<close>

inductive mirrors :: "getter \<Rightarrow> git_source \<Rightarrow> git_id \<Rightarrow> oid \<Rightarrow> bool" for get G where
  mirrorsI: "get b = Inr (Some obj) \<Longrightarrow> renders (mirrors get G) G g obj \<Longrightarrow> mirrors get G g b"

lemma mirrors_mono:
  assumes "mirrors get G g b" and "\<And>j obj. get j = Inr (Some obj) \<Longrightarrow> get' j = Inr (Some obj)"
  shows "mirrors get' G g b"
  using assms(1)
proof (induction rule: mirrors.induct)
  case (mirrorsI b obj g)
  have "renders (mirrors get' G) G g obj" by (rule renders_mono [OF mirrorsI(2)]) blast
  with assms(2) [OF mirrorsI(1)] show ?case by (rule mirrors.mirrorsI)
qed

text \<open>The ids that a translation gives, starting from a map of known objects, and the objects it may have to store.\<close>

inductive translated :: "ocodec \<Rightarrow> git_source \<Rightarrow> identity_map \<Rightarrow> git_id \<Rightarrow> oid \<Rightarrow> bool" for C G m where
  known: "bole_for_git m g = Some b \<Longrightarrow> translated C G m g b"
| fresh: "bole_for_git m g = None \<Longrightarrow> renders (translated C G m) G g obj \<Longrightarrow> translated C G m g (obj_id C obj)"

lemma rows_to_unique:
  assumes "rows_to (\<lambda>g b. \<forall>b'. rel g b' \<longrightarrow> b' = b) rows es out" and "rows_to rel rows es out'"
  shows "out' = out"
  using assms
proof (induction rule: rows_to.induct)
  case (rows_entry e i rows es es')
  from rows_entry.prems show ?case
  proof (cases rule: rows_to.cases)
    case (rows_entry i')
    then have "i' = i" using \<open>\<forall>b'. rel (ge_oid e) b' \<longrightarrow> b' = i\<close> by blast
    then show ?thesis using rows_entry \<open>rows_to rel rows (bt_insert (ge_name e) \<lparr>te_id = i, te_kind = if ge_mode e = ModeTree then KTree else KBlob\<rparr> es) out' \<Longrightarrow> out' = es'\<close> by simp
  qed (use rows_entry.hyps in auto)
qed (auto elim: rows_to.cases)

lemma renders_unique:
  assumes "renders (\<lambda>g b. \<forall>b'. rel g b' \<longrightarrow> b' = b) G g obj" and "renders rel G g obj'"
  shows "obj' = obj"
  using assms(1)
proof cases
  case (renders_blob ob)
  from assms(2) this(2,3) show ?thesis unfolding renders_blob(1) by cases auto
next
  case (renders_tree ob rows es)
  from assms(2) this(2,3) show ?thesis unfolding renders_tree(1) using rows_to_unique [OF renders_tree(4)] by cases auto
next
  case (renders_commit ob c t a r ps)
  have "ps' = ps" if "list_all2 rel (gc_parents c) ps'" for ps'
    using that renders_commit(7) by (auto simp: list_all2_conv_all_nth intro: nth_equalityI)
  with assms(2) renders_commit show ?thesis unfolding renders_commit(1) by cases auto
qed

lemma translated_unique: "translated C G m g b \<Longrightarrow> translated C G m g b' \<Longrightarrow> b' = b"
proof (induction arbitrary: b' rule: translated.induct)
  case (known g b)
  from known.prems show ?case using known.hyps by cases auto
next
  case (fresh g obj)
  from fresh.prems show ?case
  proof cases
    case (fresh obj')
    have "renders (\<lambda>g b. \<forall>b'. translated C G m g b' \<longrightarrow> b' = b) G g obj" by (rule renders_mono [OF \<open>renders (\<lambda>a b. translated C G m a b \<and> (\<forall>x. translated C G m a x \<longrightarrow> x = b)) G g obj\<close>]) blast
    with fresh show ?thesis using renders_unique by blast
  qed (use fresh.hyps in auto)
qed

definition imported_objects :: "ocodec \<Rightarrow> git_source \<Rightarrow> identity_map \<Rightarrow> object set" where
  "imported_objects C G m = {obj. \<exists>g. bole_for_git m g = None \<and> renders (translated C G m) G g obj}"

text \<open>Entries of git trees that are not trees name blobs.\<close>

definition blobs_are_blobs :: "git_source \<Rightarrow> bool" where
  "blobs_are_blobs G \<longleftrightarrow> (\<forall>g ob rows e ob'. gs_object G g = Inr ob \<and> go_view ob = VTree rows \<and> Inr e \<in> set rows \<and> ge_mode e = ModeBlob \<and>
     gs_object G (ge_oid e) = Inr ob' \<longrightarrow> go_view ob' = VBlob)"

lemma bole_for_git_insert [simp]: "bole_for_git (im_insert m g b) h = (if h = g then Some b else bole_for_git m h)"
  by (simp add: bole_for_git_def im_insert_def update_conv')

definition extends :: "identity_map \<Rightarrow> identity_map \<Rightarrow> bool" where
  "extends m m' \<longleftrightarrow> (\<forall>g b. bole_for_git m g = Some b \<longrightarrow> bole_for_git m' g = Some b)"

context repo_stores
begin

definition can_import :: "bytes set \<Rightarrow> git_source \<Rightarrow> identity_map \<Rightarrow> bool" where
  "can_import X G m \<longleftrightarrow> ocodec_ok (env_codec E) \<and> (\<forall>data. storable data) \<and> inj_on (object_id (env_codec E)) X \<and>
     (\<forall>obj \<in> imported_objects (env_codec E) G m. \<exists>data \<in> X. serialize (env_codec E) obj = Inr data) \<and> blobs_are_blobs G"

text \<open>The state of an import: the store is in order, and what the map says is true.\<close>

definition importing :: "bytes set \<Rightarrow> git_source \<Rightarrow> identity_map \<Rightarrow> ('o, 'r, 'a) import_state \<Rightarrow> bool" where
  "importing X G m st \<longleftrightarrow> st.good (env_codec E) X (r_objects (is_repo st)) \<and> extends m (is_map st) \<and>
     (\<forall>g b. bole_for_git (is_map st) g = Some b \<longrightarrow> translated (env_codec E) G m g b \<and> mirrors (repo_get E (is_repo st)) G g b)"

text \<open>A later state holds more objects and a larger map; the refs and rules are the same.\<close>

definition later :: "('o, 'r, 'a) import_state \<Rightarrow> ('o, 'r, 'a) import_state \<Rightarrow> bool" where
  "later st st' \<longleftrightarrow> (\<forall>j obj. repo_get E (is_repo st) j = Inr (Some obj) \<longrightarrow> repo_get E (is_repo st') j = Inr (Some obj)) \<and>
     extends (is_map st) (is_map st') \<and> r_refs (is_repo st') = r_refs (is_repo st)"

lemma later_refl [simp]: "later st st"
  by (simp add: later_def extends_def)

lemma later_trans: "later st st' \<Longrightarrow> later st' st'' \<Longrightarrow> later st st''"
  by (simp add: later_def extends_def)

lemma later_mirrors: "later st st' \<Longrightarrow> mirrors (repo_get E (is_repo st)) G g b \<Longrightarrow> mirrors (repo_get E (is_repo st')) G g b"
  using mirrors_mono [of "repo_get E (is_repo st)" G g b "repo_get E (is_repo st')"] by (simp add: later_def)

lemma later_map: "later st st' \<Longrightarrow> bole_for_git (is_map st) g = Some b \<Longrightarrow> bole_for_git (is_map st') g = Some b"
  by (simp add: later_def extends_def)

lemma new_in_map: "importing X G m st \<Longrightarrow> bole_for_git (is_map st) g = None \<Longrightarrow> bole_for_git m g = None"
  by (cases "bole_for_git m g") (auto simp: importing_def extends_def)

text \<open>Storing the translation of a git object that is not in the map yet, and entering it.\<close>

lemma store_step:
  assumes "can_import X G m" and "importing X G m st" and new: "bole_for_git m g = None"
    and "renders (\<lambda>g b. bole_for_git (is_map st) g = Some b) G g obj"
    and "act_bind (put_or_hash E False obj) (record_id g tally) st = (r, st')"
  shows "importing X G m st' \<and> later st st' \<and> (\<exists>b. r = Inr b \<and> bole_for_git (is_map st') g = Some b)"
proof -
  let ?C = "env_codec E"
  have ok: "ocodec_ok ?C" "\<And>data. storable data" "inj_on (object_id ?C) X" using assms(1) by (auto simp: can_import_def)
  have st: "st.good ?C X (r_objects (is_repo st))" "extends m (is_map st)"
    "\<And>g b. bole_for_git (is_map st) g = Some b \<Longrightarrow> translated ?C G m g b \<and> mirrors (repo_get E (is_repo st)) G g b"
    using assms(2) by (auto simp: importing_def)
  have tr: "renders (translated ?C G m) G g obj" by (rule renders_mono [OF assms(4)]) (simp add: st(3))
  have mi: "renders (mirrors (repo_get E (is_repo st)) G) G g obj" by (rule renders_mono [OF assms(4)]) (simp add: st(3))
  have "obj \<in> imported_objects ?C G m" using new tr by (auto simp: imported_objects_def)
  then obtain data where data: "data \<in> X" "serialize ?C obj = Inr data" using assms(1) by (auto simp: can_import_def)
  obtain s' where s': "ost_put (env_objects E) ?C (r_objects (is_repo st)) obj = Inr (obj_id ?C obj, s')" "st.good ?C X s'"
    "oabst (r_objects (is_repo st)) \<subseteq>\<^sub>m oabst s'" "ost_get (env_objects E) ?C s' (obj_id ?C obj) = Inr (Some obj)"
    using st.put_good [OF ok st(1) data(2,1)] by blast
  define R' where "R' = (is_repo st)\<lparr>r_objects := s'\<rparr>"
  have r: "r = Inr (obj_id ?C obj)" and st': "st' = st\<lparr>is_repo := R', is_map := im_insert (is_map st) g (obj_id ?C obj), is_summary := tally (is_summary st)\<rparr>"
    using assms(5) s'(1) by (auto simp: put_or_hash_def repo_put_def act_bind_def record_id_def R'_def)
  have keep: "repo_get E R' j = Inr (Some ob)" if "repo_get E (is_repo st) j = Inr (Some ob)" for j ob
    using st.get_mono [OF st(1) s'(2,3) that] by (simp add: R'_def)
  have up: "mirrors (repo_get E R') G h c" if "mirrors (repo_get E (is_repo st)) G h c" for h c
    using mirrors_mono [OF that] keep by blast
  have mine: "translated ?C G m g (obj_id ?C obj)" using new tr by (rule translated.fresh)
  have "b = obj_id ?C obj" if "bole_for_git (is_map st) g = Some b" for b
    using translated_unique [OF mine] st(3) [OF that] by blast
  then have later: "later st st'" using keep by (auto simp: later_def st' R'_def extends_def)
  have "mirrors (repo_get E R') G g (obj_id ?C obj)"
  proof (rule mirrorsI)
    show "repo_get E R' (obj_id ?C obj) = Inr (Some obj)" using s'(4) by (simp add: R'_def)
    show "renders (mirrors (repo_get E R') G) G g obj" by (rule renders_mono [OF mi]) (rule up)
  qed
  moreover note mine
  moreover have "extends m (is_map st')" using st(2) later by (simp add: later_def extends_def)
  ultimately have "importing X G m st'"
    using s'(2) st(3) up by (auto simp: importing_def st' R'_def)
  with later r show ?thesis by (simp add: st')
qed

end

context repo_stores
begin

text \<open>A step keeps the state of an import in order, and a result it gives is in the map.\<close>

definition entered :: "bytes set \<Rightarrow> git_source \<Rightarrow> identity_map \<Rightarrow> ('o, 'r, 'a) import_state \<Rightarrow> oid result \<times> ('o, 'r, 'a) import_state \<Rightarrow> git_id \<Rightarrow> bool" where
  "entered X G m st out g \<longleftrightarrow> importing X G m (snd out) \<and> later st (snd out) \<and> (\<forall>b. fst out = Inr b \<longrightarrow> bole_for_git (is_map (snd out)) g = Some b)"

lemma blob_step:
  assumes "can_import X G m" and "importing X G m st" and "\<And>ob. gs_object G g = Inr ob \<Longrightarrow> go_view ob = VBlob"
    and "translate_blob E G False g st = (r, st')"
  shows "entered X G m st (r, st') g"
proof (cases "bole_for_git (is_map st) g")
  case None
  show ?thesis
  proof (cases "gs_object G g")
    case (Inl e)
    then show ?thesis using assms(2,4) None by (auto simp: translate_blob_def act_bind_def act_lift_def git_err_def entered_def)
  next
    case (Inr ob)
    let ?tally = "\<lambda>s. s\<lparr>blobs_written := blobs_written s + 1\<rparr>"
    have "renders (\<lambda>g b. bole_for_git (is_map st) g = Some b) G g (OBlob \<lparr>blob_data = go_data ob\<rparr>)"
      using Inr assms(3) by (intro renders_blob)
    moreover have "act_bind (put_or_hash E False (OBlob \<lparr>blob_data = go_data ob\<rparr>)) (record_id g ?tally) st = (r, st')"
      using assms(4) None Inr by (simp add: translate_blob_def act_bind_def [of "act_lift _"] act_lift_def git_err_def)
    ultimately show ?thesis using store_step [OF assms(1,2) new_in_map [OF assms(2) None]] by (fastforce simp: entered_def)
  qed
qed (use assms(2,4) in \<open>auto simp: translate_blob_def entered_def\<close>)

lemma rows_step:
  assumes "can_import X G m"
    and sub: "\<And>g st r st'. importing X G m st \<Longrightarrow> sub g st = Some (r, st') \<Longrightarrow> entered X G m st (r, st') g"
    and blob: "\<And>e ob. Inr e \<in> set rows \<Longrightarrow> ge_mode e = ModeBlob \<Longrightarrow> gs_object G (ge_oid e) = Inr ob \<Longrightarrow> go_view ob = VBlob"
    and "importing X G m st" and "run_fold (translate_entry E G False sub) rows es st = Some (r, st')"
  shows "importing X G m st' \<and> later st st' \<and> (\<forall>es'. r = Inr es' \<longrightarrow> rows_to (\<lambda>g b. bole_for_git (is_map st') g = Some b) rows es es')"
  using blob assms(4,5)
proof (induction rows arbitrary: es st)
  case Nil
  then show ?case by (auto intro: rows_to.intros)
next
  case (Cons row rows)
  have run: "run_bind (translate_entry E G False sub row es) (run_fold (translate_entry E G False sub) rows) st = Some (r, st')"
    using Cons.prems(3) by simp
  show ?case
  proof (cases row)
    case (Inl e)
    then show ?thesis using run Cons.prems(2)
      by (auto simp: run_bind_eq translate_entry_def git_err_def)
  next
    case (Inr e)
    define k where "k = (if ge_mode e = ModeTree then KTree else KBlob)"
    show ?thesis
    proof (cases "ge_mode e = ModeCommit")
      case True
      then have "run_fold (translate_entry E G False sub) rows es st = Some (r, st')"
        using run Inr by (auto simp: run_bind_eq translate_entry_def git_err_def)
      from Cons.IH [OF _ Cons.prems(2) this] Cons.prems(1) show ?thesis using Inr True by (auto intro: rows_link)
    next
      case False
      let ?one = "if ge_mode e = ModeTree then sub (ge_oid e) else run_act (translate_blob E G False (ge_oid e))"
      have entry: "translate_entry E G False sub row es = (\<lambda>st. run_bind ?one (\<lambda>i. run_return (bt_insert (ge_name e) \<lparr>te_id = i, te_kind = k\<rparr> es)) st)"
        using False Inr by (auto simp: translate_entry_def git_err_def run_bind_def run_act_def act_lift_def k_def fun_eq_iff split: entry_mode.splits)
      have one: "entered X G m st (r1, st1) (ge_oid e)" if "?one st = Some (r1, st1)" for r1 st1
      proof (cases "ge_mode e = ModeTree")
        case True
        then show ?thesis using sub [OF Cons.prems(2)] that by simp
      next
        case False
        then have "ge_mode e = ModeBlob" using \<open>ge_mode e \<noteq> ModeCommit\<close> by (cases "ge_mode e") auto
        then show ?thesis using blob_step [OF assms(1) Cons.prems(2), of "ge_oid e"] Cons.prems(1) [of e] Inr that by auto
      qed
      consider err where "?one st = Some (Inl err, st')" "r = Inl err"
        | i st1 where "?one st = Some (Inr i, st1)" "run_fold (translate_entry E G False sub) rows (bt_insert (ge_name e) \<lparr>te_id = i, te_kind = k\<rparr> es) st1 = Some (r, st')"
        using run unfolding entry by (auto simp: run_bind_eq)
      then show ?thesis
      proof cases
        case 1
        then show ?thesis using one [OF 1(1)] by (simp add: entered_def)
      next
        case 2
        have st1: "importing X G m st1" "later st st1" "bole_for_git (is_map st1) (ge_oid e) = Some i"
          using one [OF 2(1)] by (auto simp: entered_def)
        have IH: "importing X G m st' \<and> later st1 st' \<and> (\<forall>es'. r = Inr es' \<longrightarrow>
            rows_to (\<lambda>g b. bole_for_git (is_map st') g = Some b) rows (bt_insert (ge_name e) \<lparr>te_id = i, te_kind = k\<rparr> es) es')"
          by (rule Cons.IH [OF _ st1(1) 2(2)]) (use Cons.prems(1) in auto)
        then have "later st st'" "bole_for_git (is_map st') (ge_oid e) = Some i"
          using st1(2,3) later_trans later_map by blast+
        with IH show ?thesis using Inr False unfolding k_def by (auto intro!: rows_entry)
      qed
    qed
  qed
qed

lemma tree_step:
  assumes "can_import X G m" and "importing X G m st" and "translate_tree n E G False g st = Some (r, st')"
  shows "entered X G m st (r, st') g"
  using assms(2,3)
proof (induction n arbitrary: g st r st')
  case (Suc n)
  show ?case
  proof (cases "bole_for_git (is_map st) g")
    case None
    show ?thesis
    proof (cases "find_tree G g")
      case (Inl e)
      then show ?thesis using Suc.prems None by (auto simp: run_bind_eq entered_def)
    next
      case (Inr rows)
      then obtain ob where ob: "gs_object G g = Inr ob" "go_view ob = VTree rows"
        by (auto simp: find_tree_Inr)
      have blob: "go_view ob' = VBlob" if "Inr e \<in> set rows" "ge_mode e = ModeBlob" "gs_object G (ge_oid e) = Inr ob'" for e ob'
        using assms(1) ob that unfolding can_import_def blobs_are_blobs_def by blast
      let ?fold = "run_fold (translate_entry E G False (translate_tree n E G False)) rows []"
      let ?tally = "\<lambda>s. s\<lparr>trees_written := trees_written s + 1\<rparr>"
      consider err where "?fold st = Some (Inl err, st')" "r = Inl err"
        | es st1 where "?fold st = Some (Inr es, st1)" "act_bind (put_or_hash E False (OTree \<lparr>entries = es\<rparr>)) (record_id g ?tally) st1 = (r, st')"
        using Suc.prems(2) None Inr by (auto simp: run_bind_eq act_bind_eq)
      then show ?thesis
      proof cases
        case 1
        then show ?thesis using rows_step [OF assms(1) Suc.IH blob Suc.prems(1) 1(1)] by (simp add: entered_def)
      next
        case 2
        have st1: "importing X G m st1" "later st st1" "rows_to (\<lambda>g b. bole_for_git (is_map st1) g = Some b) rows [] es"
          using rows_step [OF assms(1) Suc.IH blob Suc.prems(1) 2(1)] by auto
        have "importing X G m st' \<and> later st1 st' \<and> (\<exists>b. r = Inr b \<and> bole_for_git (is_map st') g = Some b)"
          by (rule store_step [OF assms(1) st1(1) new_in_map [OF Suc.prems(1) None] renders_tree [OF ob st1(3)] 2(2)])
        then show ?thesis using st1(2) later_trans by (auto simp: entered_def)
      qed
    qed
  qed (use Suc.prems in \<open>auto simp: entered_def\<close>)
qed simp

lemma commit_step:
  assumes "can_import X G m" and "importing X G m st" and "translate_commit n E G False g st = Some (r, st')"
  shows "entered X G m st (r, st') g"
proof (cases "bole_for_git (is_map st) g")
  case None
  consider e where "r = Inl e" "st' = st"
    | c t err where "find_commit G g = Inr c" "gc_tree c = Inr t" "translate_tree n E G False t st = Some (Inl err, st')" "r = Inl err"
    | c t root_id st1 where "find_commit G g = Inr c" "gc_tree c = Inr t" "translate_tree n E G False t st = Some (Inr root_id, st1)"
        "run_bind (run_act (\<lambda>st. (parent_ids (is_map st) (gc_parents c), st))) (\<lambda>ps.
         run_bind (run_act (act_lift (git_err (gc_author c)))) (\<lambda>a.
         run_bind (run_act (put_or_hash E False (OSnapshot (commit_snapshot_of c a root_id ps)))) (\<lambda>i.
           run_act (record_id g (\<lambda>s. s\<lparr>snapshots_written := snapshots_written s + 1\<rparr>) i)))) st1 = Some (r, st')"
  proof (cases "find_commit G g")
    case (Inl e)
    then show thesis using that(1) [of e] assms(3) None by (simp add: translate_commit_def run_bind_eq)
  next
    case (Inr c)
    show thesis
    proof (cases "gc_tree c")
      case (Inl e)
      then show thesis using that(1) [of "GitProjection e"] Inr assms(3) None by (simp add: translate_commit_def run_bind_eq git_err_def)
    next
      case (Inr t)
      have "run_bind (translate_tree n E G False t) (\<lambda>root_id. run_bind (run_act (\<lambda>st. (parent_ids (is_map st) (gc_parents c), st))) (\<lambda>ps.
         run_bind (run_act (act_lift (git_err (gc_author c)))) (\<lambda>a.
         run_bind (run_act (put_or_hash E False (OSnapshot (commit_snapshot_of c a root_id ps)))) (\<lambda>i.
           run_act (record_id g (\<lambda>s. s\<lparr>snapshots_written := snapshots_written s + 1\<rparr>) i))))) st = Some (r, st')"
        using assms(3) None \<open>find_commit G g = Inr c\<close> Inr
        by (simp add: translate_commit_def run_bind_def [of "run_act (act_lift _)"] run_act_def act_lift_def git_err_def commit_snapshot_of_def)
      then show thesis using that(2,3) \<open>find_commit G g = Inr c\<close> Inr unfolding run_bind_eq [of "translate_tree n E G False t"] by blast
    qed
  qed
  then show ?thesis
  proof cases
    case 1
    then show ?thesis using assms(2) by (simp add: entered_def)
  next
    case 2
    then show ?thesis using tree_step [OF assms(1,2) 2(3)] by (simp add: entered_def)
  next
    case 3
    have st1: "importing X G m st1" "later st st1" "bole_for_git (is_map st1) t = Some root_id"
      using tree_step [OF assms(1,2) 3(3)] by (auto simp: entered_def)
    consider e where "r = Inl e" "st' = st1"
      | ps a where "parent_ids (is_map st1) (gc_parents c) = Inr ps" "gc_author c = Inr a"
          "act_bind (put_or_hash E False (OSnapshot (commit_snapshot_of c a root_id ps)))
            (record_id g (\<lambda>s. s\<lparr>snapshots_written := snapshots_written s + 1\<rparr>)) st1 = (r, st')"
      using 3(4) by (auto simp: run_bind_eq act_bind_eq)
    then show ?thesis
    proof cases
      case 1
      then show ?thesis using st1 by (simp add: entered_def)
    next
      case 2
      obtain ob where ob: "gs_object G g = Inr ob" "go_view ob = VCommit c" using 3(1) by (auto simp: find_commit_Inr)
      have "list_all2 (\<lambda>g b. bole_for_git (is_map st1) g = Some b) (gc_parents c) ps"
        using 2(1) unfolding parent_ids_def map_res_Inr_iff by (rule list_all2_mono) (simp split: option.splits)
      from store_step [OF assms(1) st1(1) new_in_map [OF assms(2) None] renders_commit [OF ob 3(2) 2(2) st1(3) this] 2(3)]
      show ?thesis using st1(2) later_trans by (auto simp: entered_def)
    qed
  qed
next
  case (Some b)
  define sm where "sm = (is_summary st)\<lparr>skipped_via_identity_map := skipped_via_identity_map (is_summary st) + 1\<rparr>"
  have "r = Inr b" "st' = st\<lparr>is_summary := sm\<rparr>" using assms(3) Some by (auto simp: translate_commit_def sm_def)
  then show ?thesis using Some assms(2) by (simp add: entered_def importing_def later_def extends_def)
qed

lemma commits_step:
  assumes "can_import X G m" and "importing X G m st"
    and "run_fold (\<lambda>g _. run_bind (translate_commit n E G False g) (\<lambda>_. run_return ())) gs () st = Some (r, st')"
  shows "importing X G m st' \<and> later st st' \<and> (r = Inr () \<longrightarrow> (\<forall>g \<in> set gs. \<exists>b. bole_for_git (is_map st') g = Some b))"
  using assms(2,3)
proof (induction gs arbitrary: st)
  case (Cons g gs)
  consider e where "translate_commit n E G False g st = Some (Inl e, st')" "r = Inl e"
    | b st1 where "translate_commit n E G False g st = Some (Inr b, st1)"
        "run_fold (\<lambda>g _. run_bind (translate_commit n E G False g) (\<lambda>_. run_return ())) gs () st1 = Some (r, st')"
    using Cons.prems(2) by (auto simp: run_bind_eq)
  then show ?case
  proof cases
    case 1
    then show ?thesis using commit_step [OF assms(1) Cons.prems(1) 1(1)] by (simp add: entered_def)
  next
    case 2
    have st1: "importing X G m st1" "later st st1" "bole_for_git (is_map st1) g = Some b"
      using commit_step [OF assms(1) Cons.prems(1) 2(1)] by (auto simp: entered_def)
    then show ?thesis using Cons.IH [OF st1(1) 2(2)] later_trans [OF st1(2)] later_map by auto
  qed
qed simp

end

section \<open>Branches and tags\<close>

context repo_stores
begin

text \<open>A step on the refs leaves the objects and the map alone.\<close>

definition same_objects :: "('o, 'r, 'a) import_state \<Rightarrow> ('o, 'r, 'a) import_state \<Rightarrow> bool" where
  "same_objects st st' \<longleftrightarrow> r_objects (is_repo st') = r_objects (is_repo st) \<and> is_map st' = is_map st"

lemma same_objects_refl [simp]: "same_objects st st"
  by (simp add: same_objects_def)

lemma same_objects_trans: "same_objects st st' \<Longrightarrow> same_objects st' st'' \<Longrightarrow> same_objects st st''"
  by (simp add: same_objects_def)

lemma create_timeline_Inr:
  assumes "rinv rs" and "\<And>rs N. fits rs N" and "create_timeline (env_refs E) rs n h p now k ex = Inr rs'"
  shows "\<exists>t. tl_head t = h \<and> rinv rs' \<and> rabst rs' = (rabst rs)(n \<mapsto> RTimeline t)"
proof -
  let ?t = "\<lparr>tl_head = h, tl_policy = p, tl_created_at = now, tl_kind = k, tl_expires_at = ex\<rparr>"
  have "rb_set (env_refs E) rs n (RTimeline ?t) = Inr rs'"
    using assms(3) by (auto simp: create_timeline_def bind_res_Inr split: if_splits)
  then show ?thesis using rt.set_law [OF assms(1,2) UNIV_I, of n "RTimeline ?t"] by (intro exI [of _ ?t]) auto
qed

lemma advance_head_Inr:
  assumes "rinv rs" and "\<And>rs N. fits rs N" and "advance_head (env_refs E) rs n h = Inr rs'"
  shows "\<exists>t. tl_head t = h \<and> rinv rs' \<and> rabst rs' = (rabst rs)(n \<mapsto> RTimeline t)"
proof -
  obtain t where "rb_set (env_refs E) rs n (RTimeline (t\<lparr>tl_head := h\<rparr>)) = Inr rs'"
    using assms(3) rt.get_law [OF assms(1,2) UNIV_I, of n]
    by (cases "rabst rs n"; cases "the (rabst rs n)") (auto simp: advance_head_def)
  then show ?thesis using rt.set_law [OF assms(1,2) UNIV_I, of n "RTimeline (t\<lparr>tl_head := h\<rparr>)"]
    by (intro exI [of _ "t\<lparr>tl_head := h\<rparr>"]) auto
qed

lemma branch_step:
  assumes "rinv (r_refs (is_repo st))" and fits: "\<And>rs N. fits rs N"
    and "import_branch E opts (short, head) seen st = (Inr seen', st')"
  shows "\<exists>n b t. sanitize_ref_name short = Some n \<and> (case map_of seen n of Some prev \<Rightarrow> prev = short | None \<Rightarrow> True) \<and>
    seen' = AList.update n short seen \<and> bole_for_git (is_map st) head = Some b \<and> tl_head t = b \<and> same_objects st st' \<and>
    rinv (r_refs (is_repo st')) \<and> rabst (r_refs (is_repo st')) = (rabst (r_refs (is_repo st)))(n \<mapsto> RTimeline t)"
proof -
  let ?rs = "r_refs (is_repo st)"
  obtain n s1 where name: "sanitized_ref short seen = Inr (n, s1)"
    using assms(3) by (auto simp: import_branch_def act_bind_eq)
  obtain b where b: "bole_for_git (is_map st) head = Some b"
    using assms(3) name by (auto simp: import_branch_def act_bind_eq split: option.splits)
  obtain found where found: "get_timeline (env_refs E) ?rs n = Inr found"
    using assms(3) name b by (auto simp: import_branch_def act_bind_eq)
  have "\<exists>t. tl_head t = b \<and> same_objects st st' \<and> seen' = s1 \<and> rinv (r_refs (is_repo st')) \<and> rabst (r_refs (is_repo st')) = (rabst ?rs)(n \<mapsto> RTimeline t)"
  proof (cases found)
    case None
    then obtain rs where "create_timeline (env_refs E) ?rs n b (io_timeline_policy opts) 0 ''persistent'' None = Inr rs"
      "r_refs (is_repo st') = rs" "same_objects st st'" "seen' = s1"
      using assms(3) name b found by (auto simp: import_branch_def act_bind_eq same_objects_def split: sum.splits)
    then show ?thesis using create_timeline_Inr [OF assms(1) fits] by blast
  next
    case (Some t)
    have cur: "rabst ?rs n = Some (RTimeline t)" using get_timeline_Some [OF assms(1) fits UNIV_I] found Some by blast
    show ?thesis
    proof (cases "tl_head t = b")
      case True
      then have "st' = st" "seen' = s1" using assms(3) name b found Some
        by (auto simp: import_branch_def act_bind_eq split: if_splits)
      then show ?thesis using True cur assms(1) by (intro exI [of _ t]) (simp add: fun_upd_idem)
    next
      case False
      then obtain rs where "advance_head (env_refs E) ?rs n b = Inr rs" "r_refs (is_repo st') = rs" "same_objects st st'" "seen' = s1"
        using assms(3) name b found Some by (auto simp: import_branch_def act_bind_eq same_objects_def split: if_splits sum.splits)
      then show ?thesis using advance_head_Inr [OF assms(1) fits] by blast
    qed
  qed
  with name b show ?thesis by (auto simp: sanitized_ref_Inr)
qed

lemma branches_step:
  assumes fits: "\<And>rs N. fits rs N" and "rinv (r_refs (is_repo st))" and "distinct (map fst branches)"
    and "act_fold (import_branch E opts) branches seen st = (Inr seen', st')"
  shows "same_objects st st' \<and> rinv (r_refs (is_repo st')) \<and>
    (\<forall>n short. map_of seen n = Some short \<longrightarrow> short \<notin> fst ` set branches \<longrightarrow> rabst (r_refs (is_repo st')) n = rabst (r_refs (is_repo st)) n) \<and>
    (\<forall>(short, head) \<in> set branches. \<exists>n b t. sanitize_ref_name short = Some n \<and> bole_for_git (is_map st) head = Some b \<and>
      rabst (r_refs (is_repo st')) n = Some (RTimeline t) \<and> tl_head t = b)"
  using assms(2-4)
proof (induction branches arbitrary: seen st)
  case (Cons br branches)
  obtain short head where br: "br = (short, head)" by (cases br)
  obtain s1 st1 where step: "import_branch E opts (short, head) seen st = (Inr s1, st1)"
    and rest: "act_fold (import_branch E opts) branches s1 st1 = (Inr seen', st')"
    using Cons.prems(3) br by (auto simp: act_bind_eq)
  obtain n b t where one: "sanitize_ref_name short = Some n" "case map_of seen n of Some prev \<Rightarrow> prev = short | None \<Rightarrow> True"
    "s1 = AList.update n short seen" "bole_for_git (is_map st) head = Some b" "tl_head t = b" "same_objects st st1"
    "rinv (r_refs (is_repo st1))" "rabst (r_refs (is_repo st1)) = (rabst (r_refs (is_repo st)))(n \<mapsto> RTimeline t)"
    using branch_step [OF Cons.prems(1) fits step] by blast
  have d: "distinct (map fst branches)" "short \<notin> fst ` set branches" using Cons.prems(2) br by auto
  have IH: "same_objects st1 st'" "rinv (r_refs (is_repo st'))"
    "\<And>k sh. map_of s1 k = Some sh \<Longrightarrow> sh \<notin> fst ` set branches \<Longrightarrow> rabst (r_refs (is_repo st')) k = rabst (r_refs (is_repo st1)) k"
    "\<And>sh hd. (sh, hd) \<in> set branches \<Longrightarrow> \<exists>n b t. sanitize_ref_name sh = Some n \<and> bole_for_git (is_map st1) hd = Some b \<and>
      rabst (r_refs (is_repo st')) n = Some (RTimeline t) \<and> tl_head t = b"
    using Cons.IH [OF one(7) d(1) rest] by auto
  have keep: "rabst (r_refs (is_repo st')) k = rabst (r_refs (is_repo st)) k"
    if k: "map_of seen k = Some sh" "sh \<notin> fst ` set (br # branches)" for k sh
  proof -
    have "k \<noteq> n" using one(2) k br by auto
    then show ?thesis using IH(3) [of k sh] one(3,8) k by (simp add: update_conv')
  qed
  have mine: "rabst (r_refs (is_repo st')) n = Some (RTimeline t)"
    using IH(3) [of n short] one(3,8) d(2) by (simp add: update_conv')
  have map: "is_map st1 = is_map st" using one(6) by (simp add: same_objects_def)
  show ?case using keep mine one(1,4,5) IH(2,4) same_objects_trans [OF one(6) IH(1)] br map by auto
qed simp

lemma tag_step:
  assumes "rinv (r_refs (is_repo st))" and fits: "\<And>rs N. fits rs N" and "translate_tag E G n target st = (Inr x, st')"
  shows "same_objects st st' \<and> rinv (r_refs (is_repo st')) \<and> (\<forall>k r. rabst (r_refs (is_repo st)) k = Some r \<longrightarrow> rabst (r_refs (is_repo st')) k = Some r)"
proof -
  let ?rs = "r_refs (is_repo st)"
  consider "st' = st"
    | b msg at rs where "get_tag (env_refs E) ?rs n = Inr None" "create_tag (env_refs E) ?rs n b msg at = Inr rs"
        "r_refs (is_repo st') = rs" "same_objects st st'"
    using assms(3) by (auto simp: translate_tag_def act_bind_eq same_objects_def split: option.splits sum.splits)
  then show ?thesis
  proof cases
    case 2
    let ?t = "RTag \<lparr>tag_target = b, tag_created_at = at, tag_message = msg\<rparr>"
    have none: "rabst ?rs n = None" "rb_set (env_refs E) ?rs n ?t = Inr rs"
      using 2(2) rt.get_law [OF assms(1) fits UNIV_I, of n] by (auto simp: create_tag_def split: if_splits)
    then have "rinv rs" "rabst rs = (rabst ?rs)(n \<mapsto> ?t)" using rt.set_law [OF assms(1) fits UNIV_I, of n ?t] by auto
    with 2(3,4) none(1) show ?thesis by auto
  qed (use assms(1) in simp)
qed

lemma tags_step:
  assumes fits: "\<And>rs N. fits rs N" and "rinv (r_refs (is_repo st))" and "act_fold (import_tag E G) tags seen st = (Inr seen', st')"
  shows "same_objects st st' \<and> rinv (r_refs (is_repo st')) \<and> (\<forall>k r. rabst (r_refs (is_repo st)) k = Some r \<longrightarrow> rabst (r_refs (is_repo st')) k = Some r)"
  using assms(2,3)
proof (induction tags arbitrary: seen st)
  case (Cons tag tags)
  obtain short target where tag: "tag = (short, target)" by (cases tag)
  obtain n s1 x st1 where step: "translate_tag E G n target st = (Inr x, st1)" and rest: "act_fold (import_tag E G) tags s1 st1 = (Inr seen', st')"
    using Cons.prems(2) tag by (auto simp: act_bind_eq import_tag_def)
  note one = tag_step [OF Cons.prems(1) fits step]
  show ?case using Cons.IH [OF _ rest] one same_objects_trans by blast
qed simp

lemma ruleset_step:
  assumes "apply_label_ruleset E read_text ruleset st = (r, st')"
  shows "same_objects st st' \<and> r_refs (is_repo st') = r_refs (is_repo st)"
proof -
  have "same_objects st st' \<and> r_refs (is_repo st') = r_refs (is_repo st)"
    if "act_fold (\<lambda>line _ st.
       let glob = trim_white line in
       if glob = [] \<or> hd glob = CHR ''#'' then (Inr (), st)
       else case be_set_path_acl (env_acls E) (r_acls (is_repo st)) \<lparr>pa_glob = glob\<rparr> of
           Inl e \<Rightarrow> (Inl e, st)
         | Inr a \<Rightarrow> (Inr (), st\<lparr>is_repo := (is_repo st)\<lparr>r_acls := a\<rparr>\<rparr>)) ls () st = (r, st')" for ls
    using that
  proof (induction ls arbitrary: st)
    case (Cons l ls)
    then show ?case by (fastforce simp: act_bind_eq same_objects_def Let_def split: if_splits sum.splits)
  qed simp
  with assms show ?thesis by (auto simp: apply_label_ruleset_def act_bind_eq)
qed

text \<open>The passes together, of an import that is no dry run.\<close>

lemma passes_faithful:
  assumes fits: "\<And>rs N. fits rs N" and "can_import X G m" and "importing X G m st" and "rinv (r_refs (is_repo st))"
    and "collect_refs opts G = Inr (branches, tags)" and "distinct (map fst branches)" and "\<not> io_dry_run opts"
    and "import_passes n E G opts read_text st = Some (Inr x, st')"
  shows "importing X G m st' \<and> (\<forall>(short, head) \<in> set branches. \<exists>n t. sanitize_ref_name short = Some n \<and>
    rabst (r_refs (is_repo st')) n = Some (RTimeline t) \<and> mirrors (repo_get E (is_repo st')) G head (tl_head t))"
proof -
  obtain ordered st1 where ord: "topo_commits G (map snd branches) = Inr ordered"
    and tr: "run_fold (\<lambda>g _. run_bind (translate_commit n E G False g) (\<lambda>_. run_return ())) ordered () st = Some (Inr (), st1)"
    and passes: "act_bind (act_fold (import_branch E opts) branches []) (\<lambda>seen. act_bind (act_fold (import_tag E G) tags seen) (\<lambda>_.
      case io_label_ruleset opts of Some ruleset \<Rightarrow> apply_label_ruleset E read_text ruleset | None \<Rightarrow> act_return ())) st1 = (Inr x, st')"
    using assms(5,7,8) by (auto simp: import_passes_def run_bind_eq)
  have st1: "importing X G m st1" "later st st1" using commits_step [OF assms(2,3) tr] by auto
  have inv1: "rinv (r_refs (is_repo st1))" using st1(2) assms(4) by (simp add: later_def)
  obtain seen st2 seen2 st3 where b: "act_fold (import_branch E opts) branches [] st1 = (Inr seen, st2)"
    and t: "act_fold (import_tag E G) tags seen st2 = (Inr seen2, st3)"
    and l: "(case io_label_ruleset opts of Some ruleset \<Rightarrow> apply_label_ruleset E read_text ruleset | None \<Rightarrow> act_return ()) st3 = (Inr x, st')"
    using passes by (auto simp: act_bind_eq)
  note bs = branches_step [OF fits inv1 assms(6) b]
  have inv2: "rinv (r_refs (is_repo st2))" using bs by blast
  note ts = tags_step [OF fits inv2 t]
  have ls: "same_objects st3 st'" "r_refs (is_repo st') = r_refs (is_repo st3)"
    using l ruleset_step by (auto split: option.splits)
  have so: "same_objects st1 st'" using bs ts ls(1) same_objects_trans by blast
  have imp: "importing X G m st'" using st1(1) so by (simp add: importing_def same_objects_def)
  have "\<exists>n t. sanitize_ref_name short = Some n \<and> rabst (r_refs (is_repo st')) n = Some (RTimeline t) \<and> mirrors (repo_get E (is_repo st')) G head (tl_head t)"
    if br: "(short, head) \<in> set branches" for short head
  proof -
    obtain n b t where nbt: "sanitize_ref_name short = Some n" "bole_for_git (is_map st1) head = Some b"
      "rabst (r_refs (is_repo st2)) n = Some (RTimeline t)" "tl_head t = b"
      using bs br by blast
    then have "rabst (r_refs (is_repo st')) n = Some (RTimeline t)" using ts ls(2) by auto
    moreover have "mirrors (repo_get E (is_repo st')) G head b"
      using imp nbt(2) so unfolding importing_def same_objects_def by auto
    ultimately show ?thesis using nbt by blast
  qed
  with imp show ?thesis by blast
qed

end

section \<open>Fuel\<close>

text \<open>With more fuel a translation that ended ends the same way.\<close>

definition below :: "('s, 'a) run \<Rightarrow> ('s, 'a) run \<Rightarrow> bool" where
  "below m m' \<longleftrightarrow> (\<forall>s out. m s = Some out \<longrightarrow> m' s = Some out)"

lemma below_refl [simp]: "below m m"
  by (simp add: below_def)

lemma below_bind: "below m m' \<Longrightarrow> (\<And>x. below (f x) (f' x)) \<Longrightarrow> below (run_bind m f) (run_bind m' f')"
  by (fastforce simp: below_def run_bind_eq)

lemma below_fold: "(\<And>x a. below (f x a) (f' x a)) \<Longrightarrow> below (run_fold f xs a) (run_fold f' xs a)"
  by (induction xs arbitrary: a) (auto intro!: below_bind)

lemma below_entry: "(\<And>g. below (sub g) (sub' g)) \<Longrightarrow> below (translate_entry E G dry sub row es) (translate_entry E G dry sub' row es)"
  unfolding translate_entry_def by (intro below_bind) (auto intro: below_bind split: entry_mode.split)

lemma translate_tree_more: "below (translate_tree n E G dry g) (translate_tree (Suc n) E G dry g)"
proof (induction n arbitrary: g)
  case (Suc n)
  have rows: "below (run_fold (translate_entry E G dry (translate_tree n E G dry)) rows [])
      (run_fold (translate_entry E G dry (translate_tree (Suc n) E G dry)) rows [])" for rows
    by (intro below_fold below_entry Suc.IH)
  have "below (run_bind (run_act (act_lift (find_tree G g))) (\<lambda>rows.
         run_bind (run_fold (translate_entry E G dry (translate_tree n E G dry)) rows []) (\<lambda>es.
         run_bind (run_act (put_or_hash E dry (OTree \<lparr>entries = es\<rparr>))) (\<lambda>i.
           run_act (record_id g (\<lambda>s. s\<lparr>trees_written := trees_written s + 1\<rparr>) i)))))
      (run_bind (run_act (act_lift (find_tree G g))) (\<lambda>rows.
         run_bind (run_fold (translate_entry E G dry (translate_tree (Suc n) E G dry)) rows []) (\<lambda>es.
         run_bind (run_act (put_or_hash E dry (OTree \<lparr>entries = es\<rparr>))) (\<lambda>i.
           run_act (record_id g (\<lambda>s. s\<lparr>trees_written := trees_written s + 1\<rparr>) i)))))"
    by (intro below_bind below_refl rows)
  then show ?case unfolding below_def translate_tree.simps(2) by (simp split: option.splits)
qed (simp add: below_def)

text \<open>The git trees below a git tree.\<close>

definition subtree_rel :: "git_source \<Rightarrow> (git_id \<times> git_id) set" where
  "subtree_rel G = {(h, g). \<exists>rows e. find_tree G g = Inr rows \<and> Inr e \<in> set rows \<and> ge_mode e = ModeTree \<and> h = ge_oid e}"

definition ends :: "('s, 'a) run \<Rightarrow> bool" where
  "ends m \<longleftrightarrow> (\<forall>s. m s \<noteq> None)"

lemma total_simps [simp]: "ends (run_act m)" "ends (run_return x)"
  by (simp_all add: ends_def run_act_def run_return_def)

lemma total_bind: "ends m \<Longrightarrow> (\<And>x. ends (f x)) \<Longrightarrow> ends (run_bind m f)"
  by (auto simp: ends_def run_bind_def split: option.splits sum.splits)

lemma total_fold: "(\<And>x a. x \<in> set xs \<Longrightarrow> ends (f x a)) \<Longrightarrow> ends (run_fold f xs a)"
  by (induction xs arbitrary: a) (auto intro: total_bind)

lemma total_entry:
  assumes "\<And>e. row = Inr e \<Longrightarrow> ge_mode e = ModeTree \<Longrightarrow> ends (sub (ge_oid e))"
  shows "ends (translate_entry E G dry sub row es)"
proof (cases row)
  case (Inl m)
  then show ?thesis by (simp add: ends_def translate_entry_def run_bind_def run_act_def act_lift_def git_err_def)
next
  case (Inr e)
  then have "ends (case ge_mode e of
         ModeTree \<Rightarrow> run_bind (sub (ge_oid e)) (\<lambda>i. run_return (bt_insert (ge_name e) \<lparr>te_id = i, te_kind = KTree\<rparr> es))
       | ModeCommit \<Rightarrow> run_return es
       | ModeBlob \<Rightarrow> run_bind (run_act (translate_blob E G dry (ge_oid e))) (\<lambda>i.
           run_return (bt_insert (ge_name e) \<lparr>te_id = i, te_kind = KBlob\<rparr> es)))"
    using assms by (cases "ge_mode e") (auto intro: total_bind)
  then show ?thesis by (simp add: Inr ends_def translate_entry_def run_bind_def [of "run_act _"] run_act_def act_lift_def git_err_def)
qed

lemma translate_tree_total:
  assumes "\<And>g h. (h, g) \<in> subtree_rel G \<Longrightarrow> rank h < (rank g :: nat)" and "rank g < n"
  shows "ends (translate_tree n E G dry g)"
  using assms(2)
proof (induction n arbitrary: g)
  case (Suc n)
  show ?case
  proof (cases "find_tree G g")
    case (Inl e)
    then show ?thesis by (simp add: ends_def run_bind_def run_act_def act_lift_def split: option.splits)
  next
    case (Inr rows)
    have "ends (translate_entry E G dry (translate_tree n E G dry) row es)" if row: "row \<in> set rows" for row es
    proof (rule total_entry)
      fix e
      assume "row = Inr e" "ge_mode e = ModeTree"
      then have "(ge_oid e, g) \<in> subtree_rel G" using Inr row by (auto simp: subtree_rel_def)
      then have "rank (ge_oid e) < n" using assms(1) Suc.prems by fastforce
      then show "ends (translate_tree n E G dry (ge_oid e))" by (rule Suc.IH)
    qed
    then have "ends (run_bind (run_fold (translate_entry E G dry (translate_tree n E G dry)) rows []) (\<lambda>es.
         run_bind (run_act (put_or_hash E dry (OTree \<lparr>entries = es\<rparr>))) (\<lambda>i.
           run_act (record_id g (\<lambda>s. s\<lparr>trees_written := trees_written s + 1\<rparr>) i))))"
      by (intro total_bind total_fold) simp_all
    then show ?thesis
      by (simp add: Inr ends_def run_bind_def [of "run_act (act_lift _)"] run_act_def [of "act_lift _"] act_lift_def split: option.splits)
  qed
qed simp

text \<open>The number of trees below a tree bounds the depth of the recursion.\<close>

definition tree_rank :: "git_source \<Rightarrow> git_id \<Rightarrow> nat" where
  "tree_rank G g = card {h. (h, g) \<in> (subtree_rel G)\<^sup>+}"

lemma tree_rank_less:
  assumes "acyclic (subtree_rel G)" and "(h, g) \<in> subtree_rel G"
  shows "tree_rank G h < tree_rank G g"
  unfolding tree_rank_def
proof (rule psubset_card_mono)
  show "{x. (x, h) \<in> (subtree_rel G)\<^sup>+} \<subset> {x. (x, g) \<in> (subtree_rel G)\<^sup>+}"
    using assms by (auto simp: acyclic_def intro: trancl.trancl_into_trancl)
qed simp

lemma tree_rank_bound: "tree_rank G g \<le> 2 ^ 160"
proof -
  have "tree_rank G g \<le> card (UNIV :: git_id set)" unfolding tree_rank_def by (rule card_mono) simp_all
  then show ?thesis by (simp add: card_word)
qed

lemma enough_fuel:
  assumes "acyclic (subtree_rel G)" and "2 ^ 160 < n"
  shows "translate_tree n E G dry g = translate_tree (Suc (2 ^ 160)) E G dry g"
proof -
  have tot: "ends (translate_tree (Suc (2 ^ 160)) E G dry g)"
    by (rule translate_tree_total [where rank = "tree_rank G"]) (use tree_rank_less [OF assms(1)] tree_rank_bound [of G g] in auto)
  have "below (translate_tree (Suc (2 ^ 160)) E G dry g) (translate_tree n E G dry g)"
    using assms(2)
  proof (induction n)
    case (Suc n)
    show ?case
    proof (cases "2 ^ 160 < n")
      case True
      then show ?thesis using Suc.IH translate_tree_more [of n E G dry g] unfolding below_def by blast
    next
      case False
      then have "n = 2 ^ 160" using Suc.prems by linarith
      then show ?thesis by simp
    qed
  qed simp
  with tot show ?thesis unfolding below_def ends_def fun_eq_iff by (metis option.exhaust)
qed

lemma commits_total:
  assumes "acyclic (subtree_rel G)" and "2 ^ 160 < n"
  shows "ends (run_fold (\<lambda>g _. run_bind (translate_commit n E G dry g) (\<lambda>_. run_return ())) gs ())"
proof -
  have tree: "ends (translate_tree n E G dry g)" for g
    by (rule translate_tree_total [where rank = "tree_rank G"])
      (use tree_rank_less [OF assms(1)] tree_rank_bound [of G g] assms(2) in \<open>auto intro: le_less_trans\<close>)
  have "ends (translate_commit n E G dry g)" for g
  proof -
    have "ends (run_bind (run_act (act_lift (find_commit G g))) (\<lambda>c.
         run_bind (run_act (act_lift (git_err (gc_tree c)))) (\<lambda>tree_oid.
         run_bind (translate_tree n E G dry tree_oid) (\<lambda>r.
         run_bind (run_act (\<lambda>st. (parent_ids (is_map st) (gc_parents c), st))) (\<lambda>ps.
         run_bind (run_act (act_lift (git_err (gc_author c)))) (\<lambda>a.
         run_bind (run_act (put_or_hash E dry (OSnapshot \<lparr>root = r, parents = ps, author = sig_text a,
             created_at = nonneg_seconds (gs_seconds a), message = commit_text c a\<rparr>))) (\<lambda>i.
           run_act (record_id g (\<lambda>s. s\<lparr>snapshots_written := snapshots_written s + 1\<rparr>) i))))))))"
      by (intro total_bind tree) simp_all
    then show ?thesis unfolding ends_def translate_commit_def by (simp split: option.splits)
  qed
  then show ?thesis by (intro total_fold total_bind) simp_all
qed

lemma passes_total:
  assumes "acyclic (subtree_rel G)" and "2 ^ 160 < n"
  shows "ends (import_passes n E G opts read_text)"
  unfolding import_passes_def by (intro total_bind) (auto intro!: total_bind commits_total [OF assms] split: prod.split)

lemma import_returns:
  assumes "acyclic (subtree_rel G)" and "2 ^ 160 < n"
  shows "\<exists>out. git_import n S E (Inr G) read_text R source dir opts files = Some out"
proof (cases "im_load S (env_codec E) files dir source")
  case (Inr m)
  obtain r st where "import_passes n E G opts read_text \<lparr>is_repo = R, is_map = m, is_summary = empty_summary\<rparr> = Some (r, st)"
    using passes_total [OF assms, of E opts read_text] unfolding ends_def by (metis option.exhaust prod.exhaust)
  then show ?thesis using Inr by (cases r) (simp_all add: git_import_def split: sum.split)
qed (simp add: git_import_def)

text \<open>
  C27. An import ends: when no tree of the git repository contains itself, there is one outcome that the import has with every fuel above the number of git ids, so
  the fuel stands for nothing but the depth of trees, and the import never runs for ever.
\<close>

theorem import_ends:
  assumes "acyclic (subtree_rel G)"
  shows "\<exists>out. \<forall>n > 2 ^ 160. git_import n S E (Inr G) read_text R source dir opts files = Some out"
proof -
  define N :: nat where "N = Suc (2 ^ 160)"
  then have N: "2 ^ 160 < N" by simp
  have commit: "translate_commit n E G dry = translate_commit N E G dry" if "2 ^ 160 < n" for n dry
    by (rule ext)+ (simp only: translate_commit_def enough_fuel [OF assms that] enough_fuel [OF assms N])
  have passes: "import_passes n E G opts read_text = import_passes N E G opts read_text" if "2 ^ 160 < n" for n
    by (simp only: import_passes_def commit [OF that])
  have same: "git_import n S E (Inr G) read_text R source dir opts files = git_import N S E (Inr G) read_text R source dir opts files" if "2 ^ 160 < n" for n
    by (simp only: git_import_def sum.case passes [OF that])
  obtain out where "git_import N S E (Inr G) read_text R source dir opts files = Some out" using import_returns [OF assms N] by blast
  then show ?thesis using same by (intro exI [of _ out]) auto
qed

section \<open>Projection\<close>

context post_order
begin

text \<open>Whatever the search lists lies in a set that holds the start and is closed under parents.\<close>

lemma topo_loop_within:
  assumes "\<And>x y. x \<in> S \<Longrightarrow> y \<in> set (succs x) \<Longrightarrow> y \<in> S"
  shows "q = push \<Longrightarrow> fst ` set stack \<subseteq> S \<Longrightarrow> set res \<subseteq> S \<Longrightarrow> topo_loop q stack V res = Inr out \<Longrightarrow> set out \<subseteq> S"
proof (induction q stack V res rule: topo_loop.induct)
  case (3 q i stack V res)
  show ?case
  proof (cases "i \<in> V")
    case True
    then show ?thesis using 3 by simp
  next
    case False
    then obtain ps where ps: "q (insert i V) i = Inr ps"
      and rest: "topo_loop q (rev (map (\<lambda>p. (p, False)) ps) @ (i, True) # stack) (insert i V) res = Inr out"
      using "3.prems"(4) by (auto simp: bind_res_Inr)
    have "set ps \<subseteq> S" using push_set [of "insert i V" i ps] ps "3.prems"(1,2) assms by auto
    then have "fst ` set (rev (map (\<lambda>p. (p, False)) ps) @ (i, True) # stack) \<subseteq> S" using "3.prems"(2) by auto
    from "3.IH"(2) [OF False ps "3.prems"(1) this "3.prems"(3) rest] show ?thesis .
  qed
qed auto

end

lemma collect_topo_within:
  assumes "collect_topo get starts = Inr out" and "i \<in> set out"
  shows "\<exists>s \<in> set starts. (s, i) \<in> (parent_rel get)\<^sup>*"
proof -
  let ?S = "(parent_rel get)\<^sup>* `` set starts"
  have "set out \<subseteq> ?S"
  proof (rule snapshots.topo_loop_within [OF _ refl])
    show "y \<in> ?S" if "x \<in> ?S" "y \<in> set (get_parents get x)" for x y
    proof -
      have "(x, y) \<in> parent_rel get" using that(2) by (cases "get x") (auto simp: get_parents_def parent_rel_def)
      with that(1) show ?thesis by (auto intro: rtrancl_into_rtrancl)
    qed
  qed (use assms(1) in \<open>auto simp: collect_topo_def\<close>)
  with assms(2) show ?thesis by blast
qed

text \<open>An action keeps a property of the state, whatever its outcome.\<close>

definition keeps :: "('s \<Rightarrow> bool) \<Rightarrow> ('s, 'a) act \<Rightarrow> bool" where
  "keeps I m \<longleftrightarrow> (\<forall>s. I s \<longrightarrow> I (snd (m s)))"

lemma keeps_simps [simp]: "keeps I (act_return x)" "keeps I (act_lift r)"
  by (simp_all add: keeps_def act_return_def act_lift_def)

lemma keeps_bind: "keeps I m \<Longrightarrow> (\<And>x s. fst (m s) = Inr x \<Longrightarrow> keeps I (f x)) \<Longrightarrow> keeps I (act_bind m f)"
proof -
  assume m: "keeps I m" and f: "\<And>x s. fst (m s) = Inr x \<Longrightarrow> keeps I (f x)"
  have "I (snd (act_bind m f s))" if "I s" for s
  proof -
    obtain r s' where ms: "m s = (r, s')" by fastforce
    have "I s'" using m that ms by (auto simp: keeps_def)
    then show ?thesis using f [of s] ms by (cases r) (auto simp: act_bind_def keeps_def)
  qed
  then show ?thesis by (simp add: keeps_def)
qed

lemma keeps_fold: "(\<And>x a. x \<in> set xs \<Longrightarrow> keeps I (f x a)) \<Longrightarrow> keeps I (act_fold f xs a)"
  by (induction xs arbitrary: a) (auto intro: keeps_bind)

text \<open>
  What a projection may write: blobs with contents in \<open>P\<close>, and refs with names in \<open>N\<close>.
\<close>

definition written :: "(bytes \<Rightarrow> bool) \<Rightarrow> ref_name set \<Rightarrow> git_target \<Rightarrow> git_target \<Rightarrow> bool" where
  "written P N T T' \<longleftrightarrow> (\<forall>g d. (g, KindBlob, d) \<in> set (tg_objects T') \<longrightarrow> (g, KindBlob, d) \<in> set (tg_objects T) \<or> P d) \<and>
     (\<forall>f. map_of (tg_refs T') f \<noteq> map_of (tg_refs T) f \<longrightarrow> (\<exists>n \<in> N. f = ''refs/heads/'' @ n \<or> f = ''refs/tags/'' @ n))"

lemma set_AList_update: "set (AList.update k v xs) \<subseteq> insert (k, v) (set xs)"
  by (induction xs) auto

lemma keeps_write_buf: "(k = KindBlob \<Longrightarrow> P data) \<Longrightarrow> keeps (written P N T) (write_buf X k data)"
  using set_AList_update by (fastforce simp: keeps_def written_def write_buf_def Let_def)

lemma keeps_loose_ref:
  "(\<exists>n \<in> N. f = ''refs/heads/'' @ n \<or> f = ''refs/tags/'' @ n) \<Longrightarrow> keeps (written P N T) (write_loose_ref X f sha)"
  by (auto simp: keeps_def written_def write_loose_ref_def update_conv')

lemma keeps_level:
  assumes "\<forall>(p, i) \<in> set flat. \<forall>b. get i = Inr (Some (OBlob b)) \<longrightarrow> P (blob_data b)"
  shows "keeps (written P N T) (write_git_tree_level X get flat)"
  using assms
proof (induction X get flat rule: write_git_tree_level.induct)
  case (1 X get flat)
  have blob: "keeps (written P N T) (write_blob_row X get path i rows)" if "(path, i) \<in> set flat" for path i rows
    using 1(2) that unfolding write_blob_row_def
    by (intro keeps_bind) (auto split: option.split object.split intro!: keeps_bind keeps_write_buf simp: act_lift_def)
  have sub: "keeps (written P N T) (write_git_tree_level X get (sub_flat dir flat))"
    if e: "(path, i) \<in> set flat" "split_once path = Some (dir, rest)" "dir \<notin> seen" for path i dir rest seen rows
  proof -
    have "\<forall>(p, i) \<in> set (sub_flat dir flat). \<forall>b. get i = Inr (Some (OBlob b)) \<longrightarrow> P (blob_data b)"
      using 1(2) by (auto simp: sub_flat_def)
    from 1(1) [OF e(1) refl e(2) refl e(3) this] show ?thesis .
  qed
  show ?case
    unfolding write_git_tree_level.simps [of X get flat]
    by (intro keeps_bind keeps_fold) (auto intro!: keeps_bind keeps_write_buf blob sub split: prod.split option.split)
qed

text \<open>
  The contents that an accessor may see: a blob at a visible path of a snapshot that can be reached from the
  head of a timeline that is listed for the accessor.
\<close>

definition content_visible :: "('o, 'r, 'a) repo_env \<Rightarrow> ('o, 'r, 'a) repository \<Rightarrow> accessor \<Rightarrow> bytes \<Rightarrow> bool" where
  "content_visible E R acc d \<longleftrightarrow> (\<exists>names n t s f p i. list_refs_filtered E R [] acc = Inr names \<and> n \<in> set names \<and>
     rb_get (env_refs E) (r_refs R) n = Inr (Some (RTimeline t)) \<and> (tl_head t, s) \<in> (parent_rel (repo_get E R))\<^sup>* \<and>
     get_snapshot_filtered E R s acc = Inr (Some f) \<and> (p, i) \<in> set (visible_paths f) \<and> repo_get E R i = Inr (Some (OBlob \<lparr>blob_data = d\<rparr>)))"

lemma timeline_heads_Inr:
  assumes "timeline_heads E R names = Inr heads" and "(n, h) \<in> set heads"
  shows "n \<in> set names \<and> (\<exists>t. rb_get (env_refs E) (r_refs R) n = Inr (Some (RTimeline t)) \<and> tl_head t = h)"
proof -
  let ?ok = "\<lambda>heads. \<forall>(n, h) \<in> set heads. n \<in> set names \<and> (\<exists>t. rb_get (env_refs E) (r_refs R) n = Inr (Some (RTimeline t)) \<and> tl_head t = h)"
  have "?ok heads"
  proof (rule fold_res_invariant [OF assms(1) [unfolded timeline_heads_def], where P = ?ok])
    fix x u v
    assume x: "x \<in> set names" "?ok u"
      and v: "bind_res (rb_get (env_refs E) (r_refs R) x) (\<lambda>cur. Inr (case cur of Some (RTimeline t) \<Rightarrow> u @ [(x, tl_head t)] | _ \<Rightarrow> u)) = Inr v"
    then obtain cur where cur: "rb_get (env_refs E) (r_refs R) x = Inr cur" by (auto simp: bind_res_Inr)
    consider t where "cur = Some (RTimeline t)" "v = u @ [(x, tl_head t)]" | "v = u"
      using v cur by (cases cur; cases "the cur") auto
    then show "?ok v" using x cur by cases auto
  qed simp
  from bspec [OF this assms(2)] show ?thesis by simp
qed

lemma keeps_snapshot:
  assumes names: "list_refs_filtered E R [] acc = Inr names" and heads: "timeline_heads E R names = Inr heads"
    and ord: "collect_topo (repo_get E R) (map snd heads) = Inr ordered" and s: "s \<in> set ordered"
    and L: "repo_lattice E R = Inr L" and rules: "repo_rules E R = Inr rules"
  shows "keeps (written (content_visible E R acc) N T) (project_snapshot X E R L rules acc s ids)"
proof -
  obtain n h where h: "(n, h) \<in> set heads" "(h, s) \<in> (parent_rel (repo_get E R))\<^sup>*"
    using collect_topo_within [OF ord s] by auto
  obtain t where t: "n \<in> set names" "rb_get (env_refs E) (r_refs R) n = Inr (Some (RTimeline t))" "tl_head t = h"
    using timeline_heads_Inr [OF heads h(1)] by blast
  have "keeps (written (content_visible E R acc) N T) (write_git_tree_level X (repo_get E R) flat)"
    if obj: "repo_get E R s = Inr obj" "as_snapshot obj = Some sn" and flat: "walk_tree_filtered (repo_get E R) L rules (root sn) [] acc [] = Inr flat" for obj sn flat
  proof (rule keeps_level, intro ballI, clarify)
    fix p i b
    assume pi: "(p, i) \<in> set flat" "repo_get E R i = Inr (Some (OBlob b))"
    define f where "f = \<lparr>fs_id = s, fs_author = author sn, fs_created_at = created_at sn, fs_message = message sn, fs_parents = parents sn, visible_paths = flat\<rparr>"
    have "get_snapshot_filtered E R s acc = Inr (Some f)" using obj flat L rules by (simp add: get_snapshot_filtered_def f_def)
    then show "content_visible E R acc (blob_data b)"
      unfolding content_visible_def using names t h(2) pi by (intro exI [of _ names] exI [of _ n] exI [of _ t] exI [of _ s] exI [of _ f] exI [of _ p] exI [of _ i]) (simp add: f_def)
  qed
  then show ?thesis
    unfolding project_snapshot_def
    by (intro keeps_bind) (auto split: option.split intro!: keeps_bind keeps_write_buf simp: act_lift_def)
qed

lemma keeps_passes: "keeps (written (content_visible E R acc) (case list_refs_filtered E R [] acc of Inr names \<Rightarrow> set names | Inl _ \<Rightarrow> {}) T) (project_passes X E R acc)"
proof (cases "list_refs_filtered E R [] acc")
  case (Inl e)
  then show ?thesis by (simp add: keeps_def project_passes_def act_bind_def act_lift_def)
next
  case names: (Inr names)
  let ?I = "written (content_visible E R acc) (set names) T"
  have branch: "keeps ?I (project_branch X ids x u)" if "x \<in> set heads" "timeline_heads E R names = Inr heads" for ids x u heads
    using timeline_heads_Inr [OF that(2)] that(1) unfolding project_branch_def
    by (auto split: option.split prod.split intro!: keeps_loose_ref)
  have tag: "keeps ?I (project_tag X E R ids n u)" if "n \<in> set names" for ids n u
    using that unfolding project_tag_def
    by (intro keeps_bind) (auto split: option.split ref.split intro!: keeps_bind keeps_loose_ref keeps_write_buf)
  have head: "keeps ?I (set_head ids heads)" for ids heads
    by (auto simp: keeps_def set_head_def written_def split: option.split)
  show ?thesis
    unfolding project_passes_def names sum.case
    by (intro keeps_bind keeps_fold)
      (auto simp: act_lift_def names intro!: keeps_snapshot [OF names] branch tag head)
qed

text \<open>
  C9. A projection leaks nothing through files: whatever a projection to git does, and also when it fails on the way, the blobs it adds to the git repository
  are contents that the accessor may see, namely blobs at visible paths of snapshots reachable from visible timelines,
  the refs it writes are named after refs visible to the accessor, and no other git repository is touched.
\<close>

theorem projection_confined:
  assumes "project_impl X S E R target acc map_dir H = (r, H')"
    and "map_of (ho_git H) target = None \<and> T = gx_init X \<or> map_of (ho_git H) target = Some (Inr T)"
  shows "\<exists>T'. map_of (ho_git H') = (map_of (ho_git H))(target \<mapsto> Inr T') \<and>
    (\<forall>g d. (g, KindBlob, d) \<in> set (tg_objects T') \<longrightarrow> (g, KindBlob, d) \<in> set (tg_objects T) \<or> content_visible E R acc d) \<and>
    (\<forall>f. map_of (tg_refs T') f \<noteq> map_of (tg_refs T) f \<longrightarrow>
      (\<exists>names n. list_refs_filtered E R [] acc = Inr names \<and> n \<in> set names \<and> (f = ''refs/heads/'' @ n \<or> f = ''refs/tags/'' @ n)))"
proof -
  obtain r1 T' where p: "project_passes X E R acc T = (r1, T')" by fastforce
  have "written (content_visible E R acc) (case list_refs_filtered E R [] acc of Inr names \<Rightarrow> set names | Inl _ \<Rightarrow> {}) T T'"
  proof -
    have "written P N T T" for P N by (simp add: written_def)
    with keeps_passes [of E R acc T X] show ?thesis unfolding keeps_def using p by (metis snd_conv)
  qed
  moreover have "ho_git H' = AList.update target (Inr T') (ho_git H)"
  proof -
    have "(case map_of (ho_git H) target of None \<Rightarrow> Inr (gx_init X) | Some r \<Rightarrow> r) = Inr T" using assms(2) by auto
    then show ?thesis using assms(1) p by (cases r1; cases map_dir) (auto simp: project_impl_def Let_def split: sum.splits)
  qed
  then have "map_of (ho_git H') = (map_of (ho_git H))(target \<mapsto> Inr T')" by (simp add: update_conv')
  ultimately show ?thesis
    by (cases "list_refs_filtered E R [] acc") (auto simp: written_def intro!: exI [of _ T'])
qed

section \<open>Imports are faithful\<close>

text \<open>
  A repository that can take an import, with the map loaded before it: stored objects lie under their hashes, everything stored can be read, no two of the
  objects involved collide, the entries of git trees have the kinds they claim, and what the map says is true.
\<close>

definition import_ready ::
  "('o \<Rightarrow> bool) \<Rightarrow> ('o \<Rightarrow> oid \<Rightarrow> bytes option) \<Rightarrow> ('o, 'r, 'a) repo_env \<Rightarrow> ('o, 'r, 'a) repository \<Rightarrow> git_source \<Rightarrow> identity_map \<Rightarrow> bool" where
  "import_ready oinv oabst E R G m \<longleftrightarrow> ocodec_ok (env_codec E) \<and> oinv (r_objects R) \<and>
     (\<forall>i data. oabst (r_objects R) i = Some data \<longrightarrow> object_id (env_codec E) data = i) \<and> readable (repo_get E R) \<and>
     collision_free (env_codec E) (ran (oabst (r_objects R))) (imported_objects (env_codec E) G m) \<and> blobs_are_blobs G \<and>
     (\<forall>g b. bole_for_git m g = Some b \<longrightarrow> mirrors (repo_get E R) G g b)"

context repo_stores
begin

lemma import_ready_start:
  assumes "import_ready oinv oabst E R G m" and "\<And>data. storable data"
  shows "\<exists>X. can_import X G m \<and> importing X G m \<lparr>is_repo = R, is_map = m, is_summary = sm\<rparr>"
proof -
  let ?C = "env_codec E"
  have ready: "ocodec_ok ?C" "oinv (r_objects R)" "st.addressed ?C (r_objects R)" "readable (repo_get E R)"
    "collision_free ?C (ran (oabst (r_objects R))) (imported_objects ?C G m)" "blobs_are_blobs G"
    "\<And>g b. bole_for_git m g = Some b \<Longrightarrow> mirrors (repo_get E R) G g b"
    using assms(1) by (auto simp: import_ready_def st.addressed_def)
  obtain X where X: "ran (oabst (r_objects R)) \<subseteq> X" "inj_on (object_id ?C) X"
    "\<And>obj. obj \<in> imported_objects ?C G m \<Longrightarrow> \<exists>data \<in> X. serialize ?C obj = Inr data"
    using collision_freeD [OF ready(5)] by metis
  have "can_import X G m" using ready X assms(2) by (auto simp: can_import_def)
  moreover have "importing X G m \<lparr>is_repo = R, is_map = m, is_summary = sm\<rparr>"
    using ready X(1) by (auto simp: importing_def st.good_def extends_def intro: translated.known)
  ultimately show ?thesis by blast
qed

text \<open>A tag that is imported stands at a name that holds no timeline.\<close>

lemma tags_apart:
  assumes fits: "\<And>rs N. fits rs N" and "rinv (r_refs (is_repo st))" and "act_fold (import_tag E G) tags seen st = (Inr seen', st')"
    and "(short, target) \<in> set tags" and "bole_for_git (is_map st) target = Some b" and "sanitize_ref_name short = Some n"
  shows "rabst (r_refs (is_repo st)) n \<noteq> Some (RTimeline t)"
  using assms(2-5)
proof (induction tags arbitrary: seen st)
  case (Cons tag tags)
  obtain sh tg where tag: "tag = (sh, tg)" by (cases tag)
  obtain k s1 x st1 where name: "sanitized_ref sh seen = Inr (k, s1)" and step: "translate_tag E G k tg st = (Inr x, st1)"
    and rest: "act_fold (import_tag E G) tags s1 st1 = (Inr seen', st')"
    using Cons.prems(2) tag by (auto simp: act_bind_eq import_tag_def)
  note one = tag_step [OF Cons.prems(1) fits step]
  show ?case
  proof (cases "(sh, tg) = (short, target)")
    case True
    then have "k = n" using name assms(6) by (simp add: sanitized_ref_Inr)
    then have "\<exists>found. get_tag (env_refs E) (r_refs (is_repo st)) n = Inr found"
      using step True Cons.prems(4) by (auto simp: translate_tag_def act_bind_eq)
    then show ?thesis using rt.get_law [OF Cons.prems(1) fits UNIV_I, of n] by (auto simp: get_tag_def)
  next
    case False
    then have "(short, target) \<in> set tags" using Cons.prems(3) tag by auto
    then show ?thesis using Cons.IH [OF _ rest] one Cons.prems(4) by (auto simp: same_objects_def)
  qed
qed simp

lemma clash_fails:
  assumes fits: "\<And>rs N. fits rs N" and "can_import X G m" and "importing X G m st" and "rinv (r_refs (is_repo st))"
    and "collect_refs opts G = Inr (branches, tags)" and "distinct (map fst branches)" and "\<not> io_dry_run opts"
    and "acyclic {(x, p). p \<in> set (commit_parents G x)}" and "(short, head) \<in> set branches" and "(short, target) \<in> set tags"
    and "target \<in> {(x, p). p \<in> set (commit_parents G x)}\<^sup>* `` (snd ` set branches)"
  shows "import_passes n E G opts read_text st \<noteq> Some (Inr x, st')"
proof
  assume "import_passes n E G opts read_text st = Some (Inr x, st')"
  then obtain ordered st1 seen st2 seen2 st3 where ord: "topo_commits G (map snd branches) = Inr ordered"
    and tr: "run_fold (\<lambda>g _. run_bind (translate_commit n E G False g) (\<lambda>_. run_return ())) ordered () st = Some (Inr (), st1)"
    and b: "act_fold (import_branch E opts) branches [] st1 = (Inr seen, st2)"
    and t: "act_fold (import_tag E G) tags seen st2 = (Inr seen2, st3)"
    using assms(5,7) by (auto simp: import_passes_def run_bind_eq act_bind_eq)
  have st1: "later st st1" "\<forall>g \<in> set ordered. \<exists>b. bole_for_git (is_map st1) g = Some b"
    using commits_step [OF assms(2,3) tr] by auto
  have inv1: "rinv (r_refs (is_repo st1))" using st1(1) assms(4) by (simp add: later_def)
  note bs = branches_step [OF fits inv1 assms(6) b]
  have "target \<in> set ordered"
    using commits.topo_order [of G "map snd branches"] assms(8,11) ord by (simp add: topo_commits_def commits.edges_def)
  then obtain b where "bole_for_git (is_map st2) target = Some b" using st1(2) bs by (auto simp: same_objects_def)
  moreover obtain k tl where "sanitize_ref_name short = Some k" "rabst (r_refs (is_repo st2)) k = Some (RTimeline tl)"
    using bs assms(9) by blast
  ultimately show False using tags_apart [OF fits _ t assms(10)] bs by blast
qed

end

lemma import_Inr:
  assumes "git_import n S E (Inr G) read_text R source dir opts files = Some (Inr sm, R', files')" and "\<not> io_dry_run opts"
    and "im_load S (env_codec E) files dir source = Inr m"
  shows "\<exists>x st'. import_passes n E G opts read_text \<lparr>is_repo = R, is_map = m, is_summary = empty_summary\<rparr> = Some (Inr x, st') \<and>
    R' = is_repo st' \<and> im_save S (env_codec E) (is_map st') dir source files = Inr files'"
  using assms by (auto simp: git_import_def split: option.splits sum.splits)

text \<open>
  C10. An import is faithful. Let the import not be a dry run, the branches have different names, the store be readable and addressed by content, the backend store every object and hold every
  ref name (as the one in memory does), no two of the objects involved collide, and let the identity map that is loaded be true of the repository and of the git repository: it is empty
  on a first import, and one that an import saved is true as long as nothing stored is removed; a map that a projection wrote need not be. After an import that succeeds every selected branch is then a
  timeline under its sanitised name, and its head mirrors the commit of the branch, that is, the stored snapshot has the author, time and message of the
  commit, a tree with the same names and contents, and parents that mirror the parents, in order, and so on;
  and every correspondence in the map that is saved is true in this sense.
\<close>

theorem import_faithful:
  assumes "repo_stores oinv oabst (\<lambda>_. True) rinv (\<lambda>_ _. True) rabst E" and "im_load S (env_codec E) files dir source = Inr m"
    and "import_ready oinv oabst E R G m" and "rinv (r_refs R)"
    and "collect_refs opts G = Inr (branches, tags)" and "distinct (map fst branches)" and "\<not> io_dry_run opts"
    and "git_import n S E (Inr G) read_text R source dir opts files = Some (Inr sm, R', files')"
  shows "(\<forall>(short, head) \<in> set branches. \<exists>name t. sanitize_ref_name short = Some name \<and>
      rabst (r_refs R') name = Some (RTimeline t) \<and> mirrors (repo_get E R') G head (tl_head t)) \<and>
    (\<exists>m'. im_save S (env_codec E) m' dir source files = Inr files' \<and> (\<forall>g b. bole_for_git m' g = Some b \<longrightarrow> mirrors (repo_get E R') G g b))"
proof -
  let ?st = "\<lparr>is_repo = R, is_map = m, is_summary = empty_summary\<rparr>"
  obtain x st' where st': "import_passes n E G opts read_text ?st = Some (Inr x, st')" "R' = is_repo st'"
    "im_save S (env_codec E) (is_map st') dir source files = Inr files'"
    using import_Inr [OF assms(8,7,2)] by blast
  obtain X where X: "repo_stores.can_import (\<lambda>_. True) E X G m" "repo_stores.importing oinv oabst E X G m ?st"
    using repo_stores.import_ready_start [OF assms(1,3) TrueI] by blast
  have out: "repo_stores.importing oinv oabst E X G m st' \<and> (\<forall>(short, head) \<in> set branches. \<exists>n t. sanitize_ref_name short = Some n \<and>
    rabst (r_refs (is_repo st')) n = Some (RTimeline t) \<and> mirrors (repo_get E (is_repo st')) G head (tl_head t))"
    by (rule repo_stores.passes_faithful [OF assms(1) TrueI X _ assms(5-7) st'(1)]) (simp add: assms(4))
  then have "\<forall>g b. bole_for_git (is_map st') g = Some b \<longrightarrow> mirrors (repo_get E (is_repo st')) G g b"
    unfolding repo_stores.importing_def [OF assms(1)] by blast
  with out st'(2,3) show ?thesis by blast
qed

text \<open>
  C40. A git repository with a tag named like a branch cannot be imported. Under the conditions under which an import is faithful, let a branch be selected and a tag have its name and
  point at a commit that can be reached from the selected branches. An import that is not a dry run then returns an error, whatever the repository holds, although git keeps the two names
  apart and the code checks for clashes of names: the check lets two refs with one short name pass, and the branch has already become a timeline under the name that the tag wants.
\<close>

theorem tag_named_like_branch:
  assumes "repo_stores oinv oabst (\<lambda>_. True) rinv (\<lambda>_ _. True) rabst E" and "im_load S (env_codec E) files dir source = Inr m"
    and "import_ready oinv oabst E R G m" and "rinv (r_refs R)" and "acyclic {(x, p). p \<in> set (commit_parents G x)}"
    and "collect_refs opts G = Inr (branches, tags)" and "distinct (map fst branches)" and "\<not> io_dry_run opts"
    and "(short, head) \<in> set branches" and "(short, target) \<in> set tags"
    and "target \<in> {(x, p). p \<in> set (commit_parents G x)}\<^sup>* `` (snd ` set branches)"
    and "acyclic (subtree_rel G)" and "2 ^ 160 < n"
  shows "\<exists>e R' files'. git_import n S E (Inr G) read_text R source dir opts files = Some (Inl e, R', files')"
proof -
  let ?st = "\<lparr>is_repo = R, is_map = m, is_summary = empty_summary\<rparr>"
  have "git_import n S E (Inr G) read_text R source dir opts files \<noteq> Some (Inr sm, R', files')" for sm R' files'
  proof
    assume "git_import n S E (Inr G) read_text R source dir opts files = Some (Inr sm, R', files')"
    then obtain x st' where st': "import_passes n E G opts read_text ?st = Some (Inr x, st')"
      using import_Inr [OF _ assms(8,2)] by blast
    obtain X where X: "repo_stores.can_import (\<lambda>_. True) E X G m" "repo_stores.importing oinv oabst E X G m ?st"
      using repo_stores.import_ready_start [OF assms(1,3) TrueI] by blast
    have "import_passes n E G opts read_text ?st \<noteq> Some (Inr x, st')"
      by (rule repo_stores.clash_fails [OF assms(1) TrueI X _ assms(6-8,5,9-11)]) (simp add: assms(4))
    with st' show False by simp
  qed
  moreover obtain r R' files' where "git_import n S E (Inr G) read_text R source dir opts files = Some (r, R', files')"
    using import_returns [OF assms(12,13), of S E read_text R source dir opts files] by auto
  ultimately show ?thesis by (cases r) auto
qed

section \<open>Instances\<close>

text \<open>A git repository with one commit of one file, and the three objects of its translation.\<close>

definition tiny_sig :: git_sig where
  "tiny_sig = \<lparr>gs_name = ''Ada'', gs_email = ''a@x'', gs_seconds = 5\<rparr>"

definition tiny_commit :: git_commit where
  "tiny_commit = \<lparr>gc_tree = Inr 2, gc_parents = [], gc_author = Inr tiny_sig, gc_committer = None, gc_message = ''m''\<rparr>"

definition tiny_object :: "git_id \<Rightarrow> string + git_object" where
  "tiny_object g = (if g = 1 then Inr \<lparr>go_data = [7], go_view = VBlob\<rparr>
     else if g = 2 then Inr \<lparr>go_data = [], go_view = VTree [Inr \<lparr>ge_mode = ModeBlob, ge_name = ''f'', ge_oid = 1\<rparr>]\<rparr>
     else if g = 3 then Inr \<lparr>go_data = [], go_view = VCommit tiny_commit\<rparr>
     else Inl ''missing'')"

definition tiny_git :: "string list \<Rightarrow> git_source" where
  "tiny_git names = \<lparr>gs_references = Inr (map (\<lambda>n. Inr (n, Inr 3)) names), gs_object = tiny_object, gs_direct = (\<lambda>_. None), gs_mismatch = (\<lambda>_ _. [])\<rparr>"

definition tiny_objects :: "object list" where
  "tiny_objects = [OBlob \<lparr>blob_data = [7]\<rparr>, OTree \<lparr>entries = [(''f'', \<lparr>te_id = 0, te_kind = KBlob\<rparr>)]\<rparr>,
     OSnapshot \<lparr>root = 1, parents = [], author = ''Ada <a@x>'', created_at = 5, message = ''m''\<rparr>]"

abbreviation tiny_env :: "(mem_store, mem_refs, mem_acl) repo_env" where
  "tiny_env \<equiv> memory_env (table_codec tiny_objects) plain_scheme"

definition tiny_sidecar :: sidecar where
  "tiny_sidecar = \<lparr>sc_enc = (\<lambda>_. Inr []), sc_dec = (\<lambda>_. Inl []), sc_canonical = (\<lambda>p. p)\<rparr>"

lemma tiny_ids: "map (obj_id (table_codec tiny_objects)) tiny_objects = [0, 1, 2]"
  by code_simp

lemma tiny_find: "find_commit (tiny_git names) g = (if g = 3 then Inr tiny_commit else find_commit (tiny_git names) g)"
  "commit_parents (tiny_git names) g = []"
  "find_tree (tiny_git names) g = Inr rows \<Longrightarrow> rows = [Inr \<lparr>ge_mode = ModeBlob, ge_name = ''f'', ge_oid = 1\<rparr>]"
  by (auto simp: find_commit_def find_tree_def commit_parents_def tiny_git_def tiny_object_def tiny_commit_def git_err_def split: if_splits)

lemma tiny_renders:
  assumes "renders rel (tiny_git names) g obj" and "\<And>h b. rel h b \<Longrightarrow> (h = 1 \<longrightarrow> b = 0) \<and> (h = 2 \<longrightarrow> b = 1)"
  shows "(g, obj) \<in> set (zip [1, 2, 3] tiny_objects)"
  using assms(1)
proof cases
  case (renders_blob ob)
  then show ?thesis by (auto simp: tiny_git_def tiny_object_def tiny_objects_def split: if_splits)
next
  case (renders_tree ob rows es)
  then have g: "g = 2" and rows: "rows_to rel [Inr \<lparr>ge_mode = ModeBlob, ge_name = ''f'', ge_oid = 1\<rparr>] [] es"
    by (auto simp: tiny_git_def tiny_object_def split: if_splits)
  from rows have "es = [(''f'', \<lparr>te_id = 0, te_kind = KBlob\<rparr>)]"
    using assms(2) by (auto elim!: rows_to.cases [of rel "_ # _"] rows_to.cases [of rel "[]"])
  with g renders_tree show ?thesis by (simp add: tiny_objects_def)
next
  case (renders_commit ob c t a r ps)
  then have g: "g = 3" and c: "c = tiny_commit"
    by (auto simp: tiny_git_def tiny_object_def split: if_splits)
  then have "r = 1" "ps = []" "a = tiny_sig" using renders_commit assms(2) [of t r] by (auto simp: tiny_commit_def)
  moreover have "commit_snapshot_of tiny_commit tiny_sig 1 [] = \<lparr>root = 1, parents = [], author = ''Ada <a@x>'', created_at = 5, message = ''m''\<rparr>"
    by code_simp
  ultimately show ?thesis using g c renders_commit by (simp add: tiny_objects_def)
qed

lemma tiny_translated: "translated (table_codec tiny_objects) (tiny_git names) im_new g b \<Longrightarrow> (g = 1 \<longrightarrow> b = 0) \<and> (g = 2 \<longrightarrow> b = 1)"
proof (induction rule: translated.induct)
  case (fresh g obj)
  have "(g, obj) \<in> set (zip [1, 2, 3] tiny_objects)" by (rule tiny_renders [OF fresh(2)]) auto
  then show ?case using tiny_ids by (auto simp: tiny_objects_def)
qed (simp add: bole_for_git_def im_new_def)

lemma tiny_ready: "import_ready mem_inv map_of tiny_env memory_repo (tiny_git names) im_new"
proof -
  have "imported_objects (table_codec tiny_objects) (tiny_git names) im_new \<subseteq> set tiny_objects"
  proof
    fix obj
    assume "obj \<in> imported_objects (table_codec tiny_objects) (tiny_git names) im_new"
    then obtain g where "renders (translated (table_codec tiny_objects) (tiny_git names) im_new) (tiny_git names) g obj"
      by (auto simp: imported_objects_def)
    from tiny_renders [OF this tiny_translated] show "obj \<in> set tiny_objects" by (rule set_zip_rightD)
  qed
  then have "collision_free (table_codec tiny_objects) {} (imported_objects (table_codec tiny_objects) (tiny_git names) im_new)"
    by (intro table_collision_free) (simp_all add: tiny_objects_def)
  moreover have "blobs_are_blobs (tiny_git names)"
    by (auto simp: blobs_are_blobs_def tiny_git_def tiny_object_def split: if_splits)
  moreover have "readable (repo_get tiny_env memory_repo)"
    unfolding memory_env_simps by (rule readable_memory) (simp add: memory_repo_def)
  ultimately show ?thesis
    by (simp add: import_ready_def table_codec_ok memory_repo_def mem_inv_def bole_for_git_def im_new_def)
qed

lemma tiny_acyclic: "acyclic {(x, p). p \<in> set (commit_parents (tiny_git names) x)}" "acyclic (subtree_rel (tiny_git names))"
proof -
  have "{(x, p). p \<in> set (commit_parents (tiny_git names) x)} = {}" "subtree_rel (tiny_git names) = {}"
    using tiny_find(2,3) by (auto simp: subtree_rel_def dest!: tiny_find(3))
  then show "acyclic {(x, p). p \<in> set (commit_parents (tiny_git names) x)}" "acyclic (subtree_rel (tiny_git names))"
    by (simp_all add: acyclic_def)
qed

theorem import_ends_witness:
  "\<exists>out. git_import (2 ^ 160 + 1) tiny_sidecar tiny_env (Inr (tiny_git [''refs/heads/main''])) Inr memory_repo ''g'' ''d'' default_options [] = Some out"
proof -
  obtain out where "\<forall>n > 2 ^ 160. git_import n tiny_sidecar tiny_env (Inr (tiny_git [''refs/heads/main''])) Inr memory_repo ''g'' ''d'' default_options [] = Some out"
    using import_ends [OF tiny_acyclic(2)] by blast
  moreover have "(2 ^ 160 :: nat) < 2 ^ 160 + 1" by simp
  ultimately show ?thesis by blast
qed

lemma tiny_import:
  "case git_import 3 tiny_sidecar tiny_env (Inr (tiny_git [''refs/heads/.main''])) Inr memory_repo ''g'' ''d'' default_options [] of
     Some (Inr _, _) \<Rightarrow> True | _ \<Rightarrow> False"
  by code_simp

theorem import_faithful_witness:
  "\<exists>sm R' files' t. git_import 3 tiny_sidecar tiny_env (Inr (tiny_git [''refs/heads/.main''])) Inr memory_repo ''g'' ''d'' default_options [] = Some (Inr sm, R', files') \<and>
     map_of (r_refs R') ''_main'' = Some (RTimeline t) \<and> mirrors (repo_get tiny_env R') (tiny_git [''refs/heads/.main'']) 3 (tl_head t)"
proof -
  obtain sm R' files' where imp: "git_import 3 tiny_sidecar tiny_env (Inr (tiny_git [''refs/heads/.main''])) Inr memory_repo ''g'' ''d'' default_options [] = Some (Inr sm, R', files')"
    using tiny_import by (auto split: option.splits sum.splits prod.splits)
  have refs: "collect_refs default_options (tiny_git [''refs/heads/.main'']) = Inr ([(''.main'', 3)], [])" by code_simp
  have san: "sanitize_ref_name ''.main'' = Some ''_main''" by code_simp
  have "im_load tiny_sidecar (env_codec tiny_env) [] ''d'' ''g'' = Inr im_new" by (simp add: im_load_def)
  from import_faithful [OF memrepo.repo_stores_axioms this tiny_ready _ refs _ _ imp] imp san
  show ?thesis by (auto simp: memory_repo_def mr_inv_def default_options_def)
qed

theorem tag_named_like_branch_witness:
  "\<exists>e R' files'. git_import (2 ^ 160 + 1) tiny_sidecar tiny_env (Inr (tiny_git [''refs/heads/v1'', ''refs/tags/v1''])) Inr memory_repo ''g'' ''d'' default_options [] =
     Some (Inl e, R', files')"
proof -
  let ?G = "tiny_git [''refs/heads/v1'', ''refs/tags/v1'']"
  have refs: "collect_refs default_options ?G = Inr ([(''v1'', 3)], [(''v1'', 3)])" by code_simp
  have load: "im_load tiny_sidecar (env_codec tiny_env) [] ''d'' ''g'' = Inr im_new" by (simp add: im_load_def)
  have inv: "mr_inv (r_refs memory_repo)" by (simp add: memory_repo_def mr_inv_def)
  have fuel: "(2 ^ 160 :: nat) < 2 ^ 160 + 1" by simp
  have "distinct (map fst [(''v1'', 3 :: git_id)])" "\<not> io_dry_run default_options" by (simp_all add: default_options_def)
  moreover have "(''v1'', 3) \<in> set [(''v1'', 3 :: git_id)]" by simp
  moreover have "3 \<in> {(x, p). p \<in> set (commit_parents ?G x)}\<^sup>* `` (snd ` set [(''v1'', 3)])" by auto
  ultimately show ?thesis
    using tag_named_like_branch [OF memrepo.repo_stores_axioms load tiny_ready inv tiny_acyclic(1) refs _ _ _ _ _ tiny_acyclic(2) fuel] by blast
qed

text \<open>The repository that the import makes, projected back.\<close>

definition tiny_repo :: "(mem_store, mem_refs, mem_acl) repository" where
  "tiny_repo = memory_repo\<lparr>r_objects := [(0, [0]), (1, [1]), (2, [2])],
     r_refs := [(''main'', RTimeline \<lparr>tl_head = 2, tl_policy = Unrestricted, tl_created_at = 0, tl_kind = ''persistent'', tl_expires_at = None\<rparr>)]\<rparr>"

definition tiny_gix :: gix where
  "tiny_gix = \<lparr>gx_hash = (\<lambda>k d. of_nat (length d)), gx_init = \<lparr>tg_objects = [], tg_refs = [], tg_head = []\<rparr>, gx_os_error = []\<rparr>"

theorem projection_confined_witness:
  "\<exists>r H' T'. project_impl tiny_gix tiny_sidecar tiny_env tiny_repo ''out'' writer None \<lparr>ho_git = [], ho_files = []\<rparr> = (r, H') \<and>
     map_of (ho_git H') ''out'' = Some (Inr T') \<and> {d. \<exists>g. (g, KindBlob, d) \<in> set (tg_objects T')} \<subseteq> {d. content_visible tiny_env tiny_repo writer d}"
proof -
  obtain r H' where p: "project_impl tiny_gix tiny_sidecar tiny_env tiny_repo ''out'' writer None \<lparr>ho_git = [], ho_files = []\<rparr> = (r, H')" by fastforce
  obtain T' where "map_of (ho_git H') = [''out'' \<mapsto> Inr T']"
    "\<forall>g d. (g, KindBlob, d) \<in> set (tg_objects T') \<longrightarrow> (g, KindBlob, d) \<in> set (tg_objects (gx_init tiny_gix)) \<or> content_visible tiny_env tiny_repo writer d"
    using projection_confined [OF p, of "gx_init tiny_gix"] by auto
  with p show ?thesis by (auto simp: tiny_gix_def)
qed

end
