(* ===== verification/Spec2Isabelle.thy ===== *)
theory Spec2Isabelle
  imports Packed_Backend Ref_Disk Repository_Views Sync_Laws Workspace Secret_Laws Search_Laws Collab_Laws History_Laws Hub_Laws Api_Laws Git_Laws
begin

text \<open>
  This is a verification of bole, a version control system written in Rust. A bole repository is a content-addressed store of objects, a
  store of named refs that point into it, a store of protection rules, and a list of policy hooks that every advance of a
  timeline has to pass. What a caller sees and may change is decided by labels on paths, timelines and secrets, and by the clearances of
  an accessor. Repositories exchange objects with each other, through hubs, with git repositories, and serve an HTTP API. Developers sign
  profiles, trust edges, proposals, posts and repository records; these are objects and refs of a repository too.

  \<^bold>\<open>The parts and the theories.\<close> Paths are below \<^verbatim>\<open>src/\<close> of the repository unless they start with \<^verbatim>\<open>bole-api\<close>. A theory with a name
  ending in \<open>Laws\<close> proves what the theory of the same stem defines.

  \<^item> \<^verbatim>\<open>Prelude\<close>: machine integers, the error enum of \<^verbatim>\<open>error.rs\<close>, results as sums, ordered and unordered maps as association lists, the
    lemma on worklists that the graph searches share.
  \<^item> \<^verbatim>\<open>Object_Id\<close>, \<^verbatim>\<open>Objects\<close>, \<^verbatim>\<open>Object_Store\<close>, \<^verbatim>\<open>Object_Writes\<close>: ids (\<^verbatim>\<open>object/id.rs\<close>), the thirteen kinds of object and their codec (\<^verbatim>\<open>object/\<close>,
    \<^verbatim>\<open>codec.rs\<close>), the storage trait, the store over it and the memory backend (\<^verbatim>\<open>store/\<close>). The contract of a backend is the locale \<open>storage_backend\<close>.
  \<^item> \<^verbatim>\<open>Pack\<close>, \<^verbatim>\<open>Packed_Backend\<close>: the pack format, and the loose and packed storage on disk with repacking and sweeping (\<^verbatim>\<open>store/pack.rs\<close>,
    \<^verbatim>\<open>store/disk.rs\<close>, \<^verbatim>\<open>store/packed.rs\<close>).
  \<^item> \<^verbatim>\<open>Glob\<close>, \<^verbatim>\<open>Lattice\<close>, \<^verbatim>\<open>Access\<close>, \<^verbatim>\<open>Acl_Store\<close>: the glob matcher, the label lattice, clearances with the evaluator, and the stored rules (\<^verbatim>\<open>acl/\<close>).
  \<^item> \<^verbatim>\<open>Refs\<close>, \<^verbatim>\<open>Ref_Disk\<close>: ref names, tags, timelines, transactions, the memory backend, and refs as files with a journal (\<^verbatim>\<open>refs/\<close>).
    The contract is the locale \<open>ref_table\<close>; both backends are shown to meet it.
  \<^item> \<^verbatim>\<open>Object_Graph\<close>, \<^verbatim>\<open>Tree_Walk\<close>, \<^verbatim>\<open>Merge\<close>: ancestry, common ancestors, marking and closures (\<^verbatim>\<open>acl/hook.rs\<close>, \<^verbatim>\<open>repo/merge.rs\<close>, \<^verbatim>\<open>sync/negotiate.rs\<close>),
    the bounded walk over nested trees (\<^verbatim>\<open>repo/mod.rs\<close>), and the three-way merge.
  \<^item> \<^verbatim>\<open>Policy\<close>: hooks, signed approvals, and signed policy roots with their chain (\<^verbatim>\<open>acl/hook.rs\<close>, \<^verbatim>\<open>acl/attestation.rs\<close>, \<^verbatim>\<open>acl/authority.rs\<close>).
  \<^item> \<^verbatim>\<open>Repository\<close>, \<^verbatim>\<open>Repository_Laws\<close>, \<^verbatim>\<open>Repository_Views\<close>: the repository of \<^verbatim>\<open>repo/mod.rs\<close>, a record of the stores, hooks and audit trail, with one
    definition per operation. The locale \<open>repo_stores\<close> combines the contracts of the two stores; what is proved in it holds for every pair of lawful backends.
  \<^item> \<^verbatim>\<open>Workspace\<close>: building and listing trees, path diffs and the in-memory workspace (\<^verbatim>\<open>repo/ephemeral.rs\<close>).
  \<^item> \<^verbatim>\<open>Secrets\<close>, \<^verbatim>\<open>Secret_Laws\<close>: key providers, envelopes for one and for several recipients, overlays and rekeying (\<^verbatim>\<open>crypto/\<close>, \<^verbatim>\<open>object/secret.rs\<close>). The
    laws of the cipher and of the providers are locales, and the providers of the program are shown to meet theirs when the cipher does.
  \<^item> \<^verbatim>\<open>Sync\<close>, \<^verbatim>\<open>Sync_Laws\<close>: messages and frames, the in-process fetch, push and clone, and the sessions over a connection (\<^verbatim>\<open>sync/wire.rs\<close>, \<^verbatim>\<open>sync/mod.rs\<close>,
    \<^verbatim>\<open>sync/session.rs\<close>, \<^verbatim>\<open>sync/negotiate.rs\<close>). A session is a function of the messages received to the messages sent, a result and the new repository.
  \<^item> \<^verbatim>\<open>Signatures\<close>: everything that is signed, and its verification (\<^verbatim>\<open>collab/object.rs\<close>, \<^verbatim>\<open>pr.rs\<close>, \<^verbatim>\<open>board.rs\<close>, \<^verbatim>\<open>reporecord.rs\<close>, \<^verbatim>\<open>collab/relay.rs\<close>).
  \<^item> \<^verbatim>\<open>Trust\<close>, \<^verbatim>\<open>Trust_Laws\<close>, \<^verbatim>\<open>Search_Laws\<close>: the trust graph, naming, discovery, the ranking of strangers and search on a relay (\<^verbatim>\<open>collab/\<close>).
  \<^item> \<^verbatim>\<open>Collab\<close>, \<^verbatim>\<open>Collab_Laws\<close>: publication and listing of signed records in a repository, proposals and their merge, boards (\<^verbatim>\<open>repo/collab.rs\<close>, \<^verbatim>\<open>repo/pr.rs\<close>,
    \<^verbatim>\<open>repo/board.rs\<close>, \<^verbatim>\<open>repo/reporecord.rs\<close>).
  \<^item> \<^verbatim>\<open>History_Laws\<close>: one step relation over the operations of repositories, publication, push, received packs and fetch, and the theorem that history only grows over it.
  \<^item> \<^verbatim>\<open>Hub\<close>, \<^verbatim>\<open>Collab_Sync\<close>, \<^verbatim>\<open>Hub_Laws\<close>: authentication, the sessions of hubs, and serving, pulling and searching records over a connection
    (\<^verbatim>\<open>sync/authn.rs\<close>, \<^verbatim>\<open>sync/hub.rs\<close>, \<^verbatim>\<open>sync/collab.rs\<close>).
  \<^item> \<^verbatim>\<open>Api\<close>, \<^verbatim>\<open>Api_Laws\<close>: the HTTP server (\<^verbatim>\<open>bole-api/src/\<close>): authentication of requests, configuration, the error envelope and the handlers.
  \<^item> \<^verbatim>\<open>Git_Bridge\<close>, \<^verbatim>\<open>Git_Laws\<close>: import from and projection to git (\<^verbatim>\<open>repo/git_import.rs\<close>, \<^verbatim>\<open>repo/git_projection.rs\<close>). The depth-first search that both directions
    run is proved correct once, in the locale \<open>post_order\<close>, and interpreted for each.

  \<^bold>\<open>State and errors.\<close> A Rust struct is a record and an enum a datatype with the constructors of the source. A function that changes state takes the state and returns it;
  where the code keeps its effects when it fails, the model returns the state with the error. \<^verbatim>\<open>Result\<close> is a sum with the program's error type on the left, and
  the messages of errors are those of the code. Locks serialise operations in the code, so an operation is one step here. A \<^verbatim>\<open>BTreeMap\<close> is a
  sorted association list; a \<^verbatim>\<open>HashMap\<close> is an association list in some order.

  \<^bold>\<open>What is proved.\<close>
  \<^item> Storage: packs within the size limits survive encoding, a damaged frame is never accepted, a sweep keeps what can be reached unless it writes a pack again, transactions on refs refine
    updates of a map and write in one step, and on disk they are atomic also when the machine stops between any two writes, for names that are not directories of each other.
  \<^item> Access: the matcher agrees with the language of a pattern; the walk lists exactly the files of a tree and stops for every readable graph; an advance succeeds exactly when every check
    of the code holds; a merge that is allowed carries no label downwards; histories of protected timelines only grow; overlays resolve to what the clearances allow.
  \<^item> Policy: which chains of policy roots are accepted, and when the approval gate opens.
  \<^item> Exchange: what a push can change, what a fetch can hand out, that a fetch brings the whole history, what a hub and a collaboration endpoint let a
    stranger do, that a puller files only advertised records that verify, and that a search on a relay loses nothing for the client.
  \<^item> Identity: one signature is valid for one statement; sequence numbers never go back; trust paths are shortest paths; a request over HTTP is served only as what its
    credentials prove, and hidden refs have no influence on the answers about refs, for names the backend can hold.
  \<^item> Git: an import that succeeds, and starts from a true map, mirrors every selected branch with its history and contents; it ends; a projection writes only what its
    accessor may read; sanitised names are valid.
  \<^item> Some theorems state behaviour that departs from what the code or its comments mean: repacking twice can lose every object, a push goes around the rules on paths, a fast-forward push
    can be refused, the content view of a repository shows a hidden timeline, and a git repository with a tag named like a branch cannot be imported. Each is stated in general, with the
    conditions under which it happens, and applied to an instance.
  \<^item> A theorem over a locale such as \<open>repo_stores\<close> holds for the backends that meet the contract; its hypothesis \<open>fits\<close> says which names the backend has to hold. The memory backend holds every set of names; the one on
    disk does not hold a name together with one below it. Theorems over \<open>memory_env\<close> are about repositories in memory.

  \<^bold>\<open>Parameters.\<close> Code that is not in the repository is an argument of the definitions that use it: the encodings of objects and messages (postcard), BLAKE3, zstd, Ed25519,
  ChaCha20-Poly1305, hex, SHA-256, the parser of IP addresses, and the git library. Random values, nonces and the clock are arguments of the operations that draw them. What
  a theorem needs of a parameter is a hypothesis of it: that decoding inverts encoding, that the objects at hand do not collide under the hash, that a signature verifies
  only under the key it was made with, or that a ciphertext opens only under its key. Each such theorem is applied to a concrete instance.

  \<^bold>\<open>Bounds and fuel.\<close> The walk over trees has the depth bound of the code, 256, and ends by a measure on its stack. Searches of the object graph end because each
  step visits one more of the finitely many ids of 256 bits, or shortens the worklist; the searches of the trust graph end by the number of keys in the graph. The listing in \<^verbatim>\<open>Workspace\<close> has no bound
  in the code and is a partial function, shown to return where a commit wrote the tree. The translation of git trees recurses without a bound and takes fuel; a fuel above
  the number of git ids is enough whenever no tree contains itself, and then the outcome does not depend on the fuel.

  \<^bold>\<open>Not modelled.\<close> The transports (\<^verbatim>\<open>sync/transport.rs\<close>, \<^verbatim>\<open>sync/http.rs\<close>) move frames over sockets and are input and output only. The command line (\<^verbatim>\<open>bole-cli\<close>) parses arguments and prints
  results of the library. The workspace on disk and materialisation walk a directory under a third-party matcher of ignore files. Opening a repository on disk puts together
  the disk backends, which are modelled on their own. In the HTTP server the matching of routes, the extraction of parameters and the parsing of TOML belong to
  libraries. Concurrency within one operation and failures of the operating system are left out, apart from the stop of the machine during a transaction on refs.
\<close>

end
